(* ===== verification/LS_Prelude.thy ===== *)
theory LS_Prelude
  imports Main "HOL-Library.Word" "HOL-Library.Char_ord" "HOL-Library.List_Lexorder"
    "HOL-Library.Multiset"
begin

text \<open>
  Shared vocabulary of the LogServe development: names for the Go types that occur in every
  component (byte slices, strings, machine integers, fallible results), the generic lemmas on
  lists, maps and results that the component proofs use, and the theorem collections they feed.

  Go strings are byte sequences, so they are modelled by \<^typ>\<open>string\<close>, whose characters are
  the 256 byte values, compared bytewise by the lexicographic order of \<open>List_Lexorder\<close>.
  A Go slice or array is a list. Unsigned machine integers are words of their width; \<open>int64\<close>
  values are kept as \<^typ>\<open>int\<close> with the wrap-around written out by \<open>wrap64\<close> where they are
  subtracted or added.
\<close>

named_theorems status_simps "equations that evaluate status predicates"
named_theorems clone_simps "defensive copies are identities on values"
named_theorems codec_simps "lengths and round trips of the binary encodings"

subsection \<open>Go types\<close>

type_synonym byte = "8 word"
type_synonym bytes = "byte list"
type_synonym u16 = "16 word"
type_synonym u32 = "32 word"
type_synonym u64 = "64 word"
type_synonym i64 = int

definition wrap64 :: "int \<Rightarrow> i64" where
  "wrap64 x = (x + 2 ^ 63) mod 2 ^ 64 - 2 ^ 63"

definition sub64 :: "i64 \<Rightarrow> i64 \<Rightarrow> i64" where
  "sub64 a b = wrap64 (a - b)"

definition add64 :: "i64 \<Rightarrow> i64 \<Rightarrow> i64" where
  "add64 a b = wrap64 (a + b)"

definition is_i64 :: "int \<Rightarrow> bool" where
  "is_i64 x \<longleftrightarrow> - (2 ^ 63) \<le> x \<and> x < 2 ^ 63"

lemma wrap64_id: "is_i64 x \<Longrightarrow> wrap64 x = x"
  by (simp add: wrap64_def is_i64_def)

lemma is_i64_wrap64 [simp]: "is_i64 (wrap64 x)"
proof -
  have "0 \<le> (x + 2 ^ 63) mod 2 ^ 64" and "(x + 2 ^ 63) mod 2 ^ 64 < (2 ^ 64 :: int)"
    by (rule pos_mod_sign, simp) (rule pos_mod_bound, simp)
  then show ?thesis unfolding wrap64_def is_i64_def by simp
qed

lemma sub64_exact: "is_i64 (a - b) \<Longrightarrow> sub64 a b = a - b"
  by (simp add: sub64_def wrap64_id)

lemma add64_exact: "is_i64 (a + b) \<Longrightarrow> add64 a b = a + b"
  by (simp add: add64_def wrap64_id)

text \<open>Two non-negative \<open>int64\<close> values (clock readings) subtract without overflow.\<close>

lemma sub64_nonneg:
  "0 \<le> a \<Longrightarrow> is_i64 a \<Longrightarrow> 0 \<le> b \<Longrightarrow> is_i64 b \<Longrightarrow> sub64 a b = a - b"
  by (rule sub64_exact) (simp add: is_i64_def)

subsection \<open>Strings as byte sequences\<close>

definition byte_of_char :: "char \<Rightarrow> byte" where
  "byte_of_char c = word_of_nat (of_char c)"

definition char_of_byte :: "byte \<Rightarrow> char" where
  "char_of_byte b = char_of (unat b)"

definition bytes_of_string :: "string \<Rightarrow> bytes" where
  "bytes_of_string s = map byte_of_char s"

definition string_of_bytes :: "bytes \<Rightarrow> string" where
  "string_of_bytes bs = map char_of_byte bs"

lemma char_of_byte_of_char [simp]: "char_of_byte (byte_of_char c) = c"
proof -
  have "of_char c < (256 :: nat)" by simp
  then have "unat (word_of_nat (of_char c) :: byte) = of_char c"
    by (simp add: unat_of_nat)
  then show ?thesis by (simp add: char_of_byte_def byte_of_char_def)
qed

lemma byte_of_char_of_byte [simp]: "byte_of_char (char_of_byte b) = b"
proof -
  have "unat b < 256" using unsigned_less [of b, where ?'a = nat] by simp
  then show ?thesis by (simp add: char_of_byte_def byte_of_char_def)
qed

lemma string_of_bytes_of_string [simp]: "string_of_bytes (bytes_of_string s) = s"
  by (simp add: string_of_bytes_def bytes_of_string_def comp_def)

lemma bytes_of_string_of_bytes [simp]: "bytes_of_string (string_of_bytes bs) = bs"
  by (simp add: string_of_bytes_def bytes_of_string_def comp_def)

lemma length_bytes_of_string [codec_simps, simp]: "length (bytes_of_string s) = length s"
  by (simp add: bytes_of_string_def)

lemma length_string_of_bytes [codec_simps, simp]: "length (string_of_bytes bs) = length bs"
  by (simp add: string_of_bytes_def)

subsection \<open>Fallible results\<close>

text \<open>A Go pair \<open>(value, error)\<close> is a sum: \<open>Inl\<close> the error, \<open>Inr\<close> the value.\<close>

definition bind_result :: "'e + 'a \<Rightarrow> ('a \<Rightarrow> 'e + 'b) \<Rightarrow> 'e + 'b" where
  "bind_result r f = (case r of Inl e \<Rightarrow> Inl e | Inr x \<Rightarrow> f x)"

lemma bind_result_simps [simp]:
  "bind_result (Inl e) f = Inl e" "bind_result (Inr x) f = f x"
  by (simp_all add: bind_result_def)

lemma bind_result_Inr_iff:
  "bind_result r f = Inr y \<longleftrightarrow> (\<exists>x. r = Inr x \<and> f x = Inr y)"
  by (cases r) auto

text \<open>
  A loop over a list that stops at the first error: the shape of every Go \<open>for range\<close> body
  that returns early, and of a record iterator whose callback returns an error.
\<close>

fun fold_result :: "('s \<Rightarrow> 'a \<Rightarrow> 'e + 's) \<Rightarrow> 's \<Rightarrow> 'a list \<Rightarrow> 'e + 's" where
  "fold_result f s [] = Inr s"
| "fold_result f s (x # xs) = (case f s x of Inl e \<Rightarrow> Inl e | Inr s' \<Rightarrow> fold_result f s' xs)"

lemma fold_result_append:
  "fold_result f s (xs @ ys) =
     (case fold_result f s xs of Inl e \<Rightarrow> Inl e | Inr s' \<Rightarrow> fold_result f s' ys)"
  by (induction xs arbitrary: s) (auto split: sum.splits)

lemma fold_result_invariant:
  assumes "fold_result f s xs = Inr t" and "I s"
    and "\<And>s x s'. I s \<Longrightarrow> x \<in> set xs \<Longrightarrow> f s x = Inr s' \<Longrightarrow> I s'"
  shows "I t"
  using assms
proof (induction xs arbitrary: s)
  case (Cons x xs)
  from Cons.prems(1) obtain s' where s': "f s x = Inr s'" "fold_result f s' xs = Inr t"
    by (auto split: sum.splits)
  have "I s'" by (rule Cons.prems(3) [OF Cons.prems(2) _ s'(1)]) simp
  moreover have "\<And>s y s'. I s \<Longrightarrow> y \<in> set xs \<Longrightarrow> f s y = Inr s' \<Longrightarrow> I s'"
    by (erule Cons.prems(3) [rotated 2]) simp_all
  ultimately show ?case by (rule Cons.IH [OF s'(2)])
qed simp

lemma fold_result_rel:
  assumes "R s t"
    and "\<And>s t x. R s t \<Longrightarrow> x \<in> set xs \<Longrightarrow> rel_sum (=) R (f s x) (g t x)"
  shows "rel_sum (=) R (fold_result f s xs) (fold_result g t xs)"
  using assms
proof (induction xs arbitrary: s t)
  case (Cons x xs)
  have "rel_sum (=) R (f s x) (g t x)" using Cons.prems by simp
  then show ?case using Cons.prems(2) by (cases "f s x"; cases "g t x") (auto intro: Cons.IH)
qed simp

text \<open>Two loops over the same list that both succeed keep a relation their bodies keep.\<close>

lemma fold_result_both:
  assumes "fold_result f s xs = Inr s'" "fold_result g t xs = Inr t'" "R s t"
    and "\<And>s t x s1 t1. R s t \<Longrightarrow> x \<in> set xs \<Longrightarrow> f s x = Inr s1 \<Longrightarrow> g t x = Inr t1 \<Longrightarrow> R s1 t1"
  shows "R s' t'"
  using assms
proof (induction xs arbitrary: s t)
  case (Cons x xs)
  from Cons.prems(1,2) obtain s1 t1 where st: "f s x = Inr s1" "fold_result f s1 xs = Inr s'"
      "g t x = Inr t1" "fold_result g t1 xs = Inr t'" by (auto split: sum.splits)
  have "R s1 t1" using Cons.prems(4) [OF Cons.prems(3) _ st(1,3)] by simp
  moreover have "\<And>s t y s1 t1. R s t \<Longrightarrow> y \<in> set xs \<Longrightarrow> f s y = Inr s1 \<Longrightarrow> g t y = Inr t1 \<Longrightarrow> R s1 t1"
    by (erule Cons.prems(4)) simp_all
  ultimately show ?case using Cons.IH [OF st(2,4)] by blast
qed simp

subsection \<open>Association of keys with positions\<close>

text \<open>\<open>m[key] = i\<close> for every position \<open>i\<close> of a slice: a later position overwrites.\<close>

definition index_by :: "('a \<Rightarrow> 'k) \<Rightarrow> 'a list \<Rightarrow> 'k \<rightharpoonup> nat" where
  "index_by key xs = foldl (\<lambda>m i. m(key (xs ! i) \<mapsto> i)) Map.empty [0..<length xs]"

lemma foldl_upd_Some:
  "foldl (\<lambda>m i. m(f i \<mapsto> i)) m is k = Some j \<Longrightarrow> (j \<in> set is \<and> f j = k) \<or> m k = Some j"
proof (induction "is" arbitrary: m)
  case (Cons i "is")
  from Cons.IH [of "m(f i \<mapsto> i)"] Cons.prems show ?case by (auto split: if_splits)
qed simp

lemma foldl_upd_not_None:
  "i \<in> set is \<or> m (f i) \<noteq> None \<Longrightarrow> foldl (\<lambda>m i. m(f i \<mapsto> i)) m is (f i) \<noteq> None"
  by (induction "is" arbitrary: m) auto

lemma foldl_upd_None:
  "(\<And>i. i \<in> set is \<Longrightarrow> f i \<noteq> k) \<Longrightarrow> foldl (\<lambda>m i. m(f i \<mapsto> i)) m is k = m k"
  by (induction "is" arbitrary: m) auto

lemma index_by_SomeD: "index_by key xs k = Some i \<Longrightarrow> i < length xs \<and> key (xs ! i) = k"
  unfolding index_by_def by (drule foldl_upd_Some) auto

lemma index_by_nth:
  assumes "distinct (map key xs)" and "i < length xs"
  shows "index_by key xs (key (xs ! i)) = Some i"
proof -
  have "index_by key xs (key (xs ! i)) \<noteq> None"
    unfolding index_by_def using assms(2) by (intro foldl_upd_not_None) auto
  then obtain j where j: "index_by key xs (key (xs ! i)) = Some j" by blast
  then have "j < length xs" "key (xs ! j) = key (xs ! i)" by (auto dest: index_by_SomeD)
  with assms have "j = i"
    by (metis distinct_conv_nth length_map nth_map)
  with j show ?thesis by simp
qed

lemma index_by_None_iff: "index_by key xs k = None \<longleftrightarrow> k \<notin> key ` set xs"
proof
  assume N: "index_by key xs k = None"
  show "k \<notin> key ` set xs"
  proof
    assume "k \<in> key ` set xs"
    then obtain i where "i < length xs" "key (xs ! i) = k" by (auto simp: in_set_conv_nth)
    then have "index_by key xs (key (xs ! i)) \<noteq> None"
      unfolding index_by_def by (intro foldl_upd_not_None) auto
    with N \<open>key (xs ! i) = k\<close> show False by simp
  qed
next
  assume "k \<notin> key ` set xs"
  then show "index_by key xs k = None"
    unfolding index_by_def by (subst foldl_upd_None) (auto simp: image_iff)
qed

lemma index_by_Some_iff:
  "distinct (map key xs) \<Longrightarrow> index_by key xs k = Some i \<longleftrightarrow> i < length xs \<and> key (xs ! i) = k"
  using index_by_SomeD index_by_nth by fastforce

lemma index_by_cong: "map key xs = map key' ys \<Longrightarrow> index_by key xs = index_by key' ys"
proof -
  assume eq: "map key xs = map key' ys"
  then have l: "length xs = length ys" by (metis length_map)
  have "\<And>i. i < length xs \<Longrightarrow> key (xs ! i) = key' (ys ! i)"
    using eq l by (metis nth_map)
  then show ?thesis unfolding index_by_def l
    by (intro foldl_cong) auto
qed

subsection \<open>Counting in lists\<close>

lemma count_list_filter: "P x \<Longrightarrow> count_list (filter P xs) x = count_list xs x"
  by (induction xs) auto

lemma sorted_nth_eq_upt: 
  assumes "sorted xs" "distinct xs" "set xs = {a..<b}"
  shows "xs = [a..<b]"
  using assms by (intro sorted_distinct_set_unique) auto

end
