(* ===== verification/Workflow_Types.thy ===== *)
theory Workflow_Types
  imports LS_Prelude
begin

text \<open>
  Data of \<open>internal/workflow/model.go\<close>: workflow and step definitions, the per-step runtime
  state, and the errors of the package. JSON payloads are opaque byte lists; the payload slices
  that a Go caller may pass as \<open>nil\<close> with a meaning of its own are options.
\<close>

datatype workflow_status =
    WORKFLOW_STATUS_UNSPECIFIED
  | WORKFLOW_STATUS_RUNNING
  | WORKFLOW_STATUS_COMPLETED
  | WORKFLOW_STATUS_FAILED

datatype workflow_step_status =
    WORKFLOW_STEP_STATUS_UNSPECIFIED
  | WORKFLOW_STEP_STATUS_SCHEDULED
  | WORKFLOW_STEP_STATUS_STARTED
  | WORKFLOW_STEP_STATUS_SUCCEEDED
  | WORKFLOW_STEP_STATUS_FAILED

record step_definition =
  sd_StepID :: string
  sd_TaskName :: string
  sd_FunctionName :: string
  sd_FunctionSource :: string
  sd_FunctionRef :: string
  sd_FunctionHash :: string
  sd_ArgsJSON :: bytes
  sd_DependsOn :: "string list"
  sd_MaxAttempts :: int
  sd_TimeoutMs :: i64
  sd_LLMModelName :: string
  sd_LLMModelVersion :: string
  sd_LLMAdapter :: string
  sd_LLMMaxTokens :: u32

record wf_definition =
  def_WorkflowName :: string
  def_FunctionSource :: string
  def_FunctionRef :: string
  def_FunctionHash :: string
  def_ArgsJSON :: bytes
  def_Steps :: "step_definition list"
  def_ResultStepID :: string
  def_MaxAttempts :: int
  def_TimeoutMs :: i64

record step_state =
  ss_StepID :: string
  ss_TaskName :: string
  ss_Status :: workflow_step_status
  ss_Attempts :: u32
  ss_TaskID :: string
  ss_ResultJSON :: bytes
  ss_ResultRef :: string
  ss_Error :: string
  ss_StartedAtMs :: i64
  ss_CompletedAtMs :: i64
  ss_LatencyMs :: i64
  ss_LastInputHash :: string
  ss_ResolvedArgsJSON :: bytes
  ss_LastScheduledAtMs :: i64

text \<open>The zero values of the Go structs.\<close>

definition zero_step_definition :: step_definition where
  "zero_step_definition = \<lparr>sd_StepID = '''', sd_TaskName = '''', sd_FunctionName = '''',
     sd_FunctionSource = '''', sd_FunctionRef = '''', sd_FunctionHash = '''', sd_ArgsJSON = [],
     sd_DependsOn = [], sd_MaxAttempts = 0, sd_TimeoutMs = 0, sd_LLMModelName = '''',
     sd_LLMModelVersion = '''', sd_LLMAdapter = '''', sd_LLMMaxTokens = 0\<rparr>"

definition zero_definition :: wf_definition where
  "zero_definition = \<lparr>def_WorkflowName = '''', def_FunctionSource = '''', def_FunctionRef = '''',
     def_FunctionHash = '''', def_ArgsJSON = [], def_Steps = [], def_ResultStepID = '''',
     def_MaxAttempts = 0, def_TimeoutMs = 0\<rparr>"

definition zero_step_state :: step_state where
  "zero_step_state = \<lparr>ss_StepID = '''', ss_TaskName = '''',
     ss_Status = WORKFLOW_STEP_STATUS_UNSPECIFIED, ss_Attempts = 0, ss_TaskID = '''',
     ss_ResultJSON = [], ss_ResultRef = '''', ss_Error = '''', ss_StartedAtMs = 0,
     ss_CompletedAtMs = 0, ss_LatencyMs = 0, ss_LastInputHash = '''', ss_ResolvedArgsJSON = [],
     ss_LastScheduledAtMs = 0\<rparr>"

datatype wf_error =
    EmptyWorkflow
  | EmptyStepID nat
  | DuplicateStepID string
  | ResultStepRequired
  | ResultStepUnknown string
  | EmptyDependency string
  | UnknownDependency string string
  | CycleIncludesStep string
  | CycleDetected
  | StartEventNotFound
  | DecodeError string
  | StepRefNotString
  | ReferencedStepNotFound
  | ResultLoaderRequired
  | LoaderError string

abbreviation step_succeeded :: "step_state \<Rightarrow> bool" where
  "step_succeeded s \<equiv> ss_Status s = WORKFLOW_STEP_STATUS_SUCCEEDED"

subsection \<open>Defensive copies\<close>

text \<open>
  \<open>cloneStepState\<close>, \<open>cloneStepStates\<close> and \<open>CloneDefinition\<close> rebuild every mutable slice. On
  values they are identities; the model writes them where the code calls them.
\<close>

definition cloneStepState :: "step_state \<Rightarrow> step_state" where
  "cloneStepState step =
     step\<lparr>ss_ResultJSON := [] @ ss_ResultJSON step,
          ss_ResolvedArgsJSON := [] @ ss_ResolvedArgsJSON step\<rparr>"

definition cloneStepStates :: "step_state list \<Rightarrow> step_state list" where
  "cloneStepStates source = map cloneStepState source"

definition CloneDefinition :: "wf_definition \<Rightarrow> wf_definition" where
  "CloneDefinition def =
     def\<lparr>def_ArgsJSON := [] @ def_ArgsJSON def,
         def_Steps := map (\<lambda>s. s\<lparr>sd_ArgsJSON := [] @ sd_ArgsJSON s,
                                  sd_DependsOn := [] @ sd_DependsOn s\<rparr>) (def_Steps def)\<rparr>"

lemma cloneStepState_id [clone_simps, simp]: "cloneStepState s = s"
  by (simp add: cloneStepState_def)

lemma cloneStepStates_id [clone_simps, simp]: "cloneStepStates ss = ss"
  by (simp add: cloneStepStates_def map_idI)

lemma CloneDefinition_id [clone_simps, simp]: "CloneDefinition d = d"
  by (simp add: CloneDefinition_def)

end
