(* ===== verification/Topo_Sort.thy ===== *)
theory Topo_Sort
  imports Workflow_Types
begin

text \<open>
  Kahn's topological sort of \<open>internal/workflow/model.go\<close> (\<open>topologicalStepDefinitions\<close>,
  \<open>normalizeDefinition\<close>). The lemmas show that the sort returns a permutation in which every
  dependency precedes its dependents, that it succeeds exactly on acyclic definitions with known
  dependencies, and that it is idempotent.
\<close>

subsection \<open>Kahn's algorithm\<close>

text \<open>
  The nested loop over steps and dependencies fills \<open>indegree\<close> and \<open>outgoing\<close> and stops at the
  first unknown dependency.
\<close>

definition add_edge :: "(string \<rightharpoonup> nat) \<Rightarrow> step_definition \<Rightarrow> nat \<Rightarrow> int list \<times> nat list list \<Rightarrow>
    string \<Rightarrow> wf_error + int list \<times> nat list list" where
  "add_edge byID step i = (\<lambda>(indegree, outgoing) dep.
     case byID dep of
       None \<Rightarrow> Inl (UnknownDependency (sd_StepID step) dep)
     | Some depIdx \<Rightarrow>
         Inr (indegree[i := indegree ! i + 1], outgoing[depIdx := outgoing ! depIdx @ [i]]))"

definition collect_edges :: "step_definition list \<Rightarrow> wf_error + int list \<times> nat list list" where
  "collect_edges steps =
     (let byID = index_by sd_StepID steps; n = length steps in
      fold_result (\<lambda>acc i. fold_result (add_edge byID (steps ! i) i) acc (sd_DependsOn (steps ! i)))
        (replicate n 0, replicate n []) [0..<n])"

text \<open>
  One iteration of the main loop decrements the counter of every successor and enqueues those
  that reach zero. Successor indices come from ranging over \<open>steps\<close>, so they are in bounds;
  the guard keeps the function total.
\<close>

definition relax_one :: "int list \<times> nat list \<Rightarrow> nat \<Rightarrow> int list \<times> nat list" where
  "relax_one = (\<lambda>(indegree, queue) next.
     if next < length indegree then
       (let d = indegree ! next - 1 in
        (indegree[next := d], if d = 0 then queue @ [next] else queue))
     else (indegree, queue))"

definition relax :: "nat list \<Rightarrow> int list \<times> nat list \<Rightarrow> int list \<times> nat list" where
  "relax nexts acc = foldl relax_one acc nexts"

definition pending :: "int list \<Rightarrow> nat" where
  "pending indegree = length (filter (\<lambda>d. 0 < d) indegree)"

lemma pending_decr:
  assumes "i < length ind"
  shows "pending (ind[i := ind ! i - 1]) + (if ind ! i - 1 = 0 then 1 else 0) \<le> pending ind"
proof -
  have split: "ind = take i ind @ ind ! i # drop (Suc i) ind"
    using assms by (simp add: id_take_nth_drop)
  have "pending ind = pending (take i ind) + (if 0 < ind ! i then 1 else 0) + pending (drop (Suc i) ind)"
    unfolding pending_def by (subst split) simp
  moreover have "pending (ind[i := ind ! i - 1]) =
    pending (take i ind) + (if 0 < ind ! i - 1 then 1 else 0) + pending (drop (Suc i) ind)"
    unfolding pending_def using assms by (simp add: upd_conv_take_nth_drop)
  ultimately show ?thesis by auto
qed

lemma relax_pending:
  "relax nexts (ind, q) = (ind', q') \<Longrightarrow> pending ind' + length q' \<le> pending ind + length q"
proof (induction nexts arbitrary: ind q)
  case Nil
  then show ?case by (simp add: relax_def)
next
  case (Cons x xs)
  obtain ind1 q1 where s: "relax_one (ind, q) x = (ind1, q1)" by fastforce
  then have "pending ind1 + length q1 \<le> pending ind + length q"
    using pending_decr [of x ind] by (auto simp: relax_one_def Let_def split: if_splits)
  moreover have "relax xs (ind1, q1) = (ind', q')"
    using Cons.prems s by (simp add: relax_def)
  ultimately show ?case using Cons.IH by fastforce
qed

lemma relax_queue_prefix:
  "relax nexts (ind, q) = (ind', q') \<Longrightarrow> \<exists>r. q' = q @ r"
proof (induction nexts arbitrary: ind q)
  case (Cons x xs)
  obtain ind1 q1 where s: "relax_one (ind, q) x = (ind1, q1)" by fastforce
  then have "\<exists>r. q1 = q @ r" by (auto simp: relax_one_def Let_def split: if_splits)
  moreover have "\<exists>r. q' = q1 @ r" using Cons s by (simp add: relax_def)
  ultimately show ?case by auto
qed (simp add: relax_def)

lemma relax_measure:
  assumes "relax nexts (ind, q) = (ind', q')" and "h < length q"
  shows "pending ind' + (length q' - Suc h) < pending ind + (length q - h)"
proof -
  from assms(1) obtain r where "q' = q @ r" using relax_queue_prefix by blast
  with relax_pending [OF assms(1)] assms(2) show ?thesis by simp
qed

function kahn :: "step_definition list \<Rightarrow> nat list list \<Rightarrow> int list \<Rightarrow> nat list \<Rightarrow> nat \<Rightarrow>
    step_definition list \<Rightarrow> step_definition list" where
  "kahn steps outgoing indegree queue head ordered =
     (if head < length queue then
        (case relax (outgoing ! (queue ! head)) (indegree, queue) of (indegree', queue') \<Rightarrow>
           kahn steps outgoing indegree' queue' (Suc head) (ordered @ [steps ! (queue ! head)]))
      else ordered)"
  by pat_completeness auto
termination
  by (relation "measure (\<lambda>(steps, outgoing, ind, q, h, ord). pending ind + (length q - h))")
     (auto dest: relax_measure [OF sym])

declare kahn.simps [simp del]

definition topologicalStepDefinitions ::
    "step_definition list \<Rightarrow> wf_error + step_definition list" where
  "topologicalStepDefinitions steps =
     (case collect_edges steps of
        Inl e \<Rightarrow> Inl e
      | Inr (indegree, outgoing) \<Rightarrow>
          (let queue = filter (\<lambda>i. indegree ! i = 0) [0..<length steps];
               ordered = kahn steps outgoing indegree queue 0 []
           in if length ordered \<noteq> length steps then Inl CycleDetected else Inr ordered))"

definition normalizeDefinition :: "wf_definition \<Rightarrow> wf_definition" where
  "normalizeDefinition def =
     (case topologicalStepDefinitions (def_Steps def) of
        Inl _ \<Rightarrow> def
      | Inr ordered \<Rightarrow> def\<lparr>def_Steps := ordered\<rparr>)"

subsection \<open>Correctness of the sort\<close>

definition deps_known :: "step_definition list \<Rightarrow> bool" where
  "deps_known steps \<longleftrightarrow> (\<forall>s \<in> set steps. set (sd_DependsOn s) \<subseteq> sd_StepID ` set steps)"

definition preds :: "step_definition list \<Rightarrow> nat \<Rightarrow> nat list" where
  "preds steps i = map (\<lambda>d. the (index_by sd_StepID steps d)) (sd_DependsOn (steps ! i))"

definition succs :: "step_definition list \<Rightarrow> nat \<Rightarrow> nat \<Rightarrow> nat list" where
  "succs steps k j = concat (map (\<lambda>i. replicate (count_list (preds steps i) j) i) [0..<k])"

lemma add_edge_apply [simp]:
  "add_edge m step i (ind, out) dep =
     (case m dep of None \<Rightarrow> Inl (UnknownDependency (sd_StepID step) dep)
      | Some j \<Rightarrow> Inr (ind[i := ind ! i + 1], out[j := out ! j @ [i]]))"
  by (simp add: add_edge_def)

lemma fold_add_edge:
  assumes "i < length ind" and "\<forall>d \<in> set ds. \<exists>j. m d = Some j \<and> j < length out"
  shows "fold_result (add_edge m step i) (ind, out) ds =
    Inr (ind[i := ind ! i + int (length ds)],
         map (\<lambda>j. out ! j @ replicate (count_list (map (\<lambda>d. the (m d)) ds) j) i) [0..<length out])"
  using assms
proof (induction ds arbitrary: ind out)
  case Nil
  then show ?case by (simp add: map_nth)
next
  case (Cons d ds)
  then obtain j where j: "m d = Some j" "j < length out" by auto
  show ?case
    using Cons.prems j
    by (auto simp: Cons.IH nth_list_update replicate_append_same intro!: nth_equalityI)
qed

lemma fold_add_edge_unknown:
  assumes "\<exists>d \<in> set ds. m d = None"
  shows "\<exists>d \<in> set ds. m d = None \<and>
    fold_result (add_edge m step i) acc ds = Inl (UnknownDependency (sd_StepID step) d)"
  using assms
proof (induction ds arbitrary: acc)
  case (Cons d ds)
  show ?case
  proof (cases "m d")
    case None
    then show ?thesis by (cases acc) auto
  next
    case (Some j)
    then have "\<exists>d \<in> set ds. m d = None" using Cons.prems by auto
    from Cons.IH [OF this] Some show ?thesis by (cases acc) auto
  qed
qed simp

lemma fold_add_edge_ok:
  "\<forall>d \<in> set ds. m d \<noteq> None \<Longrightarrow> \<exists>acc'. fold_result (add_edge m step i) acc ds = Inr acc'"
proof (induction ds arbitrary: acc)
  case (Cons d ds)
  then obtain j where "m d = Some j" by auto
  with Cons show ?case by (cases acc) auto
qed simp

lemma deps_known_index:
  assumes "deps_known steps" "i < length steps" "d \<in> set (sd_DependsOn (steps ! i))"
  shows "\<exists>j. index_by sd_StepID steps d = Some j \<and> j < length steps"
proof -
  have "d \<in> sd_StepID ` set steps" using assms by (auto simp: deps_known_def)
  then show ?thesis using index_by_None_iff [of sd_StepID steps d] index_by_SomeD
    by (metis option.exhaust)
qed

lemma collect_upto:
  assumes "deps_known steps" and "k \<le> length steps"
  shows "fold_result (\<lambda>acc i. fold_result (add_edge (index_by sd_StepID steps) (steps ! i) i) acc
            (sd_DependsOn (steps ! i)))
          (replicate (length steps) 0, replicate (length steps) []) [0..<k] =
    Inr (map (\<lambda>i. if i < k then int (length (sd_DependsOn (steps ! i))) else 0) [0..<length steps],
         map (succs steps k) [0..<length steps])"
  using assms(2)
proof (induction k)
  case 0
  then show ?case by (auto simp: succs_def intro!: nth_equalityI)
next
  case (Suc k)
  then show ?case
    using deps_known_index [OF assms(1), of k]
    by (auto simp: fold_result_append fold_add_edge succs_def preds_def nth_list_update
        intro!: nth_equalityI)
qed

lemma collect_edges_known:
  "deps_known steps \<Longrightarrow> collect_edges steps =
     Inr (map (\<lambda>i. int (length (sd_DependsOn (steps ! i)))) [0..<length steps],
          map (succs steps (length steps)) [0..<length steps])"
  using collect_upto [of steps "length steps"]
  by (auto simp: collect_edges_def Let_def cong: map_cong intro!: map_cong)

lemma collect_edges_unknown:
  assumes "\<not> deps_known steps"
  shows "\<exists>s d. collect_edges steps = Inl (UnknownDependency s d)"
proof -
  let ?m = "index_by sd_StepID steps"
  let ?f = "\<lambda>acc i. fold_result (add_edge ?m (steps ! i) i) acc (sd_DependsOn (steps ! i))"
  have "\<exists>i \<in> set is. \<exists>d \<in> set (sd_DependsOn (steps ! i)). ?m d = None \<Longrightarrow>
    \<exists>s d. fold_result ?f acc is = Inl (UnknownDependency s d)" for "is" acc
  proof (induction "is" arbitrary: acc)
    case (Cons i "is")
    show ?case
    proof (cases "?f acc i")
      case (Inl e)
      have "\<exists>d \<in> set (sd_DependsOn (steps ! i)). ?m d = None"
      proof (rule ccontr)
        assume "\<not> ?thesis"
        then show False using Inl fold_add_edge_ok [of "sd_DependsOn (steps ! i)" ?m "steps ! i" i acc]
          by auto
      qed
      from fold_add_edge_unknown [OF this, of "steps ! i" i acc] show ?thesis by auto
    next
      case (Inr acc')
      then have "\<not> (\<exists>d \<in> set (sd_DependsOn (steps ! i)). ?m d = None)"
        using fold_add_edge_unknown [of "sd_DependsOn (steps ! i)" ?m "steps ! i" i acc] Inr
        by (metis Inl_Inr_False)
      with Cons Inr show ?thesis by auto
    qed
  qed simp
  moreover have "\<exists>i \<in> set [0..<length steps]. \<exists>d \<in> set (sd_DependsOn (steps ! i)). ?m d = None"
  proof -
    obtain s d where sd: "s \<in> set steps" "d \<in> set (sd_DependsOn s)" "d \<notin> sd_StepID ` set steps"
      using assms by (auto simp: deps_known_def)
    then obtain i where "i < length steps" "steps ! i = s" by (auto simp: in_set_conv_nth)
    with sd show ?thesis using index_by_None_iff [of sd_StepID steps d] by force
  qed
  ultimately show ?thesis by (simp add: collect_edges_def Let_def)
qed


lemma count_list_replicate: "count_list (replicate n x) y = (if x = y then n else 0)"
  by (induction n) auto

lemma count_succs: "count_list (succs steps k j) i = (if i < k then count_list (preds steps i) j else 0)"
  by (induction k) (auto simp: succs_def count_list_append count_list_replicate less_Suc_eq)

lemma set_succs: "set (succs steps k j) = {i. i < k \<and> j \<in> set (preds steps i)}"
  by (auto simp: succs_def count_list_0_iff)

lemma sorted_succs: "sorted (succs steps k j)"
  by (induction k) (auto simp: succs_def sorted_append)

lemma relax_spec:
  assumes "relax L (ind, q) = (ind', q')" and "set L \<subseteq> {..<length ind}"
  shows "\<exists>r. q' = q @ r \<and> distinct r \<and> (sorted L \<longrightarrow> sorted r) \<and>
      set r = {i \<in> set L. 0 < ind ! i \<and> ind ! i \<le> int (count_list L i)} \<and>
      length ind' = length ind \<and> (\<forall>i < length ind. ind' ! i = ind ! i - int (count_list L i))"
  using assms
proof (induction L arbitrary: ind q)
  case Nil
  then show ?case by (simp add: relax_def)
next
  case (Cons x L)
  let ?d = "ind ! x - 1"
  let ?ind = "ind[x := ?d]" and ?q = "if ?d = 0 then q @ [x] else q"
  have x: "x < length ind" using Cons.prems by simp
  have "relax L (?ind, ?q) = (ind', q')"
    using Cons.prems(1) x by (simp add: relax_def relax_one_def Let_def)
  moreover have "set L \<subseteq> {..<length ?ind}" using Cons.prems(2) by auto
  ultimately obtain r where r: "q' = ?q @ r" "distinct r" "sorted L \<longrightarrow> sorted r"
      "set r = {i \<in> set L. 0 < ?ind ! i \<and> ?ind ! i \<le> int (count_list L i)}"
      "length ind' = length ?ind" "\<forall>i < length ?ind. ind' ! i = ?ind ! i - int (count_list L i)"
    using Cons.IH by blast
  let ?r = "if ?d = 0 then x # r else r"
  have nx: "x \<notin> set r" if "?d = 0" using that x r(4) by simp
  have "q' = q @ ?r" "distinct ?r" using r(1,2) nx by auto
  moreover have "sorted (x # L) \<longrightarrow> sorted ?r" using r(3,4) by auto
  moreover have "set ?r = {i \<in> set (x # L). 0 < ind ! i \<and> ind ! i \<le> int (count_list (x # L) i)}"
    (is "_ = ?S")
  proof (intro set_eqI)
    fix i
    have mem: "i \<in> set r \<longleftrightarrow> i \<in> set L \<and> 0 < ?ind ! i \<and> ?ind ! i \<le> int (count_list L i)"
      by (simp only: r(4) mem_Collect_eq)
    show "i \<in> set ?r \<longleftrightarrow> i \<in> ?S"
    proof (cases "i = x")
      case True
      moreover have "x \<notin> set L \<Longrightarrow> count_list L x = 0" by (simp add: count_list_0_iff)
      ultimately show ?thesis using mem x by (cases "?d = 0"; cases "x \<in> set L") auto
    next
      case False
      then show ?thesis using mem by (simp add: nth_list_update)
    qed
  qed
  moreover have "length ind' = length ind \<and> (\<forall>i < length ind. ind' ! i = ind ! i - int (count_list (x # L) i))"
    using r(5,6) x by (auto simp: nth_list_update)
  ultimately show ?case by blast
qed


text \<open>
  The invariant of the main loop: the counters count the dependencies that have not been
  processed, the queue holds exactly the steps whose dependencies have all been processed, and
  every queued step comes after its dependencies.
\<close>

definition kahn_inv :: "step_definition list \<Rightarrow> nat \<Rightarrow> nat list \<Rightarrow> int list \<Rightarrow> bool" where
  "kahn_inv steps h q ind \<longleftrightarrow>
     h \<le> length q \<and> distinct q \<and> set q \<subseteq> {..<length steps} \<and> length ind = length steps \<and>
     (\<forall>i < length steps. ind ! i = int (length (filter (\<lambda>j. j \<notin> set (take h q)) (preds steps i)))) \<and>
     (\<forall>i < length steps. i \<in> set q \<longleftrightarrow> set (preds steps i) \<subseteq> set (take h q)) \<and>
     (\<forall>p < length q. set (preds steps (q ! p)) \<subseteq> set (take p q))"

lemma length_filter_insert:
  "x \<notin> A \<Longrightarrow> length (filter (\<lambda>j. j \<notin> A) xs) =
     length (filter (\<lambda>j. j \<notin> insert x A) xs) + count_list xs x"
  by (induction xs) auto

lemma kahn_inv_step:
  assumes inv: "kahn_inv steps h q ind" and h: "h < length q"
    and rel: "relax (succs steps (length steps) (q ! h)) (ind, q) = (ind', q')"
  shows "kahn_inv steps (Suc h) q' ind'"
proof -
  let ?n = "length steps" and ?x = "q ! h"
  let ?L = "succs steps ?n ?x"
  have len: "length ind = ?n" using inv by (simp add: kahn_inv_def)
  then have "set ?L \<subseteq> {..<length ind}" by (auto simp: set_succs)
  from relax_spec [OF rel this] obtain r where r: "q' = q @ r" "distinct r"
      "set r = {i \<in> set ?L. 0 < ind ! i \<and> ind ! i \<le> int (count_list ?L i)}"
      "length ind' = ?n" "\<forall>i < ?n. ind' ! i = ind ! i - int (count_list ?L i)"
    using len by auto
  have tk: "take (Suc h) q' = take h q @ [?x]" using h r(1) by (simp add: take_Suc_conv_app_nth)
  have dq: "distinct q" using inv by (simp add: kahn_inv_def)
  have x: "?x \<notin> set (take h q)" using dq h by (simp add: distinct_conv_nth in_set_conv_nth)
  have cnt: "ind' ! i = int (length (filter (\<lambda>j. j \<notin> set (take (Suc h) q')) (preds steps i)))" if "i < ?n" for i
    using that r(5) inv length_filter_insert [OF x, of "preds steps i"]
    by (simp add: kahn_inv_def tk count_succs)
  have r': "i \<in> set r \<longleftrightarrow> i < ?n \<and> ?x \<in> set (preds steps i) \<and> set (preds steps i) \<subseteq> set (take (Suc h) q')" for i
  proof (cases "i < ?n \<and> ?x \<in> set (preds steps i)")
    case True
    have "0 < ind ! i"
      using True x inv by (auto simp: kahn_inv_def length_greater_0_conv filter_empty_conv)
    moreover have "ind ! i \<le> int (count_list ?L i) \<longleftrightarrow> ind' ! i = 0"
    proof -
      have "ind' ! i = ind ! i - int (count_list ?L i)" "0 \<le> ind' ! i"
        using True r(5) cnt [of i] by simp_all
      then show ?thesis by linarith
    qed
    moreover have "ind' ! i = 0 \<longleftrightarrow> set (preds steps i) \<subseteq> set (take (Suc h) q')"
      using True cnt [of i] by (auto simp: filter_empty_conv)
    ultimately show ?thesis using True by (simp add: r(3) set_succs)
  qed (auto simp: r(3) set_succs)
  have mem: "i \<in> set q' \<longleftrightarrow> set (preds steps i) \<subseteq> set (take (Suc h) q')" if "i < ?n" for i
  proof (cases "?x \<in> set (preds steps i)")
    case True
    then have "i \<notin> set q" using inv x that by (auto simp: kahn_inv_def)
    with True that show ?thesis by (simp add: r(1) r')
  next
    case False
    then have "i \<in> set q' \<longleftrightarrow> i \<in> set q" by (simp add: r(1) r')
    also have "\<dots> \<longleftrightarrow> set (preds steps i) \<subseteq> set (take h q)" using inv that by (simp add: kahn_inv_def)
    also have "\<dots> \<longleftrightarrow> set (preds steps i) \<subseteq> set (take (Suc h) q')" using False by (auto simp: tk)
    finally show ?thesis .
  qed
  have "set q \<inter> set r = {}" using inv x by (auto simp: r' kahn_inv_def)
  then have "distinct q'" using dq r(1,2) by simp
  moreover have "set q' \<subseteq> {..<?n}" using inv r' by (auto simp: r(1) kahn_inv_def)
  moreover have "set (preds steps (q' ! p)) \<subseteq> set (take p q')" if p: "p < length q'" for p
  proof (cases "p < length q")
    case True
    then show ?thesis using inv by (simp add: kahn_inv_def r(1) nth_append)
  next
    case False
    then have "q' ! p \<in> set r" using p r(1) by (simp add: nth_append)
    then have "set (preds steps (q' ! p)) \<subseteq> set (take (Suc h) q')" using r' by blast
    moreover have "set (take (Suc h) q') \<subseteq> set (take p q')"
      using False h by (intro set_take_subset_set_take) simp
    ultimately show ?thesis by blast
  qed
  ultimately show ?thesis using cnt mem h r(1,4) by (simp add: kahn_inv_def)
qed

lemma kahn_run:
  assumes "kahn_inv steps h q ind"
  shows "\<exists>q' ind'. kahn steps (map (succs steps (length steps)) [0..<length steps]) ind q h
            (map ((!) steps) (take h q)) = map ((!) steps) q' \<and> kahn_inv steps (length q') q' ind'"
  using assms
proof (induction "pending ind + (length q - h)" arbitrary: ind q h rule: less_induct)
  case less
  let ?out = "map (succs steps (length steps)) [0..<length steps]"
  show ?case
  proof (cases "h < length q")
    case False
    then have "h = length q" using less.prems by (simp add: kahn_inv_def)
    then show ?thesis using less.prems by (auto simp: kahn.simps [of _ _ _ q])
  next
    case True
    obtain ind1 q1 where rel: "relax (?out ! (q ! h)) (ind, q) = (ind1, q1)" by fastforce
    have "q ! h < length steps" using less.prems nth_mem [OF True] by (auto simp: kahn_inv_def)
    then have rel': "relax (succs steps (length steps) (q ! h)) (ind, q) = (ind1, q1)"
      using rel by simp
    have inv1: "kahn_inv steps (Suc h) q1 ind1" by (rule kahn_inv_step [OF less.prems True rel'])
    obtain r where "q1 = q @ r" using relax_queue_prefix [OF rel'] by blast
    then have tk: "map ((!) steps) (take (Suc h) q1) = map ((!) steps) (take h q) @ [steps ! (q ! h)]"
      using True by (simp add: take_Suc_conv_app_nth)
    have "kahn steps ?out ind q h (map ((!) steps) (take h q)) =
        kahn steps ?out ind1 q1 (Suc h) (map ((!) steps) (take (Suc h) q1))"
      using True rel by (subst kahn.simps) (simp add: tk)
    then show ?thesis using less.hyps [OF relax_measure [OF rel' True] inv1] by simp
  qed
qed

lemma kahn_inv_init:
  assumes "deps_known steps"
  shows "kahn_inv steps 0
    (filter (\<lambda>i. map (\<lambda>i. int (length (sd_DependsOn (steps ! i)))) [0..<length steps] ! i = 0) [0..<length steps])
    (map (\<lambda>i. int (length (sd_DependsOn (steps ! i)))) [0..<length steps])"
proof -
  let ?ind = "map (\<lambda>i. int (length (sd_DependsOn (steps ! i)))) [0..<length steps]"
  let ?q = "filter (\<lambda>i. ?ind ! i = 0) [0..<length steps]"
  have e: "preds steps i = []" if "i \<in> set ?q" for i
    using that by (auto simp: preds_def)
  have "set (preds steps (?q ! p)) \<subseteq> set (take p ?q)" if "p < length ?q" for p
    using e [OF nth_mem [OF that]] by simp
  then show ?thesis by (auto simp: kahn_inv_def preds_def)
qed

text \<open>The shape of the result: a queue of indices that satisfies the invariant at its end.\<close>

lemma topological_known:
  assumes "deps_known steps"
  shows "\<exists>q ind. kahn_inv steps (length q) q ind \<and>
     topologicalStepDefinitions steps =
       (if length q = length steps then Inr (map ((!) steps) q) else Inl CycleDetected)"
  using kahn_run [OF kahn_inv_init [OF assms]]
  by (force simp: topologicalStepDefinitions_def collect_edges_known [OF assms] Let_def)

definition dep_rel :: "step_definition list \<Rightarrow> (string \<times> string) set" where
  "dep_rel steps = {(d, sd_StepID s) | d s. s \<in> set steps \<and> d \<in> set (sd_DependsOn s)}"

definition topo_ordered :: "step_definition list \<Rightarrow> bool" where
  "topo_ordered steps \<longleftrightarrow>
     (\<forall>i < length steps. \<forall>d \<in> set (sd_DependsOn (steps ! i)). \<exists>j < i. sd_StepID (steps ! j) = d)"

abbreviation distinct_ids :: "step_definition list \<Rightarrow> bool" where
  "distinct_ids steps \<equiv> distinct (map sd_StepID steps)"

lemma finite_dep_rel: "finite (dep_rel steps)"
proof -
  have "dep_rel steps = (\<Union>s \<in> set steps. (\<lambda>d. (d, sd_StepID s)) ` set (sd_DependsOn s))"
    by (auto simp: dep_rel_def)
  then show ?thesis by simp
qed

lemma preds_mem:
  assumes "deps_known steps" "i < length steps" "j \<in> set (preds steps i)"
  shows "j < length steps \<and> sd_StepID (steps ! j) \<in> set (sd_DependsOn (steps ! i))"
proof -
  obtain d where d: "d \<in> set (sd_DependsOn (steps ! i))" "j = the (index_by sd_StepID steps d)"
    using assms(3) by (auto simp: preds_def)
  with deps_known_index [OF assms(1,2)] obtain k where "index_by sd_StepID steps d = Some k" by blast
  with d index_by_SomeD [OF this] show ?thesis by simp
qed

lemma kahn_complete:
  assumes "deps_known steps" "distinct_ids steps" "acyclic (dep_rel steps)"
    and inv: "kahn_inv steps (length q) q ind"
  shows "length q = length steps"
proof -
  have "wf (dep_rel steps)" using finite_dep_rel assms(3) by (rule finite_acyclic_wf)
  then have "\<forall>i < length steps. sd_StepID (steps ! i) = x \<longrightarrow> i \<in> set q" for x
  proof (induction x)
    case (less x)
    show ?case
    proof (intro allI impI)
      fix i assume i: "i < length steps" "sd_StepID (steps ! i) = x"
      have "j \<in> set q" if "j \<in> set (preds steps i)" for j
      proof -
        from preds_mem [OF assms(1) i(1) that] have j: "j < length steps"
          and "(sd_StepID (steps ! j), x) \<in> dep_rel steps"
          using i nth_mem [OF i(1)] by (auto simp: dep_rel_def)
        with less.IH show ?thesis by blast
      qed
      then show "i \<in> set q" using inv i(1) by (auto simp: kahn_inv_def)
    qed
  qed
  then have "set q = {..<length steps}" using inv by (auto simp: kahn_inv_def)
  moreover have "distinct q" using inv by (simp add: kahn_inv_def)
  ultimately show ?thesis by (metis card_lessThan distinct_card)
qed

lemma kahn_inv_full:
  assumes "kahn_inv steps (length q) q ind" "length q = length steps"
  shows "distinct q" "set q = {..<length steps}"
proof -
  show "distinct q" using assms(1) by (simp add: kahn_inv_def)
  then have card: "card (set q) = card {..<length steps}"
    using assms(2) by (simp add: distinct_card)
  have "set q \<subseteq> {..<length steps}" using assms(1) by (simp add: kahn_inv_def)
  from card_subset_eq [OF finite_lessThan this card] show "set q = {..<length steps}" .
qed

lemma kahn_full_mset:
  assumes "kahn_inv steps (length q) q ind" "length q = length steps"
  shows "mset (map ((!) steps) q) = mset steps"
proof -
  have "set q = set [0..<length steps]" 
    by (simp only: kahn_inv_full(2) [OF assms] set_upt lessThan_atLeast0)
  then have "mset q = mset [0..<length steps]"
    using set_eq_iff_mset_eq_distinct [OF kahn_inv_full(1) [OF assms] distinct_upt] by blast
  then have "mset (map ((!) steps) q) = mset (map ((!) steps) [0..<length steps])"
    by (simp only: mset_map)
  then show ?thesis by (simp only: map_nth)
qed

lemma kahn_full_ordered:
  assumes "deps_known steps" and inv: "kahn_inv steps (length q) q ind" and len: "length q = length steps"
  shows "topo_ordered (map ((!) steps) q)"
  unfolding topo_ordered_def
proof (intro allI impI ballI)
  fix p d
  assume p: "p < length (map ((!) steps) q)" and d: "d \<in> set (sd_DependsOn (map ((!) steps) q ! p))"
  have qp: "q ! p < length steps" using kahn_inv_full(2) [OF inv len] p by (metis length_map lessThan_iff nth_mem)
  obtain j where j: "index_by sd_StepID steps d = Some j"
    using deps_known_index [OF assms(1) qp] d p by auto
  then have "j \<in> set (preds steps (q ! p))" using d p by (force simp: preds_def)
  then have "j \<in> set (take p q)" using inv p by (auto simp: kahn_inv_def)
  then obtain k where "k < p" "q ! k = j" using p by (auto simp: in_set_conv_nth)
  with index_by_SomeD [OF j] p show "\<exists>k < p. sd_StepID (map ((!) steps) q ! k) = d" by auto
qed

lemma topo_ordered_acyclic:
  assumes "topo_ordered steps" "distinct_ids steps"
  shows "acyclic (dep_rel steps)"
proof -
  let ?r = "\<lambda>x. the (index_by sd_StepID steps x)"
  have "dep_rel steps \<subseteq> measure ?r"
  proof
    fix e assume "e \<in> dep_rel steps"
    then obtain i d where e: "e = (d, sd_StepID (steps ! i))" "i < length steps"
        "d \<in> set (sd_DependsOn (steps ! i))"
      by (auto simp: dep_rel_def in_set_conv_nth)
    then obtain j where "j < i" "sd_StepID (steps ! j) = d" using assms(1) by (auto simp: topo_ordered_def)
    then show "e \<in> measure ?r" using e index_by_nth [OF assms(2), of i] index_by_nth [OF assms(2), of j]
      by auto
  qed
  then have "wf (dep_rel steps)" using wf_subset [OF wf_measure] by blast
  then show ?thesis by (rule wf_acyclic)
qed

lemma dep_rel_mset: "mset xs = mset ys \<Longrightarrow> dep_rel xs = dep_rel ys"
  by (simp add: dep_rel_def set_mset_mset [symmetric] del: set_mset_mset)

lemma distinct_ids_mset: "mset xs = mset ys \<Longrightarrow> distinct_ids xs \<longleftrightarrow> distinct_ids ys"
  by (metis mset_eq_imp_distinct_iff mset_map)

lemma topological_InrD:
  assumes "topologicalStepDefinitions steps = Inr ordered"
  shows "mset ordered = mset steps" "topo_ordered ordered" "deps_known steps"
proof -
  show k: "deps_known steps"
  proof (rule ccontr)
    assume "\<not> deps_known steps"
    then show False using collect_edges_unknown assms by (force simp: topologicalStepDefinitions_def)
  qed
  from topological_known [OF k] assms obtain q ind where
      "kahn_inv steps (length q) q ind" "length q = length steps" "ordered = map ((!) steps) q"
    by (auto split: if_splits)
  then show "mset ordered = mset steps" "topo_ordered ordered"
    using kahn_full_mset kahn_full_ordered [OF k] by auto
qed

lemma topological_acyclic:
  assumes "deps_known steps" "distinct_ids steps" "acyclic (dep_rel steps)"
  shows "\<exists>ordered. topologicalStepDefinitions steps = Inr ordered"
  using topological_known [OF assms(1)] kahn_complete [OF assms] by auto

lemma topological_cyclic:
  assumes "deps_known steps" "distinct_ids steps" "\<not> acyclic (dep_rel steps)"
  shows "topologicalStepDefinitions steps = Inl CycleDetected"
proof (rule ccontr)
  assume "\<not> ?thesis"
  with topological_known [OF assms(1)] obtain ordered where o: "topologicalStepDefinitions steps = Inr ordered"
    by (auto split: if_splits)
  have "distinct_ids ordered" using topological_InrD(1) [OF o] assms(2) distinct_ids_mset by blast
  with topological_InrD [OF o] have "acyclic (dep_rel ordered)" by (blast intro: topo_ordered_acyclic)
  with assms(3) dep_rel_mset [OF topological_InrD(1) [OF o]] show False by simp
qed

subsection \<open>The sort is idempotent\<close>

lemma count_list_map_inj:
  assumes "inj_on f A" "set xs \<subseteq> A" "x \<in> A"
  shows "count_list (map f xs) (f x) = count_list xs x"
  using assms(2) by (induction xs) (auto simp: inj_on_eq_iff [OF assms(1)] assms(3))

lemma nth_append_mem_left:
  assumes "distinct (xs @ ys)" "p < length (xs @ ys)"
  shows "(xs @ ys) ! p \<in> set xs \<longleftrightarrow> p < length xs"
proof (cases "p < length xs")
  case False
  then have "(xs @ ys) ! p \<in> set ys" using assms(2) by (simp add: nth_append)
  with False assms(1) show ?thesis by auto
qed (simp add: nth_append)

lemma index_by_reordered:
  assumes "distinct_ids steps" "distinct Q" "set Q = {..<length steps}"
    and "d \<in> sd_StepID ` set steps"
  shows "\<exists>p < length Q. index_by sd_StepID (map ((!) steps) Q) d = Some p \<and>
     index_by sd_StepID steps d = Some (Q ! p)"
proof -
  obtain j where j: "j < length steps" "sd_StepID (steps ! j) = d"
    using assms(4) by (auto simp: in_set_conv_nth)
  then obtain p where p: "p < length Q" "Q ! p = j" using assms(3) by (metis in_set_conv_nth lessThan_iff)
  have "mset (map ((!) steps) Q) = mset steps"
  proof -
    have "set Q = set [0..<length steps]" by (simp only: assms(3) set_upt lessThan_atLeast0)
    then have "mset Q = mset [0..<length steps]"
      using set_eq_iff_mset_eq_distinct [OF assms(2) distinct_upt] by blast
    then show ?thesis by (metis mset_map map_nth)
  qed
  then have "distinct_ids (map ((!) steps) Q)" using assms(1) distinct_ids_mset by blast
  from index_by_nth [OF this, of p] p j index_by_nth [OF assms(1) j(1)] show ?thesis by auto
qed

lemma preds_reordered:
  assumes "distinct_ids steps" "deps_known steps" "distinct Q" "set Q = {..<length steps}" "p < length Q"
  shows "map ((!) Q) (preds (map ((!) steps) Q) p) = preds steps (Q ! p) \<and>
     set (preds (map ((!) steps) Q) p) \<subseteq> {..<length Q}"
proof -
  have "Q ! p < length steps" using assms(4,5) by (metis lessThan_iff nth_mem)
  then have "d \<in> sd_StepID ` set steps" if "d \<in> set (sd_DependsOn (steps ! (Q ! p)))" for d
    using assms(2) that by (auto simp: deps_known_def)
  with index_by_reordered [OF assms(1,3,4)]
  have "\<exists>k < length Q. index_by sd_StepID (map ((!) steps) Q) d = Some k \<and> index_by sd_StepID steps d = Some (Q ! k)"
    if "d \<in> set (sd_DependsOn (steps ! (Q ! p)))" for d using that by blast
  then show ?thesis using assms(5) by (force simp: preds_def)
qed

lemma kahn_idem_run:
  assumes "kahn_inv steps h q ind" and k: "deps_known steps" and d: "distinct_ids steps"
  shows "\<exists>Q ind'. kahn steps (map (succs steps (length steps)) [0..<length steps]) ind q h
            (map ((!) steps) (take h q)) = map ((!) steps) Q \<and>
     kahn_inv steps (length Q) Q ind' \<and> (\<exists>r. Q = q @ r) \<and>
     (length Q = length steps \<longrightarrow>
       (\<forall>ind2. length ind2 = length steps \<and> (\<forall>p < length steps. ind2 ! p = ind ! (Q ! p)) \<longrightarrow>
         kahn (map ((!) steps) Q) (map (succs (map ((!) steps) Q) (length Q)) [0..<length Q]) ind2
           [0..<length q] h (map ((!) steps) (take h Q)) = map ((!) steps) Q))"
  using assms(1)
proof (induction "pending ind + (length q - h)" arbitrary: ind q h rule: less_induct)
  case less
  let ?out = "map (succs steps (length steps)) [0..<length steps]"
  show ?case
  proof (cases "h < length q")
    case False
    then have h: "h = length q" using less.prems by (simp add: kahn_inv_def)
    then have "kahn steps ?out ind q h (map ((!) steps) (take h q)) = map ((!) steps) q"
      by (simp add: kahn.simps [of _ _ _ q])
    moreover have "kahn (map ((!) steps) q) out2 ind2 [0..<length q] h (map ((!) steps) (take h q)) =
        map ((!) steps) q" for out2 ind2
      using h by (simp add: kahn.simps [of _ _ _ "[0..<length q]"])
    ultimately show ?thesis using less.prems h by auto
  next
    case True
    obtain ind1 q1 where rel: "relax (succs steps (length steps) (q ! h)) (ind, q) = (ind1, q1)" by fastforce
    have qh: "q ! h < length steps" using less.prems nth_mem [OF True] by (auto simp: kahn_inv_def)
    have inv1: "kahn_inv steps (Suc h) q1 ind1" by (rule kahn_inv_step [OF less.prems True rel])
    have len: "length ind = length steps" using less.prems by (simp add: kahn_inv_def)
    have "set (succs steps (length steps) (q ! h)) \<subseteq> {..<length ind}" using len by (auto simp: set_succs)
    from relax_spec [OF rel this] obtain r where r: "q1 = q @ r"
        "set r = {i \<in> set (succs steps (length steps) (q ! h)). 0 < ind ! i \<and>
           ind ! i \<le> int (count_list (succs steps (length steps) (q ! h)) i)}"
        "\<forall>i < length steps. ind1 ! i = ind ! i - int (count_list (succs steps (length steps) (q ! h)) i)"
      using len by auto
    then have tk: "map ((!) steps) (take (Suc h) q1) = map ((!) steps) (take h q) @ [steps ! (q ! h)]"
      using True by (simp add: take_Suc_conv_app_nth)
    have unf: "kahn steps ?out ind q h (map ((!) steps) (take h q)) =
        kahn steps ?out ind1 q1 (Suc h) (map ((!) steps) (take (Suc h) q1))"
      using True rel qh by (subst kahn.simps) (simp add: tk)
    from less.hyps [OF relax_measure [OF rel True] inv1] obtain Q ind' r' where
      Q: "kahn steps ?out ind1 q1 (Suc h) (map ((!) steps) (take (Suc h) q1)) = map ((!) steps) Q"
         "kahn_inv steps (length Q) Q ind'" "Q = q1 @ r'"
      and run2: "length Q = length steps \<Longrightarrow> length ind2 = length steps \<Longrightarrow>
          (\<forall>p < length steps. ind2 ! p = ind1 ! (Q ! p)) \<Longrightarrow>
         kahn (map ((!) steps) Q) (map (succs (map ((!) steps) Q) (length Q)) [0..<length Q]) ind2
           [0..<length q1] (Suc h) (map ((!) steps) (take (Suc h) Q)) = map ((!) steps) Q" for ind2
      by blast
    have "kahn (map ((!) steps) Q) (map (succs (map ((!) steps) Q) (length Q)) [0..<length Q]) ind2
           [0..<length q] h (map ((!) steps) (take h Q)) = map ((!) steps) Q"
      if full: "length Q = length steps" and l2: "length ind2 = length steps"
        and eq: "\<forall>p < length steps. ind2 ! p = ind ! (Q ! p)" for ind2
    proof -
      let ?o = "map ((!) steps) Q"
      let ?L2 = "succs ?o (length Q) h"
      note dQ = kahn_inv_full [OF Q(2) full]
      have Qh: "Q ! h = q ! h" using True Q(3) r(1) by (simp add: nth_append)
      have hQ: "h < length Q" using True Q(3) r(1) by simp
      have pr: "count_list (preds ?o p) h = count_list (preds steps (Q ! p)) (q ! h)"
        if p: "p < length Q" for p
      proof -
        have "inj_on ((!) Q) {..<length Q}" using dQ(1) by (simp add: inj_on_nth)
        moreover have "set (preds ?o p) \<subseteq> {..<length Q}"
          using preds_reordered [OF d k dQ p] by blast
        ultimately have "count_list (map ((!) Q) (preds ?o p)) (Q ! h) = count_list (preds ?o p) h"
          using hQ by (intro count_list_map_inj) auto
        then show ?thesis using preds_reordered [OF d k dQ p] Qh by simp
      qed
      have Qp: "Q ! p < length steps" if "p < length Q" for p using dQ(2) that by (metis lessThan_iff nth_mem)
      have cnt: "count_list ?L2 p = count_list (succs steps (length steps) (q ! h)) (Q ! p)"
        if "p < length Q" for p using pr [OF that] that Qp [OF that] by (simp add: count_succs)
      obtain ind3 q3 where rel2: "relax ?L2 (ind2, [0..<length q]) = (ind3, q3)" by fastforce
      have "set ?L2 \<subseteq> {..<length ind2}" using l2 full by (auto simp: set_succs)
      from relax_spec [OF rel2 this] obtain r2 where r2: "q3 = [0..<length q] @ r2" "distinct r2" "sorted r2"
          "set r2 = {p \<in> set ?L2. 0 < ind2 ! p \<and> ind2 ! p \<le> int (count_list ?L2 p)}"
          "length ind3 = length steps" "\<forall>p < length steps. ind3 ! p = ind2 ! p - int (count_list ?L2 p)"
        using l2 sorted_succs by (metis (no_types, lifting))
      have mem: "p \<in> set ?L2 \<longleftrightarrow> p < length Q \<and> Q ! p \<in> set (succs steps (length steps) (q ! h))" for p
      proof (cases "p < length Q")
        case True
        have "h \<in> set (preds ?o p) \<longleftrightarrow> q ! h \<in> set (preds steps (Q ! p))"
          using pr [OF True] count_list_0_iff [of "preds ?o p" h]
            count_list_0_iff [of "preds steps (Q ! p)" "q ! h"] by metis
        then show ?thesis using True Qp [OF True] by (simp add: set_succs)
      qed (simp add: set_succs)
      have "p \<in> set r2 \<longleftrightarrow> p < length Q \<and> Q ! p \<in> set r" for p
      proof (cases "p < length Q")
        case True
        then show ?thesis using mem [of p] cnt [OF True] eq [rule_format, of p] full
          by (simp only: r2(4) r(2) mem_Collect_eq simp_thms)
      next
        case False
        then show ?thesis using mem [of p] by (simp only: r2(4) mem_Collect_eq) blast
      qed
      moreover have "p < length Q \<and> Q ! p \<in> set r \<longleftrightarrow> length q \<le> p \<and> p < length q1" for p
      proof -
        have "Q ! p \<in> set r \<longleftrightarrow> length q \<le> p \<and> p < length q1" if "p < length Q"
        proof -
          have "Q ! p \<in> set q1 \<longleftrightarrow> p < length q1" "Q ! p \<in> set q \<longleftrightarrow> p < length q"
            using nth_append_mem_left [of q1 r' p] nth_append_mem_left [of q "r @ r'" p] dQ(1) that Q(3) r(1)
            by (simp_all only: append_assoc)
          moreover have "distinct (q @ r)" using dQ(1) Q(3) r(1) by (simp only: distinct_append)
          then have "set r \<inter> set q = {}" by (simp only: distinct_append) blast
          moreover have "set q1 = set q \<union> set r" using r(1) by (simp only: set_append)
          ultimately show ?thesis by (metis Un_iff disjoint_iff not_le)
        qed
        moreover have "length q1 \<le> length Q" using Q(3) by (simp only: length_append)
        ultimately show ?thesis by (meson le_trans not_le)
      qed
      ultimately have "set r2 = {length q..<length q1}"
        by (intro set_eqI) (simp only: atLeastLessThan_iff)
      then have "r2 = [length q..<length q1]" using r2(2,3) by (intro sorted_nth_eq_upt)
      then have q3: "q3 = [0..<length q1]" using r2(1) r(1) upt_add_eq_append [of 0 "length q" "length r"]
        by (simp only: length_append)
      have "\<forall>p < length steps. ind3 ! p = ind1 ! (Q ! p)"
        using r2(6) eq cnt r(3) Qp full by auto
      from run2 [OF full r2(5) this] have fin: "kahn ?o (map (succs ?o (length Q)) [0..<length Q]) ind3
           [0..<length q1] (Suc h) (map ((!) steps) (take (Suc h) Q)) = ?o" .
      have "map ((!) steps) (take (Suc h) Q) = map ((!) steps) (take h Q) @ [?o ! h]"
        using hQ by (simp add: take_Suc_conv_app_nth)
      then show ?thesis using fin rel2 q3 True hQ by (subst kahn.simps) simp
    qed
    moreover have "Q = q @ (r @ r')" using Q(3) r(1) by (simp only: append_assoc)
    moreover note trans [OF unf Q(1)] Q(2)
    ultimately show ?thesis by blast
  qed
qed

lemma topological_idem:
  assumes "topologicalStepDefinitions steps = Inr ordered" "distinct_ids steps"
  shows "topologicalStepDefinitions ordered = Inr ordered"
proof -
  have k: "deps_known steps" using topological_InrD [OF assms(1)] by simp
  let ?ind = "map (\<lambda>i. int (length (sd_DependsOn (steps ! i)))) [0..<length steps]"
  let ?q = "filter (\<lambda>i. ?ind ! i = 0) [0..<length steps]"
  from kahn_idem_run [OF kahn_inv_init [OF k] k assms(2)] obtain Q ind' r where
    Q: "kahn steps (map (succs steps (length steps)) [0..<length steps]) ?ind ?q 0 [] = map ((!) steps) Q"
      "kahn_inv steps (length Q) Q ind'" "Q = ?q @ r"
    and run2: "length Q = length steps \<Longrightarrow> length ind2 = length steps \<Longrightarrow>
        (\<forall>p < length steps. ind2 ! p = ?ind ! (Q ! p)) \<Longrightarrow>
         kahn (map ((!) steps) Q) (map (succs (map ((!) steps) Q) (length Q)) [0..<length Q]) ind2
           [0..<length ?q] 0 [] = map ((!) steps) Q" for ind2
    by (auto simp del: length_filter_map)
  have o: "ordered = map ((!) steps) Q" and full: "length Q = length steps"
    using assms(1) Q(1) by (auto simp: topologicalStepDefinitions_def collect_edges_known [OF k] Let_def split: if_splits)
  note dQ = kahn_inv_full [OF Q(2) full]
  let ?ind2 = "map (\<lambda>i. int (length (sd_DependsOn (ordered ! i)))) [0..<length ordered]"
  have Qp: "Q ! p < length steps" if "p < length steps" for p
    using dQ(2) that full by (metis lessThan_iff nth_mem)
  have eq: "\<forall>p < length steps. ?ind2 ! p = ?ind ! (Q ! p)" using o full Qp by auto
  have "filter (\<lambda>i. ?ind2 ! i = 0) [0..<length ordered] = [0..<length ?q]"
  proof (rule sorted_nth_eq_upt)
    have "Q ! p \<in> set ?q \<longleftrightarrow> p < length ?q" if "p < length Q" for p
      using nth_append_mem_left [of ?q r p] dQ(1) that Q(3) by (simp only:)
    then have "?ind ! (Q ! p) = 0 \<longleftrightarrow> p < length ?q" if "p < length Q" for p
      using that Qp full by (simp only: set_filter set_upt mem_Collect_eq atLeastLessThan_iff) auto
    moreover have "length ?q \<le> length Q" using Q(3) by (simp only: length_append)
    ultimately show "set (filter (\<lambda>i. ?ind2 ! i = 0) [0..<length ordered]) = {0..<length ?q}"
      using eq full o by auto
  qed (simp_all add: sorted_wrt_filter)
  moreover have "deps_known ordered"
    using k topological_InrD(1) [OF assms(1)] mset_eq_setD by (metis deps_known_def)
  ultimately show ?thesis
    using run2 [OF full _ eq] o full
    by (simp add: topologicalStepDefinitions_def collect_edges_known Let_def)
qed

end
