(* ===== verification/Workflow_Validate.thy ===== *)
theory Workflow_Validate
  imports Topo_Sort
begin

text \<open>
  \<open>ValidateDefinition\<close>, \<open>ParseDefinition\<close>, \<open>StepDefinitionByID\<close> and \<open>StepMaxAttempts\<close> of
  \<open>internal/workflow/model.go\<close>. The depth-first search keeps the current path in \<open>visiting\<close> and
  the finished steps, newest first, in \<open>visited\<close>; the Go map \<open>visiting\<close> holds \<open>true\<close> exactly on
  the current path, because every successful return resets its entry, so the path is passed down
  and never returned. \<open>json.Unmarshal\<close> into the definition struct is the argument \<open>unmarshal\<close>,
  arbitrary in every theorem.
\<close>

subsection \<open>Definitions\<close>


definition deps_of :: "step_definition list \<Rightarrow> string \<Rightarrow> string list" where
  "deps_of steps stepID =
     (case index_by sd_StepID steps stepID of None \<Rightarrow> [] | Some i \<Rightarrow> sd_DependsOn (steps ! i))"

definition unvisited :: "step_definition list \<Rightarrow> string list \<Rightarrow> nat" where
  "unvisited steps visiting = card (sd_StepID ` set steps - set visiting)"

lemma unvisited_Cons_le: "unvisited steps (x # visiting) \<le> unvisited steps visiting"
  unfolding unvisited_def by (rule card_mono) auto

lemma unvisited_Cons_less:
  "x \<in> sd_StepID ` set steps \<Longrightarrow> x \<notin> set visiting \<Longrightarrow>
     unvisited steps (x # visiting) < unvisited steps visiting"
  unfolding unvisited_def by (rule psubset_card_mono) auto

lemma deps_of_unknown: "x \<notin> sd_StepID ` set steps \<Longrightarrow> deps_of steps x = []"
  using index_by_None_iff [of sd_StepID steps x] by (simp add: deps_of_def)

function visit :: "step_definition list \<Rightarrow> string list \<Rightarrow> string list \<Rightarrow> string \<Rightarrow>
      wf_error + string list"
  and visit_deps :: "step_definition list \<Rightarrow> string list \<Rightarrow> string list \<Rightarrow> string list \<Rightarrow>
      wf_error + string list" where
  "visit steps visiting visited stepID =
     (if stepID \<in> set visiting then Inl (CycleIncludesStep stepID)
      else if stepID \<in> set visited then Inr visited
      else (case visit_deps steps (stepID # visiting) visited (deps_of steps stepID) of
              Inl e \<Rightarrow> Inl e
            | Inr visited' \<Rightarrow> Inr (stepID # visited')))"
| "visit_deps steps visiting visited [] = Inr visited"
| "visit_deps steps visiting visited (dep # deps) =
     (case visit steps visiting visited dep of
        Inl e \<Rightarrow> Inl e
      | Inr visited' \<Rightarrow> visit_deps steps visiting visited' deps)"
  by pat_completeness auto

termination
proof (relation "measures [\<lambda>x. case x of Inl (steps, p, v, i) \<Rightarrow> unvisited steps p
      | Inr (steps, p, v, ds) \<Rightarrow> unvisited steps p,
    \<lambda>x. case x of Inl _ \<Rightarrow> 1 | Inr (steps, p, v, ds) \<Rightarrow> 2 * length ds]", goal_cases)
  case (2 steps visiting visited stepID)
  then show ?case
    using unvisited_Cons_le [of steps stepID visiting] unvisited_Cons_less [of stepID steps visiting]
      deps_of_unknown [of stepID steps]
    by (cases "stepID \<in> sd_StepID ` set steps") auto
qed simp_all

declare visit.simps [simp del] visit_deps.simps [simp del]

definition check_ids :: "step_definition list \<Rightarrow> wf_error + string list" where
  "check_ids steps = fold_result (\<lambda>seen i.
     let stepID = sd_StepID (steps ! i) in
     if stepID = '''' then Inl (EmptyStepID i)
     else if stepID \<in> set seen then Inl (DuplicateStepID stepID)
     else Inr (stepID # seen)) [] [0..<length steps]"

definition check_deps :: "string list \<Rightarrow> step_definition list \<Rightarrow> wf_error + unit" where
  "check_deps ids steps = fold_result (\<lambda>_ step. fold_result (\<lambda>_ dep.
     if dep = '''' then Inl (EmptyDependency (sd_StepID step))
     else if dep \<notin> set ids then Inl (UnknownDependency (sd_StepID step) dep)
     else Inr ()) () (sd_DependsOn step)) () steps"

definition ValidateDefinition :: "wf_definition \<Rightarrow> wf_error + unit" where
  "ValidateDefinition def =
     (if def_Steps def = [] then Inl EmptyWorkflow
      else (case check_ids (def_Steps def) of
        Inl e \<Rightarrow> Inl e
      | Inr ids \<Rightarrow>
          if def_ResultStepID def = '''' then Inl ResultStepRequired
          else if def_ResultStepID def \<notin> set ids then Inl (ResultStepUnknown (def_ResultStepID def))
          else (case check_deps ids (def_Steps def) of
            Inl e \<Rightarrow> Inl e
          | Inr _ \<Rightarrow>
              (case fold_result (\<lambda>visited step. visit (def_Steps def) [] visited (sd_StepID step))
                      [] (def_Steps def) of
                 Inl e \<Rightarrow> Inl e
               | Inr _ \<Rightarrow> Inr ()))))"

definition fillStep :: "int \<Rightarrow> i64 \<Rightarrow> step_definition \<Rightarrow> step_definition" where
  "fillStep maxAttempts timeoutMs s =
     (let s1 = (if sd_MaxAttempts s \<le> 0 then s\<lparr>sd_MaxAttempts := maxAttempts\<rparr> else s)
      in if sd_TimeoutMs s1 \<le> 0 then s1\<lparr>sd_TimeoutMs := timeoutMs\<rparr> else s1)"

definition applyDefaults :: "wf_definition \<Rightarrow> wf_definition" where
  "applyDefaults def =
     (let maxAttempts = (if def_MaxAttempts def \<le> 0 then 3 else def_MaxAttempts def);
          timeoutMs = (if def_TimeoutMs def \<le> 0 then 30000 else def_TimeoutMs def);
          steps = map (fillStep maxAttempts timeoutMs) (def_Steps def)
      in def\<lparr>def_MaxAttempts := maxAttempts, def_TimeoutMs := timeoutMs, def_Steps := steps,
             def_ResultStepID := (if def_ResultStepID def = '''' \<and> steps \<noteq> []
               then sd_StepID (last steps) else def_ResultStepID def)\<rparr>)"

definition ParseDefinition :: "(bytes \<Rightarrow> string + wf_definition) \<Rightarrow> bytes \<Rightarrow> wf_error + wf_definition" where
  "ParseDefinition unmarshal data =
     (case unmarshal data of
        Inl e \<Rightarrow> Inl (DecodeError e)
      | Inr decoded \<Rightarrow>
          (let def = applyDefaults decoded in
           case ValidateDefinition def of
             Inl e \<Rightarrow> Inl e
           | Inr _ \<Rightarrow>
               (case topologicalStepDefinitions (def_Steps def) of
                  Inl e \<Rightarrow> Inl e
                | Inr ordered \<Rightarrow> Inr (def\<lparr>def_Steps := ordered\<rparr>))))"

fun find_step :: "step_definition list \<Rightarrow> string \<Rightarrow> step_definition option" where
  "find_step [] stepID = None"
| "find_step (step # steps) stepID = (if sd_StepID step = stepID then Some step else find_step steps stepID)"

definition StepDefinitionByID :: "wf_definition \<Rightarrow> string \<Rightarrow> step_definition option" where
  "StepDefinitionByID def stepID = find_step (def_Steps def) stepID"

definition StepMaxAttempts :: "wf_definition \<Rightarrow> string \<Rightarrow> int" where
  "StepMaxAttempts def stepID =
     (case StepDefinitionByID def stepID of
        None \<Rightarrow> def_MaxAttempts def
      | Some step \<Rightarrow> if sd_MaxAttempts step \<le> 0 then def_MaxAttempts def else sd_MaxAttempts step)"

subsection \<open>What the depth-first search decides\<close>

definition edge :: "step_definition list \<Rightarrow> (string \<times> string) set" where
  "edge steps = {(a, b). b \<in> set (deps_of steps a)}"

fun post_order :: "step_definition list \<Rightarrow> string list \<Rightarrow> bool" where
  "post_order steps [] = True"
| "post_order steps (x # v) \<longleftrightarrow> set (deps_of steps x) \<subseteq> set v \<and> post_order steps v"

lemma visit_post_order:
  "visit steps p v x = Inr v' \<Longrightarrow> post_order steps v \<Longrightarrow>
     post_order steps v' \<and> insert x (set v) \<subseteq> set v'"
  "visit_deps steps p v ds = Inr v' \<Longrightarrow> post_order steps v \<Longrightarrow>
     post_order steps v' \<and> set ds \<union> set v \<subseteq> set v'"
proof (induction steps p v x and steps p v ds arbitrary: v' and v' rule: visit_visit_deps.induct)
  case (1 steps visiting visited stepID)
  show ?case
  proof (cases "stepID \<in> set visited")
    case True
    then show ?thesis using 1(2,3) by (auto simp: visit.simps split: if_splits)
  next
    case False
    with 1(2) obtain w where "stepID \<notin> set visiting" "v' = stepID # w"
        "visit_deps steps (stepID # visiting) visited (deps_of steps stepID) = Inr w"
      by (subst (asm) visit.simps) (auto split: if_splits sum.splits)
    with 1(1) [OF _ False _ 1(3)] show ?thesis by auto
  qed
next
  case (2 steps visiting visited)
  then show ?case by (simp add: visit_deps.simps)
next
  case (3 steps visiting visited dep deps)
  from 3(3) obtain w where w: "visit steps visiting visited dep = Inr w"
      "visit_deps steps visiting w deps = Inr v'"
    by (auto simp: visit_deps.simps split: sum.splits)
  with 3(1) [OF w(1) 3(4)] 3(2) [OF w] show ?case by auto
qed

lemma visit_cycle:
  "visit steps p v x = Inl e \<Longrightarrow> (\<forall>y \<in> set p. (y, x) \<in> (edge steps)\<^sup>+) \<Longrightarrow>
     \<exists>z. e = CycleIncludesStep z \<and> (z, z) \<in> (edge steps)\<^sup>+"
  "visit_deps steps p v ds = Inl e \<Longrightarrow> (\<forall>y \<in> set p. \<forall>d \<in> set ds. (y, d) \<in> (edge steps)\<^sup>+) \<Longrightarrow>
     \<exists>z. e = CycleIncludesStep z \<and> (z, z) \<in> (edge steps)\<^sup>+"
proof (induction steps p v x and steps p v ds rule: visit_visit_deps.induct)
  case (1 steps visiting visited stepID)
  show ?case
  proof (cases "stepID \<in> set visiting")
    case True
    then show ?thesis using 1(2,3) by (auto simp: visit.simps)
  next
    case False
    with 1(2) have v: "stepID \<notin> set visited"
        "visit_deps steps (stepID # visiting) visited (deps_of steps stepID) = Inl e"
      by (auto simp: visit.simps split: if_splits sum.splits)
    have "(y, d) \<in> (edge steps)\<^sup>+" if "y \<in> set (stepID # visiting)" "d \<in> set (deps_of steps stepID)" for y d
    proof -
      have "(stepID, d) \<in> edge steps" using that(2) by (simp add: edge_def)
      then show ?thesis using that(1) 1(3) by (auto intro: trancl_into_trancl)
    qed
    then show ?thesis using 1(1) [OF False v] by blast
  qed
next
  case (2 steps visiting visited)
  then show ?case by (simp add: visit_deps.simps)
next
  case (3 steps visiting visited dep deps)
  show ?case
  proof (cases "visit steps visiting visited dep")
    case (Inl e')
    then show ?thesis using 3 by (auto simp: visit_deps.simps)
  next
    case (Inr w)
    then show ?thesis using 3 by (auto simp: visit_deps.simps)
  qed
qed

lemma post_order_edge:
  "post_order steps v \<Longrightarrow> (x, y) \<in> edge steps \<Longrightarrow> x \<in> set v \<Longrightarrow> y \<in> set v"
  by (induction v) (auto simp: edge_def)

lemma post_order_closed:
  assumes "(x, y) \<in> (edge steps)\<^sup>+" "post_order steps v" "x \<in> set v"
  shows "y \<in> set v"
  using assms(1) by (induction rule: trancl_induct) (auto intro: post_order_edge assms(2,3))

lemma post_order_no_cycle: "post_order steps v \<Longrightarrow> x \<in> set v \<Longrightarrow> (x, x) \<notin> (edge steps)\<^sup>+"
proof (induction v)
  case (Cons y v)
  show ?case
  proof (cases "x \<in> set v")
    case False
    then have x: "x = y" using Cons.prems(2) by simp
    show ?thesis
    proof
      assume "(x, x) \<in> (edge steps)\<^sup>+"
      then obtain z where z: "(x, z) \<in> edge steps" "(z, x) \<in> (edge steps)\<^sup>*"
        by (meson tranclD)
      have "z \<in> set v" using z(1) x Cons.prems(1) by (auto simp: edge_def)
      then have "x \<in> set v" using z(2) Cons.prems(1) post_order_closed [of z x steps v]
        by (auto simp: rtrancl_eq_or_trancl)
      with False show False by simp
    qed
  qed (use Cons in auto)
qed simp


lemma deps_of_nth:
  "distinct_ids steps \<Longrightarrow> i < length steps \<Longrightarrow> deps_of steps (sd_StepID (steps ! i)) = sd_DependsOn (steps ! i)"
  by (simp add: deps_of_def index_by_nth)

lemma edge_dep_rel:
  assumes "distinct_ids steps"
  shows "edge steps = (dep_rel steps)\<inverse>"
proof (intro set_eqI)
  fix e :: "string \<times> string"
  obtain a b where e: "e = (a, b)" by fastforce
  have "b \<in> set (deps_of steps a) \<longleftrightarrow> (\<exists>s \<in> set steps. a = sd_StepID s \<and> b \<in> set (sd_DependsOn s))"
  proof (cases "a \<in> sd_StepID ` set steps")
    case True
    then obtain i where i: "i < length steps" "a = sd_StepID (steps ! i)" by (auto simp: in_set_conv_nth)
    have "s = steps ! i" if "s \<in> set steps" "sd_StepID s = a" for s
      using assms that i by (metis distinct_map inj_on_def nth_mem)
    then show ?thesis using i deps_of_nth [OF assms i(1)] nth_mem by metis
  next
    case False
    then show ?thesis by (auto simp: deps_of_unknown)
  qed
  then show "e \<in> edge steps \<longleftrightarrow> e \<in> (dep_rel steps)\<inverse>" by (auto simp: e edge_def dep_rel_def)
qed

lemma dfs_decides:
  assumes "distinct_ids steps"
  shows "case fold_result (\<lambda>v s. visit steps [] v (sd_StepID s)) [] steps of
      Inl e \<Rightarrow> (\<exists>z. e = CycleIncludesStep z) \<and> \<not> acyclic (dep_rel steps)
    | Inr v \<Rightarrow> acyclic (dep_rel steps)"
proof -
  let ?F = "fold_result (\<lambda>v s. visit steps [] v (sd_StepID s))"
  have ok: "?F v ss = Inr v' \<Longrightarrow> post_order steps v \<Longrightarrow>
      post_order steps v' \<and> sd_StepID ` set ss \<union> set v \<subseteq> set v'" for ss v v'
  proof (induction ss arbitrary: v)
    case (Cons s ss)
    then obtain w where w: "visit steps [] v (sd_StepID s) = Inr w" "?F w ss = Inr v'"
      by (auto split: sum.splits)
    from visit_post_order(1) [OF w(1) Cons.prems(2)] Cons.IH [OF w(2)] show ?case by auto
  qed simp
  have bad: "?F v ss = Inl e \<Longrightarrow> \<exists>z. e = CycleIncludesStep z \<and> (z, z) \<in> (edge steps)\<^sup>+" for ss v e
  proof (induction ss arbitrary: v)
    case (Cons s ss)
    then show ?case using visit_cycle(1) [of steps "[]" v "sd_StepID s"]
      by (cases "visit steps [] v (sd_StepID s)") auto
  qed simp
  have cyc: "(z, z) \<in> (edge steps)\<^sup>+ \<longleftrightarrow> (z, z) \<in> (dep_rel steps)\<^sup>+" for z
    by (simp add: edge_dep_rel [OF assms] trancl_converse)
  show ?thesis
  proof (cases "?F [] steps")
    case (Inl e)
    from bad [OF Inl] cyc show ?thesis by (auto simp: Inl acyclic_def)
  next
    case (Inr v)
    have v: "post_order steps v" "sd_StepID ` set steps \<subseteq> set v" using ok [OF Inr] by auto
    have "(z, z) \<notin> (dep_rel steps)\<^sup>+" for z
    proof
      assume "(z, z) \<in> (dep_rel steps)\<^sup>+"
      moreover from this have "z \<in> sd_StepID ` set steps"
        by (induction rule: trancl_induct) (auto simp: dep_rel_def)
      ultimately show False using post_order_no_cycle [OF v(1)] v(2) cyc by blast
    qed
    then show ?thesis by (simp add: Inr acyclic_def)
  qed
qed

lemma check_ids_prefix:
  "k \<le> length steps \<Longrightarrow>
   fold_result (\<lambda>seen i.
     let stepID = sd_StepID (steps ! i) in
     if stepID = '''' then Inl (EmptyStepID i)
     else if stepID \<in> set seen then Inl (DuplicateStepID stepID)
     else Inr (stepID # seen)) [] [0..<k] = Inr ids \<longleftrightarrow>
   '''' \<notin> set (map sd_StepID (take k steps)) \<and> distinct (map sd_StepID (take k steps)) \<and>
   ids = rev (map sd_StepID (take k steps))"
proof (induction k arbitrary: ids)
  case (Suc k)
  let ?F = "fold_result (\<lambda>seen i.
     let stepID = sd_StepID (steps ! i) in
     if stepID = '''' then Inl (EmptyStepID i)
     else if stepID \<in> set seen then Inl (DuplicateStepID stepID)
     else Inr (stepID # seen)) [] [0..<k]"
  have IH: "?F = Inr ids \<longleftrightarrow>
   '''' \<notin> set (map sd_StepID (take k steps)) \<and> distinct (map sd_StepID (take k steps)) \<and>
   ids = rev (map sd_StepID (take k steps))" for ids using Suc by simp
  show ?case
  proof (cases ?F)
    case (Inl e)
    then show ?thesis using IH Suc.prems by (auto simp: fold_result_append take_Suc_conv_app_nth)
  next
    case (Inr x)
    then show ?thesis using IH [of x] Suc.prems
      by (auto simp: fold_result_append take_Suc_conv_app_nth Let_def)
  qed
qed auto

lemma check_ids_iff:
  "check_ids steps = Inr ids \<longleftrightarrow>
    '''' \<notin> sd_StepID ` set steps \<and> distinct_ids steps \<and> ids = rev (map sd_StepID steps)"
  unfolding check_ids_def by (subst check_ids_prefix) auto

lemma check_deps_iff:
  assumes "'''' \<notin> sd_StepID ` set all" "set ids = sd_StepID ` set all"
  shows "check_deps ids steps = Inr () \<longleftrightarrow> (\<forall>s \<in> set steps. set (sd_DependsOn s) \<subseteq> sd_StepID ` set all)"
proof -
  let ?G = "\<lambda>sid. fold_result (\<lambda>(_ :: unit) dep.
     if dep = '''' then Inl (EmptyDependency sid)
     else if dep \<notin> set ids then Inl (UnknownDependency sid dep)
     else Inr ()) ()"
  have G: "?G sid ds = Inr () \<longleftrightarrow> set ds \<subseteq> sd_StepID ` set all" for sid ds
    using assms by (induction ds) auto
  show ?thesis unfolding check_deps_def
  proof (induction steps)
    case (Cons s steps)
    then show ?case using G [of "sd_StepID s" "sd_DependsOn s"]
      by (cases "?G (sd_StepID s) (sd_DependsOn s)") auto
  qed simp
qed

definition valid_definition :: "wf_definition \<Rightarrow> bool" where
  "valid_definition def \<longleftrightarrow> def_Steps def \<noteq> [] \<and> '''' \<notin> sd_StepID ` set (def_Steps def) \<and>
     distinct_ids (def_Steps def) \<and> def_ResultStepID def \<in> sd_StepID ` set (def_Steps def) \<and>
     deps_known (def_Steps def) \<and> acyclic (dep_rel (def_Steps def))"

lemma ValidateDefinition_iff: "ValidateDefinition def = Inr () \<longleftrightarrow> valid_definition def"
proof (cases "check_ids (def_Steps def)")
  case (Inl e)
  then have "\<not> ('''' \<notin> sd_StepID ` set (def_Steps def) \<and> distinct_ids (def_Steps def))"
    using check_ids_iff [of "def_Steps def"] by auto
  then show ?thesis by (auto simp: ValidateDefinition_def valid_definition_def Inl)
next
  case (Inr ids)
  then have ids: "'''' \<notin> sd_StepID ` set (def_Steps def)" "distinct_ids (def_Steps def)"
      "set ids = sd_StepID ` set (def_Steps def)" using check_ids_iff by auto
  have d: "check_deps ids (def_Steps def) = Inr () \<longleftrightarrow> deps_known (def_Steps def)"
    using check_deps_iff [OF ids(1,3)] by (simp add: deps_known_def)
  show ?thesis
    using d ids dfs_decides [OF ids(2)]
    by (auto simp: ValidateDefinition_def valid_definition_def Inr image_iff split: sum.splits)
qed


lemma valid_definition_mset:
  assumes "mset steps = mset (def_Steps def)" "valid_definition def"
  shows "valid_definition (def\<lparr>def_Steps := steps\<rparr>)"
proof -
  have "set steps = set (def_Steps def)" using assms(1) by (rule mset_eq_setD)
  moreover have "steps \<noteq> []" using assms by (auto simp: valid_definition_def)
  ultimately show ?thesis
    using assms dep_rel_mset [OF assms(1)] distinct_ids_mset [OF assms(1)]
    by (auto simp: valid_definition_def deps_known_def)
qed

lemma valid_topological:
  assumes "valid_definition def"
  obtains ordered where "topologicalStepDefinitions (def_Steps def) = Inr ordered"
    "mset ordered = mset (def_Steps def)" "topo_ordered ordered"
  using assms topological_acyclic [of "def_Steps def"] topological_InrD
  by (fastforce simp: valid_definition_def)

lemma fillStep_pos:
  "0 < m \<Longrightarrow> 0 < t \<Longrightarrow> 0 < sd_MaxAttempts (fillStep m t s)"
  "0 < m \<Longrightarrow> 0 < t \<Longrightarrow> 0 < sd_TimeoutMs (fillStep m t s)"
  by (simp_all add: fillStep_def Let_def)

lemma applyDefaults_steps:
  "s \<in> set (def_Steps (applyDefaults d)) \<Longrightarrow> 0 < sd_MaxAttempts s \<and> 0 < sd_TimeoutMs s"
  by (auto simp: applyDefaults_def Let_def intro!: fillStep_pos)

lemma find_step_SomeD: "find_step steps i = Some s \<Longrightarrow> s \<in> set steps \<and> sd_StepID s = i"
  by (induction steps) (auto split: if_splits)

lemma find_step_None_iff: "find_step steps i = None \<longleftrightarrow> i \<notin> sd_StepID ` set steps"
  by (induction steps) auto

lemma find_step_distinct:
  "distinct_ids steps \<Longrightarrow> s \<in> set steps \<Longrightarrow> find_step steps (sd_StepID s) = Some s"
  by (induction steps) (auto simp: rev_image_eqI)

subsection \<open>Properties\<close>

text \<open>
  \<open>ValidateDefinition\<close> accepts a definition exactly when it has steps, all step ids are
  non-empty and distinct, the result step exists, every dependency names a step, and the
  dependency relation has no cycle.
\<close>

theorem ValidateDefinition_accepts_iff:
  "ValidateDefinition def = Inr () \<longleftrightarrow>
     def_Steps def \<noteq> [] \<and> '''' \<notin> sd_StepID ` set (def_Steps def) \<and>
     distinct (map sd_StepID (def_Steps def)) \<and>
     def_ResultStepID def \<in> sd_StepID ` set (def_Steps def) \<and>
     (\<forall>s. s \<in> set (def_Steps def) \<longrightarrow> set (sd_DependsOn s) \<subseteq> sd_StepID ` set (def_Steps def)) \<and>
     acyclic (dep_rel (def_Steps def))"
  unfolding ValidateDefinition_iff valid_definition_def deps_known_def by blast

text \<open>
  \<open>ParseDefinition\<close> returns exactly the topologically sorted definition with defaults whenever
  \<open>ValidateDefinition\<close> accepts it: the second error return, from the Kahn sort, is dead code, so
  the depth-first check and the sort agree on which definitions are cyclic.
\<close>

theorem ParseDefinition_by_validation:
  "ParseDefinition unmarshal data =
     (case unmarshal data of Inl e \<Rightarrow> Inl (DecodeError e)
      | Inr decoded \<Rightarrow>
         (case ValidateDefinition (applyDefaults decoded) of Inl e \<Rightarrow> Inl e
          | Inr _ \<Rightarrow> Inr (normalizeDefinition (applyDefaults decoded))))"
proof (cases "unmarshal data")
  case (Inr decoded)
  show ?thesis
  proof (cases "ValidateDefinition (applyDefaults decoded)")
    case (Inr u)
    then have "valid_definition (applyDefaults decoded)" using ValidateDefinition_iff by simp
    then show ?thesis using \<open>unmarshal data = _\<close> Inr
      by (elim valid_topological) (simp add: ParseDefinition_def Let_def normalizeDefinition_def)
  qed (simp add: \<open>unmarshal data = _\<close> ParseDefinition_def Let_def)
qed (simp add: ParseDefinition_def)

text \<open>
  C31. A parsed definition is valid, lists every step after its dependencies, is a permutation of
  the decoded steps with defaults filled in, is a fixed point of \<open>normalizeDefinition\<close>, and gives
  every step a positive attempt limit, which \<open>StepMaxAttempts\<close> returns, and a positive timeout.
\<close>

theorem ParseDefinition_sound:
  assumes "ParseDefinition unmarshal data = Inr def"
  shows "valid_definition def \<and> topo_ordered (def_Steps def) \<and> normalizeDefinition def = def \<and>
    (\<exists>decoded. unmarshal data = Inr decoded \<and>
       mset (def_Steps def) = mset (def_Steps (applyDefaults decoded))) \<and>
    (\<forall>s \<in> set (def_Steps def). 0 < sd_TimeoutMs s \<and> 0 < sd_MaxAttempts s \<and>
       StepMaxAttempts def (sd_StepID s) = sd_MaxAttempts s)"
proof -
  from assms obtain decoded ordered where d: "unmarshal data = Inr decoded"
      "ValidateDefinition (applyDefaults decoded) = Inr ()"
      "topologicalStepDefinitions (def_Steps (applyDefaults decoded)) = Inr ordered"
      "def = (applyDefaults decoded)\<lparr>def_Steps := ordered\<rparr>"
    by (auto simp: ParseDefinition_def Let_def split: sum.splits)
  note top = topological_InrD [OF d(3)]
  have v: "valid_definition (applyDefaults decoded)" using d(2) ValidateDefinition_iff by simp
  then have vd: "valid_definition def" using valid_definition_mset [OF top(1)] d(4) by simp
  then have di: "distinct_ids (def_Steps def)" by (simp add: valid_definition_def)
  have "topologicalStepDefinitions ordered = Inr ordered"
    using topological_idem [OF d(3)] v by (simp add: valid_definition_def)
  then have norm: "normalizeDefinition def = def" by (simp add: normalizeDefinition_def d(4))
  have "0 < sd_TimeoutMs s \<and> 0 < sd_MaxAttempts s \<and> StepMaxAttempts def (sd_StepID s) = sd_MaxAttempts s"
    if s: "s \<in> set (def_Steps def)" for s
  proof -
    have "s \<in> set (def_Steps (applyDefaults decoded))" using s d(4) mset_eq_setD [OF top(1)] by simp
    moreover have "StepDefinitionByID def (sd_StepID s) = Some s"
      using find_step_distinct [OF di s] by (simp add: StepDefinitionByID_def)
    ultimately show ?thesis using applyDefaults_steps [of s decoded] by (simp add: StepMaxAttempts_def)
  qed
  with vd norm top(1,2) d(1,4) show ?thesis by simp
qed

text \<open>
  C30. The Kahn sort on distinct ids: it fails exactly on unknown dependencies or cycles, and its
  result is a permutation in which each dependency stands before its dependents and which the
  sort leaves alone.
\<close>

theorem topologicalStepDefinitions_correct:
  assumes "distinct (map sd_StepID steps)"
  shows "case topologicalStepDefinitions steps of
      Inl e \<Rightarrow> \<not> deps_known steps \<or> (e = CycleDetected \<and> \<not> acyclic (dep_rel steps))
    | Inr ordered \<Rightarrow> deps_known steps \<and> acyclic (dep_rel steps) \<and> mset ordered = mset steps \<and>
        topo_ordered ordered \<and> topologicalStepDefinitions ordered = Inr ordered"
proof (cases "topologicalStepDefinitions steps")
  case (Inl e)
  then show ?thesis
    using topological_acyclic [OF _ assms] topological_cyclic [OF _ assms] by fastforce
next
  case (Inr ordered)
  note top = topological_InrD [OF Inr]
  have "distinct_ids ordered" using distinct_ids_mset [OF top(1)] assms by simp
  then have "acyclic (dep_rel steps)"
    using topo_ordered_acyclic [OF top(2)] dep_rel_mset [OF top(1)] by simp
  then show ?thesis using top topological_idem [OF Inr assms] by (simp add: Inr)
qed

definition diamond :: "step_definition list" where
  "diamond = (let s = (\<lambda>i ds. zero_step_definition\<lparr>sd_StepID := i, sd_DependsOn := ds\<rparr>) in
     [s ''d'' [''b'', ''c''], s ''b'' [''a''], s ''c'' [''a''], s ''a'' []])"

theorem topologicalStepDefinitions_correct_witness:
  "distinct (map sd_StepID diamond) \<and>
   (\<exists>ordered. topologicalStepDefinitions diamond = Inr ordered \<and>
      map sd_StepID ordered = [''a'', ''b'', ''c'', ''d''] \<and> topo_ordered ordered)"
proof -
  have d: "distinct (map sd_StepID diamond)" by (simp add: diamond_def Let_def)
  have e: "map_sum id (map sd_StepID) (topologicalStepDefinitions diamond) = Inr [''a'', ''b'', ''c'', ''d'']"
    by code_simp
  then obtain ordered where o: "topologicalStepDefinitions diamond = Inr ordered"
      "map sd_StepID ordered = [''a'', ''b'', ''c'', ''d'']"
    by (cases "topologicalStepDefinitions diamond") auto
  with topologicalStepDefinitions_correct [OF d] d show ?thesis by auto
qed

theorem ValidateDefinition_accepts_iff_witness:
  "acyclic (dep_rel diamond) \<and>
   ValidateDefinition (zero_definition\<lparr>def_Steps := diamond, def_ResultStepID := ''d''\<rparr>) = Inr ()"
proof -
  let ?d = "zero_definition\<lparr>def_Steps := diamond, def_ResultStepID := ''d''\<rparr>"
  have v: "ValidateDefinition ?d = Inr ()" by code_simp
  from ValidateDefinition_accepts_iff [of ?d] v have "acyclic (dep_rel (def_Steps ?d))" by blast
  with v show ?thesis by simp
qed

theorem ParseDefinition_sound_witness:
  "\<exists>def. ParseDefinition (\<lambda>_. Inr (zero_definition\<lparr>def_Steps := diamond\<rparr>)) [] = Inr def \<and>
     valid_definition def \<and> topo_ordered (def_Steps def) \<and>
     map sd_StepID (def_Steps def) = [''a'', ''b'', ''c'', ''d'']"
proof -
  let ?p = "ParseDefinition (\<lambda>_. Inr (zero_definition\<lparr>def_Steps := diamond\<rparr>)) []"
  have "map_sum id (\<lambda>d. map sd_StepID (def_Steps d)) ?p = Inr [''a'', ''b'', ''c'', ''d'']" by code_simp
  then obtain def where def: "?p = Inr def" "map sd_StepID (def_Steps def) = [''a'', ''b'', ''c'', ''d'']"
    by (cases ?p) auto
  with ParseDefinition_sound [OF def(1)] show ?thesis by (intro exI [of _ def]) simp
qed

end
