(* ===== verification/Workflow_DAG.thy ===== *)
theory Workflow_DAG
  imports Workflow_Validate
begin

text \<open>
  \<open>State\<close> and \<open>RuntimeDAG\<close> of \<open>internal/workflow/model.go\<close>: the in-memory scheduling structure
  of one workflow, with its dependency counters and its ready queue, and every method that reads
  or changes it. A \<open>nil\<close> \<open>byID\<close> map (a state decoded or declared without runtime fields) is
  \<^const>\<open>None\<close>. Slice indices are naturals: the code only stores positions it ranged over, and
  its \<open>idx < 0\<close> guards can never fire.

  The lemmas show that the counters always count the unfinished dependencies, that the ready
  queue holds every schedulable step, and that the incremental updates agree with rebuilding the
  structure from scratch.
\<close>

subsection \<open>State\<close>

record runtime_dag =
  dag_steps :: "step_state list"
  dag_byID :: "(string \<rightharpoonup> nat) option"
  dag_outgoing :: "nat list list"
  dag_remainingDeps :: "int list"
  dag_ready :: "nat list"
  dag_readyHead :: nat

record wf_state =
  ws_WorkflowID :: string
  ws_WorkflowName :: string
  ws_Status :: workflow_status
  ws_Definition :: wf_definition
  ws_StepOrder :: "string list"
  ws_ResultJSON :: bytes
  ws_ResultRef :: string
  ws_Error :: string
  ws_IdempotencyKey :: string
  ws_IdempotencyFingerprint :: string
  ws_CreatedAtMs :: i64
  ws_UpdatedAtMs :: i64
  ws_CompletedAtMs :: i64
  ws_dag :: runtime_dag

definition zero_dag :: runtime_dag where
  "zero_dag = \<lparr>dag_steps = [], dag_byID = None, dag_outgoing = [], dag_remainingDeps = [],
     dag_ready = [], dag_readyHead = 0\<rparr>"

definition zero_state :: wf_state where
  "zero_state = \<lparr>ws_WorkflowID = '''', ws_WorkflowName = '''', ws_Status = WORKFLOW_STATUS_UNSPECIFIED,
     ws_Definition = zero_definition, ws_StepOrder = [], ws_ResultJSON = [], ws_ResultRef = '''',
     ws_Error = '''', ws_IdempotencyKey = '''', ws_IdempotencyFingerprint = '''', ws_CreatedAtMs = 0,
     ws_UpdatedAtMs = 0, ws_CompletedAtMs = 0, ws_dag = zero_dag\<rparr>"

subsection \<open>Building the structure\<close>

definition stepReady :: "runtime_dag \<Rightarrow> nat \<Rightarrow> bool" where
  "stepReady d idx \<longleftrightarrow>
     idx < length (dag_steps d) \<and> idx < length (dag_remainingDeps d) \<and>
     dag_remainingDeps d ! idx = 0 \<and>
     ss_Status (dag_steps d ! idx) = WORKFLOW_STEP_STATUS_SCHEDULED \<and>
     ss_TaskID (dag_steps d ! idx) = ''''"

definition existing_by_id :: "step_state list \<Rightarrow> string \<rightharpoonup> step_state" where
  "existing_by_id existing =
     foldl (\<lambda>m step. if ss_StepID step \<noteq> '''' then m(ss_StepID step \<mapsto> step) else m) Map.empty existing"

definition merge_step :: "(string \<rightharpoonup> step_state) \<Rightarrow> step_definition \<Rightarrow> step_state" where
  "merge_step existingByID stepDef =
     (let step = (case existingByID (sd_StepID stepDef) of
            Some step \<Rightarrow> step
          | None \<Rightarrow> zero_step_state\<lparr>ss_StepID := sd_StepID stepDef, ss_TaskName := sd_TaskName stepDef,
                ss_Status := WORKFLOW_STEP_STATUS_SCHEDULED\<rparr>);
          step1 = step\<lparr>ss_StepID := sd_StepID stepDef\<rparr>;
          step2 = (if ss_TaskName step1 = '''' then step1\<lparr>ss_TaskName := sd_TaskName stepDef\<rparr> else step1)
      in cloneStepState step2)"

definition count_dep :: "(string \<rightharpoonup> nat) \<Rightarrow> step_state list \<Rightarrow> nat \<Rightarrow> int list \<times> nat list list \<Rightarrow>
    string \<Rightarrow> int list \<times> nat list list" where
  "count_dep byID steps i = (\<lambda>(remaining, outgoing) dep.
     case byID dep of
       None \<Rightarrow> (remaining, outgoing)
     | Some depIdx \<Rightarrow>
         (if step_succeeded (steps ! depIdx) then remaining else remaining[i := remaining ! i + 1],
          outgoing[depIdx := outgoing ! depIdx @ [i]]))"

definition buildRuntimeDAG :: "wf_definition \<Rightarrow> step_state list \<Rightarrow> runtime_dag" where
  "buildRuntimeDAG def0 existing =
     (let def = normalizeDefinition def0;
          defs = def_Steps def;
          existingByID = existing_by_id existing;
          steps = map (merge_step existingByID) defs;
          byID = index_by ss_StepID steps;
          (remaining, outgoing) =
            foldl (\<lambda>acc i. foldl (count_dep byID steps i) acc (sd_DependsOn (defs ! i)))
              (replicate (length defs) 0, replicate (length defs) []) [0..<length defs];
          dag = \<lparr>dag_steps = steps, dag_byID = Some byID, dag_outgoing = outgoing,
                 dag_remainingDeps = remaining, dag_ready = [], dag_readyHead = 0\<rparr>
      in dag\<lparr>dag_ready := filter (stepReady dag) [0..<length steps]\<rparr>)"

definition dag_clone :: "runtime_dag \<Rightarrow> runtime_dag" where
  "dag_clone d =
     \<lparr>dag_steps = cloneStepStates (dag_steps d),
      dag_byID = Some (case dag_byID d of None \<Rightarrow> Map.empty | Some m \<Rightarrow> m),
      dag_outgoing = map (\<lambda>succ. [] @ succ) (dag_outgoing d),
      dag_remainingDeps = [] @ dag_remainingDeps d,
      dag_ready = [] @ dag_ready d, dag_readyHead = dag_readyHead d\<rparr>"

definition stepOrder :: "runtime_dag \<Rightarrow> string list" where
  "stepOrder d = map ss_StepID (dag_steps d)"

definition NewState :: "string \<Rightarrow> wf_definition \<Rightarrow> i64 \<Rightarrow> wf_state" where
  "NewState workflowID def0 nowMs =
     (let def = normalizeDefinition def0; dag = buildRuntimeDAG def [] in
      zero_state\<lparr>ws_WorkflowID := workflowID, ws_WorkflowName := def_WorkflowName def,
        ws_Status := WORKFLOW_STATUS_RUNNING, ws_Definition := def, ws_StepOrder := stepOrder dag,
        ws_CreatedAtMs := nowMs, ws_UpdatedAtMs := nowMs, ws_dag := dag\<rparr>)"

definition RebuildRuntime :: "wf_state \<Rightarrow> wf_state" where
  "RebuildRuntime s =
     (let steps = (if dag_byID (ws_dag s) \<noteq> None then cloneStepStates (dag_steps (ws_dag s)) else []);
          def = normalizeDefinition (ws_Definition s);
          dag = buildRuntimeDAG def steps
      in s\<lparr>ws_Definition := def, ws_dag := dag, ws_StepOrder := stepOrder dag\<rparr>)"

definition ensureRuntime :: "wf_state \<Rightarrow> wf_state" where
  "ensureRuntime s =
     (if dag_byID (ws_dag s) \<noteq> None \<and> length (dag_steps (ws_dag s)) = length (ws_StepOrder s) then s
      else RebuildRuntime s)"

text \<open>Value-receiver methods rebuild a private copy when the structure is missing.\<close>

definition withRuntime :: "wf_state \<Rightarrow> wf_state" where
  "withRuntime s = (if dag_byID (ws_dag s) = None then RebuildRuntime s else s)"

definition lookupID :: "runtime_dag \<Rightarrow> string \<rightharpoonup> nat" where
  "lookupID d stepID = (case dag_byID d of None \<Rightarrow> None | Some m \<Rightarrow> m stepID)"

subsection \<open>Reading\<close>

definition Step :: "wf_state \<Rightarrow> string \<Rightarrow> step_state option" where
  "Step s0 stepID =
     (let s = withRuntime s0 in
      case lookupID (ws_dag s) stepID of
        None \<Rightarrow> None
      | Some idx \<Rightarrow>
          if length (dag_steps (ws_dag s)) \<le> idx then None
          else Some (cloneStepState (dag_steps (ws_dag s) ! idx)))"

definition StepAt :: "wf_state \<Rightarrow> nat \<Rightarrow> (step_definition \<times> step_state) option" where
  "StepAt s0 idx =
     (let s = withRuntime s0 in
      if length (dag_steps (ws_dag s)) \<le> idx \<or> length (def_Steps (ws_Definition s)) \<le> idx then None
      else Some (def_Steps (ws_Definition s) ! idx, cloneStepState (dag_steps (ws_dag s) ! idx)))"

definition StepStatesInOrder :: "wf_state \<Rightarrow> step_state list" where
  "StepStatesInOrder s = cloneStepStates (dag_steps (ws_dag (withRuntime s)))"

definition AllStepsSucceeded :: "wf_state \<Rightarrow> bool" where
  "AllStepsSucceeded s = list_all step_succeeded (dag_steps (ws_dag (withRuntime s)))"

text \<open>\<open>DependenciesSucceeded\<close> of \<open>internal/workflow/args.go\<close>.\<close>

definition DependenciesSucceeded :: "step_definition \<Rightarrow> wf_state \<Rightarrow> bool" where
  "DependenciesSucceeded step state =
     list_all (\<lambda>dep. case Step state dep of None \<Rightarrow> False | Some depState \<Rightarrow> step_succeeded depState)
       (sd_DependsOn step)"

definition CloneState :: "wf_state \<Rightarrow> wf_state" where
  "CloneState s0 =
     (let s = withRuntime s0 in
      s\<lparr>ws_ResultJSON := [] @ ws_ResultJSON s, ws_StepOrder := [] @ ws_StepOrder s,
        ws_Definition := CloneDefinition (ws_Definition s), ws_dag := dag_clone (ws_dag s)\<rparr>)"

subsection \<open>The ready queue\<close>

function popReady :: "runtime_dag \<Rightarrow> runtime_dag \<times> nat option" where
  "popReady d =
     (if dag_readyHead d < length (dag_ready d) then
        (let idx = dag_ready d ! dag_readyHead d;
             d' = d\<lparr>dag_readyHead := dag_readyHead d + 1\<rparr>
         in if stepReady d' idx then (d', Some idx) else popReady d')
      else (d\<lparr>dag_ready := [], dag_readyHead := 0\<rparr>, None))"
  by pat_completeness auto
termination
  by (relation "measure (\<lambda>d. length (dag_ready d) - dag_readyHead d)") auto

declare popReady.simps [simp del]

lemma popReady_measure:
  "popReady d = (d', Some idx) \<Longrightarrow>
     length (dag_ready d') - dag_readyHead d' < length (dag_ready d) - dag_readyHead d"
proof (induction d rule: popReady.induct)
  case (1 d)
  show ?case using 1(2) 1(1) [OF _ refl refl]
    by (subst (asm) popReady.simps) (force simp: Let_def split: if_splits)
qed

function pop_loop :: "wf_state \<Rightarrow> wf_state \<times> (step_definition \<times> step_state) option" where
  "pop_loop s =
     (case popReady (ws_dag s) of
        (d, None) \<Rightarrow> (s\<lparr>ws_dag := d\<rparr>, None)
      | (d, Some idx) \<Rightarrow>
          if length (def_Steps (ws_Definition s)) \<le> idx then pop_loop (s\<lparr>ws_dag := d\<rparr>)
          else (s\<lparr>ws_dag := d\<rparr>,
                Some (def_Steps (ws_Definition s) ! idx, cloneStepState (dag_steps d ! idx))))"
  by pat_completeness auto
termination
  by (relation "measure (\<lambda>s. length (dag_ready (ws_dag s)) - dag_readyHead (ws_dag s))")
     (auto dest: popReady_measure [OF sym])

declare pop_loop.simps [simp del]

definition PopReadyStep :: "wf_state \<Rightarrow> wf_state \<times> (step_definition \<times> step_state) option" where
  "PopReadyStep s = pop_loop (ensureRuntime s)"

subsection \<open>Transitions\<close>

definition setStep :: "wf_state \<Rightarrow> nat \<Rightarrow> step_state \<Rightarrow> wf_state" where
  "setStep s idx step = s\<lparr>ws_dag := (ws_dag s)\<lparr>dag_steps := (dag_steps (ws_dag s))[idx := step]\<rparr>\<rparr>"

definition UpdateStep :: "wf_state \<Rightarrow> string \<Rightarrow> (step_state \<Rightarrow> step_state) option \<Rightarrow> wf_state \<times> bool" where
  "UpdateStep s0 stepID fn =
     (case fn of None \<Rightarrow> (s0, False) | Some f \<Rightarrow>
       (let s = ensureRuntime s0 in
        case lookupID (ws_dag s) stepID of
          None \<Rightarrow> (s, False)
        | Some idx \<Rightarrow>
            if length (dag_steps (ws_dag s)) \<le> idx then (s, False)
            else
              (let old = cloneStepState (dag_steps (ws_dag s) ! idx);
                   step = f old;
                   step' = (if ss_StepID step = '''' then step\<lparr>ss_StepID := stepID\<rparr> else step);
                   s' = setStep s idx (cloneStepState step')
               in (if ss_Status step' \<noteq> ss_Status old \<or> ss_TaskID step' \<noteq> ss_TaskID old
                   then RebuildRuntime s' else s', True))))"

text \<open>
  The four transitions look the step up, write the changed copy back and stamp the state. A
  stored index is a position of \<open>steps\<close> in every state that \<open>ensureRuntime\<close> returns
  (\<open>runtime_ok\<close> below); a Go slice access outside it would panic, here it leaves the list alone.
\<close>

definition SetStepScheduled :: "wf_state \<Rightarrow> string \<Rightarrow> string \<Rightarrow> u32 \<Rightarrow> string \<Rightarrow> bytes option \<Rightarrow> i64 \<Rightarrow>
    wf_state \<times> bool" where
  "SetStepScheduled s0 stepID taskID attempt inputHash resolvedArgsJSON nowMs =
     (let s = ensureRuntime s0 in
      case lookupID (ws_dag s) stepID of
        None \<Rightarrow> (s, False)
      | Some idx \<Rightarrow>
          (let step = dag_steps (ws_dag s) ! idx;
               step1 = step\<lparr>ss_Status := WORKFLOW_STEP_STATUS_SCHEDULED, ss_TaskID := taskID,
                  ss_Attempts := attempt, ss_LastInputHash := inputHash,
                  ss_LastScheduledAtMs := nowMs, ss_Error := ''''\<rparr>;
               step2 = (case resolvedArgsJSON of None \<Rightarrow> step1
                        | Some args \<Rightarrow> step1\<lparr>ss_ResolvedArgsJSON := [] @ args\<rparr>)
           in ((setStep s idx step2)\<lparr>ws_UpdatedAtMs := nowMs\<rparr>, True)))"

definition SetStepStarted :: "wf_state \<Rightarrow> string \<Rightarrow> string \<Rightarrow> i64 \<Rightarrow> wf_state \<times> bool" where
  "SetStepStarted s0 stepID taskID nowMs =
     (let s = ensureRuntime s0 in
      case lookupID (ws_dag s) stepID of
        None \<Rightarrow> (s, False)
      | Some idx \<Rightarrow>
          (let step = dag_steps (ws_dag s) ! idx in
           if step_succeeded step then (s, True)
           else ((setStep s idx (step\<lparr>ss_Status := WORKFLOW_STEP_STATUS_STARTED, ss_TaskID := taskID,
                    ss_StartedAtMs := nowMs\<rparr>))\<lparr>ws_UpdatedAtMs := nowMs\<rparr>, True)))"

definition unlock_one :: "runtime_dag \<Rightarrow> nat \<Rightarrow> runtime_dag" where
  "unlock_one d next =
     (if length (dag_remainingDeps d) \<le> next then d
      else
        (let d' = (if 0 < dag_remainingDeps d ! next
                   then d\<lparr>dag_remainingDeps := (dag_remainingDeps d)[next := dag_remainingDeps d ! next - 1]\<rparr>
                   else d)
         in if stepReady d' next then d'\<lparr>dag_ready := dag_ready d' @ [next]\<rparr> else d'))"

definition SetStepSucceeded :: "wf_state \<Rightarrow> string \<Rightarrow> string \<Rightarrow> bytes \<Rightarrow> string \<Rightarrow> i64 \<Rightarrow> i64 \<Rightarrow>
    wf_state \<times> bool" where
  "SetStepSucceeded s0 stepID taskID resultJSON resultRef nowMs latencyMs =
     (let s = ensureRuntime s0 in
      case lookupID (ws_dag s) stepID of
        None \<Rightarrow> (s, False)
      | Some idx \<Rightarrow>
          (let step = dag_steps (ws_dag s) ! idx;
               wasSucceeded = step_succeeded step;
               step1 = step\<lparr>ss_Status := WORKFLOW_STEP_STATUS_SUCCEEDED, ss_TaskID := taskID,
                  ss_ResultJSON := [] @ resultJSON, ss_ResultRef := resultRef, ss_Error := '''',
                  ss_CompletedAtMs := nowMs, ss_LatencyMs := latencyMs\<rparr>;
               s1 = (setStep s idx step1)\<lparr>ws_UpdatedAtMs := nowMs\<rparr>
           in if wasSucceeded then (s1, True)
              else (s1\<lparr>ws_dag := foldl unlock_one (ws_dag s1) (dag_outgoing (ws_dag s1) ! idx)\<rparr>, True)))"

definition SetStepFailed :: "wf_state \<Rightarrow> string \<Rightarrow> string \<Rightarrow> string \<Rightarrow> bool \<Rightarrow> i64 \<Rightarrow> i64 \<Rightarrow>
    wf_state \<times> bool" where
  "SetStepFailed s0 stepID taskID stepErr retry nowMs latencyMs =
     (let s = ensureRuntime s0 in
      case lookupID (ws_dag s) stepID of
        None \<Rightarrow> (s, False)
      | Some idx \<Rightarrow>
          (let step = dag_steps (ws_dag s) ! idx;
               step1 = step\<lparr>ss_Status := WORKFLOW_STEP_STATUS_FAILED, ss_TaskID := taskID,
                  ss_Error := stepErr, ss_CompletedAtMs := nowMs, ss_LatencyMs := latencyMs\<rparr>;
               step2 = (if retry then step1\<lparr>ss_Status := WORKFLOW_STEP_STATUS_SCHEDULED,
                          ss_TaskID := ''''\<rparr> else step1);
               s1 = (setStep s idx step2)\<lparr>ws_UpdatedAtMs := nowMs\<rparr>;
               d = ws_dag s1
           in (if retry \<and> stepReady d idx
               then s1\<lparr>ws_dag := d\<lparr>dag_ready := dag_ready d @ [idx]\<rparr>\<rparr> else s1, True)))"

subsection \<open>The structure invariant\<close>

abbreviation unfinished :: "step_definition list \<Rightarrow> step_state list \<Rightarrow> nat \<Rightarrow> int" where
  "unfinished defs steps i \<equiv>
     int (length (filter (\<lambda>j. \<not> step_succeeded (steps ! j)) (preds defs i)))"

definition dag_ok :: "step_definition list \<Rightarrow> runtime_dag \<Rightarrow> bool" where
  "dag_ok defs d \<longleftrightarrow>
     map ss_StepID (dag_steps d) = map sd_StepID defs \<and>
     dag_byID d = Some (index_by sd_StepID defs) \<and>
     dag_outgoing d = map (succs defs (length defs)) [0..<length defs] \<and>
     dag_remainingDeps d = map (unfinished defs (dag_steps d)) [0..<length defs] \<and>
     set (dag_ready d) \<subseteq> {..<length defs} \<and> dag_readyHead d \<le> length (dag_ready d)"

definition queued :: "runtime_dag \<Rightarrow> nat list" where
  "queued d = drop (dag_readyHead d) (dag_ready d)"

definition queue_complete :: "runtime_dag \<Rightarrow> bool" where
  "queue_complete d \<longleftrightarrow> (\<forall>i. stepReady d i \<longrightarrow> i \<in> set (queued d))"

lemma count_dep_apply [simp]:
  "count_dep m steps i (rem, out) dep =
     (case m dep of None \<Rightarrow> (rem, out)
      | Some j \<Rightarrow> (if step_succeeded (steps ! j) then rem else rem[i := rem ! i + 1],
                   out[j := out ! j @ [i]]))"
  by (simp add: count_dep_def)

lemma fold_count_dep:
  assumes "i < length rem" and "\<forall>d \<in> set ds. \<exists>j. m d = Some j \<and> j < length out"
  shows "foldl (count_dep m steps i) (rem, out) ds =
    (rem[i := rem ! i + int (length (filter (\<lambda>j. \<not> step_succeeded (steps ! j)) (map (\<lambda>d. the (m d)) ds)))],
     map (\<lambda>j. out ! j @ replicate (count_list (map (\<lambda>d. the (m d)) ds) j) i) [0..<length out])"
  using assms
proof (induction ds arbitrary: rem out)
  case Nil
  then show ?case by (simp add: map_nth)
next
  case (Cons d ds)
  then obtain j where j: "m d = Some j" "j < length out" by auto
  show ?case
    using Cons.prems j
    by (auto simp: Cons.IH nth_list_update replicate_append_same intro!: nth_equalityI)
qed

lemma fold_count_deps:
  assumes "deps_known defs" and "k \<le> length defs"
  shows "foldl (\<lambda>acc i. foldl (count_dep (index_by sd_StepID defs) steps i) acc (sd_DependsOn (defs ! i)))
          (replicate (length defs) 0, replicate (length defs) []) [0..<k] =
    (map (\<lambda>i. if i < k then unfinished defs steps i else 0) [0..<length defs],
     map (succs defs k) [0..<length defs])"
  using assms(2)
proof (induction k)
  case 0
  then show ?case by (auto simp: succs_def intro!: nth_equalityI)
next
  case (Suc k)
  then show ?case
    using deps_known_index [OF assms(1), of k]
    by (auto simp: fold_count_dep succs_def preds_def nth_list_update intro!: nth_equalityI)
qed

lemma merge_step_id [simp]: "ss_StepID (merge_step m d) = sd_StepID d"
  by (simp add: merge_step_def Let_def)

lemma buildRuntimeDAG_fields:
  assumes "normalizeDefinition def = def" "deps_known (def_Steps def)"
  shows "dag_steps (buildRuntimeDAG def existing) = map (merge_step (existing_by_id existing)) (def_Steps def)"
    "dag_byID (buildRuntimeDAG def existing) = Some (index_by sd_StepID (def_Steps def))"
    "dag_outgoing (buildRuntimeDAG def existing) =
       map (succs (def_Steps def) (length (def_Steps def))) [0..<length (def_Steps def)]"
    "dag_remainingDeps (buildRuntimeDAG def existing) =
       map (unfinished (def_Steps def) (map (merge_step (existing_by_id existing)) (def_Steps def)))
         [0..<length (def_Steps def)]"
    "dag_readyHead (buildRuntimeDAG def existing) = 0"
    "dag_ready (buildRuntimeDAG def existing) =
       filter (stepReady (buildRuntimeDAG def existing)) [0..<length (def_Steps def)]"
proof -
  define steps where "steps = map (merge_step (existing_by_id existing)) (def_Steps def)"
  have byID: "index_by ss_StepID steps = index_by sd_StepID (def_Steps def)"
    unfolding steps_def by (rule index_by_cong) simp
  have "map (\<lambda>i. if i < length (def_Steps def) then unfinished (def_Steps def) steps i else 0)
      [0..<length (def_Steps def)] = map (unfinished (def_Steps def) steps) [0..<length (def_Steps def)]"
    by (rule map_cong) simp_all
  note folded = fold_count_deps [OF assms(2) order_refl, of steps, unfolded this]
  have b: "buildRuntimeDAG def existing = (let dag = \<lparr>dag_steps = steps,
      dag_byID = Some (index_by sd_StepID (def_Steps def)),
      dag_outgoing = map (succs (def_Steps def) (length (def_Steps def))) [0..<length (def_Steps def)],
      dag_remainingDeps = map (unfinished (def_Steps def) steps) [0..<length (def_Steps def)],
      dag_ready = [], dag_readyHead = 0\<rparr> in dag\<lparr>dag_ready := filter (stepReady dag) [0..<length steps]\<rparr>)"
    unfolding buildRuntimeDAG_def assms(1) Let_def steps_def [symmetric] byID by (simp only: folded prod.case)
  have "length steps = length (def_Steps def)" by (simp add: steps_def)
  then show "dag_steps (buildRuntimeDAG def existing) = map (merge_step (existing_by_id existing)) (def_Steps def)"
    "dag_byID (buildRuntimeDAG def existing) = Some (index_by sd_StepID (def_Steps def))"
    "dag_outgoing (buildRuntimeDAG def existing) =
       map (succs (def_Steps def) (length (def_Steps def))) [0..<length (def_Steps def)]"
    "dag_remainingDeps (buildRuntimeDAG def existing) =
       map (unfinished (def_Steps def) (map (merge_step (existing_by_id existing)) (def_Steps def)))
         [0..<length (def_Steps def)]"
    "dag_readyHead (buildRuntimeDAG def existing) = 0"
    "dag_ready (buildRuntimeDAG def existing) =
       filter (stepReady (buildRuntimeDAG def existing)) [0..<length (def_Steps def)]"
    unfolding b Let_def by (simp_all add: steps_def stepReady_def cong: filter_cong)
qed

lemma dag_ok_build:
  assumes "normalizeDefinition def = def" "deps_known (def_Steps def)"
  shows "dag_ok (def_Steps def) (buildRuntimeDAG def existing)"
    "queue_complete (buildRuntimeDAG def existing)"
proof -
  note b = buildRuntimeDAG_fields [OF assms, of existing]
  show "dag_ok (def_Steps def) (buildRuntimeDAG def existing)"
    by (auto simp: dag_ok_def b(1-5) b(6))
  have "i < length (def_Steps def)" if "stepReady (buildRuntimeDAG def existing) i" for i
    using that by (simp add: stepReady_def b(1))
  then show "queue_complete (buildRuntimeDAG def existing)"
    by (auto simp: queue_complete_def queued_def b(5) b(6))
qed

lemma dag_ok_lengths:
  assumes "dag_ok defs d"
  shows "length (dag_steps d) = length defs" "length (dag_remainingDeps d) = length defs"
    "length (dag_outgoing d) = length defs"
proof -
  have "length (map ss_StepID (dag_steps d)) = length (map sd_StepID defs)"
    using assms by (simp only: dag_ok_def)
  then show "length (dag_steps d) = length defs" by simp
qed (use assms in \<open>simp_all add: dag_ok_def\<close>)

lemma stepReady_iff:
  assumes "dag_ok defs d"
  shows "stepReady d i \<longleftrightarrow> i < length defs \<and>
     (\<forall>j \<in> set (preds defs i). step_succeeded (dag_steps d ! j)) \<and>
     ss_Status (dag_steps d ! i) = WORKFLOW_STEP_STATUS_SCHEDULED \<and> ss_TaskID (dag_steps d ! i) = ''''"
  using dag_ok_lengths [OF assms] assms
  by (auto simp: stepReady_def dag_ok_def filter_empty_conv)

lemma unlock_one_fields [simp]:
  "dag_steps (unlock_one d i) = dag_steps d" "dag_byID (unlock_one d i) = dag_byID d"
  "dag_outgoing (unlock_one d i) = dag_outgoing d" "dag_readyHead (unlock_one d i) = dag_readyHead d"
  "length (dag_remainingDeps (unlock_one d i)) = length (dag_remainingDeps d)"
  by (simp_all add: unlock_one_def Let_def)

lemma unlock_all:
  assumes "\<forall>i \<in> set L. i < length (dag_remainingDeps d) \<and> int (count_list L i) \<le> dag_remainingDeps d ! i"
  defines "d' \<equiv> foldl unlock_one d L"
  shows "dag_steps d' = dag_steps d" "dag_byID d' = dag_byID d" "dag_outgoing d' = dag_outgoing d"
    "dag_readyHead d' = dag_readyHead d"
    "dag_remainingDeps d' = map (\<lambda>i. dag_remainingDeps d ! i - int (count_list L i)) [0..<length (dag_remainingDeps d)]"
    "\<exists>r. dag_ready d' = dag_ready d @ r \<and> distinct r \<and> set r = {i \<in> set L. stepReady d' i}"
proof -
  have "dag_steps d' = dag_steps d \<and> dag_byID d' = dag_byID d \<and> dag_outgoing d' = dag_outgoing d \<and>
    dag_readyHead d' = dag_readyHead d \<and>
    dag_remainingDeps d' = map (\<lambda>i. dag_remainingDeps d ! i - int (count_list L i)) [0..<length (dag_remainingDeps d)] \<and>
    (\<exists>r. dag_ready d' = dag_ready d @ r \<and> distinct r \<and> set r = {i \<in> set L. stepReady d' i})"
    unfolding d'_def using assms(1)
  proof (induction L arbitrary: d)
    case Nil
    then show ?case by (simp add: map_nth)
  next
    case (Cons x L)
    let ?d = "unlock_one d x" and ?e = "foldl unlock_one (unlock_one d x) L"
    have x: "x < length (dag_remainingDeps d)" "0 < dag_remainingDeps d ! x" using Cons.prems by auto
    then have rem: "dag_remainingDeps ?d = (dag_remainingDeps d)[x := dag_remainingDeps d ! x - 1]"
      by (simp add: unlock_one_def Let_def)
    have "\<forall>i \<in> set L. i < length (dag_remainingDeps ?d) \<and> int (count_list L i) \<le> dag_remainingDeps ?d ! i"
      using Cons.prems x by (auto simp: rem nth_list_update)
    from Cons.IH [OF this] obtain r where IH: "dag_steps ?e = dag_steps d" "dag_byID ?e = dag_byID d"
        "dag_outgoing ?e = dag_outgoing d" "dag_readyHead ?e = dag_readyHead d"
        "dag_remainingDeps ?e = map (\<lambda>i. dag_remainingDeps ?d ! i - int (count_list L i)) [0..<length (dag_remainingDeps ?d)]"
        "dag_ready ?e = dag_ready ?d @ r" "distinct r" "set r = {i \<in> set L. stepReady ?e i}" by auto
    have rem': "dag_remainingDeps ?e = map (\<lambda>i. dag_remainingDeps d ! i - int (count_list (x # L) i)) [0..<length (dag_remainingDeps d)]"
      using x by (auto simp: IH(5) rem nth_list_update)
    let ?p = "stepReady ?d x"
    have ready: "dag_ready ?d = dag_ready d @ (if ?p then [x] else [])"
      using x by (auto simp: unlock_one_def Let_def stepReady_def)
    have xL: "x \<in> set L \<Longrightarrow> 2 \<le> dag_remainingDeps d ! x"
    proof -
      assume "x \<in> set L"
      then have "0 < count_list L x" by (metis count_list_0_iff gr0I)
      then show ?thesis using Cons.prems by auto
    qed
    have p_new: "?p \<Longrightarrow> x \<notin> set L" using xL x by (auto simp: stepReady_def rem)
    have p_iff: "x \<notin> set L \<Longrightarrow> stepReady ?e x \<longleftrightarrow> ?p"
      using x by (simp add: stepReady_def IH(1) rem' rem)
    have "set ((if ?p then [x] else []) @ r) = {i \<in> set (x # L). stepReady ?e i}"
      using IH(8) p_new p_iff by (cases ?p; cases "x \<in> set L") (simp_all, blast+)
    moreover have "distinct ((if ?p then [x] else []) @ r)" using IH(7,8) p_new by (cases ?p) auto
    ultimately show ?case using IH(1-4,6) rem' ready by simp
  qed
  then show "dag_steps d' = dag_steps d" "dag_byID d' = dag_byID d" "dag_outgoing d' = dag_outgoing d"
    "dag_readyHead d' = dag_readyHead d"
    "dag_remainingDeps d' = map (\<lambda>i. dag_remainingDeps d ! i - int (count_list L i)) [0..<length (dag_remainingDeps d)]"
    "\<exists>r. dag_ready d' = dag_ready d @ r \<and> distinct r \<and> set r = {i \<in> set L. stepReady d' i}"
    by blast+
qed


lemma stepReady_queue [simp]:
  "stepReady (d\<lparr>dag_readyHead := h\<rparr>) = stepReady d" "stepReady (d\<lparr>dag_ready := r\<rparr>) = stepReady d"
  by (simp_all add: stepReady_def fun_eq_iff)

lemma popReady_spec:
  assumes "dag_readyHead d \<le> length (dag_ready d)"
  shows "popReady d = (case dropWhile (\<lambda>i. \<not> stepReady d i) (queued d) of
      [] \<Rightarrow> (d\<lparr>dag_ready := [], dag_readyHead := 0\<rparr>, None)
    | i # rest \<Rightarrow> (d\<lparr>dag_readyHead := length (dag_ready d) - length rest\<rparr>, Some i))"
  using assms
proof (induction d rule: popReady.induct)
  case (1 d)
  show ?case
  proof (cases "dag_readyHead d < length (dag_ready d)")
    case True
    then have q: "queued d = dag_ready d ! dag_readyHead d # queued (d\<lparr>dag_readyHead := Suc (dag_readyHead d)\<rparr>)"
      by (simp add: queued_def Cons_nth_drop_Suc)
    have len: "length (dag_ready d) - length (queued (d\<lparr>dag_readyHead := Suc (dag_readyHead d)\<rparr>)) = Suc (dag_readyHead d)"
      using True by (simp add: queued_def)
    show ?thesis
    proof (cases "stepReady d (dag_ready d ! dag_readyHead d)")
      case ready: True
      then show ?thesis using True q len by (subst popReady.simps) (simp add: Let_def)
    next
      case False
      then show ?thesis using True q 1(1) [OF True refl refl]
        by (subst popReady.simps) (simp add: Let_def cong: list.case_cong)
    qed
  next
    case False
    then show ?thesis by (subst popReady.simps) (simp add: queued_def)
  qed
qed

lemma dag_ok_setStep:
  assumes "dag_ok defs d" "idx < length defs" "ss_StepID step = ss_StepID (dag_steps d ! idx)"
    and "step_succeeded step \<longleftrightarrow> step_succeeded (dag_steps d ! idx)"
  shows "dag_ok defs (d\<lparr>dag_steps := (dag_steps d)[idx := step]\<rparr>)"
proof -
  have l: "idx < length (dag_steps d)" using dag_ok_lengths [OF assms(1)] assms(2) by simp
  have "step_succeeded ((dag_steps d)[idx := step] ! j) \<longleftrightarrow> step_succeeded (dag_steps d ! j)" for j
    using assms(4) l by (simp add: nth_list_update)
  moreover have "map ss_StepID ((dag_steps d)[idx := step]) = map ss_StepID (dag_steps d)"
    using assms(3) l by (simp add: map_update) (metis list_update_id map_update nth_map length_map)
  ultimately show ?thesis using assms(1) by (simp add: dag_ok_def)
qed

lemma length_filter_remove:
  assumes "P x" "\<And>y. Q y \<longleftrightarrow> P y \<and> y \<noteq> x"
  shows "int (length (filter Q xs)) = int (length (filter P xs)) - int (count_list xs x)"
  using assms by (induction xs) auto

lemma dag_ok_succeeded:
  assumes ok: "dag_ok defs d" and idx: "idx < length defs"
    and step: "ss_StepID step = ss_StepID (dag_steps d ! idx)" "step_succeeded step"
    and old: "\<not> step_succeeded (dag_steps d ! idx)"
  defines "d1 \<equiv> d\<lparr>dag_steps := (dag_steps d)[idx := step]\<rparr>"
  defines "d2 \<equiv> foldl unlock_one d1 (dag_outgoing d1 ! idx)"
  shows "dag_ok defs d2 \<and> dag_steps d2 = (dag_steps d)[idx := step] \<and>
    (queue_complete d \<longrightarrow> queue_complete d2)"
proof -
  let ?L = "succs defs (length defs) idx"
  note len = dag_ok_lengths [OF ok]
  have L: "dag_outgoing d1 ! idx = ?L" using ok idx by (simp add: d1_def dag_ok_def)
  have cnt: "count_list ?L i = count_list (preds defs i) idx" if "i < length defs" for i
    using that by (simp add: count_succs)
  have new: "unfinished defs ((dag_steps d)[idx := step]) i =
      unfinished defs (dag_steps d) i - int (count_list (preds defs i) idx)" for i
    by (rule length_filter_remove) (use old step(2) idx len in \<open>auto simp: nth_list_update\<close>)
  have rem: "dag_remainingDeps d1 = map (unfinished defs (dag_steps d)) [0..<length defs]"
    using ok by (simp add: d1_def dag_ok_def)
  have "\<forall>i \<in> set ?L. i < length (dag_remainingDeps d1) \<and> int (count_list ?L i) \<le> dag_remainingDeps d1 ! i"
  proof
    fix i assume "i \<in> set ?L"
    then have i: "i < length defs" by (simp add: set_succs)
    have "0 \<le> unfinished defs ((dag_steps d)[idx := step]) i" by simp
    then show "i < length (dag_remainingDeps d1) \<and> int (count_list ?L i) \<le> dag_remainingDeps d1 ! i"
      using i new [of i] cnt [OF i] by (simp add: rem)
  qed
  note un = unlock_all [OF this, folded L, folded d2_def]
  have rem2: "dag_remainingDeps d2 = map (unfinished defs ((dag_steps d)[idx := step])) [0..<length defs]"
    unfolding un(5) by (rule nth_equalityI) (use cnt in \<open>simp_all only: rem L new length_map length_upt nth_map nth_upt\<close>, simp_all add: new)
  obtain r where r: "dag_ready d2 = dag_ready d @ r" "set r = {i \<in> set ?L. stepReady d2 i}"
    using un(6) L by (auto simp: d1_def)
  have st: "dag_steps d2 = (dag_steps d)[idx := step]" using un(1) by (simp add: d1_def)
  have "map ss_StepID ((dag_steps d)[idx := step]) = map ss_StepID (dag_steps d)"
    using step(1) idx len by (simp add: map_update) (metis list_update_id map_update nth_map length_map)
  moreover have "set r \<subseteq> {..<length defs}" using r(2) by (auto simp: set_succs)
  ultimately have ok2: "dag_ok defs d2"
    using ok un(2-4) rem2 st r(1) by (simp add: dag_ok_def d1_def)
  have "queue_complete d2" if c: "queue_complete d"
    unfolding queue_complete_def
  proof (intro allI impI)
    fix i assume rd: "stepReady d2 i"
    have q: "queued d2 = queued d @ r" using ok r(1) un(4) by (simp add: queued_def d1_def dag_ok_def)
    show "i \<in> set (queued d2)"
    proof (cases "i \<in> set ?L")
      case True
      then show ?thesis using rd r(2) q by simp
    next
      case False
      have i: "i < length defs" using rd stepReady_iff [OF ok2] by simp
      then have np: "idx \<notin> set (preds defs i)" using False by (simp add: set_succs)
      have ne: "i \<noteq> idx" using rd step(2) idx len by (auto simp: stepReady_iff [OF ok2] st)
      have "step_succeeded (dag_steps d ! j)" if "j \<in> set (preds defs i)" for j
      proof -
        have "idx \<noteq> j" using that np by blast
        then show ?thesis using rd that by (auto simp: stepReady_iff [OF ok2] st)
      qed
      then have "stepReady d i" using rd ne i by (simp add: stepReady_iff [OF ok2] stepReady_iff [OF ok] st)
      then show ?thesis using c q by (simp add: queue_complete_def)
    qed
  qed
  then show ?thesis using ok2 st by simp
qed


subsection \<open>States\<close>

definition state_ok :: "wf_state \<Rightarrow> bool" where
  "state_ok s \<longleftrightarrow> valid_definition (ws_Definition s) \<and> normalizeDefinition (ws_Definition s) = ws_Definition s \<and>
     ws_StepOrder s = map sd_StepID (def_Steps (ws_Definition s)) \<and>
     dag_ok (def_Steps (ws_Definition s)) (ws_dag s)"

lemma state_ok_runtime:
  assumes "state_ok s"
  shows "ensureRuntime s = s" "withRuntime s = s" "dag_byID (ws_dag s) \<noteq> None"
  using assms dag_ok_lengths [of "def_Steps (ws_Definition s)" "ws_dag s"]
  by (auto simp: ensureRuntime_def withRuntime_def state_ok_def dag_ok_def)

lemma state_ok_lookup:
  assumes "state_ok s"
  shows "lookupID (ws_dag s) stepID = index_by sd_StepID (def_Steps (ws_Definition s)) stepID"
    "lookupID (ws_dag s) stepID = Some idx \<longleftrightarrow>
      idx < length (def_Steps (ws_Definition s)) \<and> sd_StepID (def_Steps (ws_Definition s) ! idx) = stepID"
    "lookupID (ws_dag s) stepID = None \<longleftrightarrow> stepID \<notin> sd_StepID ` set (def_Steps (ws_Definition s))"
  using assms by (auto simp: state_ok_def dag_ok_def lookupID_def valid_definition_def
      index_by_Some_iff index_by_None_iff)

lemma state_ok_length:
  "state_ok s \<Longrightarrow> length (dag_steps (ws_dag s)) = length (def_Steps (ws_Definition s))"
  using dag_ok_lengths by (auto simp: state_ok_def)

lemma normalize_normalize:
  assumes "valid_definition def"
  shows "normalizeDefinition (normalizeDefinition def) = normalizeDefinition def"
    "valid_definition (normalizeDefinition def)"
proof -
  from valid_topological [OF assms] obtain ordered where
    o: "topologicalStepDefinitions (def_Steps def) = Inr ordered" "mset ordered = mset (def_Steps def)" by blast
  with topological_idem [OF o(1)] valid_definition_mset [OF o(2) assms] assms
  show "normalizeDefinition (normalizeDefinition def) = normalizeDefinition def"
    "valid_definition (normalizeDefinition def)"
    by (simp_all add: normalizeDefinition_def valid_definition_def)
qed

lemma build_state_ok:
  assumes "valid_definition (ws_Definition s)" "normalizeDefinition (ws_Definition s) = ws_Definition s"
    and "ws_dag s = buildRuntimeDAG (ws_Definition s) existing" "ws_StepOrder s = stepOrder (ws_dag s)"
  shows "state_ok s" "queue_complete (ws_dag s)"
proof -
  have k: "deps_known (def_Steps (ws_Definition s))" using assms(1) by (simp add: valid_definition_def)
  note b = dag_ok_build [OF assms(2) k, of existing, folded assms(3)]
  then show "state_ok s" using assms(1,2,4) by (simp add: state_ok_def stepOrder_def dag_ok_def)
  show "queue_complete (ws_dag s)" by (rule b(2))
qed

lemma NewState_ok:
  assumes "valid_definition def"
  shows "state_ok (NewState w def t)" "queue_complete (ws_dag (NewState w def t))"
  by (rule build_state_ok [where existing = "[]"];
      simp add: NewState_def Let_def normalize_normalize [OF assms])+

lemma RebuildRuntime_ok:
  assumes "valid_definition (ws_Definition s)"
  shows "state_ok (RebuildRuntime s)" "queue_complete (ws_dag (RebuildRuntime s))"
  by (rule build_state_ok [where existing =
        "if dag_byID (ws_dag s) \<noteq> None then cloneStepStates (dag_steps (ws_dag s)) else []"];
      simp add: RebuildRuntime_def Let_def normalize_normalize [OF assms])+

lemma existing_by_id_index:
  assumes "distinct (map ss_StepID xs)" "'''' \<notin> ss_StepID ` set xs" "i < length xs"
  shows "existing_by_id xs (ss_StepID (xs ! i)) = Some (xs ! i)"
proof -
  have "foldl (\<lambda>m step. if ss_StepID step \<noteq> '''' then m(ss_StepID step \<mapsto> step) else m) m xs
      (ss_StepID (xs ! i)) = Some (xs ! i)" for m
    using assms
  proof (induction xs arbitrary: m i rule: rev_induct)
    case (snoc x xs)
    show ?case
    proof (cases "i < length xs")
      case True
      then have "ss_StepID (xs ! i) \<noteq> ss_StepID x" using snoc.prems by (auto simp: image_iff) (metis nth_mem)
      then show ?thesis using snoc.IH [of i m] snoc.prems True by (simp add: nth_append)
    next
      case False
      then have "i = length xs" using snoc.prems by simp
      then show ?thesis using snoc.prems by auto
    qed
  qed simp
  then show ?thesis by (simp add: existing_by_id_def)
qed

text \<open>Rebuilding from the current step states keeps them (a missing task name is filled in).\<close>

definition named_steps :: "wf_state \<Rightarrow> bool" where
  "named_steps s \<longleftrightarrow> (\<forall>i < length (dag_steps (ws_dag s)).
     ss_TaskName (dag_steps (ws_dag s) ! i) = '''' \<longrightarrow> sd_TaskName (def_Steps (ws_Definition s) ! i) = '''')"

lemma merge_existing:
  assumes "map ss_StepID steps = map sd_StepID defs" "distinct_ids defs" "'''' \<notin> sd_StepID ` set defs"
    and "\<forall>i < length defs. ss_TaskName (steps ! i) = '''' \<longrightarrow> sd_TaskName (defs ! i) = ''''"
  shows "map (merge_step (existing_by_id steps)) defs = steps"
proof (rule nth_equalityI)
  have l: "length steps = length defs" using assms(1) by (metis length_map)
  then show "length (map (merge_step (existing_by_id steps)) defs) = length steps" by simp
  fix i assume "i < length (map (merge_step (existing_by_id steps)) defs)"
  then have i: "i < length defs" by simp
  have id: "ss_StepID (steps ! i) = sd_StepID (defs ! i)" using assms(1) i l by (metis nth_map)
  have "set (map ss_StepID steps) = set (map sd_StepID defs)" by (simp only: assms(1))
  then have "'''' \<notin> ss_StepID ` set steps" using assms(3) by simp
  then have "existing_by_id steps (sd_StepID (defs ! i)) = Some (steps ! i)"
    using existing_by_id_index [of steps i] assms(1-3) i l id by simp
  then show "map (merge_step (existing_by_id steps)) defs ! i = steps ! i"
    using i assms(4) id by (auto simp: merge_step_def Let_def)
qed

lemma RebuildRuntime_steps:
  assumes "state_ok s" "named_steps s"
  shows "dag_steps (ws_dag (RebuildRuntime s)) = dag_steps (ws_dag s)"
    "dag_remainingDeps (ws_dag (RebuildRuntime s)) = dag_remainingDeps (ws_dag s)"
    "dag_outgoing (ws_dag (RebuildRuntime s)) = dag_outgoing (ws_dag s)"
    "dag_byID (ws_dag (RebuildRuntime s)) = dag_byID (ws_dag s)"
    "ws_Definition (RebuildRuntime s) = ws_Definition s" "ws_StepOrder (RebuildRuntime s) = ws_StepOrder s"
proof -
  let ?defs = "def_Steps (ws_Definition s)"
  have v: "valid_definition (ws_Definition s)" "normalizeDefinition (ws_Definition s) = ws_Definition s"
      "dag_ok ?defs (ws_dag s)" "ws_StepOrder s = map sd_StepID ?defs"
    using assms(1) by (auto simp: state_ok_def)
  then have k: "deps_known ?defs" by (simp add: valid_definition_def)
  have m: "map (merge_step (existing_by_id (dag_steps (ws_dag s)))) ?defs = dag_steps (ws_dag s)"
    by (rule merge_existing) (use v assms(2) state_ok_length [OF assms(1)] in
        \<open>auto simp: dag_ok_def valid_definition_def named_steps_def\<close>)
  have r: "ws_dag (RebuildRuntime s) = buildRuntimeDAG (ws_Definition s) (dag_steps (ws_dag s))"
    using state_ok_runtime(3) [OF assms(1)] by (simp add: RebuildRuntime_def Let_def v(2))
  note b = buildRuntimeDAG_fields [OF v(2) k, of "dag_steps (ws_dag s)", unfolded m, folded r]
  show "dag_steps (ws_dag (RebuildRuntime s)) = dag_steps (ws_dag s)"
    "dag_remainingDeps (ws_dag (RebuildRuntime s)) = dag_remainingDeps (ws_dag s)"
    "dag_outgoing (ws_dag (RebuildRuntime s)) = dag_outgoing (ws_dag s)"
    "dag_byID (ws_dag (RebuildRuntime s)) = dag_byID (ws_dag s)"
    using v(3) b by (simp_all add: dag_ok_def)
  show "ws_Definition (RebuildRuntime s) = ws_Definition s"
    by (simp add: RebuildRuntime_def Let_def v(2))
  show "ws_StepOrder (RebuildRuntime s) = ws_StepOrder s"
  proof -
    have "ws_StepOrder (RebuildRuntime s) = stepOrder (ws_dag (RebuildRuntime s))"
      by (simp add: RebuildRuntime_def Let_def)
    then show ?thesis using b(1) v(3,4) by (simp add: stepOrder_def dag_ok_def)
  qed
qed

subsection \<open>Every transition keeps the structure consistent\<close>

lemma setStep_fields [simp]:
  "ws_Definition (setStep s i x) = ws_Definition s" "ws_StepOrder (setStep s i x) = ws_StepOrder s"
  "dag_steps (ws_dag (setStep s i x)) = (dag_steps (ws_dag s))[i := x]"
  "dag_outgoing (ws_dag (setStep s i x)) = dag_outgoing (ws_dag s)"
  "dag_byID (ws_dag (setStep s i x)) = dag_byID (ws_dag s)"
  "queued (ws_dag (setStep s i x)) = queued (ws_dag s)"
  by (simp_all add: setStep_def queued_def)

lemma state_ok_meta:
  "ws_Definition s' = ws_Definition s \<Longrightarrow> ws_StepOrder s' = ws_StepOrder s \<Longrightarrow> ws_dag s' = ws_dag s \<Longrightarrow>
     state_ok s' \<longleftrightarrow> state_ok s"
  by (simp add: state_ok_def)

lemma setStep_ok:
  assumes "state_ok s" "idx < length (def_Steps (ws_Definition s))"
    and "ss_StepID step = ss_StepID (dag_steps (ws_dag s) ! idx)"
    and "step_succeeded step \<longleftrightarrow> step_succeeded (dag_steps (ws_dag s) ! idx)"
  shows "state_ok (setStep s idx step)"
    and "\<not> stepReady (ws_dag (setStep s idx step)) idx \<Longrightarrow>
      \<forall>j. stepReady (ws_dag s) j \<and> j \<noteq> idx \<longrightarrow> j \<in> set (queued (ws_dag s)) \<Longrightarrow>
      queue_complete (ws_dag (setStep s idx step))"
    and "\<not> stepReady (ws_dag (setStep s idx step)) idx \<Longrightarrow> queue_complete (ws_dag s) \<Longrightarrow>
      queue_complete (ws_dag (setStep s idx step))"
    and "queue_complete (ws_dag s) \<Longrightarrow> stepReady (ws_dag (setStep s idx step)) i \<Longrightarrow> i \<noteq> idx \<Longrightarrow>
      i \<in> set (queued (ws_dag s))"
proof -
  have ok: "dag_ok (def_Steps (ws_Definition s)) (ws_dag s)" using assms(1) by (simp add: state_ok_def)
  have ok': "dag_ok (def_Steps (ws_Definition s)) (ws_dag (setStep s idx step))"
    using dag_ok_setStep [OF ok assms(2-4)] by (simp add: setStep_def)
  then show "state_ok (setStep s idx step)" using assms(1) by (simp add: state_ok_def)
  have l: "idx < length (dag_steps (ws_dag s))" using assms(2) state_ok_length [OF assms(1)] by simp
  have same: "step_succeeded ((dag_steps (ws_dag s))[idx := step] ! j) \<longleftrightarrow> step_succeeded (dag_steps (ws_dag s) ! j)" for j
    using assms(4) l by (simp add: nth_list_update)
  have other: "stepReady (ws_dag (setStep s idx step)) i \<longleftrightarrow> stepReady (ws_dag s) i" if "i \<noteq> idx" for i
    using that by (simp add: stepReady_iff [OF ok'] stepReady_iff [OF ok] same)
  then show "queue_complete (ws_dag s) \<Longrightarrow> stepReady (ws_dag (setStep s idx step)) i \<Longrightarrow> i \<noteq> idx \<Longrightarrow>
      i \<in> set (queued (ws_dag s))" by (simp add: queue_complete_def)
  show "\<not> stepReady (ws_dag (setStep s idx step)) idx \<Longrightarrow>
      \<forall>j. stepReady (ws_dag s) j \<and> j \<noteq> idx \<longrightarrow> j \<in> set (queued (ws_dag s)) \<Longrightarrow>
      queue_complete (ws_dag (setStep s idx step))"
    "\<not> stepReady (ws_dag (setStep s idx step)) idx \<Longrightarrow> queue_complete (ws_dag s) \<Longrightarrow>
      queue_complete (ws_dag (setStep s idx step))"
    unfolding queue_complete_def setStep_fields using other by metis+
qed

lemma Step_ok:
  assumes "state_ok s"
  shows "Step s stepID = map_option (\<lambda>idx. dag_steps (ws_dag s) ! idx) (lookupID (ws_dag s) stepID)"
proof (cases "lookupID (ws_dag s) stepID")
  case (Some idx)
  then have "idx < length (dag_steps (ws_dag s))"
    using state_ok_lookup(2) [OF assms] state_ok_length [OF assms] by simp
  then show ?thesis using Some by (simp add: Step_def Let_def state_ok_runtime [OF assms])
qed (simp add: Step_def Let_def state_ok_runtime [OF assms])

abbreviation runtime_ok :: "wf_state \<Rightarrow> bool" where
  "runtime_ok s \<equiv> state_ok s \<and> queue_complete (ws_dag s)"

abbreviation unsucceeded :: "wf_state \<Rightarrow> string \<Rightarrow> bool" where
  "unsucceeded s stepID \<equiv> \<forall>st. Step s stepID = Some st \<longrightarrow> \<not> step_succeeded st"

text \<open>
  The step being scheduled may already have been popped from the queue.
\<close>

definition queue_complete_but :: "wf_state \<Rightarrow> string \<Rightarrow> bool" where
  "queue_complete_but s stepID \<longleftrightarrow> (\<forall>j. stepReady (ws_dag s) j \<and>
     sd_StepID (def_Steps (ws_Definition s) ! j) \<noteq> stepID \<longrightarrow> j \<in> set (queued (ws_dag s)))"

lemma SetStepScheduled_but_ok:
  assumes ok: "state_ok s" and but: "queue_complete_but s stepID" and "unsucceeded s stepID" "taskID \<noteq> ''''"
    and "lookupID (ws_dag s) stepID = None \<longrightarrow> queue_complete (ws_dag s)"
  shows "runtime_ok (fst (SetStepScheduled s stepID taskID attempt h args t))"
proof (cases "lookupID (ws_dag s) stepID")
  case None
  then show ?thesis using ok assms(5) state_ok_runtime [of s] by (simp add: SetStepScheduled_def Let_def)
next
  case (Some idx)
  let ?st = "dag_steps (ws_dag s) ! idx"
  let ?st1 = "?st\<lparr>ss_Status := WORKFLOW_STEP_STATUS_SCHEDULED, ss_TaskID := taskID,
      ss_Attempts := attempt, ss_LastInputHash := h, ss_LastScheduledAtMs := t, ss_Error := ''''\<rparr>"
  let ?st2 = "case args of None \<Rightarrow> ?st1 | Some a \<Rightarrow> ?st1\<lparr>ss_ResolvedArgsJSON := [] @ a\<rparr>"
  have f: "ss_StepID ?st2 = ss_StepID ?st" "\<not> step_succeeded ?st2" "ss_TaskID ?st2 \<noteq> ''''"
    using assms(4) by (simp_all split: option.split)
  have idx: "idx < length (def_Steps (ws_Definition s))" and id: "sd_StepID (def_Steps (ws_Definition s) ! idx) = stepID"
    using Some state_ok_lookup(2) [OF ok] by simp_all
  then have l: "idx < length (dag_steps (ws_dag s))" using state_ok_length [OF ok] by simp
  have "\<not> step_succeeded ?st" using assms(3) Some by (simp add: Step_ok [OF ok])
  then have same: "step_succeeded ?st2 \<longleftrightarrow> step_succeeded ?st" using f(2) by simp
  note upd = setStep_ok [OF ok idx f(1) same]
  have "\<not> stepReady (ws_dag (setStep s idx ?st2)) idx" using f(3) l by (simp add: stepReady_def)
  then have "state_ok (setStep s idx ?st2) \<and> queue_complete (ws_dag (setStep s idx ?st2))"
  proof -
    have "j \<noteq> idx \<Longrightarrow> stepReady (ws_dag s) j \<Longrightarrow> j \<in> set (queued (ws_dag s))" for j
    proof -
      assume j: "j \<noteq> idx" "stepReady (ws_dag s) j"
      then have "j < length (def_Steps (ws_Definition s))" using state_ok_length [OF ok] by (simp add: stepReady_def)
      then have "sd_StepID (def_Steps (ws_Definition s) ! j) \<noteq> stepID"
        using j(1) Some state_ok_lookup(2) [OF ok, of stepID j] by auto
      then show ?thesis using but j(2) by (simp add: queue_complete_but_def)
    qed
    then show ?thesis using upd(1,2) \<open>\<not> stepReady _ idx\<close> by blast
  qed
  then show ?thesis
    by (simp add: SetStepScheduled_def Let_def state_ok_runtime [OF ok] Some state_ok_def
        del: append.simps split del: option.split)
qed

lemma SetStepScheduled_ok:
  assumes "runtime_ok s" "unsucceeded s stepID" "taskID \<noteq> ''''"
  shows "runtime_ok (fst (SetStepScheduled s stepID taskID attempt h args t))"
  using SetStepScheduled_but_ok [OF _ _ assms(2,3)] assms(1) by (simp add: queue_complete_but_def queue_complete_def)

lemma SetStepStarted_ok:
  assumes "runtime_ok s"
  shows "runtime_ok (fst (SetStepStarted s stepID taskID t))"
proof (cases "lookupID (ws_dag s) stepID")
  case None
  then show ?thesis using assms(1) state_ok_runtime [of s] by (simp add: SetStepStarted_def Let_def)
next
  case (Some idx)
  have ok: "state_ok s" using assms(1) by simp
  let ?st = "dag_steps (ws_dag s) ! idx"
  let ?st1 = "?st\<lparr>ss_Status := WORKFLOW_STEP_STATUS_STARTED, ss_TaskID := taskID, ss_StartedAtMs := t\<rparr>"
  have idx: "idx < length (def_Steps (ws_Definition s))" using Some state_ok_lookup(2) [OF ok] by simp
  then have l: "idx < length (dag_steps (ws_dag s))" using state_ok_length [OF ok] by simp
  show ?thesis
  proof (cases "step_succeeded ?st")
    case True
    then show ?thesis using assms by (simp add: SetStepStarted_def Let_def state_ok_runtime [OF ok] Some)
  next
    case False
    note upd = setStep_ok [OF ok idx, of ?st1]
    have "\<not> stepReady (ws_dag (setStep s idx ?st1)) idx" using l by (simp add: stepReady_def)
    then have "state_ok (setStep s idx ?st1) \<and> queue_complete (ws_dag (setStep s idx ?st1))"
      using upd(1,3) assms False by simp
    then show ?thesis using False
      by (simp add: SetStepStarted_def Let_def state_ok_runtime [OF ok] Some state_ok_def)
  qed
qed

lemma SetStepFailed_ok:
  assumes "runtime_ok s" "unsucceeded s stepID"
  shows "runtime_ok (fst (SetStepFailed s stepID taskID err retry t lat))"
proof (cases "lookupID (ws_dag s) stepID")
  case None
  then show ?thesis using assms(1) state_ok_runtime [of s] by (simp add: SetStepFailed_def Let_def)
next
  case (Some idx)
  have ok: "state_ok s" using assms(1) by simp
  let ?st = "dag_steps (ws_dag s) ! idx"
  let ?st1 = "?st\<lparr>ss_Status := WORKFLOW_STEP_STATUS_FAILED, ss_TaskID := taskID,
      ss_Error := err, ss_CompletedAtMs := t, ss_LatencyMs := lat\<rparr>"
  define st2 where "st2 = (if retry then ?st1\<lparr>ss_Status := WORKFLOW_STEP_STATUS_SCHEDULED, ss_TaskID := ''''\<rparr> else ?st1)"
  let ?s1 = "setStep s idx st2"
  have idx: "idx < length (def_Steps (ws_Definition s))" using Some state_ok_lookup(2) [OF ok] by simp
  then have l: "idx < length (dag_steps (ws_dag s))" using state_ok_length [OF ok] by simp
  have "\<not> step_succeeded ?st" using assms(2) Some by (simp add: Step_ok [OF ok])
  then have same: "ss_StepID st2 = ss_StepID ?st" "step_succeeded st2 \<longleftrightarrow> step_succeeded ?st"
    by (simp_all add: st2_def)
  note upd = setStep_ok [OF ok idx same]
  let ?d = "if retry \<and> stepReady (ws_dag ?s1) idx
      then (ws_dag ?s1)\<lparr>dag_ready := dag_ready (ws_dag ?s1) @ [idx]\<rparr> else ws_dag ?s1"
  have "dag_ok (def_Steps (ws_Definition s)) ?d" using upd(1) idx by (auto simp: state_ok_def dag_ok_def)
  moreover have "queue_complete ?d"
  proof (cases "retry \<and> stepReady (ws_dag ?s1) idx")
    case True
    have "dag_readyHead (ws_dag ?s1) \<le> length (dag_ready (ws_dag ?s1))"
      using upd(1) by (simp add: state_ok_def dag_ok_def)
    then have "queued ?d = queued (ws_dag ?s1) @ [idx]" using True by (simp add: queued_def)
    moreover have "stepReady ?d = stepReady (ws_dag ?s1)" by simp
    ultimately show ?thesis using upd(4) assms(1) unfolding queue_complete_def by (metis Un_iff list.set_intros(1) set_append setStep_fields(6))
  next
    case False
    then have "\<not> stepReady (ws_dag ?s1) idx" using l by (auto simp: stepReady_def st2_def)
    then show ?thesis using upd(3) assms(1) False by simp
  qed
  ultimately have "state_ok (?s1\<lparr>ws_UpdatedAtMs := t, ws_dag := ?d\<rparr>) \<and> queue_complete ?d"
    using ok by (simp add: state_ok_def)
  moreover have "fst (SetStepFailed s stepID taskID err retry t lat) = ?s1\<lparr>ws_UpdatedAtMs := t, ws_dag := ?d\<rparr>"
    by (simp only: SetStepFailed_def Let_def state_ok_runtime [OF ok] Some option.case fst_conv st2_def [symmetric])
       (simp add: setStep_def)
  ultimately show ?thesis by simp
qed

lemma SetStepSucceeded_ok:
  assumes "runtime_ok s"
  shows "runtime_ok (fst (SetStepSucceeded s stepID taskID res ref t lat))"
proof (cases "lookupID (ws_dag s) stepID")
  case None
  then show ?thesis using assms(1) state_ok_runtime [of s] by (simp add: SetStepSucceeded_def Let_def)
next
  case (Some idx)
  have ok: "state_ok s" using assms(1) by simp
  let ?st = "dag_steps (ws_dag s) ! idx"
  let ?st1 = "?st\<lparr>ss_Status := WORKFLOW_STEP_STATUS_SUCCEEDED, ss_TaskID := taskID, ss_ResultJSON := res,
      ss_ResultRef := ref, ss_Error := '''', ss_CompletedAtMs := t, ss_LatencyMs := lat\<rparr>"
  have idx: "idx < length (def_Steps (ws_Definition s))" using Some state_ok_lookup(2) [OF ok] by simp
  then have l: "idx < length (dag_steps (ws_dag s))" using state_ok_length [OF ok] by simp
  show ?thesis
  proof (cases "step_succeeded ?st")
    case True
    note upd = setStep_ok [OF ok idx, of ?st1]
    have "\<not> stepReady (ws_dag (setStep s idx ?st1)) idx" using l by (simp add: stepReady_def)
    then have "state_ok (setStep s idx ?st1) \<and> queue_complete (ws_dag (setStep s idx ?st1))"
      using upd(1,3) assms True by simp
    then show ?thesis using True
      by (simp add: SetStepSucceeded_def Let_def state_ok_runtime [OF ok] Some state_ok_def)
  next
    case False
    have dok: "dag_ok (def_Steps (ws_Definition s)) (ws_dag s)" using ok by (simp add: state_ok_def)
    from dag_ok_succeeded [OF dok idx, of ?st1] False assms show ?thesis
      by (simp add: SetStepSucceeded_def Let_def state_ok_runtime [OF ok] Some state_ok_def setStep_def)
  qed
qed


lemma UpdateStep_ok:
  assumes "runtime_ok s" "\<And>x. ss_StepID (f x) = ss_StepID x"
  shows "runtime_ok (fst (UpdateStep s stepID (Some f)))"
proof (cases "lookupID (ws_dag s) stepID")
  case None
  then show ?thesis using assms(1) state_ok_runtime [of s] by (simp add: UpdateStep_def Let_def)
next
  case (Some idx)
  have ok: "state_ok s" using assms(1) by simp
  let ?old = "dag_steps (ws_dag s) ! idx"
  have idx: "idx < length (def_Steps (ws_Definition s))" "sd_StepID (def_Steps (ws_Definition s) ! idx) = stepID"
    using Some state_ok_lookup(2) [OF ok] by simp_all
  then have l: "idx < length (dag_steps (ws_dag s))" using state_ok_length [OF ok] by simp
  define new where "new = (if ss_StepID (f ?old) = '''' then (f ?old)\<lparr>ss_StepID := stepID\<rparr> else f ?old)"
  have "map ss_StepID (dag_steps (ws_dag s)) ! idx = map sd_StepID (def_Steps (ws_Definition s)) ! idx"
    using ok by (simp only: state_ok_def dag_ok_def)
  then have "ss_StepID ?old = stepID" using idx l by simp
  then have id: "ss_StepID new = ss_StepID ?old" using assms(2) by (simp add: new_def)
  have res: "fst (UpdateStep s stepID (Some f)) =
      (if ss_Status new \<noteq> ss_Status ?old \<or> ss_TaskID new \<noteq> ss_TaskID ?old
       then RebuildRuntime (setStep s idx new) else setStep s idx new)"
    using l by (simp add: UpdateStep_def Let_def state_ok_runtime [OF ok] Some new_def [symmetric])
  show ?thesis
  proof (cases "ss_Status new \<noteq> ss_Status ?old \<or> ss_TaskID new \<noteq> ss_TaskID ?old")
    case True
    have "valid_definition (ws_Definition (setStep s idx new))" using ok by (simp add: state_ok_def)
    from RebuildRuntime_ok [OF this] True show ?thesis by (simp add: res)
  next
    case False
    then have same: "step_succeeded new \<longleftrightarrow> step_succeeded ?old" by simp
    note upd = setStep_ok [OF ok idx(1) id same]
    have "stepReady (ws_dag (setStep s idx new)) idx \<Longrightarrow> stepReady (ws_dag s) idx"
      using False l by (simp add: stepReady_def) (simp add: setStep_def)
    then have "queue_complete (ws_dag (setStep s idx new))"
      using upd(4) assms(1) unfolding queue_complete_def setStep_fields by metis
    then show ?thesis using upd(1) False by (simp add: res)
  qed
qed

lemma PopReadyStep_spec:
  assumes "state_ok s"
  shows "PopReadyStep s = (case dropWhile (\<lambda>i. \<not> stepReady (ws_dag s) i) (queued (ws_dag s)) of
      [] \<Rightarrow> (s\<lparr>ws_dag := (ws_dag s)\<lparr>dag_ready := [], dag_readyHead := 0\<rparr>\<rparr>, None)
    | i # rest \<Rightarrow>
        (s\<lparr>ws_dag := (ws_dag s)\<lparr>dag_readyHead := length (dag_ready (ws_dag s)) - length rest\<rparr>\<rparr>,
         Some (def_Steps (ws_Definition s) ! i, dag_steps (ws_dag s) ! i)))"
proof -
  have d: "dag_ok (def_Steps (ws_Definition s)) (ws_dag s)" using assms by (simp add: state_ok_def)
  then have h: "dag_readyHead (ws_dag s) \<le> length (dag_ready (ws_dag s))" by (simp add: dag_ok_def)
  show ?thesis
  proof (cases "dropWhile (\<lambda>i. \<not> stepReady (ws_dag s) i) (queued (ws_dag s))")
    case Nil
    then show ?thesis
      by (simp add: PopReadyStep_def state_ok_runtime [OF assms] pop_loop.simps popReady_spec [OF h]
          del: dropWhile_eq_Nil_conv)
  next
    case (Cons i rest)
    then have "stepReady (ws_dag s) i" using hd_dropWhile [of "\<lambda>i. \<not> stepReady (ws_dag s) i" "queued (ws_dag s)"]
      by simp
    then have "i < length (def_Steps (ws_Definition s))" by (simp add: stepReady_iff [OF d])
    then show ?thesis using Cons
      by (simp add: PopReadyStep_def state_ok_runtime [OF assms] pop_loop.simps popReady_spec [OF h])
  qed
qed

lemma PopReadyStep_None:
  assumes "runtime_ok s" "PopReadyStep s = (s', None)"
  shows "\<not> stepReady (ws_dag s) i" "runtime_ok s'"
proof -
  have ok: "state_ok s" using assms(1) by simp
  have q: "\<forall>i \<in> set (queued (ws_dag s)). \<not> stepReady (ws_dag s) i"
      "s' = s\<lparr>ws_dag := (ws_dag s)\<lparr>dag_ready := [], dag_readyHead := 0\<rparr>\<rparr>"
    using assms(2) by (auto simp: PopReadyStep_spec [OF ok] split: list.splits)
  then show n: "\<not> stepReady (ws_dag s) i" for i using assms(1) by (auto simp: queue_complete_def)
  show "runtime_ok s'" using ok n by (simp add: q(2) state_ok_def dag_ok_def queue_complete_def)
qed

lemma PopReadyStep_Some:
  assumes "runtime_ok s" "PopReadyStep s = (s', Some (d, st))"
  obtains i where "stepReady (ws_dag s) i" "d = def_Steps (ws_Definition s) ! i" "st = dag_steps (ws_dag s) ! i"
    "state_ok s'" "dag_steps (ws_dag s') = dag_steps (ws_dag s)" "ws_Definition s' = ws_Definition s"
    "\<And>j. stepReady (ws_dag s') j \<Longrightarrow> j \<noteq> i \<Longrightarrow> j \<in> set (queued (ws_dag s'))"
proof -
  have ok: "state_ok s" and c: "queue_complete (ws_dag s)" using assms(1) by auto
  let ?P = "\<lambda>i. \<not> stepReady (ws_dag s) i"
  from assms(2) obtain i rest where i: "dropWhile ?P (queued (ws_dag s)) = i # rest"
    and r: "s' = s\<lparr>ws_dag := (ws_dag s)\<lparr>dag_readyHead := length (dag_ready (ws_dag s)) - length rest\<rparr>\<rparr>"
      "d = def_Steps (ws_Definition s) ! i" "st = dag_steps (ws_dag s) ! i"
    by (auto simp: PopReadyStep_spec [OF ok] split: list.splits)
  have ready: "stepReady (ws_dag s) i" using hd_dropWhile [of ?P "queued (ws_dag s)"] i by simp
  have q: "queued (ws_dag s) = takeWhile ?P (queued (ws_dag s)) @ i # rest"
    by (metis i takeWhile_dropWhile_id)
  have suf: "queued (ws_dag s') = rest"
  proof -
    obtain pre where "dag_ready (ws_dag s) = pre @ rest"
      by (metis q queued_def append_take_drop_id append.assoc append_Cons append_Nil)
    then show ?thesis by (simp add: r(1) queued_def)
  qed
  have compl: "j \<in> set rest" if "stepReady (ws_dag s) j" "j \<noteq> i" for j
  proof -
    have "j \<in> set (queued (ws_dag s))" using that(1) c by (simp add: queue_complete_def)
    then have "j \<in> set (takeWhile ?P (queued (ws_dag s))) \<or> j \<in> set rest"
      using that(2) by (subst (asm) q) auto
    then show ?thesis using that(1) by (auto dest: set_takeWhileD)
  qed
  show thesis
  proof (rule that [OF ready r(2,3)])
    show "state_ok s'" using ok by (simp add: r(1) state_ok_def dag_ok_def)
    show "dag_steps (ws_dag s') = dag_steps (ws_dag s)" "ws_Definition s' = ws_Definition s"
      by (simp_all add: r(1))
    show "\<And>j. stepReady (ws_dag s') j \<Longrightarrow> j \<noteq> i \<Longrightarrow> j \<in> set (queued (ws_dag s'))"
      using compl suf by (simp add: r(1))
  qed
qed

lemma state_ok_topo:
  assumes "state_ok s"
  shows "topo_ordered (def_Steps (ws_Definition s))"
proof -
  have "valid_definition (ws_Definition s)" "normalizeDefinition (ws_Definition s) = ws_Definition s"
    using assms by (simp_all add: state_ok_def)
  with valid_topological obtain ordered where
    "topologicalStepDefinitions (def_Steps (ws_Definition s)) = Inr ordered" "topo_ordered ordered" by blast
  moreover from this have "def_Steps (normalizeDefinition (ws_Definition s)) = ordered"
    by (simp add: normalizeDefinition_def)
  ultimately show ?thesis using \<open>normalizeDefinition _ = _\<close> by simp
qed

text \<open>
  Among the unsucceeded steps of a set that is closed under dependencies, the first in topological
  order has all its dependencies succeeded.
\<close>

lemma first_unsucceeded:
  assumes "state_ok s" and "i0 < length (def_Steps (ws_Definition s))" "\<not> step_succeeded (dag_steps (ws_dag s) ! i0)" "P i0"
    and closed: "\<And>i j. P i \<Longrightarrow> i < length (def_Steps (ws_Definition s)) \<Longrightarrow> j \<in> set (preds (def_Steps (ws_Definition s)) i) \<Longrightarrow> P j"
  obtains i where "i < length (def_Steps (ws_Definition s))" "\<not> step_succeeded (dag_steps (ws_dag s) ! i)" "P i"
    "\<forall>j \<in> set (preds (def_Steps (ws_Definition s)) i). step_succeeded (dag_steps (ws_dag s) ! j)"
proof -
  let ?defs = "def_Steps (ws_Definition s)"
  let ?Q = "\<lambda>i. i < length ?defs \<and> \<not> step_succeeded (dag_steps (ws_dag s) ! i) \<and> P i"
  have v: "valid_definition (ws_Definition s)" using assms(1) by (simp add: state_ok_def)
  then have d: "distinct_ids ?defs" "deps_known ?defs" by (simp_all add: valid_definition_def)
  obtain i where i: "?Q i" and least: "\<forall>j < i. \<not> ?Q j"
    using exists_least_iff [of ?Q] assms(2-4) by blast
  have "step_succeeded (dag_steps (ws_dag s) ! j)" if mem: "j \<in> set (preds ?defs i)" for j
  proof -
    from preds_mem [OF d(2) conjunct1 [OF i] mem] have j: "j < length ?defs" "sd_StepID (?defs ! j) \<in> set (sd_DependsOn (?defs ! i))"
      by auto
    with state_ok_topo [OF assms(1)] i obtain k where k: "k < i" "sd_StepID (?defs ! k) = sd_StepID (?defs ! j)"
      by (auto simp: topo_ordered_def)
    moreover have "k < length ?defs" using k(1) i by (auto intro: less_trans)
    ultimately have "k = j" using nth_eq_iff_index_eq [OF d(1), of k j] j(1) by simp
    with k(1) least closed [of i j] i mem j(1) show ?thesis by blast
  qed
  then show thesis using that i by blast
qed

subsection \<open>Effect on the step table\<close>

text \<open>What a transition does to the step it names; the table \<^const>\<open>Step\<close> changes there only.\<close>

definition scheduled_step :: "string \<Rightarrow> u32 \<Rightarrow> string \<Rightarrow> bytes option \<Rightarrow> i64 \<Rightarrow> step_state \<Rightarrow> step_state" where
  "scheduled_step taskID attempt inputHash args nowMs st =
     st\<lparr>ss_Status := WORKFLOW_STEP_STATUS_SCHEDULED, ss_TaskID := taskID, ss_Attempts := attempt,
        ss_LastInputHash := inputHash, ss_LastScheduledAtMs := nowMs, ss_Error := '''',
        ss_ResolvedArgsJSON := (case args of None \<Rightarrow> ss_ResolvedArgsJSON st | Some a \<Rightarrow> a)\<rparr>"

definition started_step :: "string \<Rightarrow> i64 \<Rightarrow> step_state \<Rightarrow> step_state" where
  "started_step taskID nowMs st =
     (if step_succeeded st then st
      else st\<lparr>ss_Status := WORKFLOW_STEP_STATUS_STARTED, ss_TaskID := taskID, ss_StartedAtMs := nowMs\<rparr>)"

definition succeeded_step :: "string \<Rightarrow> bytes \<Rightarrow> string \<Rightarrow> i64 \<Rightarrow> i64 \<Rightarrow> step_state \<Rightarrow> step_state" where
  "succeeded_step taskID result ref nowMs latency st =
     st\<lparr>ss_Status := WORKFLOW_STEP_STATUS_SUCCEEDED, ss_TaskID := taskID, ss_ResultJSON := result,
        ss_ResultRef := ref, ss_Error := '''', ss_CompletedAtMs := nowMs, ss_LatencyMs := latency\<rparr>"

definition failed_step :: "string \<Rightarrow> string \<Rightarrow> bool \<Rightarrow> i64 \<Rightarrow> i64 \<Rightarrow> step_state \<Rightarrow> step_state" where
  "failed_step taskID err retry nowMs latency st =
     (let step = st\<lparr>ss_Status := WORKFLOW_STEP_STATUS_FAILED, ss_TaskID := taskID, ss_Error := err,
            ss_CompletedAtMs := nowMs, ss_LatencyMs := latency\<rparr>
      in if retry then step\<lparr>ss_Status := WORKFLOW_STEP_STATUS_SCHEDULED, ss_TaskID := ''''\<rparr> else step)"

lemmas step_effects = scheduled_step_def started_step_def succeeded_step_def failed_step_def

lemma Step_updated:
  assumes "state_ok s" "lookupID (ws_dag s) stepID = Some idx"
    and "dag_steps (ws_dag s') = (dag_steps (ws_dag s))[idx := x]" "state_ok s'" "ws_Definition s' = ws_Definition s"
  shows "Step s' = (Step s)(stepID \<mapsto> x)"
proof
  fix k
  have idx: "idx < length (def_Steps (ws_Definition s))" "sd_StepID (def_Steps (ws_Definition s) ! idx) = stepID"
    using assms(2) state_ok_lookup(2) [OF assms(1)] by simp_all
  have l: "idx < length (dag_steps (ws_dag s))" using idx(1) state_ok_length [OF assms(1)] by simp
  have lk: "lookupID (ws_dag s') k = lookupID (ws_dag s) k" for k
    using state_ok_lookup(1) [OF assms(1)] state_ok_lookup(1) [OF assms(4)] assms(5) by simp
  show "Step s' k = ((Step s)(stepID \<mapsto> x)) k"
  proof (cases "lookupID (ws_dag s) k")
    case None
    then show ?thesis using assms(2) by (auto simp: Step_ok [OF assms(1)] Step_ok [OF assms(4)] lk)
  next
    case (Some j)
    then have "sd_StepID (def_Steps (ws_Definition s) ! j) = k" using state_ok_lookup(2) [OF assms(1)] by simp
    then have "j = idx \<longleftrightarrow> k = stepID" using idx(2) assms(2) Some by (metis option.inject)
    then show ?thesis using Some l
      by (cases "k = stepID") (simp_all add: Step_ok [OF assms(1)] Step_ok [OF assms(4)] lk assms(3))
  qed
qed

lemma Step_meta:
  "ws_Definition s' = ws_Definition s \<Longrightarrow> ws_StepOrder s' = ws_StepOrder s \<Longrightarrow> ws_dag s' = ws_dag s \<Longrightarrow>
     state_ok s \<Longrightarrow> Step s' = Step s"
  using state_ok_meta [of s' s] by (simp add: fun_eq_iff Step_ok)

lemma update_step_id: "(Step s)(stepID := map_option f (Step s stepID)) = Step s"
  if "Step s stepID = None" using that by auto

lemma SetStepScheduled_but_Step:
  assumes ok: "state_ok s" and ok': "state_ok (fst (SetStepScheduled s stepID taskID attempt h args t))"
  shows "Step (fst (SetStepScheduled s stepID taskID attempt h args t)) =
      (Step s)(stepID := map_option (scheduled_step taskID attempt h args t) (Step s stepID))"
    and "ws_Definition (fst (SetStepScheduled s stepID taskID attempt h args t)) = ws_Definition s"
proof -
  let ?s' = "fst (SetStepScheduled s stepID taskID attempt h args t)"
  show d: "ws_Definition ?s' = ws_Definition s"
    by (simp add: SetStepScheduled_def Let_def state_ok_runtime [OF ok] split: option.split)
  show "Step ?s' = (Step s)(stepID := map_option (scheduled_step taskID attempt h args t) (Step s stepID))"
  proof (cases "lookupID (ws_dag s) stepID")
    case None
    then show ?thesis by (auto simp: SetStepScheduled_def state_ok_runtime [OF ok] Step_ok [OF ok])
  next
    case (Some idx)
    have "dag_steps (ws_dag ?s') = (dag_steps (ws_dag s))
        [idx := scheduled_step taskID attempt h args t (dag_steps (ws_dag s) ! idx)]"
      by (simp add: SetStepScheduled_def Let_def state_ok_runtime [OF ok] Some scheduled_step_def split: option.split)
    from Step_updated [OF ok Some this ok' d] show ?thesis by (simp add: Step_ok [OF ok] Some)
  qed
qed

lemma SetStepScheduled_Step:
  assumes "runtime_ok s" "unsucceeded s stepID" "taskID \<noteq> ''''"
  shows "Step (fst (SetStepScheduled s stepID taskID attempt h args t)) =
      (Step s)(stepID := map_option (scheduled_step taskID attempt h args t) (Step s stepID))"
    and "ws_Definition (fst (SetStepScheduled s stepID taskID attempt h args t)) = ws_Definition s"
  using SetStepScheduled_but_Step [of s] SetStepScheduled_ok [OF assms] assms(1) by blast+

lemma SetStepStarted_Step:
  assumes "runtime_ok s"
  shows "Step (fst (SetStepStarted s stepID taskID t)) =
      (Step s)(stepID := map_option (started_step taskID t) (Step s stepID))"
    and "ws_Definition (fst (SetStepStarted s stepID taskID t)) = ws_Definition s"
proof -
  let ?s' = "fst (SetStepStarted s stepID taskID t)"
  have ok: "state_ok s" and ok': "state_ok ?s'" using assms SetStepStarted_ok [OF assms] by auto
  show d: "ws_Definition ?s' = ws_Definition s"
    by (simp add: SetStepStarted_def Let_def state_ok_runtime [OF ok] split: option.split)
  show "Step ?s' = (Step s)(stepID := map_option (started_step taskID t) (Step s stepID))"
  proof (cases "lookupID (ws_dag s) stepID")
    case None
    then show ?thesis by (auto simp: SetStepStarted_def state_ok_runtime [OF ok] Step_ok [OF ok])
  next
    case (Some idx)
    have "dag_steps (ws_dag ?s') = (dag_steps (ws_dag s))
        [idx := started_step taskID t (dag_steps (ws_dag s) ! idx)]"
      by (simp add: SetStepStarted_def Let_def state_ok_runtime [OF ok] Some started_step_def)
    from Step_updated [OF ok Some this ok' d] show ?thesis by (simp add: Step_ok [OF ok] Some)
  qed
qed

lemma SetStepSucceeded_Step:
  assumes "runtime_ok s"
  shows "Step (fst (SetStepSucceeded s stepID taskID res ref t lat)) =
      (Step s)(stepID := map_option (succeeded_step taskID res ref t lat) (Step s stepID))"
    and "ws_Definition (fst (SetStepSucceeded s stepID taskID res ref t lat)) = ws_Definition s"
proof -
  let ?s' = "fst (SetStepSucceeded s stepID taskID res ref t lat)"
  have ok: "state_ok s" and ok': "state_ok ?s'" using assms SetStepSucceeded_ok [OF assms] by auto
  have un: "dag_steps (foldl unlock_one e L) = dag_steps e" for e L by (induction L arbitrary: e) simp_all
  show d: "ws_Definition ?s' = ws_Definition s"
    by (simp add: SetStepSucceeded_def Let_def state_ok_runtime [OF ok] split: option.split)
  show "Step ?s' = (Step s)(stepID := map_option (succeeded_step taskID res ref t lat) (Step s stepID))"
  proof (cases "lookupID (ws_dag s) stepID")
    case None
    then show ?thesis by (auto simp: SetStepSucceeded_def state_ok_runtime [OF ok] Step_ok [OF ok])
  next
    case (Some idx)
    have "dag_steps (ws_dag ?s') = (dag_steps (ws_dag s))
        [idx := succeeded_step taskID res ref t lat (dag_steps (ws_dag s) ! idx)]"
      by (simp add: SetStepSucceeded_def Let_def state_ok_runtime [OF ok] Some succeeded_step_def un)
    from Step_updated [OF ok Some this ok' d] show ?thesis by (simp add: Step_ok [OF ok] Some)
  qed
qed

lemma SetStepFailed_Step:
  assumes "runtime_ok s" "unsucceeded s stepID"
  shows "Step (fst (SetStepFailed s stepID taskID err retry t lat)) =
      (Step s)(stepID := map_option (failed_step taskID err retry t lat) (Step s stepID))"
    and "ws_Definition (fst (SetStepFailed s stepID taskID err retry t lat)) = ws_Definition s"
proof -
  let ?s' = "fst (SetStepFailed s stepID taskID err retry t lat)"
  have ok: "state_ok s" and ok': "state_ok ?s'" using assms SetStepFailed_ok [OF assms] by auto
  show d: "ws_Definition ?s' = ws_Definition s"
    by (simp add: SetStepFailed_def Let_def state_ok_runtime [OF ok] split: option.split)
  show "Step ?s' = (Step s)(stepID := map_option (failed_step taskID err retry t lat) (Step s stepID))"
  proof (cases "lookupID (ws_dag s) stepID")
    case None
    then show ?thesis by (auto simp: SetStepFailed_def state_ok_runtime [OF ok] Step_ok [OF ok])
  next
    case (Some idx)
    have "dag_steps (ws_dag ?s') = (dag_steps (ws_dag s))
        [idx := failed_step taskID err retry t lat (dag_steps (ws_dag s) ! idx)]"
      by (simp add: SetStepFailed_def Let_def state_ok_runtime [OF ok] Some failed_step_def)
    from Step_updated [OF ok Some this ok' d] show ?thesis by (simp add: Step_ok [OF ok] Some)
  qed
qed

lemma named_steps_iff:
  assumes "state_ok s"
  shows "named_steps s \<longleftrightarrow> (\<forall>d \<in> set (def_Steps (ws_Definition s)). \<forall>st.
     Step s (sd_StepID d) = Some st \<longrightarrow> ss_TaskName st = '''' \<longrightarrow> sd_TaskName d = '''')"
proof -
  let ?defs = "def_Steps (ws_Definition s)"
  have l: "length (dag_steps (ws_dag s)) = length ?defs" by (rule state_ok_length [OF assms])
  have "Step s (sd_StepID (?defs ! i)) = Some (dag_steps (ws_dag s) ! i)" if "i < length ?defs" for i
  proof -
    have "lookupID (ws_dag s) (sd_StepID (?defs ! i)) = Some i" using that state_ok_lookup(2) [OF assms] by simp
    then show ?thesis by (simp add: Step_ok [OF assms])
  qed
  then show ?thesis unfolding named_steps_def l all_set_conv_all_nth by simp
qed

lemma named_steps_update:
  assumes "state_ok s" "state_ok s'" "ws_Definition s' = ws_Definition s"
    and "Step s' = (Step s)(stepID := map_option f (Step s stepID))" "\<And>x. ss_TaskName (f x) = ss_TaskName x"
    and "named_steps s"
  shows "named_steps s'"
  using assms(6) unfolding named_steps_iff [OF assms(1)] named_steps_iff [OF assms(2)] assms(3,4)
  by (auto simp: assms(5))


subsection \<open>Reachable workflow states\<close>

text \<open>
  A workflow state as the control plane drives it: it is created from a validated definition;
  steps are scheduled and failed only while they have not succeeded (\<open>scheduleReadySteps\<close> only
  schedules ready steps, \<open>completeWorkflowStep\<close> returns early for a succeeded step); start and
  success events may arrive at any time, duplicates included; a popped step is scheduled in the
  same critical section.
\<close>

inductive wf_reachable :: "wf_state \<Rightarrow> bool" where
  new: "valid_definition def \<Longrightarrow> wf_reachable (NewState w def t)"
| scheduled: "wf_reachable s \<Longrightarrow> unsucceeded s stepID \<Longrightarrow> taskID \<noteq> '''' \<Longrightarrow>
    wf_reachable (fst (SetStepScheduled s stepID taskID attempt h args t))"
| started: "wf_reachable s \<Longrightarrow> wf_reachable (fst (SetStepStarted s stepID taskID t))"
| succeeded: "wf_reachable s \<Longrightarrow> wf_reachable (fst (SetStepSucceeded s stepID taskID res ref t lat))"
| failed: "wf_reachable s \<Longrightarrow> unsucceeded s stepID \<Longrightarrow>
    wf_reachable (fst (SetStepFailed s stepID taskID err retry t lat))"
| dispatched: "wf_reachable s \<Longrightarrow> PopReadyStep s = (s', Some (d, st)) \<Longrightarrow> taskID \<noteq> '''' \<Longrightarrow>
    wf_reachable (fst (SetStepScheduled s' (sd_StepID d) taskID attempt h args t))"
| drained: "wf_reachable s \<Longrightarrow> PopReadyStep s = (s', None) \<Longrightarrow> wf_reachable s'"
| rebuilt: "wf_reachable s \<Longrightarrow> wf_reachable (RebuildRuntime s)"
| finished: "wf_reachable s \<Longrightarrow>
    wf_reachable (s\<lparr>ws_Status := status, ws_ResultJSON := res, ws_ResultRef := ref, ws_Error := err,
      ws_CompletedAtMs := t, ws_UpdatedAtMs := t\<rparr>)"

definition wf_inv :: "wf_state \<Rightarrow> bool" where
  "wf_inv s \<longleftrightarrow> runtime_ok s \<and> named_steps s"

lemma step_effects_TaskName [simp]:
  "ss_TaskName (scheduled_step a b c d e st) = ss_TaskName st"
  "ss_TaskName (started_step a e st) = ss_TaskName st"
  "ss_TaskName (succeeded_step a res ref e lat st) = ss_TaskName st"
  "ss_TaskName (failed_step a err retry e lat st) = ss_TaskName st"
  by (simp_all add: step_effects Let_def)

lemma wf_inv_NewState: "valid_definition def \<Longrightarrow> wf_inv (NewState w def t)"
proof -
  assume v: "valid_definition def"
  note n = normalize_normalize [OF v]
  have "deps_known (def_Steps (normalizeDefinition def))" using n(2) by (simp add: valid_definition_def)
  from buildRuntimeDAG_fields(1) [OF n(1) this, of "[]"]
  have "named_steps (NewState w def t)"
    by (simp add: named_steps_def NewState_def Let_def merge_step_def existing_by_id_def)
  with NewState_ok [OF v] show ?thesis by (simp add: wf_inv_def)
qed

lemma wf_inv_scheduled:
  assumes "wf_inv s" "unsucceeded s stepID" "taskID \<noteq> ''''"
  shows "wf_inv (fst (SetStepScheduled s stepID taskID attempt h args t))"
proof -
  have r: "runtime_ok s" "named_steps s" using assms(1) by (auto simp: wf_inv_def)
  note ok = SetStepScheduled_ok [OF r(1) assms(2,3), of attempt h args t]
  note st = SetStepScheduled_Step [OF r(1) assms(2,3), of attempt h args t]
  from named_steps_update [OF _ _ st(2,1)] ok r show ?thesis by (simp add: wf_inv_def)
qed

lemma wf_inv_started: "wf_inv s \<Longrightarrow> wf_inv (fst (SetStepStarted s stepID taskID t))"
  using SetStepStarted_ok [of s stepID taskID t]
    named_steps_update [OF _ _ SetStepStarted_Step(2,1) [of s stepID taskID t]]
  by (simp add: wf_inv_def)

lemma wf_inv_succeeded: "wf_inv s \<Longrightarrow> wf_inv (fst (SetStepSucceeded s stepID taskID res ref t lat))"
  using SetStepSucceeded_ok [of s stepID taskID res ref t lat]
    named_steps_update [OF _ _ SetStepSucceeded_Step(2,1) [of s stepID taskID res ref t lat]]
  by (simp add: wf_inv_def)

lemma wf_inv_failed:
  assumes "wf_inv s" "unsucceeded s stepID"
  shows "wf_inv (fst (SetStepFailed s stepID taskID err retry t lat))"
proof -
  have r: "runtime_ok s" "named_steps s" using assms(1) by (auto simp: wf_inv_def)
  note ok = SetStepFailed_ok [OF r(1) assms(2), of taskID err retry t lat]
  note st = SetStepFailed_Step [OF r(1) assms(2), of taskID err retry t lat]
  from named_steps_update [OF _ _ st(2,1)] ok r show ?thesis by (simp add: wf_inv_def)
qed

lemma wf_inv_rebuilt:
  assumes "wf_inv s"
  shows "wf_inv (RebuildRuntime s)"
proof -
  have r: "state_ok s" "named_steps s" using assms by (auto simp: wf_inv_def)
  then have "valid_definition (ws_Definition s)" by (simp add: state_ok_def)
  from RebuildRuntime_ok [OF this] RebuildRuntime_steps [OF r] r(2) show ?thesis
    by (simp add: wf_inv_def named_steps_def)
qed


lemma Step_nth:
  assumes "state_ok s" "i < length (def_Steps (ws_Definition s))"
  shows "Step s (sd_StepID (def_Steps (ws_Definition s) ! i)) = Some (dag_steps (ws_dag s) ! i)"
proof -
  have "lookupID (ws_dag s) (sd_StepID (def_Steps (ws_Definition s) ! i)) = Some i"
    using state_ok_lookup(2) [OF assms(1)] assms(2) by simp
  then show ?thesis by (simp add: Step_ok [OF assms(1)])
qed

lemma wf_inv_dispatched:
  assumes "wf_inv s" "PopReadyStep s = (s', Some (d, st))" "taskID \<noteq> ''''"
  shows "wf_inv (fst (SetStepScheduled s' (sd_StepID d) taskID attempt h args t))"
proof -
  have r: "runtime_ok s" "named_steps s" using assms(1) by (auto simp: wf_inv_def)
  from PopReadyStep_Some [OF r(1) assms(2)] obtain i where
    i: "stepReady (ws_dag s) i" "d = def_Steps (ws_Definition s) ! i" "st = dag_steps (ws_dag s) ! i" and
    s': "state_ok s'" "dag_steps (ws_dag s') = dag_steps (ws_dag s)" "ws_Definition s' = ws_Definition s" and
    q: "\<And>j. stepReady (ws_dag s') j \<Longrightarrow> j \<noteq> i \<Longrightarrow> j \<in> set (queued (ws_dag s'))" by blast
  have rd: "i < length (def_Steps (ws_Definition s))" "ss_Status (dag_steps (ws_dag s) ! i) = WORKFLOW_STEP_STATUS_SCHEDULED"
    using i(1) r(1) state_ok_length [of s] by (auto simp: stepReady_def)
  have st': "Step s' (sd_StepID d) = Some (dag_steps (ws_dag s) ! i)"
    using Step_nth [OF s'(1)] rd(1) s'(2,3) i(2) by simp
  then have u: "unsucceeded s' (sd_StepID d)" using rd(2) by simp
  have "queue_complete_but s' (sd_StepID d)" using q i(2) s'(3) by (auto simp: queue_complete_but_def)
  moreover have "lookupID (ws_dag s') (sd_StepID d) \<noteq> None" using st' by (auto simp: Step_ok [OF s'(1)])
  ultimately have ok: "runtime_ok (fst (SetStepScheduled s' (sd_StepID d) taskID attempt h args t))"
    using SetStepScheduled_but_ok [OF s'(1) _ u assms(3), of attempt h args t] by auto
  have n': "named_steps s'" using r(2) s'(2,3) by (simp add: named_steps_def)
  note st = SetStepScheduled_but_Step [OF s'(1), of "sd_StepID d" taskID attempt h args t]
  from named_steps_update [OF s'(1) _ st(2,1) _ n'] ok show ?thesis by (simp add: wf_inv_def)
qed

lemma wf_inv_drained:
  assumes "wf_inv s" "PopReadyStep s = (s', None)"
  shows "wf_inv s'"
proof -
  have r: "runtime_ok s" "named_steps s" using assms(1) by (auto simp: wf_inv_def)
  moreover have "s' = s\<lparr>ws_dag := (ws_dag s)\<lparr>dag_ready := [], dag_readyHead := 0\<rparr>\<rparr>"
    using assms(2) r by (simp add: PopReadyStep_spec split: list.splits)
  ultimately show ?thesis using PopReadyStep_None(2) [OF r(1) assms(2)] by (simp add: wf_inv_def named_steps_def)
qed

lemma wf_reachable_inv: "wf_reachable s \<Longrightarrow> wf_inv s"
proof (induction rule: wf_reachable.induct)
  case (finished s status res ref err t)
  then show ?case by (simp add: wf_inv_def state_ok_def named_steps_def)
qed (blast intro: wf_inv_NewState wf_inv_scheduled wf_inv_started wf_inv_succeeded wf_inv_failed
    wf_inv_dispatched wf_inv_drained wf_inv_rebuilt)+

lemma preds_succeeded_iff:
  assumes "state_ok s" "i < length (def_Steps (ws_Definition s))"
  shows "(\<forall>j \<in> set (preds (def_Steps (ws_Definition s)) i). step_succeeded (dag_steps (ws_dag s) ! j)) \<longleftrightarrow>
     DependenciesSucceeded (def_Steps (ws_Definition s) ! i) s"
proof -
  let ?defs = "def_Steps (ws_Definition s)"
  have k: "deps_known ?defs" using assms(1) by (simp add: state_ok_def valid_definition_def)
  have "step_succeeded (dag_steps (ws_dag s) ! the (index_by sd_StepID ?defs dep)) \<longleftrightarrow>
      (case Step s dep of None \<Rightarrow> False | Some x \<Rightarrow> step_succeeded x)"
    if "dep \<in> set (sd_DependsOn (?defs ! i))" for dep
    using deps_known_index [OF k assms(2) that]
    by (auto simp: Step_ok [OF assms(1)] state_ok_lookup(1) [OF assms(1)])
  then show ?thesis by (auto simp: DependenciesSucceeded_def preds_def list_all_iff)
qed

lemma stepReady_spec:
  assumes "state_ok s"
  shows "stepReady (ws_dag s) i \<longleftrightarrow> i < length (def_Steps (ws_Definition s)) \<and>
     DependenciesSucceeded (def_Steps (ws_Definition s) ! i) s \<and>
     ss_Status (dag_steps (ws_dag s) ! i) = WORKFLOW_STEP_STATUS_SCHEDULED \<and>
     ss_TaskID (dag_steps (ws_dag s) ! i) = ''''"
  using preds_succeeded_iff [OF assms] stepReady_iff [of "def_Steps (ws_Definition s)" "ws_dag s" i] assms
  by (auto simp: state_ok_def)

text \<open>A step the scheduler may dispatch, stated over the definition and the step table.\<close>

definition schedulable :: "wf_state \<Rightarrow> step_definition \<Rightarrow> bool" where
  "schedulable s d \<longleftrightarrow> DependenciesSucceeded d s \<and>
     (\<exists>st. Step s (sd_StepID d) = Some st \<and> ss_Status st = WORKFLOW_STEP_STATUS_SCHEDULED \<and> ss_TaskID st = '''')"

lemma schedulable_iff:
  "state_ok s \<Longrightarrow> i < length (def_Steps (ws_Definition s)) \<Longrightarrow>
     schedulable s (def_Steps (ws_Definition s) ! i) \<longleftrightarrow> stepReady (ws_dag s) i"
  by (simp add: schedulable_def stepReady_spec Step_nth)

lemma counters_spec:
  assumes "state_ok s" "i < length (def_Steps (ws_Definition s))"
  shows "dag_remainingDeps (ws_dag s) ! i =
    int (length (filter (unsucceeded s) (sd_DependsOn (def_Steps (ws_Definition s) ! i))))"
proof -
  let ?defs = "def_Steps (ws_Definition s)"
  have k: "deps_known ?defs" using assms(1) by (simp add: state_ok_def valid_definition_def)
  have "unsucceeded s dep \<longleftrightarrow> \<not> step_succeeded (dag_steps (ws_dag s) ! the (index_by sd_StepID ?defs dep))"
    if "dep \<in> set (sd_DependsOn (?defs ! i))" for dep
    using deps_known_index [OF k assms(2) that]
    by (auto simp: Step_ok [OF assms(1)] state_ok_lookup(1) [OF assms(1)])
  then have "filter (unsucceeded s) (sd_DependsOn (?defs ! i)) =
    filter (\<lambda>dep. \<not> step_succeeded (dag_steps (ws_dag s) ! the (index_by sd_StepID ?defs dep))) (sd_DependsOn (?defs ! i))"
    by (intro filter_cong) simp_all
  then show ?thesis using assms by (simp add: state_ok_def dag_ok_def preds_def filter_map comp_def)
qed

subsection \<open>Properties\<close>

text \<open>
  C6. In every reachable workflow state each dependency counter equals the number of declared
  dependencies that have not succeeded, and the ready queue holds every schedulable step, so no
  step that could run is ever forgotten.
\<close>

theorem reachable_counters_and_queue:
  assumes "wf_reachable s" and "i < length (def_Steps (ws_Definition s))"
  shows "dag_remainingDeps (ws_dag s) ! i =
      int (length (filter (unsucceeded s) (sd_DependsOn (def_Steps (ws_Definition s) ! i)))) \<and>
    (schedulable s (def_Steps (ws_Definition s) ! i) \<longrightarrow>
       i \<in> set (drop (dag_readyHead (ws_dag s)) (dag_ready (ws_dag s))))"
proof -
  have r: "runtime_ok s" using wf_reachable_inv [OF assms(1)] by (simp add: wf_inv_def)
  then show ?thesis using counters_spec [OF _ assms(2)] schedulable_iff [OF _ assms(2)]
    by (auto simp: queue_complete_def queued_def)
qed

text \<open>
  C28. The incremental updates agree with rebuilding: recomputing the structure of a reachable
  state from its definition and step states changes no step, counter or edge, and leaves the same
  schedulable steps in the queue.
\<close>

theorem incremental_equals_rebuild:
  assumes "wf_reachable s"
  shows "dag_steps (ws_dag (RebuildRuntime s)) = dag_steps (ws_dag s) \<and>
    dag_remainingDeps (ws_dag (RebuildRuntime s)) = dag_remainingDeps (ws_dag s) \<and>
    dag_outgoing (ws_dag (RebuildRuntime s)) = dag_outgoing (ws_dag s) \<and>
    dag_byID (ws_dag (RebuildRuntime s)) = dag_byID (ws_dag s) \<and>
    {i \<in> set (queued (ws_dag (RebuildRuntime s))). stepReady (ws_dag (RebuildRuntime s)) i} =
    {i \<in> set (queued (ws_dag s)). stepReady (ws_dag s) i}"
proof -
  have r: "runtime_ok s" "named_steps s" using wf_reachable_inv [OF assms(1)] by (auto simp: wf_inv_def)
  then have ok: "state_ok s" and q: "queue_complete (ws_dag s)" by auto
  note eq = RebuildRuntime_steps [OF ok r(2)]
  have "valid_definition (ws_Definition s)" using ok by (simp add: state_ok_def)
  from RebuildRuntime_ok(2) [OF this] q
  have "{i \<in> set (queued (ws_dag (RebuildRuntime s))). stepReady (ws_dag (RebuildRuntime s)) i} =
      {i. stepReady (ws_dag (RebuildRuntime s)) i}"
    "{i \<in> set (queued (ws_dag s)). stepReady (ws_dag s) i} = {i. stepReady (ws_dag s) i}"
    by (auto simp: queue_complete_def)
  moreover have "stepReady (ws_dag (RebuildRuntime s)) = stepReady (ws_dag s)"
    by (simp add: fun_eq_iff stepReady_def eq)
  ultimately show ?thesis using eq by simp
qed

text \<open>
  \<open>PopReadyStep\<close> on a reachable state returns a step of the definition with its current state,
  all of whose dependencies have succeeded and which no task is running; it returns nothing
  exactly when no step is schedulable.
\<close>

theorem PopReadyStep_correct:
  assumes "wf_reachable s"
  shows "case snd (PopReadyStep s) of
      None \<Rightarrow> (\<forall>d. d \<in> set (def_Steps (ws_Definition s)) \<longrightarrow> \<not> schedulable s d)
    | Some (d, st) \<Rightarrow> d \<in> set (def_Steps (ws_Definition s)) \<and> schedulable s d \<and>
        Step s (sd_StepID d) = Some st"
proof -
  have r: "runtime_ok s" using wf_reachable_inv [OF assms] by (simp add: wf_inv_def)
  then have ok: "state_ok s" by simp
  obtain s' res where p: "PopReadyStep s = (s', res)" by fastforce
  show ?thesis
  proof (cases res)
    case None
    then have "\<not> schedulable s d" if "d \<in> set (def_Steps (ws_Definition s))" for d
      using PopReadyStep_None(1) [OF r] p schedulable_iff [OF ok] that by (metis in_set_conv_nth)
    then show ?thesis by (simp add: p None)
  next
    case (Some ds)
    obtain d st where ds: "ds = (d, st)" by fastforce
    from PopReadyStep_Some [OF r, of s' d st] p Some ds obtain i where
      i: "stepReady (ws_dag s) i" "d = def_Steps (ws_Definition s) ! i" "st = dag_steps (ws_dag s) ! i"
      by blast
    then have "i < length (def_Steps (ws_Definition s))" by (simp add: stepReady_spec [OF ok])
    then show ?thesis using i schedulable_iff [OF ok] Step_nth [OF ok] by (simp add: p Some ds)
  qed
qed

text \<open>A step that waits for a task: scheduled, and no task has been created for it.\<close>

definition waiting :: "wf_state \<Rightarrow> string \<Rightarrow> bool" where
  "waiting s stepID \<longleftrightarrow> (\<exists>st. Step s stepID = Some st \<and>
     ss_Status st = WORKFLOW_STEP_STATUS_SCHEDULED \<and> ss_TaskID st = '''')"

lemma waiting_nth:
  "state_ok s \<Longrightarrow> i < length (def_Steps (ws_Definition s)) \<Longrightarrow> waiting s (sd_StepID (def_Steps (ws_Definition s) ! i)) \<longleftrightarrow>
     ss_Status (dag_steps (ws_dag s) ! i) = WORKFLOW_STEP_STATUS_SCHEDULED \<and> ss_TaskID (dag_steps (ws_dag s) ! i) = ''''"
  by (simp add: waiting_def Step_nth)

lemma waiting_index:
  assumes "state_ok s" "waiting s a"
  obtains i where "i < length (def_Steps (ws_Definition s))" "a = sd_StepID (def_Steps (ws_Definition s) ! i)"
proof -
  obtain i where "lookupID (ws_dag s) a = Some i" using assms by (auto simp: waiting_def Step_ok [OF assms(1)])
  then show thesis using that state_ok_lookup(2) [OF assms(1)] by metis
qed

lemma preds_dep_rel:
  assumes "state_ok s" "i < length (def_Steps (ws_Definition s))" "j \<in> set (preds (def_Steps (ws_Definition s)) i)"
  shows "(sd_StepID (def_Steps (ws_Definition s) ! j), sd_StepID (def_Steps (ws_Definition s) ! i)) \<in> dep_rel (def_Steps (ws_Definition s))"
proof -
  have "deps_known (def_Steps (ws_Definition s))" using assms(1) by (simp add: state_ok_def valid_definition_def)
  from preds_mem [OF this assms(2,3)] show ?thesis using assms(2) by (auto simp: dep_rel_def)
qed

text \<open>
  C21. Progress: in a reachable workflow, if some step waits for a task and each step it depends
  on, directly or through other steps, has succeeded or waits for a task itself, then
  \<open>PopReadyStep\<close> returns a step to run, one whose dependencies have all succeeded. So a workflow
  can only stall behind a step that has a task or has failed for good; a failed step that may be
  retried waits again.
\<close>

theorem workflow_progress:
  assumes "wf_reachable s" and "waiting s a"
    and "\<And>b. (b, a) \<in> (dep_rel (def_Steps (ws_Definition s)))\<^sup>+ \<Longrightarrow> unsucceeded s b \<Longrightarrow> waiting s b"
  shows "\<exists>d st. snd (PopReadyStep s) = Some (d, st) \<and> d \<in> set (def_Steps (ws_Definition s)) \<and> schedulable s d"
proof -
  let ?defs = "def_Steps (ws_Definition s)"
  let ?P = "\<lambda>i. (sd_StepID (?defs ! i), a) \<in> (dep_rel ?defs)\<^sup>*"
  have r: "runtime_ok s" using wf_reachable_inv [OF assms(1)] by (simp add: wf_inv_def)
  then have ok: "state_ok s" by simp
  obtain i0 where i0: "i0 < length ?defs" "a = sd_StepID (?defs ! i0)" by (rule waiting_index [OF ok assms(2)])
  have n: "\<not> step_succeeded (dag_steps (ws_dag s) ! i0)" using assms(2) waiting_nth [OF ok i0(1)] i0(2) by simp
  have P0: "?P i0" by (simp add: i0(2))
  have cl: "?P j" if "?P i" "i < length ?defs" "j \<in> set (preds ?defs i)" for i j
    using preds_dep_rel [OF ok that(2,3)] that(1) by (rule converse_rtrancl_into_rtrancl)
  obtain i where i: "i < length ?defs" "\<not> step_succeeded (dag_steps (ws_dag s) ! i)" "?P i"
      "\<forall>j \<in> set (preds ?defs i). step_succeeded (dag_steps (ws_dag s) ! j)"
    by (rule first_unsucceeded [OF ok i0(1) n, of ?P]) (use P0 cl in blast)+
  have "waiting s (sd_StepID (?defs ! i))"
    using i(2,3) assms(2,3) Step_nth [OF ok i(1)] by (auto simp: rtrancl_eq_or_trancl)
  then have "stepReady (ws_dag s) i"
    using i preds_succeeded_iff [OF ok i(1)] waiting_nth [OF ok i(1)] by (simp add: stepReady_spec [OF ok])
  then have "PopReadyStep s \<noteq> (s', None)" for s' using PopReadyStep_None(1) [OF r] by blast
  then obtain d st where p: "snd (PopReadyStep s) = Some (d, st)" by (metis option.exhaust prod.exhaust_sel)
  then obtain k where "stepReady (ws_dag s) k" "d = ?defs ! k"
    using PopReadyStep_Some [OF r, of "fst (PopReadyStep s)" d st] by (metis prod.collapse)
  then have "d \<in> set ?defs \<and> schedulable s d" using schedulable_iff [OF ok] by (auto simp: stepReady_spec [OF ok])
  with p show ?thesis by blast
qed

text \<open>
  On a reachable state each transition changes the step table at the named step only, by the
  effect the code describes; a start event never moves a succeeded step back.
\<close>

theorem transitions_update_one_step:
  assumes "wf_reachable s" "unsucceeded s stepID" "taskID \<noteq> ''''"
  shows "Step (fst (SetStepScheduled s stepID taskID attempt h args t)) =
      (Step s)(stepID := map_option (scheduled_step taskID attempt h args t) (Step s stepID)) \<and>
    Step (fst (SetStepStarted s k taskID t)) = (Step s)(k := map_option (started_step taskID t) (Step s k)) \<and>
    Step (fst (SetStepSucceeded s k taskID res ref t lat)) =
      (Step s)(k := map_option (succeeded_step taskID res ref t lat) (Step s k)) \<and>
    Step (fst (SetStepFailed s stepID taskID err retry t lat)) =
      (Step s)(stepID := map_option (failed_step taskID err retry t lat) (Step s stepID))"
proof -
  have r: "runtime_ok s" using wf_reachable_inv [OF assms(1)] by (simp add: wf_inv_def)
  show ?thesis
    using SetStepScheduled_Step(1) [OF r assms(2,3)] SetStepStarted_Step(1) [OF r]
      SetStepSucceeded_Step(1) [OF r] SetStepFailed_Step(1) [OF r assms(2)] by blast
qed

text \<open>A repeated success event leaves the state exactly as the first one did.\<close>

theorem success_idempotent:
  assumes "wf_reachable s"
  shows "fst (SetStepSucceeded (fst (SetStepSucceeded s stepID taskID res ref t lat))
      stepID taskID res ref t lat) = fst (SetStepSucceeded s stepID taskID res ref t lat)"
proof -
  define ev where "ev = (\<lambda>s. fst (SetStepSucceeded s stepID taskID res ref t lat))"
  have r: "runtime_ok s" using wf_reachable_inv [OF assms(1)] by (simp add: wf_inv_def)
  then have ok: "state_ok s" by simp
  have ok': "state_ok (ev s)" unfolding ev_def using SetStepSucceeded_ok [OF r] by blast
  have def: "ws_Definition (ev s) = ws_Definition s" unfolding ev_def by (rule SetStepSucceeded_Step(2) [OF r])
  have lk: "lookupID (ws_dag (ev s)) stepID = lookupID (ws_dag s) stepID"
    using state_ok_lookup(1) [OF ok] state_ok_lookup(1) [OF ok'] def by simp
  have "ev (ev s) = ev s"
  proof (cases "lookupID (ws_dag s) stepID")
    case None
    then show ?thesis by (simp add: ev_def SetStepSucceeded_def state_ok_runtime [OF ok])
  next
    case (Some idx)
    have l: "idx < length (dag_steps (ws_dag (ev s)))"
      using Some lk state_ok_lookup(2) [OF ok'] state_ok_length [OF ok'] by simp
    have "Step (ev s) stepID = map_option (succeeded_step taskID res ref t lat) (Step s stepID)"
      unfolding ev_def by (simp add: SetStepSucceeded_Step(1) [OF r])
    then obtain x where x: "dag_steps (ws_dag (ev s)) ! idx = succeeded_step taskID res ref t lat x"
      using Some lk by (simp add: Step_ok [OF ok] Step_ok [OF ok'])
    have up: "ws_UpdatedAtMs (ev s) = t"
      using Some by (simp add: ev_def SetStepSucceeded_def Let_def state_ok_runtime [OF ok])
    have "ev (ev s) = (setStep (ev s) idx (succeeded_step taskID res ref t lat x))\<lparr>ws_UpdatedAtMs := t\<rparr>"
      by (subst (1) ev_def) (simp add: SetStepSucceeded_def Let_def state_ok_runtime [OF ok'] lk Some x succeeded_step_def)
    also have "\<dots> = ev s" using up l x by (simp add: setStep_def flip: x)
    finally show ?thesis .
  qed
  then show ?thesis by (simp add: ev_def)
qed

subsection \<open>Witnesses\<close>

definition diamond_state :: wf_state where
  "diamond_state = NewState ''w'' (zero_definition\<lparr>def_Steps := diamond, def_ResultStepID := ''d''\<rparr>) 5"

definition diamond_run :: wf_state where
  "diamond_run = fst (SetStepSucceeded diamond_state ''a'' ''t1'' [1] '''' 7 2)"

lemma diamond_reachable: "wf_reachable diamond_state" "wf_reachable diamond_run"
proof -
  have "ValidateDefinition (zero_definition\<lparr>def_Steps := diamond, def_ResultStepID := ''d''\<rparr>) = Inr ()"
    by code_simp
  then show "wf_reachable diamond_state"
    unfolding diamond_state_def using ValidateDefinition_iff wf_reachable.new by blast
  then show "wf_reachable diamond_run" unfolding diamond_run_def by (rule wf_reachable.succeeded)
qed

theorem reachable_counters_and_queue_witness:
  "dag_remainingDeps (ws_dag diamond_run) = [0, 0, 0, 2] \<and>
   schedulable diamond_run (def_Steps (ws_Definition diamond_run) ! 1) \<and>
   1 \<in> set (drop (dag_readyHead (ws_dag diamond_run)) (dag_ready (ws_dag diamond_run)))"
proof -
  let ?d = "def_Steps (ws_Definition diamond_run) ! 1"
  have "DependenciesSucceeded ?d diamond_run" by code_simp
  moreover have "map_option (\<lambda>st. (ss_Status st, ss_TaskID st)) (Step diamond_run (sd_StepID ?d)) =
      Some (WORKFLOW_STEP_STATUS_SCHEDULED, '''')" by code_simp
  ultimately have sch: "schedulable diamond_run ?d" by (auto simp: schedulable_def)
  have "1 < length (def_Steps (ws_Definition diamond_run))" by code_simp
  from reachable_counters_and_queue [OF diamond_reachable(2) this] sch
  have "1 \<in> set (drop (dag_readyHead (ws_dag diamond_run)) (dag_ready (ws_dag diamond_run)))" by blast
  moreover have "dag_remainingDeps (ws_dag diamond_run) = [0, 0, 0, 2]" by code_simp
  ultimately show ?thesis using sch by blast
qed

theorem incremental_equals_rebuild_witness:
  "dag_remainingDeps (ws_dag (RebuildRuntime diamond_run)) = [0, 0, 0, 2]"
proof -
  have "dag_remainingDeps (ws_dag diamond_run) = [0, 0, 0, 2]" by code_simp
  with incremental_equals_rebuild [OF diamond_reachable(2)] show ?thesis by simp
qed

theorem PopReadyStep_correct_witness:
  "\<exists>d st. snd (PopReadyStep diamond_run) = Some (d, st) \<and> sd_StepID d = ''b'' \<and> schedulable diamond_run d"
proof -
  have "map_option (\<lambda>p. sd_StepID (fst p)) (snd (PopReadyStep diamond_run)) = Some ''b''" by code_simp
  then obtain d st where "snd (PopReadyStep diamond_run) = Some (d, st)" "sd_StepID d = ''b''" by auto
  with PopReadyStep_correct [OF diamond_reachable(2)] show ?thesis by auto
qed

text \<open>Step \<open>b\<close> has failed for good; \<open>c\<close> still waits and can run, \<open>d\<close> is stuck behind \<open>b\<close>.\<close>

definition diamond_failed :: wf_state where
  "diamond_failed = fst (SetStepFailed diamond_run ''b'' ''t2'' ''boom'' False 8 1)"

theorem workflow_progress_witness:
  "map_option ss_Status (Step diamond_failed ''b'') = Some WORKFLOW_STEP_STATUS_FAILED \<and>
   (\<exists>d st. snd (PopReadyStep diamond_failed) = Some (d, st) \<and> schedulable diamond_failed d)"
proof -
  have r: "wf_reachable diamond_failed" 
    unfolding diamond_failed_def
  proof (rule wf_reachable.failed [OF diamond_reachable(2)])
    have "map_option step_succeeded (Step diamond_run ''b'') = Some False" by code_simp
    then show "unsucceeded diamond_run ''b''" by auto
  qed
  have c: "map_option (\<lambda>st. (ss_Status st, ss_TaskID st)) (Step diamond_failed ''c'') =
      Some (WORKFLOW_STEP_STATUS_SCHEDULED, '''')" by code_simp
  then have w: "waiting diamond_failed ''c''" by (auto simp: waiting_def)
  have f: "map_option ss_Status (Step diamond_failed ''b'') = Some WORKFLOW_STEP_STATUS_FAILED" by code_simp
  let ?R = "dep_rel (def_Steps (ws_Definition diamond_failed))"
  have "list_all (\<lambda>d. (sd_StepID d = ''c'' \<longrightarrow> sd_DependsOn d = [''a'']) \<and> (sd_StepID d = ''a'' \<longrightarrow> sd_DependsOn d = []))
      (def_Steps (ws_Definition diamond_failed))" by code_simp
  then have R: "(x, ''c'') \<in> ?R \<Longrightarrow> x = ''a''" "(x, ''a'') \<notin> ?R" for x by (auto simp: dep_rel_def list_all_iff)
  have a: "b = ''a''" if "(b, ''c'') \<in> ?R\<^sup>+" for b
    using that
  proof (induction rule: converse_trancl_induct)
    case (base y)
    then show ?case by (rule R(1))
  next
    case (step y z)
    then show ?case using R(2) by simp
  qed
  have "map_option step_succeeded (Step diamond_failed ''a'') = Some True" by code_simp
  then have "\<not> unsucceeded diamond_failed ''a''" by auto
  with workflow_progress [OF r w] a f show ?thesis by blast
qed

theorem transitions_update_one_step_witness:
  "Step (fst (SetStepStarted diamond_run ''a'' ''t2'' 9)) = Step diamond_run"
proof -
  have u: "unsucceeded diamond_run ''zz''" 
  proof -
    have "Step diamond_run ''zz'' = None" by code_simp
    then show ?thesis by simp
  qed
  have "''t2'' \<noteq> ('''' :: string)" by simp
  from transitions_update_one_step [OF diamond_reachable(2) u this, where k = "''a''" and t = 9]
  have "Step (fst (SetStepStarted diamond_run ''a'' ''t2'' 9)) =
    (Step diamond_run)(''a'' := map_option (started_step ''t2'' 9) (Step diamond_run ''a''))" by blast
  moreover have "map_option (started_step ''t2'' 9) (Step diamond_run ''a'') = Step diamond_run ''a''"
    by code_simp
  ultimately show ?thesis by simp
qed

theorem success_idempotent_witness:
  "fst (SetStepSucceeded diamond_run ''a'' ''t1'' [1] '''' 7 2) = diamond_run"
  using success_idempotent [OF diamond_reachable(1)] unfolding diamond_run_def by simp

end
