(* ===== verification/Event_Codec.thy ===== *)
theory Event_Codec
  imports LS_Prelude
begin

text \<open>
  \<open>internal/eventcodec/eventcodec.go\<close> and \<open>internal/logrecord/record.go\<close>: the envelope of event
  payloads (magic, kind byte, msgpack body), the permissive field readers used on decoded maps,
  and the raw record shared by the log readers.

  The msgpack package is not part of the repository: its encoder and decoder for
  \<open>map[string]any\<close> are arguments. What the replay code relies on is named by \<open>msgpack_faithful\<close>:
  encoding succeeds, and decoding returns a map with the same keys whose values denote the same
  string, byte slice or integer; the decoder is free to choose the width of an integer.
\<close>

subsection \<open>Records\<close>

record raw_record =
  rr_StreamID :: string
  rr_Seq :: u64
  rr_EventType :: string
  rr_IdempotencyKey :: string
  rr_Payload :: bytes
  rr_TimestampMs :: i64
  rr_CRC32 :: u32

record log_record =
  pb_StreamId :: string
  pb_Seq :: u64
  pb_EventType :: string
  pb_IdempotencyKey :: string
  pb_Payload :: bytes
  pb_TimestampMs :: i64
  pb_Crc32 :: u32

definition zero_raw_record :: raw_record where
  "zero_raw_record = \<lparr>rr_StreamID = '''', rr_Seq = 0, rr_EventType = '''', rr_IdempotencyKey = '''',
     rr_Payload = [], rr_TimestampMs = 0, rr_CRC32 = 0\<rparr>"

definition FromProto :: "log_record option \<Rightarrow> raw_record" where
  "FromProto rec =
     (case rec of None \<Rightarrow> zero_raw_record
      | Some r \<Rightarrow> \<lparr>rr_StreamID = pb_StreamId r, rr_Seq = pb_Seq r, rr_EventType = pb_EventType r,
          rr_IdempotencyKey = pb_IdempotencyKey r, rr_Payload = pb_Payload r,
          rr_TimestampMs = pb_TimestampMs r, rr_CRC32 = pb_Crc32 r\<rparr>)"

definition ToProto :: "raw_record \<Rightarrow> log_record" where
  "ToProto r = \<lparr>pb_StreamId = rr_StreamID r, pb_Seq = rr_Seq r, pb_EventType = rr_EventType r,
     pb_IdempotencyKey = rr_IdempotencyKey r, pb_Payload = rr_Payload r,
     pb_TimestampMs = rr_TimestampMs r, pb_Crc32 = rr_CRC32 r\<rparr>"

lemma FromProto_ToProto [simp]: "FromProto (Some (ToProto r)) = r"
  by (simp add: FromProto_def ToProto_def)

lemma ToProto_FromProto [simp]: "ToProto (FromProto (Some r)) = r"
  by (simp add: FromProto_def ToProto_def)

subsection \<open>The envelope\<close>

type_synonym kind = byte

definition KindTaskSubmitted :: kind where "KindTaskSubmitted = 1"
definition KindWorkflowEvent :: kind where "KindWorkflowEvent = 2"
definition KindActorEvent :: kind where "KindActorEvent = 3"

datatype codec_error =
    KindRequired
  | KindMismatch kind kind
  | MsgpackError string
  | JSONError string

definition magic :: bytes where
  "magic = bytes_of_string ''LSE'' @ [1]"

definition Marshal :: "('v \<Rightarrow> string + bytes) \<Rightarrow> kind \<Rightarrow> 'v \<Rightarrow> codec_error + bytes" where
  "Marshal enc kind value =
     (if kind = 0 then Inl KindRequired
      else (case enc value of
              Inl e \<Rightarrow> Inl (MsgpackError e)
            | Inr body \<Rightarrow> Inr (magic @ [kind] @ body)))"

text \<open>The \<open>ok\<close> flag of the Go result is the option: \<^const>\<open>None\<close> asks for the legacy decoder.\<close>

definition Body :: "kind \<Rightarrow> bytes \<Rightarrow> codec_error + bytes option" where
  "Body kind data =
     (if length data < length magic + 1 \<or> take (length magic) data \<noteq> magic then Inr None
      else if data ! length magic \<noteq> kind then Inl (KindMismatch (data ! length magic) kind)
      else Inr (Some (drop (length magic + 1) data)))"

definition Unmarshal :: "(bytes \<Rightarrow> string + 'v) \<Rightarrow> kind \<Rightarrow> bytes \<Rightarrow> codec_error + 'v option" where
  "Unmarshal dec kind data =
     (case Body kind data of
        Inl e \<Rightarrow> Inl e
      | Inr None \<Rightarrow> Inr None
      | Inr (Some body) \<Rightarrow>
          (case dec body of Inl e \<Rightarrow> Inl (MsgpackError e) | Inr v \<Rightarrow> Inr (Some v)))"

lemma length_magic [codec_simps, simp]: "length magic = 4"
  by (simp add: magic_def)

lemma Body_enveloped [codec_simps, simp]:
  "Body k (magic @ [k'] @ body) = (if k' = k then Inr (Some body) else Inl (KindMismatch k' k))"
  by (simp add: Body_def nth_append)

subsection \<open>Dynamically typed fields\<close>

text \<open>The dynamic types a decoded map value may have; the readers ignore every other one.\<close>

datatype any =
    ANil
  | AString string
  | ABytes bytes
  | AUint64 u64
  | AUint32 u32
  | AUint16 u16
  | AUint8 byte
  | AUint u64
  | AInt64 int
  | AInt32 int
  | AInt16 int
  | AInt8 int
  | AInt int
  | AOther nat

type_synonym fields = "string \<rightharpoonup> any"

text \<open>Indexing a Go map of interface values: a missing key reads as \<open>nil\<close>.\<close>

definition field :: "fields \<Rightarrow> string \<Rightarrow> any" where
  "field m k = (case m k of None \<Rightarrow> ANil | Some v \<Rightarrow> v)"

fun StringValue :: "any \<Rightarrow> string" where
  "StringValue (AString s) = s"
| "StringValue (ABytes b) = string_of_bytes b"
| "StringValue _ = ''''"

fun BytesValue :: "any \<Rightarrow> bytes option" where
  "BytesValue ANil = None"
| "BytesValue (ABytes b) = Some b"
| "BytesValue (AString s) = Some (bytes_of_string s)"
| "BytesValue _ = None"

definition positive_u64 :: "int \<Rightarrow> u64" where
  "positive_u64 v = (if 0 < v then word_of_int v else 0)"

fun Uint64Value :: "any \<Rightarrow> u64" where
  "Uint64Value (AUint64 v) = v"
| "Uint64Value (AUint32 v) = ucast v"
| "Uint64Value (AUint16 v) = ucast v"
| "Uint64Value (AUint8 v) = ucast v"
| "Uint64Value (AUint v) = v"
| "Uint64Value (AInt64 v) = positive_u64 v"
| "Uint64Value (AInt32 v) = positive_u64 v"
| "Uint64Value (AInt16 v) = positive_u64 v"
| "Uint64Value (AInt8 v) = positive_u64 v"
| "Uint64Value (AInt v) = positive_u64 v"
| "Uint64Value _ = 0"

definition Uint32Value :: "any \<Rightarrow> u32" where
  "Uint32Value value = ucast (Uint64Value value)"

fun Int64Value :: "any \<Rightarrow> i64" where
  "Int64Value (AInt64 v) = v"
| "Int64Value (AInt32 v) = v"
| "Int64Value (AInt16 v) = v"
| "Int64Value (AInt8 v) = v"
| "Int64Value (AInt v) = v"
| "Int64Value (AUint64 v) = (if uint v \<le> 2 ^ 63 - 1 then uint v else 0)"
| "Int64Value (AUint32 v) = uint v"
| "Int64Value (AUint16 v) = uint v"
| "Int64Value (AUint8 v) = uint v"
| "Int64Value (AUint v) = wrap64 (uint v)"
| "Int64Value _ = 0"

text \<open>The encoders add only fields that are set; a \<open>nil\<close> byte slice reads as empty.\<close>

definition bytes_of_nilable :: "bytes option \<Rightarrow> bytes" where
  "bytes_of_nilable b = (case b of None \<Rightarrow> [] | Some x \<Rightarrow> x)"

definition put :: "bool \<Rightarrow> string \<Rightarrow> any \<Rightarrow> fields \<Rightarrow> fields" where
  "put present k v m = (if present then m(k \<mapsto> v) else m)"

lemma put_apply [simp]: "put b k v m x = (if b \<and> x = k then Some v else m x)"
  by (simp add: put_def)

subsection \<open>Values that decoding preserves\<close>

fun any_int :: "any \<Rightarrow> int option" where
  "any_int (AUint64 v) = Some (uint v)"
| "any_int (AUint32 v) = Some (uint v)"
| "any_int (AUint16 v) = Some (uint v)"
| "any_int (AUint8 v) = Some (uint v)"
| "any_int (AUint v) = Some (uint v)"
| "any_int (AInt64 v) = Some v"
| "any_int (AInt32 v) = Some v"
| "any_int (AInt16 v) = Some v"
| "any_int (AInt8 v) = Some v"
| "any_int (AInt v) = Some v"
| "any_int _ = None"

definition same_value :: "any \<Rightarrow> any \<Rightarrow> bool" where
  "same_value a b \<longleftrightarrow> (case any_int a of Some n \<Rightarrow> any_int b = Some n | None \<Rightarrow> b = a)"

definition same_fields :: "fields \<Rightarrow> fields \<Rightarrow> bool" where
  "same_fields m m' \<longleftrightarrow> (\<forall>k. rel_option same_value (m k) (m' k))"

text \<open>The documented behaviour of the msgpack package on one map.\<close>

definition msgpack_faithful ::
    "(fields \<Rightarrow> string + bytes) \<Rightarrow> (bytes \<Rightarrow> string + fields) \<Rightarrow> fields \<Rightarrow> bool" where
  "msgpack_faithful enc dec m \<longleftrightarrow> (\<exists>body m'. enc m = Inr body \<and> dec body = Inr m' \<and> same_fields m m')"

lemma same_value_AString [simp]: "same_value (AString s) b \<longleftrightarrow> b = AString s"
  by (simp add: same_value_def)

lemma same_value_ABytes [simp]: "same_value (ABytes x) b \<longleftrightarrow> b = ABytes x"
  by (simp add: same_value_def)

lemma Int64Value_any_int: "any_int a = Some n \<Longrightarrow> is_i64 n \<Longrightarrow> Int64Value a = n"
  by (cases a) (auto simp: is_i64_def wrap64_id)

lemma Uint64Value_any_int: "any_int a = Some n \<Longrightarrow> 0 \<le> n \<Longrightarrow> Uint64Value a = word_of_int n"
  by (cases a) (auto simp: positive_u64_def unsigned_ucast_eq order.strict_iff_order ucast_eq)

lemma Uint32Value_any_int: "any_int a = Some n \<Longrightarrow> 0 \<le> n \<Longrightarrow> Uint32Value a = word_of_int n"
  by (simp add: Uint32Value_def Uint64Value_any_int unsigned_of_int word_of_int_eq_iff)

lemma same_fields_None: "same_fields m m' \<Longrightarrow> m k = None \<Longrightarrow> m' k = None"
  unfolding same_fields_def by (metis option.rel_distinct(1) option.exhaust)

lemma same_fields_Some:
  "same_fields m m' \<Longrightarrow> m k = Some v \<Longrightarrow> \<exists>v'. m' k = Some v' \<and> same_value v v'"
  unfolding same_fields_def by (metis option_rel_Some1)

text \<open>Reading an optional field back from the decoded map.\<close>

lemma read_string:
  "same_fields m m' \<Longrightarrow> m k = (if s = '''' then None else Some (AString s)) \<Longrightarrow> StringValue (field m' k) = s"
  using same_fields_None [of m m' k] same_fields_Some [of m m' k "AString s"]
  by (auto simp: field_def split: if_splits)

lemma read_bytes:
  "same_fields m m' \<Longrightarrow> m k = (if b = [] then None else Some (ABytes b)) \<Longrightarrow>
     BytesValue (field m' k) = (if b = [] then None else Some b)"
  using same_fields_None [of m m' k] same_fields_Some [of m m' k "ABytes b"]
  by (auto simp: field_def split: if_splits)

lemma read_int64:
  assumes "same_fields m m'" "m k = (if n = 0 then None else Some (AInt64 n))" "is_i64 n"
  shows "Int64Value (field m' k) = n"
proof (cases "n = 0")
  case False
  then obtain v where "m' k = Some v" "same_value (AInt64 n) v"
    using same_fields_Some [OF assms(1), of k "AInt64 n"] assms(2) by auto
  then show ?thesis using Int64Value_any_int assms(3) by (simp add: field_def same_value_def)
qed (use assms same_fields_None [of m m' k] in \<open>simp add: field_def\<close>)

lemma read_uint32:
  assumes "same_fields m m'" "m k = (if w = 0 then None else Some (AUint32 w))"
  shows "Uint32Value (field m' k) = w"
proof (cases "w = 0")
  case False
  then obtain v where "m' k = Some v" "same_value (AUint32 w) v"
    using same_fields_Some [OF assms(1), of k "AUint32 w"] assms(2) by auto
  then show ?thesis using Uint32Value_any_int [of v "uint w"] by (simp add: field_def same_value_def)
qed (use assms same_fields_None [of m m' k] in \<open>simp add: field_def Uint32Value_def\<close>)

lemma read_uint64:
  assumes "same_fields m m'" "m k = (if w = 0 then None else Some (AUint64 w))"
  shows "Uint64Value (field m' k) = w"
proof (cases "w = 0")
  case False
  then obtain v where "m' k = Some v" "same_value (AUint64 w) v"
    using same_fields_Some [OF assms(1), of k "AUint64 w"] assms(2) by auto
  then show ?thesis using Uint64Value_any_int [of v "uint w"] by (simp add: field_def same_value_def)
qed (use assms same_fields_None [of m m' k] in \<open>simp add: field_def\<close>)

end
