(* ===== verification/Workflow_Replay.thy ===== *)
theory Workflow_Replay
  imports Workflow_DAG Event_Codec
begin

text \<open>
  \<open>internal/workflow/replay.go\<close>: workflow events, their encoding as sparse field maps, and the
  fold that reconstructs a workflow state from its log, from the beginning or on top of a
  checkpointed state.

  A record iterator is the list of records it emits together with the error it may return after
  them; a \<open>nil\<close> iterator is \<^const>\<open>None\<close>. The decoders that are not part of the repository
  (msgpack) or that map JSON text to structs are arguments, bundled in \<open>wf_codecs\<close>.
\<close>

subsection \<open>Payloads\<close>

record event_payload =
  ep_WorkflowID :: string
  ep_WorkflowName :: string
  ep_DefinitionJSON :: bytes
  ep_StepID :: string
  ep_TaskID :: string
  ep_Attempt :: u32
  ep_InputHash :: string
  ep_ResolvedArgsJSON :: "bytes option"
  ep_ResultJSON :: bytes
  ep_ResultRef :: string
  ep_Error :: string
  ep_IdempotencyKey :: string
  ep_IdempotencyFingerprint :: string
  ep_TimestampMs :: i64
  ep_LatencyMs :: i64

definition zero_payload :: event_payload where
  "zero_payload = \<lparr>ep_WorkflowID = '''', ep_WorkflowName = '''', ep_DefinitionJSON = [], ep_StepID = '''',
     ep_TaskID = '''', ep_Attempt = 0, ep_InputHash = '''', ep_ResolvedArgsJSON = None, ep_ResultJSON = [],
     ep_ResultRef = '''', ep_Error = '''', ep_IdempotencyKey = '''', ep_IdempotencyFingerprint = '''',
     ep_TimestampMs = 0, ep_LatencyMs = 0\<rparr>"

record wf_codecs =
  cd_definition :: "bytes \<Rightarrow> string + wf_definition"
  cd_msgpack :: "bytes \<Rightarrow> string + fields"
  cd_legacy :: "bytes \<Rightarrow> string + event_payload"

definition eventPayloadMap :: "event_payload \<Rightarrow> fields" where
  "eventPayloadMap p =
     (put (ep_LatencyMs p \<noteq> 0) ''latency_ms'' (AInt64 (ep_LatencyMs p))
     (put (ep_TimestampMs p \<noteq> 0) ''timestamp_ms'' (AInt64 (ep_TimestampMs p))
     (put (ep_IdempotencyFingerprint p \<noteq> '''') ''idempotency_fingerprint'' (AString (ep_IdempotencyFingerprint p))
     (put (ep_IdempotencyKey p \<noteq> '''') ''idempotency_key'' (AString (ep_IdempotencyKey p))
     (put (ep_Error p \<noteq> '''') ''error'' (AString (ep_Error p))
     (put (ep_ResultRef p \<noteq> '''') ''result_ref'' (AString (ep_ResultRef p))
     (put (ep_ResultJSON p \<noteq> []) ''result_json'' (ABytes (ep_ResultJSON p))
     (put (bytes_of_nilable (ep_ResolvedArgsJSON p) \<noteq> []) ''resolved_args_json''
        (ABytes (bytes_of_nilable (ep_ResolvedArgsJSON p)))
     (put (ep_InputHash p \<noteq> '''') ''input_hash'' (AString (ep_InputHash p))
     (put (0 < ep_Attempt p) ''attempt'' (AUint32 (ep_Attempt p))
     (put (ep_TaskID p \<noteq> '''') ''task_id'' (AString (ep_TaskID p))
     (put (ep_StepID p \<noteq> '''') ''step_id'' (AString (ep_StepID p))
     (put (ep_DefinitionJSON p \<noteq> []) ''definition_json'' (ABytes (ep_DefinitionJSON p))
     (put (ep_WorkflowName p \<noteq> '''') ''workflow_name'' (AString (ep_WorkflowName p))
     (put (ep_WorkflowID p \<noteq> '''') ''workflow_id'' (AString (ep_WorkflowID p))
      Map.empty)))))))))))))))"

definition eventPayloadFromMap :: "fields \<Rightarrow> event_payload" where
  "eventPayloadFromMap m =
     \<lparr>ep_WorkflowID = StringValue (field m ''workflow_id''),
      ep_WorkflowName = StringValue (field m ''workflow_name''),
      ep_DefinitionJSON = bytes_of_nilable (BytesValue (field m ''definition_json'')),
      ep_StepID = StringValue (field m ''step_id''),
      ep_TaskID = StringValue (field m ''task_id''),
      ep_Attempt = Uint32Value (field m ''attempt''),
      ep_InputHash = StringValue (field m ''input_hash''),
      ep_ResolvedArgsJSON = BytesValue (field m ''resolved_args_json''),
      ep_ResultJSON = bytes_of_nilable (BytesValue (field m ''result_json'')),
      ep_ResultRef = StringValue (field m ''result_ref''),
      ep_Error = StringValue (field m ''error''),
      ep_IdempotencyKey = StringValue (field m ''idempotency_key''),
      ep_IdempotencyFingerprint = StringValue (field m ''idempotency_fingerprint''),
      ep_TimestampMs = Int64Value (field m ''timestamp_ms''),
      ep_LatencyMs = Int64Value (field m ''latency_ms'')\<rparr>"

definition MarshalEventPayload :: "(fields \<Rightarrow> string + bytes) \<Rightarrow> event_payload \<Rightarrow> codec_error + bytes" where
  "MarshalEventPayload enc payload = Marshal enc KindWorkflowEvent (eventPayloadMap payload)"

definition UnmarshalEventPayload :: "wf_codecs \<Rightarrow> bytes \<Rightarrow> codec_error + event_payload" where
  "UnmarshalEventPayload cd data =
     (case Unmarshal (cd_msgpack cd) KindWorkflowEvent data of
        Inl e \<Rightarrow> Inl e
      | Inr (Some m) \<Rightarrow> Inr (eventPayloadFromMap m)
      | Inr None \<Rightarrow> (case cd_legacy cd data of Inl e \<Rightarrow> Inl (JSONError e) | Inr p \<Rightarrow> Inr p))"

subsection \<open>Replay\<close>

datatype replay_error =
    PayloadError codec_error
  | WorkflowError wf_error
  | IteratorRequired
  | IteratorError string

type_synonym raw_iterator = "(raw_record list \<times> string option) option"

definition recordPayload :: "wf_codecs \<Rightarrow> raw_record \<Rightarrow> codec_error + event_payload" where
  "recordPayload cd rec =
     (case (if rr_Payload rec \<noteq> [] then UnmarshalEventPayload cd (rr_Payload rec) else Inr zero_payload) of
        Inl e \<Rightarrow> Inl e
      | Inr payload \<Rightarrow>
          Inr (if ep_TimestampMs payload = 0 then payload\<lparr>ep_TimestampMs := rr_TimestampMs rec\<rparr> else payload))"

definition applyWorkflowRecord :: "wf_codecs \<Rightarrow> wf_state \<Rightarrow> string \<Rightarrow> raw_record \<Rightarrow> bool \<Rightarrow>
    replay_error + wf_state" where
  "applyWorkflowRecord cd state fallbackWorkflowID rec allowFallbackID =
     (case recordPayload cd rec of
        Inl e \<Rightarrow> Inl (PayloadError e)
      | Inr p \<Rightarrow>
          if rr_EventType rec = ''WorkflowStarted'' then
            (case ParseDefinition (cd_definition cd) (ep_DefinitionJSON p) of
               Inl e \<Rightarrow> Inl (WorkflowError e)
             | Inr def \<Rightarrow>
                 (let workflowID = (if allowFallbackID \<and> ep_WorkflowID p \<noteq> '''' then ep_WorkflowID p
                                    else fallbackWorkflowID)
                  in Inr ((NewState workflowID def (ep_TimestampMs p))
                      \<lparr>ws_IdempotencyKey := ep_IdempotencyKey p,
                       ws_IdempotencyFingerprint := ep_IdempotencyFingerprint p\<rparr>)))
          else if rr_EventType rec = ''StepScheduled'' then
            Inr (fst (SetStepScheduled state (ep_StepID p) (ep_TaskID p) (ep_Attempt p) (ep_InputHash p)
                  (ep_ResolvedArgsJSON p) (ep_TimestampMs p)))
          else if rr_EventType rec = ''StepStarted'' then
            Inr (fst (SetStepStarted state (ep_StepID p) (ep_TaskID p) (ep_TimestampMs p)))
          else if rr_EventType rec = ''StepSucceeded'' then
            Inr (fst (SetStepSucceeded state (ep_StepID p) (ep_TaskID p) (ep_ResultJSON p) (ep_ResultRef p)
                  (ep_TimestampMs p) (ep_LatencyMs p)))
          else if rr_EventType rec = ''StepFailed'' then
            Inr (fst (SetStepFailed state (ep_StepID p) (ep_TaskID p) (ep_Error p) False
                  (ep_TimestampMs p) (ep_LatencyMs p)))
          else if rr_EventType rec = ''WorkflowCompleted'' then
            Inr (state\<lparr>ws_Status := WORKFLOW_STATUS_COMPLETED, ws_ResultJSON := [] @ ep_ResultJSON p,
                   ws_ResultRef := ep_ResultRef p, ws_CompletedAtMs := ep_TimestampMs p,
                   ws_UpdatedAtMs := ep_TimestampMs p\<rparr>)
          else if rr_EventType rec = ''WorkflowFailed'' then
            Inr (state\<lparr>ws_Status := WORKFLOW_STATUS_FAILED, ws_Error := ep_Error p,
                   ws_CompletedAtMs := ep_TimestampMs p, ws_UpdatedAtMs := ep_TimestampMs p\<rparr>)
          else Inr state)"

definition iterateRecords :: "('s \<Rightarrow> raw_record \<Rightarrow> replay_error + 's) \<Rightarrow> 's \<Rightarrow>
    raw_record list \<times> string option \<Rightarrow> replay_error + 's" where
  "iterateRecords emit s it =
     (case fold_result emit s (fst it) of
        Inl e \<Rightarrow> Inl e
      | Inr s' \<Rightarrow> (case snd it of None \<Rightarrow> Inr s' | Some e \<Rightarrow> Inl (IteratorError e)))"

definition finishReplay :: "wf_state \<Rightarrow> replay_error + wf_state" where
  "finishReplay state =
     (if ws_WorkflowID state = '''' then Inl (WorkflowError StartEventNotFound)
      else Inr (RebuildRuntime state))"

definition ReplayRawEach :: "wf_codecs \<Rightarrow> string \<Rightarrow> raw_iterator \<Rightarrow> replay_error + wf_state" where
  "ReplayRawEach cd workflowID it =
     (case it of
        None \<Rightarrow> Inl IteratorRequired
      | Some i \<Rightarrow>
          bind_result (iterateRecords (\<lambda>s rec. applyWorkflowRecord cd s workflowID rec False) zero_state i)
            finishReplay)"

definition ReplayFromRawEach :: "wf_codecs \<Rightarrow> wf_state \<Rightarrow> raw_iterator \<Rightarrow> replay_error + wf_state" where
  "ReplayFromRawEach cd initial it =
     (let state = CloneState initial in
      case it of
        None \<Rightarrow> finishReplay state
      | Some i \<Rightarrow>
          bind_result (iterateRecords (\<lambda>s rec. applyWorkflowRecord cd s (ws_WorkflowID initial) rec True) state i)
            finishReplay)"

text \<open>The protobuf entry points convert each record and delegate.\<close>

definition ReplayEach :: "wf_codecs \<Rightarrow> string \<Rightarrow> (log_record option list \<times> string option) option \<Rightarrow>
    replay_error + wf_state" where
  "ReplayEach cd workflowID it =
     (case it of None \<Rightarrow> Inl IteratorRequired
      | Some (recs, err) \<Rightarrow> ReplayRawEach cd workflowID (Some (map FromProto recs, err)))"

definition Replay :: "wf_codecs \<Rightarrow> string \<Rightarrow> log_record option list \<Rightarrow> replay_error + wf_state" where
  "Replay cd workflowID records = ReplayEach cd workflowID (Some (records, None))"

definition ReplayFromEach :: "wf_codecs \<Rightarrow> wf_state \<Rightarrow> (log_record option list \<times> string option) option \<Rightarrow>
    replay_error + wf_state" where
  "ReplayFromEach cd initial it =
     (case it of None \<Rightarrow> Inr (CloneState initial)
      | Some (recs, err) \<Rightarrow> ReplayFromRawEach cd initial (Some (map FromProto recs, err)))"

definition same_step :: "step_state \<Rightarrow> step_state \<Rightarrow> bool" where
  "same_step a b \<longleftrightarrow> ss_StepID a = ss_StepID b \<and> ss_Status a = ss_Status b \<and> ss_Attempts a = ss_Attempts b \<and>
     ss_TaskID a = ss_TaskID b \<and> ss_ResultRef a = ss_ResultRef b \<and> ss_Error a = ss_Error b \<and>
     ss_ResultJSON a = ss_ResultJSON b"

definition Consistent :: "wf_state \<Rightarrow> wf_state \<Rightarrow> bool" where
  "Consistent a b \<longleftrightarrow>
     ws_WorkflowID a = ws_WorkflowID b \<and> ws_Status a = ws_Status b \<and> ws_Error a = ws_Error b \<and>
     ws_ResultJSON a = ws_ResultJSON b \<and> ws_ResultRef a = ws_ResultRef b \<and>
     list_all2 same_step (StepStatesInOrder a) (StepStatesInOrder b)"

definition WorkflowLatencyMs :: "wf_state \<Rightarrow> i64" where
  "WorkflowLatencyMs s =
     (if ws_CompletedAtMs s = 0 \<or> ws_CreatedAtMs s = 0 then 0
      else sub64 (ws_CompletedAtMs s) (ws_CreatedAtMs s))"

subsection \<open>Payload round trip\<close>

text \<open>What the codec keeps of a payload: an empty \<open>resolved_args_json\<close> comes back as \<open>nil\<close>.\<close>

definition normal_payload :: "event_payload \<Rightarrow> event_payload" where
  "normal_payload p = p\<lparr>ep_ResolvedArgsJSON :=
     (if bytes_of_nilable (ep_ResolvedArgsJSON p) = [] then None else ep_ResolvedArgsJSON p)\<rparr>"

lemma eventPayload_same_fields:
  assumes s: "same_fields (eventPayloadMap p) m" and "is_i64 (ep_TimestampMs p)" "is_i64 (ep_LatencyMs p)"
  shows "eventPayloadFromMap m = normal_payload p"
proof -
  note [simp] = eventPayloadMap_def word_gt_0
  have str: "StringValue (field m ''workflow_id'') = ep_WorkflowID p"
    "StringValue (field m ''workflow_name'') = ep_WorkflowName p"
    "StringValue (field m ''step_id'') = ep_StepID p" "StringValue (field m ''task_id'') = ep_TaskID p"
    "StringValue (field m ''input_hash'') = ep_InputHash p"
    "StringValue (field m ''result_ref'') = ep_ResultRef p" "StringValue (field m ''error'') = ep_Error p"
    "StringValue (field m ''idempotency_key'') = ep_IdempotencyKey p"
    "StringValue (field m ''idempotency_fingerprint'') = ep_IdempotencyFingerprint p"
    by (rule read_string [OF s]; simp)+
  have byt: "BytesValue (field m ''definition_json'') = (if ep_DefinitionJSON p = [] then None else Some (ep_DefinitionJSON p))"
    "BytesValue (field m ''resolved_args_json'') = (if bytes_of_nilable (ep_ResolvedArgsJSON p) = [] then None
       else Some (bytes_of_nilable (ep_ResolvedArgsJSON p)))"
    "BytesValue (field m ''result_json'') = (if ep_ResultJSON p = [] then None else Some (ep_ResultJSON p))"
    by (rule read_bytes [OF s]; simp)+
  have num: "Int64Value (field m ''timestamp_ms'') = ep_TimestampMs p"
    "Int64Value (field m ''latency_ms'') = ep_LatencyMs p"
    "Uint32Value (field m ''attempt'') = ep_Attempt p"
    using assms(2,3) by (auto intro!: read_int64 [OF s] read_uint32 [OF s])
  show ?thesis
    by (simp add: eventPayloadFromMap_def normal_payload_def str byt num bytes_of_nilable_def
        del: eventPayloadMap_def split: option.split)
qed

subsection \<open>Replay is insensitive to rebuilding\<close>

text \<open>
  During replay records may arrive in any order, so the counters may be off until the final
  rebuild. What always holds is the weaker \<open>replay_ok\<close>; and two states that agree on everything
  but counters, edges and queue (\<open>replay_eq\<close>) stay so under every record and rebuild to the same
  state.
\<close>

definition replay_ok :: "wf_state \<Rightarrow> bool" where
  "replay_ok s \<longleftrightarrow>
     normalizeDefinition (ws_Definition s) = ws_Definition s \<and> distinct_ids (def_Steps (ws_Definition s)) \<and>
     '''' \<notin> sd_StepID ` set (def_Steps (ws_Definition s)) \<and>
     (dag_byID (ws_dag s) \<noteq> None \<longrightarrow>
        map ss_StepID (dag_steps (ws_dag s)) = map sd_StepID (def_Steps (ws_Definition s)) \<and>
        ws_StepOrder s = map sd_StepID (def_Steps (ws_Definition s)) \<and>
        dag_byID (ws_dag s) = Some (index_by sd_StepID (def_Steps (ws_Definition s))) \<and> named_steps s)"

definition replay_eq :: "wf_state \<Rightarrow> wf_state \<Rightarrow> bool" where
  "replay_eq s s' \<longleftrightarrow> (\<exists>out rem q h. s' = s\<lparr>ws_dag := (ws_dag s)\<lparr>dag_outgoing := out,
     dag_remainingDeps := rem, dag_ready := q, dag_readyHead := h\<rparr>\<rparr>)"

lemma replay_eq_refl [simp]: "replay_eq s s"
  by (auto simp: replay_eq_def intro!: exI [of _ "dag_outgoing (ws_dag s)"]
      exI [of _ "dag_remainingDeps (ws_dag s)"] exI [of _ "dag_ready (ws_dag s)"] exI [of _ "dag_readyHead (ws_dag s)"])

lemma replay_eqI:
  assumes "s\<lparr>ws_dag := zero_dag\<rparr> = s'\<lparr>ws_dag := zero_dag\<rparr>"
    and "dag_steps (ws_dag s) = dag_steps (ws_dag s')" "dag_byID (ws_dag s) = dag_byID (ws_dag s')"
  shows "replay_eq s s'"
proof -
  let ?d = "ws_dag s'"
  have "s' = (s\<lparr>ws_dag := zero_dag\<rparr>)\<lparr>ws_dag := ?d\<rparr>" by (subst assms(1)) simp
  also have "\<dots> = s\<lparr>ws_dag := ?d\<rparr>" by simp
  also have "?d = (ws_dag s)\<lparr>dag_outgoing := dag_outgoing ?d, dag_remainingDeps := dag_remainingDeps ?d,
      dag_ready := dag_ready ?d, dag_readyHead := dag_readyHead ?d\<rparr>"
    using assms(2,3) by (cases "ws_dag s"; cases ?d) simp
  finally show ?thesis unfolding replay_eq_def by blast
qed

lemma replay_eqE:
  assumes "replay_eq s s'"
  shows "s\<lparr>ws_dag := d\<rparr> = s'\<lparr>ws_dag := d\<rparr>" "dag_steps (ws_dag s') = dag_steps (ws_dag s)"
    "dag_byID (ws_dag s') = dag_byID (ws_dag s)" "ws_Definition s' = ws_Definition s"
    "ws_StepOrder s' = ws_StepOrder s" "ws_WorkflowID s' = ws_WorkflowID s"
  using assms by (auto simp: replay_eq_def)

lemma RebuildRuntime_replay_eq: "replay_eq s s' \<Longrightarrow> RebuildRuntime s = RebuildRuntime s'"
  by (auto simp: replay_eq_def RebuildRuntime_def Let_def)

lemma ensureRuntime_replay_eq: "replay_eq s s' \<Longrightarrow> replay_eq (ensureRuntime s) (ensureRuntime s')"
  using RebuildRuntime_replay_eq [of s s'] replay_eqE(2,3,5) [of s s'] by (simp add: ensureRuntime_def)

lemma unlock_fold_fields [simp]:
  "dag_steps (foldl unlock_one d L) = dag_steps d" "dag_byID (foldl unlock_one d L) = dag_byID d"
  by (induction L arbitrary: d) simp_all

lemma lookupID_replay_eq: "replay_eq s s' \<Longrightarrow> lookupID (ws_dag s') = lookupID (ws_dag s)"
  by (auto simp: replay_eq_def lookupID_def fun_eq_iff)

lemma setStep_replay_eq: "replay_eq s s' \<Longrightarrow> replay_eq (setStep s i x) (setStep s' i x)"
  by (rule replay_eqI; cases s; cases s'; auto simp: replay_eq_def setStep_def)

lemma meta_replay_eq:
  "replay_eq s s' \<Longrightarrow> replay_eq (s\<lparr>ws_UpdatedAtMs := t\<rparr>) (s'\<lparr>ws_UpdatedAtMs := t\<rparr>)"
  by (rule replay_eqI; cases s; cases s'; auto simp: replay_eq_def)

lemma dag_replay_eq:
  assumes "replay_eq s s'" "dag_steps d = dag_steps (ws_dag s)" "dag_byID d = dag_byID (ws_dag s)"
  shows "replay_eq (s\<lparr>ws_dag := d\<rparr>) s'"
  by (rule replay_eqI) (use replay_eqE [OF assms(1)] assms(2,3) in simp_all)

lemma replay_eq_sym: "replay_eq s s' \<Longrightarrow> replay_eq s' s"
  by (rule replay_eqI) (simp_all add: replay_eqE)

lemma SetStepScheduled_replay_eq:
  assumes "replay_eq s s'"
  shows "replay_eq (fst (SetStepScheduled s a b c d e f)) (fst (SetStepScheduled s' a b c d e f))"
proof -
  note e = ensureRuntime_replay_eq [OF assms]
  show ?thesis
    using e lookupID_replay_eq [OF e] replay_eqE(2) [OF e]
    by (simp add: SetStepScheduled_def Let_def setStep_replay_eq meta_replay_eq split: option.split)
qed

lemma SetStepStarted_replay_eq:
  assumes "replay_eq s s'"
  shows "replay_eq (fst (SetStepStarted s a b c)) (fst (SetStepStarted s' a b c))"
proof -
  note e = ensureRuntime_replay_eq [OF assms]
  show ?thesis
    using e lookupID_replay_eq [OF e] replay_eqE(2) [OF e]
    by (simp add: SetStepStarted_def Let_def setStep_replay_eq meta_replay_eq split: option.split)
qed

lemma SetStepSucceeded_replay_eq:
  assumes "replay_eq s s'"
  shows "replay_eq (fst (SetStepSucceeded s a b c d e f)) (fst (SetStepSucceeded s' a b c d e f))"
proof -
  note e = ensureRuntime_replay_eq [OF assms]
  have r: "replay_eq ((setStep (ensureRuntime s) i x)\<lparr>ws_UpdatedAtMs := t\<rparr>)
      ((setStep (ensureRuntime s') i x)\<lparr>ws_UpdatedAtMs := t\<rparr>)" for i x t
    by (simp add: e setStep_replay_eq meta_replay_eq)
  have "replay_eq ((setStep (ensureRuntime s) i x)\<lparr>ws_UpdatedAtMs := t, ws_dag := d1\<rparr>)
      ((setStep (ensureRuntime s') i x)\<lparr>ws_UpdatedAtMs := t, ws_dag := d2\<rparr>)"
    if "dag_steps d1 = (dag_steps (ws_dag (ensureRuntime s)))[i := x]" "dag_byID d1 = dag_byID (ws_dag (ensureRuntime s))"
      "dag_steps d2 = (dag_steps (ws_dag (ensureRuntime s')))[i := x]" "dag_byID d2 = dag_byID (ws_dag (ensureRuntime s'))"
    for i x t d1 d2
    by (intro dag_replay_eq [OF replay_eq_sym [OF dag_replay_eq [OF replay_eq_sym [OF r]]]])
       (use that replay_eqE(2,3) [OF e] in simp_all)
  then show ?thesis
    using r lookupID_replay_eq [OF e] replay_eqE(2) [OF e]
    by (simp add: SetStepSucceeded_def Let_def e split: option.split)
qed

lemma SetStepFailed_replay_eq:
  assumes "replay_eq s s'"
  shows "replay_eq (fst (SetStepFailed s a b c False e f)) (fst (SetStepFailed s' a b c False e f))"
proof -
  note e = ensureRuntime_replay_eq [OF assms]
  show ?thesis
    using e lookupID_replay_eq [OF e] replay_eqE(2) [OF e]
    by (simp add: SetStepFailed_def Let_def setStep_replay_eq meta_replay_eq split: option.split)
qed

lemma apply_replay_eq:
  assumes "replay_eq s s'"
    and "\<And>p. recordPayload cd rec = Inr p \<Longrightarrow> rr_EventType rec = ''WorkflowStarted'' \<Longrightarrow>
      ep_WorkflowID p = '''' \<or> ep_WorkflowID p = w"
  shows "rel_sum (=) replay_eq (applyWorkflowRecord cd s w rec b) (applyWorkflowRecord cd s' w rec b')"
proof (cases "recordPayload cd rec")
  case (Inr p)
  have id: "(if c \<and> ep_WorkflowID p \<noteq> '''' then ep_WorkflowID p else w) = w"
    if "rr_EventType rec = ''WorkflowStarted''" for c using assms(2) [OF Inr that] by auto
  have meta: "replay_eq (s\<lparr>ws_Status := x, ws_ResultJSON := y, ws_ResultRef := z, ws_CompletedAtMs := t, ws_UpdatedAtMs := t\<rparr>)
      (s'\<lparr>ws_Status := x, ws_ResultJSON := y, ws_ResultRef := z, ws_CompletedAtMs := t, ws_UpdatedAtMs := t\<rparr>)"
    "replay_eq (s\<lparr>ws_Status := x, ws_Error := z, ws_CompletedAtMs := t, ws_UpdatedAtMs := t\<rparr>)
      (s'\<lparr>ws_Status := x, ws_Error := z, ws_CompletedAtMs := t, ws_UpdatedAtMs := t\<rparr>)" for x y z t
    using assms(1) by - (rule replay_eqI; cases s; cases s'; auto simp: replay_eq_def)+
  show ?thesis
  proof (cases "rr_EventType rec = ''WorkflowStarted''")
    case True
    then show ?thesis unfolding applyWorkflowRecord_def Inr sum.case Let_def id [OF True]
      by (simp split: sum.split)
  next
    case False
    then show ?thesis
      unfolding applyWorkflowRecord_def Inr sum.case
      by (simp add: assms(1) meta SetStepScheduled_replay_eq SetStepStarted_replay_eq
          SetStepSucceeded_replay_eq SetStepFailed_replay_eq)
  qed
qed (simp add: applyWorkflowRecord_def)

lemma build_steps_byID:
  assumes "normalizeDefinition def = def"
  shows "dag_steps (buildRuntimeDAG def ex) = map (merge_step (existing_by_id ex)) (def_Steps def)"
    "dag_byID (buildRuntimeDAG def ex) = Some (index_by sd_StepID (def_Steps def))"
proof -
  have "index_by ss_StepID (map (merge_step (existing_by_id ex)) (def_Steps def)) = index_by sd_StepID (def_Steps def)"
    by (rule index_by_cong) simp
  then show "dag_steps (buildRuntimeDAG def ex) = map (merge_step (existing_by_id ex)) (def_Steps def)"
    "dag_byID (buildRuntimeDAG def ex) = Some (index_by sd_StepID (def_Steps def))"
    by (simp_all add: buildRuntimeDAG_def assms Let_def split: prod.split)
qed

lemma merge_step_named: "ss_TaskName (merge_step m d) = '''' \<Longrightarrow> sd_TaskName d = ''''"
  by (auto simp: merge_step_def Let_def split: option.splits if_splits)

lemma RebuildRuntime_replay_ok:
  assumes "normalizeDefinition (ws_Definition s) = ws_Definition s" "distinct_ids (def_Steps (ws_Definition s))"
    "'''' \<notin> sd_StepID ` set (def_Steps (ws_Definition s))"
  shows "replay_ok (RebuildRuntime s)"
  using assms
  by (simp add: replay_ok_def RebuildRuntime_def Let_def build_steps_byID stepOrder_def named_steps_def comp_def
      merge_step_named)

lemma RebuildRuntime_replay_eq_self:
  assumes "replay_ok s" "dag_byID (ws_dag s) \<noteq> None"
  shows "replay_eq (RebuildRuntime s) s"
proof -
  let ?defs = "def_Steps (ws_Definition s)"
  have ok: "normalizeDefinition (ws_Definition s) = ws_Definition s"
      "map ss_StepID (dag_steps (ws_dag s)) = map sd_StepID ?defs" "ws_StepOrder s = map sd_StepID ?defs"
      "dag_byID (ws_dag s) = Some (index_by sd_StepID ?defs)" "named_steps s"
    using assms by (auto simp: replay_ok_def)
  have l: "length (dag_steps (ws_dag s)) = length ?defs" using ok(2) by (metis length_map)
  have m: "map (merge_step (existing_by_id (dag_steps (ws_dag s)))) ?defs = dag_steps (ws_dag s)"
    by (rule merge_existing [OF ok(2)]) (use assms(1) ok(5) l in \<open>auto simp: replay_ok_def named_steps_def\<close>)
  have "stepOrder (buildRuntimeDAG (ws_Definition s) (dag_steps (ws_dag s))) = ws_StepOrder s"
    by (simp add: stepOrder_def build_steps_byID [OF ok(1)] m ok(2,3))
  then show ?thesis
    by (intro replay_eqI) (use assms(2) ok(1,4) in
        \<open>simp_all add: RebuildRuntime_def Let_def build_steps_byID m\<close>)
qed

lemma replay_ok_setStep:
  assumes "replay_ok s" "dag_byID (ws_dag s) \<noteq> None" "lookupID (ws_dag s) stepID = Some i"
    and "ss_StepID x = ss_StepID (dag_steps (ws_dag s) ! i)" "ss_TaskName x = ss_TaskName (dag_steps (ws_dag s) ! i)"
  shows "replay_ok (setStep s i x)"
proof -
  have "map ss_StepID ((dag_steps (ws_dag s))[i := x]) = map ss_StepID (dag_steps (ws_dag s))"
    using assms(4) by (metis list_update_id map_update)
  moreover have "ss_TaskName ((dag_steps (ws_dag s))[i := x] ! j) = ss_TaskName (dag_steps (ws_dag s) ! j)"
    if "j < length (dag_steps (ws_dag s))" for j using assms(5) that by (cases "i = j") simp_all
  ultimately show ?thesis using assms(1,2) by (simp add: replay_ok_def named_steps_def)
qed

lemma replay_ok_meta:
  "replay_ok s \<Longrightarrow> ws_Definition s' = ws_Definition s \<Longrightarrow> ws_StepOrder s' = ws_StepOrder s \<Longrightarrow>
     dag_steps (ws_dag s') = dag_steps (ws_dag s) \<Longrightarrow> dag_byID (ws_dag s') = dag_byID (ws_dag s) \<Longrightarrow> replay_ok s'"
  by (simp add: replay_ok_def named_steps_def)

lemma ensureRuntime_replay_ok:
  assumes "replay_ok s"
  shows "replay_ok (ensureRuntime s)" "dag_byID (ws_dag (ensureRuntime s)) \<noteq> None"
    "ws_WorkflowID (ensureRuntime s) = ws_WorkflowID s"
  using assms RebuildRuntime_replay_ok [of s]
  by (auto simp: ensureRuntime_def replay_ok_def RebuildRuntime_def Let_def build_steps_byID)

text \<open>Every record keeps \<open>replay_ok\<close>; a state with a workflow id has its runtime structure.\<close>

definition replay_inv :: "string \<Rightarrow> wf_state \<Rightarrow> bool" where
  "replay_inv w s \<longleftrightarrow> replay_ok s \<and> (ws_WorkflowID s \<noteq> '''' \<longrightarrow> ws_WorkflowID s = w \<and> dag_byID (ws_dag s) \<noteq> None)"

lemma replay_inv_setStep:
  assumes "replay_inv w s" "lookupID (ws_dag (ensureRuntime s)) stepID = Some i"
    and "ss_StepID x = ss_StepID (dag_steps (ws_dag (ensureRuntime s)) ! i)"
      "ss_TaskName x = ss_TaskName (dag_steps (ws_dag (ensureRuntime s)) ! i)"
    and "ws_Definition s' = ws_Definition (ensureRuntime s)" "ws_StepOrder s' = ws_StepOrder (ensureRuntime s)"
      "dag_steps (ws_dag s') = (dag_steps (ws_dag (ensureRuntime s)))[i := x]"
      "dag_byID (ws_dag s') = dag_byID (ws_dag (ensureRuntime s))" "ws_WorkflowID s' = ws_WorkflowID s"
  shows "replay_inv w s'"
proof -
  have ok: "replay_ok s" using assms(1) by (simp add: replay_inv_def)
  note e = ensureRuntime_replay_ok [OF ok]
  from replay_ok_meta [OF replay_ok_setStep [OF e(1,2) assms(2-4)], of s'] assms(5-9) e(2)
  show ?thesis using assms(1) by (simp add: replay_inv_def)
qed

lemma replay_inv_ensure: "replay_inv w s \<Longrightarrow> replay_inv w (ensureRuntime s)"
  using ensureRuntime_replay_ok [of s] by (simp add: replay_inv_def)

lemma setStep_WorkflowID [simp]: "ws_WorkflowID (setStep s i x) = ws_WorkflowID s"
  by (simp add: setStep_def)

lemma SetStep_replay_inv:
  assumes "replay_inv w s"
  shows "replay_inv w (fst (SetStepScheduled s a b c d e f))" "replay_inv w (fst (SetStepStarted s a b f))"
    "replay_inv w (fst (SetStepSucceeded s a b g h f l))" "replay_inv w (fst (SetStepFailed s a b k False f l))"
proof -
  note i = replay_inv_ensure [OF assms]
  have id: "ws_WorkflowID (ensureRuntime s) = ws_WorkflowID s"
    using assms ensureRuntime_replay_ok(3) by (simp add: replay_inv_def)
  have plain: "replay_inv w ((setStep (ensureRuntime s) i x)\<lparr>ws_UpdatedAtMs := t\<rparr>)"
    "dag_steps dg = (dag_steps (ws_dag (ensureRuntime s)))[i := x] \<Longrightarrow> dag_byID dg = dag_byID (ws_dag (ensureRuntime s)) \<Longrightarrow>
     replay_inv w ((setStep (ensureRuntime s) i x)\<lparr>ws_UpdatedAtMs := t, ws_dag := dg\<rparr>)"
    if "lookupID (ws_dag (ensureRuntime s)) a = Some i"
      "ss_StepID x = ss_StepID (dag_steps (ws_dag (ensureRuntime s)) ! i)"
      "ss_TaskName x = ss_TaskName (dag_steps (ws_dag (ensureRuntime s)) ! i)" for i x t dg
    by (rule replay_inv_setStep [OF assms that]; simp add: id)+
  show "replay_inv w (fst (SetStepScheduled s a b c d e f))" "replay_inv w (fst (SetStepStarted s a b f))"
    "replay_inv w (fst (SetStepSucceeded s a b g h f l))" "replay_inv w (fst (SetStepFailed s a b k False f l))"
    using i by (auto simp: SetStepScheduled_def SetStepStarted_def SetStepSucceeded_def SetStepFailed_def
        Let_def split: option.split intro: plain)
qed


lemma parsed_definition:
  assumes "ParseDefinition u data = Inr def"
  shows "valid_definition def" "normalizeDefinition def = def"
proof -
  from assms obtain d ord where d: "ValidateDefinition (applyDefaults d) = Inr ()"
      "topologicalStepDefinitions (def_Steps (applyDefaults d)) = Inr ord" "def = (applyDefaults d)\<lparr>def_Steps := ord\<rparr>"
    by (auto simp: ParseDefinition_def Let_def split: sum.splits)
  then have "normalizeDefinition (applyDefaults d) = def" by (simp add: normalizeDefinition_def)
  with normalize_normalize [of "applyDefaults d"] d(1) show "valid_definition def" "normalizeDefinition def = def"
    using ValidateDefinition_iff by auto
qed

lemma NewState_replay_inv:
  assumes "valid_definition def"
  shows "replay_inv w ((NewState w def t)\<lparr>ws_IdempotencyKey := k, ws_IdempotencyFingerprint := f\<rparr>)"
proof -
  have "wf_inv (NewState w def t)" using assms by (rule wf_inv_NewState)
  then have "replay_ok (NewState w def t)" "dag_byID (ws_dag (NewState w def t)) \<noteq> None"
    using state_ok_runtime(3) [of "NewState w def t"]
    by (auto simp: wf_inv_def state_ok_def replay_ok_def valid_definition_def dag_ok_def)
  then have "replay_ok ((NewState w def t)\<lparr>ws_IdempotencyKey := k, ws_IdempotencyFingerprint := f\<rparr>)"
    using replay_ok_meta by simp
  then show ?thesis using \<open>dag_byID _ \<noteq> None\<close> by (simp add: replay_inv_def) (simp add: NewState_def Let_def)
qed

lemma apply_replay_inv:
  assumes "replay_inv w s" "applyWorkflowRecord cd s w rec b = Inr s'"
    and "b \<Longrightarrow> (\<And>p. recordPayload cd rec = Inr p \<Longrightarrow> rr_EventType rec = ''WorkflowStarted'' \<Longrightarrow>
      ep_WorkflowID p = '''' \<or> ep_WorkflowID p = w)"
  shows "replay_inv w s'"
proof -
  from assms(2) obtain p where p: "recordPayload cd rec = Inr p"
    by (auto simp: applyWorkflowRecord_def split: sum.splits)
  show ?thesis
  proof (cases "rr_EventType rec = ''WorkflowStarted''")
    case True
    then have id: "(if b \<and> ep_WorkflowID p \<noteq> '''' then ep_WorkflowID p else w) = w" using assms(3) p by auto
    from assms(2) True p obtain def where def: "ParseDefinition (cd_definition cd) (ep_DefinitionJSON p) = Inr def"
      and s': "s' = (NewState w def (ep_TimestampMs p))\<lparr>ws_IdempotencyKey := ep_IdempotencyKey p,
          ws_IdempotencyFingerprint := ep_IdempotencyFingerprint p\<rparr>"
      unfolding applyWorkflowRecord_def p sum.case Let_def id by (auto split: sum.splits)
    show ?thesis unfolding s' by (rule NewState_replay_inv [OF parsed_definition(1) [OF def]])
  next
    case False
    have ok: "replay_ok s" using assms(1) by (simp add: replay_inv_def)
    have meta: "replay_inv w (s\<lparr>ws_Status := x, ws_ResultJSON := y, ws_ResultRef := z, ws_CompletedAtMs := t, ws_UpdatedAtMs := t\<rparr>)"
      "replay_inv w (s\<lparr>ws_Status := x, ws_Error := z, ws_CompletedAtMs := t, ws_UpdatedAtMs := t\<rparr>)" for x y z t
      using assms(1) replay_ok_meta [OF ok] by (simp_all add: replay_inv_def)
    show ?thesis using assms(1,2) False unfolding applyWorkflowRecord_def p sum.case
      by (auto simp: meta SetStep_replay_inv [OF assms(1)] split: if_splits)
  qed
qed

lemma zero_state_replay_inv: "replay_inv w zero_state"
proof -
  have "topologicalStepDefinitions [] = Inr []" by code_simp
  then show ?thesis by (simp add: replay_inv_def replay_ok_def zero_state_def zero_dag_def zero_definition_def
      normalizeDefinition_def)
qed

lemma CloneState_id:
  assumes "dag_byID (ws_dag s) \<noteq> None"
  shows "CloneState s = s"
proof -
  have "dag_clone (ws_dag s) = ws_dag s" using assms by (auto simp: dag_clone_def)
  then show ?thesis using assms by (auto simp: CloneState_def withRuntime_def Let_def)
qed

lemma iterateRecords_append:
  "iterateRecords f s (xs @ ys, e) =
     (case fold_result f s xs of Inl x \<Rightarrow> Inl x | Inr s' \<Rightarrow> iterateRecords f s' (ys, e))"
  by (simp add: iterateRecords_def fold_result_append split: sum.split)

subsection \<open>Properties\<close>

text \<open>
  Every event payload survives the binary codec: decoding what \<open>MarshalEventPayload\<close> wrote
  gives the payload back (an empty \<open>resolved_args_json\<close> as \<open>nil\<close>), whatever integer widths the
  msgpack decoder chooses.
\<close>

theorem event_payload_roundtrip:
  assumes "msgpack_faithful enc (cd_msgpack cd) (eventPayloadMap p)"
    and "is_i64 (ep_TimestampMs p)" "is_i64 (ep_LatencyMs p)"
  shows "\<exists>data. MarshalEventPayload enc p = Inr data \<and> UnmarshalEventPayload cd data = Inr (normal_payload p)"
proof -
  from assms(1) obtain body m where m: "enc (eventPayloadMap p) = Inr body" "cd_msgpack cd body = Inr m"
      "same_fields (eventPayloadMap p) m" by (auto simp: msgpack_faithful_def)
  have "MarshalEventPayload enc p = Inr (magic @ [KindWorkflowEvent] @ body)"
    by (simp add: MarshalEventPayload_def Marshal_def m(1) KindWorkflowEvent_def)
  moreover have "UnmarshalEventPayload cd (magic @ [KindWorkflowEvent] @ body) = Inr (normal_payload p)"
    using eventPayload_same_fields [OF m(3) assms(2,3)]
    by (simp only: UnmarshalEventPayload_def Unmarshal_def Body_enveloped m(2) sum.case option.case if_True refl)
  ultimately show ?thesis by blast
qed

text \<open>
  C9. Checkpointed recovery equals full recovery: replaying the tail of a log on top of the state
  recovered from its beginning gives exactly the state that replaying the whole log gives, errors
  included, as long as a start event in the tail does not name another workflow.
\<close>

theorem checkpoint_tail_replay:
  assumes "ReplayRawEach cd w (Some (recs, None)) = Inr checkpoint"
    and "\<forall>rec \<in> set tail. rr_EventType rec = ''WorkflowStarted'' \<longrightarrow>
      (\<forall>p. recordPayload cd rec = Inr p \<longrightarrow> ep_WorkflowID p = '''' \<or> ep_WorkflowID p = w)"
  shows "ReplayFromRawEach cd checkpoint (Some (tail, err)) = ReplayRawEach cd w (Some (recs @ tail, err))"
proof -
  let ?f = "\<lambda>s rec. applyWorkflowRecord cd s w rec False" and ?g = "\<lambda>s rec. applyWorkflowRecord cd s w rec True"
  from assms(1) obtain s where s: "fold_result ?f zero_state recs = Inr s" "ws_WorkflowID s \<noteq> ''''"
      "checkpoint = RebuildRuntime s"
    by (auto simp: ReplayRawEach_def iterateRecords_def finishReplay_def split: sum.splits if_splits)
  have "replay_inv w s"
    using s(1) zero_state_replay_inv by (rule fold_result_invariant) (blast intro: apply_replay_inv)
  then have inv: "replay_ok s" "ws_WorkflowID s = w" "dag_byID (ws_dag s) \<noteq> None"
    using s(2) by (auto simp: replay_inv_def)
  have eq: "replay_eq checkpoint s" unfolding s(3) by (rule RebuildRuntime_replay_eq_self [OF inv(1,3)])
  have cl: "CloneState checkpoint = checkpoint" and id: "ws_WorkflowID checkpoint = w"
    using replay_eqE(3,6) [OF eq] inv by (auto intro: CloneState_id)
  have "rel_sum (=) replay_eq (fold_result ?g checkpoint tail) (fold_result ?f s tail)"
    by (rule fold_result_rel [where R = replay_eq, OF eq]) (use assms(2) in \<open>blast intro: apply_replay_eq\<close>)
  then have "bind_result (iterateRecords ?g checkpoint (tail, err)) finishReplay =
      bind_result (iterateRecords ?f s (tail, err)) finishReplay"
    unfolding iterateRecords_def
    by (cases rule: rel_sum.cases)
       (auto simp: finishReplay_def RebuildRuntime_replay_eq replay_eqE(6) split: option.split)
  then show ?thesis by (simp add: ReplayFromRawEach_def ReplayRawEach_def cl id iterateRecords_append s(1))
qed

text \<open>
  C32. A successful replay returns a well-formed state: the definition is valid and sorted, the
  runtime structure matches it (counters, edges, lookup table), the ready queue holds every
  schedulable step, and the state carries the requested workflow id.
\<close>

theorem replay_well_formed:
  assumes "ReplayRawEach cd w it = Inr s"
  shows "state_ok s \<and> queue_complete (ws_dag s) \<and> ws_WorkflowID s = w"
proof -
  let ?f = "\<lambda>s rec. applyWorkflowRecord cd s w rec False"
  from assms obtain recs s0 where s0: "fold_result ?f zero_state recs = Inr s0" "ws_WorkflowID s0 \<noteq> ''''"
      "s = RebuildRuntime s0"
    by (auto simp: ReplayRawEach_def iterateRecords_def finishReplay_def bind_result_Inr_iff
        split: option.splits sum.splits if_splits)
  let ?I = "\<lambda>s. replay_inv w s \<and> (ws_WorkflowID s \<noteq> '''' \<longrightarrow> valid_definition (ws_Definition s))"
  have "?I s0"
    using s0(1)
  proof (rule fold_result_invariant)
    show "?I zero_state" using zero_state_replay_inv by (simp add: zero_state_def)
    fix s rec s' assume I: "?I s" and a: "applyWorkflowRecord cd s w rec False = Inr s'"
    have e: "ws_WorkflowID (ensureRuntime s) \<noteq> '''' \<Longrightarrow> ws_WorkflowID s \<noteq> '''' \<and>
        ws_Definition (ensureRuntime s) = ws_Definition s"
      using I ensureRuntime_replay_ok(3) [of s]
      by (auto simp: replay_inv_def replay_ok_def ensureRuntime_def RebuildRuntime_def Let_def)
    have "ws_WorkflowID s' \<noteq> '''' \<Longrightarrow> valid_definition (ws_Definition s')"
      using a I e normalize_normalize(2) parsed_definition(1)
      by (auto simp: applyWorkflowRecord_def SetStepScheduled_def SetStepStarted_def SetStepSucceeded_def
          SetStepFailed_def NewState_def Let_def split: sum.splits if_splits option.splits)
    then show "?I s'" using I a apply_replay_inv by blast
  qed
  then have "valid_definition (ws_Definition s0)" "ws_WorkflowID s0 = w"
    using s0(2) by (auto simp: replay_inv_def)
  from RebuildRuntime_ok [OF this(1)] this(2) show ?thesis
    by (simp add: s0(3)) (simp add: RebuildRuntime_def Let_def)
qed


subsection \<open>Witnesses\<close>

definition demo_codecs :: wf_codecs where
  "demo_codecs = \<lparr>cd_definition = (\<lambda>_. Inr (zero_definition\<lparr>def_Steps := diamond\<rparr>)),
     cd_msgpack = (\<lambda>_. Inr (eventPayloadMap (zero_payload\<lparr>ep_StepID := ''a'', ep_Attempt := 1\<rparr>))),
     cd_legacy = (\<lambda>_. Inr (zero_payload\<lparr>ep_StepID := ''a'', ep_TaskID := ''t''\<rparr>))\<rparr>"

definition demo_started :: raw_record where
  "demo_started = zero_raw_record\<lparr>rr_EventType := ''WorkflowStarted'', rr_TimestampMs := 5\<rparr>"

definition demo_succeeded :: raw_record where
  "demo_succeeded = zero_raw_record\<lparr>rr_EventType := ''StepSucceeded'', rr_Payload := [123], rr_TimestampMs := 9\<rparr>"

theorem event_payload_roundtrip_witness:
  "\<exists>data. MarshalEventPayload (\<lambda>_. Inr [7]) (zero_payload\<lparr>ep_StepID := ''a'', ep_Attempt := 1\<rparr>) = Inr data \<and>
     UnmarshalEventPayload demo_codecs data = Inr (normal_payload (zero_payload\<lparr>ep_StepID := ''a'', ep_Attempt := 1\<rparr>))"
proof (rule event_payload_roundtrip)
  have "same_value v v" for v by (cases v) (simp_all add: same_value_def)
  then have "same_fields m m" for m by (simp add: same_fields_def option.rel_refl)
  then show "msgpack_faithful (\<lambda>_. Inr [7]) (cd_msgpack demo_codecs)
      (eventPayloadMap (zero_payload\<lparr>ep_StepID := ''a'', ep_Attempt := 1\<rparr>))"
    by (simp add: msgpack_faithful_def demo_codecs_def)
qed (simp_all add: zero_payload_def is_i64_def)

lemma demo_started_replays: "\<exists>c. ReplayRawEach demo_codecs ''w'' (Some ([demo_started], None)) = Inr c"
proof -
  have "map_sum (\<lambda>_. ()) (\<lambda>_. ()) (ReplayRawEach demo_codecs ''w'' (Some ([demo_started], None))) = Inr ()"
    by code_simp
  then show ?thesis by (cases "ReplayRawEach demo_codecs ''w'' (Some ([demo_started], None))") auto
qed

theorem checkpoint_tail_replay_witness:
  "\<exists>c. ReplayRawEach demo_codecs ''w'' (Some ([demo_started], None)) = Inr c \<and>
     ReplayFromRawEach demo_codecs c (Some ([demo_succeeded], None)) =
     ReplayRawEach demo_codecs ''w'' (Some ([demo_started, demo_succeeded], None))"
proof -
  from demo_started_replays obtain c where c: "ReplayRawEach demo_codecs ''w'' (Some ([demo_started], None)) = Inr c"
    by blast
  from checkpoint_tail_replay [OF c, of "[demo_succeeded]" None] c show ?thesis
    by (simp add: demo_succeeded_def)
qed

theorem replay_well_formed_witness:
  "\<exists>c. ReplayRawEach demo_codecs ''w'' (Some ([demo_started], None)) = Inr c \<and> state_ok c \<and> ws_WorkflowID c = ''w''"
  using demo_started_replays replay_well_formed by blast

end
