(* ===== verification/Actor_Model.thy ===== *)
theory Actor_Model
  imports Event_Codec
begin

text \<open>
  \<open>internal/actor/model.go\<close>: the actor state materialised from its log, the sparse encoding of
  actor events, and the three replays: the full one, the one that starts from the latest snapshot,
  and the one that continues from a supplied state. The two Go loop bodies are the same text up
  to their snapshot guards, which are the arguments \<open>skip\<close> and \<open>load\<close> of \<open>applyActorRecord\<close>.

  Arguments of the model: \<open>compact\<close> is \<open>json.Compact\<close> (\<^const>\<open>None\<close> on invalid text), the loader
  resolves snapshot references (\<^const>\<open>None\<close> is a nil loader), and the codecs decode payloads.
\<close>

subsection \<open>State and payload\<close>

datatype actor_status = ACTOR_STATUS_UNSPECIFIED | ACTOR_STATUS_ACTIVE | ACTOR_STATUS_UNAVAILABLE

record actor_state =
  as_ActorID :: string
  as_ClassName :: string
  as_ClassSource :: string
  as_InitArgsJSON :: bytes
  as_Status :: actor_status
  as_OwnerWorkerID :: string
  as_Epoch :: u64
  as_CommandCount :: u64
  as_SubmittedCommandCount :: u64
  as_SnapshotEvery :: u32
  as_SnapshotRef :: string
  as_SnapshotCommandCount :: u64
  as_StateJSON :: bytes
  as_IdempotencyKey :: string
  as_IdempotencyFingerprint :: string
  as_CreatedAtMs :: i64
  as_UpdatedAtMs :: i64

record actor_payload =
  ap_ActorID :: string
  ap_ClassName :: string
  ap_ClassSource :: string
  ap_InitArgsJSON :: bytes
  ap_WorkerID :: string
  ap_Epoch :: u64
  ap_CallID :: string
  ap_CommandSeq :: u64
  ap_MethodName :: string
  ap_ArgsJSON :: bytes
  ap_ResultJSON :: bytes
  ap_StateJSON :: bytes
  ap_SnapshotRef :: string
  ap_SnapshotEvery :: u32
  ap_CommandCount :: u64
  ap_SnapshotCommandCount :: u64
  ap_Error :: string
  ap_IdempotencyKey :: string
  ap_IdempotencyFingerprint :: string
  ap_TimestampMs :: i64

definition zero_actor_state :: actor_state where
  "zero_actor_state = \<lparr>as_ActorID = '''', as_ClassName = '''', as_ClassSource = '''', as_InitArgsJSON = [],
     as_Status = ACTOR_STATUS_UNSPECIFIED, as_OwnerWorkerID = '''', as_Epoch = 0, as_CommandCount = 0,
     as_SubmittedCommandCount = 0, as_SnapshotEvery = 0, as_SnapshotRef = '''', as_SnapshotCommandCount = 0,
     as_StateJSON = [], as_IdempotencyKey = '''', as_IdempotencyFingerprint = '''', as_CreatedAtMs = 0,
     as_UpdatedAtMs = 0\<rparr>"

definition zero_actor_payload :: actor_payload where
  "zero_actor_payload = \<lparr>ap_ActorID = '''', ap_ClassName = '''', ap_ClassSource = '''', ap_InitArgsJSON = [],
     ap_WorkerID = '''', ap_Epoch = 0, ap_CallID = '''', ap_CommandSeq = 0, ap_MethodName = '''', ap_ArgsJSON = [],
     ap_ResultJSON = [], ap_StateJSON = [], ap_SnapshotRef = '''', ap_SnapshotEvery = 0, ap_CommandCount = 0,
     ap_SnapshotCommandCount = 0, ap_Error = '''', ap_IdempotencyKey = '''', ap_IdempotencyFingerprint = '''',
     ap_TimestampMs = 0\<rparr>"

subsection \<open>Encoding\<close>

definition actorPayloadMap :: "actor_payload \<Rightarrow> fields" where
  "actorPayloadMap p =
     (put (ap_TimestampMs p \<noteq> 0) ''timestamp_ms'' (AInt64 (ap_TimestampMs p))
     (put (ap_IdempotencyFingerprint p \<noteq> '''') ''idempotency_fingerprint'' (AString (ap_IdempotencyFingerprint p))
     (put (ap_IdempotencyKey p \<noteq> '''') ''idempotency_key'' (AString (ap_IdempotencyKey p))
     (put (ap_Error p \<noteq> '''') ''error'' (AString (ap_Error p))
     (put (0 < ap_SnapshotCommandCount p) ''snapshot_command_count'' (AUint64 (ap_SnapshotCommandCount p))
     (put (0 < ap_CommandCount p) ''command_count'' (AUint64 (ap_CommandCount p))
     (put (0 < ap_SnapshotEvery p) ''snapshot_every'' (AUint32 (ap_SnapshotEvery p))
     (put (ap_SnapshotRef p \<noteq> '''') ''snapshot_ref'' (AString (ap_SnapshotRef p))
     (put (ap_StateJSON p \<noteq> []) ''state_json_bytes'' (AInt (int (length (ap_StateJSON p))))
     (put (ap_StateJSON p \<noteq> []) ''state_json'' (ABytes (ap_StateJSON p))
     (put (ap_ResultJSON p \<noteq> []) ''result_json_bytes'' (AInt (int (length (ap_ResultJSON p))))
     (put (ap_ResultJSON p \<noteq> []) ''result_json'' (ABytes (ap_ResultJSON p))
     (put (ap_ArgsJSON p \<noteq> []) ''args_json_bytes'' (AInt (int (length (ap_ArgsJSON p))))
     (put (ap_ArgsJSON p \<noteq> []) ''args_json'' (ABytes (ap_ArgsJSON p))
     (put (ap_MethodName p \<noteq> '''') ''method_name'' (AString (ap_MethodName p))
     (put (0 < ap_CommandSeq p) ''command_seq'' (AUint64 (ap_CommandSeq p))
     (put (ap_CallID p \<noteq> '''') ''call_id'' (AString (ap_CallID p))
     (put (0 < ap_Epoch p) ''epoch'' (AUint64 (ap_Epoch p))
     (put (ap_WorkerID p \<noteq> '''') ''worker_id'' (AString (ap_WorkerID p))
     (put (ap_InitArgsJSON p \<noteq> []) ''init_args_json'' (ABytes (ap_InitArgsJSON p))
     (put (ap_ClassSource p \<noteq> '''') ''class_source'' (AString (ap_ClassSource p))
     (put (ap_ClassName p \<noteq> '''') ''class_name'' (AString (ap_ClassName p))
     (put (ap_ActorID p \<noteq> '''') ''actor_id'' (AString (ap_ActorID p))
      Map.empty)))))))))))))))))))))))"

definition actorPayloadFromMap :: "fields \<Rightarrow> actor_payload" where
  "actorPayloadFromMap m =
     \<lparr>ap_ActorID = StringValue (field m ''actor_id''),
      ap_ClassName = StringValue (field m ''class_name''),
      ap_ClassSource = StringValue (field m ''class_source''),
      ap_InitArgsJSON = bytes_of_nilable (BytesValue (field m ''init_args_json'')),
      ap_WorkerID = StringValue (field m ''worker_id''),
      ap_Epoch = Uint64Value (field m ''epoch''),
      ap_CallID = StringValue (field m ''call_id''),
      ap_CommandSeq = Uint64Value (field m ''command_seq''),
      ap_MethodName = StringValue (field m ''method_name''),
      ap_ArgsJSON = bytes_of_nilable (BytesValue (field m ''args_json'')),
      ap_ResultJSON = bytes_of_nilable (BytesValue (field m ''result_json'')),
      ap_StateJSON = bytes_of_nilable (BytesValue (field m ''state_json'')),
      ap_SnapshotRef = StringValue (field m ''snapshot_ref''),
      ap_SnapshotEvery = Uint32Value (field m ''snapshot_every''),
      ap_CommandCount = Uint64Value (field m ''command_count''),
      ap_SnapshotCommandCount = Uint64Value (field m ''snapshot_command_count''),
      ap_Error = StringValue (field m ''error''),
      ap_IdempotencyKey = StringValue (field m ''idempotency_key''),
      ap_IdempotencyFingerprint = StringValue (field m ''idempotency_fingerprint''),
      ap_TimestampMs = Int64Value (field m ''timestamp_ms'')\<rparr>"

record actor_codecs =
  ac_msgpack :: "bytes \<Rightarrow> string + fields"
  ac_legacy :: "bytes \<Rightarrow> string + actor_payload"

definition MarshalActorPayload :: "(fields \<Rightarrow> string + bytes) \<Rightarrow> actor_payload \<Rightarrow> codec_error + bytes" where
  "MarshalActorPayload enc payload = Marshal enc KindActorEvent (actorPayloadMap payload)"

definition UnmarshalActorPayload :: "actor_codecs \<Rightarrow> bytes \<Rightarrow> codec_error + actor_payload" where
  "UnmarshalActorPayload ac data =
     (case Unmarshal (ac_msgpack ac) KindActorEvent data of
        Inl e \<Rightarrow> Inl e
      | Inr (Some m) \<Rightarrow> Inr (actorPayloadFromMap m)
      | Inr None \<Rightarrow> (case ac_legacy ac data of Inl e \<Rightarrow> Inl (JSONError e) | Inr p \<Rightarrow> Inr p))"

subsection \<open>Replay\<close>

datatype actor_error =
    ActorPayloadError codec_error
  | SnapshotLoaderRequired
  | SnapshotLoadError string
  | ActorCreateEventNotFound
  | ActorIteratorRequired
  | ActorIteratorError string

type_synonym loader = "(string \<Rightarrow> string + bytes) option"

definition NormalizeJSON :: "(bytes \<Rightarrow> bytes option) \<Rightarrow> bytes \<Rightarrow> bytes" where
  "NormalizeJSON compact data =
     (if data = [] then [] else case compact data of None \<Rightarrow> [] @ data | Some out \<Rightarrow> out)"

definition NewActorState :: "string \<Rightarrow> string \<Rightarrow> string \<Rightarrow> bytes \<Rightarrow> u32 \<Rightarrow> i64 \<Rightarrow> actor_state" where
  "NewActorState actorID className classSource initArgsJSON snapshotEvery nowMs =
     zero_actor_state\<lparr>as_ActorID := actorID, as_ClassName := className, as_ClassSource := classSource,
       as_InitArgsJSON := [] @ initArgsJSON, as_Status := ACTOR_STATUS_ACTIVE,
       as_SnapshotEvery := (if snapshotEvery = 0 then 25 else snapshotEvery),
       as_CreatedAtMs := nowMs, as_UpdatedAtMs := nowMs\<rparr>"

definition cloneStateForReplay :: "actor_state \<Rightarrow> actor_state" where
  "cloneStateForReplay s = s\<lparr>as_ClassSource := [] @ as_ClassSource s, as_InitArgsJSON := [] @ as_InitArgsJSON s,
     as_StateJSON := [] @ as_StateJSON s\<rparr>"

definition actorRecordPayload :: "actor_codecs \<Rightarrow> raw_record \<Rightarrow> codec_error + actor_payload" where
  "actorRecordPayload ac rec =
     (case (if rr_Payload rec \<noteq> [] then UnmarshalActorPayload ac (rr_Payload rec) else Inr zero_actor_payload) of
        Inl e \<Rightarrow> Inl e
      | Inr p \<Rightarrow> Inr (if ap_TimestampMs p = 0 then p\<lparr>ap_TimestampMs := rr_TimestampMs rec\<rparr> else p))"

definition loadSnapshot :: "loader \<Rightarrow> string \<Rightarrow> actor_error + bytes" where
  "loadSnapshot loader ref =
     (case loader of None \<Rightarrow> Inl SnapshotLoaderRequired
      | Some f \<Rightarrow> (case f ref of Inl e \<Rightarrow> Inl (SnapshotLoadError e) | Inr data \<Rightarrow> Inr data))"

text \<open>The effect of each event type on the state.\<close>

definition applyCreated :: "string \<Rightarrow> actor_payload \<Rightarrow> actor_state \<Rightarrow> actor_state" where
  "applyCreated actorID p state =
     (let s = (if as_ActorID state = ''''
               then NewActorState actorID (ap_ClassName p) (ap_ClassSource p) (ap_InitArgsJSON p)
                      (ap_SnapshotEvery p) (ap_TimestampMs p)
               else state\<lparr>as_ActorID := actorID, as_ClassName := ap_ClassName p,
                      as_ClassSource := ap_ClassSource p, as_InitArgsJSON := [] @ ap_InitArgsJSON p,
                      as_Status := ACTOR_STATUS_ACTIVE, as_SnapshotEvery := ap_SnapshotEvery p,
                      as_CreatedAtMs := (if as_CreatedAtMs state = 0 then ap_TimestampMs p
                                         else as_CreatedAtMs state)\<rparr>)
      in s\<lparr>as_IdempotencyKey := ap_IdempotencyKey p,
           as_IdempotencyFingerprint := ap_IdempotencyFingerprint p\<rparr>)"

definition applyOwnership :: "actor_payload \<Rightarrow> actor_state \<Rightarrow> actor_state" where
  "applyOwnership p s = s\<lparr>as_OwnerWorkerID := ap_WorkerID p, as_Epoch := ap_Epoch p,
     as_UpdatedAtMs := ap_TimestampMs p\<rparr>"

definition applySubmitted :: "actor_payload \<Rightarrow> actor_state \<Rightarrow> actor_state" where
  "applySubmitted p s = s\<lparr>as_SubmittedCommandCount :=
       (if as_SubmittedCommandCount s < ap_CommandSeq p then ap_CommandSeq p else as_SubmittedCommandCount s),
     as_UpdatedAtMs := ap_TimestampMs p\<rparr>"

definition applyCommand :: "actor_payload \<Rightarrow> actor_state \<Rightarrow> actor_state" where
  "applyCommand p s =
     (let count = (if 0 < ap_CommandSeq p then ap_CommandSeq p else ap_CommandCount p)
      in s\<lparr>as_CommandCount := count,
           as_SubmittedCommandCount := (if as_SubmittedCommandCount s < count then count
                                        else as_SubmittedCommandCount s),
           as_OwnerWorkerID := (if ap_WorkerID p \<noteq> '''' then ap_WorkerID p else as_OwnerWorkerID s),
           as_Epoch := (if ap_Epoch p \<noteq> 0 then ap_Epoch p else as_Epoch s),
           as_UpdatedAtMs := ap_TimestampMs p\<rparr>)"

definition applySnapshot :: "string \<Rightarrow> actor_payload \<Rightarrow> actor_state \<Rightarrow> actor_state" where
  "applySnapshot actorID p s =
     s\<lparr>as_ActorID := actorID,
       as_ClassName := (if ap_ClassName p \<noteq> '''' then ap_ClassName p else as_ClassName s),
       as_ClassSource := (if ap_ClassSource p \<noteq> '''' then ap_ClassSource p else as_ClassSource s),
       as_InitArgsJSON := (if ap_InitArgsJSON p \<noteq> [] then [] @ ap_InitArgsJSON p else as_InitArgsJSON s),
       as_SnapshotEvery := (if 0 < ap_SnapshotEvery p then ap_SnapshotEvery p else as_SnapshotEvery s),
       as_Status := ACTOR_STATUS_ACTIVE,
       as_OwnerWorkerID := (if ap_WorkerID p \<noteq> '''' then ap_WorkerID p else as_OwnerWorkerID s),
       as_Epoch := (if ap_Epoch p \<noteq> 0 then ap_Epoch p else as_Epoch s),
       as_SnapshotRef := ap_SnapshotRef p,
       as_SnapshotCommandCount := ap_SnapshotCommandCount p,
       as_UpdatedAtMs := ap_TimestampMs p\<rparr>"

definition skips :: "u64 option \<Rightarrow> actor_payload \<Rightarrow> bool" where
  "skips skip p = (case skip of None \<Rightarrow> False | Some n \<Rightarrow> ap_CommandCount p \<le> n)"

text \<open>
  One record of the replay loop. \<open>skip\<close> is the command count of the loaded snapshot in snapshot
  mode; \<open>load\<close> says whether snapshot events hydrate the state. The counter is the number of
  commands applied.
\<close>

definition applyActorRecord :: "(bytes \<Rightarrow> bytes option) \<Rightarrow> actor_codecs \<Rightarrow> loader \<Rightarrow> string \<Rightarrow>
    u64 option \<Rightarrow> bool \<Rightarrow> actor_state \<times> u64 \<Rightarrow> raw_record \<Rightarrow> actor_error + actor_state \<times> u64" where
  "applyActorRecord compact ac loader actorID skip load = (\<lambda>(state, commands) rec.
     case actorRecordPayload ac rec of
       Inl e \<Rightarrow> Inl (ActorPayloadError e)
     | Inr p \<Rightarrow>
         if rr_EventType rec = ''ActorCreated'' then Inr (applyCreated actorID p state, commands)
         else if rr_EventType rec = ''ActorOwnershipGranted'' then Inr (applyOwnership p state, commands)
         else if rr_EventType rec = ''ActorCommandSubmitted'' then Inr (applySubmitted p state, commands)
         else if rr_EventType rec = ''ActorCommandApplied'' then
           (if skips skip p then Inr (state, commands)
            else Inr ((applyCommand p state)\<lparr>as_StateJSON := NormalizeJSON compact (ap_StateJSON p)\<rparr>, commands + 1))
         else if rr_EventType rec = ''ActorCommandFailed'' then
           (if skips skip p then Inr (state, commands) else Inr (applyCommand p state, commands + 1))
         else if rr_EventType rec = ''ActorSnapshotCreated'' then
           (let s = applySnapshot actorID p state in
            if load \<and> ap_SnapshotRef p \<noteq> '''' then
              (case loadSnapshot loader (ap_SnapshotRef p) of
                 Inl e \<Rightarrow> Inl e
               | Inr data \<Rightarrow> Inr (s\<lparr>as_StateJSON := NormalizeJSON compact data\<rparr>, commands))
            else Inr (s, commands))
         else Inr (state, commands))"

text \<open>
  The first pass of snapshot mode: hydrate from every snapshot event with a reference, the last
  one wins. It decodes the payload even when it is empty, and keeps the raw payload timestamp.
\<close>

definition scanSnapshot :: "(bytes \<Rightarrow> bytes option) \<Rightarrow> actor_codecs \<Rightarrow> loader \<Rightarrow> string \<Rightarrow>
    actor_state \<times> u64 \<Rightarrow> raw_record \<Rightarrow> actor_error + actor_state \<times> u64" where
  "scanSnapshot compact ac loader actorID = (\<lambda>(state, count) rec.
     if rr_EventType rec \<noteq> ''ActorSnapshotCreated'' then Inr (state, count)
     else
       (case UnmarshalActorPayload ac (rr_Payload rec) of
          Inl e \<Rightarrow> Inl (ActorPayloadError e)
        | Inr p \<Rightarrow>
            if ap_SnapshotRef p = '''' then Inr (state, count)
            else
              (case loadSnapshot loader (ap_SnapshotRef p) of
                 Inl e \<Rightarrow> Inl e
               | Inr data \<Rightarrow>
                   Inr (state\<lparr>as_ActorID := actorID, as_ClassName := ap_ClassName p,
                         as_ClassSource := ap_ClassSource p, as_InitArgsJSON := [] @ ap_InitArgsJSON p,
                         as_Status := ACTOR_STATUS_ACTIVE, as_OwnerWorkerID := ap_WorkerID p,
                         as_Epoch := ap_Epoch p, as_StateJSON := NormalizeJSON compact data,
                         as_SnapshotRef := ap_SnapshotRef p,
                         as_SnapshotCommandCount := ap_SnapshotCommandCount p,
                         as_CommandCount := ap_SnapshotCommandCount p,
                         as_SubmittedCommandCount := ap_SnapshotCommandCount p,
                         as_SnapshotEvery := ap_SnapshotEvery p, as_UpdatedAtMs := ap_TimestampMs p\<rparr>,
                        ap_SnapshotCommandCount p))))"

type_synonym actor_iterator = "(raw_record list \<times> string option) option"

definition iterateActor :: "('s \<Rightarrow> raw_record \<Rightarrow> actor_error + 's) \<Rightarrow> 's \<Rightarrow> raw_record list \<times> string option \<Rightarrow>
    actor_error + 's" where
  "iterateActor emit s it =
     (case fold_result emit s (fst it) of
        Inl e \<Rightarrow> Inl e
      | Inr s' \<Rightarrow> (case snd it of None \<Rightarrow> Inr s' | Some e \<Rightarrow> Inl (ActorIteratorError e)))"

record replay_result =
  re_State :: actor_state
  re_FullReplayCommands :: u64
  re_SnapshotReplayCommands :: u64

definition replayEach :: "(bytes \<Rightarrow> bytes option) \<Rightarrow> actor_codecs \<Rightarrow> string \<Rightarrow> actor_iterator \<Rightarrow> loader \<Rightarrow>
    bool \<Rightarrow> actor_error + replay_result" where
  "replayEach compact ac actorID it loader useSnapshot =
     (case it of
        None \<Rightarrow> Inl ActorIteratorRequired
      | Some i \<Rightarrow>
          (case (if useSnapshot then iterateActor (scanSnapshot compact ac loader actorID) (zero_actor_state, 0) i
                 else Inr (zero_actor_state, 0)) of
             Inl e \<Rightarrow> Inl e
           | Inr (state, snapshotCommandCount) \<Rightarrow>
               (case iterateActor (applyActorRecord compact ac loader actorID
                       (if useSnapshot then Some snapshotCommandCount else None) useSnapshot) (state, 0) i of
                  Inl e \<Rightarrow> Inl e
                | Inr (state, commands) \<Rightarrow>
                    if as_ActorID state = '''' then Inl ActorCreateEventNotFound
                    else if useSnapshot then
                      Inr \<lparr>re_State = state, re_FullReplayCommands = 0, re_SnapshotReplayCommands = commands\<rparr>
                    else
                      Inr \<lparr>re_State = state, re_FullReplayCommands = commands, re_SnapshotReplayCommands = 0\<rparr>)))"

definition ActorReplayRawEach :: "(bytes \<Rightarrow> bytes option) \<Rightarrow> actor_codecs \<Rightarrow> string \<Rightarrow> actor_iterator \<Rightarrow> loader \<Rightarrow>
    actor_error + replay_result" where
  "ActorReplayRawEach compact ac actorID it loader =
     (case replayEach compact ac actorID it loader False of
        Inl e \<Rightarrow>
          if e \<noteq> ActorCreateEventNotFound then Inl e
          else
            (case replayEach compact ac actorID it loader True of
               Inl e \<Rightarrow> Inl e
             | Inr snap \<Rightarrow>
                 Inr \<lparr>re_State = re_State snap,
                   re_FullReplayCommands = (if 0 < as_SnapshotCommandCount (re_State snap)
                     then as_CommandCount (re_State snap) else 0),
                   re_SnapshotReplayCommands = re_SnapshotReplayCommands snap\<rparr>)
      | Inr full \<Rightarrow>
          (case replayEach compact ac actorID it loader True of
             Inl e \<Rightarrow> Inl e
           | Inr snap \<Rightarrow>
               Inr \<lparr>re_State = re_State snap,
                 re_FullReplayCommands = (if 0 < as_SnapshotCommandCount (re_State snap) \<and>
                     re_FullReplayCommands full \<le> re_SnapshotReplayCommands snap
                   then as_CommandCount (re_State snap) else re_FullReplayCommands full),
                 re_SnapshotReplayCommands = re_SnapshotReplayCommands snap\<rparr>))"

definition ReplayFromStateRawEach :: "(bytes \<Rightarrow> bytes option) \<Rightarrow> actor_codecs \<Rightarrow> string \<Rightarrow> actor_state \<Rightarrow>
    actor_iterator \<Rightarrow> loader \<Rightarrow> actor_error + replay_result" where
  "ReplayFromStateRawEach compact ac actorID initial it loader =
     (let state0 = cloneStateForReplay initial;
          state1 = (if as_ActorID state0 = '''' then state0\<lparr>as_ActorID := actorID\<rparr> else state0)
      in case (case it of None \<Rightarrow> Inr (state1, 0)
               | Some i \<Rightarrow> iterateActor (applyActorRecord compact ac loader actorID None True) (state1, 0) i) of
           Inl e \<Rightarrow> Inl e
         | Inr (state, commands) \<Rightarrow>
             if as_ActorID state = '''' then Inl ActorCreateEventNotFound
             else Inr \<lparr>re_State = state, re_FullReplayCommands = 0, re_SnapshotReplayCommands = commands\<rparr>)"

definition ActorConsistent :: "(bytes \<Rightarrow> bytes option) \<Rightarrow> actor_state \<Rightarrow> actor_state \<Rightarrow> bool" where
  "ActorConsistent compact a b \<longleftrightarrow>
     as_ActorID a = as_ActorID b \<and> as_ClassName a = as_ClassName b \<and> as_Status a = as_Status b \<and>
     as_OwnerWorkerID a = as_OwnerWorkerID b \<and> as_Epoch a = as_Epoch b \<and>
     as_CommandCount a = as_CommandCount b \<and> as_SubmittedCommandCount a = as_SubmittedCommandCount b \<and>
     as_SnapshotRef a = as_SnapshotRef b \<and> as_SnapshotCommandCount a = as_SnapshotCommandCount b \<and>
     NormalizeJSON compact (as_StateJSON a) = NormalizeJSON compact (as_StateJSON b)"

lemma cloneStateForReplay_id [clone_simps, simp]: "cloneStateForReplay s = s"
  by (simp add: cloneStateForReplay_def)

subsection \<open>Payload round trip\<close>

lemma actorPayload_same_fields:
  assumes s: "same_fields (actorPayloadMap p) m" and "is_i64 (ap_TimestampMs p)"
  shows "actorPayloadFromMap m = p"
proof -
  note [simp] = actorPayloadMap_def word_gt_0
  have str: "StringValue (field m ''actor_id'') = ap_ActorID p"
    "StringValue (field m ''class_name'') = ap_ClassName p"
    "StringValue (field m ''class_source'') = ap_ClassSource p"
    "StringValue (field m ''worker_id'') = ap_WorkerID p" "StringValue (field m ''call_id'') = ap_CallID p"
    "StringValue (field m ''method_name'') = ap_MethodName p"
    "StringValue (field m ''snapshot_ref'') = ap_SnapshotRef p" "StringValue (field m ''error'') = ap_Error p"
    "StringValue (field m ''idempotency_key'') = ap_IdempotencyKey p"
    "StringValue (field m ''idempotency_fingerprint'') = ap_IdempotencyFingerprint p"
    by (rule read_string [OF s]; simp)+
  have byt: "BytesValue (field m ''init_args_json'') = (if ap_InitArgsJSON p = [] then None else Some (ap_InitArgsJSON p))"
    "BytesValue (field m ''args_json'') = (if ap_ArgsJSON p = [] then None else Some (ap_ArgsJSON p))"
    "BytesValue (field m ''result_json'') = (if ap_ResultJSON p = [] then None else Some (ap_ResultJSON p))"
    "BytesValue (field m ''state_json'') = (if ap_StateJSON p = [] then None else Some (ap_StateJSON p))"
    by (rule read_bytes [OF s]; simp)+
  have num: "Uint64Value (field m ''epoch'') = ap_Epoch p" "Uint64Value (field m ''command_seq'') = ap_CommandSeq p"
    "Uint64Value (field m ''command_count'') = ap_CommandCount p"
    "Uint64Value (field m ''snapshot_command_count'') = ap_SnapshotCommandCount p"
    by (rule read_uint64 [OF s]; simp)+
  have num': "Uint32Value (field m ''snapshot_every'') = ap_SnapshotEvery p"
    "Int64Value (field m ''timestamp_ms'') = ap_TimestampMs p"
    using assms(2) by (auto intro!: read_int64 [OF s] read_uint32 [OF s])
  show ?thesis
    by (simp add: actorPayloadFromMap_def str byt num num' bytes_of_nilable_def del: actorPayloadMap_def)
qed

subsection \<open>Snapshot-assisted replay\<close>

definition is_command :: "raw_record \<Rightarrow> bool" where
  "is_command rec \<longleftrightarrow> rr_EventType rec = ''ActorCommandApplied'' \<or> rr_EventType rec = ''ActorCommandFailed''"

definition command_count :: "actor_payload \<Rightarrow> u64" where
  "command_count p = (if 0 < ap_CommandSeq p then ap_CommandSeq p else ap_CommandCount p)"

text \<open>What \<open>Consistent\<close> compares, with the state bytes themselves.\<close>

definition same_actor :: "actor_state \<Rightarrow> actor_state \<Rightarrow> bool" where
  "same_actor a b \<longleftrightarrow>
     as_ActorID a = as_ActorID b \<and> as_ClassName a = as_ClassName b \<and> as_Status a = as_Status b \<and>
     as_OwnerWorkerID a = as_OwnerWorkerID b \<and> as_Epoch a = as_Epoch b \<and>
     as_CommandCount a = as_CommandCount b \<and> as_SubmittedCommandCount a = as_SubmittedCommandCount b \<and>
     as_SnapshotRef a = as_SnapshotRef b \<and> as_SnapshotCommandCount a = as_SnapshotCommandCount b \<and>
     as_StateJSON a = as_StateJSON b"

lemma same_actor_consistent: "same_actor a b \<Longrightarrow> ActorConsistent compact a b"
  by (simp add: same_actor_def ActorConsistent_def)

lemmas actor_effects = applyCreated_def applyOwnership_def applySubmitted_def applyCommand_def applySnapshot_def
  NewActorState_def Let_def

lemma applySubmitted_max:
  "applySubmitted p s = s\<lparr>as_SubmittedCommandCount := max (as_SubmittedCommandCount s) (ap_CommandSeq p),
     as_UpdatedAtMs := ap_TimestampMs p\<rparr>"
  by (auto simp: applySubmitted_def max_def)

lemma applyActorRecord_event:
  assumes "actorRecordPayload ac rec = Inr p"
  shows "rr_EventType rec = ''ActorCreated'' \<Longrightarrow>
      applyActorRecord compact ac loader actorID skip load (s, c) rec = Inr (applyCreated actorID p s, c)"
    "rr_EventType rec = ''ActorOwnershipGranted'' \<Longrightarrow>
      applyActorRecord compact ac loader actorID skip load (s, c) rec = Inr (applyOwnership p s, c)"
    "rr_EventType rec = ''ActorCommandSubmitted'' \<Longrightarrow>
      applyActorRecord compact ac loader actorID skip load (s, c) rec = Inr (applySubmitted p s, c)"
    "rr_EventType rec = ''ActorCommandApplied'' \<Longrightarrow>
      applyActorRecord compact ac loader actorID skip load (s, c) rec = (if skips skip p then Inr (s, c)
        else Inr ((applyCommand p s)\<lparr>as_StateJSON := NormalizeJSON compact (ap_StateJSON p)\<rparr>, c + 1))"
    "rr_EventType rec = ''ActorCommandFailed'' \<Longrightarrow>
      applyActorRecord compact ac loader actorID skip load (s, c) rec =
        (if skips skip p then Inr (s, c) else Inr (applyCommand p s, c + 1))"
    "rr_EventType rec = ''ActorSnapshotCreated'' \<Longrightarrow>
      applyActorRecord compact ac loader actorID skip load (s, c) rec =
        (if load \<and> ap_SnapshotRef p \<noteq> '''' then
           (case loadSnapshot loader (ap_SnapshotRef p) of Inl e \<Rightarrow> Inl e
            | Inr data \<Rightarrow> Inr ((applySnapshot actorID p s)\<lparr>as_StateJSON := NormalizeJSON compact data\<rparr>, c))
         else Inr (applySnapshot actorID p s, c))"
    "rr_EventType rec \<notin> {''ActorCreated'', ''ActorOwnershipGranted'', ''ActorCommandSubmitted'',
        ''ActorCommandApplied'', ''ActorCommandFailed'', ''ActorSnapshotCreated''} \<Longrightarrow>
      applyActorRecord compact ac loader actorID skip load (s, c) rec = Inr (s, c)"
  by (simp_all add: applyActorRecord_def assms Let_def)

lemma applyActorRecord_payload:
  "applyActorRecord compact ac loader actorID skip load (s, c) rec = Inr r \<Longrightarrow>
     \<exists>p. actorRecordPayload ac rec = Inr p"
  by (cases "actorRecordPayload ac rec") (simp_all add: applyActorRecord_def)

lemma actor_event_cases:
  obtains (created) "rr_EventType rec = ''ActorCreated''"
  | (ownership) "rr_EventType rec = ''ActorOwnershipGranted''"
  | (submitted) "rr_EventType rec = ''ActorCommandSubmitted''"
  | (applied) "rr_EventType rec = ''ActorCommandApplied''"
  | (failed) "rr_EventType rec = ''ActorCommandFailed''"
  | (snapshot) "rr_EventType rec = ''ActorSnapshotCreated''"
  | (other) "rr_EventType rec \<notin> {''ActorCreated'', ''ActorOwnershipGranted'', ''ActorCommandSubmitted'',
        ''ActorCommandApplied'', ''ActorCommandFailed'', ''ActorSnapshotCreated''}"
  by blast

text \<open>After the snapshot both replays do the same to the compared fields.\<close>

lemma post_snapshot_step:
  assumes "same_actor s t" "as_ActorID s \<noteq> ''''" "actorID \<noteq> ''''"
    and "applyActorRecord compact ac loader actorID (Some n) True (s, c) rec = Inr (s1, c1)"
    and "applyActorRecord compact ac loader actorID None False (t, d) rec = Inr (t1, d1)"
    and "rr_EventType rec \<noteq> ''ActorSnapshotCreated''"
    and "is_command rec \<Longrightarrow> \<forall>p. actorRecordPayload ac rec = Inr p \<longrightarrow> n < ap_CommandCount p"
  shows "same_actor s1 t1 \<and> as_ActorID s1 \<noteq> ''''"
proof -
  from applyActorRecord_payload [OF assms(4)] obtain p where p: "actorRecordPayload ac rec = Inr p" by blast
  note ev = applyActorRecord_event [OF p]
  have sk: "is_command rec \<Longrightarrow> \<not> skips (Some n) p" using assms(7) p by (simp add: skips_def not_le)
  have id: "as_ActorID t \<noteq> ''''" using assms(1,2) by (simp add: same_actor_def)
  show ?thesis
  proof (cases rule: actor_event_cases [of rec])
    case created
    then show ?thesis using assms(1-5) id by (simp add: ev(1)) (auto simp: same_actor_def applyCreated_def)
  next
    case ownership
    then show ?thesis using assms(1-5) by (simp add: ev(2)) (auto simp: same_actor_def applyOwnership_def)
  next
    case submitted
    then show ?thesis using assms(1-5) by (simp add: ev(3)) (auto simp: same_actor_def applySubmitted_def)
  next
    case applied
    then have "\<not> skips (Some n) p" "\<not> skips None p" using sk by (simp_all add: is_command_def skips_def)
    then show ?thesis using applied assms(1-5) by (simp add: ev(4)) (auto simp: same_actor_def applyCommand_def Let_def)
  next
    case failed
    then have "\<not> skips (Some n) p" "\<not> skips None p" using sk by (simp_all add: is_command_def skips_def)
    then show ?thesis using failed assms(1-5) by (simp add: ev(5)) (auto simp: same_actor_def applyCommand_def Let_def)
  next
    case snapshot
    then show ?thesis using assms(6) by simp
  next
    case other
    then show ?thesis using assms(1-5) by (simp only: ev(7) [OF other]) simp
  qed
qed

text \<open>Before the snapshot the snapshot replay skips commands, and its counters run ahead.\<close>

definition ahead :: "string \<Rightarrow> u64 \<Rightarrow> actor_state \<Rightarrow> actor_state \<Rightarrow> bool" where
  "ahead actorID n s t \<longleftrightarrow> as_ActorID s = actorID \<and> as_ActorID t = actorID \<and> as_ClassName s = as_ClassName t \<and>
     as_CommandCount s = n \<and> as_CommandCount t \<le> as_SubmittedCommandCount t \<and>
     as_SubmittedCommandCount s = max n (as_SubmittedCommandCount t)"

lemma pre_snapshot_step:
  assumes "ahead actorID n s t" "actorID \<noteq> ''''"
    and "applyActorRecord compact ac loader actorID (Some n) True (s, c) rec = Inr (s1, c1)"
    and "applyActorRecord compact ac loader actorID None False (t, d) rec = Inr (t1, d1)"
    and "is_command rec \<Longrightarrow> \<forall>p. actorRecordPayload ac rec = Inr p \<longrightarrow> ap_CommandCount p \<le> n \<and> command_count p \<le> n"
  shows "ahead actorID n s1 t1"
proof -
  from applyActorRecord_payload [OF assms(3)] obtain p where p: "actorRecordPayload ac rec = Inr p" by blast
  note ev = applyActorRecord_event [OF p]
  have sk: "is_command rec \<Longrightarrow> ap_CommandCount p \<le> n \<and> command_count p \<le> n" using assms(5) p by blast
  have cmd: "ahead actorID n s (applyCommand p t)" if "is_command rec"
    using assms(1) sk [OF that] by (auto simp: ahead_def command_count_def applyCommand_def Let_def max_def)
  show ?thesis
  proof (cases rule: actor_event_cases [of rec])
    case created
    then show ?thesis using assms(1-4) by (simp add: ev(1)) (auto simp: ahead_def applyCreated_def)
  next
    case ownership
    then show ?thesis using assms(1-4) by (simp add: ev(2)) (auto simp: ahead_def applyOwnership_def)
  next
    case submitted
    then show ?thesis using assms(1-4) by (simp add: ev(3)) (auto simp: ahead_def applySubmitted_max max.assoc max.coboundedI1)
  next
    case applied
    then have k: "skips (Some n) p" "\<not> skips None p" "is_command rec" using sk by (simp_all add: is_command_def skips_def)
    then show ?thesis using applied assms(3,4) cmd [OF k(3)] by (simp add: ev(4)) (auto simp: ahead_def)
  next
    case failed
    then have k: "skips (Some n) p" "\<not> skips None p" "is_command rec" using sk by (simp_all add: is_command_def skips_def)
    then show ?thesis using failed assms(3,4) cmd [OF k(3)] by (simp add: ev(5))
  next
    case snapshot
    then show ?thesis using assms(1-4)
      by (simp add: ev(6) split: sum.splits if_splits) (auto simp: ahead_def applySnapshot_def)
  next
    case other
    then show ?thesis using assms(1-4) by (simp only: ev(7) [OF other]) simp
  qed
qed


lemma fold_result_Inr_append:
  "fold_result f s (xs @ ys) = Inr u \<longleftrightarrow> (\<exists>t. fold_result f s xs = Inr t \<and> fold_result f t ys = Inr u)"
  by (auto simp: fold_result_append split: sum.split)

lemma fold_result_Inr_Cons:
  "fold_result f s (x # ys) = Inr u \<longleftrightarrow> (\<exists>t. f s x = Inr t \<and> fold_result f t ys = Inr u)"
  by (auto split: sum.split)

lemma scan_no_snapshot:
  "\<forall>rec \<in> set recs. rr_EventType rec \<noteq> ''ActorSnapshotCreated'' \<Longrightarrow>
     fold_result (scanSnapshot compact ac loader actorID) sc recs = Inr sc"
  by (induction recs) (auto simp: scanSnapshot_def split: prod.split)

lemma recordPayload_snapshot:
  assumes "actorRecordPayload ac rec = Inr q" "ap_SnapshotRef q \<noteq> ''''"
  obtains q0 where "UnmarshalActorPayload ac (rr_Payload rec) = Inr q0" "ap_SnapshotRef q0 = ap_SnapshotRef q"
    "ap_SnapshotCommandCount q0 = ap_SnapshotCommandCount q"
proof (cases "UnmarshalActorPayload ac (rr_Payload rec)")
  case (Inl e)
  then show ?thesis using assms
    by (auto simp: actorRecordPayload_def zero_actor_payload_def split: if_splits)
next
  case (Inr q0)
  then have "rr_Payload rec \<noteq> []" using assms
    by (auto simp: actorRecordPayload_def zero_actor_payload_def split: if_splits)
  then show ?thesis using that [OF Inr] Inr assms(1) by (auto simp: actorRecordPayload_def split: if_splits)
qed

lemma scan_latest_snapshot:
  assumes "fold_result (scanSnapshot compact ac loader actorID) sc (pre @ snap # post) = Inr (s0, n)"
    and "\<forall>rec \<in> set post. rr_EventType rec \<noteq> ''ActorSnapshotCreated''"
    and "rr_EventType snap = ''ActorSnapshotCreated''" "actorRecordPayload ac snap = Inr q" "ap_SnapshotRef q \<noteq> ''''"
  shows "n = ap_SnapshotCommandCount q" "as_ActorID s0 = actorID" "as_CommandCount s0 = n"
    "as_SubmittedCommandCount s0 = n"
proof -
  from recordPayload_snapshot [OF assms(4,5)] obtain q0 where q0: "UnmarshalActorPayload ac (rr_Payload snap) = Inr q0"
    "ap_SnapshotRef q0 = ap_SnapshotRef q" "ap_SnapshotCommandCount q0 = ap_SnapshotCommandCount q" by blast
  from assms(1) obtain t where "scanSnapshot compact ac loader actorID t snap = Inr (s0, n)"
    unfolding fold_result_Inr_append fold_result_Inr_Cons scan_no_snapshot [OF assms(2)] by auto
  then show "n = ap_SnapshotCommandCount q" "as_ActorID s0 = actorID" "as_CommandCount s0 = n"
    "as_SubmittedCommandCount s0 = n"
    using assms(3,5) q0 by (auto simp: scanSnapshot_def split: prod.splits sum.splits)
qed

lemma replayEach_full:
  "replayEach compact ac actorID (Some (recs, None)) loader False = Inr r \<Longrightarrow>
     \<exists>c. fold_result (applyActorRecord compact ac loader actorID None False) (zero_actor_state, 0) recs = Inr (re_State r, c)"
  by (auto simp: replayEach_def iterateActor_def split: sum.splits if_splits)

lemma replayEach_snapshot:
  "replayEach compact ac actorID (Some (recs, None)) loader True = Inr r \<Longrightarrow>
     \<exists>s0 n c. fold_result (scanSnapshot compact ac loader actorID) (zero_actor_state, 0) recs = Inr (s0, n) \<and>
       fold_result (applyActorRecord compact ac loader actorID (Some n) True) (s0, 0) recs = Inr (re_State r, c)"
  by (auto simp: replayEach_def iterateActor_def split: sum.splits if_splits)

subsection \<open>Properties\<close>

text \<open>
  Every actor event payload survives the binary codec, whatever integer widths the msgpack
  decoder chooses.
\<close>

theorem actor_payload_roundtrip:
  assumes "msgpack_faithful enc (ac_msgpack ac) (actorPayloadMap p)" "is_i64 (ap_TimestampMs p)"
  shows "\<exists>data. MarshalActorPayload enc p = Inr data \<and> UnmarshalActorPayload ac data = Inr p"
proof -
  from assms(1) obtain body m where m: "enc (actorPayloadMap p) = Inr body" "ac_msgpack ac body = Inr m"
      "same_fields (actorPayloadMap p) m" by (auto simp: msgpack_faithful_def)
  have "MarshalActorPayload enc p = Inr (magic @ [KindActorEvent] @ body)"
    by (simp add: MarshalActorPayload_def Marshal_def m(1) KindActorEvent_def)
  moreover have "UnmarshalActorPayload ac (magic @ [KindActorEvent] @ body) = Inr p"
    using actorPayload_same_fields [OF m(3) assms(2)]
    by (simp only: UnmarshalActorPayload_def Unmarshal_def Body_enveloped m(2) sum.case option.case if_True refl)
  ultimately show ?thesis by blast
qed

text \<open>
  C18. Recovery from the latest snapshot agrees with replaying the whole log. On a log that starts
  with the create event, whose latest snapshot stores the state and command count reached before
  it together with its owner and epoch, and whose commands are numbered accordingly, the
  snapshot-assisted replay and the full replay return states that \<open>Consistent\<close> accepts.
\<close>

theorem snapshot_replay_agrees:
  assumes id: "actorID \<noteq> ''''" and log: "recs = created # pre @ snap # post"
    and created: "rr_EventType created = ''ActorCreated''"
    and snap: "rr_EventType snap = ''ActorSnapshotCreated''" "actorRecordPayload ac snap = Inr q"
      "ap_SnapshotRef q \<noteq> ''''" "ap_WorkerID q \<noteq> ''''" "ap_Epoch q \<noteq> 0"
    and latest: "\<forall>rec \<in> set post. rr_EventType rec \<noteq> ''ActorSnapshotCreated''"
    and before: "\<forall>rec \<in> set pre. \<forall>p. is_command rec \<longrightarrow> actorRecordPayload ac rec = Inr p \<longrightarrow>
      ap_CommandCount p \<le> ap_SnapshotCommandCount q \<and> command_count p \<le> ap_SnapshotCommandCount q"
    and after: "\<forall>rec \<in> set post. \<forall>p. is_command rec \<longrightarrow> actorRecordPayload ac rec = Inr p \<longrightarrow>
      ap_SnapshotCommandCount q < ap_CommandCount p"
    and stored: "replayEach compact ac actorID (Some (created # pre, None)) loader False = Inr reached"
      "as_CommandCount (re_State reached) = ap_SnapshotCommandCount q"
      "loadSnapshot loader (ap_SnapshotRef q) = Inr data"
      "NormalizeJSON compact data = as_StateJSON (re_State reached)"
    and full: "replayEach compact ac actorID (Some (recs, None)) loader False = Inr full"
    and assisted: "replayEach compact ac actorID (Some (recs, None)) loader True = Inr assisted"
  shows "ActorConsistent compact (re_State assisted) (re_State full)"
proof -
  let ?n = "ap_SnapshotCommandCount q"
  let ?f = "applyActorRecord compact ac loader actorID (Some ?n) True"
    and ?g = "applyActorRecord compact ac loader actorID None False"
  from replayEach_snapshot [OF assisted] obtain s0 n c where
    scan: "fold_result (scanSnapshot compact ac loader actorID) (zero_actor_state, 0) (created # pre @ snap # post) = Inr (s0, n)"
    and run: "fold_result (applyActorRecord compact ac loader actorID (Some n) True) (s0, 0) recs = Inr (re_State assisted, c)"
    unfolding log by blast
  from scan_latest_snapshot [of compact ac loader actorID _ "created # pre" snap post s0 n q] scan latest snap
  have s0: "n = ?n" "as_ActorID s0 = actorID" "as_CommandCount s0 = ?n" "as_SubmittedCommandCount s0 = ?n" by auto
  from run obtain s1 s2 s3 where S: "?f (s0, 0) created = Inr s1" "fold_result ?f s1 pre = Inr s2"
      "?f s2 snap = Inr s3" "fold_result ?f s3 post = Inr (re_State assisted, c)"
    unfolding log s0(1) fold_result_Inr_Cons fold_result_Inr_append by blast
  from replayEach_full [OF full] obtain d where
    "fold_result ?g (zero_actor_state, 0) recs = Inr (re_State full, d)" by blast
  then obtain t1 t2 t3 where T: "?g (zero_actor_state, 0) created = Inr t1" "fold_result ?g t1 pre = Inr t2"
      "?g t2 snap = Inr t3" "fold_result ?g t3 post = Inr (re_State full, d)"
    unfolding log fold_result_Inr_Cons fold_result_Inr_append by blast
  from replayEach_full [OF stored(1)] T(1,2) have t2: "fst t2 = re_State reached"
    by (auto simp: fold_result_Inr_Cons)
  from applyActorRecord_payload [OF S(1)] obtain p where p: "actorRecordPayload ac created = Inr p" by blast
  have "ahead actorID ?n (fst s1) (fst t1)"
    using S(1) T(1) id s0(2-4) by (auto simp: applyActorRecord_event(1) [OF p created] ahead_def applyCreated_def
        NewActorState_def zero_actor_state_def Let_def)
  with S(2) T(2) have "ahead actorID ?n (fst s2) (fst t2)"
  proof (rule fold_result_both [where R = "\<lambda>x y. ahead actorID ?n (fst x) (fst y)"])
    fix s t rec s' t'
    assume a: "ahead actorID ?n (fst s) (fst t)" "rec \<in> set pre" "?f s rec = Inr s'" "?g t rec = Inr t'"
    show "ahead actorID ?n (fst s') (fst t')"
      by (rule pre_snapshot_step [OF a(1) id, of compact ac loader "snd s" rec _ "snd s'" "snd t" _ "snd t'"])
         (use a before in auto)
  qed
  then have mid: "ahead actorID ?n (fst s2) (re_State reached)" by (simp add: t2)
  have "same_actor (fst s3) (fst t3) \<and> as_ActorID (fst s3) \<noteq> ''''"
    using mid S(3) T(3) snap(3-5) stored(2-4) id t2
    by (cases s2; cases t2) (auto simp: applyActorRecord_event(6) [OF snap(2,1)] same_actor_def ahead_def
        applySnapshot_def max_def)
  with S(4) T(4) have "same_actor (fst (re_State assisted, c)) (fst (re_State full, d)) \<and>
      as_ActorID (fst (re_State assisted, c)) \<noteq> ''''"
  proof (rule fold_result_both [where R = "\<lambda>x y. same_actor (fst x) (fst y) \<and> as_ActorID (fst x) \<noteq> ''''"])
    fix s t rec s' t'
    assume a: "same_actor (fst s) (fst t) \<and> as_ActorID (fst s) \<noteq> ''''" "rec \<in> set post"
      "?f s rec = Inr s'" "?g t rec = Inr t'"
    show "same_actor (fst s') (fst t') \<and> as_ActorID (fst s') \<noteq> ''''"
      by (rule post_snapshot_step [OF _ _ id, of "fst s" "fst t" compact ac loader ?n "snd s" rec _ "snd s'" "snd t" _ "snd t'"])
         (use a after latest in auto)
  qed
  then show ?thesis using same_actor_consistent by simp
qed


text \<open>
  Continuing from a recovered state equals recovering from the whole log: replaying a tail
  without snapshot events on top of the state of a full replay gives the state, or the error, of
  the full replay of the extended log.
\<close>

theorem actor_tail_replay:
  assumes "replayEach compact ac actorID (Some (recs, None)) loader False = Inr r"
    and "\<forall>rec \<in> set tail. rr_EventType rec \<noteq> ''ActorSnapshotCreated''"
  shows "map_sum id re_State (ReplayFromStateRawEach compact ac actorID (re_State r) (Some (tail, err)) loader) =
    map_sum id re_State (replayEach compact ac actorID (Some (recs @ tail, err)) loader False)"
proof -
  let ?g = "applyActorRecord compact ac loader actorID None False"
    and ?h = "applyActorRecord compact ac loader actorID None True"
  from replayEach_full [OF assms(1)] obtain c where c: "fold_result ?g (zero_actor_state, 0) recs = Inr (re_State r, c)"
    by blast
  have id: "as_ActorID (re_State r) \<noteq> ''''" using assms(1)
    by (auto simp: replayEach_def iterateActor_def split: sum.splits if_splits)
  have step: "rel_sum (=) (\<lambda>x y. fst x = fst y) (?h s rec) (?g t rec)" if "fst s = fst t" "rec \<in> set tail" for s t rec
    using that assms(2) by (cases s; cases t) (auto simp: applyActorRecord_def Let_def split: sum.split)
  have "rel_sum (=) (\<lambda>x y. fst x = fst y) (fold_result ?h (re_State r, 0) tail) (fold_result ?g (re_State r, c) tail)"
    by (rule fold_result_rel [where R = "\<lambda>x y. fst x = fst y"]) (use step in auto)
  then show ?thesis
    using id by (cases rule: rel_sum.cases)
      (auto simp: ReplayFromStateRawEach_def replayEach_def iterateActor_def fold_result_append c Let_def split: option.split)
qed

subsection \<open>Witnesses\<close>

definition demo_actor_codecs :: actor_codecs where
  "demo_actor_codecs = \<lparr>ac_msgpack = (\<lambda>_. Inr (actorPayloadMap (zero_actor_payload\<lparr>ap_ActorID := ''a'', ap_Epoch := 3\<rparr>))),
     ac_legacy = (\<lambda>data. Inr (
       if data = [1] then zero_actor_payload\<lparr>ap_ClassName := ''C''\<rparr>
       else if data = [2] then zero_actor_payload\<lparr>ap_CommandSeq := 1, ap_CommandCount := 1, ap_StateJSON := [10]\<rparr>
       else if data = [3] then zero_actor_payload\<lparr>ap_SnapshotRef := ''r'', ap_SnapshotCommandCount := 1,
          ap_WorkerID := ''w'', ap_Epoch := 1\<rparr>
       else zero_actor_payload\<lparr>ap_CommandSeq := 2, ap_CommandCount := 2, ap_StateJSON := [11]\<rparr>))\<rparr>"

definition demo_actor_record :: "string \<Rightarrow> byte \<Rightarrow> raw_record" where
  "demo_actor_record ty b = zero_raw_record\<lparr>rr_EventType := ty, rr_Payload := [b], rr_TimestampMs := 4\<rparr>"

definition demo_actor_log :: "raw_record list" where
  "demo_actor_log = [demo_actor_record ''ActorCreated'' 1, demo_actor_record ''ActorCommandApplied'' 2,
     demo_actor_record ''ActorSnapshotCreated'' 3, demo_actor_record ''ActorCommandApplied'' 4]"

theorem actor_payload_roundtrip_witness:
  "\<exists>data. MarshalActorPayload (\<lambda>_. Inr [7]) (zero_actor_payload\<lparr>ap_ActorID := ''a'', ap_Epoch := 3\<rparr>) = Inr data \<and>
     UnmarshalActorPayload demo_actor_codecs data = Inr (zero_actor_payload\<lparr>ap_ActorID := ''a'', ap_Epoch := 3\<rparr>)"
proof (rule actor_payload_roundtrip)
  have "same_value v v" for v by (cases v) (simp_all add: same_value_def)
  then have "same_fields m m" for m by (simp add: same_fields_def option.rel_refl)
  then show "msgpack_faithful (\<lambda>_. Inr [7]) (ac_msgpack demo_actor_codecs)
      (actorPayloadMap (zero_actor_payload\<lparr>ap_ActorID := ''a'', ap_Epoch := 3\<rparr>))"
    by (simp add: msgpack_faithful_def demo_actor_codecs_def)
qed (simp add: zero_actor_payload_def is_i64_def)

lemma map_sum_InrD: "map_sum f g x = Inr y \<Longrightarrow> \<exists>z. x = Inr z \<and> g z = y"
  by (cases x) auto

theorem snapshot_replay_agrees_witness:
  "\<exists>full assisted.
     replayEach Some demo_actor_codecs ''a'' (Some (demo_actor_log, None)) (Some (\<lambda>_. Inr [10])) False = Inr full \<and>
     replayEach Some demo_actor_codecs ''a'' (Some (demo_actor_log, None)) (Some (\<lambda>_. Inr [10])) True = Inr assisted \<and>
     as_CommandCount (re_State assisted) = 2 \<and> ActorConsistent Some (re_State assisted) (re_State full)"
proof -
  let ?l = "Some (\<lambda>_ :: string. Inr [10 :: byte] :: string + bytes)"
  let ?r = "\<lambda>recs. replayEach Some demo_actor_codecs ''a'' (Some (recs, None)) ?l"
  have "map_sum (\<lambda>_. ()) (\<lambda>r. as_CommandCount (re_State r)) (?r demo_actor_log True) = Inr 2"
    "map_sum (\<lambda>_. ()) (\<lambda>_. ()) (?r demo_actor_log False) = Inr ()"
    "map_sum (\<lambda>_. ()) (\<lambda>r. (as_CommandCount (re_State r), as_StateJSON (re_State r)))
       (?r (demo_actor_record ''ActorCreated'' 1 # [demo_actor_record ''ActorCommandApplied'' 2]) False) = Inr (1, [10])"
    by code_simp+
  then obtain assisted full r0 where r: "?r demo_actor_log True = Inr assisted" "as_CommandCount (re_State assisted) = 2"
      "?r demo_actor_log False = Inr full"
      "?r (demo_actor_record ''ActorCreated'' 1 # [demo_actor_record ''ActorCommandApplied'' 2]) False = Inr r0"
      "as_CommandCount (re_State r0) = 1" "as_StateJSON (re_State r0) = [10]"
    by (auto dest!: map_sum_InrD)
  define q where "q = zero_actor_payload\<lparr>ap_SnapshotRef := ''r'', ap_SnapshotCommandCount := 1,
    ap_WorkerID := ''w'', ap_Epoch := 1, ap_TimestampMs := 4\<rparr>"
  have p: "actorRecordPayload demo_actor_codecs (demo_actor_record ty b) =
      (case ac_legacy demo_actor_codecs [b] of Inl e \<Rightarrow> Inl (JSONError e)
       | Inr p \<Rightarrow> Inr (if ap_TimestampMs p = 0 then p\<lparr>ap_TimestampMs := 4\<rparr> else p))" for ty b
    by (simp add: actorRecordPayload_def demo_actor_record_def UnmarshalActorPayload_def Unmarshal_def Body_def
        zero_raw_record_def split: sum.split)
  have ty: "rr_EventType (demo_actor_record t b) = t" for t b by (simp add: demo_actor_record_def)
  have leg: "ac_legacy demo_actor_codecs [2] = Inr (zero_actor_payload\<lparr>ap_CommandSeq := 1, ap_CommandCount := 1, ap_StateJSON := [10]\<rparr>)"
    "ac_legacy demo_actor_codecs [3] = Inr (zero_actor_payload\<lparr>ap_SnapshotRef := ''r'', ap_SnapshotCommandCount := 1,
          ap_WorkerID := ''w'', ap_Epoch := 1\<rparr>)"
    "ac_legacy demo_actor_codecs [4] = Inr (zero_actor_payload\<lparr>ap_CommandSeq := 2, ap_CommandCount := 2, ap_StateJSON := [11]\<rparr>)"
    by (simp_all add: demo_actor_codecs_def)
  note ev = p ty q_def leg zero_actor_payload_def is_command_def command_count_def
  have "ActorConsistent Some (re_State assisted) (re_State full)"
    by (rule snapshot_replay_agrees [where actorID = "''a''" and loader = ?l and q = q and data = "[10]" and reached = r0 and
          created = "demo_actor_record ''ActorCreated'' 1" and pre = "[demo_actor_record ''ActorCommandApplied'' 2]" and
          snap = "demo_actor_record ''ActorSnapshotCreated'' 3" and post = "[demo_actor_record ''ActorCommandApplied'' 4]" and
          recs = demo_actor_log and ac = demo_actor_codecs])
       (use r in \<open>simp_all add: ev demo_actor_log_def loadSnapshot_def NormalizeJSON_def\<close>)
  then show ?thesis using r by blast
qed

theorem actor_tail_replay_witness:
  "\<exists>r. replayEach Some demo_actor_codecs ''a'' (Some ([demo_actor_record ''ActorCreated'' 1], None)) None False = Inr r \<and>
     map_sum id re_State (ReplayFromStateRawEach Some demo_actor_codecs ''a'' (re_State r)
       (Some ([demo_actor_record ''ActorCommandApplied'' 2], None)) None) =
     map_sum id re_State (replayEach Some demo_actor_codecs ''a''
       (Some ([demo_actor_record ''ActorCreated'' 1, demo_actor_record ''ActorCommandApplied'' 2], None)) None False)"
proof -
  have "map_sum (\<lambda>_. ()) (\<lambda>_. ()) (replayEach Some demo_actor_codecs ''a''
      (Some ([demo_actor_record ''ActorCreated'' 1], None)) None False) = Inr ()" by code_simp
  then obtain r where r: "replayEach Some demo_actor_codecs ''a''
      (Some ([demo_actor_record ''ActorCreated'' 1], None)) None False = Inr r" by (auto dest!: map_sum_InrD)
  have "\<forall>rec \<in> set [demo_actor_record ''ActorCommandApplied'' 2]. rr_EventType rec \<noteq> ''ActorSnapshotCreated''"
    by (simp add: demo_actor_record_def)
  from actor_tail_replay [OF r this, of None] r show ?thesis by auto
qed

end
