(* ===== verification/Actor_Lock.thy ===== *)
theory Actor_Lock
  imports LS_Prelude
begin

text \<open>
  \<open>internal/actorlock/table.go\<close>: the per-actor lock table shared by many goroutines. Entries are
  heap objects, so that an evicted entry and a new entry for the same actor are different
  objects. The table mutex \<open>t.mu\<close> guards the map and every \<open>refs\<close> counter: the code between its
  \<open>Lock\<close> and \<open>Unlock\<close> is one atomic step. The per-actor mutex \<open>e.mu\<close> is its holder.

  A goroutine that calls \<open>Lock\<close> and later the returned function passes through the points
  \<open>Waiting\<close> (reference counted, before \<open>e.mu.Lock\<close>), \<open>Holding\<close> and \<open>Unlocked\<close> (after
  \<open>e.mu.Unlock\<close>, before the table bookkeeping). The step relation interleaves any number of
  goroutines at these points.
\<close>

subsection \<open>State\<close>

datatype lock_pc =
    Idle
  | Waiting string nat
  | Holding string nat
  | Unlocked string nat

record lock_table =
  lt_locks :: "string \<rightharpoonup> nat"
  lt_refs :: "nat \<Rightarrow> int"
  lt_holder :: "nat \<Rightarrow> nat option"
  lt_fresh :: nat
  lt_pc :: "nat \<Rightarrow> lock_pc"

definition NewTable :: lock_table where
  "NewTable = \<lparr>lt_locks = Map.empty, lt_refs = (\<lambda>_. 0), lt_holder = (\<lambda>_. None), lt_fresh = 0,
     lt_pc = (\<lambda>_. Idle)\<rparr>"

text \<open>The first critical section of \<open>Lock\<close>: find or create the entry and count the caller.\<close>

definition lock_enter :: "nat \<Rightarrow> string \<Rightarrow> lock_table \<Rightarrow> lock_table" where
  "lock_enter tid actorID t =
     (if actorID = '''' then t
      else
        (let (e, t') = (case lt_locks t actorID of
               Some e \<Rightarrow> (e, t)
             | None \<Rightarrow> (lt_fresh t, t\<lparr>lt_locks := (lt_locks t)(actorID \<mapsto> lt_fresh t),
                   lt_refs := (lt_refs t)(lt_fresh t := 0), lt_holder := (lt_holder t)(lt_fresh t := None),
                   lt_fresh := Suc (lt_fresh t)\<rparr>))
         in t'\<lparr>lt_refs := (lt_refs t')(e := lt_refs t' e + 1),
               lt_pc := (lt_pc t')(tid := Waiting actorID e)\<rparr>))"

definition lock_acquire :: "nat \<Rightarrow> string \<Rightarrow> nat \<Rightarrow> lock_table \<Rightarrow> lock_table" where
  "lock_acquire tid actorID e t =
     t\<lparr>lt_holder := (lt_holder t)(e := Some tid), lt_pc := (lt_pc t)(tid := Holding actorID e)\<rparr>"

definition unlock_entry :: "nat \<Rightarrow> string \<Rightarrow> nat \<Rightarrow> lock_table \<Rightarrow> lock_table" where
  "unlock_entry tid actorID e t =
     t\<lparr>lt_holder := (lt_holder t)(e := None), lt_pc := (lt_pc t)(tid := Unlocked actorID e)\<rparr>"

text \<open>The critical section of the unlock function: drop the reference and evict an idle entry.\<close>

definition lock_leave :: "nat \<Rightarrow> string \<Rightarrow> nat \<Rightarrow> lock_table \<Rightarrow> lock_table" where
  "lock_leave tid actorID e t =
     (let refs = lt_refs t e - 1
      in t\<lparr>lt_refs := (lt_refs t)(e := refs),
           lt_locks := (if refs = 0 \<and> lt_locks t actorID = Some e then (lt_locks t)(actorID := None)
                        else lt_locks t),
           lt_pc := (lt_pc t)(tid := Idle)\<rparr>)"

definition table_Len :: "lock_table \<Rightarrow> nat" where
  "table_Len t = card (dom (lt_locks t))"

inductive lock_step :: "lock_table \<Rightarrow> lock_table \<Rightarrow> bool" where
  enter: "lt_pc t tid = Idle \<Longrightarrow> lock_step t (lock_enter tid actorID t)"
| acquire: "lt_pc t tid = Waiting actorID e \<Longrightarrow> lt_holder t e = None \<Longrightarrow>
    lock_step t (lock_acquire tid actorID e t)"
| unlock: "lt_pc t tid = Holding actorID e \<Longrightarrow> lock_step t (unlock_entry tid actorID e t)"
| leave: "lt_pc t tid = Unlocked actorID e \<Longrightarrow> lock_step t (lock_leave tid actorID e t)"

inductive lock_reachable :: "lock_table \<Rightarrow> bool" where
  init: "lock_reachable NewTable"
| step: "lock_reachable t \<Longrightarrow> lock_step t t' \<Longrightarrow> lock_reachable t'"

inductive_cases lock_stepE: "lock_step t t'"

subsection \<open>Invariant\<close>

fun pc_entry :: "lock_pc \<Rightarrow> (string \<times> nat) option" where
  "pc_entry Idle = None"
| "pc_entry (Waiting a e) = Some (a, e)"
| "pc_entry (Holding a e) = Some (a, e)"
| "pc_entry (Unlocked a e) = Some (a, e)"

definition users :: "lock_table \<Rightarrow> nat \<Rightarrow> nat set" where
  "users t e = {tid. \<exists>a. pc_entry (lt_pc t tid) = Some (a, e)}"

definition lock_inv :: "lock_table \<Rightarrow> bool" where
  "lock_inv t \<longleftrightarrow>
     finite {tid. lt_pc t tid \<noteq> Idle} \<and>
     (\<forall>tid a e. pc_entry (lt_pc t tid) = Some (a, e) \<longrightarrow> lt_locks t a = Some e) \<and>
     (\<forall>e. lt_refs t e = int (card (users t e))) \<and>
     (\<forall>a e. lt_locks t a = Some e \<longrightarrow> e < lt_fresh t \<and> users t e \<noteq> {}) \<and>
     (\<forall>a b e. lt_locks t a = Some e \<longrightarrow> lt_locks t b = Some e \<longrightarrow> a = b) \<and>
     (\<forall>tid e. lt_holder t e = Some tid \<longleftrightarrow> (\<exists>a. lt_pc t tid = Holding a e))"

lemma lock_invI:
  assumes "finite {tid. lt_pc t tid \<noteq> Idle}"
    and "\<And>tid a e. pc_entry (lt_pc t tid) = Some (a, e) \<Longrightarrow> lt_locks t a = Some e"
    and "\<And>e. lt_refs t e = int (card (users t e))"
    and "\<And>a e. lt_locks t a = Some e \<Longrightarrow> e < lt_fresh t \<and> users t e \<noteq> {}"
    and "\<And>a b e. lt_locks t a = Some e \<Longrightarrow> lt_locks t b = Some e \<Longrightarrow> a = b"
    and "\<And>tid e. lt_holder t e = Some tid \<longleftrightarrow> (\<exists>a. lt_pc t tid = Holding a e)"
  shows "lock_inv t"
  using assms unfolding lock_inv_def by blast

lemma lock_invD:
  assumes "lock_inv t"
  shows "finite {tid. lt_pc t tid \<noteq> Idle}"
    and "pc_entry (lt_pc t tid) = Some (a, e) \<Longrightarrow> lt_locks t a = Some e"
    and "lt_refs t e = int (card (users t e))"
    and "lt_locks t a = Some e \<Longrightarrow> e < lt_fresh t" "lt_locks t a = Some e \<Longrightarrow> users t e \<noteq> {}"
    and "lt_locks t a = Some e \<Longrightarrow> lt_locks t b = Some e \<Longrightarrow> a = b"
    and "lt_holder t e = Some tid \<longleftrightarrow> (\<exists>a. lt_pc t tid = Holding a e)"
  using assms unfolding lock_inv_def by blast+

lemma finite_not_idle_update:
  "finite {tid. f tid \<noteq> Idle} \<Longrightarrow> finite {x. (f(tid := pc)) x \<noteq> Idle}"
  by (rule finite_subset [of _ "insert tid {tid. f tid \<noteq> Idle}"]) auto

lemma finite_users: "lock_inv t \<Longrightarrow> finite (users t e)"
  by (rule finite_subset [OF _ lock_invD(1)]) (auto simp: users_def)

lemma lock_inv_init: "lock_inv NewTable"
  by (simp add: lock_inv_def NewTable_def users_def)

text \<open>Taking or releasing the entry mutex moves one goroutine without touching the table.\<close>

lemma lock_inv_mutex:
  assumes inv: "lock_inv t" and pc: "pc_entry (lt_pc t tid) = Some (a, e)" "pc_entry pc = Some (a, e)"
    and t': "t' = t\<lparr>lt_holder := (lt_holder t)(e := h), lt_pc := (lt_pc t)(tid := pc)\<rparr>"
    and h: "\<And>x. h = Some x \<longleftrightarrow> (\<exists>b. ((lt_pc t)(tid := pc)) x = Holding b e)"
    and other: "\<And>b d. d \<noteq> e \<Longrightarrow> pc \<noteq> Holding b d \<and> lt_pc t tid \<noteq> Holding b d"
  shows "lock_inv t'"
proof -
  have u: "users t' x = users t x" for x
    using pc by (auto simp: users_def t' split: if_splits)
  show ?thesis
  proof (rule lock_invI)
    show "finite {tid. lt_pc t' tid \<noteq> Idle}"
      using finite_not_idle_update [OF lock_invD(1) [OF inv]] by (simp add: t')
    show "pc_entry (lt_pc t' x) = Some (b, d) \<Longrightarrow> lt_locks t' b = Some d" for x b d
      using lock_invD(2) [OF inv] pc by (auto simp: t' split: if_splits)
    show "lt_holder t' d = Some x \<longleftrightarrow> (\<exists>b. lt_pc t' x = Holding b d)" for x d
    proof (cases "d = e")
      case False
      then show ?thesis using lock_invD(7) [OF inv, of d x] other [OF False] by (auto simp: t')
    qed (simp add: t' h)
  qed (use lock_invD(3-6) [OF inv] in \<open>simp_all add: u, simp_all add: t'\<close>)
qed

lemma lock_inv_acquire:
  assumes "lock_inv t" "lt_pc t tid = Waiting a e" "lt_holder t e = None"
  shows "lock_inv (lock_acquire tid a e t)"
  by (rule lock_inv_mutex [OF assms(1), of tid a e "Holding a e" _ "Some tid"])
     (use assms lock_invD(7) [OF assms(1), of e] in \<open>auto simp: lock_acquire_def\<close>)

lemma lock_inv_unlock:
  assumes "lock_inv t" "lt_pc t tid = Holding a e"
  shows "lock_inv (unlock_entry tid a e t)"
proof (rule lock_inv_mutex [OF assms(1), of tid a e "Unlocked a e" _ None])
  have "lt_holder t e = Some tid" using lock_invD(7) [OF assms(1), of e tid] assms(2) by simp
  then have only: "x = tid" if "lt_pc t x = Holding b e" for x b
    using lock_invD(7) [OF assms(1), of e x] that by simp
  show "None = Some x \<longleftrightarrow> (\<exists>b. ((lt_pc t)(tid := Unlocked a e)) x = Holding b e)" for x
    using only by auto
qed (use assms(2) in \<open>simp_all add: unlock_entry_def\<close>)

lemma lock_inv_leave:
  assumes inv: "lock_inv t" and pc: "lt_pc t tid = Unlocked a e"
  shows "lock_inv (lock_leave tid a e t)"
proof -
  let ?t = "lock_leave tid a e t"
  have te: "tid \<in> users t e" using pc by (auto simp: users_def)
  have la: "lt_locks t a = Some e" by (rule lock_invD(2) [OF inv, of tid]) (simp add: pc)
  have u: "users ?t x = (if x = e then users t e - {tid} else users t x)" for x
    using pc by (auto simp: users_def lock_leave_def Let_def split: if_splits)
  have card: "int (card (users t e - {tid})) = int (card (users t e)) - 1"
  proof -
    have "0 < card (users t e)" using te finite_users [OF inv, of e] by (auto simp: card_gt_0_iff)
    then show ?thesis using te by (simp add: card_Diff_singleton of_nat_diff)
  qed
  have empty: "lt_refs t e - 1 = 0 \<longleftrightarrow> users t e - {tid} = {}"
  proof -
    have "lt_refs t e - 1 = int (card (users t e - {tid}))" using card lock_invD(3) [OF inv, of e] by simp
    then show ?thesis using finite_users [OF inv, of e] by simp
  qed
  have locks: "lt_locks ?t = (if users t e - {tid} = {} then (lt_locks t)(a := None) else lt_locks t)"
    using empty la by (simp add: lock_leave_def Let_def)
  show ?thesis
  proof (rule lock_invI)
    show "finite {tid. lt_pc ?t tid \<noteq> Idle}"
      using finite_not_idle_update [OF lock_invD(1) [OF inv]] by (simp add: lock_leave_def Let_def)
    show "lt_locks ?t b = Some d" if "pc_entry (lt_pc ?t x) = Some (b, d)" for x b d
    proof -
      have x: "x \<noteq> tid" "pc_entry (lt_pc t x) = Some (b, d)" using that by (auto simp: lock_leave_def Let_def split: if_splits)
      then have b: "lt_locks t b = Some d" using lock_invD(2) [OF inv] by blast
      have "users t e - {tid} \<noteq> {}" if "b = a" using that b la x by (auto simp: users_def)
      then show ?thesis using b locks by auto
    qed
    show "lt_refs ?t x = int (card (users ?t x))" for x
      using lock_invD(3) [OF inv] card by (auto simp: u) (simp_all add: lock_leave_def Let_def)
    show "x < lt_fresh ?t \<and> users ?t x \<noteq> {}" if "lt_locks ?t b = Some x" for b x
      using that lock_invD(4-6) [OF inv] la unfolding locks u
      by (auto simp: lock_leave_def Let_def split: if_splits)
    show "b = c" if "lt_locks ?t b = Some x" "lt_locks ?t c = Some x" for b c x
      using that lock_invD(6) [OF inv] unfolding locks by (auto split: if_splits)
    show "lt_holder ?t d = Some x \<longleftrightarrow> (\<exists>b. lt_pc ?t x = Holding b d)" for x d
      using lock_invD(7) [OF inv] pc by (auto simp: lock_leave_def Let_def)
  qed
qed


lemma fresh_users: "lock_inv t \<Longrightarrow> users t (lt_fresh t) = {}"
  using lock_invD(2,4) by (fastforce simp: users_def)

lemma lock_inv_enter:
  assumes inv: "lock_inv t" and pc: "lt_pc t tid = Idle"
  shows "lock_inv (lock_enter tid a t)"
proof (cases "a = ''''")
  case False
  let ?t = "lock_enter tid a t"
  define e where "e = (case lt_locks t a of Some e \<Rightarrow> e | None \<Rightarrow> lt_fresh t)"
  have locks: "lt_locks ?t = (lt_locks t)(a \<mapsto> e)" and pcs: "lt_pc ?t = (lt_pc t)(tid := Waiting a e)"
    and refs: "lt_refs ?t x = (if x = e then (if lt_locks t a = None then 0 else lt_refs t e) + 1 else lt_refs t x)"
    and holder: "lt_holder ?t x = (if x = e \<and> lt_locks t a = None then None else lt_holder t x)"
    and fresh: "lt_fresh ?t = (if lt_locks t a = None then Suc (lt_fresh t) else lt_fresh t)" for x
    using False by (auto simp: lock_enter_def e_def fun_upd_idem split: option.split)
  have u: "users ?t x = (if x = e then insert tid (users t e) else users t x)" for x
    using pc by (auto simp: users_def pcs split: if_splits)
  have nt: "tid \<notin> users t x" for x using pc by (simp add: users_def)
  have ue: "lt_locks t a = None \<Longrightarrow> users t e = {}" using fresh_users [OF inv] by (simp add: e_def)
  have le: "e < lt_fresh ?t" using lock_invD(4) [OF inv] by (auto simp: fresh e_def split: option.split)
  have only: "b = a" if "lt_locks t b = Some e" for b
    using that lock_invD(4,6) [OF inv] by (fastforce simp: e_def split: option.splits)
  show ?thesis
  proof (rule lock_invI)
    show "finite {tid. lt_pc ?t tid \<noteq> Idle}"
      using finite_not_idle_update [OF lock_invD(1) [OF inv]] by (simp add: pcs)
    show "lt_locks ?t b = Some d" if "pc_entry (lt_pc ?t x) = Some (b, d)" for x b d
      using that lock_invD(2) [OF inv, of x b d] by (auto simp: pcs locks e_def split: if_splits)
    show "lt_refs ?t x = int (card (users ?t x))" for x
      using lock_invD(3) [OF inv] nt ue finite_users [OF inv, of e] by (auto simp: refs u)
    show "x < lt_fresh ?t \<and> users ?t x \<noteq> {}" if "lt_locks ?t b = Some x" for b x
      using that le lock_invD(4,5) [OF inv, of b x] by (auto simp: locks u fresh split: if_splits)
    show "b = c" if "lt_locks ?t b = Some x" "lt_locks ?t c = Some x" for b c x
      using that only lock_invD(6) [OF inv, of b x c] by (auto simp: locks split: if_splits)
    show "lt_holder ?t d = Some x \<longleftrightarrow> (\<exists>b. lt_pc ?t x = Holding b d)" for x d
    proof (cases "d = e \<and> lt_locks t a = None")
      case True
      then have "x \<notin> users t e" using ue by simp
      then show ?thesis using True by (auto simp: holder pcs users_def)
    next
      case False
      then show ?thesis using lock_invD(7) [OF inv, of d x] pc by (auto simp: holder pcs)
    qed
  qed
qed (simp add: lock_enter_def inv)

lemma lock_inv_reachable: "lock_reachable t \<Longrightarrow> lock_inv t"
proof (induction rule: lock_reachable.induct)
  case (step t t')
  from step.hyps(2) step.IH show ?case
    by (elim lock_stepE) (simp_all add: lock_inv_enter lock_inv_acquire lock_inv_unlock lock_inv_leave)
qed (rule lock_inv_init)

subsection \<open>Properties\<close>

text \<open>
  C11. Mutual exclusion per actor: in every interleaving at most one goroutine is inside the critical
  section of an actor, even though idle entries are evicted and recreated.
\<close>

theorem actor_mutual_exclusion:
  assumes "lock_reachable t" "lt_pc t tid = Holding a e" "lt_pc t tid' = Holding a e'"
  shows "tid' = tid"
proof -
  note inv = lock_inv_reachable [OF assms(1)]
  have "lt_locks t a = Some e" by (rule lock_invD(2) [OF inv, of tid]) (simp add: assms(2))
  moreover have "lt_locks t a = Some e'" by (rule lock_invD(2) [OF inv, of tid']) (simp add: assms(3))
  ultimately have "e' = e" by simp
  then have "lt_holder t e = Some tid" "lt_holder t e = Some tid'"
    using lock_invD(7) [OF inv] assms(2,3) by blast+
  then show ?thesis by simp
qed

text \<open>
  The table tracks exactly the actors in use: an actor has an entry if and only if some
  goroutine waits for, holds or is leaving its lock, and the reference count is the number of those
  goroutines; so the table is empty whenever no goroutine uses it.
\<close>

theorem lock_table_no_leak:
  assumes "lock_reachable t"
  shows "(lt_locks t a = Some e \<longleftrightarrow> (\<exists>tid. pc_entry (lt_pc t tid) = Some (a, e))) \<and>
    lt_refs t e = int (card {tid. \<exists>b. pc_entry (lt_pc t tid) = Some (b, e)}) \<and>
    ((\<forall>tid. lt_pc t tid = Idle) \<longrightarrow> table_Len t = 0)"
proof -
  note inv = lock_inv_reachable [OF assms(1)]
  have "\<exists>tid. pc_entry (lt_pc t tid) = Some (a, e)" if l: "lt_locks t a = Some e" for a e
  proof -
    obtain tid b where tid: "pc_entry (lt_pc t tid) = Some (b, e)"
      using lock_invD(5) [OF inv l] by (auto simp: users_def)
    then have "b = a" using lock_invD(6) [OF inv _ l] lock_invD(2) [OF inv] by blast
    with tid show ?thesis by blast
  qed
  moreover from this have "(\<forall>tid. lt_pc t tid = Idle) \<Longrightarrow> dom (lt_locks t) = {}" by fastforce
  ultimately show ?thesis
    using lock_invD(2) [OF inv] lock_invD(3) [OF inv, of e] by (auto simp: users_def table_Len_def)
qed

text \<open>
  No goroutine waits for ever on an abandoned lock: whenever someone waits for an entry, either
  the entry is free, or another goroutine holds exactly this entry and its unlock step is enabled.
\<close>

theorem waiting_can_progress:
  assumes "lock_reachable t" "lt_pc t tid = Waiting a e"
  shows "(\<exists>t'. lock_step t t' \<and> lt_pc t' tid = Holding a e) \<or>
    (\<exists>holder t'. lt_pc t holder = Holding a e \<and> lock_step t t' \<and> lt_holder t' e = None)"
proof (cases "lt_holder t e")
  case None
  then have "lock_step t (lock_acquire tid a e t)" using assms(2) lock_step.acquire by blast
  then show ?thesis by (auto simp: lock_acquire_def)
next
  case (Some holder)
  note inv = lock_inv_reachable [OF assms(1)]
  obtain b where b: "lt_pc t holder = Holding b e" using Some lock_invD(7) [OF inv] by blast
  have "lt_locks t b = Some e" by (rule lock_invD(2) [OF inv, of holder]) (simp add: b)
  moreover have "lt_locks t a = Some e" by (rule lock_invD(2) [OF inv, of tid]) (simp add: assms(2))
  ultimately have "b = a" using lock_invD(6) [OF inv] by blast
  moreover have "lock_step t (unlock_entry holder b e t)" using b lock_step.unlock by blast
  ultimately show ?thesis using b by (auto simp: unlock_entry_def)
qed

subsection \<open>Witnesses\<close>

text \<open>Goroutine 1 holds the lock of actor \<open>a\<close> while goroutine 2 waits for it.\<close>

definition demo_locks :: lock_table where
  "demo_locks = lock_enter 2 ''a'' (lock_acquire 1 ''a'' 0 (lock_enter 1 ''a'' NewTable))"

lemma demo_locks_pc: "lt_pc demo_locks 1 = Holding ''a'' 0" "lt_pc demo_locks 2 = Waiting ''a'' 0"
  by (simp_all add: demo_locks_def lock_enter_def lock_acquire_def NewTable_def)

lemma demo_locks_reachable: "lock_reachable demo_locks"
proof -
  have 1: "lock_reachable (lock_enter 1 ''a'' NewTable)"
    by (rule lock_reachable.step [OF lock_reachable.init lock_step.enter]) (simp add: NewTable_def)
  have 2: "lock_reachable (lock_acquire 1 ''a'' 0 (lock_enter 1 ''a'' NewTable))"
    by (rule lock_reachable.step [OF 1 lock_step.acquire]) (simp_all add: NewTable_def lock_enter_def)
  show ?thesis unfolding demo_locks_def
    by (rule lock_reachable.step [OF 2 lock_step.enter]) (simp add: NewTable_def lock_enter_def lock_acquire_def)
qed

theorem actor_mutual_exclusion_witness:
  "lt_pc demo_locks 1 = Holding ''a'' 0 \<and> lt_pc demo_locks 2 \<noteq> Holding ''a'' 0"
  using actor_mutual_exclusion [OF demo_locks_reachable demo_locks_pc(1), of 2 0] demo_locks_pc(1) by auto

theorem lock_table_no_leak_witness: "lt_refs demo_locks 0 = int (card {1 :: nat, 2}) \<and> lt_locks demo_locks ''a'' = Some 0"
proof -
  have "{tid. \<exists>b. pc_entry (lt_pc demo_locks tid) = Some (b, 0)} = {1, 2}"
    by (auto simp: demo_locks_def lock_enter_def lock_acquire_def NewTable_def split: if_splits)
  then show ?thesis
    using lock_table_no_leak [OF demo_locks_reachable, of "''a''" 0] demo_locks_pc(1) by (auto intro: exI [of _ 1])
qed

theorem waiting_can_progress_witness:
  "(\<exists>t'. lock_step demo_locks t' \<and> lt_pc t' 2 = Holding ''a'' 0) \<or>
   (\<exists>holder t'. lt_pc demo_locks holder = Holding ''a'' 0 \<and> lock_step demo_locks t' \<and> lt_holder t' 0 = None)"
  by (rule waiting_can_progress [OF demo_locks_reachable demo_locks_pc(2)])

end
