(* ===== verification/Record_Codec.thy ===== *)
theory Record_Codec
  imports Event_Codec
begin

unbundle bit_operations_syntax

text \<open>
  The binary record format of \<open>internal/logstore\<close>: \<open>checksum.go\<close>, \<open>record.go\<close>, and the encode and
  read functions of \<open>store.go\<close> with the \<open>segmentIO\<close> adapter of \<open>segment_reader.go\<close>. A file is the
  list of its bytes; \<open>ReadAt\<close> returns the bytes it copies, which are all that exist in the requested
  range for a file, and none for a mapping that does not hold the whole range. Device errors
  other than end of file are not modelled.

  The IEEE checksum comes from the Go standard library and is computed bit by bit here. CRC32C
  (klauspost/crc32) and XXH3 (zeebo/xxh3) are third-party packages: their functions are the
  fields of \<open>hashes\<close>, and \<open>crc32c_incremental\<close> states the documented relation of \<open>Update\<close> and
  \<open>Checksum\<close> that the chunked reader relies on.
\<close>

subsection \<open>Big-endian integers\<close>

fun be_bytes :: "nat \<Rightarrow> nat \<Rightarrow> bytes" where
  "be_bytes 0 x = []"
| "be_bytes (Suc n) x = be_bytes n (x div 256) @ [word_of_nat x]"

definition be_nat :: "bytes \<Rightarrow> nat" where
  "be_nat bs = foldl (\<lambda>a b. a * 256 + unat b) 0 bs"

lemma length_be_bytes [codec_simps, simp]: "length (be_bytes n x) = n"
  by (induction n arbitrary: x) auto

lemma be_nat_be_bytes: "be_nat (be_bytes n x) = x mod 256 ^ n"
proof (induction n arbitrary: x)
  case (Suc n)
  have "unat (word_of_nat x :: byte) = x mod 256" by (simp add: unat_of_nat)
  then have "be_nat (be_bytes (Suc n) x) = (x div 256) mod 256 ^ n * 256 + x mod 256"
    using Suc.IH [of "x div 256"] by (simp add: be_nat_def)
  also have "\<dots> = x mod 256 ^ Suc n"
    using mod_mult2_eq [of x 256 "256 ^ n"] by (simp add: mult.commute)
  finally show ?case .
qed (simp add: be_nat_def)

definition PutUint16 :: "u16 \<Rightarrow> bytes" where "PutUint16 w = be_bytes 2 (unat w)"
definition PutUint32 :: "u32 \<Rightarrow> bytes" where "PutUint32 w = be_bytes 4 (unat w)"
definition PutUint64 :: "u64 \<Rightarrow> bytes" where "PutUint64 w = be_bytes 8 (unat w)"
definition Uint16 :: "bytes \<Rightarrow> u16" where "Uint16 b = word_of_nat (be_nat b)"
definition Uint32 :: "bytes \<Rightarrow> u32" where "Uint32 b = word_of_nat (be_nat b)"
definition Uint64 :: "bytes \<Rightarrow> u64" where "Uint64 b = word_of_nat (be_nat b)"

lemma Uint_Put [codec_simps, simp]:
  "Uint16 (PutUint16 a) = a" "Uint32 (PutUint32 b) = b" "Uint64 (PutUint64 c) = c"
proof -
  have "unat a < 256 ^ 2" "unat b < 256 ^ 4" "unat c < 256 ^ 8"
    using unsigned_less [of a, where ?'a = nat] unsigned_less [of b, where ?'a = nat]
      unsigned_less [of c, where ?'a = nat] by simp_all
  then show "Uint16 (PutUint16 a) = a" "Uint32 (PutUint32 b) = b" "Uint64 (PutUint64 c) = c"
    by (simp_all add: Uint16_def PutUint16_def Uint32_def PutUint32_def Uint64_def PutUint64_def be_nat_be_bytes)
qed

lemma length_Put [codec_simps, simp]:
  "length (PutUint16 a) = 2" "length (PutUint32 b) = 4" "length (PutUint64 c) = 8"
  by (simp_all add: PutUint16_def PutUint32_def PutUint64_def)

subsection \<open>Checksums\<close>

text \<open>\<open>hash/crc32\<close>: reflected IEEE polynomial, one table entry per byte value.\<close>

definition crc_shift :: "u32 \<Rightarrow> u32" where
  "crc_shift c = (if c AND 1 = 1 then drop_bit 1 c XOR 0xedb88320 else drop_bit 1 c)"

definition ieee_table :: "byte \<Rightarrow> u32" where
  "ieee_table b = (crc_shift ^^ 8) (ucast b)"

definition ieee_step :: "u32 \<Rightarrow> byte \<Rightarrow> u32" where
  "ieee_step crc v = ieee_table (ucast crc XOR v) XOR drop_bit 8 crc"

definition ieee_update :: "u32 \<Rightarrow> bytes \<Rightarrow> u32" where
  "ieee_update crc p = NOT (foldl ieee_step (NOT crc) p)"

definition ChecksumIEEE :: "bytes \<Rightarrow> u32" where
  "ChecksumIEEE data = ieee_update 0 data"

record hashes =
  crc32c_update :: "u32 \<Rightarrow> bytes \<Rightarrow> u32"
  crc32c_checksum :: "bytes \<Rightarrow> u32"
  xxh3_hash :: "bytes \<Rightarrow> u64"

definition crc32c_incremental :: "hashes \<Rightarrow> bool" where
  "crc32c_incremental hs \<longleftrightarrow>
     (\<forall>data. crc32c_checksum hs data = crc32c_update hs 0 data) \<and> (\<forall>c. crc32c_update hs c [] = c) \<and>
     (\<forall>c a b. crc32c_update hs c (a @ b) = crc32c_update hs (crc32c_update hs c a) b)"

type_synonym checksum_type = u16

definition ChecksumTypeIEEE :: checksum_type where "ChecksumTypeIEEE = 1"
definition ChecksumTypeCRC32C :: checksum_type where "ChecksumTypeCRC32C = 2"
definition ChecksumTypeXXH3 :: checksum_type where "ChecksumTypeXXH3 = 3"
definition ChecksumTypeNone :: checksum_type where "ChecksumTypeNone = 4"

lemmas checksum_types = ChecksumTypeIEEE_def ChecksumTypeCRC32C_def ChecksumTypeXXH3_def ChecksumTypeNone_def

definition checksum_String :: "checksum_type \<Rightarrow> string" where
  "checksum_String typ =
     (if typ = ChecksumTypeIEEE then ''IEEE'' else if typ = ChecksumTypeCRC32C then ''CRC32C''
      else if typ = ChecksumTypeXXH3 then ''XXH3'' else if typ = ChecksumTypeNone then ''None'' else ''Unknown'')"

datatype log_error =
    UnsupportedChecksum
  | StreamIDTooLarge
  | EventTypeTooLarge
  | KeyTooLarge
  | EndOfFile
  | CorruptRecord
  | CorruptIndex
  | RecordTooLarge
  | StreamIDRequired
  | EventTypeRequired
  | BeforeSeqRequired
  | StreamNotFound string
  | StoreClosed
  | WriteFailed
  | SyncFailed
  | SegmentMissing u64
  | EmitError string
  | UnsupportedFsyncPolicy string
  | CloseFailed
  | OpenFailed
  | PersistFailed

definition validateChecksumType :: "checksum_type \<Rightarrow> bool" where
  "validateChecksumType typ \<longleftrightarrow> typ = ChecksumTypeIEEE \<or> typ = ChecksumTypeCRC32C \<or>
     typ = ChecksumTypeXXH3 \<or> typ = ChecksumTypeNone"

definition checksumOnce :: "hashes \<Rightarrow> bytes \<Rightarrow> checksum_type \<Rightarrow> log_error + u32" where
  "checksumOnce hs data typ =
     (if typ = ChecksumTypeIEEE then Inr (ChecksumIEEE data)
      else if typ = ChecksumTypeCRC32C then Inr (crc32c_checksum hs data)
      else if typ = ChecksumTypeXXH3 then Inr (ucast (xxh3_hash hs data))
      else if typ = ChecksumTypeNone then Inr 0
      else Inl UnsupportedChecksum)"

definition checksum :: "hashes \<Rightarrow> bytes \<Rightarrow> checksum_type \<Rightarrow> log_error + u32" where
  "checksum hs data typ = checksumOnce hs data typ"

definition checksumChunkSize :: nat where "checksumChunkSize = 65536"

text \<open>The loop that cuts the data at multiples of the chunk size.\<close>

function chunked :: "nat \<Rightarrow> bytes \<Rightarrow> bytes list" where
  "chunked n data = (if data = [] \<or> n = 0 then [] else take n data # chunked n (drop n data))"
  by pat_completeness auto
termination by (relation "measure (\<lambda>(n, data). length data)") auto

declare chunked.simps [simp del]

definition checksumChunked :: "hashes \<Rightarrow> bytes \<Rightarrow> checksum_type \<Rightarrow> log_error + u32" where
  "checksumChunked hs data typ =
     (if typ = ChecksumTypeIEEE then Inr (foldl ieee_update 0 (chunked checksumChunkSize data))
      else if typ = ChecksumTypeCRC32C then Inr (foldl (crc32c_update hs) 0 (chunked checksumChunkSize data))
      else if typ = ChecksumTypeXXH3 then Inr (ucast (xxh3_hash hs data))
      else if typ = ChecksumTypeNone then Inr 0
      else Inl UnsupportedChecksum)"

definition verifyChecksum :: "hashes \<Rightarrow> bytes \<Rightarrow> checksum_type \<Rightarrow> u32 \<Rightarrow> bool" where
  "verifyChecksum hs data typ expected = (checksum hs data typ = Inr expected)"

record accumulator =
  acc_typ :: checksum_type
  acc_crc :: u32

definition newChecksumAccumulator :: "checksum_type \<Rightarrow> accumulator" where
  "newChecksumAccumulator typ = \<lparr>acc_typ = typ, acc_crc = 0\<rparr>"

definition acc_update :: "hashes \<Rightarrow> accumulator \<Rightarrow> bytes \<Rightarrow> log_error + accumulator" where
  "acc_update hs a data =
     (if acc_typ a = ChecksumTypeIEEE then Inr (a\<lparr>acc_crc := ieee_update (acc_crc a) data\<rparr>)
      else if acc_typ a = ChecksumTypeCRC32C then Inr (a\<lparr>acc_crc := crc32c_update hs (acc_crc a) data\<rparr>)
      else if acc_typ a = ChecksumTypeXXH3 \<or> acc_typ a = ChecksumTypeNone then Inr a
      else Inl UnsupportedChecksum)"

definition acc_sum :: "accumulator \<Rightarrow> log_error + u32" where
  "acc_sum a = (if acc_typ a = ChecksumTypeIEEE \<or> acc_typ a = ChecksumTypeCRC32C then Inr (acc_crc a)
     else Inl UnsupportedChecksum)"

subsection \<open>Records\<close>

record Record =
  rec_StreamID :: string
  rec_Seq :: u64
  rec_EventType :: string
  rec_IdempotencyKey :: string
  rec_Payload :: bytes
  rec_TimestampMs :: i64
  rec_CRC32 :: u32
  rec_ChecksumType :: checksum_type

definition cloneRecord :: "Record \<Rightarrow> Record" where
  "cloneRecord rec = rec\<lparr>rec_Payload := [] @ rec_Payload rec\<rparr>"

lemma cloneRecord_id [clone_simps, simp]: "cloneRecord rec = rec"
  by (simp add: cloneRecord_def)

definition record_magic :: u32 where "record_magic = 0x4c535647"
definition recordVersionV1 :: u16 where "recordVersionV1 = 1"
definition recordVersionV2 :: u16 where "recordVersionV2 = 2"
definition legacyHeaderSize :: nat where "legacyHeaderSize = 36"
definition headerSize :: nat where "headerSize = 40"

definition encodedRecordSize :: "Record \<Rightarrow> checksum_type \<Rightarrow> log_error + nat" where
  "encodedRecordSize rec typ0 =
     (if 0xffff < length (rec_StreamID rec) then Inl StreamIDTooLarge
      else if 0xffff < length (rec_EventType rec) then Inl EventTypeTooLarge
      else if 0xffff < length (rec_IdempotencyKey rec) then Inl KeyTooLarge
      else
        (let typ = (if typ0 = 0 then ChecksumTypeCRC32C else typ0) in
         if \<not> validateChecksumType typ then Inl UnsupportedChecksum
         else Inr (headerSize + (length (rec_StreamID rec) + length (rec_EventType rec) +
                length (rec_IdempotencyKey rec) + length (rec_Payload rec)))))"

definition record_body :: "Record \<Rightarrow> bytes" where
  "record_body rec = bytes_of_string (rec_StreamID rec) @ bytes_of_string (rec_EventType rec) @
     bytes_of_string (rec_IdempotencyKey rec) @ rec_Payload rec"

text \<open>
  The stores into the buffer, in address order: bytes 0 to 31 of the header, the checksum at 32,
  the checksum type at 36, two reserved zero bytes, the body. The lengths are the truncating
  conversions of the code.
\<close>

definition encodeRecord :: "hashes \<Rightarrow> Record \<Rightarrow> checksum_type \<Rightarrow> log_error + bytes \<times> u32" where
  "encodeRecord hs rec typ0 =
     (let typ = (if typ0 = 0 then ChecksumTypeCRC32C else typ0) in
      case encodedRecordSize rec typ of
        Inl e \<Rightarrow> Inl e
      | Inr sz \<Rightarrow>
          (case checksum hs (record_body rec) typ of
             Inl e \<Rightarrow> Inl e
           | Inr crc \<Rightarrow>
               Inr (PutUint32 record_magic @ PutUint16 recordVersionV2 @
                    PutUint16 (word_of_nat (length (rec_StreamID rec))) @
                    PutUint16 (word_of_nat (length (rec_EventType rec))) @
                    PutUint16 (word_of_nat (length (rec_IdempotencyKey rec))) @
                    PutUint32 (word_of_nat (length (rec_Payload rec))) @
                    PutUint64 (rec_Seq rec) @ PutUint64 (word_of_int (rec_TimestampMs rec)) @
                    PutUint32 crc @ PutUint16 typ @ [0, 0] @ record_body rec, crc)))"

subsection \<open>Reading\<close>

text \<open>A segment reader: the file, and the mapping of a sealed segment if there is one.\<close>

record segment_io =
  io_file :: bytes
  io_mmap :: "bytes option"

definition ReadAt :: "segment_io \<Rightarrow> nat \<Rightarrow> nat \<Rightarrow> bytes" where
  "ReadAt src off n =
     (case io_mmap src of
        None \<Rightarrow> take n (drop off (io_file src))
      | Some data \<Rightarrow>
          if data \<noteq> [] then (if length data < off + n then [] else take n (drop off data))
          else take n (drop off (io_file src)))"

definition slice :: "segment_io \<Rightarrow> nat \<Rightarrow> nat \<Rightarrow> bytes option" where
  "slice src off n =
     (case io_mmap src of
        None \<Rightarrow> None
      | Some data \<Rightarrow> if data = [] \<or> off + n > length data then None else Some (take n (drop off data)))"

text \<open>The slice expression \<open>b[lo:hi]\<close>.\<close>

definition sub :: "bytes \<Rightarrow> nat \<Rightarrow> nat \<Rightarrow> bytes" where
  "sub b lo hi = take (hi - lo) (drop lo b)"

fun read_chunks :: "hashes \<Rightarrow> segment_io \<Rightarrow> nat \<Rightarrow> nat list \<Rightarrow> accumulator \<Rightarrow> bytes \<Rightarrow>
    log_error + accumulator \<times> bytes" where
  "read_chunks hs src off [] acc body = Inr (acc, body)"
| "read_chunks hs src off (n # ns) acc body =
     (let chunk = ReadAt src off n in
      if length chunk \<noteq> n then Inl CorruptRecord
      else (case acc_update hs acc chunk of
              Inl e \<Rightarrow> Inl CorruptRecord
            | Inr acc' \<Rightarrow> read_chunks hs src (off + n) ns acc' (body @ chunk)))"

definition chunk_lengths :: "nat \<Rightarrow> nat list" where
  "chunk_lengths bodyLen = map length (chunked checksumChunkSize (replicate bodyLen 0))"

definition readBodyVerifiedIO :: "hashes \<Rightarrow> segment_io \<Rightarrow> nat \<Rightarrow> nat \<Rightarrow> checksum_type \<Rightarrow> u32 \<Rightarrow>
    log_error + bytes" where
  "readBodyVerifiedIO hs src offset bodyLen checksumType expectedCRC =
     (case slice src offset bodyLen of
        Some body \<Rightarrow> if verifyChecksum hs body checksumType expectedCRC then Inr body else Inl CorruptRecord
      | None \<Rightarrow>
          if \<not> (checksumChunkSize < bodyLen \<and>
                (checksumType = ChecksumTypeIEEE \<or> checksumType = ChecksumTypeCRC32C)) then
            (let body = ReadAt src offset bodyLen in
             if length body \<noteq> bodyLen then Inl CorruptRecord
             else if verifyChecksum hs body checksumType expectedCRC then Inr body
             else Inl CorruptRecord)
          else
            (case read_chunks hs src offset (chunk_lengths bodyLen) (newChecksumAccumulator checksumType) [] of
               Inl e \<Rightarrow> Inl e
             | Inr (acc, body) \<Rightarrow>
                 (if acc_sum acc = Inr expectedCRC then Inr body else Inl CorruptRecord)))"

text \<open>The part of the two decoders that follows the header checks.\<close>

definition parseBody :: "hashes \<Rightarrow> segment_io \<Rightarrow> nat \<Rightarrow> bytes \<Rightarrow> nat \<Rightarrow> checksum_type \<Rightarrow>
    log_error + raw_record \<times> checksum_type \<times> nat" where
  "parseBody hs src offset baseHeader headerLen checksumType =
     (let streamLen = unat (Uint16 (sub baseHeader 6 8));
          eventLen = unat (Uint16 (sub baseHeader 8 10));
          keyLen = unat (Uint16 (sub baseHeader 10 12));
          payloadLen = unat (Uint32 (sub baseHeader 12 16));
          seq = Uint64 (sub baseHeader 16 24);
          timestampMs = sint (Uint64 (sub baseHeader 24 32));
          expectedCRC = Uint32 (sub baseHeader 32 36);
          bodyLen = streamLen + eventLen + keyLen + payloadLen
      in case readBodyVerifiedIO hs src (offset + headerLen) bodyLen checksumType expectedCRC of
           Inl e \<Rightarrow> Inl e
         | Inr body \<Rightarrow>
             Inr (\<lparr>rr_StreamID = string_of_bytes (sub body 0 streamLen), rr_Seq = seq,
                   rr_EventType = string_of_bytes (sub body streamLen (streamLen + eventLen)),
                   rr_IdempotencyKey = string_of_bytes (sub body (streamLen + eventLen) (streamLen + eventLen + keyLen)),
                   rr_Payload = sub body (streamLen + eventLen + keyLen) (streamLen + eventLen + keyLen + payloadLen),
                   rr_TimestampMs = timestampMs, rr_CRC32 = expectedCRC\<rparr>,
                  checksumType, offset + (headerLen + bodyLen)))"

definition readRawRecordFromMmap :: "hashes \<Rightarrow> segment_io \<Rightarrow> nat \<Rightarrow> bytes \<Rightarrow>
    log_error + raw_record \<times> checksum_type \<times> nat" where
  "readRawRecordFromMmap hs src offset baseHeader =
     (if length baseHeader \<noteq> legacyHeaderSize then Inl CorruptRecord
      else if Uint32 (sub baseHeader 0 4) \<noteq> record_magic then Inl CorruptRecord
      else if Uint16 (sub baseHeader 4 6) = recordVersionV1 then
        parseBody hs src offset baseHeader legacyHeaderSize ChecksumTypeIEEE
      else if Uint16 (sub baseHeader 4 6) = recordVersionV2 then
        (case slice src (offset + legacyHeaderSize) (headerSize - legacyHeaderSize) of
           None \<Rightarrow> Inl CorruptRecord
         | Some extension \<Rightarrow>
             (let checksumType = Uint16 (sub extension 0 2) in
              if \<not> validateChecksumType checksumType then Inl CorruptRecord
              else parseBody hs src offset baseHeader headerSize checksumType))
      else Inl CorruptRecord)"

definition readRawRecordFromReadAt :: "hashes \<Rightarrow> segment_io \<Rightarrow> nat \<Rightarrow>
    log_error + raw_record \<times> checksum_type \<times> nat" where
  "readRawRecordFromReadAt hs src offset =
     (let baseHeader = ReadAt src offset legacyHeaderSize in
      if baseHeader = [] then Inl EndOfFile
      else if length baseHeader \<noteq> legacyHeaderSize then Inl CorruptRecord
      else if Uint32 (sub baseHeader 0 4) \<noteq> record_magic then Inl CorruptRecord
      else if Uint16 (sub baseHeader 4 6) = recordVersionV1 then
        parseBody hs src offset baseHeader legacyHeaderSize ChecksumTypeIEEE
      else if Uint16 (sub baseHeader 4 6) = recordVersionV2 then
        (let extension = ReadAt src (offset + legacyHeaderSize) (headerSize - legacyHeaderSize) in
         if length extension \<noteq> headerSize - legacyHeaderSize then Inl CorruptRecord
         else
           (let checksumType = Uint16 (sub extension 0 2) in
            if \<not> validateChecksumType checksumType then Inl CorruptRecord
            else parseBody hs src offset baseHeader headerSize checksumType))
      else Inl CorruptRecord)"

definition readRawRecordAtWithScratch :: "hashes \<Rightarrow> segment_io \<Rightarrow> nat \<Rightarrow>
    log_error + raw_record \<times> checksum_type \<times> nat" where
  "readRawRecordAtWithScratch hs src offset =
     (case slice src offset legacyHeaderSize of
        Some header \<Rightarrow> readRawRecordFromMmap hs src offset header
      | None \<Rightarrow> readRawRecordFromReadAt hs src offset)"

definition readRecordAtIO :: "hashes \<Rightarrow> segment_io \<Rightarrow> nat \<Rightarrow> log_error + Record \<times> nat" where
  "readRecordAtIO hs src offset =
     (case readRawRecordAtWithScratch hs src offset of
        Inl e \<Rightarrow> Inl e
      | Inr (raw, checksumType, nextOffset) \<Rightarrow>
          Inr (\<lparr>rec_StreamID = rr_StreamID raw, rec_Seq = rr_Seq raw, rec_EventType = rr_EventType raw,
                rec_IdempotencyKey = rr_IdempotencyKey raw, rec_Payload = [] @ rr_Payload raw,
                rec_TimestampMs = rr_TimestampMs raw, rec_CRC32 = rr_CRC32 raw,
                rec_ChecksumType = checksumType\<rparr>, nextOffset))"

definition readRecordAt :: "hashes \<Rightarrow> bytes \<Rightarrow> nat \<Rightarrow> log_error + Record \<times> nat" where
  "readRecordAt hs file offset = readRecordAtIO hs \<lparr>io_file = file, io_mmap = None\<rparr> offset"

subsection \<open>Chunked checksums\<close>

lemma concat_chunked: "0 < n \<Longrightarrow> concat (chunked n data) = data"
proof (induction n data rule: chunked.induct)
  case (1 n data)
  then show ?case by (subst chunked.simps) simp
qed

lemma chunked_lengths:
  "map length (chunked n (replicate (length data) x)) = map length (chunked n data)"
proof (induction n data rule: chunked.induct)
  case (1 n data)
  then show ?case by (subst (1 2) chunked.simps) (simp add: min.commute)
qed

text \<open>
  The contract of an incremental checksum: nothing changes on an empty block, and a block may be
  split anywhere. It is all the chunked paths rely on.
\<close>

locale incremental_checksum =
  fixes upd :: "u32 \<Rightarrow> bytes \<Rightarrow> u32"
  assumes upd_Nil: "upd c [] = c"
    and upd_append: "upd c (a @ b) = upd (upd c a) b"
begin

lemma fold_blocks: "foldl upd c bss = upd c (concat bss)"
  by (induction bss arbitrary: c) (simp_all add: upd_Nil upd_append)

lemma fold_chunked: "0 < n \<Longrightarrow> foldl upd c (chunked n data) = upd c data"
  by (simp add: fold_blocks concat_chunked)

end

interpretation ieee: incremental_checksum ieee_update
  by unfold_locales (simp_all add: ieee_update_def)

lemma crc32c_incremental_checksum: "crc32c_incremental hs \<Longrightarrow> incremental_checksum (crc32c_update hs)"
  by unfold_locales (simp_all add: crc32c_incremental_def)

lemmas foldl_ieee = ieee.fold_blocks
  and foldl_crc32c = incremental_checksum.fold_blocks [OF crc32c_incremental_checksum]

lemma checksumChunked_eq: "crc32c_incremental hs \<Longrightarrow> checksumChunked hs data typ = checksum hs data typ"
  by (simp add: checksumChunked_def checksum_def checksumOnce_def foldl_ieee foldl_crc32c
      concat_chunked checksumChunkSize_def ChecksumIEEE_def) (simp add: crc32c_incremental_def)

subsection \<open>The reader as a function of the file contents\<close>

definition contents :: "segment_io \<Rightarrow> bytes" where
  "contents src = (case io_mmap src of None \<Rightarrow> io_file src | Some data \<Rightarrow> if data = [] then io_file src else data)"

text \<open>A read that stays within the contents returns them; one that does not is short.\<close>

lemma ReadAt_within: "off + n \<le> length (contents src) \<Longrightarrow> ReadAt src off n = take n (drop off (contents src))"
  by (auto simp: ReadAt_def contents_def split: option.splits)

lemma ReadAt_file: "io_mmap src = None \<Longrightarrow> ReadAt src off n = take n (drop off (contents src))"
  by (simp add: ReadAt_def contents_def)

lemma ReadAt_contents: "ReadAt \<lparr>io_file = file, io_mmap = None\<rparr> off n = take n (drop off file)"
  by (simp add: ReadAt_def)

lemma ReadAt_full_iff: "length (ReadAt src off n) = n \<longleftrightarrow> length (take n (drop off (contents src))) = n"
  by (auto simp: ReadAt_def contents_def split: option.splits)

lemma ReadAt_full:
  assumes "length (take n (drop off (contents src))) = n"
  shows "ReadAt src off n = take n (drop off (contents src))"
proof (cases "n = 0")
  case True
  then show ?thesis by (simp add: ReadAt_def split: option.splits)
next
  case False
  with assms show ?thesis by (intro ReadAt_within) auto
qed

lemma ReadAt_same: "length (ReadAt src off n) = n \<Longrightarrow> take n (drop off (contents src)) = ReadAt src off n"
  using ReadAt_full ReadAt_full_iff by metis

lemma slice_contents:
  "slice src off n = Some b \<Longrightarrow> off + n \<le> length (contents src) \<and> b = take n (drop off (contents src))"
  by (auto simp: slice_def contents_def split: option.splits if_splits)

definition acc_step :: "hashes \<Rightarrow> accumulator \<Rightarrow> u32 \<Rightarrow> bytes \<Rightarrow> u32" where
  "acc_step hs acc = (if acc_typ acc = ChecksumTypeIEEE then ieee_update else crc32c_update hs)"

lemma read_chunks_short:
  assumes "length (drop off (contents src)) < sum_list ns"
  shows "read_chunks hs src off ns acc body = Inl CorruptRecord"
  using assms
proof (induction ns arbitrary: off acc body)
  case (Cons n ns)
  have "length (ReadAt src off n) = n \<Longrightarrow> n \<le> length (drop off (contents src))"
    using ReadAt_full_iff [of src off n] by auto
  then show ?case using Cons.IH [of "off + n"] Cons.prems by (auto simp: Let_def split: sum.splits)
qed simp

lemma acc_update_seq:
  "acc_typ acc = ChecksumTypeIEEE \<or> acc_typ acc = ChecksumTypeCRC32C \<Longrightarrow>
     acc_update hs acc data = Inr (acc\<lparr>acc_crc := acc_step hs acc (acc_crc acc) data\<rparr>)"
  by (auto simp: acc_update_def acc_step_def)

lemma take_prefix_split:
  assumes "take (length a + n) xs = a @ c"
  shows "take (length a) xs = a" "take n (drop (length a) xs) = c"
proof -
  show "take (length a) xs = a" using arg_cong [OF assms, of "take (length a)"] by (simp add: min_def)
  show "take n (drop (length a) xs) = c" using arg_cong [OF assms, of "drop (length a)"] by (simp add: drop_take)
qed

lemma read_chunks_full:
  assumes "acc_typ acc = ChecksumTypeIEEE \<or> acc_typ acc = ChecksumTypeCRC32C"
    and "take (length (concat bss)) (drop off (contents src)) = concat bss"
  shows "read_chunks hs src off (map length bss) acc body =
    Inr (acc\<lparr>acc_crc := foldl (acc_step hs acc) (acc_crc acc) bss\<rparr>, body @ concat bss)"
  using assms
proof (induction bss arbitrary: off acc body)
  case (Cons b bss)
  from Cons.prems(2) have "take (length b + length (concat bss)) (drop off (contents src)) = b @ concat bss"
    by simp
  then have b: "take (length b) (drop off (contents src)) = b"
    and r: "take (length (concat bss)) (drop (off + length b) (contents src)) = concat bss"
    using take_prefix_split [of b "length (concat bss)" "drop off (contents src)" "concat bss"]
    by (simp_all add: add.commute)
  let ?acc = "acc\<lparr>acc_crc := acc_step hs acc (acc_crc acc) b\<rparr>"
  have "acc_step hs ?acc = acc_step hs acc" by (simp add: acc_step_def)
  moreover have "ReadAt src off (length b) = b" using ReadAt_full [of "length b" off src] by (simp add: b)
  ultimately show ?case
    using Cons.IH [of ?acc "off + length b" "body @ b"] Cons.prems(1) r
    by (simp add: Let_def acc_update_seq)
qed simp

lemma readBodyVerifiedIO_spec:
  assumes "crc32c_incremental hs"
  shows "readBodyVerifiedIO hs src off n typ crc =
    (let body = take n (drop off (contents src)) in
     if length body = n \<and> verifyChecksum hs body typ crc then Inr body else Inl CorruptRecord)"
proof (cases "slice src off n")
  case (Some b)
  then show ?thesis using slice_contents [OF Some] by (auto simp: readBodyVerifiedIO_def Let_def min_def)
next
  case None
  let ?body = "take n (drop off (contents src))"
  let ?acc = "newChecksumAccumulator typ"
  have "readBodyVerifiedIO hs src off n typ crc = (if length ?body = n \<and> verifyChecksum hs ?body typ crc
      then Inr ?body else Inl CorruptRecord)"
    if big: "checksumChunkSize < n" "typ = ChecksumTypeIEEE \<or> typ = ChecksumTypeCRC32C"
  proof (cases "length ?body = n")
    case True
    let ?bss = "chunked checksumChunkSize ?body"
    have len: "chunk_lengths n = map length ?bss"
      using chunked_lengths [of checksumChunkSize ?body 0] True by (simp only: chunk_lengths_def)
    have cc: "concat ?bss = ?body" by (rule concat_chunked) (simp add: checksumChunkSize_def)
    have "read_chunks hs src off (chunk_lengths n) ?acc [] =
      Inr (?acc\<lparr>acc_crc := foldl (acc_step hs ?acc) 0 ?bss\<rparr>, ?body)"
      using read_chunks_full [of ?acc ?bss off src hs "[]"] big(2) True
      by (simp add: len cc newChecksumAccumulator_def)
    moreover have "Inr (foldl (acc_step hs ?acc) 0 ?bss) = checksum hs ?body typ"
      using big(2) assms
      by (auto simp: acc_step_def newChecksumAccumulator_def foldl_ieee foldl_crc32c cc checksum_def
          checksumOnce_def ChecksumIEEE_def crc32c_incremental_def checksum_types)
    ultimately show ?thesis
      using big True None
      by (auto simp: readBodyVerifiedIO_def acc_sum_def verifyChecksum_def newChecksumAccumulator_def)
  next
    case False
    have "sum_list (chunk_lengths n) = n"
      using concat_chunked [of checksumChunkSize "replicate n (0 :: byte)"]
      by (simp add: chunk_lengths_def checksumChunkSize_def flip: length_concat)
    with False have "length (drop off (contents src)) < sum_list (chunk_lengths n)" by auto
    with False show ?thesis using big None
      by (auto simp: readBodyVerifiedIO_def read_chunks_short)
  qed
  moreover have "readBodyVerifiedIO hs src off n typ crc = (if length ?body = n \<and> verifyChecksum hs ?body typ crc
      then Inr ?body else Inl CorruptRecord)"
    if "\<not> (checksumChunkSize < n \<and> (typ = ChecksumTypeIEEE \<or> typ = ChecksumTypeCRC32C))"
    using that None ReadAt_full_iff [of src off n] ReadAt_full [of n off src]
    by (auto simp: readBodyVerifiedIO_def Let_def)
  ultimately show ?thesis unfolding Let_def by blast
qed

subsection \<open>Encoding and decoding\<close>

lemma sint_word_of_int [simp]: "is_i64 t \<Longrightarrow> sint (word_of_int t :: u64) = t"
  by (simp add: is_i64_def signed_of_int signed_take_bit_int_eq_self)

lemma unat_length [simp]:
  "n \<le> 0xffff \<Longrightarrow> unat (word_of_nat n :: u16) = n" "n < 2 ^ 32 \<Longrightarrow> unat (word_of_nat n :: u32) = n"
  by (simp_all add: unat_of_nat)

lemma length_record_body: "length (record_body rec) =
    length (rec_StreamID rec) + length (rec_EventType rec) + length (rec_IdempotencyKey rec) + length (rec_Payload rec)"
  by (simp add: record_body_def)

lemma encodedRecordSize_Inr:
  "encodedRecordSize rec typ = Inr n \<Longrightarrow> typ \<noteq> 0 \<Longrightarrow>
     length (rec_StreamID rec) \<le> 0xffff \<and> length (rec_EventType rec) \<le> 0xffff \<and>
     length (rec_IdempotencyKey rec) \<le> 0xffff \<and> validateChecksumType typ \<and>
     n = headerSize + length (record_body rec)"
  by (auto simp: encodedRecordSize_def length_record_body Let_def split: if_splits)

definition base_header :: "Record \<Rightarrow> u32 \<Rightarrow> bytes" where
  "base_header rec crc = PutUint32 record_magic @ PutUint16 recordVersionV2 @
     PutUint16 (word_of_nat (length (rec_StreamID rec))) @
     PutUint16 (word_of_nat (length (rec_EventType rec))) @
     PutUint16 (word_of_nat (length (rec_IdempotencyKey rec))) @
     PutUint32 (word_of_nat (length (rec_Payload rec))) @
     PutUint64 (rec_Seq rec) @ PutUint64 (word_of_int (rec_TimestampMs rec)) @ PutUint32 crc"

lemma length_base_header [simp]: "length (base_header rec crc) = legacyHeaderSize"
  by (simp add: base_header_def legacyHeaderSize_def)

lemma base_header_nonempty [simp]: "base_header rec crc \<noteq> []"
proof
  assume "base_header rec crc = []"
  with length_base_header [of rec crc] show False by (simp only: legacyHeaderSize_def list.size)
qed

lemma base_header_fields:
  "Uint32 (sub (base_header rec crc) 0 4) = record_magic"
  "Uint16 (sub (base_header rec crc) 4 6) = recordVersionV2"
  "Uint16 (sub (base_header rec crc) 6 8) = word_of_nat (length (rec_StreamID rec))"
  "Uint16 (sub (base_header rec crc) 8 10) = word_of_nat (length (rec_EventType rec))"
  "Uint16 (sub (base_header rec crc) 10 12) = word_of_nat (length (rec_IdempotencyKey rec))"
  "Uint32 (sub (base_header rec crc) 12 16) = word_of_nat (length (rec_Payload rec))"
  "Uint64 (sub (base_header rec crc) 16 24) = rec_Seq rec"
  "Uint64 (sub (base_header rec crc) 24 32) = word_of_int (rec_TimestampMs rec)"
  "Uint32 (sub (base_header rec crc) 32 36) = crc"
  by (simp_all add: base_header_def sub_def)

lemma encodeRecord_Inr:
  assumes "encodeRecord hs rec typ0 = Inr (bs, crc)"
  obtains ty where "ty = (if typ0 = 0 then ChecksumTypeCRC32C else typ0)" "validateChecksumType ty"
    "bs = base_header rec crc @ (PutUint16 ty @ [0, 0]) @ record_body rec"
    "checksum hs (record_body rec) ty = Inr crc"
    "length (rec_StreamID rec) \<le> 0xffff" "length (rec_EventType rec) \<le> 0xffff"
    "length (rec_IdempotencyKey rec) \<le> 0xffff"
proof -
  let ?ck = "if typ0 = 0 then ChecksumTypeCRC32C else typ0"
  have nz: "?ck \<noteq> 0" by (simp add: ChecksumTypeCRC32C_def)
  from assms obtain n where n: "encodedRecordSize rec ?ck = Inr n"
    and e: "checksum hs (record_body rec) ?ck = Inr crc"
       "bs = base_header rec crc @ (PutUint16 ?ck @ [0, 0]) @ record_body rec"
    by (auto simp: encodeRecord_def Let_def base_header_def split: sum.splits)
  from that [OF refl _ e(2,1)] encodedRecordSize_Inr [OF n nz] show thesis by blast
qed

text \<open>Both decoders read the same thing, so the result depends on the contents only.\<close>

definition decode :: "hashes \<Rightarrow> bytes \<Rightarrow> nat \<Rightarrow> log_error + raw_record \<times> checksum_type \<times> nat" where
  "decode hs file offset = readRawRecordFromReadAt hs \<lparr>io_file = file, io_mmap = None\<rparr> offset"

lemma contents_file [simp]: "contents \<lparr>io_file = file, io_mmap = None\<rparr> = file"
  by (simp add: contents_def)

lemma parseBody_contents:
  "crc32c_incremental hs \<Longrightarrow> contents src = contents src' \<Longrightarrow> parseBody hs src = parseBody hs src'"
  by (simp add: fun_eq_iff parseBody_def readBodyVerifiedIO_spec)

text \<open>
  The mapped reader differs in one case: when less than a header is left, the file reader finds a
  torn record and the mapped reader the end of the file.
\<close>

definition header_torn :: "segment_io \<Rightarrow> nat \<Rightarrow> bool" where
  "header_torn src offset \<longleftrightarrow> offset < length (contents src) \<and> length (contents src) < offset + legacyHeaderSize"

lemma header_not_torn:
  assumes "\<not> header_torn src offset"
  shows "ReadAt src offset legacyHeaderSize = take legacyHeaderSize (drop offset (contents src))"
proof (cases "offset + legacyHeaderSize \<le> length (contents src)")
  case False
  with assms have "length (contents src) \<le> offset" by (auto simp: header_torn_def)
  then show ?thesis by (auto simp: ReadAt_def contents_def legacyHeaderSize_def split: option.splits)
qed (rule ReadAt_within)

lemma ReadAt_decode:
  assumes "crc32c_incremental hs" and "io_mmap src = None \<or> \<not> header_torn src offset"
  shows "readRawRecordFromReadAt hs src offset = decode hs (contents src) offset"
proof -
  have "parseBody hs src = parseBody hs \<lparr>io_file = contents src, io_mmap = None\<rparr>"
    by (rule parseBody_contents [OF assms(1)]) simp
  moreover have h: "ReadAt src offset legacyHeaderSize = take legacyHeaderSize (drop offset (contents src))"
    using assms(2) ReadAt_file header_not_torn by blast
  ultimately show ?thesis
    using ReadAt_full_iff [of src "offset + legacyHeaderSize" "headerSize - legacyHeaderSize"]
      ReadAt_full [of "headerSize - legacyHeaderSize" "offset + legacyHeaderSize" src]
    by (simp only: decode_def readRawRecordFromReadAt_def Let_def h ReadAt_contents) presburger
qed

lemma reader_decode:
  assumes "crc32c_incremental hs" and "io_mmap src = None \<or> \<not> header_torn src offset"
  shows "readRawRecordAtWithScratch hs src offset = decode hs (contents src) offset"
proof (cases "slice src offset legacyHeaderSize")
  case (Some header)
  then obtain data where data: "io_mmap src = Some data" "data \<noteq> []" by (auto simp: slice_def split: option.splits if_splits)
  note h = slice_contents [OF Some]
  have "readRawRecordFromMmap hs src offset header = readRawRecordFromReadAt hs src offset"
  proof -
    have "length header = legacyHeaderSize" "header = ReadAt src offset legacyHeaderSize" "header \<noteq> []"
      using h by (auto simp: ReadAt_within legacyHeaderSize_def)
    moreover have "slice src (offset + legacyHeaderSize) (headerSize - legacyHeaderSize) =
      (let e = ReadAt src (offset + legacyHeaderSize) (headerSize - legacyHeaderSize) in
       if length e \<noteq> headerSize - legacyHeaderSize then None else Some e)"
      using data by (auto simp: slice_def ReadAt_def Let_def headerSize_def legacyHeaderSize_def)
    ultimately show ?thesis
      by (simp add: readRawRecordFromMmap_def readRawRecordFromReadAt_def Let_def)
  qed
  then show ?thesis using Some ReadAt_decode [OF assms] by (simp add: readRawRecordAtWithScratch_def)
qed (simp add: readRawRecordAtWithScratch_def ReadAt_decode [OF assms])

lemma reader_torn_header:
  assumes "io_mmap src = Some data" "data \<noteq> []" "header_torn src offset"
  shows "readRawRecordAtWithScratch hs src offset = Inl EndOfFile"
  using assms
  by (simp add: readRawRecordAtWithScratch_def slice_def readRawRecordFromReadAt_def ReadAt_def header_torn_def contents_def)

text \<open>A record that can be decoded has a whole header, so every reader finds it.\<close>

lemma decode_Inr_header: "decode hs (contents src) offset = Inr r \<Longrightarrow> \<not> header_torn src offset"
  by (auto simp: decode_def readRawRecordFromReadAt_def header_torn_def ReadAt_contents Let_def split: if_splits)

lemma reader_decode_Inr:
  "crc32c_incremental hs \<Longrightarrow> decode hs (contents src) offset = Inr r \<Longrightarrow> readRawRecordAtWithScratch hs src offset = Inr r"
  using reader_decode [of hs src offset] decode_Inr_header [of hs src offset r] by simp

lemma decode_encoded:
  assumes "encodeRecord hs rec typ0 = Inr (bs, crc)" and "length (rec_Payload rec) < 2 ^ 32"
    and "is_i64 (rec_TimestampMs rec)" and "crc32c_incremental hs"
  shows "decode hs (pre @ bs @ post) (length pre) =
    Inr (\<lparr>rr_StreamID = rec_StreamID rec, rr_Seq = rec_Seq rec, rr_EventType = rec_EventType rec,
          rr_IdempotencyKey = rec_IdempotencyKey rec, rr_Payload = rec_Payload rec,
          rr_TimestampMs = rec_TimestampMs rec, rr_CRC32 = crc\<rparr>,
        if typ0 = 0 then ChecksumTypeCRC32C else typ0, length pre + length bs)"
proof -
  obtain ty where ty: "ty = (if typ0 = 0 then ChecksumTypeCRC32C else typ0)" "validateChecksumType ty"
      and bs: "bs = base_header rec crc @ (PutUint16 ty @ [0, 0]) @ record_body rec"
      and ck: "checksum hs (record_body rec) ty = Inr crc"
      and le: "length (rec_StreamID rec) \<le> 0xffff" "length (rec_EventType rec) \<le> 0xffff"
        "length (rec_IdempotencyKey rec) \<le> 0xffff"
    using assms(1) by (rule encodeRecord_Inr)
  let ?src = "\<lparr>io_file = pre @ bs @ post, io_mmap = None\<rparr>"
  let ?h = "base_header rec crc"
  have len: "length bs = headerSize + length (record_body rec)"
    by (simp add: bs headerSize_def legacyHeaderSize_def)
  have "take (length (record_body rec)) (drop (length pre + headerSize) (pre @ bs @ post)) = record_body rec"
    by (simp add: bs headerSize_def legacyHeaderSize_def)
  then have body: "readBodyVerifiedIO hs ?src (length pre + headerSize) (length (record_body rec)) ty crc = Inr (record_body rec)"
    using ck by (simp only: readBodyVerifiedIO_spec [OF assms(4)] contents_file Let_def verifyChecksum_def
        simp_thms if_True)
  have "parseBody hs ?src (length pre) ?h headerSize ty =
    Inr (\<lparr>rr_StreamID = rec_StreamID rec, rr_Seq = rec_Seq rec, rr_EventType = rec_EventType rec,
          rr_IdempotencyKey = rec_IdempotencyKey rec, rr_Payload = rec_Payload rec,
          rr_TimestampMs = rec_TimestampMs rec, rr_CRC32 = crc\<rparr>, ty, length pre + length bs)"
    using body assms(2,3) le
    by (simp add: parseBody_def base_header_fields length_record_body len)
       (simp add: record_body_def sub_def)
  moreover have "ReadAt ?src (length pre) legacyHeaderSize = ?h"
    by (simp add: ReadAt_contents bs)
  moreover have "ReadAt ?src (length pre + legacyHeaderSize) (headerSize - legacyHeaderSize) = PutUint16 ty @ [0, 0]"
    by (simp add: ReadAt_contents bs headerSize_def legacyHeaderSize_def)
  moreover have "Uint16 (sub (PutUint16 ty @ [0, 0]) 0 2) = ty" by (simp add: sub_def)
  moreover have "recordVersionV2 \<noteq> recordVersionV1" by (simp add: recordVersionV2_def recordVersionV1_def)
  moreover have "length (PutUint16 ty @ [0, 0 :: byte]) = headerSize - legacyHeaderSize"
    by (simp add: headerSize_def legacyHeaderSize_def)
  ultimately show ?thesis
    using ty by (simp add: decode_def readRawRecordFromReadAt_def base_header_fields Let_def)
qed

lemma decode_torn:
  assumes "encodeRecord hs rec typ0 = Inr (bs, crc)" and "length (rec_Payload rec) < 2 ^ 32"
    and "crc32c_incremental hs" and "k < length bs"
  shows "decode hs (pre @ take k bs) (length pre) = Inl (if k = 0 then EndOfFile else CorruptRecord)"
proof -
  obtain ty where ty: "ty = (if typ0 = 0 then ChecksumTypeCRC32C else typ0)" "validateChecksumType ty"
      and bs: "bs = base_header rec crc @ (PutUint16 ty @ [0, 0]) @ record_body rec"
      and ck: "checksum hs (record_body rec) ty = Inr crc"
      and le: "length (rec_StreamID rec) \<le> 0xffff" "length (rec_EventType rec) \<le> 0xffff"
        "length (rec_IdempotencyKey rec) \<le> 0xffff"
    using assms(1) by (rule encodeRecord_Inr)
  let ?src = "\<lparr>io_file = pre @ take k bs, io_mmap = None\<rparr>"
  let ?h = "base_header rec crc"
  have len: "length bs = headerSize + length (record_body rec)"
    by (simp add: bs headerSize_def legacyHeaderSize_def)
  consider "k = 0" | "0 < k" "k < legacyHeaderSize" | "legacyHeaderSize \<le> k" "k < headerSize" | "headerSize \<le> k"
    by linarith
  then show ?thesis
  proof cases
    case 3
    have h: "ReadAt ?src (length pre) legacyHeaderSize = ?h" using 3 by (simp add: ReadAt_contents bs)
    have "length (ReadAt ?src (length pre + legacyHeaderSize) (headerSize - legacyHeaderSize)) \<noteq> headerSize - legacyHeaderSize"
      using 3 len by (simp add: ReadAt_contents headerSize_def legacyHeaderSize_def)
    then have "decode hs (pre @ take k bs) (length pre) = Inl CorruptRecord"
      unfolding decode_def readRawRecordFromReadAt_def Let_def h
      by (simp add: base_header_fields recordVersionV2_def recordVersionV1_def)
    then show ?thesis using 3 by (simp add: legacyHeaderSize_def)
  next
    case 4
    have h: "ReadAt ?src (length pre) legacyHeaderSize = ?h"
      using 4 by (simp add: ReadAt_contents bs headerSize_def legacyHeaderSize_def)
    have e: "ReadAt ?src (length pre + legacyHeaderSize) (headerSize - legacyHeaderSize) = PutUint16 ty @ [0, 0]"
      using 4 by (simp add: ReadAt_contents bs headerSize_def legacyHeaderSize_def)
    have "length (take (length (record_body rec)) (drop (length pre + headerSize) (pre @ take k bs))) \<noteq> length (record_body rec)"
      using assms(4) 4 len by simp
    then have "readBodyVerifiedIO hs ?src (length pre + headerSize) (length (record_body rec)) ty crc = Inl CorruptRecord"
      by (simp only: readBodyVerifiedIO_spec [OF assms(3)] contents_file Let_def simp_thms if_False)
    then have p: "parseBody hs ?src (length pre) ?h headerSize ty = Inl CorruptRecord"
      using assms(2) le by (simp add: parseBody_def base_header_fields length_record_body)
    have t: "Uint16 (sub (PutUint16 ty @ [0, 0]) 0 2) = ty" by (simp add: sub_def)
    have e4: "headerSize - legacyHeaderSize = 4" by (simp add: headerSize_def legacyHeaderSize_def)
    have "decode hs (pre @ take k bs) (length pre) = Inl CorruptRecord"
      unfolding decode_def readRawRecordFromReadAt_def Let_def h e
      using ty(2) e4 t p by (simp add: base_header_fields recordVersionV2_def recordVersionV1_def)
    then show ?thesis using 4 by (simp add: headerSize_def)
  qed (use len assms(4) in \<open>auto simp: decode_def readRawRecordFromReadAt_def ReadAt_contents Let_def legacyHeaderSize_def\<close>)
qed

subsection \<open>Properties\<close>

text \<open>
  Computing a checksum in 64 KiB blocks gives the one-shot checksum for every supported type
  and the same error for the others.
\<close>

theorem checksumChunked_correct:
  "crc32c_incremental hs \<Longrightarrow> checksumChunked hs data ty = checksumOnce hs data ty"
  by (simp add: checksumChunked_eq checksum_def)

text \<open>
  C29. A record with a payload below 4 GiB that is written anywhere in a segment is read back unchanged: decoding at its offset returns
  every field with the stored checksum and checksum type, and the offset just after it, whether the
  segment is read through its mapping or through the file, and whether or not its body is long
  enough to be verified in chunks.
\<close>

theorem record_roundtrip:
  assumes "encodeRecord hs rec ty = Inr (bs, crc)" and "length (rec_Payload rec) < 2 ^ 32"
    and "is_i64 (rec_TimestampMs rec)" and "crc32c_incremental hs"
    and "io_mmap src = None \<and> io_file src = pre @ bs @ post \<or> io_mmap src = Some (pre @ bs @ post)"
  shows "readRecordAtIO hs src (length pre) =
    Inr (rec\<lparr>rec_CRC32 := crc, rec_ChecksumType := (if ty = 0 then ChecksumTypeCRC32C else ty)\<rparr>,
         length pre + length bs)"
proof -
  have "bs \<noteq> []" using assms(1) by (auto elim!: encodeRecord_Inr)
  then have "contents src = pre @ bs @ post" using assms(5) by (auto simp: contents_def)
  then show ?thesis
    using reader_decode_Inr [OF assms(4), of src "length pre"] decode_encoded [OF assms(1-4), of pre post]
    by (simp add: readRecordAtIO_def)
qed

text \<open>
  A torn write is always noticed: a record of which only a proper prefix reached the file is
  reported as corrupt, and as the end of the file when nothing of it was written.
\<close>

theorem torn_record_rejected:
  assumes "encodeRecord hs rec ty = Inr (bs, crc)" and "length (rec_Payload rec) < 2 ^ 32"
    and "crc32c_incremental hs" and "k < length bs"
  shows "readRecordAt hs (pre @ take k bs) (length pre) = Inl (if k = 0 then EndOfFile else CorruptRecord)"
  using decode_torn [OF assms, of pre]
  by (simp add: readRecordAt_def readRecordAtIO_def reader_decode [OF assms(3)])

text \<open>
  The mapped reader and the file reader are interchangeable: over the same bytes they return the
  same record, the same next offset and the same error at every offset, also past the end, except
  where less than a header is left: there the mapped reader reports the end of the file and the file
  reader a torn record.
\<close>

theorem mmap_reader_equivalent:
  assumes "crc32c_incremental hs"
  shows "readRawRecordAtWithScratch hs \<lparr>io_file = file, io_mmap = Some file\<rparr> offset =
    (if offset < length file \<and> length file < offset + legacyHeaderSize then Inl EndOfFile
     else readRawRecordAtWithScratch hs \<lparr>io_file = file, io_mmap = None\<rparr> offset)"
proof (cases "header_torn \<lparr>io_file = file, io_mmap = Some file\<rparr> offset")
  case True
  then have t: "offset < length file \<and> length file < offset + legacyHeaderSize" by (auto simp: header_torn_def contents_def split: if_splits)
  then have "file \<noteq> []" by auto
  from reader_torn_header [OF _ this True] t show ?thesis by simp
next
  case False
  then have fits: "\<not> (offset < length file \<and> length file < offset + legacyHeaderSize)"
    by (auto simp: header_torn_def contents_def split: if_splits)
  have "contents \<lparr>io_file = file, io_mmap = Some file\<rparr> = file" by (simp add: contents_def)
  then have "readRawRecordAtWithScratch hs \<lparr>io_file = file, io_mmap = Some file\<rparr> offset = decode hs file offset"
    using reader_decode [OF assms, of "\<lparr>io_file = file, io_mmap = Some file\<rparr>" offset] False by simp
  moreover have "readRawRecordAtWithScratch hs \<lparr>io_file = file, io_mmap = None\<rparr> offset = decode hs file offset"
    by (simp add: reader_decode [OF assms])
  ultimately show ?thesis by (simp only: if_not_P [OF fits])
qed

text \<open>Concrete third-party hashes that satisfy the assumption: a byte sum for CRC32C.\<close>

definition demo_hashes :: hashes where
  "demo_hashes = \<lparr>crc32c_update = (\<lambda>c bs. foldl (\<lambda>a b. a + ucast b) c bs),
     crc32c_checksum = (\<lambda>bs. foldl (\<lambda>a b. a + ucast b) 0 bs), xxh3_hash = (\<lambda>bs. word_of_nat (length bs))\<rparr>"

lemma demo_hashes_incremental: "crc32c_incremental demo_hashes"
  by (simp add: crc32c_incremental_def demo_hashes_def)

definition demo_log_record :: Record where
  "demo_log_record = \<lparr>rec_StreamID = ''s'', rec_Seq = 1, rec_EventType = ''e'', rec_IdempotencyKey = ''k'',
     rec_Payload = [1, 2, 3], rec_TimestampMs = 5, rec_CRC32 = 0, rec_ChecksumType = 0\<rparr>"

lemma demo_encoded: obtains bs crc where
  "encodeRecord demo_hashes demo_log_record 0 = Inr (bs, crc)" "length bs = 46"
proof -
  have "encodedRecordSize demo_log_record ChecksumTypeCRC32C = Inr 46"
    by (simp add: encodedRecordSize_def demo_log_record_def headerSize_def validateChecksumType_def checksum_types)
  moreover have "checksum demo_hashes (record_body demo_log_record) ChecksumTypeCRC32C =
      Inr (crc32c_checksum demo_hashes (record_body demo_log_record))"
    by (simp add: checksum_def checksumOnce_def checksum_types)
  ultimately have "\<exists>bs crc. encodeRecord demo_hashes demo_log_record 0 = Inr (bs, crc) \<and> length bs = 46"
    by (simp add: encodeRecord_def record_body_def demo_log_record_def)
  with that show thesis by blast
qed

theorem checksumChunked_correct_witness:
  "checksumChunked demo_hashes [1, 2] ChecksumTypeIEEE = checksumOnce demo_hashes [1, 2] ChecksumTypeIEEE \<and>
   crc32c_incremental demo_hashes"
  using checksumChunked_correct [OF demo_hashes_incremental] demo_hashes_incremental by blast

theorem record_roundtrip_witness:
  "\<exists>bs crc. encodeRecord demo_hashes demo_log_record 0 = Inr (bs, crc) \<and>
     readRecordAtIO demo_hashes \<lparr>io_file = [9, 9] @ bs @ [7], io_mmap = None\<rparr> 2 =
       Inr (demo_log_record\<lparr>rec_CRC32 := crc, rec_ChecksumType := ChecksumTypeCRC32C\<rparr>, 2 + length bs)"
proof -
  obtain bs crc where e: "encodeRecord demo_hashes demo_log_record 0 = Inr (bs, crc)" by (rule demo_encoded)
  have "length (rec_Payload demo_log_record) < 2 ^ 32" "is_i64 (rec_TimestampMs demo_log_record)"
    by (simp_all add: demo_log_record_def is_i64_def)
  from record_roundtrip [OF e this demo_hashes_incremental,
      of "\<lparr>io_file = [9, 9] @ bs @ [7], io_mmap = None\<rparr>" "[9, 9]" "[7]"] e
  show ?thesis by (auto simp: numeral_2_eq_2)
qed

theorem torn_record_rejected_witness:
  "\<exists>bs crc. encodeRecord demo_hashes demo_log_record 0 = Inr (bs, crc) \<and> length bs = 46 \<and>
     readRecordAt demo_hashes (take 45 bs) 0 = Inl CorruptRecord"
proof -
  obtain bs crc where e: "encodeRecord demo_hashes demo_log_record 0 = Inr (bs, crc)" "length bs = 46"
    by (rule demo_encoded)
  have "length (rec_Payload demo_log_record) < 2 ^ 32" by (simp add: demo_log_record_def)
  from torn_record_rejected [OF e(1) this demo_hashes_incremental, of 45 "[]"] e
  show ?thesis by auto
qed

theorem mmap_reader_equivalent_witness:
  "readRawRecordAtWithScratch demo_hashes \<lparr>io_file = [1], io_mmap = Some [1]\<rparr> 0 = Inl EndOfFile"
  using mmap_reader_equivalent [OF demo_hashes_incremental, of "[1]" 0] by (simp add: legacyHeaderSize_def)

end
