(* ===== verification/Log_Store.thy ===== *)
theory Log_Store
  imports Record_Codec "HOL-Library.AList"
begin

text \<open>
  The single-process durable log of \<open>internal/logstore/store.go\<close>: append, read, trim and statistics.

  \<open>st_files\<close> is the directory's segment files, \<open>st_retention\<close> the watermarks of
  \<open>retention.json\<close>; the other fields are those of \<open>Store\<close>. Go maps that the code enumerates are
  association lists. An operation returns the new state with its result, because failing calls may
  change the state too. What the operating system answers is an explicit argument: the clock, and
  whether closing, opening, writing, syncing and persisting succeed. A failed write may leave a
  prefix of its bytes in the file.

  Index files and the reader cache do not affect results and are not part of this state.
\<close>

subsection \<open>State\<close>

record stream_entry =
  se_Seq :: u64
  se_SegmentID :: u64
  se_Offset :: u64
  se_Length :: u32

record stream_state =
  sm_nextSeq :: u64
  sm_trimBefore :: u64
  sm_entries :: "stream_entry list"

record options =
  op_SegmentSizeBytes :: i64
  op_FsyncPolicy :: string
  op_FsyncInterval :: i64
  op_ChecksumType :: checksum_type
  op_MmapRead :: bool

record store =
  st_options :: options
  st_files :: "(u64 \<times> bytes) list"
  st_retention :: "(string \<times> u64) list"
  st_open :: bool
  st_activeSegmentID :: u64
  st_activeSegmentBytes :: nat
  st_streams :: "(string \<times> stream_state) list"
  st_idempotency :: "string \<rightharpoonup> Record"
  st_lastSync :: int

record append_request =
  rq_StreamID :: string
  rq_EventType :: string
  rq_IdempotencyKey :: string
  rq_Payload :: bytes

record trim_stats =
  ts_StreamID :: string
  ts_FirstSeq :: u64
  ts_NextSeq :: u64
  ts_TrimmedBeforeSeq :: u64
  ts_CompactableRecords :: u64
  ts_CompactableBytes :: u64

text \<open>The answers of the operating system during one call.\<close>

record env =
  ev_nowMs :: i64
  ev_clock :: int
  ev_close_ok :: bool
  ev_open_ok :: bool
  ev_written :: "nat option"
  ev_sync_ok :: bool
  ev_persist_ok :: bool

definition zero_stream :: stream_state where
  "zero_stream = \<lparr>sm_nextSeq = 0, sm_trimBefore = 0, sm_entries = []\<rparr>"

definition stream :: "store \<Rightarrow> string \<Rightarrow> stream_state" where
  "stream s streamID = (case map_of (st_streams s) streamID of None \<Rightarrow> zero_stream | Some state \<Rightarrow> state)"

definition put_stream :: "string \<Rightarrow> stream_state \<Rightarrow> store \<Rightarrow> store" where
  "put_stream streamID state s = s\<lparr>st_streams := AList.update streamID state (st_streams s)\<rparr>"

subsection \<open>Idempotency keys\<close>

definition idempotencyKey :: "string \<Rightarrow> string \<Rightarrow> string" where
  "idempotencyKey streamID key = streamID @ CHR 0x00 # key"

definition idempotencyRecord :: "Record \<Rightarrow> Record" where
  "idempotencyRecord rec = rec\<lparr>rec_Payload := []\<rparr>"

subsection \<open>Segment files\<close>

definition streamStateLocked :: "store \<Rightarrow> string \<Rightarrow> store \<times> stream_state" where
  "streamStateLocked s streamID =
     (case map_of (st_streams s) streamID of
        None \<Rightarrow> (put_stream streamID zero_stream s, zero_stream)
      | Some state \<Rightarrow> (s, state))"

text \<open>Opening a segment for appending creates the file when it is missing.\<close>

definition create_file :: "u64 \<Rightarrow> (u64 \<times> bytes) list \<Rightarrow> (u64 \<times> bytes) list" where
  "create_file i fs = (if map_of fs i = None then fs @ [(i, [])] else fs)"

definition file_of :: "store \<Rightarrow> u64 \<Rightarrow> bytes" where
  "file_of s i = (case map_of (st_files s) i of None \<Rightarrow> [] | Some f \<Rightarrow> f)"

definition openActiveFilesLocked :: "env \<Rightarrow> store \<Rightarrow> store \<times> (log_error + unit)" where
  "openActiveFilesLocked ev s0 =
     (let s = (if st_activeSegmentID s0 = 0 then s0\<lparr>st_activeSegmentID := 1\<rparr> else s0) in
      if \<not> ev_open_ok ev then (s, Inl OpenFailed)
      else
        (let s1 = s\<lparr>st_files := create_file (st_activeSegmentID s) (st_files s)\<rparr> in
         (s1\<lparr>st_open := True, st_activeSegmentBytes := length (file_of s1 (st_activeSegmentID s)),
             st_lastSync := ev_clock ev\<rparr>, Inr ())))"

definition closeActiveFilesLocked :: "env \<Rightarrow> store \<Rightarrow> store \<times> (log_error + unit)" where
  "closeActiveFilesLocked ev s =
     (s\<lparr>st_open := False, st_lastSync := (if ev_close_ok ev then ev_clock ev else st_lastSync s)\<rparr>,
      if ev_close_ok ev then Inr () else Inl CloseFailed)"

definition rollSegmentLocked :: "env \<Rightarrow> store \<Rightarrow> store \<times> (log_error + unit)" where
  "rollSegmentLocked ev s =
     (case closeActiveFilesLocked ev s of
        (s1, Inl e) \<Rightarrow> (s1, Inl e)
      | (s1, Inr _) \<Rightarrow>
          openActiveFilesLocked ev
            (s1\<lparr>st_activeSegmentID := st_activeSegmentID s1 + 1, st_activeSegmentBytes := 0\<rparr>))"

definition ensureWritableSegmentLocked :: "env \<Rightarrow> nat \<Rightarrow> store \<Rightarrow> store \<times> (log_error + unit)" where
  "ensureWritableSegmentLocked ev recordLen s =
     (if \<not> st_open s then (s, Inl StoreClosed)
      else if 0 < st_activeSegmentBytes s \<and>
        op_SegmentSizeBytes (st_options s) < int (st_activeSegmentBytes s + recordLen) then rollSegmentLocked ev s
      else (s, Inr ()))"

definition syncFilesLocked :: "env \<Rightarrow> store \<Rightarrow> store \<times> (log_error + unit)" where
  "syncFilesLocked ev s =
     (if ev_sync_ok ev then (s\<lparr>st_lastSync := ev_clock ev\<rparr>, Inr ()) else (s, Inl SyncFailed))"

definition syncForPolicyLocked :: "env \<Rightarrow> store \<Rightarrow> store \<times> (log_error + unit)" where
  "syncForPolicyLocked ev s =
     (let policy = op_FsyncPolicy (st_options s) in
      if policy = ''always'' then syncFilesLocked ev s
      else if policy = ''batch'' then (s, Inr ())
      else if policy = ''interval'' then
        (if op_FsyncInterval (st_options s) \<le> ev_clock ev - st_lastSync s then syncFilesLocked ev s else (s, Inr ()))
      else (s, Inl (UnsupportedFsyncPolicy policy)))"

text \<open>The segment is opened with \<open>O_APPEND\<close>: bytes go to the end of the file, whatever the store believes its size is.\<close>

definition write_log :: "env \<Rightarrow> bytes \<Rightarrow> store \<Rightarrow> store \<times> (log_error + unit)" where
  "write_log ev encoded s =
     (let f = file_of s (st_activeSegmentID s) in
      case ev_written ev of
        None \<Rightarrow> (s\<lparr>st_files := AList.update (st_activeSegmentID s) (f @ encoded) (st_files s)\<rparr>, Inr ())
      | Some k \<Rightarrow>
          (s\<lparr>st_files := AList.update (st_activeSegmentID s) (f @ take k encoded) (st_files s)\<rparr>, Inl WriteFailed))"

subsection \<open>Append\<close>

definition new_record :: "env \<Rightarrow> append_request \<Rightarrow> u64 \<Rightarrow> Record" where
  "new_record ev req seq =
     \<lparr>rec_StreamID = rq_StreamID req, rec_Seq = seq, rec_EventType = rq_EventType req,
      rec_IdempotencyKey = rq_IdempotencyKey req, rec_Payload = [] @ rq_Payload req,
      rec_TimestampMs = ev_nowMs ev, rec_CRC32 = 0, rec_ChecksumType = 0\<rparr>"

definition Append :: "hashes \<Rightarrow> env \<Rightarrow> append_request \<Rightarrow> store \<Rightarrow> store \<times> (log_error + Record \<times> bool)" where
  "Append hs ev req s =
     (if rq_StreamID req = '''' then (s, Inl StreamIDRequired)
      else if rq_EventType req = '''' then (s, Inl EventTypeRequired)
      else
        (case (if rq_IdempotencyKey req \<noteq> ''''
               then st_idempotency s (idempotencyKey (rq_StreamID req) (rq_IdempotencyKey req)) else None) of
           Some existing \<Rightarrow> (s, Inr (cloneRecord existing, True))
         | None \<Rightarrow>
             (let (s1, state) = streamStateLocked s (rq_StreamID req);
                  seq = (if sm_nextSeq state = 0 then 1 else sm_nextSeq state);
                  rec0 = new_record ev req seq
              in case encodeRecord hs rec0 (op_ChecksumType (st_options s)) of
                   Inl e \<Rightarrow> (s1, Inl e)
                 | Inr (encoded, crc) \<Rightarrow>
                     (let rec = rec0\<lparr>rec_CRC32 := crc, rec_ChecksumType := op_ChecksumType (st_options s)\<rparr> in
                      case ensureWritableSegmentLocked ev (length encoded) s1 of
                        (s2, Inl e) \<Rightarrow> (s2, Inl e)
                      | (s2, Inr _) \<Rightarrow>
                          if 2 ^ 32 \<le> length encoded then (s2, Inl RecordTooLarge)
                          else
                            (let offset = st_activeSegmentBytes s2 in
                             case write_log ev encoded s2 of
                               (s3, Inl e) \<Rightarrow> (s3, Inl e)
                             | (s3, Inr _) \<Rightarrow>
                                 (let entry = \<lparr>se_Seq = rec_Seq rec, se_SegmentID = st_activeSegmentID s3,
                                               se_Offset = word_of_nat offset,
                                               se_Length = word_of_nat (length encoded)\<rparr> in
                                  case syncForPolicyLocked ev s3 of
                                    (s4, Inl e) \<Rightarrow> (s4, Inl e)
                                  | (s4, Inr _) \<Rightarrow>
                                      (let s5 = put_stream (rq_StreamID req)
                                             (state\<lparr>sm_entries := sm_entries state @ [entry], sm_nextSeq := seq + 1\<rparr>)
                                             (s4\<lparr>st_activeSegmentBytes := st_activeSegmentBytes s4 + length encoded\<rparr>)
                                       in (if rec_IdempotencyKey rec \<noteq> ''''
                                           then s5\<lparr>st_idempotency := (st_idempotency s5)
                                             (idempotencyKey (rec_StreamID rec) (rec_IdempotencyKey rec) \<mapsto>
                                                idempotencyRecord rec)\<rparr>
                                           else s5, Inr (rec, False)))))))))"

subsection \<open>Reading\<close>

text \<open>\<open>sort.Search\<close> of the standard library: bisection for the first index that satisfies the predicate.\<close>

function search_loop :: "nat \<Rightarrow> nat \<Rightarrow> (nat \<Rightarrow> bool) \<Rightarrow> nat" where
  "search_loop i j f =
     (if j \<le> i then i
      else (let h = (i + j) div 2 in if \<not> f h then search_loop (h + 1) j f else search_loop i h f))"
  by pat_completeness auto
termination by (relation "measure (\<lambda>(i, j, f). j - i)") auto

declare search_loop.simps [simp del]

definition sort_Search :: "nat \<Rightarrow> (nat \<Rightarrow> bool) \<Rightarrow> nat" where
  "sort_Search n f = search_loop 0 n f"

definition first_from :: "stream_entry list \<Rightarrow> u64 \<Rightarrow> nat" where
  "first_from entries seq = sort_Search (length entries) (\<lambda>i. seq \<le> se_Seq (entries ! i))"

definition openSegmentReader :: "store \<Rightarrow> u64 \<Rightarrow> log_error + segment_io" where
  "openSegmentReader s segmentID =
     (case map_of (st_files s) segmentID of
        None \<Rightarrow> Inl (SegmentMissing segmentID)
      | Some f \<Rightarrow>
          (let sealed = (st_activeSegmentID s \<noteq> 0 \<and> segmentID < st_activeSegmentID s) in
           Inr \<lparr>io_file = f, io_mmap = (if op_MmapRead (st_options s) \<and> sealed then Some f else None)\<rparr>))"

definition readIndexedRawRecordFromReader :: "hashes \<Rightarrow> segment_io \<Rightarrow> string \<Rightarrow> stream_entry \<Rightarrow> log_error + raw_record" where
  "readIndexedRawRecordFromReader hs src streamID entry =
     (if 2 ^ 63 \<le> unat (se_Offset entry) then Inl CorruptIndex
      else
        (let offset = unat (se_Offset entry) in
         case readRawRecordAtWithScratch hs src offset of
           Inl e \<Rightarrow> Inl e
         | Inr (rec, _, nextOffset) \<Rightarrow>
             if rr_StreamID rec \<noteq> streamID \<or> rr_Seq rec \<noteq> se_Seq entry \<or>
                nextOffset - offset \<noteq> unat (se_Length entry) then Inl CorruptRecord
             else Inr rec))"

definition readIndexedRecordFromReader :: "hashes \<Rightarrow> segment_io \<Rightarrow> string \<Rightarrow> stream_entry \<Rightarrow> log_error + Record" where
  "readIndexedRecordFromReader hs src streamID entry =
     (if 2 ^ 63 \<le> unat (se_Offset entry) then Inl CorruptIndex
      else
        (let offset = unat (se_Offset entry) in
         case readRecordAtIO hs src offset of
           Inl e \<Rightarrow> Inl e
         | Inr (rec, nextOffset) \<Rightarrow>
             if rec_StreamID rec \<noteq> streamID \<or> rec_Seq rec \<noteq> se_Seq entry \<or>
                nextOffset - offset \<noteq> unat (se_Length entry) then Inl CorruptRecord
             else Inr (cloneRecord rec)))"

definition read_entry :: "hashes \<Rightarrow> store \<Rightarrow> string \<Rightarrow> stream_entry \<Rightarrow> log_error + Record" where
  "read_entry hs s streamID entry =
     (case openSegmentReader s (se_SegmentID entry) of
        Inl e \<Rightarrow> Inl e
      | Inr src \<Rightarrow> readIndexedRecordFromReader hs src streamID entry)"

definition selectEntries :: "store \<Rightarrow> string \<Rightarrow> u64 \<Rightarrow> int \<Rightarrow> stream_entry list" where
  "selectEntries s streamID fromSeq0 limit =
     (case map_of (st_streams s) streamID of
        None \<Rightarrow> []
      | Some state \<Rightarrow>
          (let fromSeq = (if fromSeq0 < sm_trimBefore state then sm_trimBefore state else fromSeq0);
               entries = sm_entries state;
               start = first_from entries fromSeq;
               stop = (if 0 < limit then min (start + nat limit) (length entries) else length entries)
           in if start < stop then take (stop - start) (drop start entries) else []))"

definition ReadEach :: "hashes \<Rightarrow> store \<Rightarrow> string \<Rightarrow> u64 \<Rightarrow> int \<Rightarrow> ('a \<Rightarrow> Record \<Rightarrow> log_error + 'a) \<Rightarrow> 'a \<Rightarrow> log_error + 'a" where
  "ReadEach hs s streamID fromSeq limit emit acc =
     (if streamID = '''' then Inl StreamIDRequired
      else fold_result (\<lambda>a entry. case read_entry hs s streamID entry of Inl e \<Rightarrow> Inl e | Inr rec \<Rightarrow> emit a rec)
             acc (selectEntries s streamID (if fromSeq = 0 then 1 else fromSeq) limit))"

definition Read :: "hashes \<Rightarrow> store \<Rightarrow> string \<Rightarrow> u64 \<Rightarrow> int \<Rightarrow> log_error + Record list" where
  "Read hs s streamID fromSeq limit =
     ReadEach hs s streamID fromSeq (if limit \<le> 0 then 100 else limit) (\<lambda>out rec. Inr (out @ [rec])) []"

subsection \<open>Retention and statistics\<close>

definition streamStatsLocked :: "store \<Rightarrow> string \<Rightarrow> trim_stats" where
  "streamStatsLocked s streamID =
     (let state = map_of (st_streams s) streamID;
          trimmedBefore = (case state of None \<Rightarrow> 0 | Some st \<Rightarrow> sm_trimBefore st);
          nextSeq = (case state of None \<Rightarrow> 1 | Some st \<Rightarrow> if sm_nextSeq st = 0 then 1 else sm_nextSeq st);
          stats0 = \<lparr>ts_StreamID = streamID, ts_FirstSeq = 0, ts_NextSeq = nextSeq,
                    ts_TrimmedBeforeSeq = trimmedBefore, ts_CompactableRecords = 0, ts_CompactableBytes = 0\<rparr>;
          stats = (case state of None \<Rightarrow> stats0 | Some st \<Rightarrow>
            foldl (\<lambda>stats entry.
                if 0 < trimmedBefore \<and> se_Seq entry < trimmedBefore then
                  stats\<lparr>ts_CompactableRecords := ts_CompactableRecords stats + 1,
                        ts_CompactableBytes := ts_CompactableBytes stats + ucast (se_Length entry)\<rparr>
                else if ts_FirstSeq stats = 0 \<or> se_Seq entry < ts_FirstSeq stats then
                  stats\<lparr>ts_FirstSeq := se_Seq entry\<rparr>
                else stats) stats0 (sm_entries st))
      in if ts_FirstSeq stats = 0 then stats\<lparr>ts_FirstSeq := nextSeq\<rparr> else stats)"

text \<open>The watermarks written to \<open>retention.json\<close>; its time stamps are informational.\<close>

definition persistRetentionLocked :: "env \<Rightarrow> store \<Rightarrow> store \<times> (log_error + unit)" where
  "persistRetentionLocked ev s =
     (if ev_persist_ok ev then
        (s\<lparr>st_retention := map (\<lambda>(sid, st). (sid, sm_trimBefore st))
             (filter (\<lambda>(sid, st). sm_trimBefore st \<noteq> 0) (st_streams s))\<rparr>, Inr ())
      else (s, Inl PersistFailed))"

definition Trim :: "env \<Rightarrow> string \<Rightarrow> u64 \<Rightarrow> store \<Rightarrow> store \<times> (log_error + trim_stats)" where
  "Trim ev streamID beforeSeq0 s =
     (if streamID = '''' then (s, Inl StreamIDRequired)
      else if beforeSeq0 = 0 then (s, Inl BeforeSeqRequired)
      else
        (case map_of (st_streams s) streamID of
           None \<Rightarrow> (s, Inl (StreamNotFound streamID))
         | Some state \<Rightarrow>
             if sm_nextSeq state = 0 then (s, Inl (StreamNotFound streamID))
             else
               (let nextSeq = (if sm_nextSeq state = 0 then 1 else sm_nextSeq state);
                    b1 = (if nextSeq < beforeSeq0 then nextSeq else beforeSeq0);
                    beforeSeq = (if b1 < 1 then 1 else b1)
                in if sm_trimBefore state < beforeSeq then
                     (case persistRetentionLocked ev (put_stream streamID (state\<lparr>sm_trimBefore := beforeSeq\<rparr>) s) of
                        (s1, Inl e) \<Rightarrow> (s1, Inl e)
                      | (s1, Inr _) \<Rightarrow> (s1, Inr (streamStatsLocked s1 streamID)))
                   else (s, Inr (streamStatsLocked s streamID)))))"

definition HasPrefix :: "string \<Rightarrow> string \<Rightarrow> bool" where
  "HasPrefix s pre \<longleftrightarrow> take (length pre) s = pre"

definition Stats :: "store \<Rightarrow> string \<Rightarrow> string \<Rightarrow> trim_stats list" where
  "Stats s streamID pre =
     (let streams = map fst (filter (\<lambda>(sid, st). sm_entries st \<noteq> [] \<or> 0 < sm_trimBefore st) (st_streams s));
          ids = filter (\<lambda>sid. \<not> (streamID \<noteq> '''' \<and> sid \<noteq> streamID) \<and> \<not> (pre \<noteq> '''' \<and> \<not> HasPrefix sid pre)) streams
      in map (streamStatsLocked s) (sort ids))"

definition ListStreams :: "store \<Rightarrow> string \<Rightarrow> string list" where
  "ListStreams s pre =
     sort (map fst (filter (\<lambda>(sid, st). sm_entries st \<noteq> [] \<and> (pre = '''' \<or> HasPrefix sid pre)) (st_streams s)))"

end
