(* ===== verification/Log_Refinement.thy ===== *)
theory Log_Refinement
  imports Log_Store
begin

text \<open>
  What the log store promises: the abstract log a store represents, and the proofs that append,
  read and trim implement their effect on it. A log is a list of segments with their records;
  the relation \<open>repr\<close> ties files, index entries, counters and the duplicate table to it.
\<close>

subsection \<open>Bisection\<close>

lemma search_loop_spec:
  assumes "i \<le> j" and "\<And>a b. a \<le> b \<Longrightarrow> b < j \<Longrightarrow> f a \<Longrightarrow> f b"
  shows "search_loop i j f \<le> j \<and> (\<forall>k. i \<le> k \<and> k < search_loop i j f \<longrightarrow> \<not> f k) \<and>
    (search_loop i j f < j \<longrightarrow> f (search_loop i j f))"
  using assms
proof (induction i j f rule: search_loop.induct)
  case (1 i j f)
  show ?case
  proof (cases "j \<le> i")
    case True
    then show ?thesis using 1(3) by (subst (1 2 3 4) search_loop.simps) auto
  next
    case False
    let ?h = "(i + j) div 2"
    have h: "i \<le> ?h" "?h < j" using False by auto
    show ?thesis
    proof (cases "f ?h")
      case True
      then have "search_loop i j f = search_loop i ?h f" using False by (subst search_loop.simps) (simp add: Let_def)
      moreover have "f b" if "a \<le> b" "b < ?h" "f a" for a b using 1(4) [of a b] that h(2) by simp
      ultimately show ?thesis using 1(2) [OF False refl _ h(1)] h True by (auto simp: le_less)
    next
      case f: False
      then have e: "search_loop i j f = search_loop (?h + 1) j f" using False by (subst search_loop.simps) (simp add: Let_def)
      have "\<not> f k" if "k \<le> ?h" for k using 1(4) [OF that h(2)] f by blast
      moreover have "?h + 1 \<le> j" using h(2) by simp
      then have ih: "search_loop (?h + 1) j f \<le> j \<and>
          (\<forall>k. ?h + 1 \<le> k \<and> k < search_loop (?h + 1) j f \<longrightarrow> \<not> f k) \<and>
          (search_loop (?h + 1) j f < j \<longrightarrow> f (search_loop (?h + 1) j f))"
        using 1(4) by (intro 1(1) [OF False refl f]) blast+
      ultimately show ?thesis unfolding e by (metis Suc_eq_plus1 not_less_eq_eq)
    qed
  qed
qed

lemma first_from_sorted:
  assumes "sorted_wrt (<) (map se_Seq es)"
  shows "drop (first_from es q) es = filter (\<lambda>e. q \<le> se_Seq e) es" "first_from es q \<le> length es"
proof -
  let ?n = "first_from es q"
  have mono: "q \<le> se_Seq (es ! b)" if "a \<le> b" "b < length es" "q \<le> se_Seq (es ! a)" for a b
    using sorted_wrt_nth_less [OF assms, of a b] that by (cases "a = b") (auto simp: order.strict_implies_order)
  note spec = search_loop_spec [of 0 "length es" "\<lambda>i. q \<le> se_Seq (es ! i)", OF le0 mono]
  then show le: "?n \<le> length es" by (simp add: first_from_def sort_Search_def)
  have "\<not> q \<le> se_Seq e" if e: "e \<in> set (take ?n es)" for e
  proof -
    from e obtain k where "k < ?n" "e = es ! k" by (auto simp: in_set_conv_nth)
    then show ?thesis using spec by (auto simp: first_from_def sort_Search_def)
  qed
  then have "filter (\<lambda>e. q \<le> se_Seq e) (take ?n es) = []" by (simp add: filter_empty_conv)
  moreover have "q \<le> se_Seq e" if e: "e \<in> set (drop ?n es)" for e
  proof -
    from e obtain k where k: "?n + k < length es" "e = es ! (?n + k)"
      by (auto simp: in_set_conv_nth less_diff_conv add.commute)
    then have "q \<le> se_Seq (es ! ?n)" using spec by (auto simp: first_from_def sort_Search_def)
    then show ?thesis using mono [of ?n "?n + k"] k by simp
  qed
  then have "filter (\<lambda>e. q \<le> se_Seq e) (drop ?n es) = drop ?n es" by (simp add: filter_id_conv)
  ultimately show "drop ?n es = filter (\<lambda>e. q \<le> se_Seq e) es"
    by (metis append_Nil append_take_drop_id filter_append)
qed

subsection \<open>The layout of a log on disk\<close>

text \<open>
  A log is the list of its segments, each with the records it holds in file order. \<open>layout\<close> is the
  index that belongs to it; \<open>repr\<close> relates a store to the log it represents.
\<close>

type_synonym seg_log = "(u64 \<times> Record list) list"

definition stored :: "hashes \<Rightarrow> Record \<Rightarrow> bool" where
  "stored hs rec \<longleftrightarrow> rec_ChecksumType rec \<noteq> 0 \<and> is_i64 (rec_TimestampMs rec) \<and>
     (case encodeRecord hs rec (rec_ChecksumType rec) of Inl _ \<Rightarrow> False
      | Inr (bs, crc) \<Rightarrow> crc = rec_CRC32 rec \<and> length bs < 2 ^ 32)"

definition enc :: "hashes \<Rightarrow> Record \<Rightarrow> bytes" where
  "enc hs rec = (case encodeRecord hs rec (rec_ChecksumType rec) of Inl _ \<Rightarrow> [] | Inr (bs, _) \<Rightarrow> bs)"

definition seg_bytes :: "hashes \<Rightarrow> Record list \<Rightarrow> bytes" where
  "seg_bytes hs recs = concat (map (enc hs) recs)"

definition entry_of :: "hashes \<Rightarrow> u64 \<Rightarrow> nat \<Rightarrow> Record \<Rightarrow> stream_entry" where
  "entry_of hs i off rec = \<lparr>se_Seq = rec_Seq rec, se_SegmentID = i, se_Offset = word_of_nat off,
     se_Length = word_of_nat (length (enc hs rec))\<rparr>"

fun index_from :: "hashes \<Rightarrow> u64 \<Rightarrow> nat \<Rightarrow> Record list \<Rightarrow> (Record \<times> stream_entry) list" where
  "index_from hs i off [] = []"
| "index_from hs i off (rec # recs) = (rec, entry_of hs i off rec) # index_from hs i (off + length (enc hs rec)) recs"

definition layout :: "hashes \<Rightarrow> seg_log \<Rightarrow> (Record \<times> stream_entry) list" where
  "layout hs segs = concat (map (\<lambda>(i, recs). index_from hs i 0 recs) segs)"

definition log_records :: "seg_log \<Rightarrow> Record list" where
  "log_records segs = concat (map snd segs)"

definition stream_log :: "seg_log \<Rightarrow> string \<Rightarrow> Record list" where
  "stream_log segs sid = filter (\<lambda>r. rec_StreamID r = sid) (log_records segs)"

definition entries_for :: "hashes \<Rightarrow> seg_log \<Rightarrow> string \<Rightarrow> stream_entry list" where
  "entries_for hs segs sid = map snd (filter (\<lambda>(r, e). rec_StreamID r = sid) (layout hs segs))"

definition next_of :: "Record list \<Rightarrow> u64" where
  "next_of recs = (if recs = [] then 0 else rec_Seq (last recs) + 1)"

definition remember :: "(string \<rightharpoonup> Record) \<Rightarrow> Record \<Rightarrow> (string \<rightharpoonup> Record)" where
  "remember m rec = (if rec_IdempotencyKey rec \<noteq> ''''
     then m(idempotencyKey (rec_StreamID rec) (rec_IdempotencyKey rec) \<mapsto> idempotencyRecord rec) else m)"

definition log_ok :: "hashes \<Rightarrow> seg_log \<Rightarrow> bool" where
  "log_ok hs segs \<longleftrightarrow> segs \<noteq> [] \<and> sorted_wrt (<) (map fst segs) \<and> list_all (\<lambda>i. 0 < i) (map fst segs) \<and>
     list_all (stored hs) (log_records segs) \<and>
     list_all (\<lambda>(i, recs). length (seg_bytes hs recs) < 2 ^ 63) segs \<and>
     list_all (\<lambda>r. rec_StreamID r \<noteq> '''' \<and> 0 < rec_Seq r \<and> rec_Seq r + 1 \<noteq> 0) (log_records segs) \<and>
     (\<forall>sid. sorted_wrt (<) (map rec_Seq (stream_log segs sid)))"

definition options_ok :: "options \<Rightarrow> bool" where
  "options_ok op \<longleftrightarrow> is_i64 (op_SegmentSizeBytes op) \<and> op_ChecksumType op \<noteq> 0 \<and>
     validateChecksumType (op_ChecksumType op) \<and> op_FsyncPolicy op \<in> {''always'', ''batch'', ''interval''}"

definition repr :: "hashes \<Rightarrow> seg_log \<Rightarrow> store \<Rightarrow> bool" where
  "repr hs segs s \<longleftrightarrow> log_ok hs segs \<and> options_ok (st_options s) \<and>
     st_files s = map (\<lambda>(i, recs). (i, seg_bytes hs recs)) segs \<and>
     (st_open s \<longrightarrow> st_activeSegmentID s = fst (last segs) \<and>
        st_activeSegmentBytes s = length (seg_bytes hs (snd (last segs)))) \<and>
     distinct (map fst (st_streams s)) \<and>
     (\<forall>sid. sm_entries (stream s sid) = entries_for hs segs sid \<and>
        sm_nextSeq (stream s sid) = max (next_of (stream_log segs sid)) (sm_trimBefore (stream s sid))) \<and>
     st_idempotency s = foldl remember Map.empty (log_records segs)"

subsection \<open>Reading what the layout says\<close>

lemma storedD:
  assumes "stored hs rec"
  shows "encodeRecord hs rec (rec_ChecksumType rec) = Inr (enc hs rec, rec_CRC32 rec)"
    "length (rec_Payload rec) < 2 ^ 32" "is_i64 (rec_TimestampMs rec)" "length (enc hs rec) < 2 ^ 32"
    "rec_ChecksumType rec \<noteq> 0" "0 < length (enc hs rec)"
proof -
  obtain bs crc where e: "encodeRecord hs rec (rec_ChecksumType rec) = Inr (bs, crc)"
      "crc = rec_CRC32 rec" "length bs < 2 ^ 32"
    using assms by (auto simp: stored_def split: sum.splits)
  then show 1: "encodeRecord hs rec (rec_ChecksumType rec) = Inr (enc hs rec, rec_CRC32 rec)"
    and "length (enc hs rec) < 2 ^ 32" by (simp_all add: enc_def)
  show "is_i64 (rec_TimestampMs rec)" "rec_ChecksumType rec \<noteq> 0" using assms by (simp_all add: stored_def)
  from e(1) obtain ty where "bs = base_header rec crc @ (PutUint16 ty @ [0, 0]) @ record_body rec"
    by (rule encodeRecord_Inr)
  then show "length (rec_Payload rec) < 2 ^ 32" "0 < length (enc hs rec)"
    using e by (simp_all add: enc_def length_record_body)
qed

lemma read_stored:
  assumes "stored hs rec" "crc32c_incremental hs" "contents src = pre @ enc hs rec @ post"
  shows "readRecordAtIO hs src (length pre) = Inr (rec, length pre + length (enc hs rec))"
  using storedD [OF assms(1)] decode_encoded [OF storedD(1-3) [OF assms(1)] assms(2), of pre post]
    reader_decode_Inr [OF assms(2), of src "length pre"]
  by (simp add: readRecordAtIO_def assms(3))

lemma index_from_fst [simp]: "map fst (index_from hs i off recs) = recs"
  by (induction recs arbitrary: off) simp_all

lemma read_indexed:
  assumes "(r, e) \<in> set (index_from hs i (length pre) recs)" "list_all (stored hs) recs"
    "crc32c_incremental hs" "contents src = pre @ seg_bytes hs recs @ post" "length (pre @ seg_bytes hs recs) < 2 ^ 63"
  shows "readIndexedRecordFromReader hs src (rec_StreamID r) e = Inr r"
  using assms
proof (induction recs arbitrary: pre)
  case (Cons rec recs)
  have st: "stored hs rec" using Cons.prems(2) by simp
  show ?case
  proof (cases "(r, e) = (rec, entry_of hs i (length pre) rec)")
    case True
    have "length pre < 2 ^ 63" using Cons.prems(5) by simp
    then have "unat (word_of_nat (length pre) :: u64) = length pre" by (simp add: unat_of_nat)
    then show ?thesis
      using read_stored [OF st Cons.prems(3), of src pre "seg_bytes hs recs @ post"] Cons.prems(4) True \<open>length pre < _\<close>
        storedD(4) [OF st]
      by (simp add: readIndexedRecordFromReader_def entry_of_def seg_bytes_def)
  next
    case False
    then show ?thesis
      using Cons.IH [of "pre @ enc hs rec"] Cons.prems by (auto simp: seg_bytes_def add.assoc)
  qed
qed simp

lemma index_from_entry:
  "(r, e) \<in> set (index_from hs i off recs) \<Longrightarrow> se_Seq e = rec_Seq r \<and> se_SegmentID e = i"
  by (induction recs arbitrary: off) (auto simp: entry_of_def)

lemma layout_fst: "map fst (layout hs segs) = log_records segs"
  by (induction segs) (auto simp: layout_def log_records_def)

lemma entries_for_fst: "map fst (filter (\<lambda>(r, e). rec_StreamID r = sid) (layout hs segs)) = stream_log segs sid"
proof -
  have "filter (\<lambda>(r, e). rec_StreamID r = sid) (layout hs segs) =
      filter ((\<lambda>r. rec_StreamID r = sid) \<circ> fst) (layout hs segs)"
    by (rule filter_cong) auto
  then show ?thesis by (simp add: stream_log_def flip: layout_fst [of hs segs] filter_map)
qed

lemma layout_entry:
  "(r, e) \<in> set (layout hs segs) \<Longrightarrow> se_Seq e = rec_Seq r"
  by (auto simp: layout_def dest: index_from_entry)

lemma entries_for_Seq: "map se_Seq (entries_for hs segs sid) = map rec_Seq (stream_log segs sid)"
proof -
  have "map (se_Seq \<circ> snd) (filter (\<lambda>(r, e). rec_StreamID r = sid) (layout hs segs)) =
      map (rec_Seq \<circ> fst) (filter (\<lambda>(r, e). rec_StreamID r = sid) (layout hs segs))"
    by (rule map_cong) (auto dest: layout_entry)
  then show ?thesis by (simp add: entries_for_def flip: entries_for_fst [of sid hs segs])
qed

lemma sorted_wrt_less_distinct: "sorted_wrt (<) (xs :: 'a :: linorder list) \<Longrightarrow> distinct xs"
  by (simp add: strict_sorted_iff)

lemma read_entry_layout:
  assumes "repr hs segs s" "crc32c_incremental hs" "(r, e) \<in> set (layout hs segs)"
  shows "read_entry hs s (rec_StreamID r) e = Inr r"
proof -
  have ok: "log_ok hs segs" and files: "st_files s = map (\<lambda>(i, recs). (i, seg_bytes hs recs)) segs"
    using assms(1) by (simp_all add: repr_def)
  from assms(3) obtain i recs where seg: "(i, recs) \<in> set segs" and e: "(r, e) \<in> set (index_from hs i 0 recs)"
    by (auto simp: layout_def)
  have fst_eq: "map fst (st_files s) = map fst segs" by (simp add: files split_def)
  have "distinct (map fst (st_files s))" unfolding fst_eq
    using ok by (intro sorted_wrt_less_distinct) (simp add: log_ok_def)
  moreover have "(i, seg_bytes hs recs) \<in> set (st_files s)" using seg by (force simp: files)
  ultimately have f: "map_of (st_files s) i = Some (seg_bytes hs recs)" by simp
  have "se_SegmentID e = i" using index_from_entry [OF e] by simp
  moreover have "list_all (stored hs) recs"
    using ok seg by (auto simp: log_ok_def log_records_def list_all_iff)
  moreover have "length (seg_bytes hs recs) < 2 ^ 63" using ok seg by (auto simp: log_ok_def list_all_iff)
  ultimately show ?thesis
    using read_indexed [of r e hs i "[]" recs _ "[]"] e assms(2)
    by (simp add: read_entry_def openSegmentReader_def f Let_def contents_def)
qed

lemma fold_result_read:
  assumes "\<And>r e. (r, e) \<in> set ps \<Longrightarrow> rd e = Inr r"
  shows "fold_result (\<lambda>a e. case rd e of Inl err \<Rightarrow> Inl err | Inr r \<Rightarrow> emit a r) acc (map snd ps) =
    fold_result emit acc (map fst ps)"
  using assms
proof (induction ps arbitrary: acc)
  case (Cons p ps)
  obtain r e where p: "p = (r, e)" by (cases p)
  have rd: "rd e = Inr r" using Cons.prems p by simp
  have IH: "fold_result (\<lambda>a e. case rd e of Inl err \<Rightarrow> Inl err | Inr r \<Rightarrow> emit a r) a (map snd ps) =
      fold_result emit a (map fst ps)" for a
    by (rule Cons.IH) (use Cons.prems in simp)
  show ?case by (simp add: p rd IH split: sum.split)
qed simp

lemma fold_result_collect: "fold_result (\<lambda>out r. Inr (out @ [r])) acc rs = Inr (acc @ rs)"
  by (induction rs arbitrary: acc) simp_all

lemma repr_stream:
  assumes "repr hs segs s"
  shows "sm_entries (stream s sid) = entries_for hs segs sid"
    "sm_nextSeq (stream s sid) = max (next_of (stream_log segs sid)) (sm_trimBefore (stream s sid))"
  using assms by (simp_all add: repr_def)

text \<open>The entries a read selects are the layout of the requested window.\<close>

definition window :: "seg_log \<Rightarrow> string \<Rightarrow> u64 \<Rightarrow> int \<Rightarrow> Record list" where
  "window segs sid fromSeq limit =
     (let rs = filter (\<lambda>r. fromSeq \<le> rec_Seq r) (stream_log segs sid) in if 0 < limit then take (nat limit) rs else rs)"

lemma take_window:
  assumes "a \<le> length xs"
  shows "(if a < (if 0 < limit then min (a + nat limit) (length xs) else length xs)
      then take ((if 0 < limit then min (a + nat limit) (length xs) else length xs) - a) (drop a xs) else []) =
    (if 0 < limit then take (nat limit) (drop a xs) else drop a xs)"
  using assms by (auto simp: min_def)

lemma selectEntries_layout:
  assumes "repr hs segs s"
  obtains ps where "selectEntries s sid fromSeq limit = map snd ps" "set ps \<subseteq> set (layout hs segs)"
    "list_all (\<lambda>(r, e). rec_StreamID r = sid) ps"
    "map fst ps = window segs sid (max fromSeq (sm_trimBefore (stream s sid))) limit"
proof -
  let ?P = "filter (\<lambda>(r, e). rec_StreamID r = sid) (layout hs segs)"
  let ?q = "max fromSeq (sm_trimBefore (stream s sid))"
  let ?all = "filter (\<lambda>(r, e). ?q \<le> rec_Seq r) ?P"
  let ?ps = "if 0 < limit then take (nat limit) ?all else ?all"
  have es: "sm_entries (stream s sid) = map snd ?P"
    using repr_stream(1) [OF assms] by (simp add: entries_for_def)
  have srt: "sorted_wrt (<) (map se_Seq (sm_entries (stream s sid)))"
    unfolding repr_stream(1) [OF assms] entries_for_Seq using assms by (simp add: repr_def log_ok_def)
  have fl: "filter (\<lambda>e. ?q \<le> se_Seq e) (map snd ?P) = map snd ?all"
    unfolding filter_map by (rule arg_cong [where f = "map snd"], rule filter_cong) (auto dest: layout_entry)
  have sel: "selectEntries s sid fromSeq limit = (let es = map snd ?all in if 0 < limit then take (nat limit) es else es)"
  proof (cases "map_of (st_streams s) sid")
    case None
    then have "map snd ?P = []" using es by (simp add: stream_def zero_stream_def)
    then have "?P = []" by simp
    then show ?thesis using None by (simp only: selectEntries_def) simp
  next
    case (Some state)
    then have st: "stream s sid = state" by (simp add: stream_def)
    note ff = first_from_sorted [OF srt, of ?q]
    have dr: "drop (first_from (sm_entries state) ?q) (sm_entries state) = map snd ?all"
      using ff(1) es fl unfolding st by simp
    have le: "first_from (sm_entries state) ?q \<le> length (sm_entries state)" using ff(2) st by simp
    have q: "(if fromSeq < sm_trimBefore state then sm_trimBefore state else fromSeq) = ?q"
      unfolding st by (auto simp: max_def)
    show ?thesis
      by (simp only: selectEntries_def Some option.case Let_def q take_window [OF le]) (simp only: dr)
  qed
  have "map fst ?all = filter (\<lambda>r. ?q \<le> rec_Seq r) (stream_log segs sid)"
  proof -
    have "?all = filter ((\<lambda>r. ?q \<le> rec_Seq r) \<circ> fst) ?P" by (rule filter_cong) auto
    then show ?thesis by (simp only: entries_for_fst [of sid hs segs, symmetric] filter_map)
  qed
  then have w: "map fst ?ps = window segs sid ?q limit"
    by (cases "0 < limit") (simp_all only: window_def Let_def take_map [symmetric] if_True if_False)
  have "selectEntries s sid fromSeq limit = map snd ?ps" by (simp add: sel take_map)
  moreover have "set ?ps \<subseteq> set (layout hs segs)" by (auto dest: in_set_takeD)
  moreover have "list_all (\<lambda>(r, e). rec_StreamID r = sid) ?ps" by (auto simp: list_all_iff dest: in_set_takeD)
  ultimately show thesis using w by (rule that)
qed

lemma one_le_word: "x \<noteq> 0 \<Longrightarrow> 1 \<le> (x :: u64)"
  using inc_le [of 0 x] by (simp add: word_gt_0)

lemma ReadEach_window:
  assumes "repr hs segs s" "crc32c_incremental hs" "sid \<noteq> ''''"
  shows "ReadEach hs s sid fromSeq limit emit acc =
    fold_result emit acc (window segs sid (max (max 1 fromSeq) (sm_trimBefore (stream s sid))) limit)"
proof -
  have 1: "(if fromSeq = 0 then 1 else fromSeq) = max 1 fromSeq"
    using one_le_word [of fromSeq] by (simp add: max_def)
  obtain ps where ps: "selectEntries s sid (max 1 fromSeq) limit = map snd ps" "set ps \<subseteq> set (layout hs segs)"
      "list_all (\<lambda>(r, e). rec_StreamID r = sid) ps"
      "map fst ps = window segs sid (max (max 1 fromSeq) (sm_trimBefore (stream s sid))) limit"
    using assms(1) by (rule selectEntries_layout)
  have "read_entry hs s sid e = Inr r" if "(r, e) \<in> set ps" for r e
    using read_entry_layout [OF assms(1,2), of r e] ps(2,3) that by (force simp: list_all_iff)
  from fold_result_read [of ps "read_entry hs s sid", OF this] show ?thesis
    using assms(3) by (simp add: ReadEach_def 1 ps(1,4))
qed

subsection \<open>Appending\<close>

definition snoc :: "seg_log \<Rightarrow> Record \<Rightarrow> seg_log" where
  "snoc segs rec = butlast segs @ [(fst (last segs), snd (last segs) @ [rec])]"

lemma index_from_append:
  "index_from hs i off (xs @ ys) = index_from hs i off xs @ index_from hs i (off + length (seg_bytes hs xs)) ys"
  by (induction xs arbitrary: off) (simp_all add: seg_bytes_def add.assoc)

lemma snoc_append: "snoc (ys @ [(i, recs)]) rec = ys @ [(i, recs @ [rec])]"
  by (simp add: snoc_def)

lemma snoc_records: "segs \<noteq> [] \<Longrightarrow> log_records (snoc segs rec) = log_records segs @ [rec]"
  by (cases segs rule: rev_cases) (auto simp: snoc_append log_records_def)

lemma snoc_layout: "segs \<noteq> [] \<Longrightarrow> layout hs (snoc segs rec) = layout hs segs @
    [(rec, entry_of hs (fst (last segs)) (length (seg_bytes hs (snd (last segs)))) rec)]"
  by (cases segs rule: rev_cases) (auto simp: snoc_append layout_def index_from_append)

lemma snoc_stream: "segs \<noteq> [] \<Longrightarrow>
    stream_log (snoc segs rec) sid = stream_log segs sid @ (if rec_StreamID rec = sid then [rec] else [])"
  by (simp add: stream_log_def snoc_records)

lemma snoc_entries: "segs \<noteq> [] \<Longrightarrow>
    entries_for hs (snoc segs rec) sid = entries_for hs segs sid @ (if rec_StreamID rec = sid
      then [entry_of hs (fst (last segs)) (length (seg_bytes hs (snd (last segs)))) rec] else [])"
  by (simp add: entries_for_def snoc_layout)

lemma snoc_fst [simp]: "segs \<noteq> [] \<Longrightarrow> map fst (snoc segs rec) = map fst segs"
  by (cases segs rule: rev_cases) (auto simp: snoc_append)

lemma snoc_last [simp]: "last (snoc segs rec) = (fst (last segs), snd (last segs) @ [rec])" "snoc segs rec \<noteq> []"
  by (simp_all add: snoc_def)

lemma update_last: "k \<notin> fst ` set xs \<Longrightarrow> AList.update k v (xs @ [(k, w)]) = xs @ [(k, v)]"
  by (induction xs) auto

lemma snoc_files:
  fixes hs :: hashes
  assumes "segs \<noteq> []" "distinct (map fst segs)"
  defines "fs \<equiv> map (\<lambda>(i, recs). (i, seg_bytes hs recs)) segs"
  shows "map (\<lambda>(i, recs). (i, seg_bytes hs recs)) (snoc segs rec) =
      AList.update (fst (last segs)) (seg_bytes hs (snd (last segs)) @ enc hs rec) fs"
    "map_of fs (fst (last segs)) = Some (seg_bytes hs (snd (last segs)))"
proof -
  obtain ys i recs where segs: "segs = ys @ [(i, recs)]" using assms(1) by (cases segs rule: rev_cases) auto
  let ?xs = "map (\<lambda>(i, recs). (i, seg_bytes hs recs)) ys"
  have i: "i \<notin> fst ` set ?xs" using assms(2) by (auto simp: segs image_iff split_def)
  then show "map (\<lambda>(i, recs). (i, seg_bytes hs recs)) (snoc segs rec) =
      AList.update (fst (last segs)) (seg_bytes hs (snd (last segs)) @ enc hs rec) fs"
    by (simp add: fs_def segs snoc_append update_last) (simp add: seg_bytes_def)
  have "map_of ?xs i = None" using i by (simp add: map_of_eq_None_iff)
  then show "map_of fs (fst (last segs)) = Some (seg_bytes hs (snd (last segs)))"
    by (simp add: fs_def segs map_add_def)
qed

lemma unat_succ: "x + 1 \<noteq> 0 \<Longrightarrow> unat (x + 1) = Suc (unat (x :: u64))"
  using unatSuc [of x] by (simp add: add.commute)

lemma less_succ: "x + 1 \<noteq> 0 \<Longrightarrow> (y :: u64) < x + 1 \<longleftrightarrow> y \<le> x"
  by (simp add: word_less_nat_alt word_le_nat_alt unat_succ less_Suc_eq_le)

lemma max_succ: "t \<le> x \<Longrightarrow> x + 1 \<noteq> 0 \<Longrightarrow> max (x + 1) t = (x + 1 :: u64)"
  by (intro max_absorb1) (simp add: less_succ order.strict_implies_order)

lemma last_seq_less_next:
  assumes "log_ok hs segs" "r \<in> set (stream_log segs sid)"
  shows "rec_Seq r < next_of (stream_log segs sid)"
proof -
  let ?R = "stream_log segs sid"
  have ne: "?R \<noteq> []" using assms(2) by auto
  have "sorted_wrt (<) (map rec_Seq ?R)" using assms(1) by (simp add: log_ok_def)
  then have "rec_Seq r \<le> rec_Seq (last ?R)"
    using assms(2) ne by (cases ?R rule: rev_cases) (auto simp: sorted_wrt_append)
  moreover have "rec_Seq (last ?R) + 1 \<noteq> 0"
    using assms(1) last_in_set [OF ne] by (simp add: log_ok_def list_all_iff stream_log_def)
  ultimately show ?thesis using ne by (simp add: next_of_def less_succ)
qed

lemma log_ok_snoc:
  assumes "log_ok hs segs" "stored hs rec" "rec_StreamID rec \<noteq> ''''" "0 < rec_Seq rec" "rec_Seq rec + 1 \<noteq> 0"
    "next_of (stream_log segs (rec_StreamID rec)) \<le> rec_Seq rec"
    "length (seg_bytes hs (snd (last segs))) + length (enc hs rec) < 2 ^ 63"
  shows "log_ok hs (snoc segs rec)"
proof -
  have ne: "segs \<noteq> []" using assms(1) by (simp add: log_ok_def)
  have "sorted_wrt (<) (map rec_Seq (stream_log (snoc segs rec) sid))" for sid
  proof -
    have "sorted_wrt (<) (map rec_Seq (stream_log segs sid))" using assms(1) by (simp add: log_ok_def)
    moreover have "rec_Seq r < rec_Seq rec" if "rec_StreamID rec = sid" "r \<in> set (stream_log segs sid)" for r
      using last_seq_less_next [OF assms(1) that(2)] assms(6) that(1) by simp
    ultimately show ?thesis by (auto simp: snoc_stream [OF ne] sorted_wrt_append)
  qed
  moreover have "list_all (\<lambda>(i, recs). length (seg_bytes hs recs) < 2 ^ 63) (snoc segs rec)"
    using assms(1,7) by (auto simp: log_ok_def list_all_iff snoc_def seg_bytes_def dest: in_set_butlastD)
  ultimately show ?thesis using assms(1-5) ne by (simp add: log_ok_def snoc_records)
qed

lemma put_stream_fields [simp]:
  "st_options (put_stream sid st s) = st_options s" "st_files (put_stream sid st s) = st_files s"
  "st_open (put_stream sid st s) = st_open s" "st_retention (put_stream sid st s) = st_retention s"
  "st_activeSegmentID (put_stream sid st s) = st_activeSegmentID s"
  "st_activeSegmentBytes (put_stream sid st s) = st_activeSegmentBytes s"
  "st_idempotency (put_stream sid st s) = st_idempotency s" "st_lastSync (put_stream sid st s) = st_lastSync s"
  "distinct (map fst (st_streams s)) \<Longrightarrow> distinct (map fst (st_streams (put_stream sid st s)))"
  by (simp_all add: put_stream_def distinct_update)

lemma stream_put [simp]: "stream (put_stream sid st s) sid' = (if sid' = sid then st else stream s sid')"
  by (simp add: stream_def put_stream_def update_conv')

lemma stream_cong: "st_streams s' = st_streams s \<Longrightarrow> stream s' = stream s"
  by (simp add: stream_def fun_eq_iff)

lemma streamStateLocked_spec:
  obtains s1 where "streamStateLocked s sid = (s1, stream s sid)" "stream s1 = stream s"
    "repr hs segs s \<Longrightarrow> repr hs segs s1" "st_open s1 = st_open s" "st_options s1 = st_options s"
    "st_activeSegmentID s1 = st_activeSegmentID s"
proof (cases "map_of (st_streams s) sid")
  case None
  let ?s = "put_stream sid zero_stream s"
  have st: "stream ?s = stream s" using None by (auto simp: fun_eq_iff stream_def put_stream_def update_conv')
  have "streamStateLocked s sid = (?s, stream s sid)" using None by (simp add: streamStateLocked_def stream_def)
  moreover have "repr hs segs s \<Longrightarrow> repr hs segs ?s" using st by (simp add: repr_def)
  ultimately show thesis using that st by simp
next
  case (Some st)
  then have "streamStateLocked s sid = (s, stream s sid)" by (simp add: streamStateLocked_def stream_def)
  then show thesis using that by blast
qed

text \<open>The segment the next record goes to: the active one, or a fresh one after a roll.\<close>

lemma seg_bytes_Nil [simp]: "seg_bytes hs [] = []"
  by (simp add: seg_bytes_def)

lemma empty_segment [simp]:
  "log_records (segs @ [(i, [])]) = log_records segs" "stream_log (segs @ [(i, [])]) = stream_log segs"
  "entries_for hs (segs @ [(i, [])]) = entries_for hs segs"
  by (simp_all add: log_records_def stream_log_def entries_for_def layout_def fun_eq_iff)

lemma roll_ok:
  assumes "repr hs segs s" "st_open s" "st_activeSegmentID s + 1 \<noteq> 0" "ev_close_ok ev" "ev_open_ok ev"
  shows "rollSegmentLocked ev s = (s\<lparr>st_files := st_files s @ [(st_activeSegmentID s + 1, [])], st_open := True,
      st_activeSegmentID := st_activeSegmentID s + 1, st_activeSegmentBytes := 0, st_lastSync := ev_clock ev\<rparr>, Inr ())"
    and "log_ok hs (segs @ [(st_activeSegmentID s + 1, [])])"
proof -
  have ok: "log_ok hs segs" and act: "st_activeSegmentID s = fst (last segs)"
    and files: "st_files s = map (\<lambda>(i, recs). (i, seg_bytes hs recs)) segs"
    using assms(1,2) by (simp_all add: repr_def)
  have ne: "segs \<noteq> []" using ok by (simp add: log_ok_def)
  have lt: "i < st_activeSegmentID s + 1" if "i \<in> set (map fst segs)" for i
  proof -
    have "sorted_wrt (<) (map fst segs)" using ok by (simp add: log_ok_def)
    then have "i \<le> fst (last segs)"
      using that ne by (cases segs rule: rev_cases) (auto simp: sorted_wrt_append)
    then show ?thesis using less_succ assms(3) act by simp
  qed
  have "map_of (st_files s) (st_activeSegmentID s + 1) = None"
    using lt by (force simp: files map_of_eq_None_iff)
  then show "rollSegmentLocked ev s = (s\<lparr>st_files := st_files s @ [(st_activeSegmentID s + 1, [])], st_open := True,
      st_activeSegmentID := st_activeSegmentID s + 1, st_activeSegmentBytes := 0, st_lastSync := ev_clock ev\<rparr>, Inr ())"
    using assms(3-5)
    by (simp add: rollSegmentLocked_def closeActiveFilesLocked_def openActiveFilesLocked_def create_file_def
        file_of_def Let_def map_add_def)
  have "0 < st_activeSegmentID s + 1" using assms(3) by (simp add: word_gt_0)
  then show "log_ok hs (segs @ [(st_activeSegmentID s + 1, [])])"
    using ok lt by (auto simp: log_ok_def log_records_def stream_log_def sorted_wrt_append seg_bytes_def)
qed

lemma roll_failed:
  assumes "\<not> (ev_close_ok ev \<and> ev_open_ok ev)" "st_activeSegmentID s + 1 \<noteq> 0"
  obtains s2 e where "rollSegmentLocked ev s = (s2, Inl e)" "\<not> st_open s2" "st_files s2 = st_files s"
    "st_streams s2 = st_streams s" "st_idempotency s2 = st_idempotency s" "st_options s2 = st_options s"
proof (cases "ev_close_ok ev")
  case True
  let ?s = "s\<lparr>st_open := False, st_lastSync := ev_clock ev, st_activeSegmentID := st_activeSegmentID s + 1,
    st_activeSegmentBytes := 0\<rparr>"
  have "rollSegmentLocked ev s = (?s, Inl OpenFailed)"
    using assms True by (simp add: rollSegmentLocked_def closeActiveFilesLocked_def openActiveFilesLocked_def Let_def)
  then show thesis by (rule that) simp_all
next
  case False
  then have "rollSegmentLocked ev s = (s\<lparr>st_open := False\<rparr>, Inl CloseFailed)"
    by (simp add: rollSegmentLocked_def closeActiveFilesLocked_def)
  then show thesis by (rule that) simp_all
qed

lemma ensureWritable_cases:
  assumes "repr hs segs s" "st_activeSegmentID s + 1 \<noteq> 0"
  obtains s2 segs2 r where "ensureWritableSegmentLocked ev n s = (s2, r)" "repr hs segs2 s2"
    "log_records segs2 = log_records segs" "stream s2 = stream s" "st_options s2 = st_options s"
    "r = Inr () \<Longrightarrow> st_open s2" "r = Inr () \<Longrightarrow> n < 2 ^ 32 \<Longrightarrow> st_activeSegmentBytes s2 + n < 2 ^ 63"
    "st_open s \<Longrightarrow> ev_close_ok ev \<Longrightarrow> ev_open_ok ev \<Longrightarrow> r = Inr ()"
proof (cases "st_open s \<and> 0 < st_activeSegmentBytes s \<and> op_SegmentSizeBytes (st_options s) < int (st_activeSegmentBytes s + n)")
  case False
  have "op_SegmentSizeBytes (st_options s) < 2 ^ 63"
    using assms(1) by (simp add: repr_def options_ok_def is_i64_def)
  then have "st_activeSegmentBytes s + n < 2 ^ 63" if "st_open s" "n < 2 ^ 32" using False that by auto
  moreover have "ensureWritableSegmentLocked ev n s = (s, if st_open s then Inr () else Inl StoreClosed)"
    using False by (auto simp: ensureWritableSegmentLocked_def)
  ultimately show thesis using that assms(1) by (cases "st_open s") auto
next
  case True
  then have e: "ensureWritableSegmentLocked ev n s = rollSegmentLocked ev s" by (simp add: ensureWritableSegmentLocked_def)
  show thesis
  proof (cases "ev_close_ok ev \<and> ev_open_ok ev")
    case ok: True
    let ?segs = "segs @ [(st_activeSegmentID s + 1, [])]"
    note roll = roll_ok [OF assms(1) _ assms(2), of ev]
    obtain s2 where s2: "ensureWritableSegmentLocked ev n s = (s2, Inr ())"
        "s2 = s\<lparr>st_files := st_files s @ [(st_activeSegmentID s + 1, [])], st_open := True,
          st_activeSegmentID := st_activeSegmentID s + 1, st_activeSegmentBytes := 0, st_lastSync := ev_clock ev\<rparr>"
      using roll(1) True ok e by simp
    have st: "stream s2 = stream s" by (rule stream_cong) (simp add: s2)
    have "repr hs ?segs s2"
      using assms(1) roll(2) True ok by (simp add: repr_def st) (simp add: s2(2))
    then show thesis using that [OF s2(1)] st by (simp add: s2(2))
  next
    case bad: False
    obtain s2 err where s2: "rollSegmentLocked ev s = (s2, Inl err)" "\<not> st_open s2" "st_files s2 = st_files s"
        "st_streams s2 = st_streams s" "st_idempotency s2 = st_idempotency s" "st_options s2 = st_options s"
      using roll_failed [OF bad assms(2)] by blast
    have "repr hs segs s2" using assms(1) s2 stream_cong [OF s2(4)] by (simp add: repr_def)
    then show thesis using that [of s2 "Inl err"] s2 e bad stream_cong [OF s2(4)] by simp
  qed
qed

lemma sync_ok:
  assumes "options_ok (st_options s)" "ev_sync_ok ev"
  obtains t where "syncForPolicyLocked ev s = (s\<lparr>st_lastSync := t\<rparr>, Inr ())"
proof -
  have "\<exists>t. syncForPolicyLocked ev s = (s\<lparr>st_lastSync := t\<rparr>, Inr ())"
    using assms exI [of "\<lambda>t. s = s\<lparr>st_lastSync := t\<rparr>" "st_lastSync s"]
    by (auto simp: options_ok_def syncForPolicyLocked_def syncFilesLocked_def Let_def)
  with that show thesis by blast
qed

text \<open>The state after the record has been written, indexed and remembered.\<close>

definition committed :: "hashes \<Rightarrow> Record \<Rightarrow> store \<Rightarrow> store" where
  "committed hs rec s =
     (let st = stream s (rec_StreamID rec) in
      put_stream (rec_StreamID rec)
        (st\<lparr>sm_entries := sm_entries st @
              [entry_of hs (st_activeSegmentID s) (st_activeSegmentBytes s) rec], sm_nextSeq := rec_Seq rec + 1\<rparr>)
        (s\<lparr>st_files := AList.update (st_activeSegmentID s) (file_of s (st_activeSegmentID s) @ enc hs rec) (st_files s),
          st_activeSegmentBytes := st_activeSegmentBytes s + length (enc hs rec),
          st_idempotency := remember (st_idempotency s) rec\<rparr>))"

lemma seg_bytes_snoc: "seg_bytes hs (recs @ [rec]) = seg_bytes hs recs @ enc hs rec"
  by (simp add: seg_bytes_def)

lemma committed_steps:
  assumes "enc hs rec = bs" "state = stream s (rec_StreamID rec)"
  shows "(let s5 = put_stream (rec_StreamID rec)
        (state\<lparr>sm_entries := sm_entries state @ [\<lparr>se_Seq = rec_Seq rec, se_SegmentID = st_activeSegmentID s,
            se_Offset = word_of_nat (st_activeSegmentBytes s), se_Length = word_of_nat (length bs)\<rparr>],
          sm_nextSeq := rec_Seq rec + 1\<rparr>)
        (s\<lparr>st_files := AList.update (st_activeSegmentID s) (file_of s (st_activeSegmentID s) @ bs) (st_files s),
          st_lastSync := t, st_activeSegmentBytes := st_activeSegmentBytes s + length bs\<rparr>)
      in if rec_IdempotencyKey rec \<noteq> ''''
         then s5\<lparr>st_idempotency := (st_idempotency s5)
           (idempotencyKey (rec_StreamID rec) (rec_IdempotencyKey rec) \<mapsto> idempotencyRecord rec)\<rparr>
         else s5) = (committed hs rec s)\<lparr>st_lastSync := t\<rparr>"
  by (cases s) (simp add: committed_def Let_def put_stream_def entry_of_def remember_def assms)

lemma repr_committed:
  assumes "repr hs segs s" "st_open s" "stored hs rec" "rec_StreamID rec \<noteq> ''''"
    "rec_Seq rec = (if sm_nextSeq (stream s (rec_StreamID rec)) = 0 then 1 else sm_nextSeq (stream s (rec_StreamID rec)))"
    "rec_Seq rec + 1 \<noteq> 0" "st_activeSegmentBytes s + length (enc hs rec) < 2 ^ 63"
  shows "repr hs (snoc segs rec) (committed hs rec s)"
proof -
  let ?sid = "rec_StreamID rec" let ?st = "stream s ?sid"
  have ok: "log_ok hs segs" and act: "st_activeSegmentID s = fst (last segs)"
      "st_activeSegmentBytes s = length (seg_bytes hs (snd (last segs)))"
    and files: "st_files s = map (\<lambda>(i, recs). (i, seg_bytes hs recs)) segs"
    using assms(1,2) by (simp_all add: repr_def)
  have ne: "segs \<noteq> []" and di: "distinct (map fst segs)"
    using ok by (auto simp: log_ok_def intro: sorted_wrt_less_distinct)
  note sf = snoc_files [OF ne di, of hs, folded files]
  have nx: "sm_nextSeq ?st = max (next_of (stream_log segs ?sid)) (sm_trimBefore ?st)"
    by (rule repr_stream(2) [OF assms(1)])
  have le: "sm_nextSeq ?st \<le> rec_Seq rec" and pos: "0 < rec_Seq rec"
    using assms(5) by (auto simp: word_gt_0)
  have "log_ok hs (snoc segs rec)"
    using nx le pos by (intro log_ok_snoc [OF ok assms(3,4) _ assms(6)]) (use assms(7) act in simp_all)
  moreover have "max (rec_Seq rec + 1) (sm_trimBefore ?st) = rec_Seq rec + 1"
    using nx le by (intro max_succ [OF _ assms(6)]) simp
  moreover have "file_of s (fst (last segs)) = seg_bytes hs (snd (last segs))"
    by (simp add: file_of_def sf(2))
  ultimately show ?thesis
    using assms(1) ne
    by (auto simp: repr_def committed_def Let_def act sf(1) [unfolded files] snoc_entries snoc_stream snoc_records
        next_of_def seg_bytes_snoc stream_cong [of "s\<lparr>st_files := _, st_activeSegmentBytes := _, st_idempotency := _\<rparr>" s])
qed

lemma encodeRecord_cong:
  "encodeRecord hs (rec\<lparr>rec_CRC32 := c, rec_ChecksumType := t\<rparr>) ty = encodeRecord hs rec ty"
  by (cases rec) (simp only: encodeRecord_def encodedRecordSize_def record_body_def Record.select_convs Record.update_convs)

text \<open>What an append that the operating system does not disturb does.\<close>

definition room :: "store \<Rightarrow> string \<Rightarrow> bool" where
  "room s sid \<longleftrightarrow> st_activeSegmentID s + 1 \<noteq> 0 \<and> sm_nextSeq (stream s sid) + 1 \<noteq> 0"

definition undisturbed :: "env \<Rightarrow> bool" where
  "undisturbed ev \<longleftrightarrow> is_i64 (ev_nowMs ev) \<and> ev_close_ok ev \<and> ev_open_ok ev \<and> ev_written ev = None \<and> ev_sync_ok ev"

definition next_seq :: "store \<Rightarrow> string \<Rightarrow> u64" where
  "next_seq s sid = (if sm_nextSeq (stream s sid) = 0 then 1 else sm_nextSeq (stream s sid))"

definition duplicate_of :: "store \<Rightarrow> append_request \<Rightarrow> Record option" where
  "duplicate_of s req = (if rq_IdempotencyKey req \<noteq> ''''
     then st_idempotency s (idempotencyKey (rq_StreamID req) (rq_IdempotencyKey req)) else None)"

lemma new_record_fields [simp]:
  "rec_StreamID (new_record ev req seq) = rq_StreamID req" "rec_Seq (new_record ev req seq) = seq"
  "rec_IdempotencyKey (new_record ev req seq) = rq_IdempotencyKey req"
  "rec_TimestampMs (new_record ev req seq) = ev_nowMs ev"
  "rec_EventType (new_record ev req seq) = rq_EventType req" "rec_Payload (new_record ev req seq) = rq_Payload req"
  by (simp_all add: new_record_def)

lemma Append_commit:
  assumes "rq_StreamID req \<noteq> ''''" "rq_EventType req \<noteq> ''''" "duplicate_of s req = None"
    and s1: "streamStateLocked s (rq_StreamID req) = (s1, stream s (rq_StreamID req))"
    and enc: "encodeRecord hs (new_record ev req (next_seq s (rq_StreamID req))) (op_ChecksumType (st_options s)) = Inr (bs, crc)"
    and s2: "ensureWritableSegmentLocked ev (length bs) s1 = (s2, Inr ())" "repr hs segs2 s2" "st_open s2"
      "stream s2 = stream s" "st_options s2 = st_options s" "st_activeSegmentBytes s2 + length bs < 2 ^ 63"
    and "length bs < 2 ^ 32" "is_i64 (ev_nowMs ev)" "ev_written ev = None" "ev_sync_ok ev"
      "sm_nextSeq (stream s (rq_StreamID req)) + 1 \<noteq> 0"
  obtains s' rec where "Append hs ev req s = (s', Inr (rec, False))" "repr hs (snoc segs2 rec) s'" "st_open s'"
    "st_options s' = st_options s" "\<forall>sid. sm_trimBefore (stream s' sid) = sm_trimBefore (stream s sid)"
    "rec = (new_record ev req (next_seq s (rq_StreamID req)))\<lparr>rec_CRC32 := crc, rec_ChecksumType := op_ChecksumType (st_options s)\<rparr>"
proof -
  let ?sid = "rq_StreamID req" let ?new = "new_record ev req (next_seq s ?sid)"
  define rec where "rec = ?new\<lparr>rec_CRC32 := crc, rec_ChecksumType := op_ChecksumType (st_options s)\<rparr>"
  let ?s3 = "s2\<lparr>st_files := AList.update (st_activeSegmentID s2) (file_of s2 (st_activeSegmentID s2) @ bs) (st_files s2)\<rparr>"
  have w: "write_log ev bs s2 = (?s3, Inr ())" using assms by (simp add: write_log_def Let_def)
  have op: "options_ok (st_options s2)" using s2(2) by (simp add: repr_def)
  obtain t where t: "syncForPolicyLocked ev ?s3 = (?s3\<lparr>st_lastSync := t\<rparr>, Inr ())"
    using sync_ok [of ?s3 ev] op assms by auto
  have e: "encodeRecord hs rec (rec_ChecksumType rec) = Inr (bs, crc)"
    using enc by (simp add: rec_def encodeRecord_cong)
  then have encb: "enc hs rec = bs" by (simp add: enc_def)
  have ck: "op_ChecksumType (st_options s) \<noteq> 0" using op s2(5) by (simp add: options_ok_def)
  have st: "stored hs rec" using e assms ck by (simp add: stored_def) (simp add: rec_def)
  have sid: "rec_StreamID rec = ?sid" and seq: "rec_Seq rec = next_seq s ?sid"
    and key: "rec_IdempotencyKey rec = rq_IdempotencyKey req" by (simp_all add: rec_def)
  have "next_seq s ?sid + 1 \<noteq> 0" using assms by (simp add: next_seq_def)
  then have r: "repr hs (snoc segs2 rec) (committed hs rec s2)"
    using s2 assms(1) by (intro repr_committed [OF s2(2,3) st]) (simp_all add: sid seq next_seq_def encb)
  let ?s' = "(committed hs rec s2)\<lparr>st_lastSync := t\<rparr>"
  have "Append hs ev req s = (?s', Inr (rec, False))"
    using assms(1,2,3) s2(4) w t assms
    by (simp add: Append_def duplicate_of_def s1 enc s2(1) flip: next_seq_def)
       (simp add: Let_def sid seq key flip: rec_def committed_steps [OF encb, of "stream s2 ?sid" s2 t])
  moreover have "repr hs (snoc segs2 rec) ?s'"
    using r stream_cong [of ?s' "committed hs rec s2"] by (simp add: repr_def)
  moreover have "st_open ?s'" using s2(3) by (simp add: committed_def Let_def)
  moreover have "st_options ?s' = st_options s" using s2(5) by (simp add: committed_def Let_def)
  moreover have "\<forall>sid. sm_trimBefore (stream ?s' sid) = sm_trimBefore (stream s sid)"
    using s2(4) stream_cong [of ?s' "committed hs rec s2"]
    by (simp add: committed_def Let_def stream_cong [of "s2\<lparr>st_files := _, st_activeSegmentBytes := _, st_idempotency := _\<rparr>" s2])
  ultimately show thesis using that rec_def by blast
qed

lemma Append_early:
  "rq_StreamID req = '''' \<Longrightarrow> Append hs ev req s = (s, Inl StreamIDRequired)"
  "rq_StreamID req \<noteq> '''' \<Longrightarrow> rq_EventType req = '''' \<Longrightarrow> Append hs ev req s = (s, Inl EventTypeRequired)"
  "rq_StreamID req \<noteq> '''' \<Longrightarrow> rq_EventType req \<noteq> '''' \<Longrightarrow> duplicate_of s req = Some rec \<Longrightarrow>
     Append hs ev req s = (s, Inr (rec, True))"
  by (simp_all add: Append_def duplicate_of_def)

text \<open>
  A failed append, whatever failed, never touches the index or the duplicate table: these are
  changed after the last step that can fail.
\<close>

definition same_index :: "store \<Rightarrow> store \<Rightarrow> bool" where
  "same_index s s' \<longleftrightarrow> stream s' = stream s \<and> st_idempotency s' = st_idempotency s"

lemma same_index_trans: "same_index s s' \<Longrightarrow> same_index s' s'' \<Longrightarrow> same_index s s''"
  by (simp add: same_index_def)

lemma same_index_fields: "st_streams s' = st_streams s \<Longrightarrow> st_idempotency s' = st_idempotency s \<Longrightarrow> same_index s s'"
  unfolding same_index_def by (rule conjI [OF stream_cong])

lemma same_index_streamState: "streamStateLocked s sid = (s', st) \<Longrightarrow> same_index s s'"
  by (auto simp: streamStateLocked_def same_index_def fun_eq_iff stream_def put_stream_def update_conv'
      split: option.splits if_splits)

lemma same_index_ensure: "ensureWritableSegmentLocked ev n s = (s', r) \<Longrightarrow> same_index s s'"
  by (rule same_index_fields)
    (auto simp: ensureWritableSegmentLocked_def rollSegmentLocked_def closeActiveFilesLocked_def openActiveFilesLocked_def Let_def
      split: if_splits)

lemma same_index_write: "write_log ev bs s = (s', r) \<Longrightarrow> same_index s s'"
  by (rule same_index_fields) (auto simp: write_log_def Let_def split: option.splits)

lemma same_index_sync: "syncForPolicyLocked ev s = (s', r) \<Longrightarrow> same_index s s'"
  by (rule same_index_fields) (auto simp: syncForPolicyLocked_def syncFilesLocked_def Let_def split: if_splits)

lemmas same_index_steps = same_index_ensure same_index_write same_index_sync

lemma Append_failed_index:
  assumes "Append hs ev req s = (s', Inl e)"
  shows "same_index s s'"
proof (cases "rq_StreamID req = '''' \<or> rq_EventType req = '''' \<or> duplicate_of s req \<noteq> None")
  case True
  then show ?thesis using assms Append_early(1,2) [of req hs ev s] Append_early(3) [of req s _ hs ev] by (auto simp: same_index_def)
next
  case False
  obtain s1 st where s1: "streamStateLocked s (rq_StreamID req) = (s1, st)" by fastforce
  from False assms have "same_index s1 s'"
    by (auto simp: Append_def duplicate_of_def s1 Let_def same_index_def
        dest!: same_index_steps [unfolded same_index_def] split: sum.splits prod.splits if_splits)
  then show ?thesis using same_index_trans same_index_streamState [OF s1] by blast
qed

text \<open>Every outcome of an append whose write and sync succeed, or that does not get that far.\<close>

lemma Append_cases:
  assumes "repr hs segs s" "room s (rq_StreamID req)" "is_i64 (ev_nowMs ev)" "ev_written ev = None" "ev_sync_ok ev"
  obtains (failed) s' segs' e where "Append hs ev req s = (s', Inl e)" "repr hs segs' s'"
      "log_records segs' = log_records segs" "stream s' = stream s"
  | (duplicate) rec where "Append hs ev req s = (s, Inr (rec, True))" "duplicate_of s req = Some rec"
  | (appended) s' segs' rec crc where "Append hs ev req s = (s', Inr (rec, False))" "repr hs segs' s'" "st_open s'"
      "log_records segs' = log_records segs @ [rec]" "duplicate_of s req = None"
      "rec = (new_record ev req (next_seq s (rq_StreamID req)))\<lparr>rec_CRC32 := crc, rec_ChecksumType := op_ChecksumType (st_options s)\<rparr>"
      "\<forall>sid. sm_trimBefore (stream s' sid) = sm_trimBefore (stream s sid)"
proof -
  let ?sid = "rq_StreamID req" let ?new = "new_record ev req (next_seq s ?sid)"
  consider "?sid = '''' \<or> rq_EventType req = ''''" | rec where "?sid \<noteq> ''''" "rq_EventType req \<noteq> ''''" "duplicate_of s req = Some rec"
    | "?sid \<noteq> ''''" "rq_EventType req \<noteq> ''''" "duplicate_of s req = None" by (cases "duplicate_of s req") blast+
  then show thesis
  proof cases
    case 1
    then show thesis using failed [OF _ assms(1) refl refl] Append_early(1,2) by metis
  next
    case 2
    then show thesis using duplicate Append_early(3) by blast
  next
    case 3
    obtain s1 where s1: "streamStateLocked s ?sid = (s1, stream s ?sid)" "stream s1 = stream s" "repr hs segs s1"
        "st_open s1 = st_open s" "st_options s1 = st_options s" "st_activeSegmentID s1 = st_activeSegmentID s"
      using streamStateLocked_spec [of s ?sid hs segs] assms(1) by metis
    show thesis
    proof (cases "encodeRecord hs ?new (op_ChecksumType (st_options s))")
      case (Inl e)
      then have "Append hs ev req s = (s1, Inl e)"
        using 3 by (simp add: Append_def duplicate_of_def s1(1) flip: next_seq_def)
      then show thesis using failed s1(2,3) by blast
    next
      case (Inr p)
      obtain bs crc where enc: "encodeRecord hs ?new (op_ChecksumType (st_options s)) = Inr (bs, crc)"
        using Inr by (cases p) simp
      have "st_activeSegmentID s1 + 1 \<noteq> 0" using assms(2) s1(6) by (simp add: room_def)
      then obtain s2 segs2 r where s2: "ensureWritableSegmentLocked ev (length bs) s1 = (s2, r)" "repr hs segs2 s2"
          "log_records segs2 = log_records segs" "stream s2 = stream s1" "st_options s2 = st_options s1"
          "r = Inr () \<Longrightarrow> st_open s2" "r = Inr () \<Longrightarrow> length bs < 2 ^ 32 \<Longrightarrow> st_activeSegmentBytes s2 + length bs < 2 ^ 63"
        using ensureWritable_cases [OF s1(3)] by metis
      consider e where "r = Inl e" | "r = Inr ()" "2 ^ 32 \<le> length bs" | "r = Inr ()" "length bs < 2 ^ 32"
        by (cases r) (auto simp: not_le [symmetric])
      then show thesis
      proof cases
        case (1 e)
        then have "Append hs ev req s = (s2, Inl e)"
          using 3 s2(1) by (simp add: Append_def duplicate_of_def s1(1) enc flip: next_seq_def)
        then show thesis using failed s2(2-4) s1(2) by metis
      next
        case 2
        then have "Append hs ev req s = (s2, Inl RecordTooLarge)"
          using 3 s2(1) by (simp add: Append_def duplicate_of_def s1(1) enc flip: next_seq_def)
        then show thesis using failed s2(2-4) s1(2) by metis
      next
        case ok: 3
        have x: "ensureWritableSegmentLocked ev (length bs) s1 = (s2, Inr ())" "st_open s2" "stream s2 = stream s"
            "st_options s2 = st_options s" "st_activeSegmentBytes s2 + length bs < 2 ^ 63"
            "sm_nextSeq (stream s ?sid) + 1 \<noteq> 0"
          using s2 s1 ok assms(2) by (simp_all add: room_def)
        obtain s' rec where "Append hs ev req s = (s', Inr (rec, False))" "repr hs (snoc segs2 rec) s'" "st_open s'"
            "\<forall>sid. sm_trimBefore (stream s' sid) = sm_trimBefore (stream s sid)"
            "rec = ?new\<lparr>rec_CRC32 := crc, rec_ChecksumType := op_ChecksumType (st_options s)\<rparr>"
          using Append_commit [OF 3 s1(1) enc x(1) s2(2) x(2-5) ok(2) assms(3-5) x(6)] by blast
        moreover have "log_records (snoc segs2 rec) = log_records segs @ [rec]"
          using s2(2,3) by (simp add: snoc_records repr_def log_ok_def)
        ultimately show thesis using appended 3 by blast
      qed
    qed
  qed
qed

subsection \<open>Trimming\<close>

lemma persist_fields:
  "st_options (fst (persistRetentionLocked ev s)) = st_options s" "st_files (fst (persistRetentionLocked ev s)) = st_files s"
  "st_open (fst (persistRetentionLocked ev s)) = st_open s"
  "st_activeSegmentID (fst (persistRetentionLocked ev s)) = st_activeSegmentID s"
  "st_activeSegmentBytes (fst (persistRetentionLocked ev s)) = st_activeSegmentBytes s"
  "st_idempotency (fst (persistRetentionLocked ev s)) = st_idempotency s"
  "st_streams (fst (persistRetentionLocked ev s)) = st_streams s"
  by (simp_all add: persistRetentionLocked_def)

text \<open>The watermark a successful trim leaves: raised to the request, never past the next sequence, never lowered.\<close>

definition raised :: "store \<Rightarrow> string \<Rightarrow> u64 \<Rightarrow> u64" where
  "raised s sid before = max (sm_trimBefore (stream s sid)) (min before (sm_nextSeq (stream s sid)))"

lemma repr_trim:
  assumes "repr hs segs s" "sm_nextSeq (stream s sid) \<noteq> 0"
  shows "repr hs segs (put_stream sid ((stream s sid)\<lparr>sm_trimBefore := raised s sid before\<rparr>) s)"
proof -
  let ?st = "stream s sid"
  have nx: "sm_nextSeq ?st = max (next_of (stream_log segs sid)) (sm_trimBefore ?st)" by (rule repr_stream(2) [OF assms(1)])
  then have "sm_nextSeq ?st = max (next_of (stream_log segs sid)) (raised s sid before)"
    by (auto simp: raised_def max_def min_def)
  then show ?thesis using assms(1) by (simp add: repr_def)
qed

lemma Trim_cases:
  assumes "sid \<noteq> ''''" "before \<noteq> 0"
  shows "sm_nextSeq (stream s sid) = 0 \<Longrightarrow> Trim ev sid before s = (s, Inl (StreamNotFound sid))"
    and "sm_nextSeq (stream s sid) \<noteq> 0 \<Longrightarrow> raised s sid before = sm_trimBefore (stream s sid) \<Longrightarrow>
      Trim ev sid before s = (s, Inr (streamStatsLocked s sid))"
    and "sm_nextSeq (stream s sid) \<noteq> 0 \<Longrightarrow> raised s sid before \<noteq> sm_trimBefore (stream s sid) \<Longrightarrow>
      Trim ev sid before s =
        (case persistRetentionLocked ev (put_stream sid ((stream s sid)\<lparr>sm_trimBefore := raised s sid before\<rparr>) s) of
           (s1, Inl e) \<Rightarrow> (s1, Inl e) | (s1, Inr _) \<Rightarrow> (s1, Inr (streamStatsLocked s1 sid)))"
proof -
  let ?st = "stream s sid"
  have m: "(if (if sm_nextSeq ?st < before then sm_nextSeq ?st else before) < 1 then 1
      else if sm_nextSeq ?st < before then sm_nextSeq ?st else before) = min before (sm_nextSeq ?st)"
    if "sm_nextSeq ?st \<noteq> 0"
    using one_le_word [OF that] one_le_word [OF assms(2)] by (auto simp: min_def not_less)
  have lt: "sm_trimBefore ?st < min before (sm_nextSeq ?st) \<longleftrightarrow> raised s sid before \<noteq> sm_trimBefore ?st"
  proof -
    have "t < m \<longleftrightarrow> max t m \<noteq> t" for t m :: u64 by (auto simp: max_def)
    then show ?thesis unfolding raised_def .
  qed
  have mx: "raised s sid before \<noteq> sm_trimBefore ?st \<Longrightarrow> raised s sid before = min before (sm_nextSeq ?st)"
    by (auto simp: raised_def max_def split: if_splits)
  show "sm_nextSeq ?st = 0 \<Longrightarrow> Trim ev sid before s = (s, Inl (StreamNotFound sid))"
    using assms by (auto simp: Trim_def stream_def split: option.splits)
  assume nz: "sm_nextSeq ?st \<noteq> 0"
  then obtain st where st: "map_of (st_streams s) sid = Some st" "stream s sid = st"
    by (auto simp: stream_def zero_stream_def split: option.splits)
  have T: "Trim ev sid before s =
    (if sm_trimBefore st < min before (sm_nextSeq st) then
       (case persistRetentionLocked ev (put_stream sid (st\<lparr>sm_trimBefore := min before (sm_nextSeq st)\<rparr>) s) of
          (s1, Inl e) \<Rightarrow> (s1, Inl e) | (s1, Inr _) \<Rightarrow> (s1, Inr (streamStatsLocked s1 sid)))
     else (s, Inr (streamStatsLocked s sid)))"
    by (simp only: Trim_def assms st(1) option.case nz [unfolded st(2)] if_False Let_def m [OF nz, unfolded st(2)])
  show "raised s sid before = sm_trimBefore ?st \<Longrightarrow> Trim ev sid before s = (s, Inr (streamStatsLocked s sid))"
    by (simp only: T lt [unfolded st(2)] st(2) simp_thms if_False)
  show "raised s sid before \<noteq> sm_trimBefore ?st \<Longrightarrow> Trim ev sid before s =
        (case persistRetentionLocked ev (put_stream sid (?st\<lparr>sm_trimBefore := raised s sid before\<rparr>) s) of
           (s1, Inl e) \<Rightarrow> (s1, Inl e) | (s1, Inr _) \<Rightarrow> (s1, Inr (streamStatsLocked s1 sid)))"
    using mx by (simp only: T lt [unfolded st(2)] st(2) simp_thms if_True)
qed

text \<open>Trimming touches one watermark; the state moves even when persisting it fails.\<close>

lemma Trim_repr:
  assumes "repr hs segs s"
  shows "repr hs segs (fst (Trim ev sid before s))"
    and "sid' \<noteq> sid \<Longrightarrow> stream (fst (Trim ev sid before s)) sid' = stream s sid'"
    and "snd (Trim ev sid before s) = Inr stats \<Longrightarrow>
      sm_trimBefore (stream (fst (Trim ev sid before s)) sid) = raised s sid before"
proof -
  let ?s = "put_stream sid ((stream s sid)\<lparr>sm_trimBefore := raised s sid before\<rparr>) s"
  let ?s1 = "fst (persistRetentionLocked ev ?s)"
  have st1: "stream ?s1 = stream ?s" by (rule stream_cong) (rule persist_fields)
  have r1: "repr hs segs ?s1" if "sm_nextSeq (stream s sid) \<noteq> 0"
    using repr_trim [OF assms that, of before] st1 by (simp add: repr_def persist_fields)
  consider "sid = '''' \<or> before = 0" | "sid \<noteq> ''''" "before \<noteq> 0" "sm_nextSeq (stream s sid) = 0"
    | "sid \<noteq> ''''" "before \<noteq> 0" "sm_nextSeq (stream s sid) \<noteq> 0" "raised s sid before = sm_trimBefore (stream s sid)"
    | "sid \<noteq> ''''" "before \<noteq> 0" "sm_nextSeq (stream s sid) \<noteq> 0" "raised s sid before \<noteq> sm_trimBefore (stream s sid)"
    by blast
  then have "repr hs segs (fst (Trim ev sid before s)) \<and>
    (sid' \<noteq> sid \<longrightarrow> stream (fst (Trim ev sid before s)) sid' = stream s sid') \<and>
    (snd (Trim ev sid before s) = Inr stats \<longrightarrow>
      sm_trimBefore (stream (fst (Trim ev sid before s)) sid) = raised s sid before)"
  proof cases
    case 1 then show ?thesis using assms by (auto simp: Trim_def)
  next
    case 2 then show ?thesis using assms Trim_cases(1) by simp
  next
    case 3 then show ?thesis using assms Trim_cases(2) [of sid before s ev] by simp
  next
    case 4
    have "Trim ev sid before s = (?s1, case snd (persistRetentionLocked ev ?s) of Inl e \<Rightarrow> Inl e
        | Inr _ \<Rightarrow> Inr (streamStatsLocked ?s1 sid))"
      using Trim_cases(3) [of sid before s ev] 4
      by (cases "persistRetentionLocked ev ?s") (auto split: sum.split)
    then show ?thesis using r1 [OF 4(3)] st1 by (simp split: sum.split)
  qed
  then show "repr hs segs (fst (Trim ev sid before s))"
    and "sid' \<noteq> sid \<Longrightarrow> stream (fst (Trim ev sid before s)) sid' = stream s sid'"
    and "snd (Trim ev sid before s) = Inr stats \<Longrightarrow>
      sm_trimBefore (stream (fst (Trim ev sid before s)) sid) = raised s sid before"
    by blast+
qed

subsection \<open>The log as an interface\<close>

text \<open>
  What event-sourced components rely on: an append either adds one record at the end of its
  stream's history, or finds a duplicate and changes nothing, or fails without changing any history.
\<close>

lemma append_result_cases:
  obtains (error) e where "r = Inl e" | (new) x where "r = Inr (x, False)" | (duplicate) x where "r = Inr (x, True)"
proof (cases r)
  case (Inr p)
  obtain x b where "p = (x, b)" by (cases p)
  then show thesis using new duplicate Inr by (cases b) simp_all
qed (rule error)

locale event_log =
  fixes inv :: "'s \<Rightarrow> bool"
    and enabled :: "'q \<Rightarrow> 's \<Rightarrow> bool"
    and target :: "'q \<Rightarrow> string"
    and history :: "'s \<Rightarrow> string \<Rightarrow> 'r list"
    and append :: "'q \<Rightarrow> 's \<Rightarrow> 's \<times> ('e + 'r \<times> bool)"
  assumes append_new: "inv s \<Longrightarrow> enabled q s \<Longrightarrow> append q s = (s', Inr (r, False)) \<Longrightarrow>
      inv s' \<and> (\<forall>sid. history s' sid = history s sid @ (if sid = target q then [r] else []))"
    and append_duplicate: "inv s \<Longrightarrow> enabled q s \<Longrightarrow> append q s = (s', Inr (r, True)) \<Longrightarrow> s' = s"
    and append_error: "inv s \<Longrightarrow> enabled q s \<Longrightarrow> append q s = (s', Inl e) \<Longrightarrow> inv s' \<and> history s' = history s"
begin

lemma append_inv: "inv s \<Longrightarrow> enabled q s \<Longrightarrow> inv (fst (append q s))"
proof -
  assume s: "inv s" "enabled q s"
  obtain s' r where a: "append q s = (s', r)" by (cases "append q s")
  show ?thesis
  proof (cases r rule: append_result_cases)
    case (error e) then show ?thesis using append_error [OF s, of s' e] a by simp
  next
    case (new x) then show ?thesis using append_new [OF s, of s' x] a by simp
  next
    case (duplicate x) then show ?thesis using append_duplicate [OF s, of s' x] a s(1) by simp
  qed
qed

text \<open>A reader that folds a stream's history can follow along record by record.\<close>

lemma replay_append:
  assumes "inv s" "enabled q s" "append q s = (s', Inr (r, False))"
  shows "fold_result step init (history s' (target q)) =
    (case fold_result step init (history s (target q)) of Inl e \<Rightarrow> Inl e | Inr st \<Rightarrow> step st r)"
  using append_new [OF assms] by (simp add: fold_result_append) (auto split: sum.splits)

lemma replay_unchanged:
  assumes "inv s" "enabled q s" "append q s = (s', out)" "sid \<noteq> target q \<or> (\<forall>r. out \<noteq> Inr (r, False))"
  shows "history s' sid = history s sid"
proof (cases out rule: append_result_cases)
  case (error e) then show ?thesis using append_error [OF assms(1,2), of s' e] assms(3) by simp
next
  case (new x) then show ?thesis using append_new [OF assms(1,2), of s' x] assms(3,4) by simp
next
  case (duplicate x) then show ?thesis using append_duplicate [OF assms(1,2), of s' x] assms(3) by simp
qed

end

text \<open>The log store implements it: the history of a stream is what reading it from the start returns.\<close>

definition log_inv :: "hashes \<Rightarrow> store \<Rightarrow> bool" where
  "log_inv hs s \<longleftrightarrow> crc32c_incremental hs \<and> (\<exists>segs. repr hs segs s)"

definition log_enabled :: "env \<times> append_request \<Rightarrow> store \<Rightarrow> bool" where
  "log_enabled q s \<longleftrightarrow> room s (rq_StreamID (snd q)) \<and> is_i64 (ev_nowMs (fst q)) \<and> ev_written (fst q) = None \<and> ev_sync_ok (fst q)"

definition log_history :: "hashes \<Rightarrow> store \<Rightarrow> string \<Rightarrow> Record list" where
  "log_history hs s sid = (case ReadEach hs s sid 1 0 (\<lambda>out r. Inr (out @ [r])) [] of Inl _ \<Rightarrow> [] | Inr rs \<Rightarrow> rs)"

lemma log_history_window:
  assumes "repr hs segs s" "crc32c_incremental hs"
  shows "log_history hs s sid = (if sid = '''' then [] else window segs sid (max 1 (sm_trimBefore (stream s sid))) 0)"
proof (cases "sid = ''''")
  case False
  then show ?thesis using ReadEach_window [OF assms False, of 1 0 "\<lambda>out r. Inr (out @ [r])" "[]"]
    by (simp add: log_history_def fold_result_collect del: max.bounded_iff)
qed (simp add: log_history_def ReadEach_def)

lemma log_history_cong:
  assumes "repr hs segs s" "repr hs segs' s'" "crc32c_incremental hs" "log_records segs' = log_records segs" "stream s' = stream s"
  shows "log_history hs s' = log_history hs s"
  using assms by (simp add: fun_eq_iff log_history_window window_def stream_log_def)

interpretation store_log: event_log "log_inv hs" log_enabled "\<lambda>q. rq_StreamID (snd q)" "log_history hs"
    "\<lambda>q. Append hs (fst q) (snd q)" for hs
proof
  fix s s' :: store and q r
  assume "log_inv hs s" and q: "log_enabled q s" and a: "Append hs (fst q) (snd q) s = (s', Inr (r, False))"
  then obtain segs where crc: "crc32c_incremental hs" and segs: "repr hs segs s" by (auto simp: log_inv_def)
  note pre = q [unfolded log_enabled_def]
  have en: "room s (rq_StreamID (snd q))" "is_i64 (ev_nowMs (fst q))" "ev_written (fst q) = None" "ev_sync_ok (fst q)"
    using pre by simp_all
  from segs en show "log_inv hs s' \<and> (\<forall>sid. log_history hs s' sid = log_history hs s sid @
      (if sid = rq_StreamID (snd q) then [r] else []))"
  proof (cases rule: Append_cases [of hs segs s "snd q" "fst q"])
    case (appended s'' segs' rec crc)
    then have s': "repr hs segs' s'" "log_records segs' = log_records segs @ [r]"
        "\<forall>sid. sm_trimBefore (stream s' sid) = sm_trimBefore (stream s sid)"
        "rec_StreamID r = rq_StreamID (snd q)" "rec_Seq r = next_seq s (rq_StreamID (snd q))"
      using a by simp_all
    have "sm_trimBefore (stream s (rec_StreamID r)) \<le> sm_nextSeq (stream s (rec_StreamID r))"
      using repr_stream(2) [OF segs, of "rec_StreamID r"] by simp
    then have "max 1 (sm_trimBefore (stream s (rec_StreamID r))) \<le> rec_Seq r"
      using one_le_word [of "sm_nextSeq (stream s (rec_StreamID r))"]
      by (cases "sm_nextSeq (stream s (rec_StreamID r)) = 0") (simp_all add: s'(4,5) next_seq_def)
    moreover have "rec_StreamID r \<noteq> ''''" using s'(1,2) by (simp add: repr_def log_ok_def)
    ultimately show ?thesis
      using s' segs crc
      by (auto simp: log_inv_def log_history_window [OF _ crc] window_def stream_log_def simp del: max.bounded_iff)
  qed (use a in auto)
next
  fix s s' :: store and q r
  assume "log_inv hs s" and q: "log_enabled q s" and a: "Append hs (fst q) (snd q) s = (s', Inr (r, True))"
  then obtain segs where segs: "repr hs segs s" by (auto simp: log_inv_def)
  have en: "room s (rq_StreamID (snd q))" "is_i64 (ev_nowMs (fst q))" "ev_written (fst q) = None" "ev_sync_ok (fst q)"
    using q by (simp_all add: log_enabled_def)
  from segs en show "s' = s"
    by (cases rule: Append_cases [of hs segs s "snd q" "fst q"]) (use a in simp_all)
next
  fix s s' :: store and q e
  assume "log_inv hs s" and q: "log_enabled q s" and a: "Append hs (fst q) (snd q) s = (s', Inl e)"
  then obtain segs where crc: "crc32c_incremental hs" and segs: "repr hs segs s" by (auto simp: log_inv_def)
  have en: "room s (rq_StreamID (snd q))" "is_i64 (ev_nowMs (fst q))" "ev_written (fst q) = None" "ev_sync_ok (fst q)"
    using q by (simp_all add: log_enabled_def)
  from segs en show "log_inv hs s' \<and> log_history hs s' = log_history hs s"
  proof (cases rule: Append_cases [of hs segs s "snd q" "fst q"])
    case (failed s'' segs' e')
    then show ?thesis using a log_history_cong [OF segs _ crc] crc by (auto simp: log_inv_def)
  qed (use a in auto)
qed

lemma Append_accepted:
  assumes "repr hs segs s" and "st_open s" and "undisturbed ev" and "room s (rq_StreamID req)"
    and "rq_StreamID req \<noteq> ''''" and "rq_EventType req \<noteq> ''''" and "duplicate_of s req = None"
    and "length (rq_StreamID req) \<le> 0xffff" and "length (rq_EventType req) \<le> 0xffff" and "length (rq_IdempotencyKey req) \<le> 0xffff"
    and "headerSize + length (rq_StreamID req) + length (rq_EventType req) + length (rq_IdempotencyKey req) +
      length (rq_Payload req) < 2 ^ 32"
  shows "\<exists>s' rec. Append hs ev req s = (s', Inr (rec, False)) \<and> st_open s'"
proof -
  let ?sid = "rq_StreamID req" let ?new = "new_record ev req (next_seq s ?sid)"
  have op: "op_ChecksumType (st_options s) \<noteq> 0" "validateChecksumType (op_ChecksumType (st_options s))"
    using assms(1) by (simp_all add: repr_def options_ok_def)
  then have "encodedRecordSize ?new (op_ChecksumType (st_options s)) = Inr (headerSize + length (record_body ?new))"
    using assms(8-10) by (simp add: encodedRecordSize_def length_record_body)
  moreover have "\<exists>crc. checksum hs (record_body ?new) (op_ChecksumType (st_options s)) = Inr crc"
    using op(2) by (auto simp: validateChecksumType_def checksum_def checksumOnce_def checksum_types)
  then obtain crc where "checksum hs (record_body ?new) (op_ChecksumType (st_options s)) = Inr crc" ..
  ultimately obtain bs where enc: "encodeRecord hs ?new (op_ChecksumType (st_options s)) = Inr (bs, crc)"
    using op(1) by (simp add: encodeRecord_def)
  from enc obtain ty where "bs = base_header ?new crc @ (PutUint16 ty @ [0, 0]) @ record_body ?new"
    by (rule encodeRecord_Inr)
  then have "length bs = headerSize + length (record_body ?new)"
    by (simp add: headerSize_def legacyHeaderSize_def)
  then have len: "length bs < 2 ^ 32" using assms(11) by (simp add: length_record_body add.assoc)
  obtain s1 where s1: "streamStateLocked s ?sid = (s1, stream s ?sid)" "stream s1 = stream s" "repr hs segs s1"
      "st_open s1 = st_open s" "st_options s1 = st_options s" "st_activeSegmentID s1 = st_activeSegmentID s"
    using streamStateLocked_spec [of s ?sid hs segs] assms(1) by metis
  have "st_activeSegmentID s1 + 1 \<noteq> 0" using assms(4) s1(6) by (simp add: room_def)
  then obtain s2 segs2 where s2: "ensureWritableSegmentLocked ev (length bs) s1 = (s2, Inr ())" "repr hs segs2 s2"
      "stream s2 = stream s1" "st_options s2 = st_options s1" "st_open s2" "st_activeSegmentBytes s2 + length bs < 2 ^ 63"
    using ensureWritable_cases [OF s1(3), of ev "length bs"] assms(2,3) s1(4) len unfolding undisturbed_def by metis
  have "stream s2 = stream s" "st_options s2 = st_options s" "is_i64 (ev_nowMs ev)" "ev_written ev = None"
      "ev_sync_ok ev" "sm_nextSeq (stream s ?sid) + 1 \<noteq> 0"
    using s2 s1(2,5) assms(3,4) by (simp_all add: undisturbed_def room_def)
  note x = this
  obtain s' rec where "Append hs ev req s = (s', Inr (rec, False))" "st_open s'"
    using Append_commit [OF assms(5-7) s1(1) enc s2(1,2,5) x(1,2) s2(6) len x(3-6)] by blast
  then show ?thesis by blast
qed

lemma Append_outcome:
  assumes "repr hs segs s" and "room s (rq_StreamID req)" and "is_i64 (ev_nowMs ev)"
    and "ev_written ev = None" and "ev_sync_ok ev"
  shows "case Append hs ev req s of
      (s', Inl e) \<Rightarrow> (\<exists>segs'. repr hs segs' s' \<and> log_records segs' = log_records segs)
    | (s', Inr (rec, True)) \<Rightarrow> s' = s \<and> rq_IdempotencyKey req \<noteq> '''' \<and>
        st_idempotency s (idempotencyKey (rq_StreamID req) (rq_IdempotencyKey req)) = Some rec
    | (s', Inr (rec, False)) \<Rightarrow> (\<exists>segs'. repr hs segs' s' \<and> log_records segs' = log_records segs @ [rec]) \<and>
        rec_StreamID rec = rq_StreamID req \<and> rec_EventType rec = rq_EventType req \<and>
        rec_IdempotencyKey rec = rq_IdempotencyKey req \<and> rec_Payload rec = rq_Payload req \<and>
        rec_TimestampMs rec = ev_nowMs ev \<and> rec_Seq rec = next_seq s (rq_StreamID req) \<and>
        sm_nextSeq (stream s' (rq_StreamID req)) = rec_Seq rec + 1"
  using assms
proof (cases rule: Append_cases)
  case (failed s' segs' e)
  then show ?thesis by auto
next
  case (duplicate rec)
  then show ?thesis by (auto simp: duplicate_of_def split: if_splits)
next
  case (appended s' segs' rec crc)
  let ?sid = "rq_StreamID req"
  have sid: "rec_StreamID rec = ?sid" and seq: "rec_Seq rec = next_seq s ?sid" using appended(6) by simp_all
  have log: "stream_log segs' ?sid = stream_log segs ?sid @ [rec]" by (simp add: stream_log_def appended(4) sid)
  then have "sm_nextSeq (stream s' ?sid) = max (rec_Seq rec + 1) (sm_trimBefore (stream s ?sid))"
    using repr_stream(2) [OF appended(2), of ?sid] appended(7) by (simp add: next_of_def)
  moreover have "sm_trimBefore (stream s ?sid) \<le> rec_Seq rec"
  proof -
    have "sm_trimBefore (stream s ?sid) \<le> sm_nextSeq (stream s ?sid)"
      using repr_stream(2) [OF assms(1), of ?sid] by simp
    then show ?thesis by (cases "sm_nextSeq (stream s ?sid) = 0") (simp_all add: seq next_seq_def)
  qed
  moreover have "rec_Seq rec + 1 \<noteq> 0"
    using appended(2) log by (auto simp: repr_def log_ok_def appended(4))
  ultimately have "sm_nextSeq (stream s' ?sid) = rec_Seq rec + 1" by (simp add: max_succ)
  then show ?thesis using appended(1,2,4) sid seq by (auto simp: appended(6))
qed

subsection \<open>Properties\<close>

text \<open>
  C4. As long as the operating system writes and syncs what it is asked to, every append of a store
  that represents a log either fails and leaves the log as it was (an invalid request, a closed
  store, a segment that cannot be rolled, an oversized record), or finds the key of an earlier
  record and changes nothing, or adds exactly one record at the end of the log, with the fields of
  the request and the next sequence number of its stream. When the operating system is allowed to
  fail anywhere (\<open>ev2\<close>), a failed append still leaves the index of every stream and the duplicate
  table as they were; the bytes it may leave in the segment file are the subject of \<open>Log_Faults\<close>.
\<close>

theorem append_refines:
  assumes "repr hs segs s" and "room s (rq_StreamID req)" and "is_i64 (ev_nowMs ev)"
    and "ev_written ev = None" and "ev_sync_ok ev"
  shows "(case Append hs ev req s of
      (s', Inl e) \<Rightarrow> (\<exists>segs'. repr hs segs' s' \<and> log_records segs' = log_records segs)
    | (s', Inr (rec, True)) \<Rightarrow> s' = s \<and> rq_IdempotencyKey req \<noteq> '''' \<and>
        st_idempotency s (idempotencyKey (rq_StreamID req) (rq_IdempotencyKey req)) = Some rec
    | (s', Inr (rec, False)) \<Rightarrow> (\<exists>segs'. repr hs segs' s' \<and> log_records segs' = log_records segs @ [rec]) \<and>
        rec_StreamID rec = rq_StreamID req \<and> rec_EventType rec = rq_EventType req \<and>
        rec_IdempotencyKey rec = rq_IdempotencyKey req \<and> rec_Payload rec = rq_Payload req \<and>
        rec_TimestampMs rec = ev_nowMs ev \<and> rec_Seq rec = next_seq s (rq_StreamID req) \<and>
        sm_nextSeq (stream s' (rq_StreamID req)) = rec_Seq rec + 1) \<and>
    (case Append hs ev2 req s of
      (s2, Inl e) \<Rightarrow> stream s2 = stream s \<and> st_idempotency s2 = st_idempotency s
    | (s2, Inr _) \<Rightarrow> True)"
proof -
  have "case Append hs ev2 req s of
      (s2, Inl e) \<Rightarrow> stream s2 = stream s \<and> st_idempotency s2 = st_idempotency s | (s2, Inr _) \<Rightarrow> True"
    using Append_failed_index [of hs ev2 req s] by (auto simp: same_index_def split: sum.split prod.split)
  with Append_outcome [OF assms] show ?thesis by blast
qed

text \<open>
  C17. \<open>Read\<close> returns the records of the stream's part of the log, from the requested sequence number
  or the trim watermark on, in order, up to the limit; every byte range in the index decodes to its
  record, in sealed and active segments and with or without mapped reads.
\<close>

theorem read_returns_log:
  assumes "repr hs segs s" and "crc32c_incremental hs" and "sid \<noteq> ''''"
  shows "Read hs s sid fromSeq limit =
    Inr (take (nat (if limit \<le> 0 then 100 else limit))
      (filter (\<lambda>r. max fromSeq (sm_trimBefore (stream s sid)) \<le> rec_Seq r) (stream_log segs sid)))"
proof -
  have "max (max 1 fromSeq) (sm_trimBefore (stream s sid)) \<le> rec_Seq r \<longleftrightarrow>
      max fromSeq (sm_trimBefore (stream s sid)) \<le> rec_Seq r" if "r \<in> set (stream_log segs sid)" for r
  proof -
    have "rec_Seq r \<noteq> 0" using that assms(1) by (auto simp: repr_def log_ok_def list_all_iff stream_log_def)
    then show ?thesis using one_le_word [of "rec_Seq r"] by simp
  qed
  then have "filter (\<lambda>r. max (max 1 fromSeq) (sm_trimBefore (stream s sid)) \<le> rec_Seq r) (stream_log segs sid) =
      filter (\<lambda>r. max fromSeq (sm_trimBefore (stream s sid)) \<le> rec_Seq r) (stream_log segs sid)"
    by (rule filter_cong [OF refl])
  then show ?thesis
    by (simp add: Read_def ReadEach_window [OF assms] fold_result_collect window_def Let_def del: max.bounded_iff)
qed

text \<open>
  C22. A second append with the stream and key of an earlier successful one returns the earlier
  record (without its payload) marked as a duplicate and leaves the store exactly as it is, however
  the operating system behaves.
\<close>

theorem append_idempotent:
  assumes "repr hs segs s" and "room s (rq_StreamID req)" and "is_i64 (ev_nowMs ev)"
    and "ev_written ev = None" and "ev_sync_ok ev"
    and "rq_IdempotencyKey req \<noteq> ''''" and "Append hs ev req s = (s', Inr (rec, dup))"
    and "rq_StreamID req' = rq_StreamID req" and "rq_IdempotencyKey req' = rq_IdempotencyKey req" and "rq_EventType req' \<noteq> ''''"
  shows "\<exists>old. Append hs ev' req' s' = (s', Inr (old, True)) \<and> rec_Seq old = rec_Seq rec \<and>
    rec_StreamID old = rec_StreamID rec \<and> rec_CRC32 old = rec_CRC32 rec \<and> rec_Payload old = (if dup then rec_Payload rec else [])"
proof -
  have ne: "rq_StreamID req \<noteq> ''''" using assms(7) Append_early(1) by fastforce
  obtain old where old: "duplicate_of s' req' = Some old"
    "rec_Seq old = rec_Seq rec \<and> rec_StreamID old = rec_StreamID rec \<and> rec_CRC32 old = rec_CRC32 rec \<and>
     rec_Payload old = (if dup then rec_Payload rec else [])"
    using assms(1-5)
  proof (cases rule: Append_cases)
    case (duplicate rec')
    then have "s' = s" "rec = rec'" "dup" using assms(7) by simp_all
    moreover have "duplicate_of s req' = Some rec'" using duplicate(2) by (simp only: duplicate_of_def assms(8,9))
    ultimately show thesis using that [of rec'] by simp
  next
    case (appended s'' segs' rec' crc)
    have "st_idempotency s' = remember (foldl remember Map.empty (log_records segs)) rec"
      using appended(1,2,4) assms(7) by (simp add: repr_def)
    moreover have "rec_IdempotencyKey rec = rq_IdempotencyKey req" "rec_StreamID rec = rq_StreamID req" "dup = False"
      using appended(1,6) assms(7) by simp_all
    ultimately show thesis
      using that [of "idempotencyRecord rec"] assms(6,8,9) by (simp add: duplicate_of_def remember_def idempotencyRecord_def)
  qed (use assms(7) in simp)
  have "rq_StreamID req' \<noteq> ''''" using ne assms(8) by simp
  from Append_early(3) [OF this assms(10) old(1)] old(2) show ?thesis by blast
qed

text \<open>
  An append to an open store is accepted, also when it has to start a new segment, if the
  request names a stream and an event type, its strings fit their 16-bit length fields, the whole
  record is shorter than 4 GiB and no key matches.
\<close>

theorem append_accepts:
  assumes "repr hs segs s" and "st_open s" and "undisturbed ev" and "room s (rq_StreamID req)"
    and "rq_StreamID req \<noteq> ''''" and "rq_EventType req \<noteq> ''''" and "duplicate_of s req = None"
    and "length (rq_StreamID req) \<le> 0xffff" and "length (rq_EventType req) \<le> 0xffff" and "length (rq_IdempotencyKey req) \<le> 0xffff"
    and "headerSize + length (rq_StreamID req) + length (rq_EventType req) + length (rq_IdempotencyKey req) +
      length (rq_Payload req) < 2 ^ 32"
  shows "\<exists>s' rec. Append hs ev req s = (s', Inr (rec, False)) \<and> st_open s'"
  by (rule Append_accepted [OF assms])

text \<open>
  Trimming keeps the log and every other stream, never lowers the watermark and never moves it
  past the next sequence number; after a successful trim no read returns a record below it.
\<close>

theorem trim_correct:
  assumes "repr hs segs s"
  shows "repr hs segs (fst (Trim ev sid before s)) \<and>
    (sid' \<noteq> sid \<longrightarrow> stream (fst (Trim ev sid before s)) sid' = stream s sid') \<and>
    (snd (Trim ev sid before s) = Inr stats \<longrightarrow>
      sm_trimBefore (stream (fst (Trim ev sid before s)) sid) =
        max (sm_trimBefore (stream s sid)) (min before (sm_nextSeq (stream s sid))))"
  using Trim_repr [OF assms] by (simp add: raised_def)

text \<open>
  C33. The duplicate table cannot tell apart two pairs of stream and key that agree around an embedded
  NUL byte: if one of them was appended, an append to the other stream is answered with the first
  stream's record, and nothing is written.
\<close>

theorem idempotency_key_collision:
  assumes "repr hs segs s" and "room s (a @ CHR 0x00 # b)" and "is_i64 (ev_nowMs ev)"
    and "ev_written ev = None" and "ev_sync_ok ev" and "a \<noteq> ''''" and "c \<noteq> ''''"
    and "Append hs ev \<lparr>rq_StreamID = a @ CHR 0x00 # b, rq_EventType = t, rq_IdempotencyKey = c, rq_Payload = p\<rparr> s = (s', Inr (rec, False))"
    and "t' \<noteq> ''''"
  shows "\<exists>old. Append hs ev' \<lparr>rq_StreamID = a, rq_EventType = t', rq_IdempotencyKey = b @ CHR 0x00 # c, rq_Payload = p'\<rparr> s' =
    (s', Inr (old, True)) \<and> rec_StreamID old = a @ CHR 0x00 # b"
proof -
  let ?req = "\<lparr>rq_StreamID = a @ CHR 0x00 # b, rq_EventType = t, rq_IdempotencyKey = c, rq_Payload = p\<rparr>"
  let ?req' = "\<lparr>rq_StreamID = a, rq_EventType = t', rq_IdempotencyKey = b @ CHR 0x00 # c, rq_Payload = p'\<rparr>"
  have pre: "room s (rq_StreamID ?req)" using assms(2) by simp
  from assms(1) pre assms(3-5) have "duplicate_of s' ?req' = Some (idempotencyRecord rec) \<and> rec_StreamID rec = a @ CHR 0x00 # b"
  proof (cases rule: Append_cases)
    case (appended s'' segs' rec' crc)
    then have "st_idempotency s' = remember (foldl remember Map.empty (log_records segs)) rec"
      "rec_IdempotencyKey rec = c" "rec_StreamID rec = a @ CHR 0x00 # b"
      using assms(8) by (simp_all add: repr_def)
    then show ?thesis using assms(7) by (simp add: duplicate_of_def remember_def idempotencyKey_def)
  qed (use assms(8) in simp_all)
  then show ?thesis
    using Append_early(3) [of ?req' s' "idempotencyRecord rec" hs ev'] assms(6,9) by (simp add: idempotencyRecord_def)
qed

subsection \<open>A concrete store\<close>

text \<open>An empty store as \<open>OpenWithOptions\<close> leaves it in an empty directory, and one append to it.\<close>

definition demo_options :: options where
  "demo_options = \<lparr>op_SegmentSizeBytes = 100, op_FsyncPolicy = ''always'', op_FsyncInterval = 1000,
     op_ChecksumType = ChecksumTypeCRC32C, op_MmapRead = True\<rparr>"

definition demo_store :: store where
  "demo_store = \<lparr>st_options = demo_options, st_files = [(1, [])], st_retention = [], st_open = True,
     st_activeSegmentID = 1, st_activeSegmentBytes = 0, st_streams = [], st_idempotency = Map.empty, st_lastSync = 9\<rparr>"

definition demo_env :: env where
  "demo_env = \<lparr>ev_nowMs = 5, ev_clock = 9, ev_close_ok = True, ev_open_ok = True, ev_written = None,
     ev_sync_ok = True, ev_persist_ok = True\<rparr>"

definition demo_request :: append_request where
  "demo_request = \<lparr>rq_StreamID = ''s'', rq_EventType = ''e'', rq_IdempotencyKey = ''k'', rq_Payload = [1, 2]\<rparr>"

lemma demo_store_repr: "repr demo_hashes [(1, [])] demo_store"
  by (simp add: repr_def log_ok_def options_ok_def demo_store_def demo_options_def log_records_def stream_log_def
      entries_for_def layout_def stream_def zero_stream_def next_of_def is_i64_def validateChecksumType_def checksum_types)

lemma demo_store_stream [simp]: "stream demo_store sid = zero_stream"
  by (simp add: demo_store_def stream_def)

lemma demo_pre:
  "room demo_store sid" "is_i64 (ev_nowMs demo_env)" "ev_written demo_env = None" "ev_sync_ok demo_env" "st_open demo_store"
  "undisturbed demo_env"
  by (simp_all add: room_def zero_stream_def demo_env_def is_i64_def undisturbed_def) (simp_all add: demo_store_def)

lemma demo_request_fields:
  "rq_StreamID demo_request = ''s''" "rq_EventType demo_request = ''e''" "rq_IdempotencyKey demo_request = ''k''"
  "rq_Payload demo_request = [1, 2]"
  by (simp_all add: demo_request_def)

lemma demo_no_duplicate: "duplicate_of demo_store req = None"
  by (simp add: duplicate_of_def demo_store_def)

theorem append_accepts_witness:
  "\<exists>s' rec. Append demo_hashes demo_env demo_request demo_store = (s', Inr (rec, False)) \<and> st_open s'"
  by (rule append_accepts [OF demo_store_repr demo_pre(5,6,1)])
     (simp_all add: demo_request_fields demo_no_duplicate headerSize_def)

lemma demo_appended:
  obtains s' rec segs' where "Append demo_hashes demo_env demo_request demo_store = (s', Inr (rec, False))"
    "repr demo_hashes segs' s'" "log_records segs' = [rec]" "rec_Seq rec = 1" "rec_StreamID rec = ''s''"
    "sm_trimBefore (stream s' ''s'') = 0"
proof -
  have acc: "\<exists>s' rec. Append demo_hashes demo_env demo_request demo_store = (s', Inr (rec, False)) \<and> st_open s'"
    by (rule Append_accepted [OF demo_store_repr demo_pre(5,6,1)])
       (simp_all add: demo_request_fields demo_no_duplicate headerSize_def)
  from demo_store_repr demo_pre(1-4) show thesis
  proof (cases rule: Append_cases [of demo_hashes "[(1, [])]" demo_store demo_request demo_env])
    case (appended s' segs' rec crc)
    then show thesis
      using that [OF appended(1,2)]
      by (simp add: log_records_def next_seq_def zero_stream_def demo_request_fields)
  qed (use acc in auto)
qed

theorem append_refines_witness:
  "\<exists>s' rec segs'. Append demo_hashes demo_env demo_request demo_store = (s', Inr (rec, False)) \<and>
     repr demo_hashes segs' s' \<and> log_records segs' = [rec] \<and> rec_Payload rec = [1, 2] \<and> rec_Seq rec = 1"
proof -
  obtain s' rec where a: "Append demo_hashes demo_env demo_request demo_store = (s', Inr (rec, False))"
    by (rule demo_appended)
  from append_refines [OF demo_store_repr demo_pre(1-4), of demo_request] show ?thesis
    by (simp add: a demo_request_fields log_records_def next_seq_def zero_stream_def)
qed

theorem read_returns_log_witness:
  "\<exists>s' rec. Append demo_hashes demo_env demo_request demo_store = (s', Inr (rec, False)) \<and>
     Read demo_hashes s' ''s'' 0 10 = Inr [rec]"
proof -
  obtain s' rec segs' where a: "Append demo_hashes demo_env demo_request demo_store = (s', Inr (rec, False))"
      "repr demo_hashes segs' s'" "log_records segs' = [rec]" "rec_Seq rec = 1" "rec_StreamID rec = ''s''"
      "sm_trimBefore (stream s' ''s'') = 0" by (rule demo_appended)
  have "Read demo_hashes s' ''s'' 0 10 = Inr [rec]"
    using read_returns_log [OF a(2) demo_hashes_incremental, of "''s''" 0 10] a(3-6) by (simp add: stream_log_def)
  with a(1) show ?thesis by blast
qed

theorem append_idempotent_witness:
  "\<exists>s' rec old. Append demo_hashes demo_env demo_request demo_store = (s', Inr (rec, False)) \<and>
     Append demo_hashes demo_env demo_request s' = (s', Inr (old, True)) \<and> rec_Seq old = rec_Seq rec"
proof -
  obtain s' rec where a: "Append demo_hashes demo_env demo_request demo_store = (s', Inr (rec, False))"
    by (rule demo_appended)
  have "rq_IdempotencyKey demo_request \<noteq> ''''" "rq_EventType demo_request \<noteq> ''''" by (simp_all add: demo_request_fields)
  from append_idempotent [OF demo_store_repr demo_pre(1-4) this(1) a refl refl this(2), of demo_env] a
  show ?thesis by blast
qed

theorem trim_correct_witness:
  "\<exists>s' rec. Append demo_hashes demo_env demo_request demo_store = (s', Inr (rec, False)) \<and>
     sm_trimBefore (stream (fst (Trim demo_env ''s'' 7 s')) ''s'') = 2"
proof -
  obtain s' rec segs' where a: "Append demo_hashes demo_env demo_request demo_store = (s', Inr (rec, False))"
      "repr demo_hashes segs' s'" "log_records segs' = [rec]" "rec_Seq rec = 1" "rec_StreamID rec = ''s''"
      "sm_trimBefore (stream s' ''s'') = 0" by (rule demo_appended)
  have nx: "sm_nextSeq (stream s' ''s'') = 2"
    using repr_stream(2) [OF a(2), of "''s''"] a(3-6) by (simp add: stream_log_def next_of_def)
  have "raised s' ''s'' 7 \<noteq> sm_trimBefore (stream s' ''s'')" by (simp add: raised_def nx a(6))
  then obtain stats where "snd (Trim demo_env ''s'' 7 s') = Inr stats"
    using Trim_cases(3) [of "''s''" 7 s' demo_env] nx by (auto simp: persistRetentionLocked_def demo_env_def)
  with trim_correct [OF a(2), of demo_env "''s''" 7 "''s''" stats] a show ?thesis by (auto simp: nx)
qed

theorem idempotency_key_collision_witness:
  "\<exists>s' rec old. Append demo_hashes demo_env \<lparr>rq_StreamID = ''a'' @ CHR 0x00 # ''b'', rq_EventType = ''e'',
       rq_IdempotencyKey = ''c'', rq_Payload = []\<rparr> demo_store = (s', Inr (rec, False)) \<and>
     Append demo_hashes demo_env \<lparr>rq_StreamID = ''a'', rq_EventType = ''e'',
       rq_IdempotencyKey = ''b'' @ CHR 0x00 # ''c'', rq_Payload = [9]\<rparr> s' = (s', Inr (old, True)) \<and>
     rec_StreamID old = ''a'' @ CHR 0x00 # ''b''"
proof -
  let ?req = "\<lparr>rq_StreamID = ''a'' @ CHR 0x00 # ''b'', rq_EventType = ''e'', rq_IdempotencyKey = ''c'', rq_Payload = []\<rparr>"
  have "\<exists>s' rec. Append demo_hashes demo_env ?req demo_store = (s', Inr (rec, False)) \<and> st_open s'"
    by (rule Append_accepted [OF demo_store_repr demo_pre(5,6,1)]) (simp_all add: demo_no_duplicate headerSize_def)
  then obtain s' rec where a: "Append demo_hashes demo_env ?req demo_store = (s', Inr (rec, False))" by blast
  from idempotency_key_collision [OF demo_store_repr demo_pre(1-4) _ _ a, of "''e''" demo_env "[9]"] a
  show ?thesis by auto
qed

end
