(* ===== verification/Log_Recovery.thy ===== *)
theory Log_Recovery
  imports Log_Refinement
begin

text \<open>
  Opening a store: the log-scan path of \<open>recover\<close>, \<open>recoverSegment\<close> with its torn-tail rule,
  \<open>sortStreamEntries\<close>, \<open>loadRetention\<close> and \<open>OpenWithOptions\<close> after the options are normalised.
  The fast path through index files, the reconciliation of an interrupted compaction that comes
  before recovery and the rewriting of the index files after it are not modelled. A directory whose
  last segment has a torn tail always takes the scan: the index files do not cover the torn bytes.
\<close>

subsection \<open>Scanning\<close>

definition index_record :: "u64 \<Rightarrow> nat \<Rightarrow> nat \<Rightarrow> Record \<Rightarrow> store \<Rightarrow> store" where
  "index_record segmentID offset len rec s =
     (let entry = \<lparr>se_Seq = rec_Seq rec, se_SegmentID = segmentID, se_Offset = word_of_nat offset,
                   se_Length = word_of_nat len\<rparr>;
          (s1, state) = streamStateLocked s (rec_StreamID rec);
          s2 = put_stream (rec_StreamID rec)
                 (state\<lparr>sm_entries := sm_entries state @ [entry],
                        sm_nextSeq := (if sm_nextSeq state \<le> rec_Seq rec then rec_Seq rec + 1 else sm_nextSeq state)\<rparr>) s1
      in if rec_IdempotencyKey rec \<noteq> ''''
         then s2\<lparr>st_idempotency := (st_idempotency s2)
           (idempotencyKey (rec_StreamID rec) (rec_IdempotencyKey rec) \<mapsto> idempotencyRecord rec)\<rparr>
         else s2)"

lemma read_progress:
  assumes "readRecordAt hs file offset = Inr (rec, nextOffset)"
  shows "offset < nextOffset \<and> offset < length file"
proof -
  obtain raw ct where r: "readRawRecordFromReadAt hs \<lparr>io_file = file, io_mmap = None\<rparr> offset = Inr (raw, ct, nextOffset)"
    using assms by (auto simp: readRecordAt_def readRecordAtIO_def readRawRecordAtWithScratch_def slice_def split: sum.splits)
  have p: "offset < n" if "parseBody hs src offset h hl ty = Inr (x, y, n)" "0 < hl" for src h hl ty x y n
    using that by (auto simp: parseBody_def Let_def split: sum.splits)
  show ?thesis
    using r by (auto simp: readRawRecordFromReadAt_def Let_def ReadAt_def legacyHeaderSize_def headerSize_def
        split: if_splits dest!: p)
qed

text \<open>The scan returns the store with the segment indexed and the file as recovery leaves it.\<close>

function scan_segment :: "hashes \<Rightarrow> u64 \<Rightarrow> bytes \<Rightarrow> nat \<Rightarrow> store \<Rightarrow> log_error + store \<times> bytes" where
  "scan_segment hs segmentID file offset s =
     (case readRecordAt hs file offset of
        Inl e \<Rightarrow> if e = EndOfFile then Inr (s, file) else Inr (s, take offset file)
      | Inr (rec, nextOffset) \<Rightarrow>
          if 2 ^ 32 \<le> nextOffset - offset then Inl RecordTooLarge
          else scan_segment hs segmentID file nextOffset (index_record segmentID offset (nextOffset - offset) rec s))"
  by pat_completeness auto
termination
  by (relation "measure (\<lambda>(hs, i, file, offset, s). length file - offset)") (auto dest!: read_progress [OF sym] read_progress)

declare scan_segment.simps [simp del]

definition recoverSegment :: "hashes \<Rightarrow> u64 \<Rightarrow> store \<Rightarrow> log_error + store" where
  "recoverSegment hs segmentID s =
     (case scan_segment hs segmentID (file_of s segmentID) 0 s of
        Inl e \<Rightarrow> Inl e
      | Inr (s1, file) \<Rightarrow>
          Inr (s1\<lparr>st_files := AList.update segmentID file (st_files s1), st_activeSegmentID := segmentID,
                 st_activeSegmentBytes := length file\<rparr>))"

definition discoverSegmentIDs :: "store \<Rightarrow> u64 list" where
  "discoverSegmentIDs s = sort (map fst (st_files s))"

definition resetRecoveredState :: "store \<Rightarrow> store" where
  "resetRecoveredState s = s\<lparr>st_streams := [], st_idempotency := Map.empty\<rparr>"

definition sortStreamEntries :: "store \<Rightarrow> store" where
  "sortStreamEntries s = s\<lparr>st_streams := map (\<lambda>(sid, st). (sid, st\<lparr>sm_entries := sort_key se_Seq (sm_entries st)\<rparr>)) (st_streams s)\<rparr>"

definition recoverByScan :: "hashes \<Rightarrow> store \<Rightarrow> log_error + store" where
  "recoverByScan hs s =
     (if discoverSegmentIDs s = [] then Inr (s\<lparr>st_activeSegmentID := 1, st_activeSegmentBytes := 0\<rparr>)
      else
        (case fold_result (\<lambda>s i. recoverSegment hs i s) (resetRecoveredState s) (discoverSegmentIDs s) of
           Inl e \<Rightarrow> Inl e
         | Inr s1 \<Rightarrow> Inr (sortStreamEntries s1)))"

definition load_watermark :: "store \<Rightarrow> string \<times> u64 \<Rightarrow> store" where
  "load_watermark s = (\<lambda>(streamID, before).
     if streamID = '''' \<or> before = 0 then s
     else
       (let (s1, state) = streamStateLocked s streamID in
        put_stream streamID (state\<lparr>sm_trimBefore := before,
          sm_nextSeq := (if sm_nextSeq state < before then before else sm_nextSeq state)\<rparr>) s1))"

definition loadRetention :: "store \<Rightarrow> store" where
  "loadRetention s = foldl load_watermark s (st_retention s)"

text \<open>A directory with its segment files and persisted watermarks, before anything is in memory.\<close>

definition closed_store :: "options \<Rightarrow> (u64 \<times> bytes) list \<Rightarrow> (string \<times> u64) list \<Rightarrow> store" where
  "closed_store op files retention =
     \<lparr>st_options = op, st_files = files, st_retention = retention, st_open = False, st_activeSegmentID = 0,
      st_activeSegmentBytes = 0, st_streams = [], st_idempotency = Map.empty, st_lastSync = 0\<rparr>"

definition OpenStore :: "hashes \<Rightarrow> env \<Rightarrow> options \<Rightarrow> (u64 \<times> bytes) list \<Rightarrow> (string \<times> u64) list \<Rightarrow> log_error + store" where
  "OpenStore hs ev op files retention =
     (case recoverByScan hs (closed_store op files retention) of
        Inl e \<Rightarrow> Inl e
      | Inr s \<Rightarrow> (case openActiveFilesLocked ev (loadRetention s) of (s1, Inl e) \<Rightarrow> Inl e | (s1, Inr _) \<Rightarrow> Inr s1))"

subsection \<open>What the scan builds\<close>

definition bump :: "u64 \<Rightarrow> Record \<Rightarrow> u64" where
  "bump n r = (if n \<le> rec_Seq r then rec_Seq r + 1 else n)"

definition of_stream :: "string \<Rightarrow> (Record \<times> stream_entry) list \<Rightarrow> (Record \<times> stream_entry) list" where
  "of_stream sid ps = filter (\<lambda>(r, e). rec_StreamID r = sid) ps"

definition indexed :: "(Record \<times> stream_entry) list \<Rightarrow> store \<Rightarrow> bool" where
  "indexed ps s \<longleftrightarrow> distinct (map fst (st_streams s)) \<and> st_idempotency s = foldl remember Map.empty (map fst ps) \<and>
     (\<forall>sid. stream s sid = \<lparr>sm_nextSeq = foldl bump 0 (map fst (of_stream sid ps)), sm_trimBefore = 0,
        sm_entries = map snd (of_stream sid ps)\<rparr>)"

definition same_dir :: "store \<Rightarrow> store \<Rightarrow> bool" where
  "same_dir s s' \<longleftrightarrow> st_options s' = st_options s \<and> st_retention s' = st_retention s \<and> st_open s' = st_open s"

lemma streamStateLocked_more:
  "distinct (map fst (st_streams s)) \<Longrightarrow> distinct (map fst (st_streams (fst (streamStateLocked s sid))))"
  "st_files (fst (streamStateLocked s sid)) = st_files s" "st_retention (fst (streamStateLocked s sid)) = st_retention s"
  "st_idempotency (fst (streamStateLocked s sid)) = st_idempotency s"
  "st_open (fst (streamStateLocked s sid)) = st_open s" "st_options (fst (streamStateLocked s sid)) = st_options s"
  "stream (fst (streamStateLocked s sid)) = stream s" "snd (streamStateLocked s sid) = stream s sid"
  "st_activeSegmentID (fst (streamStateLocked s sid)) = st_activeSegmentID s"
proof -
  show "stream (fst (streamStateLocked s sid)) = stream s"
    by (auto simp: fun_eq_iff streamStateLocked_def stream_def put_stream_def update_conv' split: option.split)
qed (simp_all add: streamStateLocked_def stream_def split: option.split)

lemma indexed_record:
  fixes i :: u64 and off :: nat
  assumes "indexed ps s" "stored hs rec" "len = length (enc hs rec)"
  defines "s' \<equiv> index_record i off len rec s"
  shows "indexed (ps @ [(rec, entry_of hs i off rec)]) s'" "same_dir s s'" "st_files s' = st_files s"
proof -
  let ?sid = "rec_StreamID rec"
  obtain s1 st where s1: "streamStateLocked s ?sid = (s1, st)" by (cases "streamStateLocked s ?sid")
  note more = streamStateLocked_more [of s ?sid, unfolded s1 fst_conv snd_conv]
  have idem: "st_idempotency s' = remember (st_idempotency s) rec"
    by (simp add: s'_def index_record_def s1 Let_def remember_def more)
  have str: "stream s' sid = (if sid = ?sid then (stream s ?sid)\<lparr>sm_entries := sm_entries (stream s ?sid) @ [entry_of hs i off rec],
      sm_nextSeq := bump (sm_nextSeq (stream s ?sid)) rec\<rparr> else stream s sid)" for sid
  proof -
    have "stream (if b then t\<lparr>st_idempotency := m\<rparr> else t) = stream t" for b t m
      using stream_cong [of "t\<lparr>st_idempotency := m\<rparr>" t] by simp
    then show ?thesis by (simp add: s'_def index_record_def s1 Let_def more entry_of_def assms(3) bump_def)
  qed
  show "same_dir s s'" "st_files s' = st_files s"
    by (simp_all add: s'_def index_record_def s1 Let_def same_dir_def more)
  have "distinct (map fst (st_streams s'))"
    using assms(1) by (simp add: s'_def index_record_def s1 Let_def indexed_def more)
  then show "indexed (ps @ [(rec, entry_of hs i off rec)]) s'"
    using assms(1) by (auto simp: indexed_def idem str of_stream_def)
qed

subsection \<open>One segment\<close>

text \<open>What a crash may leave behind the last complete record: nothing, or a proper prefix of another one.\<close>

definition torn :: "hashes \<Rightarrow> bytes \<Rightarrow> bool" where
  "torn hs t \<longleftrightarrow> t = [] \<or> (\<exists>rec k. stored hs rec \<and> k < length (enc hs rec) \<and> t = take k (enc hs rec))"

lemma read_torn:
  assumes "torn hs t" "crc32c_incremental hs"
  shows "readRecordAt hs (pre @ t) (length pre) = Inl (if t = [] then EndOfFile else CorruptRecord)"
proof (cases "t = []")
  case True
  then show ?thesis
    by (simp add: readRecordAt_def readRecordAtIO_def readRawRecordAtWithScratch_def slice_def
        readRawRecordFromReadAt_def ReadAt_def)
next
  case False
  then obtain rec k where r: "stored hs rec" "k < length (enc hs rec)" "t = take k (enc hs rec)" "k \<noteq> 0"
    using assms(1) by (auto simp: torn_def)
  then show ?thesis
    using decode_torn [OF storedD(1,2) [OF r(1)] assms(2) r(2), of pre] False
    by (simp add: readRecordAt_def readRecordAtIO_def reader_decode [OF assms(2)])
qed

lemma scan_segment_ok:
  assumes "list_all (stored hs) recs" "torn hs t" "crc32c_incremental hs" "indexed ps s"
  shows "\<exists>s'. scan_segment hs i (pre @ seg_bytes hs recs @ t) (length pre) s = Inr (s', pre @ seg_bytes hs recs) \<and>
    indexed (ps @ index_from hs i (length pre) recs) s' \<and> same_dir s s' \<and> st_files s' = st_files s"
  using assms(1,4)
proof (induction recs arbitrary: pre s ps)
  case Nil
  then show ?case
    by (subst scan_segment.simps) (simp add: read_torn [OF assms(2,3)] same_dir_def)
next
  case (Cons rec recs)
  let ?n = "length (enc hs rec)" let ?file = "pre @ seg_bytes hs (rec # recs) @ t"
  let ?s = "index_record i (length pre) ?n rec s"
  have st: "stored hs rec" using Cons.prems(1) by simp
  have "readRecordAt hs ?file (length pre) = Inr (rec, length pre + ?n)"
    unfolding readRecordAt_def by (rule read_stored [OF st assms(3), of _ _ "seg_bytes hs recs @ t"]) (simp add: seg_bytes_def)
  then have scan: "scan_segment hs i ?file (length pre) s = scan_segment hs i ?file (length (pre @ enc hs rec)) ?s"
    using storedD(4) [OF st] by (subst scan_segment.simps) simp
  note ix = indexed_record [OF Cons.prems(2) st refl, of i "length pre"]
  obtain s' where "scan_segment hs i ((pre @ enc hs rec) @ seg_bytes hs recs @ t) (length (pre @ enc hs rec)) ?s =
      Inr (s', (pre @ enc hs rec) @ seg_bytes hs recs)"
      "indexed ((ps @ [(rec, entry_of hs i (length pre) rec)]) @ index_from hs i (length (pre @ enc hs rec)) recs) s'"
      "same_dir ?s s'" "st_files s' = st_files ?s"
    using Cons.IH [OF _ ix(1), of "pre @ enc hs rec"] Cons.prems(1) by auto
  then show ?case unfolding scan using ix(2,3) by (auto simp: seg_bytes_def same_dir_def)
qed

subsection \<open>The whole directory\<close>

text \<open>Segments with the bytes a crash left behind the complete records of each.\<close>

type_synonym torn_log = "(u64 \<times> Record list \<times> bytes) list"

definition clean :: "torn_log \<Rightarrow> seg_log" where
  "clean ds = map (\<lambda>(i, recs, t). (i, recs)) ds"

definition disk :: "hashes \<Rightarrow> torn_log \<Rightarrow> (u64 \<times> bytes) list" where
  "disk hs ds = map (\<lambda>(i, recs, t). (i, seg_bytes hs recs @ t)) ds"

definition clean_files :: "hashes \<Rightarrow> seg_log \<Rightarrow> (u64 \<times> bytes) list" where
  "clean_files hs segs = map (\<lambda>(i, recs). (i, seg_bytes hs recs)) segs"

lemma update_mid: "k \<notin> fst ` set xs \<Longrightarrow> AList.update k v (xs @ (k, w) # ys) = xs @ (k, v) # ys"
  by (induction xs) auto

lemma map_of_mid: "k \<notin> fst ` set xs \<Longrightarrow> map_of (xs @ (k, w) # ys) k = Some w"
  by (induction xs) auto

lemma fst_files [simp]: "map fst (clean_files hs segs) = map fst segs" "fst ` set (clean_files hs segs) = fst ` set segs"
  "map fst (disk hs ds) = map fst (clean ds)"
  by (auto simp: clean_files_def disk_def clean_def split_def image_image)

lemma recoverSegment_ok:
  assumes "list_all (stored hs) recs" "torn hs t" "crc32c_incremental hs" "indexed ps s"
    "st_files s = clean_files hs segs @ (i, seg_bytes hs recs @ t) # ys" "i \<notin> fst ` set segs"
  obtains s' where "recoverSegment hs i s = Inr s'" "indexed (ps @ index_from hs i 0 recs) s'" "same_dir s s'"
    "st_files s' = clean_files hs (segs @ [(i, recs)]) @ ys" "st_activeSegmentID s' = i"
    "st_activeSegmentBytes s' = length (seg_bytes hs recs)"
proof -
  have "file_of s i = seg_bytes hs recs @ t" using assms(6) by (simp add: file_of_def assms(5) map_of_mid del: map_of_append)
  then obtain s1 where s1: "scan_segment hs i (file_of s i) 0 s = Inr (s1, seg_bytes hs recs)"
      "indexed (ps @ index_from hs i 0 recs) s1" "same_dir s s1" "st_files s1 = st_files s"
    using scan_segment_ok [OF assms(1-4), of i "[]"] by auto
  let ?s = "s1\<lparr>st_files := AList.update i (seg_bytes hs recs) (st_files s1), st_activeSegmentID := i,
    st_activeSegmentBytes := length (seg_bytes hs recs)\<rparr>"
  have "recoverSegment hs i s = Inr ?s" by (simp add: recoverSegment_def s1(1))
  moreover have "indexed (ps @ index_from hs i 0 recs) ?s"
    using s1(2) stream_cong [of ?s s1] by (simp add: indexed_def)
  moreover have "same_dir s ?s" using s1(3) by (simp add: same_dir_def)
  moreover have "st_files ?s = clean_files hs (segs @ [(i, recs)]) @ ys"
    using assms(6) by (simp add: s1(4) assms(5) update_mid) (simp add: clean_files_def)
  ultimately show thesis using that by simp
qed

lemma recover_fold:
  assumes "crc32c_incremental hs" "list_all (\<lambda>(i, recs, t). list_all (stored hs) recs \<and> torn hs t) ds"
    "distinct (map fst (segs @ clean ds))" "indexed (layout hs segs) s" "st_files s = clean_files hs segs @ disk hs ds"
  shows "\<exists>s'. fold_result (\<lambda>s i. recoverSegment hs i s) s (map fst (clean ds)) = Inr s' \<and>
    indexed (layout hs (segs @ clean ds)) s' \<and> same_dir s s' \<and> st_files s' = clean_files hs (segs @ clean ds) \<and>
    (ds \<noteq> [] \<longrightarrow> st_activeSegmentID s' = fst (last (clean ds)) \<and>
       st_activeSegmentBytes s' = length (seg_bytes hs (snd (last (clean ds)))))"
  using assms(2-)
proof (induction ds arbitrary: segs s)
  case Nil
  then show ?case by (simp add: clean_def disk_def same_dir_def)
next
  case (Cons d ds)
  obtain i recs t where d: "d = (i, recs, t)" by (cases d)
  have pre: "list_all (stored hs) recs" "torn hs t" "i \<notin> fst ` set segs" using Cons.prems d by (auto simp: clean_def)
  have "st_files s = clean_files hs segs @ (i, seg_bytes hs recs @ t) # disk hs ds"
    using Cons.prems(4) by (simp add: d disk_def)
  from recoverSegment_ok [OF pre(1,2) assms(1) Cons.prems(3) this pre(3)]
  obtain s1 where s1: "recoverSegment hs i s = Inr s1" "indexed (layout hs segs @ index_from hs i 0 recs) s1"
    "same_dir s s1" "st_files s1 = clean_files hs (segs @ [(i, recs)]) @ disk hs ds" "st_activeSegmentID s1 = i"
    "st_activeSegmentBytes s1 = length (seg_bytes hs recs)" by blast
  have "indexed (layout hs (segs @ [(i, recs)])) s1" using s1(2) by (simp add: layout_def)
  moreover have "distinct (map fst ((segs @ [(i, recs)]) @ clean ds))" using Cons.prems(2) d by (auto simp: clean_def)
  moreover have "list_all (\<lambda>(i, recs, t). list_all (stored hs) recs \<and> torn hs t) ds" using Cons.prems(1) by simp
  ultimately obtain s' where s': "fold_result (\<lambda>s i. recoverSegment hs i s) s1 (map fst (clean ds)) = Inr s'"
    "indexed (layout hs ((segs @ [(i, recs)]) @ clean ds)) s'" "same_dir s1 s'"
    "st_files s' = clean_files hs ((segs @ [(i, recs)]) @ clean ds)"
    "ds \<noteq> [] \<longrightarrow> st_activeSegmentID s' = fst (last (clean ds)) \<and>
       st_activeSegmentBytes s' = length (seg_bytes hs (snd (last (clean ds))))"
    using Cons.IH [of "segs @ [(i, recs)]" s1] s1(4) by blast
  show ?case
  proof (cases "ds = []")
    case True
    then show ?thesis using s' s1 by (auto simp: d clean_def same_dir_def)
  next
    case False
    then have "clean ds \<noteq> []" "clean (d # ds) = (i, recs) # clean ds" by (simp_all add: clean_def d)
    then show ?thesis using s' s1 False by (auto simp: same_dir_def)
  qed
qed

subsection \<open>From the index to the represented log\<close>

lemma bump_next_of:
  assumes "sorted_wrt (<) (map rec_Seq rs)" "list_all (\<lambda>r. rec_Seq r + 1 \<noteq> 0) rs"
  shows "foldl bump 0 rs = next_of rs"
  using assms
proof (induction rs rule: rev_induct)
  case (snoc r rs)
  then have IH: "foldl bump 0 rs = next_of rs" by (simp add: sorted_wrt_append)
  have "next_of rs \<le> rec_Seq r"
  proof (cases rs rule: rev_cases)
    case (snoc ys y)
    then have "rec_Seq y < rec_Seq r" using snoc.prems(1) by (simp add: sorted_wrt_append)
    then show ?thesis using snoc inc_le by (simp add: next_of_def)
  qed (simp add: next_of_def)
  then show ?case by (simp add: IH) (simp add: bump_def next_of_def)
qed (simp add: next_of_def)

definition watermark :: "(string \<times> u64) list \<Rightarrow> string \<Rightarrow> u64" where
  "watermark retention sid = (if sid = '''' then 0 else case map_of retention sid of None \<Rightarrow> 0 | Some t \<Rightarrow> t)"

lemma load_watermark_stream:
  "stream (load_watermark s (sid, t)) sid' =
    (if sid' = sid \<and> sid \<noteq> '''' \<and> t \<noteq> 0
     then (stream s sid)\<lparr>sm_trimBefore := t, sm_nextSeq := max (sm_nextSeq (stream s sid)) t\<rparr> else stream s sid')"
  "distinct (map fst (st_streams s)) \<Longrightarrow> distinct (map fst (st_streams (load_watermark s (sid, t))))"
  "st_files (load_watermark s (sid, t)) = st_files s" "st_options (load_watermark s (sid, t)) = st_options s"
  "st_idempotency (load_watermark s (sid, t)) = st_idempotency s"
  "st_activeSegmentID (load_watermark s (sid, t)) = st_activeSegmentID s"
  "st_retention (load_watermark s (sid, t)) = st_retention s"
  by (cases "streamStateLocked s sid"; use streamStateLocked_more [of s sid] in
      \<open>auto simp: load_watermark_def max_def split_def\<close>)+

lemma loadRetention_fold:
  assumes "distinct (map fst ret)"
  shows "stream (foldl load_watermark s ret) sid =
      (let w = watermark ret sid in if w = 0 then stream s sid
       else (stream s sid)\<lparr>sm_trimBefore := w, sm_nextSeq := max (sm_nextSeq (stream s sid)) w\<rparr>)"
    "distinct (map fst (st_streams s)) \<Longrightarrow> distinct (map fst (st_streams (foldl load_watermark s ret)))"
    "st_files (foldl load_watermark s ret) = st_files s" "st_options (foldl load_watermark s ret) = st_options s"
    "st_idempotency (foldl load_watermark s ret) = st_idempotency s"
    "st_activeSegmentID (foldl load_watermark s ret) = st_activeSegmentID s"
    "st_retention (foldl load_watermark s ret) = st_retention s"
proof -
  show "stream (foldl load_watermark s ret) sid =
      (let w = watermark ret sid in if w = 0 then stream s sid
       else (stream s sid)\<lparr>sm_trimBefore := w, sm_nextSeq := max (sm_nextSeq (stream s sid)) w\<rparr>)"
    using assms
  proof (induction ret arbitrary: s)
    case Nil then show ?case by (simp add: watermark_def)
  next
    case (Cons p ret)
    obtain k t where p: "p = (k, t)" by (cases p)
    have "map_of ret k = None" using Cons.prems p by (simp add: map_of_eq_None_iff)
    then have w: "watermark ret k = 0" "watermark (p # ret) sid = (if sid = k \<and> k \<noteq> '''' then t else watermark ret sid)"
      by (auto simp: watermark_def p)
    have IH: "stream (foldl load_watermark (load_watermark s p) ret) sid =
      (let w = watermark ret sid in if w = 0 then stream (load_watermark s p) sid
       else (stream (load_watermark s p) sid)\<lparr>sm_trimBefore := w,
         sm_nextSeq := max (sm_nextSeq (stream (load_watermark s p) sid)) w\<rparr>)"
      using Cons.prems by (intro Cons.IH) simp
    show ?case
      unfolding foldl_Cons IH w(2) using w(1) by (auto simp: Let_def p load_watermark_stream)
  qed
  show "distinct (map fst (st_streams s)) \<Longrightarrow> distinct (map fst (st_streams (foldl load_watermark s ret)))"
    by (induction ret arbitrary: s) (auto simp: load_watermark_stream)
  show "st_files (foldl load_watermark s ret) = st_files s" "st_options (foldl load_watermark s ret) = st_options s"
    "st_idempotency (foldl load_watermark s ret) = st_idempotency s"
    "st_activeSegmentID (foldl load_watermark s ret) = st_activeSegmentID s"
    "st_retention (foldl load_watermark s ret) = st_retention s"
    by (induction ret arbitrary: s) (auto simp: load_watermark_stream)
qed

lemma sortStreamEntries_stream:
  "stream (sortStreamEntries s) sid = (stream s sid)\<lparr>sm_entries := sort_key se_Seq (sm_entries (stream s sid))\<rparr>"
proof -
  have "map_of (map (\<lambda>(k, v). (k, f v)) xs) sid = map_option f (map_of xs sid)" for f :: "stream_state \<Rightarrow> stream_state" and xs
    by (induction xs) auto
  then show ?thesis by (simp add: stream_def sortStreamEntries_def zero_stream_def split: option.split)
qed

lemma sortStreamEntries_fields [simp]:
  "st_files (sortStreamEntries s) = st_files s" "st_options (sortStreamEntries s) = st_options s"
  "st_retention (sortStreamEntries s) = st_retention s" "st_idempotency (sortStreamEntries s) = st_idempotency s"
  "st_activeSegmentID (sortStreamEntries s) = st_activeSegmentID s" "st_open (sortStreamEntries s) = st_open s"
  "st_activeSegmentBytes (sortStreamEntries s) = st_activeSegmentBytes s"
  "map fst (st_streams (sortStreamEntries s)) = map fst (st_streams s)"
  by (simp_all add: sortStreamEntries_def split_def)

lemma OpenStore_recovers:
  assumes "crc32c_incremental hs" "log_ok hs (clean ds)" "list_all (\<lambda>(i, recs, t). torn hs t) ds" "options_ok op"
    "distinct (map fst ret)" "ev_open_ok ev"
  obtains s where "OpenStore hs ev op (disk hs ds) ret = Inr s" "repr hs (clean ds) s" "st_open s" "st_options s = op"
    "st_retention s = ret"
    "\<forall>sid. stream s sid = \<lparr>sm_nextSeq = max (next_of (stream_log (clean ds) sid)) (watermark ret sid),
       sm_trimBefore = watermark ret sid, sm_entries = entries_for hs (clean ds) sid\<rparr>"
proof -
  let ?c = "closed_store op (disk hs ds) ret" let ?segs = "clean ds"
  have ne: "?segs \<noteq> []" and srt: "sorted_wrt (<) (map fst ?segs)" using assms(2) by (simp_all add: log_ok_def)
  have ids: "discoverSegmentIDs ?c = map fst ?segs"
    using srt by (simp add: discoverSegmentIDs_def closed_store_def strict_sorted_iff sort_key_id_if_sorted)
  have pre: "list_all (\<lambda>(i, recs, t). list_all (stored hs) recs \<and> torn hs t) ds"
    using assms(2,3) by (fastforce simp: log_ok_def log_records_def clean_def list_all_iff)
  have "indexed (layout hs []) (resetRecoveredState ?c)"
    by (simp add: indexed_def layout_def resetRecoveredState_def closed_store_def stream_def zero_stream_def of_stream_def)
  with recover_fold [OF assms(1) pre, of "[]" "resetRecoveredState ?c"] srt
  obtain s1 where s1: "fold_result (\<lambda>s i. recoverSegment hs i s) (resetRecoveredState ?c) (map fst ?segs) = Inr s1"
      "indexed (layout hs ?segs) s1" "same_dir (resetRecoveredState ?c) s1" "st_files s1 = clean_files hs ?segs"
      "st_activeSegmentID s1 = fst (last ?segs)"
    using ne by (auto simp: clean_files_def resetRecoveredState_def closed_store_def sorted_wrt_less_distinct clean_def)
  let ?s2 = "sortStreamEntries s1" let ?s3 = "foldl load_watermark ?s2 ret"
  have ret: "st_retention s1 = ret" "st_options s1 = op"
    using s1(3) by (simp_all add: same_dir_def resetRecoveredState_def closed_store_def)
  have ent: "map snd (of_stream sid (layout hs ?segs)) = entries_for hs ?segs sid"
      "map fst (of_stream sid (layout hs ?segs)) = stream_log ?segs sid" for sid
    by (simp_all add: of_stream_def entries_for_def entries_for_fst)
  have "sorted_wrt (<) (map rec_Seq (stream_log ?segs sid))" "list_all (\<lambda>r. rec_Seq r + 1 \<noteq> 0) (stream_log ?segs sid)" for sid
    using assms(2) by (auto simp: log_ok_def list_all_iff stream_log_def)
  note sorted = this
  have str2: "stream ?s2 sid = \<lparr>sm_nextSeq = next_of (stream_log ?segs sid), sm_trimBefore = 0,
      sm_entries = entries_for hs ?segs sid\<rparr>" for sid
    using s1(2) sorted(1) [of sid] bump_next_of [OF sorted]
    by (simp add: sortStreamEntries_stream indexed_def ent sort_key_id_if_sorted entries_for_Seq strict_sorted_iff)
  note lr = loadRetention_fold [OF assms(5), of ?s2, simplified str2, simplified]
  have str3: "stream ?s3 sid = \<lparr>sm_nextSeq = max (next_of (stream_log ?segs sid)) (watermark ret sid),
      sm_trimBefore = watermark ret sid, sm_entries = entries_for hs ?segs sid\<rparr>" for sid
    using lr(1) [of sid] by (simp add: Let_def)
  have rec: "recoverByScan hs ?c = Inr ?s2" using s1(1) ne by (simp add: recoverByScan_def ids)
  have act: "st_activeSegmentID ?s3 = fst (last ?segs)" using lr s1(5) by simp
  have "0 < fst (last ?segs)" using assms(2) ne by (auto simp: log_ok_def list_all_iff)
  have files: "st_files ?s3 = clean_files hs ?segs" using lr s1(4) by simp
  have "map_of (clean_files hs ?segs) (fst (last ?segs)) = Some (seg_bytes hs (snd (last ?segs)))"
    unfolding clean_files_def by (rule snoc_files(2) [OF ne]) (rule sorted_wrt_less_distinct [OF srt])
  then obtain s where s: "openActiveFilesLocked ev ?s3 = (s, Inr ())" "stream s = stream ?s3" "st_open s"
      "st_files s = st_files ?s3" "st_activeSegmentID s = fst (last ?segs)" "st_options s = st_options ?s3"
      "st_activeSegmentBytes s = length (seg_bytes hs (snd (last ?segs)))" "st_idempotency s = st_idempotency ?s3"
      "st_streams s = st_streams ?s3" "st_retention s = st_retention ?s3"
    using assms(6) act files \<open>0 < fst (last ?segs)\<close>
    by (simp add: openActiveFilesLocked_def Let_def create_file_def file_of_def stream_def fun_eq_iff)
  have "OpenStore hs ev op (disk hs ds) ret = Inr s"
    using rec s(1) ret by (simp add: OpenStore_def loadRetention_def)
  moreover have "st_idempotency s = foldl remember Map.empty (log_records ?segs)"
    using lr s(8) s1(2) by (simp add: indexed_def layout_fst)
  moreover have "distinct (map fst (st_streams s))" using lr s(9) s1(2) by (simp add: indexed_def)
  ultimately show thesis
    using that assms(2,4) s str3 files lr ret by (simp add: repr_def clean_files_def)
qed

subsection \<open>Runs of a store\<close>

text \<open>
  The states a store can reach: opened in an empty directory, then appends whose writes and syncs
  succeed (in any number of segments, duplicates and rejected requests included), trims, and
  restarts after a crash that tore the write in progress.
\<close>

definition tear :: "(u64 \<times> bytes) list \<Rightarrow> bytes \<Rightarrow> (u64 \<times> bytes) list" where
  "tear fs t = butlast fs @ [(fst (last fs), snd (last fs) @ t)]"

inductive log_run :: "hashes \<Rightarrow> store \<Rightarrow> bool" for hs where
  fresh: "options_ok op \<Longrightarrow> OpenStore hs ev op [] [] = Inr s \<Longrightarrow> log_run hs s"
| append: "log_run hs s \<Longrightarrow> log_enabled (ev, req) s \<Longrightarrow> log_run hs (fst (Append hs ev req s))"
| trim: "log_run hs s \<Longrightarrow> ev_persist_ok ev \<Longrightarrow> log_run hs (fst (Trim ev sid before s))"
| restart: "log_run hs s \<Longrightarrow> torn hs t \<Longrightarrow>
    OpenStore hs ev (st_options s) (tear (st_files s) t) (st_retention s) = Inr s' \<Longrightarrow> log_run hs s'"

definition retained :: "store \<Rightarrow> bool" where
  "retained s \<longleftrightarrow> distinct (map fst (st_retention s)) \<and> (\<forall>sid. watermark (st_retention s) sid = sm_trimBefore (stream s sid))"

lemma ensure_retention: "ensureWritableSegmentLocked ev n s = (s', r) \<Longrightarrow> st_retention s' = st_retention s"
  by (auto simp: ensureWritableSegmentLocked_def rollSegmentLocked_def closeActiveFilesLocked_def openActiveFilesLocked_def
      Let_def split: if_splits)

lemma write_retention: "write_log ev bs s = (s', r) \<Longrightarrow> st_retention s' = st_retention s"
  by (auto simp: write_log_def Let_def split: option.splits)

lemma sync_retention: "syncForPolicyLocked ev s = (s', r) \<Longrightarrow> st_retention s' = st_retention s"
  by (auto simp: syncForPolicyLocked_def syncFilesLocked_def Let_def split: if_splits)

lemma state_retention: "streamStateLocked s sid = (s', st) \<Longrightarrow> st_retention s' = st_retention s"
  using streamStateLocked_more(3) [of s sid] by simp

lemma Append_retention: "Append hs ev req s = (s', r) \<Longrightarrow> st_retention s' = st_retention s"
  by (auto simp: Append_def Let_def dest!: ensure_retention write_retention sync_retention state_retention
      split: if_splits option.splits prod.splits sum.splits)

lemma Append_trimBefore:
  assumes "repr hs segs s" "log_enabled (ev, req) s"
  shows "sm_trimBefore (stream (fst (Append hs ev req s)) sid) = sm_trimBefore (stream s sid)"
proof -
  have en: "room s (rq_StreamID req)" "is_i64 (ev_nowMs ev)" "ev_written ev = None" "ev_sync_ok ev"
    using assms(2) by (simp_all add: log_enabled_def)
  from assms(1) en show ?thesis by (cases rule: Append_cases) simp_all
qed

text \<open>Persisting writes exactly the watermarks in memory.\<close>

lemma persisted_watermark:
  assumes "distinct (map fst (st_streams s))" "sm_trimBefore (stream s '''') = 0"
  defines "ret \<equiv> map (\<lambda>(sid, st). (sid, sm_trimBefore st)) (filter (\<lambda>(sid, st). sm_trimBefore st \<noteq> 0) (st_streams s))"
  shows "distinct (map fst ret)" "watermark ret sid = sm_trimBefore (stream s sid)"
proof -
  have *: "distinct (map fst (map (\<lambda>(sid, st). (sid, sm_trimBefore st)) (filter (\<lambda>(sid, st). sm_trimBefore st \<noteq> 0) xs))) \<and>
      map_of (map (\<lambda>(sid, st). (sid, sm_trimBefore st)) (filter (\<lambda>(sid, st). sm_trimBefore st \<noteq> 0) xs)) sid =
      (case map_of xs sid of None \<Rightarrow> None | Some st \<Rightarrow> if sm_trimBefore st = 0 then None else Some (sm_trimBefore st))"
    if "distinct (map fst xs)" for xs :: "(string \<times> stream_state) list"
    using that
  proof (induction xs)
    case (Cons x xs)
    have "map_of xs (fst x) = None" using Cons.prems by (simp add: map_of_eq_None_iff)
    with Cons show ?case by (cases x) (auto simp: image_iff split: option.split)
  qed simp
  show "distinct (map fst ret)" using * [OF assms(1)] by (simp add: ret_def)
  show "watermark ret sid = sm_trimBefore (stream s sid)"
    using * [OF assms(1)] assms(2) by (auto simp: watermark_def ret_def stream_def zero_stream_def split: option.split)
qed

lemma Trim_retained:
  assumes "repr hs segs s" "retained s" "ev_persist_ok ev"
  shows "retained (fst (Trim ev sid before s))"
proof -
  let ?s = "put_stream sid ((stream s sid)\<lparr>sm_trimBefore := raised s sid before\<rparr>) s"
  have nil: "sm_trimBefore (stream s '''') = 0"
    using assms(2) unfolding retained_def watermark_def by metis
  consider "sid = '''' \<or> before = 0" | "sid \<noteq> ''''" "before \<noteq> 0" "sm_nextSeq (stream s sid) = 0"
    | "sid \<noteq> ''''" "before \<noteq> 0" "sm_nextSeq (stream s sid) \<noteq> 0" "raised s sid before = sm_trimBefore (stream s sid)"
    | "sid \<noteq> ''''" "before \<noteq> 0" "sm_nextSeq (stream s sid) \<noteq> 0" "raised s sid before \<noteq> sm_trimBefore (stream s sid)"
    by blast
  then show ?thesis
  proof cases
    case 1 then show ?thesis using assms(2) by (auto simp: Trim_def)
  next
    case 2 then show ?thesis using assms(2) Trim_cases(1) by simp
  next
    case 3 then show ?thesis using assms(2) Trim_cases(2) [of sid before s ev] by simp
  next
    case 4
    let ?ret = "map (\<lambda>(sid, st). (sid, sm_trimBefore st)) (filter (\<lambda>(sid, st). sm_trimBefore st \<noteq> 0) (st_streams ?s))"
    have "fst (Trim ev sid before s) = ?s\<lparr>st_retention := ?ret\<rparr>"
      using Trim_cases(3) [of sid before s ev] 4 assms(3) by (simp add: persistRetentionLocked_def)
    moreover have "distinct (map fst (st_streams ?s))" using assms(1) by (simp add: repr_def)
    moreover have "sm_trimBefore (stream ?s '''') = 0" using nil 4(1) by simp
    moreover have "stream (?s\<lparr>st_retention := ?ret\<rparr>) = stream ?s" by (rule stream_cong) simp
    ultimately show ?thesis using persisted_watermark [of ?s] by (simp add: retained_def)
  qed
qed

lemma fresh_repr:
  assumes "options_ok op" "OpenStore hs ev op [] [] = Inr s"
  shows "repr hs [(1, [])] s" "retained s" "st_open s"
proof -
  have s: "s = (closed_store op [] [])\<lparr>st_activeSegmentID := 1, st_files := [(1, [])], st_open := True, st_lastSync := ev_clock ev\<rparr>"
    using assms(2)
    by (auto simp: OpenStore_def recoverByScan_def discoverSegmentIDs_def closed_store_def loadRetention_def
        openActiveFilesLocked_def Let_def create_file_def file_of_def split: if_splits)
  have st: "stream s sid = zero_stream" for sid by (simp add: s stream_def closed_store_def)
  show "repr hs [(1, [])] s"
    unfolding repr_def st
    by (simp add: s closed_store_def assms(1) log_ok_def log_records_def stream_log_def entries_for_def layout_def
        zero_stream_def next_of_def)
  show "retained s" unfolding retained_def st by (simp add: s closed_store_def watermark_def zero_stream_def)
  show "st_open s" by (simp add: s)
qed

text \<open>Reopening a store after a crash.\<close>

lemma restart_same:
  assumes "crc32c_incremental hs" "repr hs segs s" "retained s" "torn hs t" "ev_open_ok ev"
  obtains s' where "OpenStore hs ev (st_options s) (tear (st_files s) t) (st_retention s) = Inr s'" "st_open s'"
    "repr hs segs s'" "stream s' = stream s" "st_idempotency s' = st_idempotency s" "st_files s' = st_files s"
    "st_options s' = st_options s" "retained s'"
proof -
  have ok: "log_ok hs segs" and op: "options_ok (st_options s)" and files: "st_files s = clean_files hs segs"
    using assms(2) by (simp_all add: repr_def clean_files_def)
  obtain ys i recs where segs: "segs = ys @ [(i, recs)]" using ok by (cases segs rule: rev_cases) (auto simp: log_ok_def)
  define ds where "ds = map (\<lambda>(i, recs). (i, recs, [] :: bytes)) ys @ [(i, recs, t)]"
  have cl: "clean ds = segs" by (simp add: ds_def segs clean_def split_def comp_def)
  have dk: "disk hs ds = tear (st_files s) t" by (simp add: ds_def segs files tear_def disk_def clean_files_def split_def comp_def)
  have to: "list_all (\<lambda>(i, recs, t). torn hs t) ds" using assms(4) by (auto simp: ds_def list_all_iff torn_def)
  have "log_ok hs (clean ds)" using ok cl by simp
  from OpenStore_recovers [OF assms(1) this to op _ assms(5), of "st_retention s"] assms(3)
  obtain s' where s': "OpenStore hs ev (st_options s) (tear (st_files s) t) (st_retention s) = Inr s'"
      "repr hs segs s'" "st_open s'" "st_options s' = st_options s" "st_retention s' = st_retention s"
      "\<forall>sid. stream s' sid = \<lparr>sm_nextSeq = max (next_of (stream_log segs sid)) (watermark (st_retention s) sid),
         sm_trimBefore = watermark (st_retention s) sid, sm_entries = entries_for hs segs sid\<rparr>"
    unfolding cl dk retained_def by metis
  have st: "stream s' = stream s"
    using s'(6) assms(2,3) by (auto simp: fun_eq_iff retained_def repr_def intro!: stream_state.equality)
  have "st_idempotency s' = st_idempotency s" "st_files s' = st_files s"
    using s'(2) assms(2) by (simp_all add: repr_def)
  moreover have "retained s'" using assms(3) by (simp add: retained_def st s'(5))
  ultimately show thesis using that s' st by blast
qed

lemma log_run_inv:
  assumes "log_run hs s" "crc32c_incremental hs"
  shows "(\<exists>segs. repr hs segs s) \<and> retained s"
  using assms(1)
proof (induction rule: log_run.induct)
  case (fresh op ev s)
  then show ?case using fresh_repr by blast
next
  case (append s ev req)
  then obtain segs where segs: "repr hs segs s" by blast
  have "log_inv hs (fst (Append hs ev req s))"
    using store_log.append_inv [of hs s "(ev, req)"] segs assms(2) append(2) by (auto simp: log_inv_def)
  moreover have "retained (fst (Append hs ev req s))"
    using append Append_trimBefore [OF segs append(2)] Append_retention [of hs ev req s]
    by (cases "Append hs ev req s") (simp add: retained_def)
  ultimately show ?case by (simp add: log_inv_def)
next
  case (trim s ev sid before)
  then show ?case using Trim_repr(1) Trim_retained by blast
next
  case (restart s t ev s')
  have "ev_open_ok ev" using restart(3) by (auto simp: OpenStore_def openActiveFilesLocked_def Let_def split: sum.splits if_splits)
  with restart show ?case using restart_same [OF assms(2)] by (metis sum.inject(2))
qed

subsection \<open>Properties\<close>

text \<open>
  C1. A crash at any point of the life of a store whose writes and syncs have succeeded so far, even in
  the middle of a write, loses nothing that was acknowledged and invents nothing: reopening the
  directory by scanning the log succeeds and gives a store with the same index, the same next sequence
  numbers, the same watermarks and the same duplicate table, and the torn bytes are gone from the file.
\<close>

theorem crash_recovery:
  assumes "crc32c_incremental hs" and "log_run hs s" and "torn hs t" and "ev_open_ok ev"
  shows "\<exists>s'. OpenStore hs ev (st_options s) (tear (st_files s) t) (st_retention s) = Inr s' \<and> st_open s' \<and>
    stream s' = stream s \<and> st_idempotency s' = st_idempotency s \<and> st_files s' = st_files s"
proof -
  obtain segs where "repr hs segs s" "retained s" using log_run_inv [OF assms(2,1)] by blast
  then show ?thesis using restart_same [OF assms(1) _ _ assms(3,4)] by metis
qed

text \<open>
  C23. In every store reached by appends, trims and reopening, with writes and syncs that succeed, each stream's records carry strictly increasing, positive sequence
  numbers below its next one, reading from the start returns exactly the records at or above the
  trim watermark, and the watermark never exceeds the next sequence number.
\<close>

theorem log_run_streams:
  assumes "crc32c_incremental hs" and "log_run hs s" and "sid \<noteq> ''''"
  shows "\<exists>rs. ReadEach hs s sid 1 0 (\<lambda>out r. Inr (out @ [r])) [] = Inr rs \<and> sorted_wrt (<) (map rec_Seq rs) \<and>
    list_all (\<lambda>r. rec_StreamID r = sid \<and> 0 < rec_Seq r \<and> sm_trimBefore (stream s sid) \<le> rec_Seq r \<and>
      rec_Seq r < sm_nextSeq (stream s sid)) rs \<and>
    map rec_Seq rs = filter (\<lambda>q. sm_trimBefore (stream s sid) \<le> q) (map se_Seq (sm_entries (stream s sid))) \<and>
    sm_trimBefore (stream s sid) \<le> sm_nextSeq (stream s sid)"
proof -
  obtain segs where segs: "repr hs segs s" using log_run_inv [OF assms(2,1)] by blast
  then have ok: "log_ok hs segs" by (simp add: repr_def)
  let ?R = "stream_log segs sid" let ?t = "sm_trimBefore (stream s sid)"
  let ?rs = "filter (\<lambda>r. ?t \<le> rec_Seq r) ?R"
  have mem: "rec_StreamID r = sid \<and> 0 < rec_Seq r" if "r \<in> set ?R" for r
    using ok that by (auto simp: log_ok_def list_all_iff stream_log_def)
  have "max 1 ?t \<le> rec_Seq r \<longleftrightarrow> ?t \<le> rec_Seq r" if "r \<in> set ?R" for r
    using mem [OF that] one_le_word [of "rec_Seq r"] by (simp add: word_gt_0)
  then have "filter (\<lambda>r. max 1 ?t \<le> rec_Seq r) ?R = ?rs" by (rule filter_cong [OF refl])
  then have "ReadEach hs s sid 1 0 (\<lambda>out r. Inr (out @ [r])) [] = Inr ?rs"
    using ReadEach_window [OF segs assms(1,3), of 1 0 "\<lambda>out r. Inr (out @ [r])" "[]"]
    by (simp add: fold_result_collect window_def del: max.bounded_iff)
  moreover have srt: "sorted_wrt (<) (map rec_Seq ?R)" using ok by (simp add: log_ok_def)
  then have "sorted_wrt (<) (map rec_Seq ?rs)" by (simp add: sorted_wrt_map sorted_wrt_filter)
  moreover have "rec_Seq r < sm_nextSeq (stream s sid)" if "r \<in> set ?R" for r
    using last_seq_less_next [OF ok that] repr_stream(2) [OF segs, of sid] by (simp add: less_max_iff_disj)
  moreover have "map rec_Seq ?rs = filter (\<lambda>q. ?t \<le> q) (map rec_Seq ?R)" by (simp add: filter_map comp_def)
  moreover have "?t \<le> sm_nextSeq (stream s sid)" using repr_stream(2) [OF segs, of sid] by simp
  ultimately show ?thesis
    using mem by (intro exI [of _ ?rs]) (auto simp: list_all_iff repr_stream(1) [OF segs] entries_for_Seq)
qed

lemma demo_run: "log_run demo_hashes demo_store"
proof (rule log_run.fresh)
  show "options_ok demo_options"
    by (simp add: demo_options_def options_ok_def is_i64_def validateChecksumType_def checksum_types)
  show "OpenStore demo_hashes demo_env demo_options [] [] = Inr demo_store"
    by (simp add: OpenStore_def recoverByScan_def discoverSegmentIDs_def closed_store_def loadRetention_def
        openActiveFilesLocked_def Let_def create_file_def file_of_def demo_store_def demo_env_def)
qed

lemma demo_append_run: "log_run demo_hashes (fst (Append demo_hashes demo_env demo_request demo_store))"
  by (rule log_run.append [OF demo_run]) (simp add: log_enabled_def demo_pre)

theorem crash_recovery_witness:
  "\<exists>s rec s'. Append demo_hashes demo_env demo_request demo_store = (s, Inr (rec, False)) \<and>
     OpenStore demo_hashes demo_env (st_options s) (tear (st_files s) (take 7 (enc demo_hashes rec))) (st_retention s) = Inr s' \<and>
     stream s' = stream s \<and> st_files s' = st_files s \<and> 7 < length (enc demo_hashes rec)"
proof -
  obtain s rec segs where a: "Append demo_hashes demo_env demo_request demo_store = (s, Inr (rec, False))"
      "repr demo_hashes segs s" "log_records segs = [rec]" by (rule demo_appended)
  have st: "stored demo_hashes rec" using a(2,3) by (simp add: repr_def log_ok_def)
  from storedD(1) [OF st] obtain ty where
    "enc demo_hashes rec = base_header rec (rec_CRC32 rec) @ (PutUint16 ty @ [0, 0]) @ record_body rec"
    by (rule encodeRecord_Inr)
  then have len: "7 < length (enc demo_hashes rec)" by (simp add: legacyHeaderSize_def)
  then have "torn demo_hashes (take 7 (enc demo_hashes rec))" using st by (auto simp: torn_def)
  moreover have "log_run demo_hashes s" using demo_append_run a(1) by simp
  ultimately show ?thesis
    using crash_recovery [OF demo_hashes_incremental, of s _ demo_env] a(1) len by (auto simp: demo_env_def)
qed

theorem log_run_streams_witness:
  "\<exists>s rs. s = fst (Append demo_hashes demo_env demo_request demo_store) \<and>
     ReadEach demo_hashes s ''s'' 1 0 (\<lambda>out r. Inr (out @ [r])) [] = Inr rs \<and> map rec_Seq rs = [1]"
proof -
  obtain s rec segs where a: "Append demo_hashes demo_env demo_request demo_store = (s, Inr (rec, False))"
      "repr demo_hashes segs s" "log_records segs = [rec]" "rec_Seq rec = 1" "rec_StreamID rec = ''s''"
      "sm_trimBefore (stream s ''s'') = 0" by (rule demo_appended)
  have e: "map se_Seq (sm_entries (stream s ''s'')) = [1]"
    using a(3-5) by (simp add: repr_stream(1) [OF a(2)] entries_for_Seq stream_log_def)
  have "log_run demo_hashes s" using demo_append_run a(1) by simp
  from log_run_streams [OF demo_hashes_incremental this, of "''s''"] e a(1,6) show ?thesis by auto
qed

end
