(* ===== verification/Log_Faults.thy ===== *)
theory Log_Faults
  imports Log_Refinement
begin

text \<open>
  What the log store does when the operating system reports a failure in the middle of an append
  (internal/logstore/store.go, \<open>Append\<close>): the bytes are in the segment file, the counter that the
  next append takes its offset from is not advanced.
\<close>

subsection \<open>A failed sync\<close>

text \<open>A fresh store that syncs every append, and the two answers of the operating system.\<close>

definition fresh_store :: "options \<Rightarrow> store" where
  "fresh_store opts = \<lparr>st_options = opts, st_files = [(1, [])], st_retention = [], st_open = True,
     st_activeSegmentID = 1, st_activeSegmentBytes = 0, st_streams = [], st_idempotency = Map.empty, st_lastSync = 0\<rparr>"

lemma encode_exists:
  assumes "op_ChecksumType opts \<noteq> 0" "validateChecksumType (op_ChecksumType opts)"
    and "length (rec_StreamID r) \<le> 0xffff" "length (rec_EventType r) \<le> 0xffff" "length (rec_IdempotencyKey r) \<le> 0xffff"
  obtains bs crc where "encodeRecord hs r (op_ChecksumType opts) = Inr (bs, crc)"
    "length bs = headerSize + length (record_body r)"
proof -
  have sz: "encodedRecordSize r (op_ChecksumType opts) = Inr (headerSize + length (record_body r))"
    using assms by (simp add: encodedRecordSize_def length_record_body)
  have "\<exists>crc. checksum hs (record_body r) (op_ChecksumType opts) = Inr crc"
    using assms(2) by (auto simp: validateChecksumType_def checksum_def checksumOnce_def checksum_types)
  then obtain crc where "checksum hs (record_body r) (op_ChecksumType opts) = Inr crc" ..
  with sz assms(1) obtain bs where enc: "encodeRecord hs r (op_ChecksumType opts) = Inr (bs, crc)"
    by (simp add: encodeRecord_def)
  from enc obtain ty where "bs = base_header r crc @ (PutUint16 ty @ [0, 0]) @ record_body r" by (rule encodeRecord_Inr)
  then have "length bs = headerSize + length (record_body r)" by (simp add: headerSize_def legacyHeaderSize_def)
  with enc that show thesis by blast
qed

text \<open>
  C35. After an append whose sync failed, the store's idea of the segment's size is stale: the next
  append to the stream is acknowledged, but its index entry points at the bytes of the failed
  record. On a fresh store that syncs every append, when both records have the same length and no key,
  a read returns the record that was reported as not appended instead of the acknowledged one.\<close>
theorem failed_sync_misdirects_next_append:
  assumes "crc32c_incremental hs" and "options_ok opts" and "op_FsyncPolicy opts = ''always''"
    and "sid \<noteq> ''''" "typ1 \<noteq> ''''" "length sid \<le> 0xffff" "length typ1 \<le> 0xffff"
    and "length p = length q" "headerSize + length sid + length typ1 + length p < 2 ^ 32"
    and "ev_written ev = None" "\<not> ev_sync_ok ev" "is_i64 (ev_nowMs ev)" and "ev_written ev' = None" "ev_sync_ok ev'"
  shows "\<exists>s1 s2 rec old.
    Append hs ev \<lparr>rq_StreamID = sid, rq_EventType = typ1, rq_IdempotencyKey = '''', rq_Payload = p\<rparr> (fresh_store opts) = (s1, Inl SyncFailed)
    \<and> Append hs ev' \<lparr>rq_StreamID = sid, rq_EventType = typ1, rq_IdempotencyKey = '''', rq_Payload = q\<rparr> s1 = (s2, Inr (rec, False))
    \<and> rec_Payload rec = q \<and> Read hs s2 sid 1 10 = Inr [old] \<and> rec_Payload old = p"
proof -
  let ?A = "\<lparr>rq_StreamID = sid, rq_EventType = typ1, rq_IdempotencyKey = '''', rq_Payload = p\<rparr>"
  let ?B = "\<lparr>rq_StreamID = sid, rq_EventType = typ1, rq_IdempotencyKey = '''', rq_Payload = q\<rparr>"
  let ?a = "new_record ev ?A 1" and ?b = "new_record ev' ?B 1"
  have op: "op_ChecksumType opts \<noteq> 0" "validateChecksumType (op_ChecksumType opts)" using assms(2) by (simp_all add: options_ok_def)
  obtain as ca where a: "encodeRecord hs ?a (op_ChecksumType opts) = Inr (as, ca)" "length as = headerSize + length (record_body ?a)"
    by (rule encode_exists [OF op, of ?a]) (use assms(6,7) in simp_all)
  obtain bs cb where b: "encodeRecord hs ?b (op_ChecksumType opts) = Inr (bs, cb)" "length bs = headerSize + length (record_body ?b)"
    by (rule encode_exists [OF op, of ?b]) (use assms(6,7) in simp_all)
  have len: "length as = length bs" "length as < 2 ^ 32" using a(2) b(2) assms(8,9) by (simp_all add: length_record_body add.assoc)
  define s1 where "s1 = (fresh_store opts)\<lparr>st_streams := [(sid, zero_stream)], st_files := [(1, as)]\<rparr>"
  have A: "Append hs ev ?A (fresh_store opts) = (s1, Inl SyncFailed)"
    using a len assms
    by (simp add: Append_def fresh_store_def streamStateLocked_def put_stream_def zero_stream_def ensureWritableSegmentLocked_def
        write_log_def file_of_def syncForPolicyLocked_def syncFilesLocked_def Let_def s1_def not_le)
  define e where "e = \<lparr>se_Seq = 1, se_SegmentID = 1, se_Offset = 0, se_Length = word_of_nat (length bs)\<rparr>"
  define s2 where "s2 = (fresh_store opts)\<lparr>st_streams := [(sid, \<lparr>sm_nextSeq = 2, sm_trimBefore = 0, sm_entries = [e]\<rparr>)],
    st_files := [(1, as @ bs)], st_lastSync := ev_clock ev', st_activeSegmentBytes := length bs\<rparr>"
  define rec where "rec = ?b\<lparr>rec_CRC32 := cb, rec_ChecksumType := op_ChecksumType opts\<rparr>"
  have B: "Append hs ev' ?B s1 = (s2, Inr (rec, False))"
    using b len assms
    by (simp add: Append_def s1_def fresh_store_def streamStateLocked_def put_stream_def zero_stream_def ensureWritableSegmentLocked_def
        write_log_def file_of_def syncForPolicyLocked_def syncFilesLocked_def Let_def s2_def e_def rec_def not_le)
  define old where "old = ?a\<lparr>rec_CRC32 := ca, rec_ChecksumType := op_ChecksumType opts\<rparr>"
  have enc: "encodeRecord hs old (rec_ChecksumType old) = Inr (as, ca)"
    using a(1) by (simp add: old_def encodeRecord_cong)
  have st: "stored hs old" "enc hs old = as"
    using enc op(1) len assms(12) by (simp_all add: stored_def enc_def old_def)
  have "readIndexedRecordFromReader hs \<lparr>io_file = as @ bs, io_mmap = None\<rparr> (rec_StreamID old) e = Inr old"
    by (rule read_indexed [of old e hs 1 "[]" "[old]" _ bs])
       (use st assms(1) len in \<open>simp_all add: contents_def seg_bytes_def e_def entry_of_def, simp add: old_def\<close>)
  then have "read_entry hs s2 sid e = Inr old"
    by (simp add: read_entry_def openSegmentReader_def s2_def fresh_store_def e_def old_def)
  moreover have "first_from [e] 1 = 0"
    by (simp add: first_from_def sort_Search_def search_loop.simps e_def)
  then have "selectEntries s2 sid 1 10 = [e]" by (simp add: selectEntries_def s2_def)
  ultimately have "Read hs s2 sid 1 10 = Inr [old]" using assms(4) by (simp add: Read_def ReadEach_def)
  then show ?thesis using A B by (intro exI [of _ s1] exI [of _ s2] exI [of _ rec] exI [of _ old]) (simp add: rec_def old_def)
qed

definition failing_env :: env where
  "failing_env = demo_env\<lparr>ev_sync_ok := False\<rparr>"

theorem failed_sync_misdirects_next_append_witness:
  "\<exists>s1 s2 rec old.
    Append demo_hashes failing_env \<lparr>rq_StreamID = ''s'', rq_EventType = ''e'', rq_IdempotencyKey = '''', rq_Payload = [1]\<rparr>
      (fresh_store demo_options) = (s1, Inl SyncFailed)
    \<and> Append demo_hashes demo_env \<lparr>rq_StreamID = ''s'', rq_EventType = ''e'', rq_IdempotencyKey = '''', rq_Payload = [2]\<rparr> s1
      = (s2, Inr (rec, False))
    \<and> rec_Payload rec = [2] \<and> Read demo_hashes s2 ''s'' 1 10 = Inr [old] \<and> rec_Payload old = [1]"
  by (rule failed_sync_misdirects_next_append [OF demo_hashes_incremental])
     (simp_all add: demo_options_def options_ok_def validateChecksumType_def checksum_types headerSize_def legacyHeaderSize_def
        failing_env_def demo_env_def is_i64_def)

end
