(* ===== verification/Task_Deque.thy ===== *)
theory Task_Deque
  imports LS_Prelude
begin

text \<open>
  The task queue of the indexed scheduler (\<open>taskDeque\<close> in internal/control/scheduler.go): a slice
  with a moving head. A front pop only advances the head; once more than 64 slots and at least half
  of the slice are dead, the live part is copied to a fresh slice.

  The locale \<open>task_queue\<close> states what the scheduler relies on (the queue is a list that grows
  and shrinks at the front and grows at the back); the interpretation \<open>td\<close> discharges it for
  the slice.
\<close>

subsection \<open>The deque\<close>

record task_deque =
  td_items :: "string list"
  td_head :: nat

definition empty_deque :: task_deque where
  "empty_deque = \<lparr>td_items = [], td_head = 0\<rparr>"

definition deque_Len :: "task_deque \<Rightarrow> nat" where
  "deque_Len q = length (td_items q) - td_head q"

definition PushBack :: "string \<Rightarrow> task_deque \<Rightarrow> task_deque" where
  "PushBack taskID q = q\<lparr>td_items := td_items q @ [taskID]\<rparr>"

definition PushFront :: "string \<Rightarrow> task_deque \<Rightarrow> task_deque" where
  "PushFront taskID q =
     (if td_head q > 0
      then let head = td_head q - 1
           in q\<lparr>td_head := head, td_items := (td_items q)[head := taskID]\<rparr>
      else q\<lparr>td_items := taskID # td_items q\<rparr>)"

definition Front :: "task_deque \<Rightarrow> string option" where
  "Front q = (if deque_Len q = 0 then None else Some (td_items q ! td_head q))"

definition PopFront :: "task_deque \<Rightarrow> task_deque \<times> string option" where
  "PopFront q =
     (if deque_Len q = 0 then (q, None)
      else let taskID = td_items q ! td_head q;
               items = (td_items q)[td_head q := ''''];
               head = td_head q + 1
           in (if head > 64 \<and> head * 2 \<ge> length items
               then \<lparr>td_items = drop head items, td_head = 0\<rparr>
               else \<lparr>td_items = items, td_head = head\<rparr>,
               Some taskID))"

text \<open>
  The queue the slice stands for, and the invariant of the slice: the head stays inside, every
  consumed slot is cleared, and few slots are dead.
\<close>

definition deque_list :: "task_deque \<Rightarrow> string list" where
  "deque_list q = drop (td_head q) (td_items q)"

definition deque_inv :: "task_deque \<Rightarrow> bool" where
  "deque_inv q \<longleftrightarrow> td_head q \<le> length (td_items q)
     \<and> (\<forall>i<td_head q. td_items q ! i = '''')
     \<and> (td_head q \<le> 64 \<or> td_head q * 2 < length (td_items q))"

subsection \<open>The interface the scheduler uses\<close>

locale task_queue =
  fixes empty :: 'q and push_back push_front :: "'a \<Rightarrow> 'q \<Rightarrow> 'q" and front :: "'q \<Rightarrow> 'a option"
    and pop_front :: "'q \<Rightarrow> 'q \<times> 'a option" and len :: "'q \<Rightarrow> nat"
    and contents :: "'q \<Rightarrow> 'a list" and inv :: "'q \<Rightarrow> bool"
  assumes inv_empty: "inv empty" and contents_empty: "contents empty = []"
    and inv_push_back: "inv q \<Longrightarrow> inv (push_back x q)"
    and contents_push_back: "inv q \<Longrightarrow> contents (push_back x q) = contents q @ [x]"
    and inv_push_front: "inv q \<Longrightarrow> inv (push_front x q)"
    and contents_push_front: "inv q \<Longrightarrow> contents (push_front x q) = x # contents q"
    and front_contents: "inv q \<Longrightarrow> front q = (case contents q of [] \<Rightarrow> None | x # _ \<Rightarrow> Some x)"
    and inv_pop_front: "inv q \<Longrightarrow> inv (fst (pop_front q))"
    and contents_pop_front: "inv q \<Longrightarrow> contents (fst (pop_front q)) = tl (contents q)"
    and result_pop_front: "inv q \<Longrightarrow> snd (pop_front q) = front q"
    and len_contents: "inv q \<Longrightarrow> len q = length (contents q)"
begin

lemma front_None_iff: "inv q \<Longrightarrow> front q = None \<longleftrightarrow> contents q = []"
  by (simp add: front_contents split: list.splits)

lemma front_Some_iff: "inv q \<Longrightarrow> front q = Some x \<longleftrightarrow> contents q = x # contents (fst (pop_front q))"
  by (auto simp: front_contents contents_pop_front split: list.splits)

lemma len_0_iff: "inv q \<Longrightarrow> len q = 0 \<longleftrightarrow> contents q = []"
  by (simp add: len_contents)

lemma pop_front_push_front:
  "inv q \<Longrightarrow> contents (fst (pop_front (push_front x q))) = contents q \<and> snd (pop_front (push_front x q)) = Some x"
  by (simp add: contents_pop_front result_pop_front inv_push_front contents_push_front front_contents)

text \<open>Popping \<open>n\<close> times takes the first \<open>n\<close> elements, in order.\<close>

lemma pop_front_many:
  assumes "inv q" "n \<le> length (contents q)"
  shows "inv (((\<lambda>q. fst (pop_front q)) ^^ n) q) \<and> contents (((\<lambda>q. fst (pop_front q)) ^^ n) q) = drop n (contents q)"
  using assms by (induction n) (simp_all add: inv_pop_front contents_pop_front drop_Suc tl_drop)

end

subsection \<open>The slice implements the queue\<close>

lemma deque_list_Len: "deque_Len q = length (deque_list q)"
  by (simp add: deque_Len_def deque_list_def)

lemma deque_Front: "Front q = (case deque_list q of [] \<Rightarrow> None | x # _ \<Rightarrow> Some x)"
proof (cases "td_head q < length (td_items q)")
  case True
  then have "deque_list q = td_items q ! td_head q # drop (Suc (td_head q)) (td_items q)"
    by (simp add: deque_list_def Cons_nth_drop_Suc)
  with True show ?thesis by (simp add: Front_def deque_Len_def)
qed (simp add: Front_def deque_Len_def deque_list_def)

lemma PushFront_list:
  assumes "deque_inv q"
  shows "deque_list (PushFront x q) = x # deque_list q"
proof (cases "td_head q")
  case (Suc h)
  then have h: "h < length (td_items q)" using assms by (simp add: deque_inv_def)
  then have "drop h ((td_items q)[h := x]) = x # drop (Suc h) (td_items q)"
    by (simp add: drop_update_swap Cons_nth_drop_Suc [symmetric])
  with Suc show ?thesis by (simp add: PushFront_def deque_list_def)
qed (simp add: PushFront_def deque_list_def)

lemma PushFront_inv: "deque_inv q \<Longrightarrow> deque_inv (PushFront x q)"
  by (auto simp: deque_inv_def PushFront_def Let_def nth_list_update)

lemma PopFront_list: "deque_list (fst (PopFront q)) = tl (deque_list q)"
proof -
  have "tl (drop h xs) = drop (Suc h) xs" for h and xs :: "string list" by (simp add: tl_drop drop_Suc)
  then show ?thesis by (simp add: PopFront_def deque_list_def deque_Len_def Let_def)
qed

lemma PopFront_inv: "deque_inv q \<Longrightarrow> deque_inv (fst (PopFront q))"
  by (auto simp: deque_inv_def PopFront_def deque_Len_def Let_def nth_list_update less_Suc_eq not_le)

lemma PopFront_result: "snd (PopFront q) = Front q"
  by (simp add: PopFront_def Front_def Let_def)

interpretation td: task_queue empty_deque PushBack PushFront Front PopFront deque_Len deque_list deque_inv
proof (unfold_locales, goal_cases)
  case (3 q x)
  then show ?case by (auto simp: deque_inv_def PushBack_def nth_append)
next
  case (4 q x)
  then show ?case by (simp add: deque_list_def PushBack_def deque_inv_def)
next
  case 1
  show ?case by (simp add: empty_deque_def deque_inv_def)
next
  case 2
  show ?case by (simp add: empty_deque_def deque_list_def)
qed (simp_all add: deque_list_Len deque_Front PushFront_list PushFront_inv PopFront_list PopFront_inv
  PopFront_result)

lemmas deque_simps [simp] = td.inv_empty td.contents_empty td.inv_push_back td.contents_push_back
  td.inv_push_front td.contents_push_front td.inv_pop_front td.contents_pop_front

subsection \<open>Any sequence of operations\<close>

datatype deque_op = OpPushBack string | OpPushFront string | OpFront | OpPopFront

fun deque_step :: "task_deque \<Rightarrow> deque_op \<Rightarrow> task_deque \<times> string option" where
  "deque_step q (OpPushBack t) = (PushBack t q, None)"
| "deque_step q (OpPushFront t) = (PushFront t q, None)"
| "deque_step q OpFront = (q, Front q)"
| "deque_step q OpPopFront = PopFront q"

fun list_step :: "string list \<Rightarrow> deque_op \<Rightarrow> string list \<times> string option" where
  "list_step xs (OpPushBack t) = (xs @ [t], None)"
| "list_step xs (OpPushFront t) = (t # xs, None)"
| "list_step xs OpFront = (xs, case xs of [] \<Rightarrow> None | x # _ \<Rightarrow> Some x)"
| "list_step xs OpPopFront = (tl xs, case xs of [] \<Rightarrow> None | x # _ \<Rightarrow> Some x)"

fun run_ops :: "('s \<Rightarrow> 'o \<Rightarrow> 's \<times> 'r) \<Rightarrow> 's \<Rightarrow> 'o list \<Rightarrow> 's \<times> 'r list" where
  "run_ops f s [] = (s, [])"
| "run_ops f s (x # xs) = (let (s1, r) = f s x; (s2, rs) = run_ops f s1 xs in (s2, r # rs))"

lemma deque_step_simulates:
  assumes "deque_inv q"
  shows "deque_inv (fst (deque_step q x)) \<and> deque_list (fst (deque_step q x)) = fst (list_step (deque_list q) x)
    \<and> snd (deque_step q x) = snd (list_step (deque_list q) x)"
  using assms by (cases x) (simp_all add: PopFront_result td.front_contents)

lemma run_ops_simulates:
  assumes "deque_inv q" "run_ops deque_step q ops = (q', rs)" "run_ops list_step (deque_list q) ops = (xs, rs')"
  shows "deque_inv q' \<and> deque_list q' = xs \<and> rs = rs'"
  using assms
proof (induction ops arbitrary: q q' xs rs rs')
  case (Cons x ops)
  obtain q1 r where q1: "deque_step q x = (q1, r)" by fastforce
  obtain q2 rs2 where q2: "run_ops deque_step q1 ops = (q2, rs2)" by fastforce
  obtain ys rs3 where ys: "run_ops list_step (deque_list q1) ops = (ys, rs3)" by fastforce
  have *: "deque_inv q1" "list_step (deque_list q) x = (deque_list q1, r)"
    using deque_step_simulates [OF Cons.prems(1), of x] by (simp_all add: q1 prod_eq_iff)
  have "deque_inv q2 \<and> deque_list q2 = ys \<and> rs2 = rs3" by (rule Cons.IH [OF *(1) q2 ys])
  then show ?case using Cons.prems(2,3) by (auto simp: q1 q2 ys *)
qed auto

lemma deque_inv_space:
  assumes "deque_inv q"
  shows "length (td_items q) \<le> 2 * deque_Len q + 64"
  using assms by (auto simp: deque_inv_def deque_Len_def)

text \<open>
  The slice with a moving head implements a double-ended queue: every sequence of operations
  started on the empty deque returns what the same sequence returns on a plain list, leaves that
  list as its live part, and never keeps more than 64 slots plus twice the live length.\<close>
theorem deque_refines_list:
  "case (run_ops deque_step empty_deque ops, run_ops list_step [] ops) of
     ((q, rs), (xs, rs')) \<Rightarrow> rs = rs' \<and> deque_list q = xs \<and> length (td_items q) \<le> 2 * length xs + 64"
proof -
  obtain q rs where q: "run_ops deque_step empty_deque ops = (q, rs)" by fastforce
  obtain xs rs' where xs: "run_ops list_step [] ops = (xs, rs')" by fastforce
  have "deque_inv q \<and> deque_list q = xs \<and> rs = rs'"
    by (rule run_ops_simulates [OF td.inv_empty q]) (simp add: td.contents_empty xs)
  then show ?thesis using deque_inv_space [of q] by (simp add: q xs deque_list_Len)
qed

end
