(* ===== verification/Lease_Heap.thy ===== *)
theory Lease_Heap
  imports LS_Prelude "HOL-Library.Product_Lexorder"
begin

text \<open>
  Running leases of the indexed scheduler (internal/control/scheduler.go): the deadline heap
  \<open>taskDeadlineHeap\<close> with the operations of Go's container/heap on it, and the redelivery scan
  \<open>PopExpiredRunning\<close>, which pops due heap entries and drops those that no longer match the table
  of running leases.

  The heap operations are written as container/heap has them (sift-up and sift-down on a slice)
  and shown to keep the heap order and the multiset of entries; the locale \<open>priority_queue\<close> is the
  contract the scan needs, interpreted on them as \<open>dh\<close>.
\<close>

subsection \<open>Leases and their order\<close>

datatype running_lease = RunningLease (rl_taskID: string) (rl_deadlineMs: i64) (rl_leaseEpoch: u64)

text \<open>\<open>taskDeadlineHeap.Less\<close>, on the two entries.\<close>

definition lease_Less :: "running_lease \<Rightarrow> running_lease \<Rightarrow> bool" where
  "lease_Less a b =
     (if rl_deadlineMs a = rl_deadlineMs b
      then if rl_taskID a = rl_taskID b then rl_leaseEpoch a < rl_leaseEpoch b
           else rl_taskID a < rl_taskID b
      else rl_deadlineMs a < rl_deadlineMs b)"

definition lease_key :: "running_lease \<Rightarrow> i64 \<times> string \<times> u64" where
  "lease_key l = (rl_deadlineMs l, rl_taskID l, rl_leaseEpoch l)"

lemma lease_key_inj: "lease_key a = lease_key b \<longleftrightarrow> a = b"
  by (cases a; cases b) (auto simp: lease_key_def)

lemma lease_Less_key: "lease_Less a b \<longleftrightarrow> lease_key a < lease_key b"
  by (auto simp: lease_Less_def lease_key_def)

instantiation running_lease :: linorder
begin
definition less_running_lease :: "running_lease \<Rightarrow> running_lease \<Rightarrow> bool" where
  "less_running_lease = lease_Less"
definition less_eq_running_lease :: "running_lease \<Rightarrow> running_lease \<Rightarrow> bool" where
  "less_eq_running_lease a b \<longleftrightarrow> lease_Less a b \<or> a = b"
instance
proof
  fix a b :: running_lease
  show "a \<le> b \<or> b \<le> a"
    using lease_key_inj [of a b] by (auto simp: less_eq_running_lease_def lease_Less_key)
qed (auto simp: less_running_lease_def less_eq_running_lease_def lease_Less_key)
end

lemma lease_le_deadline: "a \<le> b \<Longrightarrow> rl_deadlineMs a \<le> rl_deadlineMs b"
  by (auto simp: less_eq_running_lease_def lease_Less_def split: if_splits)

subsection \<open>container/heap\<close>

definition swap :: "nat \<Rightarrow> nat \<Rightarrow> 'a list \<Rightarrow> 'a list" where
  "swap i j h = h[i := h ! j, j := h ! i]"

text \<open>In Go the parent of position 0 is \<open>(0 - 1) / 2 = 0\<close>; so it is here.\<close>

abbreviation (input) parent :: "nat \<Rightarrow> nat" where
  "parent j \<equiv> (j - 1) div 2"

function heap_up :: "'a::linorder list \<Rightarrow> nat \<Rightarrow> 'a list" where
  "heap_up h j =
     (let i = (j - 1) div 2
      in if i = j \<or> \<not> h ! j < h ! i then h else heap_up (swap i j h) i)"
  by pat_completeness auto
termination by (relation "measure snd") auto

definition smaller_child :: "'a::linorder list \<Rightarrow> nat \<Rightarrow> nat \<Rightarrow> nat" where
  "smaller_child h j1 n = (let j2 = j1 + 1 in if j2 < n \<and> h ! j2 < h ! j1 then j2 else j1)"

function heap_down :: "'a::linorder list \<Rightarrow> nat \<Rightarrow> nat \<Rightarrow> 'a list" where
  "heap_down h i n =
     (let j1 = 2 * i + 1
      in if j1 \<ge> n then h
         else let j = smaller_child h j1 n
              in if \<not> h ! j < h ! i then h else heap_down (swap i j h) j n)"
  by pat_completeness auto
termination by (relation "measure (\<lambda>(h, i, n). n - i)") (auto simp: Let_def smaller_child_def split: if_splits)

definition heap_Push :: "'a::linorder \<Rightarrow> 'a list \<Rightarrow> 'a list" where
  "heap_Push x h = (let h1 = h @ [x] in heap_up h1 (length h1 - 1))"

definition heap_Pop :: "'a::linorder list \<Rightarrow> 'a list \<times> 'a" where
  "heap_Pop h =
     (let n = length h - 1;
          h1 = heap_down (swap 0 n h) 0 n
      in (take n h1, h1 ! n))"

definition is_heap :: "'a::linorder list \<Rightarrow> bool" where
  "is_heap h \<longleftrightarrow> (\<forall>k<length h. h ! parent k \<le> h ! k)"

declare heap_up.simps [simp del] heap_down.simps [simp del]

subsection \<open>Heap order\<close>

lemma length_swap [simp]: "length (swap i j h) = length h"
  by (simp add: swap_def)

lemma swap_nth: "i < length h \<Longrightarrow> j < length h \<Longrightarrow> k < length h \<Longrightarrow>
    swap i j h ! k = (if k = j then h ! i else if k = i then h ! j else h ! k)"
  by (simp add: swap_def nth_list_update)

lemma mset_swap_nth [simp]: "i < length h \<Longrightarrow> j < length h \<Longrightarrow> mset (swap i j h) = mset h"
  by (simp add: swap_def mset_swap)

lemma parent_less: "0 < k \<Longrightarrow> parent k < k"
  by simp

lemma parent_iff: "0 < k \<Longrightarrow> parent k = i \<longleftrightarrow> k = 2 * i + 1 \<or> k = 2 * i + 2"
  by arith

lemma heap_up_length [simp]: "length (heap_up h j) = length h"
  by (induction h j rule: heap_up.induct) (subst heap_up.simps, simp add: Let_def)

lemma heap_down_length [simp]: "length (heap_down h i n) = length h"
  by (induction h i n rule: heap_down.induct) (subst heap_down.simps, simp add: Let_def)

lemma heap_up_mset: "j < length h \<Longrightarrow> mset (heap_up h j) = mset h"
proof (induction h j rule: heap_up.induct)
  case (1 h j)
  show ?case
  proof (cases "parent j = j \<or> \<not> h ! j < h ! parent j")
    case False
    then have "mset (heap_up (swap (parent j) j h) (parent j)) = mset (swap (parent j) j h)"
      using 1 by simp
    with 1(2) False show ?thesis by (subst heap_up.simps) (simp add: Let_def)
  qed (subst heap_up.simps, simp add: Let_def)
qed

text \<open>
  Sift-up runs on a slice in heap order but for the entry at \<open>j\<close>, whose children already respect
  its parent.
\<close>

lemma heap_up_heap:
  assumes "j < length h"
    and "\<And>k. k < length h \<Longrightarrow> k \<noteq> j \<Longrightarrow> h ! parent k \<le> h ! k"
    and "\<And>k. 0 < j \<Longrightarrow> k < length h \<Longrightarrow> 0 < k \<Longrightarrow> parent k = j \<Longrightarrow> h ! parent j \<le> h ! k"
  shows "is_heap (heap_up h j)"
  using assms
proof (induction h j rule: heap_up.induct)
  case (1 h j)
  show ?case
  proof (cases "parent j = j \<or> \<not> h ! j < h ! parent j")
    case True
    have "h ! parent k \<le> h ! k" if "k < length h" for k
      using True 1(3) [OF that] by (cases "k = j"; cases "j = 0") (auto simp: not_less)
    with True show ?thesis by (subst heap_up.simps) (simp add: is_heap_def Let_def)
  next
    case False
    let ?i = "parent j" and ?g = "swap (parent j) j h"
    have ij: "?i < j" "0 < j" using False by auto
    then have il: "?i < length h" using 1(2) by simp
    note nth = swap_nth [OF il 1(2)]
    have "is_heap (heap_up ?g ?i)"
    proof (rule "1.IH" [OF refl False], goal_cases)
      case 1
      then show ?case using il by simp
    next
      case (2 k)
      then have k: "k < length h" by simp
      show ?case
      proof (cases "k = j")
        case True
        have "?g ! parent k = h ! j" "?g ! k = h ! ?i" using True ij nth [OF il] nth [OF k] by auto
        then show ?thesis using False by (simp add: less_imp_le)
      next
        case kj: False
        have pk: "parent k < length h" using k by simp
        have gk: "?g ! k = h ! k" using nth [OF k] kj 2(2) by simp
        consider "k = 0" | "0 < k" "parent k = j" | "parent k = ?i" | "parent k \<noteq> j" "parent k \<noteq> ?i"
          by auto
        then show ?thesis
        proof cases
          case 2
          then show ?thesis using "1"(4) [OF ij(2) k] nth [OF pk] gk by simp
        next
          case 3
          then have "?g ! parent k = h ! j" using nth [OF il] ij by simp
          moreover have "h ! ?i \<le> h ! k" using "1"(3) [OF k kj] 3 by simp
          ultimately show ?thesis using gk False by (auto intro: order.trans less_imp_le)
        next
          case 4
          then show ?thesis using "1"(3) [OF k kj] nth [OF pk] gk by simp
        qed simp
      qed
    next
      case (3 k)
      then have k: "k < length h" by simp
      have pi: "h ! parent ?i \<le> h ! ?i" using "1"(3) [OF il] ij by simp
      have ppi: "parent ?i < length h" using il by simp
      have np: "parent ?i \<noteq> j" using ij by simp
      have "parent ?i \<noteq> ?i" using 3(1) by simp
      then have "?g ! parent ?i = h ! parent ?i" using np nth [OF ppi] by simp
      moreover have "h ! parent ?i \<le> ?g ! k"
      proof (cases "k = j")
        case True
        then show ?thesis using nth [OF k] pi by simp
      next
        case kj: False
        then have "?g ! k = h ! k" using nth [OF k] parent_less [OF 3(3)] 3(4) by auto
        moreover have "h ! ?i \<le> h ! k" using "1"(3) [OF k kj] 3(4) by simp
        ultimately show ?thesis using pi by simp
      qed
      ultimately show ?case by simp
    qed
    with False show ?thesis by (subst heap_up.simps) (simp add: Let_def)
  qed
qed

lemma heap_Push_heap:
  assumes "is_heap h"
  shows "is_heap (heap_Push x h)"
proof -
  have "is_heap (heap_up (h @ [x]) (length h))"
  proof (rule heap_up_heap, goal_cases)
    case (2 k)
    then have k: "k < length h" by simp
    then have "parent k < length h" by simp
    with k assms show ?case by (simp add: nth_append is_heap_def)
  next
    case (3 k)
    then have "parent k < k" "k \<le> length h" by auto
    with 3 show ?case by simp
  qed simp
  then show ?thesis by (simp add: heap_Push_def)
qed

lemma heap_Push_mset: "mset (heap_Push x h) = add_mset x (mset h)"
  by (simp add: heap_Push_def heap_up_mset)

text \<open>
  Sift-down runs on the first \<open>n\<close> entries, in heap order but for the children of \<open>i\<close>, which
  already respect the parent of \<open>i\<close>.
\<close>

definition heap_upto :: "nat \<Rightarrow> 'a::linorder list \<Rightarrow> bool" where
  "heap_upto n h \<longleftrightarrow> (\<forall>k<n. h ! parent k \<le> h ! k)"

lemma smaller_child_spec:
  assumes "j1 < n"
  shows "(smaller_child h j1 n = j1 \<or> smaller_child h j1 n = j1 + 1) \<and> smaller_child h j1 n < n
    \<and> h ! smaller_child h j1 n \<le> h ! j1 \<and> (j1 + 1 < n \<longrightarrow> h ! smaller_child h j1 n \<le> h ! (j1 + 1))"
  using assms by (auto simp: smaller_child_def Let_def not_less)

lemma heap_down_spec:
  assumes "n \<le> length h" "i < n"
  shows "mset (heap_down h i n) = mset h \<and> drop n (heap_down h i n) = drop n h"
  using assms
proof (induction h i n rule: heap_down.induct)
  case (1 h i n)
  show ?case
  proof (cases "2 * i + 1 \<ge> n")
    case False
    define j where "j = smaller_child h (2 * i + 1) n"
    have jn: "j < n" using False smaller_child_spec [of "2 * i + 1" n h] by (simp add: j_def)
    show ?thesis
    proof (cases "h ! j < h ! i")
      case True
      have d: "heap_down h i n = heap_down (swap i j h) j n"
        using False True by (subst heap_down.simps) (simp add: Let_def j_def)
      have "mset (heap_down (swap i j h) j n) = mset (swap i j h) \<and> drop n (heap_down (swap i j h) j n) = drop n (swap i j h)"
        by (rule "1.IH" [OF refl False j_def]) (use True jn 1 in simp_all)
      moreover have "drop n (swap i j h) = drop n h" using 1(3) jn by (simp add: swap_def)
      ultimately show ?thesis using 1 jn by (simp add: d)
    qed (subst heap_down.simps, use False in \<open>simp add: Let_def j_def\<close>)+
  qed (subst heap_down.simps, simp)+
qed

lemma heap_down_heap:
  assumes "n \<le> length h" "i < n"
    and "\<And>k. k < n \<Longrightarrow> 0 < k \<Longrightarrow> parent k \<noteq> i \<Longrightarrow> h ! parent k \<le> h ! k"
    and "\<And>k. k < n \<Longrightarrow> 0 < i \<Longrightarrow> 0 < k \<Longrightarrow> parent k = i \<Longrightarrow> h ! parent i \<le> h ! k"
  shows "heap_upto n (heap_down h i n)"
  using assms
proof (induction h i n rule: heap_down.induct)
  case (1 h i n)
  have good: "heap_upto n h" if "\<And>k. k < n \<Longrightarrow> 0 < k \<Longrightarrow> parent k = i \<Longrightarrow> h ! i \<le> h ! k"
    unfolding heap_upto_def
  proof (intro allI impI)
    fix k assume "k < n"
    then show "h ! parent k \<le> h ! k"
      using that [of k] "1"(4) [of k] by (cases "k = 0"; cases "parent k = i") auto
  qed
  show ?case
  proof (cases "2 * i + 1 \<ge> n")
    case True
    then have "heap_upto n h" by (intro good) (auto simp: parent_iff)
    with True show ?thesis by (subst heap_down.simps) simp
  next
    case False
    define j where "j = smaller_child h (2 * i + 1) n"
    note sc = smaller_child_spec [of "2 * i + 1" n h, folded j_def]
    have j: "j < n" "0 < j" "parent j = i" "i < j" using False sc by auto
    have jmin: "h ! j \<le> h ! k" if "k < n" "0 < k" "parent k = i" for k
    proof -
      have "k = 2 * i + 1 \<or> k = 2 * i + 1 + 1" using parent_iff [OF that(2), of i] that(3) by simp
      then show ?thesis using sc False that(1) by (elim disjE) simp_all
    qed
    show ?thesis
    proof (cases "h ! j < h ! i")
      case lt: True
      have d: "heap_down h i n = heap_down (swap i j h) j n"
        using False lt by (subst heap_down.simps) (simp add: Let_def j_def)
      have il: "i < length h" and jl: "j < length h" using "1"(2,3) j by auto
      note nth = swap_nth [OF il jl]
      have "heap_upto n (heap_down (swap i j h) j n)"
      proof (rule "1.IH" [OF refl False j_def], goal_cases)
        case 1
        then show ?case using lt by simp
      next
        case (4 k)
        then have k: "k < length h" "parent k < length h" using "1"(2) by auto
        show ?case
        proof (cases "parent k = i")
          case True
          then show ?thesis using jmin [OF 4(1,2)] lt 4(2) parent_less [OF 4(2)]
            by (cases "k = j") (simp_all add: nth k il jl less_imp_le)
        next
          case pk: False
          show ?thesis
          proof (cases "k = i")
            case True
            have "h ! parent i \<le> h ! j" using "1"(5) [OF j(1) _ j(2,3)] 4(2) True by simp
            moreover have "swap i j h ! parent k = h ! parent i" using True pk 4(3) nth [OF k(2)] by simp
            moreover have "swap i j h ! k = h ! j" using True j nth [OF il] by simp
            ultimately show ?thesis by simp
          next
            case ki: False
            then have "k \<noteq> j" using pk j by auto
            then show ?thesis using "1"(4) [OF 4(1,2) pk] pk 4(3) ki nth [OF k(1)] nth [OF k(2)] by simp
          qed
        qed
      next
        case (5 k)
        then have k: "k < length h" using "1"(2) by simp
        have "k \<noteq> j" "k \<noteq> i" using parent_less [OF 5(3)] 5(4) j by auto
        moreover have "h ! j \<le> h ! k" using "1"(4) [OF 5(1,3)] 5(4) j by simp
        ultimately show ?case using j il by (simp add: nth k jl)
      qed (use j "1"(2) in simp_all)
      with d show ?thesis by simp
    next
      case ge: False
      have "heap_upto n h" using jmin ge by (intro good) (auto simp: not_less intro: order.trans)
      moreover have "heap_down h i n = h"
        using False ge by (subst heap_down.simps) (simp add: Let_def j_def)
      ultimately show ?thesis by simp
    qed
  qed
qed

lemma heap_min:
  assumes "is_heap h" "k < length h"
  shows "h ! 0 \<le> h ! k"
  using assms(2)
proof (induction k rule: less_induct)
  case (less k)
  show ?case
  proof (cases "k = 0")
    case False
    then have "h ! 0 \<le> h ! parent k" using less by simp
    then show ?thesis using assms(1) less.prems by (auto simp: is_heap_def intro: order.trans)
  qed simp
qed

lemma heap_Pop_spec:
  assumes "is_heap h" "h \<noteq> []"
  shows "snd (heap_Pop h) = h ! 0" and "is_heap (fst (heap_Pop h))"
    and "mset h = add_mset (h ! 0) (mset (fst (heap_Pop h)))"
proof -
  define n where "n = length h - 1"
  define g where "g = heap_down (swap 0 n h) 0 n"
  have n: "n < length h" "length h = Suc n" using assms(2) by (simp_all add: n_def)
  have l: "length g = Suc n" by (simp add: g_def n)
  have sw: "swap 0 n h ! n = h ! 0" using n by (simp add: swap_def)
  have g: "mset g = mset h \<and> drop n g = drop n (swap 0 n h) \<and> heap_upto n g"
  proof (cases "n = 0")
    case True
    then show ?thesis using n by (simp add: g_def heap_upto_def heap_down.simps swap_def)
  next
    case False
    then have 0: "0 < n" by simp
    have "heap_upto n g" unfolding g_def
    proof (rule heap_down_heap)
      fix k assume k: "k < n" "0 < k" "parent k \<noteq> 0"
      then have "swap 0 n h ! parent k = h ! parent k" "swap 0 n h ! k = h ! k"
        using n by (auto simp: swap_def nth_list_update)
      then show "swap 0 n h ! parent k \<le> swap 0 n h ! k"
        using assms(1) k n by (simp add: is_heap_def)
    qed (use 0 n in simp_all)
    with heap_down_spec [of n "swap 0 n h" 0] 0 n show ?thesis by (simp add: g_def)
  qed
  have gn: "g ! n = h ! 0" using g l n sw by (metis Cons_nth_drop_Suc hd_drop_conv_nth length_swap lessI)
  have pop: "heap_Pop h = (take n g, g ! n)" by (simp add: heap_Pop_def n_def g_def Let_def)
  show "snd (heap_Pop h) = h ! 0" by (simp add: pop gn)
  show "is_heap (fst (heap_Pop h))"
    using g l by (simp add: pop is_heap_def heap_upto_def)
  have "g = take n g @ [h ! 0]" using l gn take_Suc_conv_app_nth [of n g] by simp
  then show "mset h = add_mset (h ! 0) (mset (fst (heap_Pop h)))"
    using g by (metis pop fst_conv mset_append mset.simps(1) mset.simps(2) union_mset_add_mset_right add.right_neutral)
qed

subsection \<open>The contract of the heap\<close>

locale priority_queue =
  fixes push :: "'a::linorder \<Rightarrow> 'q \<Rightarrow> 'q" and pop :: "'q \<Rightarrow> 'q \<times> 'a" and first :: "'q \<Rightarrow> 'a"
    and is_empty :: "'q \<Rightarrow> bool" and entries :: "'q \<Rightarrow> 'a multiset" and inv :: "'q \<Rightarrow> bool"
  assumes inv_push: "inv q \<Longrightarrow> inv (push x q)"
    and entries_push: "inv q \<Longrightarrow> entries (push x q) = add_mset x (entries q)"
    and empty_iff: "inv q \<Longrightarrow> is_empty q \<longleftrightarrow> entries q = {#}"
    and inv_pop: "inv q \<Longrightarrow> \<not> is_empty q \<Longrightarrow> inv (fst (pop q))"
    and top_pop: "inv q \<Longrightarrow> \<not> is_empty q \<Longrightarrow> snd (pop q) = first q"
    and entries_pop: "inv q \<Longrightarrow> \<not> is_empty q \<Longrightarrow> entries q = add_mset (first q) (entries (fst (pop q)))"
    and least_top: "inv q \<Longrightarrow> x \<in># entries q \<Longrightarrow> first q \<le> x"
begin

lemma top_in: "inv q \<Longrightarrow> \<not> is_empty q \<Longrightarrow> first q \<in># entries q"
  using entries_pop [of q] by simp

lemma pop_size: "inv q \<Longrightarrow> \<not> is_empty q \<Longrightarrow> size (entries (fst (pop q))) < size (entries q)"
  using entries_pop [of q] by simp

lemma least_pop: "inv q \<Longrightarrow> \<not> is_empty q \<Longrightarrow> x \<in># entries (fst (pop q)) \<Longrightarrow> first q \<le> x"
  by (rule least_top) (simp_all add: entries_pop)

end

interpretation dh: priority_queue heap_Push heap_Pop "\<lambda>h. h ! 0" "\<lambda>h. h = []" mset is_heap
proof (unfold_locales, goal_cases)
  case (7 q x)
  then show ?case by (metis heap_min in_set_conv_nth set_mset_mset)
qed (simp_all add: heap_Push_heap heap_Push_mset heap_Pop_spec)

subsection \<open>The redelivery scan\<close>

text \<open>
  The loop of \<open>PopExpiredRunning\<close>: pop due entries; an entry that the table of running leases no
  longer has with the same deadline and epoch is stale and skipped.
\<close>

definition still_running :: "(string \<rightharpoonup> running_lease) \<Rightarrow> running_lease \<Rightarrow> bool" where
  "still_running running tp =
     (case running (rl_taskID tp) of
        None \<Rightarrow> False
      | Some current \<Rightarrow> \<not> (rl_deadlineMs current \<noteq> rl_deadlineMs tp \<or> rl_leaseEpoch current \<noteq> rl_leaseEpoch tp))"

function pop_expired ::
  "i64 \<Rightarrow> (string \<rightharpoonup> running_lease) \<Rightarrow> running_lease list \<Rightarrow> running_lease list
   \<Rightarrow> (string \<rightharpoonup> running_lease) \<times> running_lease list \<times> running_lease list" where
  "pop_expired nowMs running deadlines expired =
     (if deadlines = [] then (running, deadlines, expired)
      else let tp = deadlines ! 0
           in if rl_deadlineMs tp > nowMs then (running, deadlines, expired)
              else let rest = fst (heap_Pop deadlines)
                   in if \<not> still_running running tp then pop_expired nowMs running rest expired
                      else pop_expired nowMs (running(rl_taskID tp := None)) rest (expired @ [tp]))"
  by pat_completeness auto
termination by (relation "measure (\<lambda>(n, r, d, e). length d)") (auto simp: heap_Pop_def Let_def)

declare pop_expired.simps [simp del]

text \<open>Every running lease is filed under its own task and has an entry in the heap.\<close>

definition leases_tracked :: "(string \<rightharpoonup> running_lease) \<Rightarrow> running_lease list \<Rightarrow> bool" where
  "leases_tracked running deadlines \<longleftrightarrow> is_heap deadlines
     \<and> (\<forall>t l. running t = Some l \<longrightarrow> rl_taskID l = t \<and> l \<in> set deadlines)"

lemma still_running_iff:
  assumes "leases_tracked running d"
  shows "still_running running tp \<longleftrightarrow> running (rl_taskID tp) = Some tp"
  using assms by (auto simp: still_running_def leases_tracked_def intro: running_lease.expand split: option.splits)

lemma leases_tracked_push:
  assumes "leases_tracked running d"
  shows "leases_tracked (running(t \<mapsto> RunningLease t dl e)) (heap_Push (RunningLease t dl e) d)"
proof -
  have "set (heap_Push x d) = insert x (set d)" for x
    using arg_cong [OF heap_Push_mset [of x d], of set_mset] by simp
  with assms show ?thesis by (auto simp: leases_tracked_def heap_Push_heap)
qed

lemma leases_tracked_delete: "leases_tracked running d \<Longrightarrow> leases_tracked (running(t := None)) d"
  by (auto simp: leases_tracked_def)

lemma leases_tracked_pop:
  assumes "leases_tracked running d" "d \<noteq> []" "running (rl_taskID (d ! 0)) \<noteq> Some (d ! 0)"
  shows "leases_tracked running (fst (heap_Pop d))"
proof -
  have h: "is_heap d" using assms(1) by (simp add: leases_tracked_def)
  have "set d = insert (d ! 0) (set (fst (heap_Pop d)))"
    using arg_cong [OF heap_Pop_spec(3) [OF h assms(2)], of set_mset] by simp
  with assms heap_Pop_spec(2) [OF h assms(2)] show ?thesis by (fastforce simp: leases_tracked_def)
qed

lemma pop_expired_spec:
  assumes "leases_tracked running d" "pop_expired nowMs running d ex = (running', d', ex')"
  shows "\<exists>due. ex' = ex @ due \<and> sorted due \<and> distinct due
     \<and> set due = {l. running (rl_taskID l) = Some l \<and> rl_deadlineMs l \<le> nowMs}
     \<and> running' = (\<lambda>t. case running t of None \<Rightarrow> None
          | Some l \<Rightarrow> if rl_deadlineMs l \<le> nowMs then None else Some l)
     \<and> leases_tracked running' d' \<and> (\<forall>l\<in>set d'. rl_deadlineMs l > nowMs) \<and> (\<forall>l\<in>set due. l \<in> set d)"
  using assms
proof (induction nowMs running d ex rule: pop_expired.induct)
  case (1 nowMs running d ex)
  have T: "\<And>t l. running t = Some l \<Longrightarrow> rl_taskID l = t \<and> l \<in> set d" and h: "is_heap d"
    using "1.prems"(1) by (simp_all add: leases_tracked_def)
  have least: "x \<in> set d \<Longrightarrow> rl_deadlineMs (d ! 0) \<le> rl_deadlineMs x" for x
    using dh.least_top [OF h, of x] by (intro lease_le_deadline) simp
  consider "d = [] \<or> rl_deadlineMs (d ! 0) > nowMs" 
    | "d \<noteq> []" "\<not> rl_deadlineMs (d ! 0) > nowMs" "\<not> still_running running (d ! 0)"
    | "d \<noteq> []" "\<not> rl_deadlineMs (d ! 0) > nowMs" "still_running running (d ! 0)" by blast
  then show ?case
  proof cases
    case stop: 1
    then have r: "running' = running" "d' = d" "ex' = ex"
      using "1.prems"(2) by (auto simp: pop_expired.simps [of nowMs running d ex] Let_def split: if_splits)
    have late: "x \<in> set d \<Longrightarrow> rl_deadlineMs x > nowMs" for x using stop least [of x] by auto
    have run: "running t = Some l \<Longrightarrow> rl_deadlineMs l > nowMs" for t l using T [of t l] late [of l] by blast
    have "running = (\<lambda>t. case running t of None \<Rightarrow> None | Some l \<Rightarrow> if rl_deadlineMs l \<le> nowMs then None else Some l)"
    proof
      fix t
      show "running t = (case running t of None \<Rightarrow> None | Some l \<Rightarrow> if rl_deadlineMs l \<le> nowMs then None else Some l)"
        using run [of t] by (cases "running t") auto
    qed
    moreover have "{l. running (rl_taskID l) = Some l \<and> rl_deadlineMs l \<le> nowMs} = {}"
      using run by (auto simp: not_le)
    ultimately show ?thesis using r late "1.prems"(1) by (intro exI [of _ "[]"]) simp
  next
    case stale: 2
    let ?rest = "fst (heap_Pop d)"
    have ne: "running (rl_taskID (d ! 0)) \<noteq> Some (d ! 0)" using stale(3) still_running_iff [OF "1.prems"(1)] by simp
    have rest: "pop_expired nowMs running ?rest ex = (running', d', ex')"
      using "1.prems"(2) stale by (simp add: pop_expired.simps [of nowMs running d ex] Let_def)
    have sub: "set ?rest \<subseteq> set d"
      using arg_cong [OF heap_Pop_spec(3) [OF h stale(1)], of set_mset] by auto
    from "1.IH"(1) [OF stale(1) refl stale(2) refl stale(3) leases_tracked_pop [OF "1.prems"(1) stale(1) ne] rest] sub
    show ?thesis by blast
  next
    case due: 3
    let ?top = "d ! 0" and ?rest = "fst (heap_Pop d)"
    let ?r = "running(rl_taskID ?top := None)"
    have cur: "running (rl_taskID ?top) = Some ?top" using due(3) still_running_iff [OF "1.prems"(1)] by simp
    have rest: "pop_expired nowMs ?r ?rest (ex @ [?top]) = (running', d', ex')"
      using "1.prems"(2) due by (simp add: pop_expired.simps [of nowMs running d ex] Let_def)
    have sub: "x \<in> set ?rest \<Longrightarrow> x \<in> set d" for x
      using arg_cong [OF heap_Pop_spec(3) [OF h due(1)], of set_mset] by auto
    have tr: "leases_tracked ?r ?rest"
      by (rule leases_tracked_pop [OF leases_tracked_delete [OF "1.prems"(1)] due(1)]) simp
    obtain rs where rs: "ex' = (ex @ [?top]) @ rs" "sorted rs" "distinct rs"
       "set rs = {l. ?r (rl_taskID l) = Some l \<and> rl_deadlineMs l \<le> nowMs}"
       "running' = (\<lambda>t. case ?r t of None \<Rightarrow> None | Some l \<Rightarrow> if rl_deadlineMs l \<le> nowMs then None else Some l)"
       "leases_tracked running' d'" "\<forall>l\<in>set d'. rl_deadlineMs l > nowMs" "\<forall>l\<in>set rs. l \<in> set ?rest"
      using "1.IH"(2) [OF due(1) refl due(2) refl _ tr rest] due(3) by blast
    have "{l. running (rl_taskID l) = Some l \<and> rl_deadlineMs l \<le> nowMs} = insert ?top (set rs)"
      using cur due(2) unfolding rs(4) by auto
    moreover have "?top \<notin> set rs" unfolding rs(4) by simp
    moreover have "sorted (?top # rs)" using rs(2,8) sub dh.least_top [OF h] by auto
    moreover have "running' = (\<lambda>t. case running t of None \<Rightarrow> None | Some l \<Rightarrow> if rl_deadlineMs l \<le> nowMs then None else Some l)"
      unfolding rs(5) using cur due(2) by (auto simp: fun_eq_iff)
    moreover have "\<forall>l\<in>set (?top # rs). l \<in> set d" using rs(8) sub due(1) by (simp add: hd_conv_nth [symmetric])
    ultimately show ?thesis using rs by (intro exI [of _ "?top # rs"]) simp
  qed
qed

end
