(* ===== verification/Placement_Index.thy ===== *)
theory Placement_Index
  imports Placement
begin

text \<open>
  Correctness of the placement index: the sorted worker lists are finite maps, every update of the
  scheduler keeps them equal to what a computation from the worker views and statistics would give,
  and the indexed choices are the best ones.
\<close>

subsection \<open>A worker list as a finite map\<close>

text \<open>
  \<open>is_index key M h\<close>: the list \<open>h\<close> holds exactly the entries of the map \<open>M\<close>, sorted by \<open>key\<close>, and
  its position table is right. Such a list is unique.
\<close>

definition is_index :: "(placement_entry \<Rightarrow> int \<times> string) \<Rightarrow> (string \<rightharpoonup> placement_entry) \<Rightarrow> placement_heap \<Rightarrow> bool" where
  "is_index key M h \<longleftrightarrow> sorted (map key (ph_entries h)) \<and> distinct (map pe_workerID (ph_entries h))
     \<and> ph_byID h = index_by pe_workerID (ph_entries h)
     \<and> (\<forall>w e. M w = Some e \<longleftrightarrow> e \<in> set (ph_entries h) \<and> pe_workerID e = w)"

lemma is_index_empty: "is_index key Map.empty empty_heap"
  by (simp add: is_index_def empty_heap_def index_by_def)

lemma is_index_unique:
  assumes "is_index key M h" "is_index key M g" and "\<And>e. snd (key e) = pe_workerID e"
  shows "h = g"
proof -
  have s: "set (ph_entries h) = set (ph_entries g)" using assms(1,2) unfolding is_index_def by blast
  have inj: "inj_on key (set (ph_entries h))"
  proof (rule inj_onI)
    fix a b assume "a \<in> set (ph_entries h)" "b \<in> set (ph_entries h)" "key a = key b"
    then show "a = b" using assms(1,3) by (metis (no_types) distinct_map inj_on_eq_iff is_index_def)
  qed
  have d: "distinct (ph_entries h)" "distinct (ph_entries g)"
    using assms(1,2) by (auto simp: is_index_def distinct_map)
  have "map key (ph_entries h) = map key (ph_entries g)"
    by (rule sorted_distinct_set_unique) (use assms(1,2) d s inj in \<open>auto simp: is_index_def distinct_map\<close>)
  then have "ph_entries h = ph_entries g" using inj s by (metis map_inj_on sup.idem)
  then show ?thesis using assms(1,2) by (simp add: is_index_def)
qed

lemma set_remove_nth:
  assumes "i < length xs" "distinct xs"
  shows "set (take i xs @ drop (Suc i) xs) = set xs - {xs ! i}"
proof -
  have xs: "xs = take i xs @ xs ! i # drop (Suc i) xs" using assms(1) by (simp add: id_take_nth_drop)
  then have "distinct (take i xs @ xs ! i # drop (Suc i) xs)" using assms(2) by simp
  then show ?thesis by (subst (3) xs) auto
qed

lemma remove_index:
  assumes "is_index key M h"
  shows "is_index key (M(w := None)) (placement_remove w h)"
proof -
  let ?xs = "ph_entries h"
  have d: "distinct (map pe_workerID ?xs)" and b: "ph_byID h = index_by pe_workerID ?xs"
    and M: "\<And>w e. M w = Some e \<longleftrightarrow> e \<in> set ?xs \<and> pe_workerID e = w"
    using assms unfolding is_index_def by blast+
  show ?thesis
  proof (cases "ph_byID h w")
    case None
    then have "w \<notin> pe_workerID ` set ?xs" by (simp add: b index_by_None_iff)
    then have "M w = None" using M [of w] by (metis imageI not_None_eq)
    then have "M(w := None) = M" by auto
    then show ?thesis using assms None by (simp add: placement_remove_def)
  next
    case (Some i)
    then have i: "i < length ?xs" "pe_workerID (?xs ! i) = w" using b d by (auto dest: index_by_SomeD)
    let ?ys = "take i ?xs @ drop (Suc i) ?xs"
    have r: "placement_remove w h = \<lparr>ph_entries = ?ys, ph_byID = index_by pe_workerID ?ys\<rparr>"
      using i Some by (simp add: placement_remove_def Let_def)
    have dx: "distinct ?xs" using d by (simp add: distinct_map)
    have sub: "set ?ys = set ?xs - {?xs ! i}" by (rule set_remove_nth [OF i(1) dx])
    have xs: "?xs = take i ?xs @ ?xs ! i # drop (Suc i) ?xs" using i(1) by (simp add: id_take_nth_drop)
    have m: "map f ?xs = map f (take i ?xs) @ f (?xs ! i) # map f (drop (Suc i) ?xs)" for f :: "_ \<Rightarrow> 'b"
      by (subst xs) simp
    have "sorted (map key ?ys)" using assms unfolding is_index_def m [of key] by (auto simp: sorted_append)
    moreover have "distinct (map pe_workerID ?ys)" using d unfolding m [of pe_workerID] by auto
    moreover have "(M(w := None)) v = Some e \<longleftrightarrow> e \<in> set ?ys \<and> pe_workerID e = v" for v e
    proof -
      have "e = ?xs ! i" if "e \<in> set ?xs" "pe_workerID e = w"
        using that d i by (metis distinct_map inj_on_def nth_mem)
      then show ?thesis using M [of v e] i unfolding sub by auto
    qed
    ultimately show ?thesis by (simp add: is_index_def r)
  qed
qed

lemma put_index:
  assumes "is_index key M h"
  shows "is_index key (M(pe_workerID e \<mapsto> e)) (put_entry key e h)"
proof -
  let ?xs = "ph_entries h" and ?w = "pe_workerID e"
  have d: "distinct (map pe_workerID ?xs)" and b: "ph_byID h = index_by pe_workerID ?xs"
    and M: "\<And>w e. M w = Some e \<longleftrightarrow> e \<in> set ?xs \<and> pe_workerID e = w"
    using assms unfolding is_index_def by blast+
  define ys where "ys = (case ph_byID h ?w of
               Some idx \<Rightarrow> if idx < length ?xs \<and> pe_workerID (?xs ! idx) = ?w then ?xs[idx := e] else ?xs @ [e]
             | None \<Rightarrow> ?xs @ [e])"
  have p: "put_entry key e h = \<lparr>ph_entries = sort_key key ys, ph_byID = index_by pe_workerID (sort_key key ys)\<rparr>"
    by (simp add: put_entry_def ys_def Let_def)
  have *: "distinct (map pe_workerID ys) \<and> (\<forall>w x. (M(?w \<mapsto> e)) w = Some x \<longleftrightarrow> x \<in> set ys \<and> pe_workerID x = w)"
  proof (cases "ph_byID h ?w")
    case None
    then have n: "?w \<notin> pe_workerID ` set ?xs" by (simp add: b index_by_None_iff)
    have ys: "ys = ?xs @ [e]" by (simp add: ys_def None)
    show ?thesis unfolding ys using n d M by (auto simp: image_iff)
  next
    case (Some i)
    then have i: "i < length ?xs" "pe_workerID (?xs ! i) = ?w" using b d by (auto dest: index_by_SomeD)
    have ys: "ys = ?xs[i := e]" using i by (simp add: ys_def Some)
    have m: "map pe_workerID ys = map pe_workerID ?xs"
      unfolding ys using i by (metis list_update_id map_update nth_map)
    have "x \<in> set ys \<longleftrightarrow> x = e \<or> (x \<in> set ?xs \<and> pe_workerID x \<noteq> ?w)" for x
    proof -
      have dx: "distinct ?xs" using d by (simp add: distinct_map)
      have "set ys = insert e (set ?xs - {?xs ! i})" unfolding ys by (rule set_update_distinct [OF dx i(1)])
      moreover have "x = ?xs ! i" if "x \<in> set ?xs" "pe_workerID x = ?w"
        using that d i by (metis distinct_map inj_on_def nth_mem)
      ultimately show ?thesis using i by auto
    qed
    then show ?thesis using m d M by auto
  qed
  have "distinct (map pe_workerID (sort_key key ys)) \<longleftrightarrow> distinct (map pe_workerID ys)"
    by (metis mset_map mset_sort mset_eq_imp_distinct_iff)
  with * show ?thesis by (simp add: is_index_def p)
qed

subsection \<open>What the lists should hold\<close>

text \<open>
  The entry of worker \<open>w\<close> with view \<open>v\<close> in each of the three lists of model \<open>key\<close>, computed from
  scratch.
\<close>

definition view_score :: "placement_store \<Rightarrow> modelKey \<Rightarrow> string \<Rightarrow> worker_view \<Rightarrow> i64" where
  "view_score ps key w v = predictedPlacementScore v (ModelKey (fst key) (snd key)) (placementStatsLocked ps key w)
     (key \<in> set (wv_cachedModels v))"

definition locality_entry :: "bool \<Rightarrow> placement_store \<Rightarrow> modelKey \<Rightarrow> string \<Rightarrow> worker_view \<Rightarrow> placement_entry option" where
  "locality_entry warm ps key w v =
     (if (key \<in> set (wv_cachedModels v)) = warm \<and> - (2 ^ 59) < localityBaseScore v warm
      then Some \<lparr>pe_workerID = w, pe_localityScore = localityBaseScore v warm, pe_predictScore = view_score ps key w v\<rparr>
      else None)"

definition predict_entry :: "placement_store \<Rightarrow> modelKey \<Rightarrow> string \<Rightarrow> worker_view \<Rightarrow> placement_entry option" where
  "predict_entry ps key w v =
     (if view_score ps key w v < 2 ^ 61
      then Some \<lparr>pe_workerID = w, pe_localityScore = 0, pe_predictScore = view_score ps key w v\<rparr> else None)"

definition over_views :: "(string \<Rightarrow> worker_view \<Rightarrow> 'e option) \<Rightarrow> (string \<rightharpoonup> worker_view) \<Rightarrow> string \<rightharpoonup> 'e" where
  "over_views f vs w = (case vs w of None \<Rightarrow> None | Some v \<Rightarrow> f w v)"

lemma over_views_empty [simp]: "over_views f Map.empty = Map.empty"
  by (simp add: over_views_def fun_eq_iff)

lemma over_views_update [simp]: "over_views f (vs(w \<mapsto> v)) = (over_views f vs)(w := f w v)"
  by (simp add: over_views_def fun_eq_iff)

lemma over_views_delete [simp]: "over_views f (vs(w := None)) = (over_views f vs)(w := None)"
  by (simp add: over_views_def fun_eq_iff)

text \<open>The three lists of a model are current for the views \<open>vs\<close>.\<close>

definition heaps_current :: "(string \<rightharpoonup> worker_view) \<Rightarrow> placement_store \<Rightarrow> modelKey \<Rightarrow> model_heaps \<Rightarrow> bool" where
  "heaps_current vs ps key hs \<longleftrightarrow>
     is_index locality_key (over_views (locality_entry True ps key) vs) (mh_cached hs)
   \<and> is_index locality_key (over_views (locality_entry False ps key) vs) (mh_cold hs)
   \<and> is_index predict_key (over_views (predict_entry ps key) vs) (mh_predicted hs)"

lemma heaps_current_empty: "heaps_current Map.empty ps key empty_heaps"
  by (simp add: heaps_current_def empty_heaps_def is_index_empty)

lemma heaps_current_unique: "heaps_current vs ps key hs \<Longrightarrow> heaps_current vs ps key hs' \<Longrightarrow> hs = hs'"
  unfolding heaps_current_def
  by (rule model_heaps.equality) (auto intro: is_index_unique simp: locality_key_def predict_key_def)

text \<open>The lists depend on the statistics of their own model only.\<close>

lemma stats_cong:
  assumes "ps_llmStats ps' key = ps_llmStats ps key"
  shows "view_score ps' key = view_score ps key"
  using assms by (simp add: view_score_def placementStatsLocked_def fun_eq_iff)

lemma heaps_current_stats_cong:
  "ps_llmStats ps' key = ps_llmStats ps key \<Longrightarrow> heaps_current vs ps' key hs = heaps_current vs ps key hs"
proof -
  assume "ps_llmStats ps' key = ps_llmStats ps key"
  then have "locality_entry b ps' key = locality_entry b ps key" "predict_entry ps' key = predict_entry ps key" for b
    using stats_cong [of ps' key ps] by (simp_all add: locality_entry_def predict_entry_def fun_eq_iff)
  then show ?thesis by (simp add: heaps_current_def)
qed

subsection \<open>Updates keep the lists current\<close>

lemma locality_upsert_index:
  assumes "is_index locality_key M h"
  shows "is_index locality_key (M(w := if - (2 ^ 59) < l then Some \<lparr>pe_workerID = w, pe_localityScore = l, pe_predictScore = p\<rparr> else None))
    (placement_upsert w l p h)"
  using remove_index [OF assms, of w] put_index [OF assms, of "\<lparr>pe_workerID = w, pe_localityScore = l, pe_predictScore = p\<rparr>"]
  by (simp add: placement_upsert_def not_le [symmetric])

lemma predict_upsert_index:
  assumes "is_index predict_key M h"
  shows "is_index predict_key (M(w := if p < 2 ^ 61 then Some \<lparr>pe_workerID = w, pe_localityScore = 0, pe_predictScore = p\<rparr> else None))
    (predict_upsert w p h)"
  using remove_index [OF assms, of w] put_index [OF assms, of "\<lparr>pe_workerID = w, pe_localityScore = 0, pe_predictScore = p\<rparr>"]
  by (simp add: predict_upsert_def not_le [symmetric])

lemma forget_cached_stats [simp]:
  "ps_llmStats (forget_cached w key ps) = ps_llmStats ps" "ps_byModel (forget_cached w key ps) = ps_byModel ps"
  by (simp_all add: forget_cached_def split: option.splits)

lemma inner_store [simp]:
  "ps_llmStats (fst (upsertWorkerModelPlacementInnerLocked key w v (ps, hs))) = ps_llmStats ps"
  "ps_byModel (fst (upsertWorkerModelPlacementInnerLocked key w v (ps, hs))) = ps_byModel ps"
  by (simp_all add: upsertWorkerModelPlacementInnerLocked_def Let_def)

text \<open>The lists are current but for the entries of worker \<open>w\<close>.\<close>

definition index_except :: "string \<Rightarrow> (placement_entry \<Rightarrow> int \<times> string) \<Rightarrow> (string \<rightharpoonup> placement_entry) \<Rightarrow> placement_heap \<Rightarrow> bool" where
  "index_except w key M h \<longleftrightarrow> (\<exists>M'. is_index key M' h \<and> M'(w := None) = M(w := None))"

definition heaps_except :: "string \<Rightarrow> (string \<rightharpoonup> worker_view) \<Rightarrow> placement_store \<Rightarrow> modelKey \<Rightarrow> model_heaps \<Rightarrow> bool" where
  "heaps_except w vs ps key hs \<longleftrightarrow>
     index_except w locality_key (over_views (locality_entry True ps key) vs) (mh_cached hs)
   \<and> index_except w locality_key (over_views (locality_entry False ps key) vs) (mh_cold hs)
   \<and> index_except w predict_key (over_views (predict_entry ps key) vs) (mh_predicted hs)"

lemma over_views_except: "vs'(w := None) = vs(w := None) \<Longrightarrow> (over_views f vs)(w := None) = (over_views f vs')(w := None)"
  by (metis over_views_delete)

lemma current_except: "heaps_current vs ps key hs \<Longrightarrow> vs'(w := None) = vs(w := None) \<Longrightarrow> heaps_except w vs' ps key hs"
  unfolding heaps_except_def heaps_current_def index_except_def using over_views_except by blast

lemma index_except_fill: "is_index key M' h \<Longrightarrow> M'(w := None) = M(w := None) \<Longrightarrow> M w = x \<Longrightarrow> M'(w := x) = M"
  by (metis fun_upd_idem_iff fun_upd_upd)

lemma inner_except:
  assumes "heaps_except w vs ps key hs" "vs w = Some v" "wv_workerID v \<noteq> ''''"
  shows "heaps_current vs ps key (snd (upsertWorkerModelPlacementInnerLocked key w v (ps, hs)))"
proof -
  obtain M1 M2 M3 where i: "is_index locality_key M1 (mh_cached hs)"
    "is_index locality_key M2 (mh_cold hs)" "is_index predict_key M3 (mh_predicted hs)"
    and M: "M1(w := None) = (over_views (locality_entry True ps key) vs)(w := None)"
      "M2(w := None) = (over_views (locality_entry False ps key) vs)(w := None)"
      "M3(w := None) = (over_views (predict_entry ps key) vs)(w := None)"
    using assms(1) unfolding heaps_except_def index_except_def by blast
  have at: "over_views f vs w = f w v" for f :: "_ \<Rightarrow> _ \<Rightarrow> placement_entry option"
    by (simp add: over_views_def assms(2))
  have fill: "over_views (locality_entry True ps key) vs = M1(w := locality_entry True ps key w v)"
    "over_views (locality_entry False ps key) vs = M2(w := locality_entry False ps key w v)"
    "over_views (predict_entry ps key) vs = M3(w := predict_entry ps key w v)"
    using index_except_fill [OF i(1) M(1) at] index_except_fill [OF i(2) M(2) at] index_except_fill [OF i(3) M(3) at]
    by simp_all
  define hit where "hit = (key \<in> set (wv_cachedModels v))"
  note up = locality_upsert_index [OF i(1), of w "localityBaseScore v hit" "view_score ps key w v"]
    locality_upsert_index [OF i(2), of w "localityBaseScore v hit" "view_score ps key w v"]
    predict_upsert_index [OF i(3), of w "view_score ps key w v"]
    remove_index [OF i(1), of w] remove_index [OF i(2), of w]
  have eq: "snd (upsertWorkerModelPlacementInnerLocked key w v (ps, hs)) =
     (if hit then \<lparr>mh_cached = placement_upsert w (localityBaseScore v hit) (view_score ps key w v) (mh_cached hs),
        mh_cold = placement_remove w (mh_cold hs), mh_predicted = predict_upsert w (view_score ps key w v) (mh_predicted hs)\<rparr>
      else \<lparr>mh_cached = placement_remove w (mh_cached hs),
        mh_cold = placement_upsert w (localityBaseScore v hit) (view_score ps key w v) (mh_cold hs),
        mh_predicted = predict_upsert w (view_score ps key w v) (mh_predicted hs)\<rparr>)"
    using assms(3) by (simp add: upsertWorkerModelPlacementInnerLocked_def workerPlacementActive_def
      view_score_def hit_def Let_def)
  have ent: "locality_entry b ps key w v = (if hit = b \<and> - (2 ^ 59) < localityBaseScore v b
      then Some \<lparr>pe_workerID = w, pe_localityScore = localityBaseScore v b, pe_predictScore = view_score ps key w v\<rparr> else None)" for b
    by (simp add: locality_entry_def hit_def)
  show ?thesis
  proof (cases hit)
    case True
    then show ?thesis using up(1,3,5) unfolding heaps_current_def fill
      by (simp only: eq ent predict_entry_def) simp
  next
    case False
    then show ?thesis using up(2,3,4) unfolding heaps_current_def fill
      by (simp only: eq ent predict_entry_def) simp
  qed
qed

lemma inner_current:
  assumes "heaps_current vs ps key hs" "wv_workerID v \<noteq> ''''"
  shows "heaps_current (vs(w \<mapsto> v)) ps key (snd (upsertWorkerModelPlacementInnerLocked key w v (ps, hs)))"
  by (rule inner_except [OF current_except [OF assms(1)] _ assms(2)]) simp_all

lemma remove_current:
  assumes "heaps_current vs ps key hs"
  shows "heaps_current (vs(w := None)) ps key
    \<lparr>mh_cached = placement_remove w (mh_cached hs), mh_cold = placement_remove w (mh_cold hs),
     mh_predicted = placement_remove w (mh_predicted hs)\<rparr>"
  using assms by (simp add: heaps_current_def remove_index)

definition views_ok :: "views \<Rightarrow> bool" where
  "views_ok views \<longleftrightarrow> distinct (map fst views) \<and> (\<forall>(w, v)\<in>set views. wv_workerID v = w \<and> w \<noteq> '''')"

lemma seed_current:
  assumes "views_ok views" "heaps_current vs ps key hs"
    "foldl (\<lambda>acc (w, v). upsertWorkerModelPlacementInnerLocked key w v acc) (ps, hs) views = (ps', hs')"
  shows "heaps_current (vs ++ map_of views) ps key hs' \<and> ps_llmStats ps' = ps_llmStats ps \<and> ps_byModel ps' = ps_byModel ps"
  using assms
proof (induction views arbitrary: vs ps hs)
  case (Cons wv views)
  obtain w v where wv: "wv = (w, v)" by fastforce
  obtain ps1 hs1 where 1: "upsertWorkerModelPlacementInnerLocked key w v (ps, hs) = (ps1, hs1)" by fastforce
  have s: "ps_llmStats ps1 = ps_llmStats ps" "ps_byModel ps1 = ps_byModel ps"
    using inner_store [of key w v ps hs] by (simp_all add: 1)
  have ok: "views_ok views" "wv_workerID v \<noteq> ''''" "w \<notin> fst ` set views"
    using Cons.prems(1) by (auto simp: views_ok_def wv)
  have "heaps_current (vs(w \<mapsto> v)) ps key hs1" using inner_current [OF Cons.prems(2) ok(2), of w] by (simp add: 1)
  then have c: "heaps_current (vs(w \<mapsto> v)) ps1 key hs1" using heaps_current_stats_cong [of ps1 key ps] s by simp
  have "heaps_current (vs(w \<mapsto> v) ++ map_of views) ps1 key hs' \<and> ps_llmStats ps' = ps_llmStats ps1 \<and> ps_byModel ps' = ps_byModel ps1"
    by (rule Cons.IH [OF ok(1) c]) (use Cons.prems(3) in \<open>simp add: wv 1\<close>)
  moreover have "vs(w \<mapsto> v) ++ map_of views = vs ++ map_of ((w, v) # views)"
    using ok(3) by (simp add: map_add_upd_left dom_map_of_conv_image_fst)
  ultimately show ?case using heaps_current_stats_cong [of ps1 key ps] s by (simp add: wv del: map_of.simps)
qed simp

lemma ensure_spec:
  assumes "views_ok views" "ensureModelPlacementLocked views key ps = (ps', hs)"
  shows "(map_of (ps_byModel ps) key = Some hs \<or> map_of (ps_byModel ps) key = None \<and> heaps_current (map_of views) ps key hs)
    \<and> ps_llmStats ps' = ps_llmStats ps \<and> map_of (ps_byModel ps') = (map_of (ps_byModel ps))(key \<mapsto> hs)"
proof (cases "map_of (ps_byModel ps) key")
  case None
  obtain ps1 hs1 where f: "foldl (\<lambda>acc (w, v). upsertWorkerModelPlacementInnerLocked key w v acc) (ps, empty_heaps) views = (ps1, hs1)"
    by fastforce
  from seed_current [OF assms(1) heaps_current_empty f] assms(2) show ?thesis
    by (auto simp: ensureModelPlacementLocked_def None f update_conv')
qed (use assms(2) in \<open>auto simp: ensureModelPlacementLocked_def fun_upd_idem\<close>)

subsection \<open>The invariant of the store\<close>

definition placement_inv :: "views \<Rightarrow> placement_store \<Rightarrow> bool" where
  "placement_inv views ps \<longleftrightarrow> views_ok views
     \<and> (\<forall>key hs. map_of (ps_byModel ps) key = Some hs \<longrightarrow> heaps_current (map_of views) ps key hs)"

lemma placement_invD:
  "placement_inv views ps \<Longrightarrow> map_of (ps_byModel ps) key = Some hs \<Longrightarrow> heaps_current (map_of views) ps key hs"
  unfolding placement_inv_def by blast

lemma ensure_inv:
  assumes "placement_inv views ps" "ensureModelPlacementLocked views key ps = (ps', hs)"
  shows "placement_inv views ps' \<and> heaps_current (map_of views) ps key hs"
proof -
  have ok: "views_ok views" using assms(1) by (simp add: placement_inv_def)
  have e: "(map_of (ps_byModel ps) key = Some hs \<or> map_of (ps_byModel ps) key = None \<and> heaps_current (map_of views) ps key hs)"
    "ps_llmStats ps' = ps_llmStats ps" "map_of (ps_byModel ps') = (map_of (ps_byModel ps))(key \<mapsto> hs)"
    using ensure_spec [OF ok assms(2)] by blast+
  have cur: "heaps_current (map_of views) ps key hs" using e(1) placement_invD [OF assms(1)] by blast
  have "heaps_current (map_of views) ps' k h" if "map_of (ps_byModel ps') k = Some h" for k h
    using that cur placement_invD [OF assms(1)] heaps_current_stats_cong [of ps' k ps] e(2,3)
    by (cases "k = key") auto
  then show ?thesis using ok cur by (simp add: placement_inv_def)
qed

lemma upsert_model_spec:
  assumes "views_ok views" "map_of views w = Some v"
    and "\<And>hs. map_of (ps_byModel ps) key = Some hs \<Longrightarrow> heaps_except w (map_of views) ps key hs"
    and "ps' = upsertWorkerModelPlacementLocked views key w v ps"
  shows "ps_llmStats ps' = ps_llmStats ps
    \<and> (\<exists>hs. map_of (ps_byModel ps') = (map_of (ps_byModel ps))(key \<mapsto> hs) \<and> heaps_current (map_of views) ps key hs)"
proof -
  obtain ps1 hs1 where 1: "ensureModelPlacementLocked views key ps = (ps1, hs1)" by fastforce
  note e = ensure_spec [OF assms(1) 1]
  have v: "wv_workerID v \<noteq> ''''" using assms(1,2) by (auto simp: views_ok_def dest!: map_of_SomeD)
  have ex: "heaps_except w (map_of views) ps key hs1"
    using e assms(3) current_except [of "map_of views" ps key hs1 "map_of views" w] by blast
  then have "heaps_except w (map_of views) ps1 key hs1"
  proof -
    have "locality_entry b ps1 key = locality_entry b ps key" "predict_entry ps1 key = predict_entry ps key" for b
      using stats_cong [of ps1 key ps] e by (simp_all add: locality_entry_def predict_entry_def fun_eq_iff)
    with ex show ?thesis by (simp add: heaps_except_def)
  qed
  then have c: "heaps_current (map_of views) ps1 key (snd (upsertWorkerModelPlacementInnerLocked key w v (ps1, hs1)))"
    using inner_except [of w "map_of views" ps1 key hs1 v] assms(2) v by blast
  obtain ps2 hs2 where 2: "upsertWorkerModelPlacementInnerLocked key w v (ps1, hs1) = (ps2, hs2)" by fastforce
  have s: "ps_llmStats ps2 = ps_llmStats ps1" "ps_byModel ps2 = ps_byModel ps1"
    using inner_store [of key w v ps1 hs1] by (simp_all add: 2)
  have "heaps_current (map_of views) ps key hs2" using c e heaps_current_stats_cong [of ps1 key ps] by (simp add: 2)
  then show ?thesis using e s
    by (auto simp: assms(4) upsertWorkerModelPlacementLocked_def 1 2 update_conv' intro!: exI [of _ hs2])
qed

lemma refresh_fold:
  assumes "views_ok views" "map_of views w = Some v"
    and "\<And>key hs. map_of (ps_byModel ps) key = Some hs \<Longrightarrow> heaps_except w (map_of views) ps key hs"
    and "\<And>key hs. map_of (ps_byModel ps) key = Some hs \<Longrightarrow> key \<notin> set keys \<Longrightarrow> heaps_current (map_of views) ps key hs"
  shows "placement_inv views (foldl (\<lambda>ps key. upsertWorkerModelPlacementLocked views key w v ps) ps keys)"
  using assms(3,4)
proof (induction keys arbitrary: ps)
  case Nil
  then show ?case using assms(1) by (simp add: placement_inv_def)
next
  case (Cons k keys)
  define ps1 where "ps1 = upsertWorkerModelPlacementLocked views k w v ps"
  obtain hs1 where s: "ps_llmStats ps1 = ps_llmStats ps" "map_of (ps_byModel ps1) = (map_of (ps_byModel ps))(k \<mapsto> hs1)"
    "heaps_current (map_of views) ps k hs1"
    using upsert_model_spec [OF assms(1,2) Cons.prems(1) ps1_def] by blast
  have cur: "heaps_current vs ps1 key hs \<longleftrightarrow> heaps_current vs ps key hs" for vs key hs
    by (rule heaps_current_stats_cong) (simp add: s(1))
  have exc: "heaps_except w vs ps1 key hs \<longleftrightarrow> heaps_except w vs ps key hs" for vs key hs
  proof -
    have "locality_entry b ps1 key = locality_entry b ps key" "predict_entry ps1 key = predict_entry ps key" for b
      using stats_cong [of ps1 key ps] s(1) by (simp_all add: locality_entry_def predict_entry_def fun_eq_iff)
    then show ?thesis by (simp add: heaps_except_def)
  qed
  have "placement_inv views (foldl (\<lambda>ps key. upsertWorkerModelPlacementLocked views key w v ps) ps1 keys)"
  proof (rule Cons.IH)
    fix key hs assume a: "map_of (ps_byModel ps1) key = Some hs"
    show "heaps_except w (map_of views) ps1 key hs"
      using a s(2,3) Cons.prems(1) [of key hs] current_except [OF s(3) refl, of w]
      by (cases "key = k") (auto simp: exc)
  next
    fix key hs assume a: "map_of (ps_byModel ps1) key = Some hs" "key \<notin> set keys"
    show "heaps_current (map_of views) ps1 key hs"
      using a s(2,3) Cons.prems(2) [of key hs] by (cases "key = k") (auto simp: cur)
  qed
  then show ?case by (simp add: ps1_def)
qed

subsection \<open>Every operation keeps the index current\<close>

lemma remove_worker_map:
  "map_of (ps_byModel (removeWorkerPlacementIndexLocked w ps)) key =
     map_option (\<lambda>hs. \<lparr>mh_cached = placement_remove w (mh_cached hs), mh_cold = placement_remove w (mh_cold hs),
       mh_predicted = placement_remove w (mh_predicted hs)\<rparr>) (map_of (ps_byModel ps) key)"
  by (simp add: removeWorkerPlacementIndexLocked_def map_of_map)

lemma views_ok_update:
  assumes "views_ok views" "wv_workerID v = w" "w \<noteq> ''''"
  shows "views_ok (AList.update w v views)"
proof -
  have "wv_workerID v' = w' \<and> w' \<noteq> ''''" if "(w', v') \<in> set (AList.update w v views)" for w' v'
  proof -
    have "map_of (AList.update w v views) w' = Some v'"
      using that assms(1) by (intro map_of_is_SomeI) (simp_all add: distinct_update views_ok_def)
    then show ?thesis using assms by (auto simp: update_conv' views_ok_def split: if_splits dest!: map_of_SomeD)
  qed
  then show ?thesis using assms(1) by (auto simp: views_ok_def distinct_update)
qed

lemma upsert_worker_inv:
  assumes "placement_inv views ps" "wv_workerID v = w" "w \<noteq> ''''"
    and "ps1 = (if map_of views w = None then ps else removeWorkerPlacementIndexLocked w ps)"
    and "views' = AList.update w v views"
  shows "placement_inv views' (refreshWorkerPlacementLocked views' w v previous ps1)"
proof -
  have ok: "views_ok views'" using views_ok_update assms by (simp add: placement_inv_def)
  have m: "map_of views' = (map_of views)(w \<mapsto> v)" by (simp add: assms(5) update_conv')
  have ex: "heaps_except w (map_of views') ps1 key hs" if h1: "map_of (ps_byModel ps1) key = Some hs" for key hs
  proof (cases "map_of views w")
    case None
    then have "heaps_current (map_of views) ps1 key hs" using h1 assms(1,4) by (simp add: placement_invD)
    then show ?thesis by (rule current_except) (simp add: m)
  next
    case (Some old)
    then have ps1: "ps1 = removeWorkerPlacementIndexLocked w ps" using assms(4) by simp
    obtain hs0 where h0: "map_of (ps_byModel ps) key = Some hs0"
      and h: "hs = \<lparr>mh_cached = placement_remove w (mh_cached hs0), mh_cold = placement_remove w (mh_cold hs0),
       mh_predicted = placement_remove w (mh_predicted hs0)\<rparr>"
      using h1 by (auto simp: ps1 remove_worker_map)
    have "heaps_current ((map_of views)(w := None)) ps key hs"
      using remove_current [OF placement_invD [OF assms(1) h0], of w] by (simp add: h)
    moreover have "ps_llmStats ps1 = ps_llmStats ps" by (simp add: ps1 removeWorkerPlacementIndexLocked_def)
    ultimately have "heaps_current ((map_of views)(w := None)) ps1 key hs"
      using heaps_current_stats_cong [of ps1 key ps] by simp
    then show ?thesis by (rule current_except) (simp add: m)
  qed
  show ?thesis unfolding refreshWorkerPlacementLocked_def Let_def
  proof (rule refresh_fold [OF ok _ ex])
    fix key hs assume "map_of (ps_byModel ps1) key = Some hs"
    moreover assume "key \<notin> set (remdups (previous @ wv_cachedModels v @ map fst (ps_byModel ps1)))"
    ultimately show "heaps_current (map_of views') ps1 key hs" by (auto dest!: map_of_SomeD simp: image_iff)
  qed (simp_all add: m)
qed

lemma placementStats_put:
  "placementStatsLocked (put_stats key w st ps) key' w' =
     (if key' = key \<and> w' = w then st else placementStatsLocked ps key' w')"
  by (simp add: placementStatsLocked_def put_stats_def split: option.splits)

lemma put_stats_except:
  assumes "heaps_current vs ps key' hs"
  shows "heaps_except w vs (put_stats key w st ps) key' hs"
proof -
  have s: "view_score (put_stats key w st ps) key' w' v = view_score ps key' w' v" if "w' \<noteq> w" for w' v
    using that by (simp add: view_score_def placementStats_put)
  have "(over_views (locality_entry b ps key') vs)(w := None) = (over_views (locality_entry b (put_stats key w st ps) key') vs)(w := None)"
    "(over_views (predict_entry ps key') vs)(w := None) = (over_views (predict_entry (put_stats key w st ps) key') vs)(w := None)" for b
    by (auto simp: fun_eq_iff over_views_def locality_entry_def predict_entry_def s split: option.splits)
  then show ?thesis using assms unfolding heaps_except_def heaps_current_def index_except_def by blast
qed

lemma put_stats_other:
  assumes "heaps_current vs ps key' hs" "key' \<noteq> key \<or> vs w = None"
  shows "heaps_current vs (put_stats key w st ps) key' hs"
proof -
  have "over_views (locality_entry b ps key') vs = over_views (locality_entry b (put_stats key w st ps) key') vs"
    "over_views (predict_entry ps key') vs = over_views (predict_entry (put_stats key w st ps) key') vs" for b
    using assms(2)
    by (auto simp: fun_eq_iff over_views_def locality_entry_def predict_entry_def view_score_def placementStats_put split: option.splits)
  then show ?thesis using assms(1) by (simp add: heaps_current_def)
qed

lemma put_stats_byModel [simp]: "ps_byModel (put_stats key w st ps) = ps_byModel ps"
  by (simp add: put_stats_def)

lemma record_stats_inv:
  assumes "placement_inv views ps"
  shows "placement_inv views (record_stats views key w st ps)"
proof (cases "map_of views w")
  case None
  have "heaps_current (map_of views) (put_stats key w st ps) k hs" if "map_of (ps_byModel ps) k = Some hs" for k hs
    by (rule put_stats_other [OF placement_invD [OF assms that]]) (simp add: None)
  then show ?thesis using assms by (simp add: record_stats_def None placement_inv_def)
next
  case (Some v)
  let ?ps1 = "put_stats key w st ps"
  have ok: "views_ok views" using assms by (simp add: placement_inv_def)
  have ex: "heaps_except w (map_of views) ?ps1 k hs" if "map_of (ps_byModel ?ps1) k = Some hs" for k hs
    using put_stats_except placement_invD [OF assms] that by simp
  have oth: "heaps_current (map_of views) ?ps1 k hs" if "map_of (ps_byModel ?ps1) k = Some hs" "k \<notin> set [key]" for k hs
    using put_stats_other [OF placement_invD [OF assms]] that by simp
  have "placement_inv views (foldl (\<lambda>ps key. upsertWorkerModelPlacementLocked views key w v ps) ?ps1 [key])"
    by (rule refresh_fold [OF ok Some ex oth]) simp_all
  then show ?thesis by (simp add: record_stats_def Some)
qed

lemma sync_inv: "placement_inv views ps \<Longrightarrow> placement_inv views (syncLLMStatsLocked views stats ps)"
  unfolding syncLLMStatsLocked_def
  by (induction stats arbitrary: ps) (auto simp: record_stats_inv split: prod.splits)

lemma new_placement_inv: "placement_inv [] newModelPlacementStore"
  by (simp add: placement_inv_def views_ok_def newModelPlacementStore_def)

subsection \<open>The loops that pick the best candidate\<close>

text \<open>
  A loop over candidates that keeps the first one and then every better one, where \<open>k\<close> maps a
  candidate to its rank with the worker as the last component.
\<close>

definition keep_best :: "(string \<times> i64 \<Rightarrow> int \<times> string) \<Rightarrow> string \<times> i64 \<Rightarrow> string \<times> i64 \<Rightarrow> string \<times> i64" where
  "keep_best k best c = (if fst best = '''' \<or> k c < k best then c else best)"

definition best_of :: "(string \<times> i64 \<Rightarrow> int \<times> string) \<Rightarrow> (string \<times> i64) set \<Rightarrow> string \<times> i64 \<Rightarrow> bool" where
  "best_of k C r \<longleftrightarrow> r \<in> C \<and> (\<forall>c\<in>C. k r \<le> k c)"

lemma best_of_unique: "best_of k C r \<Longrightarrow> best_of k C r' \<Longrightarrow> snd (k r) = fst r \<Longrightarrow> snd (k r') = fst r' \<Longrightarrow> fst r = fst r'"
  unfolding best_of_def by (metis order_antisym)

lemma fold_keep_best:
  assumes "\<forall>c\<in>set cs. fst c \<noteq> ''''" "fst init = ''''"
  shows "if cs = [] then foldl (keep_best k) init cs = init else best_of k (set cs) (foldl (keep_best k) init cs)"
  using assms(1)
proof (induction cs rule: rev_induct)
  case (snoc c cs)
  define b where "b = foldl (keep_best k) init cs"
  have b: "if cs = [] then b = init else best_of k (set cs) b" using snoc by (simp add: b_def)
  have "best_of k (set (cs @ [c])) (keep_best k b c)"
  proof (cases "cs = []")
    case False
    then have B: "best_of k (set cs) b" using b by simp
    then have "fst b \<noteq> ''''" using snoc.prems by (auto simp: best_of_def)
    then show ?thesis using B by (auto simp: best_of_def keep_best_def not_less intro: order.trans less_imp_le)
  qed (use b assms(2) in \<open>simp add: best_of_def keep_best_def\<close>)
  then show ?case by (simp add: b_def)
qed simp

lemma foldl_map_filter: "foldl (\<lambda>b x. case f x of None \<Rightarrow> b | Some c \<Rightarrow> g b c) b xs = foldl g b (List.map_filter f xs)"
  by (induction xs arbitrary: b) (simp_all add: map_filter_simps split: option.splits)

lemma set_map_filter: "set (List.map_filter f xs) = {c. \<exists>x\<in>set xs. f x = Some c}"
  by (force simp: List.map_filter_def)

definition low_rank :: "string \<times> i64 \<Rightarrow> int \<times> string" where "low_rank c = (snd c, fst c)"
definition high_rank :: "string \<times> i64 \<Rightarrow> int \<times> string" where "high_rank c = (- snd c, fst c)"

lemma keep_best_low:
  "keep_best low_rank (b, p') (w, p) = (if b = '''' \<or> p < p' \<or> (p = p' \<and> w < b) then (w, p) else (b, p'))"
  by (auto simp: keep_best_def low_rank_def)

lemma keep_best_high:
  "keep_best high_rank (b, p') (w, p) = (if b = '''' \<or> p > p' \<or> (p = p' \<and> w < b) then (w, p) else (b, p'))"
  by (auto simp: keep_best_def high_rank_def)

definition predicted_total :: "i64 \<Rightarrow> worker_view \<Rightarrow> bool \<Rightarrow> i64" where
  "predicted_total score v discount =
     (let p = add64 score (uint (wv_runningTasks v) * 50) in if discount then sub64 p 25 else p)"

definition predicted_cand :: "(string \<rightharpoonup> worker_view) \<Rightarrow> modelKey \<Rightarrow> i64 \<Rightarrow> i64 \<Rightarrow> placement_entry \<Rightarrow> (string \<times> i64) option" where
  "predicted_cand views key d wt e =
     (case views (pe_workerID e) of None \<Rightarrow> None
      | Some v \<Rightarrow> if hasCapacity v then Some (pe_workerID e,
          predicted_total (pe_predictScore e) v (d > wt \<and> key \<notin> set (wv_cachedModels v))) else None)"

lemma predicted_step_cand:
  "predicted_step views key d wt =
     (\<lambda>b e. case predicted_cand views key d wt e of None \<Rightarrow> b | Some c \<Rightarrow> keep_best low_rank b c)"
proof (rule ext, rule ext)
  fix b and e :: placement_entry
  show "predicted_step views key d wt b e =
      (case predicted_cand views key d wt e of None \<Rightarrow> b | Some c \<Rightarrow> keep_best low_rank b c)"
  proof (cases "views (pe_workerID e)")
    case (Some v)
    then show ?thesis
      by (cases b; cases "hasCapacity v"; cases "wt < d \<and> key \<notin> set (wv_cachedModels v)")
         (simp_all add: predicted_step_def predicted_cand_def predicted_total_def Let_def keep_best_low)
  qed (simp add: predicted_step_def predicted_cand_def split: prod.splits)
qed

definition scan_cand :: "string \<Rightarrow> (string \<Rightarrow> llm_worker_stats) \<Rightarrow> i64 \<Rightarrow> i64 \<Rightarrow> worker \<Rightarrow> (string \<times> i64) option" where
  "scan_cand mk stats d wt w =
     (if workerHasCapacity w
      then Some (wk_WorkerID w,
        let p = add64 (predictedLatencyMs w mk (stats (wk_WorkerID w))) (uint (wk_RunningTasks w) * 50)
        in if d > wt \<and> \<not> cached_model w mk then sub64 p 25 else p)
      else None)"

lemma predicted_scan_step_cand:
  "predicted_scan_step mk stats d wt =
     (\<lambda>b w. case scan_cand mk stats d wt w of None \<Rightarrow> b | Some c \<Rightarrow> keep_best low_rank b c)"
  by (rule ext, rule ext)
     (simp add: predicted_scan_step_def scan_cand_def keep_best_def low_rank_def Let_def split: prod.splits)

definition locality_cand :: "(string \<rightharpoonup> worker_view) \<Rightarrow> bool \<Rightarrow> placement_entry \<Rightarrow> (string \<times> i64) option" where
  "locality_cand views pen e =
     (case views (pe_workerID e) of None \<Rightarrow> None
      | Some v \<Rightarrow> if hasCapacity v then Some (pe_workerID e, if pen then pe_localityScore e - 1000 else pe_localityScore e) else None)"

lemma locality_step_cand:
  "locality_step views pen =
     (\<lambda>b e. case locality_cand views pen e of None \<Rightarrow> b | Some c \<Rightarrow> keep_best high_rank b c)"
proof (rule ext, rule ext)
  fix b and e :: placement_entry
  show "locality_step views pen b e = (case locality_cand views pen e of None \<Rightarrow> b | Some c \<Rightarrow> keep_best high_rank b c)"
  proof (cases "views (pe_workerID e)")
    case (Some v)
    then show ?thesis
      by (cases b; cases "hasCapacity v"; cases pen)
         (simp_all add: locality_step_def locality_cand_def Let_def keep_best_high)
  qed (simp add: locality_step_def locality_cand_def split: prod.splits)
qed

text \<open>Two such loops over lists with the same candidates choose the same worker.\<close>

lemma same_candidates:
  assumes "{c. \<exists>x\<in>set xs. f x = Some c} = {c. \<exists>y\<in>set ys. g y = Some c}"
    and "\<And>x c. x \<in> set xs \<Longrightarrow> f x = Some c \<Longrightarrow> fst c \<noteq> ''''" "fst init = ''''"
    and "\<And>c. snd (k c) = fst c"
  shows "fst (foldl (\<lambda>b x. case f x of None \<Rightarrow> b | Some c \<Rightarrow> keep_best k b c) init xs) =
    fst (foldl (\<lambda>b y. case g y of None \<Rightarrow> b | Some c \<Rightarrow> keep_best k b c) init ys)"
proof -
  let ?cs = "List.map_filter f xs" and ?ds = "List.map_filter g ys"
  have s: "set ?cs = set ?ds" using assms(1) by (simp add: set_map_filter)
  have "fst c \<noteq> ''''" if "c \<in> set ?cs" for c
    using that assms(2) unfolding set_map_filter by blast
  then have n: "\<forall>c\<in>set ?cs. fst c \<noteq> ''''" "\<forall>c\<in>set ?ds. fst c \<noteq> ''''"
    unfolding s [symmetric] by blast+
  have e: "?cs = [] \<longleftrightarrow> ?ds = []" using s by (metis set_empty)
  have "fst (foldl (keep_best k) init ?cs) = fst (foldl (keep_best k) init ?ds)"
  proof (cases "?cs = []")
    case False
    then have "best_of k (set ?cs) (foldl (keep_best k) init ?cs)" "best_of k (set ?cs) (foldl (keep_best k) init ?ds)"
      using fold_keep_best [OF n(1) assms(3), of k] fold_keep_best [OF n(2) assms(3), of k] e s by simp_all
    then show ?thesis by (rule best_of_unique) (rule assms(4))+
  qed (use e in simp)
  then show ?thesis by (simp add: foldl_map_filter)
qed

subsection \<open>Model keys\<close>

definition colon_free :: "string \<Rightarrow> bool" where
  "colon_free n \<longleftrightarrow> CHR '':'' \<notin> set n"

lemma splitModelKey_ModelKey:
  assumes "colon_free n"
  shows "splitModelKey (ModelKey n v) = modelKeyFromParts n v"
proof -
  have "dropWhile (\<lambda>c. c \<noteq> CHR '':'') (n @ CHR '':'' # r) = CHR '':'' # r"
    "takeWhile (\<lambda>c. c \<noteq> CHR '':'') (n @ CHR '':'' # r) = n" for r
    using assms by (induction n) (auto simp: colon_free_def)
  then show ?thesis by (simp add: splitModelKey_def ModelKey_def modelKeyFromParts_def)
qed

lemma modelKeyFromParts_idem [simp]: "modelKeyFromParts (fst (modelKeyFromParts n v)) (snd (modelKeyFromParts n v)) = modelKeyFromParts n v"
  by (simp add: modelKeyFromParts_def)

lemma ModelKey_parts [simp]: "ModelKey (fst (modelKeyFromParts n v)) (snd (modelKeyFromParts n v)) = ModelKey n v"
  by (simp add: modelKeyFromParts_def ModelKey_def)

text \<open>A worker reports its cached models as keys built by \<open>ModelKey\<close> from names without a colon.\<close>

definition proper_worker :: "worker \<Rightarrow> bool" where
  "proper_worker w \<longleftrightarrow> wk_WorkerID w \<noteq> '''' \<and> distinct (map fst (wk_CachedModels w))
     \<and> (\<forall>k\<in>fst ` set (wk_CachedModels w). \<exists>n v. colon_free n \<and> k = ModelKey n v)"

lemma cached_model_view:
  assumes "proper_worker w" "colon_free name"
  shows "modelKeyFromParts name version \<in> set (wv_cachedModels (worker_view_of w)) \<longleftrightarrow> cached_model w (ModelKey name version)"
proof -
  let ?C = "wk_CachedModels w"
  have split: "(\<lambda>key. modelKeyFromParts (fst (splitModelKey key)) (snd (splitModelKey key))) k = splitModelKey k"
    if "k \<in> fst ` set ?C" for k
    using that assms(1) by (auto simp: proper_worker_def splitModelKey_ModelKey)
  have inj: "k = ModelKey name version" if k: "k \<in> fst ` set ?C" "splitModelKey k = modelKeyFromParts name version" for k
  proof -
    obtain n v where nv: "colon_free n" "k = ModelKey n v" using k(1) assms(1) unfolding proper_worker_def by blast
    then have "modelKeyFromParts n v = modelKeyFromParts name version" using k(2) by (simp add: splitModelKey_ModelKey)
    then show ?thesis using nv(2) ModelKey_parts [of n v] ModelKey_parts [of name version] by simp
  qed
  have "set (modelKeySet ?C) =
      (\<lambda>key. modelKeyFromParts (fst (splitModelKey key)) (snd (splitModelKey key))) ` {k. (k, True) \<in> set ?C}"
    by (force simp: modelKeySet_def)
  also have "\<dots> = splitModelKey ` {k. (k, True) \<in> set ?C}"
  proof (rule image_cong [OF refl])
    fix k assume "k \<in> {k. (k, True) \<in> set ?C}"
    then have "k \<in> fst ` set ?C" by (simp add: rev_image_eqI)
    then show "modelKeyFromParts (fst (splitModelKey k)) (snd (splitModelKey k)) = splitModelKey k" by (rule split)
  qed
  finally have "modelKeyFromParts name version \<in> set (wv_cachedModels (worker_view_of w)) \<longleftrightarrow>
      (\<exists>k. (k, True) \<in> set ?C \<and> splitModelKey k = modelKeyFromParts name version)"
    by (auto simp: worker_view_of_def intro: rev_image_eqI)
  also have "\<dots> \<longleftrightarrow> (ModelKey name version, True) \<in> set ?C"
  proof
    assume "\<exists>k. (k, True) \<in> set ?C \<and> splitModelKey k = modelKeyFromParts name version"
    then obtain k where k: "(k, True) \<in> set ?C" "splitModelKey k = modelKeyFromParts name version" by blast
    then have "k = ModelKey name version" by (intro inj) (simp_all add: rev_image_eqI)
    with k show "(ModelKey name version, True) \<in> set ?C" by simp
  qed (use splitModelKey_ModelKey [OF assms(2)] in blast)
  also have "\<dots> \<longleftrightarrow> cached_model w (ModelKey name version)"
    using assms(1) by (simp add: proper_worker_def cached_model_def)
  finally show ?thesis .
qed

lemma capacity_view: "hasCapacity (worker_view_of w) \<longleftrightarrow> workerHasCapacity w"
  by (simp add: hasCapacity_def workerHasCapacity_def worker_view_of_def)

lemma predictedLatencyMs_cong:
  "cached_model w mk = cached_model w' mk \<Longrightarrow> predictedLatencyMs w mk st = predictedLatencyMs w' mk st"
  by (simp add: predictedLatencyMs_def)

lemma view_score_worker:
  assumes "proper_worker w" "colon_free name" "workerHasCapacity w"
  shows "view_score ps (modelKeyFromParts name version) (wk_WorkerID w) (worker_view_of w) =
    predictedLatencyMs w (ModelKey name version) (placementStatsLocked ps (modelKeyFromParts name version) (wk_WorkerID w))"
  unfolding view_score_def predictedPlacementScore_def
  using assms(3) cached_model_view [OF assms(1,2), of version]
  by (simp add: capacity_view) (rule predictedLatencyMs_cong, simp add: cached_model_def)

subsection \<open>The indexed choice is the choice of the scan\<close>

lemma predicted_index_scan:
  assumes inv: "placement_inv views ps"
    and views: "map_of views = map_of (map (\<lambda>w. (wk_WorkerID w, worker_view_of w)) workers)"
      "distinct (map wk_WorkerID workers)"
    and workers: "\<forall>w\<in>set workers. proper_worker w" "colon_free name" "key = modelKeyFromParts name version"
    and bound: "\<forall>w\<in>set workers. workerHasCapacity w \<longrightarrow>
      predictedLatencyMs w (ModelKey name version) (placementStatsLocked ps key (wk_WorkerID w)) < 2 ^ 61"
  shows "snd (PreferredPredictedWorker views key d wt ps) =
    predicted_scan (ModelKey name version) (placementStatsLocked ps key) d wt workers"
proof -
  let ?mk = "ModelKey name version"
  obtain ps' hs where e: "ensureModelPlacementLocked views key ps = (ps', hs)" by fastforce
  have idx: "is_index predict_key (over_views (predict_entry ps key) (map_of views)) (mh_predicted hs)"
    using ensure_inv [OF inv e] by (simp add: heaps_current_def)
  have at: "map_of views (wk_WorkerID w) = Some (worker_view_of w)" if "w \<in> set workers" for w
    using that views(2) unfolding views(1) by (intro map_of_is_SomeI) (auto simp: comp_def)
  have from_view: "\<exists>w\<in>set workers. wk_WorkerID w = i \<and> v = worker_view_of w" if "map_of views i = Some v" for i v
    using that unfolding views(1) by (auto dest!: map_of_SomeD)
  have score: "view_score ps key (wk_WorkerID w) (worker_view_of w) = predictedLatencyMs w ?mk (placementStatsLocked ps key (wk_WorkerID w))"
    if "w \<in> set workers" "workerHasCapacity w" for w
    using view_score_worker [of w name ps version] that workers by simp
  have entry: "x \<in> set (ph_entries (mh_predicted hs)) \<longleftrightarrow> over_views (predict_entry ps key) (map_of views) (pe_workerID x) = Some x" for x
    using idx unfolding is_index_def by blast
  have cand: "predicted_cand (map_of views) key d wt x = scan_cand ?mk (placementStatsLocked ps key) d wt w"
    if "w \<in> set workers" "pe_workerID x = wk_WorkerID w" "workerHasCapacity w"
      "pe_predictScore x = view_score ps key (wk_WorkerID w) (worker_view_of w)" for x w
    using that at [OF that(1)] score [OF that(1,3)] cached_model_view [of w name version] workers
    by (simp add: predicted_cand_def scan_cand_def predicted_total_def capacity_view) (simp add: worker_view_of_def)
  have "{c. \<exists>x\<in>set (ph_entries (mh_predicted hs)). predicted_cand (map_of views) key d wt x = Some c} =
    {c. \<exists>w\<in>set workers. scan_cand ?mk (placementStatsLocked ps key) d wt w = Some c}" (is "?A = ?B")
  proof
    show "?A \<subseteq> ?B"
    proof
      fix c assume "c \<in> ?A"
      then obtain x where x: "x \<in> set (ph_entries (mh_predicted hs))" "predicted_cand (map_of views) key d wt x = Some c" by blast
      obtain v where v: "map_of views (pe_workerID x) = Some v" "hasCapacity v"
        using x(2) by (auto simp: predicted_cand_def split: option.splits if_splits)
      obtain w where w: "w \<in> set workers" "wk_WorkerID w = pe_workerID x" "v = worker_view_of w"
        using from_view [OF v(1)] by blast
      have "pe_predictScore x = view_score ps key (wk_WorkerID w) (worker_view_of w)"
      proof -
        have "predict_entry ps key (pe_workerID x) v = Some x" using x(1) entry [of x] v(1) by (simp add: over_views_def)
        then have "x = \<lparr>pe_workerID = pe_workerID x, pe_localityScore = 0, pe_predictScore = view_score ps key (pe_workerID x) v\<rparr>"
          by (simp add: predict_entry_def split: if_splits)
        then show ?thesis using w(2,3) by (metis placement_entry.select_convs(3))
      qed
      then have "scan_cand ?mk (placementStatsLocked ps key) d wt w = Some c"
        using cand [OF w(1) w(2) [symmetric]] v(2) w(3) x(2) by (simp add: capacity_view)
      with w(1) show "c \<in> ?B" by blast
    qed
    show "?B \<subseteq> ?A"
    proof
      fix c assume "c \<in> ?B"
      then obtain w where w: "w \<in> set workers" "scan_cand ?mk (placementStatsLocked ps key) d wt w = Some c" by blast
      have cap: "workerHasCapacity w" using w(2) by (auto simp: scan_cand_def split: if_splits)
      let ?x = "\<lparr>pe_workerID = wk_WorkerID w, pe_localityScore = 0, pe_predictScore = view_score ps key (wk_WorkerID w) (worker_view_of w)\<rparr>"
      have "over_views (predict_entry ps key) (map_of views) (pe_workerID ?x) = Some ?x"
        using at [OF w(1)] score [OF w(1) cap] bound w(1) cap by (simp add: over_views_def predict_entry_def)
      then have "?x \<in> set (ph_entries (mh_predicted hs))" using entry by blast
      moreover have "predicted_cand (map_of views) key d wt ?x = Some c"
        using cand [of w ?x] w cap by simp
      ultimately show "c \<in> ?A" by blast
    qed
  qed
  moreover have "fst c \<noteq> ''''" if cx: "predicted_cand (map_of views) key d wt x = Some c" for x c
  proof -
    obtain v where "map_of views (pe_workerID x) = Some v" "fst c = pe_workerID x"
      using cx by (auto simp: predicted_cand_def split: option.splits if_splits)
    then show ?thesis using from_view [of "pe_workerID x" v] workers(1) by (metis proper_worker_def)
  qed
  ultimately show ?thesis
    unfolding PreferredPredictedWorker_def predicted_scan_def predicted_step_cand predicted_scan_step_cand
    by (simp add: e) (rule same_candidates, simp_all add: low_rank_def)
qed

subsection \<open>The locality choice\<close>

text \<open>
  The rank by which the locality index chooses: warm workers before cold ones, then the higher
  score, then the smaller identifier.
\<close>

definition locality_rank :: "modelKey \<Rightarrow> string \<Rightarrow> worker_view \<Rightarrow> bool \<times> int \<times> string" where
  "locality_rank key w v = (key \<notin> set (wv_cachedModels v), - localityBaseScore v (key \<in> set (wv_cachedModels v)), w)"

lemma localityBaseScore_bound: "hasCapacity v \<longleftrightarrow> - (2 ^ 59) < localityBaseScore v hit"
proof (cases "hasCapacity v")
  case True
  define a b where "a = uint (wv_capacity v - wv_runningTasks v)" and "b = uint (wv_runningTasks v)"
  have ab: "0 \<le> a" "b < 2 ^ 32" using uint_lt2p [of "wv_runningTasks v"] by (simp_all add: a_def b_def)
  then have "- (2 ^ 59) < a * 100 - b * 10" "- (2 ^ 59) < a * 100 - b * 10 + 1000" by simp_all
  with True show ?thesis by (simp add: localityBaseScore_def Let_def a_def b_def)
qed (simp add: localityBaseScore_def)

lemma locality_list:
  assumes "heaps_current vs ps key hs" "h = (if warm then mh_cached hs else mh_cold hs)"
  shows "sorted (map locality_key (ph_entries h))"
    and "x \<in> set (ph_entries h) \<Longrightarrow> \<exists>v. vs (pe_workerID x) = Some v \<and> hasCapacity v
       \<and> (key \<in> set (wv_cachedModels v)) = warm \<and> pe_localityScore x = localityBaseScore v warm"
    and "vs w = Some v \<Longrightarrow> hasCapacity v \<Longrightarrow> (key \<in> set (wv_cachedModels v)) = warm \<Longrightarrow>
       \<exists>x\<in>set (ph_entries h). pe_workerID x = w \<and> pe_localityScore x = localityBaseScore v warm"
proof -
  have i: "is_index locality_key (over_views (locality_entry warm ps key) vs) h"
    using assms by (cases warm) (simp_all add: heaps_current_def)
  have entry: "y \<in> set (ph_entries h) \<longleftrightarrow> over_views (locality_entry warm ps key) vs (pe_workerID y) = Some y" for y
    using i unfolding is_index_def by blast
  show "sorted (map locality_key (ph_entries h))" using i by (simp add: is_index_def)
  show "\<exists>v. vs (pe_workerID x) = Some v \<and> hasCapacity v
       \<and> (key \<in> set (wv_cachedModels v)) = warm \<and> pe_localityScore x = localityBaseScore v warm"
    if x: "x \<in> set (ph_entries h)"
  proof -
    obtain v where v: "vs (pe_workerID x) = Some v" "locality_entry warm ps key (pe_workerID x) v = Some x"
      using x entry [of x] by (auto simp: over_views_def split: option.splits)
    then have "(key \<in> set (wv_cachedModels v)) = warm" "- (2 ^ 59) < localityBaseScore v warm"
      "x = \<lparr>pe_workerID = pe_workerID x, pe_localityScore = localityBaseScore v warm, pe_predictScore = view_score ps key (pe_workerID x) v\<rparr>"
      by (auto simp: locality_entry_def split: if_splits)
    then show ?thesis using v(1) localityBaseScore_bound [of v warm] by (metis placement_entry.select_convs(2))
  qed
  show "\<exists>x\<in>set (ph_entries h). pe_workerID x = w \<and> pe_localityScore x = localityBaseScore v warm"
    if "vs w = Some v" "hasCapacity v" "(key \<in> set (wv_cachedModels v)) = warm"
  proof -
    let ?x = "\<lparr>pe_workerID = w, pe_localityScore = localityBaseScore v warm, pe_predictScore = view_score ps key w v\<rparr>"
    have "over_views (locality_entry warm ps key) vs (pe_workerID ?x) = Some ?x"
      using that localityBaseScore_bound [of v warm] by (simp add: over_views_def locality_entry_def)
    then have "?x \<in> set (ph_entries h)" using entry by blast
    then show ?thesis by (rule rev_bexI) simp
  qed
qed

lemma sorted_find_least:
  assumes "sorted (map k xs)" "find P xs = Some x" "y \<in> set xs" "P y"
  shows "k x \<le> k y"
  using assms by (induction xs) (auto split: if_splits)

text \<open>The first warm worker with a free slot, in list order, is the best warm worker.\<close>

lemma best_warm:
  assumes "heaps_current vs ps key hs" "vs '''' = None" "r = bestWorkerID vs (mh_cached hs)"
  shows "if r = '''' then \<forall>w v. vs w = Some v \<and> hasCapacity v \<longrightarrow> key \<notin> set (wv_cachedModels v)
    else \<exists>v. vs r = Some v \<and> hasCapacity v \<and> key \<in> set (wv_cachedModels v)
      \<and> (\<forall>w' v'. vs w' = Some v' \<and> hasCapacity v' \<longrightarrow> locality_rank key r v \<le> locality_rank key w' v')"
proof -
  let ?P = "\<lambda>e. case vs (pe_workerID e) of Some view \<Rightarrow> hasCapacity view | None \<Rightarrow> False"
  let ?xs = "ph_entries (mh_cached hs)"
  note l = locality_list [OF assms(1), of "mh_cached hs" True, simplified]
  show ?thesis
  proof (cases "find ?P ?xs")
    case None
    then have none: "\<not> ?P x" if "x \<in> set ?xs" for x using that by (simp add: find_None_iff)
    have "key \<notin> set (wv_cachedModels v)" if v: "vs w = Some v" "hasCapacity v" for w v
    proof
      assume "key \<in> set (wv_cachedModels v)"
      then obtain x where "x \<in> set ?xs" "pe_workerID x = w" using l(3) [OF v] by blast
      then show False using none [of x] v by simp
    qed
    moreover have "r = ''''" by (simp add: assms(3) bestWorkerID_def None)
    ultimately show ?thesis by auto
  next
    case (Some e)
    have e: "e \<in> set ?xs" "?P e" using Some by (auto simp: find_Some_iff)
    have r: "r = pe_workerID e" by (simp add: assms(3) bestWorkerID_def Some)
    obtain v where v: "vs r = Some v" "hasCapacity v" "key \<in> set (wv_cachedModels v)" "pe_localityScore e = localityBaseScore v True"
      using l(2) [OF e(1)] r by blast
    have "locality_rank key r v \<le> locality_rank key w' v'" if w': "vs w' = Some v'" "hasCapacity v'" for w' v'
    proof (cases "key \<in> set (wv_cachedModels v')")
      case True
      obtain x where x: "x \<in> set ?xs" "pe_workerID x = w'" "pe_localityScore x = localityBaseScore v' True"
        using l(3) [OF w' True] by blast
      then have "locality_key e \<le> locality_key x"
        using sorted_find_least [OF l(1) Some, of x] w' by simp
      then show ?thesis using v True x r by (simp add: locality_rank_def locality_key_def)
    qed (use v in \<open>simp add: locality_rank_def\<close>)
    moreover have "r \<noteq> ''''" using v(1) assms(2) by auto
    ultimately show ?thesis using v by auto
  qed
qed

lemma hasCapacityLocked_best:
  assumes "heaps_current vs ps key hs" "vs '''' = None"
  shows "hasCapacityLocked vs (mh_cached hs) \<longleftrightarrow> bestWorkerID vs (mh_cached hs) \<noteq> ''''"
proof (cases "find (\<lambda>e. case vs (pe_workerID e) of Some view \<Rightarrow> hasCapacity view | None \<Rightarrow> False) (ph_entries (mh_cached hs))")
  case None
  then have "bestWorkerID vs (mh_cached hs) = ''''" by (simp add: bestWorkerID_def)
  with None show ?thesis by (auto simp: hasCapacityLocked_def list_ex_iff find_None_iff)
next
  case (Some e)
  then have "e \<in> set (ph_entries (mh_cached hs))" "case vs (pe_workerID e) of Some view \<Rightarrow> hasCapacity view | None \<Rightarrow> False"
    by (auto simp: find_Some_iff)
  moreover from this have "pe_workerID e \<noteq> ''''" using assms(2) by (auto split: option.splits)
  ultimately show ?thesis using Some by (auto simp: hasCapacityLocked_def bestWorkerID_def list_ex_iff)
qed

lemma best_cold:
  assumes "heaps_current vs ps key hs" "vs '''' = None"
    and cold: "\<And>w v. vs w = Some v \<Longrightarrow> hasCapacity v \<Longrightarrow> key \<notin> set (wv_cachedModels v)"
    and "r = fst (foldl (locality_step vs False) ('''', - (2 ^ 60)) (ph_entries (mh_cold hs)))"
  shows "if r = '''' then \<forall>w v. vs w = Some v \<longrightarrow> \<not> hasCapacity v
    else \<exists>v. vs r = Some v \<and> hasCapacity v
      \<and> (\<forall>w' v'. vs w' = Some v' \<and> hasCapacity v' \<longrightarrow> locality_rank key r v \<le> locality_rank key w' v')"
proof -
  let ?xs = "ph_entries (mh_cold hs)"
  let ?cs = "List.map_filter (locality_cand vs False) ?xs"
  let ?b = "foldl (keep_best high_rank) ('''', - (2 ^ 60)) ?cs"
  note l = locality_list [OF assms(1), of "mh_cold hs" False, simplified]
  have c: "c \<in> set ?cs \<longleftrightarrow> (\<exists>v. vs (fst c) = Some v \<and> hasCapacity v \<and> snd c = localityBaseScore v False)" for c
  proof
    assume "c \<in> set ?cs"
    then obtain x where x: "x \<in> set ?xs" "locality_cand vs False x = Some c" by (auto simp: set_map_filter)
    then show "\<exists>v. vs (fst c) = Some v \<and> hasCapacity v \<and> snd c = localityBaseScore v False"
      using l(2) [OF x(1)] by (auto simp: locality_cand_def)
  next
    assume "\<exists>v. vs (fst c) = Some v \<and> hasCapacity v \<and> snd c = localityBaseScore v False"
    then obtain v where v: "vs (fst c) = Some v" "hasCapacity v" "snd c = localityBaseScore v False" by blast
    then obtain x where "x \<in> set ?xs" "pe_workerID x = fst c" "pe_localityScore x = snd c" using l(3) [OF v(1,2) cold [OF v(1,2)]] by auto
    then show "c \<in> set ?cs" using v by (auto simp: set_map_filter locality_cand_def prod_eq_iff intro!: bexI [of _ x])
  qed
  have ne: "\<forall>c\<in>set ?cs. fst c \<noteq> ''''" using c assms(2) by force
  have r: "r = fst ?b" by (simp add: assms(4) locality_step_cand foldl_map_filter)
  show ?thesis
  proof (cases "?cs = []")
    case True
    then have "r = ''''" by (simp add: r)
    moreover have "\<not> hasCapacity v" if "vs w = Some v" for w v
      using c [of "(w, localityBaseScore v False)"] that True by simp
    ultimately show ?thesis by simp
  next
    case False
    then have b: "best_of high_rank (set ?cs) ?b" using fold_keep_best [OF ne, of "('''', - (2 ^ 60))" high_rank] by simp
    then have bi: "?b \<in> set ?cs" by (simp add: best_of_def)
    then have "r \<noteq> ''''" using ne r by simp
    obtain v where v: "vs r = Some v" "hasCapacity v" "snd ?b = localityBaseScore v False" using bi c [of ?b] r by blast
    have "locality_rank key r v \<le> locality_rank key w' v'" if w': "vs w' = Some v'" "hasCapacity v'" for w' v'
    proof -
      have "(w', localityBaseScore v' False) \<in> set ?cs" using c w' by simp
      then have "high_rank ?b \<le> high_rank (w', localityBaseScore v' False)" using b by (simp add: best_of_def)
      then show ?thesis using v cold [OF v(1,2)] cold [OF w'] r by (simp add: locality_rank_def high_rank_def)
    qed
    then show ?thesis using v \<open>r \<noteq> ''''\<close> by auto
  qed
qed

lemma preferred_locality_spec:
  assumes "placement_inv views ps" "r = snd (preferredLocalityFromPlacementLocked views key d wt ps)"
  shows "if r = '''' then \<forall>w v. map_of views w = Some v \<longrightarrow> \<not> hasCapacity v
    else \<exists>v. map_of views r = Some v \<and> hasCapacity v
      \<and> (\<forall>w' v'. map_of views w' = Some v' \<and> hasCapacity v' \<longrightarrow> locality_rank key r v \<le> locality_rank key w' v')"
proof -
  obtain ps' hs where e: "ensureModelPlacementLocked views key ps = (ps', hs)" by fastforce
  have cur: "heaps_current (map_of views) ps key hs" using ensure_inv [OF assms(1) e] by simp
  have ne: "map_of views '''' = None"
    using assms(1) by (auto simp: placement_inv_def views_ok_def map_of_eq_None_iff)
  let ?w = "bestWorkerID (map_of views) (mh_cached hs)"
  show ?thesis
  proof (cases "?w = ''''")
    case True
    have "hasCapacityLocked (map_of views) (mh_cached hs) = False" using hasCapacityLocked_best [OF cur ne] True by simp
    then have "r = fst (foldl (locality_step (map_of views) False) ('''', - (2 ^ 60)) (ph_entries (mh_cold hs)))"
      by (simp add: assms(2) preferredLocalityFromPlacementLocked_def e True Let_def)
    moreover have "key \<notin> set (wv_cachedModels v)" if "map_of views w = Some v" "hasCapacity v" for w v
      using best_warm [OF cur ne refl] that True by simp
    ultimately show ?thesis by (intro best_cold [OF cur ne])
  next
    case False
    then have "r = ?w" by (simp add: assms(2) preferredLocalityFromPlacementLocked_def e Let_def)
    then show ?thesis using best_warm [OF cur ne refl] False by auto
  qed
qed

lemma preferred_locality_delay:
  assumes "placement_inv views ps"
  shows "snd (preferredLocalityFromPlacementLocked views key d wt ps) = snd (preferredLocalityFromPlacementLocked views key d' wt' ps)"
    (is "?r = ?r'")
proof -
  note s = preferred_locality_spec [OF assms refl, of key d wt] preferred_locality_spec [OF assms refl, of key d' wt']
  show ?thesis
  proof (cases "?r = ''''")
    case True
    then show ?thesis using s by (metis (full_types))
  next
    case False
    then have "?r' \<noteq> ''''" using s by (metis (full_types))
    then show ?thesis using s False unfolding locality_rank_def by (metis (mono_tags, lifting) order_antisym prod.inject)
  qed
qed

lemma splitModelKey_first_colon:
  assumes "CHR '':'' \<notin> set a"
  shows "splitModelKey (a @ CHR '':'' # t) = (a, t)"
proof -
  have "\<forall>c\<in>set a. c \<noteq> CHR '':''" using assms by blast
  then show ?thesis by (simp add: splitModelKey_def takeWhile_append2 dropWhile_append2)
qed

text \<open>A cached model whose name contains a colon is never found under its own key.\<close>

lemma colon_name_never_cached:
  assumes "CHR '':'' \<in> set n"
  shows "modelKeyFromParts n v \<notin> set (modelKeySet [(ModelKey n v, True)])"
proof -
  obtain a b where n: "n = a @ CHR '':'' # b" "CHR '':'' \<notin> set a" using assms by (meson split_list_first)
  have "fst (splitModelKey (ModelKey n v)) = a"
    using splitModelKey_first_colon [OF n(2)] by (simp add: ModelKey_def n(1))
  then show ?thesis by (auto simp: modelKeySet_def modelKeyFromParts_def n(1))
qed

end
