(* ===== verification/Scheduler.thy ===== *)
theory Scheduler
  imports Task_Deque Lease_Heap Placement_Index
begin

text \<open>
  The indexed task scheduler (internal/control/scheduler.go): one FIFO queue per target worker,
  actor and model, a general queue, the table of queued tasks, the running leases and the worker
  views. Every exported method takes the scheduler's mutex for its whole body, so a method is one
  atomic step on the state; \<open>sched_step\<close> lists them.

  The queue of a key is reached through the owner map; the pointer the code passes around is the
  reference \<open>queue_ref\<close>, and pointer equality is equality of references.
\<close>

subsection \<open>State\<close>

datatype TaskKind = TaskKindGeneral | TaskKindTargetWorker | TaskKindActor | TaskKindLLM

record sched_meta =
  sm_TaskID :: string
  sm_TaskType :: TaskKind
  sm_TargetWorker :: string
  sm_ActorID :: string
  sm_CommandSeq :: u64
  sm_ModelName :: string
  sm_ModelVersion :: string
  sm_CreatedAtMs :: i64
  sm_LeaseEpoch :: u64
  sm_RunningWorker :: string

record worker_snapshot =
  ws_WorkerID :: string
  ws_ActorIDs :: "string list"
  ws_ActorNextSeq :: "string \<rightharpoonup> u64"
  ws_CachedModels :: "modelKey list"

datatype schedulerDecision = schedulerSkip | schedulerAssign | schedulerDrop

record model_placement =
  mp_cachedWorkers :: "string list"
  mp_coldWorkers :: "string list"

record scheduler =
  sc_readyGeneral :: task_deque
  sc_byTarget :: "(string \<times> task_deque) list"
  sc_actorPending :: "(string \<times> task_deque) list"
  sc_llmByModel :: "(modelKey \<times> task_deque) list"
  sc_taskMeta :: "string \<rightharpoonup> sched_meta"
  sc_queued :: "(string \<times> TaskKind) list"
  sc_runningLeases :: "string \<rightharpoonup> running_lease"
  sc_deadlines :: "running_lease list"
  sc_workerViews :: views
  sc_placement :: "(modelKey \<times> model_placement) list"
  sc_llmPlacement :: placement_store

definition newScheduler :: scheduler where
  "newScheduler =
     \<lparr>sc_readyGeneral = empty_deque, sc_byTarget = [], sc_actorPending = [], sc_llmByModel = [],
      sc_taskMeta = Map.empty, sc_queued = [], sc_runningLeases = Map.empty, sc_deadlines = [],
      sc_workerViews = [], sc_placement = [], sc_llmPlacement = newModelPlacementStore\<rparr>"

subsection \<open>Queues\<close>

datatype queue_ref = QGeneral | QTarget string | QActor string | QLLM modelKey

fun queue_at :: "scheduler \<Rightarrow> queue_ref \<Rightarrow> task_deque option" where
  "queue_at s QGeneral = Some (sc_readyGeneral s)"
| "queue_at s (QTarget w) = map_of (sc_byTarget s) w"
| "queue_at s (QActor a) = map_of (sc_actorPending s) a"
| "queue_at s (QLLM k) = map_of (sc_llmByModel s) k"

fun set_queue :: "queue_ref \<Rightarrow> task_deque \<Rightarrow> scheduler \<Rightarrow> scheduler" where
  "set_queue QGeneral q s = s\<lparr>sc_readyGeneral := q\<rparr>"
| "set_queue (QTarget w) q s = s\<lparr>sc_byTarget := AList.update w q (sc_byTarget s)\<rparr>"
| "set_queue (QActor a) q s = s\<lparr>sc_actorPending := AList.update a q (sc_actorPending s)\<rparr>"
| "set_queue (QLLM k) q s = s\<lparr>sc_llmByModel := AList.update k q (sc_llmByModel s)\<rparr>"

definition schedulerTaskKind :: "sched_meta \<Rightarrow> TaskKind" where
  "schedulerTaskKind meta =
     (if sm_ActorID meta \<noteq> '''' then TaskKindActor
      else if sm_TargetWorker meta \<noteq> '''' then TaskKindTargetWorker
      else if sm_ModelName meta \<noteq> '''' then TaskKindLLM
      else TaskKindGeneral)"

fun queue_ref_of :: "TaskKind \<Rightarrow> sched_meta \<Rightarrow> queue_ref" where
  "queue_ref_of TaskKindTargetWorker meta = QTarget (sm_TargetWorker meta)"
| "queue_ref_of TaskKindActor meta = QActor (sm_ActorID meta)"
| "queue_ref_of TaskKindLLM meta = QLLM (modelKeyFromParts (sm_ModelName meta) (sm_ModelVersion meta))"
| "queue_ref_of TaskKindGeneral meta = QGeneral"

definition queueForLocked :: "sched_meta \<Rightarrow> scheduler \<Rightarrow> task_deque" where
  "queueForLocked meta s =
     (case queue_at s (queue_ref_of (sm_TaskType meta) meta) of Some q \<Rightarrow> q | None \<Rightarrow> empty_deque)"

definition maybeCleanupQueueLocked :: "queue_ref \<Rightarrow> TaskKind \<Rightarrow> sched_meta \<Rightarrow> scheduler \<Rightarrow> scheduler" where
  "maybeCleanupQueueLocked ref kind meta s =
     (case queue_at s ref of
        None \<Rightarrow> s
      | Some q \<Rightarrow>
          if deque_Len q > 0 then s
          else (case kind of
                  TaskKindActor \<Rightarrow>
                    if sm_ActorID meta \<noteq> '''' \<and> ref = QActor (sm_ActorID meta)
                    then s\<lparr>sc_actorPending := AList.delete (sm_ActorID meta) (sc_actorPending s)\<rparr> else s
                | TaskKindTargetWorker \<Rightarrow>
                    if sm_TargetWorker meta \<noteq> '''' \<and> ref = QTarget (sm_TargetWorker meta)
                    then s\<lparr>sc_byTarget := AList.delete (sm_TargetWorker meta) (sc_byTarget s)\<rparr> else s
                | TaskKindLLM \<Rightarrow>
                    let key = modelKeyFromParts (sm_ModelName meta) (sm_ModelVersion meta)
                    in if ref = QLLM key then s\<lparr>sc_llmByModel := AList.delete key (sc_llmByModel s)\<rparr> else s
                | TaskKindGeneral \<Rightarrow> s))"

definition live_meta :: "scheduler \<Rightarrow> TaskKind \<Rightarrow> string \<Rightarrow> sched_meta option" where
  "live_meta s kind taskID =
     (case (sc_taskMeta s taskID, map_of (sc_queued s) taskID) of
        (Some meta, Some queuedKind) \<Rightarrow> if queuedKind \<noteq> kind then None else Some meta
      | _ \<Rightarrow> None)"

definition pop_queue :: "queue_ref \<Rightarrow> scheduler \<Rightarrow> scheduler" where
  "pop_queue ref s = (case queue_at s ref of None \<Rightarrow> s | Some q \<Rightarrow> set_queue ref (fst (PopFront q)) s)"

definition queue_Len :: "scheduler \<Rightarrow> queue_ref \<Rightarrow> nat" where
  "queue_Len s ref = (case queue_at s ref of None \<Rightarrow> 0 | Some q \<Rightarrow> deque_Len q)"

lemma queue_at_set_queue [simp]: "queue_at (set_queue ref q s) ref' = (if ref' = ref then Some q else queue_at s ref')"
  by (cases ref; cases ref') (auto simp: update_conv')

lemma queue_at_ignores [simp]:
  "queue_at (s\<lparr>sc_queued := x\<rparr>) ref = queue_at s ref" "queue_at (s\<lparr>sc_taskMeta := y\<rparr>) ref = queue_at s ref"
  "queue_at (s\<lparr>sc_runningLeases := r\<rparr>) ref = queue_at s ref" "queue_at (s\<lparr>sc_deadlines := d\<rparr>) ref = queue_at s ref"
  "queue_at (s\<lparr>sc_llmPlacement := p\<rparr>) ref = queue_at s ref"
  by (cases ref; simp)+

lemma queue_at_cleanup:
  "queue_at (maybeCleanupQueueLocked ref kind meta s) ref' =
     (if ref' = ref \<and> ref \<noteq> QGeneral \<and> queue_Len s ref = 0 \<and> ref = queue_ref_of kind meta
        \<and> \<not> (kind = TaskKindActor \<and> sm_ActorID meta = '''') \<and> \<not> (kind = TaskKindTargetWorker \<and> sm_TargetWorker meta = '''')
      then None else queue_at s ref')"
  by (cases kind; cases ref'; cases "queue_at s ref")
     (auto simp: maybeCleanupQueueLocked_def queue_Len_def delete_conv' Let_def)

lemma deque_Len_PopFront: "deque_Len q \<noteq> 0 \<Longrightarrow> deque_Len (fst (PopFront q)) = deque_Len q - 1"
  by (simp add: deque_list_Len PopFront_list)

lemma queue_Len_pop: "queue_Len s ref \<noteq> 0 \<Longrightarrow> queue_Len (pop_queue ref s) ref < queue_Len s ref"
  by (auto simp: queue_Len_def pop_queue_def deque_Len_PopFront split: option.splits)

lemma queue_Len_cleanup: "queue_Len (maybeCleanupQueueLocked ref kind meta s) ref \<le> queue_Len s ref"
  by (simp add: queue_Len_def queue_at_cleanup)

lemma queue_Len_ignores [simp]:
  "queue_Len (s\<lparr>sc_queued := x\<rparr>) ref = queue_Len s ref" "queue_Len (s\<lparr>sc_taskMeta := y\<rparr>) ref = queue_Len s ref"
  by (simp_all add: queue_Len_def)

text \<open>The loop of \<open>nextFromQueueLocked\<close>.\<close>

function nextFromQueueLocked ::
  "queue_ref \<Rightarrow> TaskKind \<Rightarrow> (sched_meta \<Rightarrow> schedulerDecision) \<Rightarrow> scheduler \<Rightarrow> scheduler \<times> sched_meta option" where
  "nextFromQueueLocked ref kind check s =
     (if queue_Len s ref = 0 then (s, None)
      else let taskID = the (Option.bind (queue_at s ref) Front)
           in case live_meta s kind taskID of
                None \<Rightarrow> nextFromQueueLocked ref kind check (pop_queue ref s)
              | Some meta \<Rightarrow>
                  (case check meta of
                     schedulerDrop \<Rightarrow>
                       let s1 = pop_queue ref s;
                           s2 = s1\<lparr>sc_queued := AList.delete taskID (sc_queued s1)\<rparr>;
                           s3 = s2\<lparr>sc_taskMeta := (sc_taskMeta s2)(taskID := None)\<rparr>
                       in nextFromQueueLocked ref kind check (maybeCleanupQueueLocked ref kind meta s3)
                   | schedulerSkip \<Rightarrow> (s, None)
                   | schedulerAssign \<Rightarrow>
                       let s1 = pop_queue ref s;
                           s2 = s1\<lparr>sc_queued := AList.delete taskID (sc_queued s1)\<rparr>
                       in (maybeCleanupQueueLocked ref kind meta s2, Some meta)))"
  by pat_completeness auto
termination
proof (relation "measure (\<lambda>(ref, kind, check, s). queue_Len s ref)", goal_cases)
  case (3 ref kind check s taskID meta s1 s2 s3)
  have "queue_Len (maybeCleanupQueueLocked ref kind meta s3) ref \<le> queue_Len s1 ref"
    using queue_Len_cleanup [of ref kind meta s3] 3 by simp
  also have "\<dots> < queue_Len s ref" using queue_Len_pop 3 by simp
  finally show ?case by simp
qed (simp_all add: queue_Len_pop)

declare nextFromQueueLocked.simps [simp del]

text \<open>The loop of \<open>frontMetaLocked\<close>.\<close>

function frontMetaLocked :: "queue_ref \<Rightarrow> TaskKind \<Rightarrow> scheduler \<Rightarrow> scheduler \<times> sched_meta option" where
  "frontMetaLocked ref kind s =
     (if queue_Len s ref = 0 then (s, None)
      else let taskID = the (Option.bind (queue_at s ref) Front)
           in case live_meta s kind taskID of
                None \<Rightarrow> frontMetaLocked ref kind (pop_queue ref s)
              | Some meta \<Rightarrow> (s, Some meta))"
  by pat_completeness auto
termination by (relation "measure (\<lambda>(ref, kind, s). queue_Len s ref)") (simp_all add: queue_Len_pop)

declare frontMetaLocked.simps [simp del]

subsection \<open>Queueing\<close>

definition ensure_model :: "modelKey \<Rightarrow> scheduler \<Rightarrow> scheduler" where
  "ensure_model key s =
     s\<lparr>sc_llmPlacement := fst (ensureModelPlacementLocked (sc_workerViews s) key (sc_llmPlacement s))\<rparr>"

definition Enqueue :: "sched_meta \<Rightarrow> scheduler \<Rightarrow> scheduler" where
  "Enqueue meta0 s =
     (if sm_TaskID meta0 = '''' then s
      else let meta = meta0\<lparr>sm_TaskType := schedulerTaskKind meta0\<rparr>;
               s1 = s\<lparr>sc_taskMeta := (sc_taskMeta s)(sm_TaskID meta \<mapsto> meta)\<rparr>
           in if map_of (sc_queued s) (sm_TaskID meta) \<noteq> None then s1
              else let s2 = s1\<lparr>sc_queued := AList.update (sm_TaskID meta) (sm_TaskType meta) (sc_queued s1)\<rparr>;
                       s3 = (if sm_TaskType meta = TaskKindLLM
                             then ensure_model (modelKeyFromParts (sm_ModelName meta) (sm_ModelVersion meta)) s2 else s2)
                   in set_queue (queue_ref_of (sm_TaskType meta) meta) (PushBack (sm_TaskID meta) (queueForLocked meta s3)) s3)"

definition ReturnFront :: "sched_meta \<Rightarrow> scheduler \<Rightarrow> scheduler" where
  "ReturnFront meta0 s =
     (if sm_TaskID meta0 = '''' then s
      else let meta = meta0\<lparr>sm_TaskType := schedulerTaskKind meta0\<rparr>;
               s1 = s\<lparr>sc_taskMeta := (sc_taskMeta s)(sm_TaskID meta \<mapsto> meta)\<rparr>
           in if map_of (sc_queued s) (sm_TaskID meta) \<noteq> None then s1
              else let s2 = s1\<lparr>sc_queued := AList.update (sm_TaskID meta) (sm_TaskType meta) (sc_queued s1)\<rparr>
                   in set_queue (queue_ref_of (sm_TaskType meta) meta) (PushFront (sm_TaskID meta) (queueForLocked meta s2)) s2)"

definition Forget :: "string \<Rightarrow> scheduler \<Rightarrow> scheduler" where
  "Forget taskID s =
     (if taskID = '''' then s
      else s\<lparr>sc_taskMeta := (sc_taskMeta s)(taskID := None), sc_queued := AList.delete taskID (sc_queued s),
             sc_runningLeases := (sc_runningLeases s)(taskID := None)\<rparr>)"

definition QueueDepth :: "scheduler \<Rightarrow> nat" where
  "QueueDepth s = length (sc_queued s)"

definition ActorPendingActors :: "scheduler \<Rightarrow> nat" where
  "ActorPendingActors s = length (sc_actorPending s)"

definition WorkerCount :: "scheduler \<Rightarrow> nat" where
  "WorkerCount s = length (sc_workerViews s)"

subsection \<open>Assignment\<close>

definition localityQueueWait :: i64 where
  "localityQueueWait = 250"

definition cachedWorkerHasCapacityLocked :: "scheduler \<Rightarrow> modelKey \<Rightarrow> bool" where
  "cachedWorkerHasCapacityLocked s key =
     (case map_of (sc_placement s) key of
        None \<Rightarrow> False
      | Some placement \<Rightarrow>
          list_ex (\<lambda>w. case map_of (sc_workerViews s) w of Some view \<Rightarrow> hasCapacity view | None \<Rightarrow> False)
            (mp_cachedWorkers placement))"

definition queueSortMetaLocked :: "scheduler \<Rightarrow> modelKey \<Rightarrow> i64" where
  "queueSortMetaLocked s key =
     (case snd (frontMetaLocked (QLLM key) TaskKindLLM s) of
        None \<Rightarrow> 2 ^ 63 - 1
      | Some meta \<Rightarrow> sm_CreatedAtMs meta)"

definition candidate_step ::
  "modelKey list \<Rightarrow> i64 \<Rightarrow> scheduler \<times> modelKey list \<Rightarrow> modelKey \<Rightarrow> scheduler \<times> modelKey list" where
  "candidate_step seen nowMs = (\<lambda>(s, candidates) key.
     if queue_Len s (QLLM key) = 0 \<or> key \<in> set seen then (s, candidates)
     else case frontMetaLocked (QLLM key) TaskKindLLM s of
            (s', None) \<Rightarrow> (s', candidates)
          | (s', Some meta) \<Rightarrow>
              if cachedWorkerHasCapacityLocked s' key \<and> sub64 nowMs (sm_CreatedAtMs meta) < localityQueueWait
              then (s', candidates) else (s', candidates @ [key]))"

text \<open>
  The comparison of the final sort looks at the front of each candidate's queue and prunes stale
  entries there; with fewer than two candidates it is never called.
\<close>

definition llmCandidateModelsLocked :: "worker_snapshot \<Rightarrow> i64 \<Rightarrow> scheduler \<Rightarrow> scheduler \<times> modelKey list" where
  "llmCandidateModelsLocked snapshot nowMs s =
     (let seen = filter (\<lambda>key. queue_Len s (QLLM key) > 0) (ws_CachedModels snapshot);
          (s1, candidates) = foldl (candidate_step seen nowMs) (s, seen) (map fst (sc_llmByModel s));
          s2 = (if length candidates \<ge> 2
                then foldl (\<lambda>s key. fst (frontMetaLocked (QLLM key) TaskKindLLM s)) s1 candidates else s1)
      in (s2, sort_key (\<lambda>key. (queueSortMetaLocked s2 key, key)) candidates))"

definition actor_check ::
  "(sched_meta \<Rightarrow> schedulerDecision) \<Rightarrow> u64 \<Rightarrow> sched_meta \<Rightarrow> schedulerDecision" where
  "actor_check check nextSeq meta =
     (if sm_CommandSeq meta \<noteq> 0 \<and> nextSeq \<noteq> 0 \<and> sm_CommandSeq meta \<noteq> nextSeq then schedulerSkip else check meta)"

text \<open>Try queues in order until one yields a task.\<close>

fun first_of :: "(queue_ref \<times> TaskKind \<times> (sched_meta \<Rightarrow> schedulerDecision)) list \<Rightarrow> scheduler \<Rightarrow> scheduler \<times> sched_meta option" where
  "first_of [] s = (s, None)"
| "first_of ((ref, kind, check) # rest) s =
     (case nextFromQueueLocked ref kind check s of
        (s', Some meta) \<Rightarrow> (s', Some meta)
      | (s', None) \<Rightarrow> first_of rest s')"

definition Assign ::
  "worker_snapshot \<Rightarrow> i64 \<Rightarrow> (sched_meta \<Rightarrow> schedulerDecision) \<Rightarrow> scheduler \<Rightarrow> scheduler \<times> sched_meta option" where
  "Assign snapshot nowMs check s =
     (if ws_WorkerID snapshot = '''' then (s, None)
      else case first_of ((QTarget (ws_WorkerID snapshot), TaskKindTargetWorker, check) #
                  map (\<lambda>actorID. (QActor actorID, TaskKindActor,
                          actor_check check (case ws_ActorNextSeq snapshot actorID of Some n \<Rightarrow> n | None \<Rightarrow> 0)))
                    (ws_ActorIDs snapshot)) s of
             (s1, Some meta) \<Rightarrow> (s1, Some meta)
           | (s1, None) \<Rightarrow>
               let (s2, keys) = llmCandidateModelsLocked snapshot nowMs s1
               in first_of (map (\<lambda>key. (QLLM key, TaskKindLLM, check)) keys @ [(QGeneral, TaskKindGeneral, check)]) s2)"

subsection \<open>Leases\<close>

definition TrackRunning :: "string \<Rightarrow> i64 \<Rightarrow> u64 \<Rightarrow> scheduler \<Rightarrow> scheduler" where
  "TrackRunning taskID deadlineMs leaseEpoch s =
     (if taskID = '''' \<or> deadlineMs \<le> 0 \<or> leaseEpoch = 0 then s
      else let lease = RunningLease taskID deadlineMs leaseEpoch;
               s1 = s\<lparr>sc_runningLeases := (sc_runningLeases s)(taskID \<mapsto> lease),
                      sc_deadlines := heap_Push lease (sc_deadlines s)\<rparr>
           in case sc_taskMeta s1 taskID of
                None \<Rightarrow> s1
              | Some meta \<Rightarrow> s1\<lparr>sc_taskMeta := (sc_taskMeta s1)(taskID \<mapsto> meta\<lparr>sm_LeaseEpoch := leaseEpoch\<rparr>)\<rparr>)"

definition CompleteRunning :: "string \<Rightarrow> scheduler \<Rightarrow> scheduler" where
  "CompleteRunning taskID s =
     (if taskID = '''' then s
      else s\<lparr>sc_runningLeases := (sc_runningLeases s)(taskID := None), sc_taskMeta := (sc_taskMeta s)(taskID := None),
             sc_queued := AList.delete taskID (sc_queued s)\<rparr>)"

definition PopExpiredRunning :: "i64 \<Rightarrow> scheduler \<Rightarrow> scheduler \<times> running_lease list" where
  "PopExpiredRunning nowMs s =
     (let (running, deadlines, expired) = pop_expired nowMs (sc_runningLeases s) (sc_deadlines s) []
      in (s\<lparr>sc_runningLeases := running, sc_deadlines := deadlines\<rparr>, expired))"

subsection \<open>Workers\<close>

definition sortedModelKeys :: "modelKey list \<Rightarrow> modelKey list" where
  "sortedModelKeys source = sort source"

definition sortedWorkerIDs :: "views \<Rightarrow> string list" where
  "sortedWorkerIDs source = sort (map fst source)"

definition addWorkerPlacementLocked :: "worker_view \<Rightarrow> scheduler \<Rightarrow> scheduler" where
  "addWorkerPlacementLocked view s =
     s\<lparr>sc_placement := foldl (\<lambda>m key.
        let p = (case map_of m key of Some p \<Rightarrow> p | None \<Rightarrow> \<lparr>mp_cachedWorkers = [], mp_coldWorkers = []\<rparr>)
        in AList.update key \<lparr>mp_cachedWorkers = List.insert (wv_workerID view) (mp_cachedWorkers p),
             mp_coldWorkers = removeAll (wv_workerID view) (mp_coldWorkers p)\<rparr> m)
        (sc_placement s) (sortedModelKeys (wv_cachedModels view))\<rparr>"

definition removeWorkerPlacementLocked :: "worker_view \<Rightarrow> scheduler \<Rightarrow> scheduler" where
  "removeWorkerPlacementLocked view s =
     s\<lparr>sc_placement := filter (\<lambda>(key, p). \<not> (mp_cachedWorkers p = [] \<and> mp_coldWorkers p = []))
        (map (\<lambda>(key, p). (key, \<lparr>mp_cachedWorkers = removeAll (wv_workerID view) (mp_cachedWorkers p),
                               mp_coldWorkers = removeAll (wv_workerID view) (mp_coldWorkers p)\<rparr>)) (sc_placement s))\<rparr>"

definition UpsertWorker :: "worker \<Rightarrow> scheduler \<Rightarrow> scheduler" where
  "UpsertWorker w s =
     (if wk_WorkerID w = '''' then s
      else let (previous, s1) =
                 (case map_of (sc_workerViews s) (wk_WorkerID w) of
                    None \<Rightarrow> ([], s)
                  | Some prev \<Rightarrow>
                      let s' = removeWorkerPlacementLocked prev s
                      in (wv_cachedModels prev,
                          s'\<lparr>sc_llmPlacement := removeWorkerPlacementIndexLocked (wk_WorkerID w) (sc_llmPlacement s')\<rparr>));
               view = worker_view_of w;
               s2 = s1\<lparr>sc_workerViews := AList.update (wk_WorkerID w) view (sc_workerViews s1)\<rparr>;
               s3 = addWorkerPlacementLocked view s2
           in s3\<lparr>sc_llmPlacement :=
                refreshWorkerPlacementLocked (sc_workerViews s3) (wk_WorkerID w) view previous (sc_llmPlacement s3)\<rparr>)"

definition UpdateLLMStats :: "string \<Rightarrow> string \<Rightarrow> string \<Rightarrow> llm_worker_stats \<Rightarrow> scheduler \<Rightarrow> scheduler" where
  "UpdateLLMStats modelName modelVersion workerID stats s =
     (if workerID = '''' \<or> modelName = '''' then s
      else s\<lparr>sc_llmPlacement :=
             record_stats (sc_workerViews s) (modelKeyFromParts modelName modelVersion) workerID stats (sc_llmPlacement s)\<rparr>)"

definition SyncLLMStats :: "((string \<times> string \<times> string) \<times> llm_worker_stats) list \<Rightarrow> scheduler \<Rightarrow> scheduler" where
  "SyncLLMStats stats s = s\<lparr>sc_llmPlacement := syncLLMStatsLocked (sc_workerViews s) stats (sc_llmPlacement s)\<rparr>"

definition PreferLocality :: "modelKey \<Rightarrow> i64 \<Rightarrow> i64 \<Rightarrow> i64 \<Rightarrow> scheduler \<Rightarrow> scheduler \<times> string" where
  "PreferLocality key createdAtMs nowMs waitMs s =
     (let (ps, w) = PreferredLocalityWorker (sc_workerViews s) key createdAtMs nowMs waitMs (sc_llmPlacement s)
      in (s\<lparr>sc_llmPlacement := ps\<rparr>, w))"

definition PreferPredicted :: "modelKey \<Rightarrow> i64 \<Rightarrow> i64 \<Rightarrow> scheduler \<Rightarrow> scheduler \<times> string" where
  "PreferPredicted key queueDelayMs waitMs s =
     (let (ps, w) = PreferredPredictedWorker (sc_workerViews s) key queueDelayMs waitMs (sc_llmPlacement s)
      in (s\<lparr>sc_llmPlacement := ps\<rparr>, w))"

end
