(* ===== verification/Scheduler_Correct.thy ===== *)
theory Scheduler_Correct
  imports Scheduler
begin

text \<open>
  Correctness of the indexed scheduler. The queue facts come from the interface \<open>task_queue\<close>, the
  lease facts from \<open>priority_queue\<close> and the placement facts from \<open>Placement_Index\<close>; here they are
  put together into the invariant \<open>sched_inv\<close>, kept by every call, and the properties of every run
  (\<open>sched_run\<close>).
\<close>

subsection \<open>The list a queue holds\<close>

fun kind_of :: "queue_ref \<Rightarrow> TaskKind" where
  "kind_of QGeneral = TaskKindGeneral"
| "kind_of (QTarget w) = TaskKindTargetWorker"
| "kind_of (QActor a) = TaskKindActor"
| "kind_of (QLLM k) = TaskKindLLM"

definition entries :: "scheduler \<Rightarrow> queue_ref \<Rightarrow> string list" where
  "entries s ref = (case queue_at s ref of None \<Rightarrow> [] | Some q \<Rightarrow> deque_list q)"

definition queues_ok :: "scheduler \<Rightarrow> bool" where
  "queues_ok s \<longleftrightarrow> (\<forall>ref q. queue_at s ref = Some q \<longrightarrow> deque_inv q)"

text \<open>What the queue operations leave alone.\<close>

definition same_rest :: "scheduler \<Rightarrow> scheduler \<Rightarrow> bool" where
  "same_rest s s' \<longleftrightarrow> sc_runningLeases s' = sc_runningLeases s \<and> sc_deadlines s' = sc_deadlines s
     \<and> sc_workerViews s' = sc_workerViews s \<and> sc_llmPlacement s' = sc_llmPlacement s"

lemma same_rest_refl [simp]: "same_rest s s"
  by (simp add: same_rest_def)

lemma same_rest_trans: "same_rest s s' \<Longrightarrow> same_rest s' s'' \<Longrightarrow> same_rest s s''"
  by (simp add: same_rest_def)

lemma kind_of_ref [simp]: "kind_of (queue_ref_of k m) = k"
  by (cases k) simp_all

lemma set_queue_fields [simp]:
  "sc_taskMeta (set_queue ref q s) = sc_taskMeta s" "sc_queued (set_queue ref q s) = sc_queued s"
  "same_rest s (set_queue ref q s)"
  by (cases ref; simp add: same_rest_def)+

lemma pop_queue_fields [simp]:
  "sc_taskMeta (pop_queue ref s) = sc_taskMeta s" "sc_queued (pop_queue ref s) = sc_queued s"
  "same_rest s (pop_queue ref s)"
  by (simp_all add: pop_queue_def split: option.splits)

lemma cleanup_fields [simp]:
  "sc_taskMeta (maybeCleanupQueueLocked ref kind m s) = sc_taskMeta s"
  "sc_queued (maybeCleanupQueueLocked ref kind m s) = sc_queued s"
  "same_rest s (maybeCleanupQueueLocked ref kind m s)"
  by (auto simp: maybeCleanupQueueLocked_def same_rest_def Let_def split: option.splits TaskKind.splits)

lemma same_rest_update [simp]:
  "same_rest s (s'\<lparr>sc_queued := x\<rparr>) = same_rest s s'" "same_rest s (s'\<lparr>sc_taskMeta := y\<rparr>) = same_rest s s'"
  by (simp_all add: same_rest_def)

lemma queue_Len_entries: "queue_Len s ref = length (entries s ref)"
  by (simp add: queue_Len_def entries_def deque_list_Len split: option.splits)

lemma front_entries: "entries s ref = t # ts \<Longrightarrow> the (Option.bind (queue_at s ref) Front) = t"
  by (auto simp: entries_def deque_Front split: option.splits)

lemma entries_pop [simp]: "entries (pop_queue ref s) ref' = (if ref' = ref then tl (entries s ref) else entries s ref')"
  by (auto simp: entries_def pop_queue_def PopFront_list split: option.splits)

lemma entries_ignores [simp]:
  "entries (s\<lparr>sc_queued := x\<rparr>) ref = entries s ref" "entries (s\<lparr>sc_taskMeta := y\<rparr>) ref = entries s ref"
  by (simp_all add: entries_def)

lemma entries_cleanup [simp]: "entries (maybeCleanupQueueLocked ref kind m s) ref' = entries s ref'"
  using queue_Len_entries [of s ref] by (auto simp: entries_def queue_at_cleanup)

lemma entries_set_queue [simp]: "entries (set_queue ref q s) ref' = (if ref' = ref then deque_list q else entries s ref')"
  by (simp add: entries_def)

lemma queues_ok_pop: "queues_ok s \<Longrightarrow> queues_ok (pop_queue ref s)"
  by (auto simp: queues_ok_def pop_queue_def PopFront_inv split: option.splits if_splits)

lemma queues_ok_cleanup: "queues_ok s \<Longrightarrow> queues_ok (maybeCleanupQueueLocked ref kind m s)"
  by (auto simp: queues_ok_def queue_at_cleanup split: if_splits)

lemma queues_ok_ignores [simp]:
  "queues_ok (s\<lparr>sc_queued := x\<rparr>) = queues_ok s" "queues_ok (s\<lparr>sc_taskMeta := y\<rparr>) = queues_ok s"
  by (simp_all add: queues_ok_def)

lemma live_meta_pop [simp]: "live_meta (pop_queue ref s) = live_meta s"
  by (simp add: live_meta_def fun_eq_iff)

lemma live_meta_cleanup [simp]: "live_meta (maybeCleanupQueueLocked ref kind m s) = live_meta s"
  by (simp add: live_meta_def fun_eq_iff)

lemma live_meta_Some: "live_meta s kind t = Some m \<longleftrightarrow> sc_taskMeta s t = Some m \<and> map_of (sc_queued s) t = Some kind"
  by (auto simp: live_meta_def split: option.splits)

subsection \<open>One queue\<close>

text \<open>
  The first entry of a queue that is live and that the caller does not drop decides the result.
  Everything before it leaves the queue: stale entries and dropped tasks. The outcome on a queue
  with the given entries is what is left, what goes, what is returned.
\<close>

fun next_outcome ::
  "scheduler \<Rightarrow> TaskKind \<Rightarrow> (sched_meta \<Rightarrow> schedulerDecision) \<Rightarrow> string list \<Rightarrow> string list \<times> string set \<times> string option" where
  "next_outcome s kind check [] = ([], {}, None)"
| "next_outcome s kind check (t # ts) =
     (case live_meta s kind t of
        None \<Rightarrow> next_outcome s kind check ts
      | Some m \<Rightarrow>
          (case check m of
             schedulerDrop \<Rightarrow> (case next_outcome s kind check ts of (left, gone, r) \<Rightarrow> (left, insert t gone, r))
           | schedulerSkip \<Rightarrow> (t # ts, {}, None)
           | schedulerAssign \<Rightarrow> (ts, {}, Some t)))"

lemma next_outcome_cong:
  assumes "\<And>t. t \<in> set ts \<Longrightarrow> t \<notin> D \<Longrightarrow> live_meta s' kind t = live_meta s kind t"
    and "\<And>t. t \<in> D \<Longrightarrow> live_meta s' kind t = None"
    and "\<And>t. t \<in> D \<Longrightarrow> \<exists>m. live_meta s kind t = Some m \<and> check m = schedulerDrop"
    and "next_outcome s kind check ts = (left, gone, r)"
  shows "\<exists>gone'. next_outcome s' kind check ts = (left, gone', r) \<and> gone' \<union> D = gone \<union> D"
  using assms(1,4)
proof (induction ts arbitrary: left gone r)
  case (Cons t ts)
  obtain l g r' where o: "next_outcome s kind check ts = (l, g, r')" by (metis prod_cases3)
  have IH: "\<exists>g'. next_outcome s' kind check ts = (l, g', r') \<and> g' \<union> D = g \<union> D"
    using Cons.IH [OF _ o] Cons.prems(1) by auto
  then obtain g' where g': "next_outcome s' kind check ts = (l, g', r')" "g' \<union> D = g \<union> D" by blast
  show ?case
  proof (cases "t \<in> D")
    case True
    then obtain m where "live_meta s kind t = Some m" "check m = schedulerDrop" using assms(3) by blast
    then show ?thesis using Cons.prems(2) g' assms(2) [OF True] True by (auto simp: o)
  next
    case False
    then have e: "live_meta s' kind t = live_meta s kind t" using Cons.prems(1) by simp
    show ?thesis using Cons.prems(2) g' by (auto simp: o e split: option.splits schedulerDecision.splits)
  qed
qed auto

lemma next_outcome_Some:
  "next_outcome s kind check ts = (left, gone, r) \<Longrightarrow> r = Some t \<Longrightarrow>
     \<exists>m. live_meta s kind t = Some m \<and> check m = schedulerAssign \<and> t \<in> set ts"
  by (induction ts arbitrary: left gone) (auto split: option.splits schedulerDecision.splits prod.splits)

lemma next_spec:
  assumes "nextFromQueueLocked ref kind check s = (s', res)" "next_outcome s kind check (entries s ref) = (left, gone, r)"
  shows "entries s' ref' = (if ref' = ref then left else entries s ref')
    \<and> res = Option.bind r (live_meta s kind)
    \<and> map_of (sc_queued s') = (\<lambda>t. if t \<in> gone \<or> r = Some t then None else map_of (sc_queued s) t)
    \<and> sc_taskMeta s' = (\<lambda>t. if t \<in> gone then None else sc_taskMeta s t)
    \<and> same_rest s s' \<and> (queues_ok s \<longrightarrow> queues_ok s') \<and> (distinct (map fst (sc_queued s)) \<longrightarrow> distinct (map fst (sc_queued s')))"
  using assms
proof (induction ref kind check s arbitrary: left gone r rule: nextFromQueueLocked.induct)
  case (1 ref kind check s)
  show ?case
  proof (cases "entries s ref")
    case Nil
    then show ?thesis using "1.prems" by (simp add: nextFromQueueLocked.simps [of ref] queue_Len_entries fun_eq_iff)
  next
    case (Cons t ts)
    have n: "queue_Len s ref \<noteq> 0" by (simp add: queue_Len_entries Cons)
    note front = front_entries [OF Cons]
    show ?thesis
    proof (cases "live_meta s kind t")
      case None
      have o: "next_outcome (pop_queue ref s) kind check (entries (pop_queue ref s) ref) = (left, gone, r)"
      proof -
        obtain g' where "next_outcome (pop_queue ref s) kind check ts = (left, g', r)" "g' \<union> {} = gone \<union> {}"
          using next_outcome_cong [of ts "{}" "pop_queue ref s" kind s check left gone r] "1.prems"(2)
          by (auto simp: Cons None)
        then show ?thesis by (simp add: Cons)
      qed
      have nx: "nextFromQueueLocked ref kind check (pop_queue ref s) = (s', res)"
        using "1.prems"(1) n None by (simp add: nextFromQueueLocked.simps [of ref kind check s] front)
      from "1.IH"(1) [OF n front [symmetric] None nx o] show ?thesis
        using same_rest_trans [of s "pop_queue ref s" s'] queues_ok_pop [of s ref] by auto
    next
      case (Some m)
      have q: "map_of (sc_queued s) t = Some kind" "sc_taskMeta s t = Some m" using Some by (simp_all add: live_meta_Some)
      show ?thesis
      proof (cases "check m")
        case schedulerSkip
        have "s' = s" "res = None" using "1.prems"(1) n schedulerSkip
          by (simp_all add: nextFromQueueLocked.simps [of ref kind check s] front Some)
        moreover have "left = t # ts" "gone = {}" "r = None" using "1.prems"(2) schedulerSkip by (simp_all add: Cons Some)
        ultimately show ?thesis by (simp add: Cons)
      next
        case schedulerAssign
        let ?s1 = "pop_queue ref s"
        let ?s2 = "?s1\<lparr>sc_queued := AList.delete t (sc_queued ?s1)\<rparr>"
        have e: "s' = maybeCleanupQueueLocked ref kind m ?s2" "res = Some m"
          using "1.prems"(1) n schedulerAssign
          by (simp_all add: nextFromQueueLocked.simps [of ref kind check s] front Some Let_def)
        have "left = ts" "gone = {}" "r = Some t" using "1.prems"(2) schedulerAssign by (simp_all add: Cons Some)
        then show ?thesis using same_rest_trans [of s ?s2 s'] cleanup_fields(3) [of ?s2 ref kind m]
          queues_ok_cleanup [of ?s2 ref kind m] queues_ok_pop [of s ref]
          by (auto simp: e Cons Some delete_conv' fun_eq_iff distinct_delete)
      next
        case schedulerDrop
        let ?s1 = "pop_queue ref s"
        let ?s2 = "?s1\<lparr>sc_queued := AList.delete t (sc_queued ?s1)\<rparr>"
        let ?s3 = "?s2\<lparr>sc_taskMeta := (sc_taskMeta ?s2)(t := None)\<rparr>"
        let ?s4 = "maybeCleanupQueueLocked ref kind m ?s3"
        have nx: "nextFromQueueLocked ref kind check ?s4 = (s', res)"
          using "1.prems"(1) n schedulerDrop
          by (simp add: nextFromQueueLocked.simps [of ref kind check s] front Some Let_def)
        obtain g where g: "next_outcome s kind check ts = (left, g, r)" "gone = insert t g"
          using "1.prems"(2) schedulerDrop by (auto simp: Cons Some split: prod.splits)
        have lm: "live_meta ?s4 kind x = (if x = t then None else live_meta s kind x)" for x
          by (simp add: live_meta_def delete_conv')
        obtain g' where g': "next_outcome ?s4 kind check ts = (left, g', r)" "g' \<union> {t} = g \<union> {t}"
        proof -
          have "\<exists>g'. next_outcome ?s4 kind check ts = (left, g', r) \<and> g' \<union> {t} = g \<union> {t}"
            by (rule next_outcome_cong [OF _ _ _ g(1)]) (simp_all only: lm Some schedulerDrop, simp_all add: Some schedulerDrop)
          then show thesis using that by blast
        qed
        have o: "next_outcome ?s4 kind check (entries ?s4 ref) = (left, g', r)" using g'(1) by (simp add: Cons)
        note IH = "1.IH"(2) [OF n front [symmetric] Some schedulerDrop refl refl refl nx o]
        have gone: "x \<in> gone \<longleftrightarrow> x = t \<or> x \<in> g'" for x using g(2) g'(2) by blast
        have "r \<noteq> Some t" using next_outcome_Some [OF g(1), of t] Some schedulerDrop by auto
        then have "Option.bind r (live_meta ?s4 kind) = Option.bind r (live_meta s kind)"
          by (cases r) (simp_all only: Option.bind.simps lm, simp_all)
        moreover have "same_rest s ?s4" using same_rest_trans [of s ?s3 ?s4] by simp
        moreover have "queues_ok s \<longrightarrow> queues_ok ?s4"
          using queues_ok_cleanup [of ?s3 ref kind m] queues_ok_pop [of s ref] by simp
        ultimately show ?thesis using IH same_rest_trans [of s ?s4 s']
          by (auto simp: gone Cons delete_conv' fun_eq_iff distinct_delete)
      qed
    qed
  qed
qed

subsection \<open>The invariant of the queues\<close>

text \<open>
  Every queued task has metadata under its own identifier and an entry in some queue of the kind it
  was queued under; no task is marked queued and out of reach of the loops.
\<close>

definition queue_inv :: "scheduler \<Rightarrow> bool" where
  "queue_inv s \<longleftrightarrow> queues_ok s \<and> distinct (map fst (sc_queued s))
     \<and> (\<forall>t m. sc_taskMeta s t = Some m \<longrightarrow> sm_TaskID m = t)
     \<and> (\<forall>t k. map_of (sc_queued s) t = Some k \<longrightarrow>
          sc_taskMeta s t \<noteq> None \<and> (\<exists>ref. kind_of ref = k \<and> t \<in> set (entries s ref)))"

text \<open>
  What an assignment pass may change: tasks leave the queued table only when they are returned or
  dropped by the caller's check, and metadata goes only with a drop.
\<close>

definition assign_effect ::
  "(sched_meta \<Rightarrow> schedulerDecision) \<Rightarrow> scheduler \<Rightarrow> scheduler \<Rightarrow> sched_meta option \<Rightarrow> bool" where
  "assign_effect check s s' res \<longleftrightarrow>
     (\<forall>t. map_of (sc_queued s') t = map_of (sc_queued s) t \<and> sc_taskMeta s' t = sc_taskMeta s t
        \<or> map_of (sc_queued s') t = None \<and> sc_taskMeta s' t = sc_taskMeta s t \<and> (\<exists>m. res = Some m \<and> sm_TaskID m = t)
        \<or> map_of (sc_queued s') t = None \<and> sc_taskMeta s' t = None
            \<and> (\<exists>m. sc_taskMeta s t = Some m \<and> check m = schedulerDrop))
     \<and> (\<forall>m. res = Some m \<longrightarrow> sc_taskMeta s (sm_TaskID m) = Some m \<and> map_of (sc_queued s) (sm_TaskID m) \<noteq> None
          \<and> map_of (sc_queued s') (sm_TaskID m) = None \<and> check m = schedulerAssign)"

lemma assign_effect_refl [simp]: "assign_effect check s s None"
  by (simp add: assign_effect_def)

lemma assign_effect_queued:
  "assign_effect check s s' res \<Longrightarrow> map_of (sc_queued s') t = map_of (sc_queued s) t \<or> map_of (sc_queued s') t = None"
  unfolding assign_effect_def by (elim conjE allE [of _ t]) auto

lemma assign_effect_result:
  "assign_effect check s s' res \<Longrightarrow> res = Some m \<Longrightarrow>
     map_of (sc_queued s) (sm_TaskID m) \<noteq> None \<and> map_of (sc_queued s') (sm_TaskID m) = None"
  unfolding assign_effect_def by simp

lemma assign_effect_none:
  "assign_effect check s s' None \<Longrightarrow> \<forall>m. check m \<noteq> schedulerDrop \<Longrightarrow>
     map_of (sc_queued s') = map_of (sc_queued s) \<and> sc_taskMeta s' = sc_taskMeta s"
  unfolding assign_effect_def by (auto simp: fun_eq_iff)

lemma assign_effect_trans:
  assumes 1: "assign_effect check s s1 None" and 2: "assign_effect check s1 s2 res"
  shows "assign_effect check s s2 res"
proof -
  have a: "map_of (sc_queued s1) t = map_of (sc_queued s) t \<and> sc_taskMeta s1 t = sc_taskMeta s t
        \<or> map_of (sc_queued s1) t = None \<and> sc_taskMeta s1 t = None \<and> (\<exists>m. sc_taskMeta s t = Some m \<and> check m = schedulerDrop)" for t
    using 1 by (simp add: assign_effect_def)
  have b: "map_of (sc_queued s2) t = map_of (sc_queued s1) t \<and> sc_taskMeta s2 t = sc_taskMeta s1 t
        \<or> map_of (sc_queued s2) t = None \<and> sc_taskMeta s2 t = sc_taskMeta s1 t \<and> (\<exists>m. res = Some m \<and> sm_TaskID m = t)
        \<or> map_of (sc_queued s2) t = None \<and> sc_taskMeta s2 t = None
            \<and> (\<exists>m. sc_taskMeta s1 t = Some m \<and> check m = schedulerDrop)" for t
    using 2 by (simp add: assign_effect_def)
  have c: "sc_taskMeta s1 (sm_TaskID m) = Some m \<and> map_of (sc_queued s1) (sm_TaskID m) \<noteq> None
          \<and> map_of (sc_queued s2) (sm_TaskID m) = None \<and> check m = schedulerAssign" if "res = Some m" for m
    using 2 that by (simp add: assign_effect_def)
  show ?thesis unfolding assign_effect_def
  proof (intro conjI allI impI)
    fix t
    show "map_of (sc_queued s2) t = map_of (sc_queued s) t \<and> sc_taskMeta s2 t = sc_taskMeta s t
        \<or> map_of (sc_queued s2) t = None \<and> sc_taskMeta s2 t = sc_taskMeta s t \<and> (\<exists>m. res = Some m \<and> sm_TaskID m = t)
        \<or> map_of (sc_queued s2) t = None \<and> sc_taskMeta s2 t = None
            \<and> (\<exists>m. sc_taskMeta s t = Some m \<and> check m = schedulerDrop)"
      using a [of t] b [of t] c by (elim disjE conjE exE) auto
  next
    fix m assume r: "res = Some m"
    from a [of "sm_TaskID m"] c [OF r] show "sc_taskMeta s (sm_TaskID m) = Some m" by auto
    from a [of "sm_TaskID m"] c [OF r] show "map_of (sc_queued s) (sm_TaskID m) \<noteq> None" by auto
    from c [OF r] show "map_of (sc_queued s2) (sm_TaskID m) = None" "check m = schedulerAssign" by simp_all
  qed
qed

lemma assign_effect_weaken:
  assumes "assign_effect check' s s' res" "\<And>m. check' m = schedulerDrop \<Longrightarrow> check m = schedulerDrop"
    "\<And>m. check' m = schedulerAssign \<Longrightarrow> check m = schedulerAssign"
  shows "assign_effect check s s' res"
proof -
  have "(\<exists>m. x = Some m \<and> check' m = schedulerDrop) \<Longrightarrow> (\<exists>m. x = Some m \<and> check m = schedulerDrop)" for x
    using assms(2) by blast
  then show ?thesis using assms(1,3) unfolding assign_effect_def by (metis (no_types, lifting))
qed

lemma next_left:
  assumes "next_outcome s kind check ts = (left, gone, r)" "t \<in> set ts" "live_meta s kind t \<noteq> None"
  shows "t \<in> set left \<or> t \<in> gone \<or> r = Some t"
  using assms by (induction ts arbitrary: left gone) (auto split: option.splits schedulerDecision.splits prod.splits)

lemma next_gone:
  assumes "next_outcome s kind check ts = (left, gone, r)" "t \<in> gone"
  shows "\<exists>m. live_meta s kind t = Some m \<and> check m = schedulerDrop"
  using assms by (induction ts arbitrary: left gone) (auto split: option.splits schedulerDecision.splits prod.splits)

lemma next_inv:
  assumes inv: "queue_inv s" and kind: "kind = kind_of ref" and nx: "nextFromQueueLocked ref kind check s = (s', res)"
  shows "queue_inv s' \<and> same_rest s s' \<and> assign_effect check s s' res"
proof -
  obtain left gone r where o: "next_outcome s kind check (entries s ref) = (left, gone, r)" by (metis prod_cases3)
  note sp = next_spec [OF nx o]
  have e: "entries s' ref' = (if ref' = ref then left else entries s ref')" for ref' using sp by blast
  have q: "map_of (sc_queued s') = (\<lambda>t. if t \<in> gone \<or> r = Some t then None else map_of (sc_queued s) t)"
    and m: "sc_taskMeta s' = (\<lambda>t. if t \<in> gone then None else sc_taskMeta s t)"
    and res: "res = Option.bind r (live_meta s kind)" and rest: "same_rest s s'"
    and ok: "queues_ok s'" "distinct (map fst (sc_queued s'))"
    using sp inv by (auto simp: queue_inv_def)
  have id: "sm_TaskID x = t" if "sc_taskMeta s t = Some x" for t x using inv that by (simp add: queue_inv_def)
  have "sc_taskMeta s' t \<noteq> None \<and> (\<exists>ref. kind_of ref = k \<and> t \<in> set (entries s' ref))"
    if t: "map_of (sc_queued s') t = Some k" for t k
  proof -
    have tq: "map_of (sc_queued s) t = Some k" "t \<notin> gone" "r \<noteq> Some t" using t by (auto simp: q split: if_splits)
    obtain ref' where r': "kind_of ref' = k" "t \<in> set (entries s ref')" and tm: "sc_taskMeta s t \<noteq> None"
      using inv tq(1) unfolding queue_inv_def by blast
    have "t \<in> set (entries s' ref')"
    proof (cases "ref' = ref")
      case True
      then have "live_meta s kind t \<noteq> None" using tm tq(1) r'(1) kind by (auto simp: live_meta_def)
      then show ?thesis using next_left [OF o, of t] True r'(2) tq by (simp add: e)
    qed (use r'(2) in \<open>simp add: e\<close>)
    then show ?thesis using r'(1) tm tq(2) by (auto simp: m)
  qed
  then have "queue_inv s'" using ok id unfolding queue_inv_def by (auto simp: m split: if_splits)
  moreover have "assign_effect check s s' res"
  proof -
    have r1: "\<exists>x. live_meta s kind t = Some x \<and> check x = schedulerAssign \<and> res = Some x \<and> sm_TaskID x = t" if "r = Some t" for t
      using next_outcome_Some [OF o that] id that by (auto simp: res live_meta_Some)
    have g1: "\<exists>x. sc_taskMeta s t = Some x \<and> check x = schedulerDrop" if "t \<in> gone" for t
      using next_gone [OF o that] by (auto simp: live_meta_Some)
    have rr: "\<exists>t. r = Some t \<and> live_meta s kind t = Some x" if "res = Some x" for x
      using that by (auto simp: res Option.bind_eq_Some_conv)
    show ?thesis unfolding assign_effect_def
    proof (intro conjI allI impI, goal_cases)
      case (1 t)
      then show ?case using r1 [of t] g1 [of t] by (cases "t \<in> gone"; cases "r = Some t") (auto simp: q m)
    next
      case (2 x)
      then show ?case using rr [OF 2] id by (auto simp: live_meta_Some)
    next
      case (3 x)
      then show ?case using rr [OF 3] id by (auto simp: live_meta_Some)
    next
      case (4 x)
      then show ?case using rr [OF 4] id by (auto simp: q live_meta_Some)
    next
      case (5 x)
      then show ?case using rr [OF 5] r1 by auto
    qed
  qed
  ultimately show ?thesis using rest by simp
qed

lemma front_pop_inv:
  assumes "queue_inv s" "entries s ref = t # ts" "live_meta s (kind_of ref) t = None"
  shows "queue_inv (pop_queue ref s)"
proof -
  have "\<exists>ref'. kind_of ref' = k \<and> x \<in> set (entries (pop_queue ref s) ref')" if x: "map_of (sc_queued s) x = Some k" for x k
  proof -
    obtain ref' where r: "kind_of ref' = k" "x \<in> set (entries s ref')" "sc_taskMeta s x \<noteq> None"
      using assms(1) x unfolding queue_inv_def by blast
    have "\<not> (ref' = ref \<and> x = t)" using assms(3) r x by (auto simp: live_meta_def)
    then show ?thesis using r assms(2) by (intro exI [of _ ref']) auto
  qed
  then show ?thesis using assms(1) by (simp add: queue_inv_def queues_ok_pop)
qed

lemma frontMeta_inv:
  assumes "queue_inv s" "kind = kind_of ref" "frontMetaLocked ref kind s = (s', r)"
  shows "queue_inv s' \<and> same_rest s s' \<and> assign_effect check s s' None
    \<and> (\<forall>ref'. ref' \<noteq> ref \<longrightarrow> entries s' ref' = entries s ref')"
  using assms
proof (induction ref kind s rule: frontMetaLocked.induct)
  case (1 ref kind s)
  show ?case
  proof (cases "entries s ref")
    case Nil
    then show ?thesis using "1.prems" by (simp add: frontMetaLocked.simps [of ref] queue_Len_entries)
  next
    case (Cons t ts)
    have n: "queue_Len s ref \<noteq> 0" by (simp add: queue_Len_entries Cons)
    note front = front_entries [OF Cons]
    show ?thesis
    proof (cases "live_meta s kind t")
      case None
      have nx: "frontMetaLocked ref kind (pop_queue ref s) = (s', r)"
        using "1.prems"(3) n None by (simp add: frontMetaLocked.simps [of ref kind s] front)
      have inv: "queue_inv (pop_queue ref s)" using front_pop_inv [OF "1.prems"(1) Cons] None "1.prems"(2) by simp
      have eff: "assign_effect check s (pop_queue ref s) None" by (simp add: assign_effect_def)
      from "1.IH" [OF n front [symmetric] None inv "1.prems"(2) nx]
      have "queue_inv s'" "same_rest (pop_queue ref s) s'" "assign_effect check (pop_queue ref s) s' None"
        "\<forall>ref'. ref' \<noteq> ref \<longrightarrow> entries s' ref' = entries s ref'" by auto
      then show ?thesis using same_rest_trans [of s "pop_queue ref s" s'] assign_effect_trans [OF eff] by simp
    next
      case (Some m)
      have "s' = s" using "1.prems"(3) n Some by (simp add: frontMetaLocked.simps [of ref kind s] front)
      then show ?thesis using "1.prems"(1) by simp
    qed
  qed
qed

text \<open>A chain of passes: invariant, untouched fields, accumulated effect.\<close>

definition pass_ok :: "(sched_meta \<Rightarrow> schedulerDecision) \<Rightarrow> scheduler \<Rightarrow> scheduler \<Rightarrow> sched_meta option \<Rightarrow> bool" where
  "pass_ok check s s' res \<longleftrightarrow> queue_inv s' \<and> same_rest s s' \<and> assign_effect check s s' res"

lemma pass_ok_refl: "queue_inv s \<Longrightarrow> pass_ok check s s None"
  by (simp add: pass_ok_def)

lemma pass_ok_trans: "pass_ok check s s1 None \<Longrightarrow> pass_ok check s1 s2 res \<Longrightarrow> pass_ok check s s2 res"
  using same_rest_trans assign_effect_trans unfolding pass_ok_def by blast

lemma pass_ok_inv: "pass_ok check s s' res \<Longrightarrow> queue_inv s'"
  by (simp add: pass_ok_def)

lemma frontMeta_pass: "queue_inv s \<Longrightarrow> pass_ok check s (fst (frontMetaLocked (QLLM key) TaskKindLLM s)) None"
  using frontMeta_inv [of s TaskKindLLM "QLLM key"] by (auto simp: pass_ok_def prod_eq_iff)

lemma candidates_pass:
  assumes "queue_inv s" "llmCandidateModelsLocked snapshot nowMs s = (s', keys)"
  shows "pass_ok check s s' None"
proof -
  have step: "pass_ok check s0 (fst (candidate_step seen nowMs (s0, cs) key)) None" if "queue_inv s0" for s0 cs seen key
    using frontMeta_pass [OF that, of check key] that
    by (auto simp: candidate_step_def pass_ok_refl split: prod.splits option.splits)
  have fold1: "pass_ok check s0 (fst (foldl (candidate_step seen nowMs) (s0, cs) ks)) None" if "queue_inv s0" for s0 cs seen ks
    using that
  proof (induction ks arbitrary: s0 cs)
    case (Cons k ks)
    obtain s1 cs1 where c: "candidate_step seen nowMs (s0, cs) k = (s1, cs1)" by fastforce
    have 1: "pass_ok check s0 s1 None" using step [OF Cons.prems, of seen cs k] by (simp add: c)
    show ?case using pass_ok_trans [OF 1 Cons.IH [OF pass_ok_inv [OF 1]]] by (simp add: c)
  qed (simp add: pass_ok_refl)
  have fold2: "pass_ok check s0 (foldl (\<lambda>s key. fst (frontMetaLocked (QLLM key) TaskKindLLM s)) s0 ks) None"
    if "queue_inv s0" for s0 ks
    using that
  proof (induction ks arbitrary: s0)
    case (Cons k ks)
    have 1: "pass_ok check s0 (fst (frontMetaLocked (QLLM k) TaskKindLLM s0)) None" by (rule frontMeta_pass [OF Cons.prems])
    show ?case using pass_ok_trans [OF 1 Cons.IH [OF pass_ok_inv [OF 1]]] by simp
  qed (simp add: pass_ok_refl)
  let ?seen = "filter (\<lambda>key. queue_Len s (QLLM key) > 0) (ws_CachedModels snapshot)"
  obtain s1 cs where f: "foldl (candidate_step ?seen nowMs) (s, ?seen) (map fst (sc_llmByModel s)) = (s1, cs)" by fastforce
  have 1: "pass_ok check s s1 None" using fold1 [OF assms(1), of ?seen ?seen "map fst (sc_llmByModel s)"] f by simp
  have s': "s' = (if length cs \<ge> 2 then foldl (\<lambda>s key. fst (frontMetaLocked (QLLM key) TaskKindLLM s)) s1 cs else s1)"
    using assms(2) f by (auto simp: llmCandidateModelsLocked_def Let_def)
  then show ?thesis using 1 pass_ok_trans [OF 1 fold2 [OF pass_ok_inv [OF 1], of cs]] by simp
qed

lemma first_of_pass:
  assumes "queue_inv s" "first_of qs s = (s', res)"
    and "\<And>ref kind c. (ref, kind, c) \<in> set qs \<Longrightarrow> kind = kind_of ref
      \<and> (\<forall>m. (c m = schedulerDrop \<longrightarrow> check m = schedulerDrop) \<and> (c m = schedulerAssign \<longrightarrow> check m = schedulerAssign))"
  shows "pass_ok check s s' res"
  using assms
proof (induction qs arbitrary: s)
  case (Cons x qs)
  obtain ref kind c where x: "x = (ref, kind, c)" by (metis prod_cases3)
  obtain s1 r1 where n: "nextFromQueueLocked ref kind c s = (s1, r1)" by fastforce
  have k: "kind = kind_of ref" and c: "\<And>m. c m = schedulerDrop \<Longrightarrow> check m = schedulerDrop"
      "\<And>m. c m = schedulerAssign \<Longrightarrow> check m = schedulerAssign"
    using Cons.prems(3) [of ref kind c] by (auto simp: x)
  note ni = next_inv [OF Cons.prems(1) k n]
  have 1: "pass_ok check s s1 r1" using ni assign_effect_weaken [of c s s1 r1 check] c by (auto simp: pass_ok_def)
  show ?case
  proof (cases r1)
    case None
    have "pass_ok check s1 s' res"
      by (rule Cons.IH) (use Cons.prems pass_ok_inv [OF 1] in \<open>auto simp: x n None\<close>)
    then show ?thesis using pass_ok_trans 1 None by blast
  next
    case (Some m)
    then show ?thesis using Cons.prems(2) 1 by (simp add: x n)
  qed
qed (simp add: pass_ok_refl)

lemma actor_checkD: "actor_check check n m = d \<Longrightarrow> d \<noteq> schedulerSkip \<Longrightarrow> check m = d"
  by (simp add: actor_check_def split: if_splits)

lemma Assign_pass:
  assumes "queue_inv s" "Assign snapshot nowMs check s = (s', res)"
  shows "pass_ok check s s' res"
proof (cases "ws_WorkerID snapshot = ''''")
  case True
  then show ?thesis using assms by (simp add: Assign_def pass_ok_refl)
next
  case False
  define qs where "qs = (QTarget (ws_WorkerID snapshot), TaskKindTargetWorker, check) #
                  map (\<lambda>actorID. (QActor actorID, TaskKindActor,
                          actor_check check (case ws_ActorNextSeq snapshot actorID of Some n \<Rightarrow> n | None \<Rightarrow> 0)))
                    (ws_ActorIDs snapshot)"
  obtain s1 r1 where f1: "first_of qs s = (s1, r1)" by fastforce
  have p1: "pass_ok check s s1 r1"
    by (rule first_of_pass [OF assms(1) f1]) (auto simp: qs_def dest: actor_checkD)
  show ?thesis
  proof (cases r1)
    case (Some m)
    then show ?thesis using p1 assms(2) False f1 by (auto simp: Assign_def qs_def)
  next
    case None
    obtain s2 keys where c: "llmCandidateModelsLocked snapshot nowMs s1 = (s2, keys)" by fastforce
    let ?qs2 = "map (\<lambda>key. (QLLM key, TaskKindLLM, check)) keys @ [(QGeneral, TaskKindGeneral, check)]"
    have f2: "first_of ?qs2 s2 = (s', res)" using assms(2) False f1 None by (simp add: Assign_def qs_def c)
    have p2: "pass_ok check s1 s2 None" by (rule candidates_pass [OF pass_ok_inv [OF p1] c])
    have p3: "pass_ok check s2 s' res" by (rule first_of_pass [OF pass_ok_inv [OF p2] f2]) auto
    show ?thesis using pass_ok_trans [OF p1 [unfolded None] pass_ok_trans [OF p2 p3]] .
  qed
qed

subsection \<open>The invariant of the scheduler\<close>

definition sched_inv :: "scheduler \<Rightarrow> bool" where
  "sched_inv s \<longleftrightarrow> queue_inv s \<and> leases_tracked (sc_runningLeases s) (sc_deadlines s)
     \<and> placement_inv (sc_workerViews s) (sc_llmPlacement s)"

lemma sched_inv_new: "sched_inv newScheduler"
proof -
  have "queue_at newScheduler ref = Some q \<Longrightarrow> q = empty_deque" for ref q
    by (cases ref) (simp_all add: newScheduler_def)
  then have "queues_ok newScheduler" unfolding queues_ok_def using td.inv_empty by blast
  moreover have "sc_taskMeta newScheduler = Map.empty" "sc_queued newScheduler = []" "sc_runningLeases newScheduler = Map.empty"
    "sc_deadlines newScheduler = []" "placement_inv (sc_workerViews newScheduler) (sc_llmPlacement newScheduler)"
    by (simp_all add: newScheduler_def new_placement_inv)
  ultimately show ?thesis by (simp add: sched_inv_def queue_inv_def leases_tracked_def is_heap_def)
qed

text \<open>Adding an entry for a task that is not queued.\<close>

lemma queue_inv_push:
  assumes "queue_inv s" "sm_TaskID m = t" "kind_of ref = k"
    and "deque_inv q" "deque_list q = xs" "set xs = insert t (set (entries s ref))"
    and "s' = set_queue ref q (s\<lparr>sc_taskMeta := (sc_taskMeta s)(t \<mapsto> m), sc_queued := AList.update t k (sc_queued s),
      sc_llmPlacement := p\<rparr>)"
  shows "queue_inv s'"
proof -
  let ?s = "s\<lparr>sc_taskMeta := (sc_taskMeta s)(t \<mapsto> m), sc_queued := AList.update t k (sc_queued s), sc_llmPlacement := p\<rparr>"
  have at: "queue_at ?s r = queue_at s r" for r by (cases r) simp_all
  then have en: "entries ?s r = entries s r" for r by (simp add: entries_def)
  have sub: "set (entries s r) \<subseteq> set (entries s' r)" for r using assms(5,6) by (auto simp: assms(7) en)
  have "queues_ok s'" using assms(1,4) by (auto simp: queues_ok_def queue_inv_def assms(7) at)
  moreover have "\<exists>r. kind_of r = j \<and> x \<in> set (entries s' r)" if x: "map_of (sc_queued s') x = Some j" for x j
  proof (cases "x = t")
    case True
    then have "j = k" using x by (simp add: assms(7) update_conv')
    moreover have "t \<in> set (entries s' ref)" using assms(5,6) by (simp add: assms(7))
    ultimately show ?thesis using True assms(3) by blast
  next
    case False
    then have "map_of (sc_queued s) x = Some j" using x by (simp add: assms(7) update_conv')
    then obtain r where "kind_of r = j" "x \<in> set (entries s r)" using assms(1) unfolding queue_inv_def by blast
    then show ?thesis using sub [of r] by blast
  qed
  moreover have "sc_taskMeta s' x \<noteq> None" if "map_of (sc_queued s') x = Some j" for x j
    using that assms(1) by (auto simp: assms(7) update_conv' queue_inv_def split: if_splits)
  ultimately show ?thesis using assms(1,2)
    by (auto simp: queue_inv_def assms(7) update_conv' distinct_update split: if_splits)
qed

lemma queue_inv_meta:
  assumes "queue_inv s" "sm_TaskID m = t"
  shows "queue_inv (s\<lparr>sc_taskMeta := (sc_taskMeta s)(t \<mapsto> m)\<rparr>)"
  using assms unfolding queue_inv_def by auto

lemma queue_inv_cong:
  assumes "queue_inv s" "sc_taskMeta s' = sc_taskMeta s" "sc_queued s' = sc_queued s" "\<And>ref. queue_at s' ref = queue_at s ref"
  shows "queue_inv s'"
  using assms by (simp add: queue_inv_def queues_ok_def entries_def)

lemma queue_inv_forget:
  assumes "queue_inv s"
  shows "queue_inv (s\<lparr>sc_taskMeta := (sc_taskMeta s)(t := None), sc_queued := AList.delete t (sc_queued s)\<rparr>)"
  using assms unfolding queue_inv_def by (auto simp: delete_conv' distinct_delete)

lemma queueForLocked_entries: "sm_TaskType m = k \<Longrightarrow> deque_list (queueForLocked m s) = entries s (queue_ref_of k m)"
  by (simp add: queueForLocked_def entries_def split: option.splits)

lemma queueForLocked_inv: "queues_ok s \<Longrightarrow> deque_inv (queueForLocked m s)"
  by (auto simp: queueForLocked_def queues_ok_def split: option.splits)

lemma Enqueue_inv:
  assumes "sched_inv s"
  shows "sched_inv (Enqueue m0 s)"
proof -
  let ?m = "m0\<lparr>sm_TaskType := schedulerTaskKind m0\<rparr>"
  let ?t = "sm_TaskID m0" and ?k = "schedulerTaskKind m0"
  have q: "queue_inv s" and pi: "placement_inv (sc_workerViews s) (sc_llmPlacement s)" using assms by (simp_all add: sched_inv_def)
  consider "?t = ''''" | "?t \<noteq> ''''" "map_of (sc_queued s) ?t \<noteq> None" | "?t \<noteq> ''''" "map_of (sc_queued s) ?t = None" by blast
  then show ?thesis
  proof cases
    case 2
    then show ?thesis using assms queue_inv_meta [OF q, of ?m ?t] by (auto simp: Enqueue_def Let_def sched_inv_def)
  next
    case 3
    define p where "p = (if ?k = TaskKindLLM
      then fst (ensureModelPlacementLocked (sc_workerViews s) (modelKeyFromParts (sm_ModelName m0) (sm_ModelVersion m0)) (sc_llmPlacement s))
      else sc_llmPlacement s)"
    define s3 where "s3 = s\<lparr>sc_taskMeta := (sc_taskMeta s)(?t \<mapsto> ?m), sc_queued := AList.update ?t ?k (sc_queued s), sc_llmPlacement := p\<rparr>"
    have e: "Enqueue m0 s = set_queue (queue_ref_of ?k ?m) (PushBack ?t (queueForLocked ?m s3)) s3"
      using 3 by (simp add: Enqueue_def Let_def s3_def p_def ensure_model_def)
    have at: "queue_at s3 r = queue_at s r" for r by (cases r) (simp_all add: s3_def)
    have ok: "queues_ok s3" using q by (simp add: queues_ok_def queue_inv_def at)
    have l: "deque_list (PushBack ?t (queueForLocked ?m s3)) = entries s (queue_ref_of ?k ?m) @ [?t]"
      using queueForLocked_inv [OF ok] by (simp add: queueForLocked_entries entries_def at)
    have "queue_inv (Enqueue m0 s)"
      by (rule queue_inv_push [OF q, of ?m ?t "queue_ref_of ?k ?m" ?k _ _ _ p, OF _ _ _ l])
         (use queueForLocked_inv [OF ok] in \<open>auto simp: e s3_def\<close>)
    moreover have "placement_inv (sc_workerViews s) p"
      using pi ensure_inv [OF pi] by (auto simp: p_def prod_eq_iff)
    moreover have "same_rest s3 (Enqueue m0 s)" by (simp add: e)
    ultimately show ?thesis using assms by (simp add: sched_inv_def same_rest_def s3_def)
  qed (use assms in \<open>simp add: Enqueue_def\<close>)
qed

lemma ReturnFront_inv:
  assumes "sched_inv s"
  shows "sched_inv (ReturnFront m0 s)"
proof -
  let ?m = "m0\<lparr>sm_TaskType := schedulerTaskKind m0\<rparr>"
  let ?t = "sm_TaskID m0" and ?k = "schedulerTaskKind m0"
  have q: "queue_inv s" using assms by (simp add: sched_inv_def)
  consider "?t = ''''" | "?t \<noteq> ''''" "map_of (sc_queued s) ?t \<noteq> None" | "?t \<noteq> ''''" "map_of (sc_queued s) ?t = None" by blast
  then show ?thesis
  proof cases
    case 2
    then show ?thesis using assms queue_inv_meta [OF q, of ?m ?t] by (auto simp: ReturnFront_def Let_def sched_inv_def)
  next
    case 3
    define s3 where "s3 = s\<lparr>sc_taskMeta := (sc_taskMeta s)(?t \<mapsto> ?m), sc_queued := AList.update ?t ?k (sc_queued s), sc_llmPlacement := sc_llmPlacement s\<rparr>"
    have e: "ReturnFront m0 s = set_queue (queue_ref_of ?k ?m) (PushFront ?t (queueForLocked ?m s3)) s3"
      using 3 by (simp add: ReturnFront_def Let_def s3_def)
    have at: "queue_at s3 r = queue_at s r" for r by (cases r) (simp_all add: s3_def)
    have ok: "queues_ok s3" using q by (simp add: queues_ok_def queue_inv_def at)
    have l: "deque_list (PushFront ?t (queueForLocked ?m s3)) = ?t # entries s (queue_ref_of ?k ?m)"
      using queueForLocked_inv [OF ok] by (simp add: queueForLocked_entries entries_def at)
    have "queue_inv (ReturnFront m0 s)"
      by (rule queue_inv_push [OF q, of ?m ?t "queue_ref_of ?k ?m" ?k _ _ _ "sc_llmPlacement s", OF _ _ _ l])
         (use queueForLocked_inv [OF ok] in \<open>auto simp: e s3_def\<close>)
    moreover have "same_rest s3 (ReturnFront m0 s)" by (simp add: e)
    ultimately show ?thesis using assms by (simp add: sched_inv_def same_rest_def s3_def)
  qed (use assms in \<open>simp add: ReturnFront_def\<close>)
qed

lemma sched_inv_rest:
  assumes "sched_inv s" "queue_inv s'" "same_rest s s'"
  shows "sched_inv s'"
  using assms by (simp add: sched_inv_def same_rest_def)

lemma Forget_inv: "sched_inv s \<Longrightarrow> sched_inv (Forget t s)"
  using queue_inv_forget [of s t] leases_tracked_delete
  by (auto simp: sched_inv_def Forget_def intro: queue_inv_cong [OF queue_inv_forget [of s t]])

lemma CompleteRunning_inv: "sched_inv s \<Longrightarrow> sched_inv (CompleteRunning t s)"
  using queue_inv_forget [of s t] leases_tracked_delete
  by (auto simp: sched_inv_def CompleteRunning_def intro: queue_inv_cong [OF queue_inv_forget [of s t]])

lemma Assign_inv: "sched_inv s \<Longrightarrow> Assign snapshot nowMs check s = (s', res) \<Longrightarrow> sched_inv s'"
  using Assign_pass sched_inv_rest unfolding pass_ok_def sched_inv_def by blast

lemma TrackRunning_inv:
  assumes "sched_inv s"
  shows "sched_inv (TrackRunning t dl ep s)"
proof (cases "t = '''' \<or> dl \<le> 0 \<or> ep = 0")
  case False
  let ?l = "RunningLease t dl ep"
  let ?s1 = "s\<lparr>sc_runningLeases := (sc_runningLeases s)(t \<mapsto> ?l), sc_deadlines := heap_Push ?l (sc_deadlines s)\<rparr>"
  have q: "queue_inv s" using assms by (simp add: sched_inv_def)
  have q1: "queue_inv ?s1" by (rule queue_inv_cong [OF q]) simp_all
  have 1: "sched_inv ?s1" using assms q1 leases_tracked_push by (simp add: sched_inv_def)
  show ?thesis
  proof (cases "sc_taskMeta s t")
    case None
    then show ?thesis using 1 False by (simp add: TrackRunning_def Let_def)
  next
    case (Some m)
    then have "sm_TaskID m = t" using q by (simp add: queue_inv_def)
    then have "queue_inv (?s1\<lparr>sc_taskMeta := (sc_taskMeta ?s1)(t \<mapsto> m\<lparr>sm_LeaseEpoch := ep\<rparr>)\<rparr>)"
      by (intro queue_inv_meta [OF q1]) simp
    then show ?thesis using 1 False Some by (simp add: TrackRunning_def Let_def sched_inv_def)
  qed
qed (use assms in \<open>simp add: TrackRunning_def\<close>)

lemma PopExpired_inv:
  assumes "sched_inv s"
  shows "sched_inv (fst (PopExpiredRunning nowMs s))"
proof -
  obtain r d e where p: "pop_expired nowMs (sc_runningLeases s) (sc_deadlines s) [] = (r, d, e)" by (metis prod_cases3)
  have t: "leases_tracked (sc_runningLeases s) (sc_deadlines s)" using assms by (simp add: sched_inv_def)
  have "leases_tracked r d" using pop_expired_spec [OF t p] by blast
  moreover have "queue_inv (s\<lparr>sc_runningLeases := r, sc_deadlines := d\<rparr>)"
    by (rule queue_inv_cong [of s]) (use assms in \<open>simp_all add: sched_inv_def\<close>)
  ultimately show ?thesis using assms by (simp add: PopExpiredRunning_def p sched_inv_def)
qed

lemma placement_update_inv:
  assumes "sched_inv s" "placement_inv (sc_workerViews s) p"
  shows "sched_inv (s\<lparr>sc_llmPlacement := p\<rparr>)"
proof -
  have "queue_inv (s\<lparr>sc_llmPlacement := p\<rparr>)"
    by (rule queue_inv_cong [of s]) (use assms in \<open>simp_all add: sched_inv_def\<close>)
  then show ?thesis using assms by (simp add: sched_inv_def)
qed

lemma queue_at_workers [simp]:
  "queue_at (s\<lparr>sc_workerViews := v\<rparr>) ref = queue_at s ref" "queue_at (s\<lparr>sc_placement := m\<rparr>) ref = queue_at s ref"
  by (cases ref; simp)+

lemma worker_placement_fields [simp]:
  "queue_at (addWorkerPlacementLocked v s) ref = queue_at s ref" "queue_at (removeWorkerPlacementLocked v s) ref = queue_at s ref"
  "sc_taskMeta (addWorkerPlacementLocked v s) = sc_taskMeta s" "sc_taskMeta (removeWorkerPlacementLocked v s) = sc_taskMeta s"
  "sc_queued (addWorkerPlacementLocked v s) = sc_queued s" "sc_queued (removeWorkerPlacementLocked v s) = sc_queued s"
  "sc_runningLeases (addWorkerPlacementLocked v s) = sc_runningLeases s" "sc_runningLeases (removeWorkerPlacementLocked v s) = sc_runningLeases s"
  "sc_deadlines (addWorkerPlacementLocked v s) = sc_deadlines s" "sc_deadlines (removeWorkerPlacementLocked v s) = sc_deadlines s"
  "sc_workerViews (addWorkerPlacementLocked v s) = sc_workerViews s" "sc_workerViews (removeWorkerPlacementLocked v s) = sc_workerViews s"
  "sc_llmPlacement (addWorkerPlacementLocked v s) = sc_llmPlacement s" "sc_llmPlacement (removeWorkerPlacementLocked v s) = sc_llmPlacement s"
  by (simp_all add: addWorkerPlacementLocked_def removeWorkerPlacementLocked_def)

lemma UpsertWorker_fields:
  assumes "wk_WorkerID w \<noteq> ''''" "s' = UpsertWorker w s"
  shows "queue_at s' ref = queue_at s ref" "sc_taskMeta s' = sc_taskMeta s" "sc_queued s' = sc_queued s"
    "sc_runningLeases s' = sc_runningLeases s" "sc_deadlines s' = sc_deadlines s"
    "sc_workerViews s' = AList.update (wk_WorkerID w) (worker_view_of w) (sc_workerViews s)"
    "\<exists>previous. sc_llmPlacement s' = refreshWorkerPlacementLocked (sc_workerViews s') (wk_WorkerID w) (worker_view_of w) previous
       (if map_of (sc_workerViews s) (wk_WorkerID w) = None then sc_llmPlacement s
        else removeWorkerPlacementIndexLocked (wk_WorkerID w) (sc_llmPlacement s))"
  using assms by (cases "map_of (sc_workerViews s) (wk_WorkerID w)"; auto simp: UpsertWorker_def Let_def)+

lemma UpsertWorker_inv:
  assumes "sched_inv s"
  shows "sched_inv (UpsertWorker w s)"
proof (cases "wk_WorkerID w = ''''")
  case False
  note f = UpsertWorker_fields [OF False refl, of s]
  have "queue_inv (UpsertWorker w s)"
    by (rule queue_inv_cong [of s]) (use assms f in \<open>simp_all add: sched_inv_def\<close>)
  moreover have "placement_inv (sc_workerViews (UpsertWorker w s)) (sc_llmPlacement (UpsertWorker w s))"
  proof -
    obtain previous where p: "sc_llmPlacement (UpsertWorker w s) =
        refreshWorkerPlacementLocked (sc_workerViews (UpsertWorker w s)) (wk_WorkerID w) (worker_view_of w) previous
         (if map_of (sc_workerViews s) (wk_WorkerID w) = None then sc_llmPlacement s
          else removeWorkerPlacementIndexLocked (wk_WorkerID w) (sc_llmPlacement s))" using f(7) by blast
    show ?thesis unfolding p
      by (rule upsert_worker_inv [OF _ _ False refl f(6)]) (use assms in \<open>simp_all add: sched_inv_def worker_view_of_def\<close>)
  qed
  ultimately show ?thesis using assms f by (simp add: sched_inv_def)
qed (use assms in \<open>simp add: UpsertWorker_def\<close>)

lemma stats_inv:
  assumes "sched_inv s"
  shows "sched_inv (UpdateLLMStats n v w st s)" "sched_inv (SyncLLMStats sts s)"
    "sched_inv (fst (PreferLocality key a b c s))" "sched_inv (fst (PreferPredicted key b c s))"
proof -
  have pi: "placement_inv (sc_workerViews s) (sc_llmPlacement s)" using assms by (simp add: sched_inv_def)
  have e: "placement_inv (sc_workerViews s) (fst (ensureModelPlacementLocked (sc_workerViews s) key (sc_llmPlacement s)))"
    using ensure_inv [OF pi] by (auto simp: prod_eq_iff)
  show "sched_inv (UpdateLLMStats n v w st s)"
    using assms placement_update_inv [OF assms record_stats_inv [OF pi]] by (simp add: UpdateLLMStats_def)
  show "sched_inv (SyncLLMStats sts s)"
    using placement_update_inv [OF assms sync_inv [OF pi]] by (simp add: SyncLLMStats_def)
  have "fst (preferredLocalityFromPlacementLocked vs key d wt ps) = fst (ensureModelPlacementLocked vs key ps)" for vs d wt ps
    by (simp add: preferredLocalityFromPlacementLocked_def Let_def split: prod.splits)
  then show "sched_inv (fst (PreferLocality key a b c s))"
    using placement_update_inv [OF assms e] by (simp add: PreferLocality_def PreferredLocalityWorker_def Let_def split: prod.splits) (metis fst_conv)
  show "sched_inv (fst (PreferPredicted key b c s))"
    using placement_update_inv [OF assms e]
    by (auto simp: PreferPredicted_def PreferredPredictedWorker_def Let_def split: prod.splits)
qed

subsection \<open>Runs\<close>

datatype sched_op =
    EnqueueOp sched_meta
  | ReturnFrontOp sched_meta
  | ForgetOp string
  | AssignOp worker_snapshot i64 "sched_meta \<Rightarrow> schedulerDecision"
  | TrackOp string i64 u64
  | CompleteOp string
  | PopExpiredOp i64
  | UpsertOp worker
  | StatsOp string string string llm_worker_stats
  | SyncOp "((string \<times> string \<times> string) \<times> llm_worker_stats) list"
  | LocalityOp modelKey i64 i64 i64
  | PredictedOp modelKey i64 i64

text \<open>One call of the scheduler, with the task it hands out.\<close>

fun sched_step :: "scheduler \<Rightarrow> sched_op \<Rightarrow> scheduler \<times> string option" where
  "sched_step s (EnqueueOp m) = (Enqueue m s, None)"
| "sched_step s (ReturnFrontOp m) = (ReturnFront m s, None)"
| "sched_step s (ForgetOp t) = (Forget t s, None)"
| "sched_step s (AssignOp snapshot nowMs check) =
     (case Assign snapshot nowMs check s of (s', res) \<Rightarrow> (s', map_option sm_TaskID res))"
| "sched_step s (TrackOp t dl ep) = (TrackRunning t dl ep s, None)"
| "sched_step s (CompleteOp t) = (CompleteRunning t s, None)"
| "sched_step s (PopExpiredOp nowMs) = (fst (PopExpiredRunning nowMs s), None)"
| "sched_step s (UpsertOp w) = (UpsertWorker w s, None)"
| "sched_step s (StatsOp n v w st) = (UpdateLLMStats n v w st s, None)"
| "sched_step s (SyncOp sts) = (SyncLLMStats sts s, None)"
| "sched_step s (LocalityOp key a b c) = (fst (PreferLocality key a b c s), None)"
| "sched_step s (PredictedOp key b c) = (fst (PreferPredicted key b c s), None)"

text \<open>
  Go may visit a map in another order at every loop: at any time the association lists may be
  replaced by others that denote the same maps.
\<close>

definition same_map :: "('k \<times> 'v) list \<Rightarrow> ('k \<times> 'v) list \<Rightarrow> bool" where
  "same_map xs ys \<longleftrightarrow> map_of xs = map_of ys \<and> distinct (map fst xs)"

definition reordered :: "scheduler \<Rightarrow> scheduler \<Rightarrow> bool" where
  "reordered s s' \<longleftrightarrow> (\<exists>bt ap lm qd wv pl bm.
     s' = s\<lparr>sc_byTarget := bt, sc_actorPending := ap, sc_llmByModel := lm, sc_queued := qd, sc_workerViews := wv,
            sc_placement := pl, sc_llmPlacement := (sc_llmPlacement s)\<lparr>ps_byModel := bm\<rparr>\<rparr>
     \<and> same_map bt (sc_byTarget s) \<and> same_map ap (sc_actorPending s) \<and> same_map lm (sc_llmByModel s)
     \<and> same_map qd (sc_queued s) \<and> same_map wv (sc_workerViews s) \<and> same_map pl (sc_placement s)
     \<and> same_map bm (ps_byModel (sc_llmPlacement s)))"

inductive sched_run :: "(sched_op \<times> string option) list \<Rightarrow> scheduler \<Rightarrow> bool" where
  run_new: "sched_run [] newScheduler"
| run_step: "sched_run tr s \<Longrightarrow> sched_step s op = (s', r) \<Longrightarrow> sched_run (tr @ [(op, r)]) s'"
| run_reorder: "sched_run tr s \<Longrightarrow> reordered s s' \<Longrightarrow> sched_run tr s'"

lemma reordered_inv:
  assumes "sched_inv s" "reordered s s'"
  shows "sched_inv s' \<and> map_of (sc_queued s') = map_of (sc_queued s)"
proof -
  obtain bt ap lm qd wv pl bm where s': "s' = s\<lparr>sc_byTarget := bt, sc_actorPending := ap, sc_llmByModel := lm,
      sc_queued := qd, sc_workerViews := wv, sc_placement := pl, sc_llmPlacement := (sc_llmPlacement s)\<lparr>ps_byModel := bm\<rparr>\<rparr>"
    and m: "same_map bt (sc_byTarget s)" "same_map ap (sc_actorPending s)" "same_map lm (sc_llmByModel s)"
      "same_map qd (sc_queued s)" "same_map wv (sc_workerViews s)" "same_map bm (ps_byModel (sc_llmPlacement s))"
    using assms(2) unfolding reordered_def by blast
  have q: "queue_inv s" and pi: "placement_inv (sc_workerViews s) (sc_llmPlacement s)"
    using assms(1) by (simp_all add: sched_inv_def)
  have at: "queue_at s' ref = queue_at s ref" for ref using m by (cases ref) (simp_all add: s' same_map_def)
  then have en: "entries s' ref = entries s ref" for ref by (simp add: entries_def)
  have qi: "queue_inv s'" using q m(4) unfolding queue_inv_def queues_ok_def at en by (simp add: s' same_map_def)
  have "wv_workerID v = w \<and> w \<noteq> ''''" if "(w, v) \<in> set wv" for w v
  proof -
    have "map_of wv w = Some v" using that m(5) map_of_is_SomeI [of wv w v] unfolding same_map_def by blast
    then have "map_of (sc_workerViews s) w = Some v" using m(5) by (simp add: same_map_def)
    then have "(w, v) \<in> set (sc_workerViews s)" by (rule map_of_SomeD)
    then show ?thesis using pi by (auto simp: placement_inv_def views_ok_def)
  qed
  then have vo: "views_ok wv" using m(5) by (auto simp: views_ok_def same_map_def)
  have "heaps_current (map_of wv) ((sc_llmPlacement s)\<lparr>ps_byModel := bm\<rparr>) key hs" if "map_of bm key = Some hs" for key hs
    using placement_invD [OF pi, of key hs] that m(5,6)
      heaps_current_stats_cong [of "(sc_llmPlacement s)\<lparr>ps_byModel := bm\<rparr>" key "sc_llmPlacement s"]
    by (simp add: same_map_def)
  then have "placement_inv wv ((sc_llmPlacement s)\<lparr>ps_byModel := bm\<rparr>)" using vo by (simp add: placement_inv_def)
  then show ?thesis using assms(1) qi m(4) by (simp add: sched_inv_def s' same_map_def)
qed

lemma sched_step_inv: "sched_inv s \<Longrightarrow> sched_step s op = (s', r) \<Longrightarrow> sched_inv s'"
  by (cases op) (auto simp: Enqueue_inv ReturnFront_inv Forget_inv TrackRunning_inv CompleteRunning_inv PopExpired_inv
      UpsertWorker_inv stats_inv split: prod.splits intro: Assign_inv)

lemma sched_run_inv: "sched_run tr s \<Longrightarrow> sched_inv s"
  by (induction rule: sched_run.induct) (auto simp: sched_inv_new intro: sched_step_inv dest: reordered_inv)

subsection \<open>Counting deliveries\<close>

fun enqueues_of :: "string \<Rightarrow> sched_op \<Rightarrow> bool" where
  "enqueues_of t (EnqueueOp m) = (sm_TaskID m = t)"
| "enqueues_of t (ReturnFrontOp m) = (sm_TaskID m = t)"
| "enqueues_of t _ = False"

definition enqueue_count :: "string \<Rightarrow> (sched_op \<times> string option) list \<Rightarrow> nat" where
  "enqueue_count t tr = length (filter (\<lambda>(op, r). enqueues_of t op) tr)"

definition delivery_count :: "string \<Rightarrow> (sched_op \<times> string option) list \<Rightarrow> nat" where
  "delivery_count t tr = length (filter (\<lambda>(op, r). r = Some t) tr)"

definition in_queue :: "scheduler \<Rightarrow> string \<Rightarrow> nat" where
  "in_queue s t = (if map_of (sc_queued s) t = None then 0 else 1)"

lemma set_queue_in_queue [simp]: "in_queue (set_queue ref q s) t = in_queue s t"
  by (simp add: in_queue_def)

lemma step_count:
  assumes "sched_inv s" "sched_step s op = (s', r)"
  shows "in_queue s' t + (if r = Some t then 1 else 0) \<le> in_queue s t + (if enqueues_of t op then 1 else 0)"
proof (cases op)
  case (EnqueueOp m)
  then show ?thesis using assms(2) by (auto simp: Enqueue_def Let_def in_queue_def update_conv' ensure_model_def)
next
  case (ReturnFrontOp m)
  then show ?thesis using assms(2) by (auto simp: ReturnFront_def Let_def in_queue_def update_conv')
next
  case (AssignOp snapshot nowMs check)
  obtain res where a: "Assign snapshot nowMs check s = (s', res)" "r = map_option sm_TaskID res"
    using assms(2) AssignOp by (auto split: prod.splits)
  have "assign_effect check s s' res" using Assign_pass [OF _ a(1)] assms(1) by (auto simp: sched_inv_def pass_ok_def)
  note e1 = assign_effect_queued [OF this, of t] and e2 = assign_effect_result [OF this]
  show ?thesis
  proof (cases res)
    case (Some m)
    then show ?thesis using AssignOp a(2) e1 e2 [OF Some]
      by (cases "sm_TaskID m = t"; cases "map_of (sc_queued s) t") (auto simp: in_queue_def)
  qed (use AssignOp a(2) e1 in \<open>auto simp: in_queue_def\<close>)
next
  case (PopExpiredOp n)
  then show ?thesis using assms(2) by (auto simp: PopExpiredRunning_def in_queue_def split: prod.splits)
next
  case (UpsertOp w)
  then show ?thesis using assms(2) UpsertWorker_fields(3) [of w _ s]
    by (cases "wk_WorkerID w = ''''") (auto simp: in_queue_def UpsertWorker_def)
qed (use assms(2) in \<open>auto simp: Forget_def CompleteRunning_def TrackRunning_def UpdateLLMStats_def SyncLLMStats_def
   PreferLocality_def PreferPredicted_def Let_def in_queue_def delete_conv' split: option.splits prod.splits if_splits\<close>)

lemma run_count: "sched_run tr s \<Longrightarrow> delivery_count t tr + in_queue s t \<le> enqueue_count t tr"
proof (induction rule: sched_run.induct)
  case run_new
  then show ?case by (simp add: delivery_count_def enqueue_count_def in_queue_def newScheduler_def)
next
  case (run_step tr s op s' r)
  then show ?case using step_count [OF sched_run_inv run_step.hyps(2), of tr t]
    by (auto simp: delivery_count_def enqueue_count_def split: if_splits)
next
  case (run_reorder tr s s')
  then show ?case using reordered_inv [OF sched_run_inv, of tr s s'] by (simp add: in_queue_def)
qed

subsection \<open>A free worker gets a task\<close>

lemma next_none_live:
  assumes "nextFromQueueLocked ref kind check s = (s', None)" "\<forall>m. check m = schedulerAssign" "t \<in> set (entries s ref)"
  shows "live_meta s kind t = None"
proof -
  obtain left gone r where o: "next_outcome s kind check (entries s ref) = (left, gone, r)" by (metis prod_cases3)
  have bind: "None = Option.bind r (live_meta s kind)" using next_spec [OF assms(1) o] by blast
  have "r = None"
  proof (cases r)
    case (Some x)
    then show ?thesis using next_outcome_Some [OF o Some] bind by auto
  qed
  then have left: "t \<in> set left \<or> t \<in> gone \<or> live_meta s kind t = None" using next_left [OF o assms(3)] by auto
  have "gone = {} \<and> left = []"
  proof -
    have "next_outcome s kind check ts = (l, g, None) \<Longrightarrow> l = [] \<and> g = {}" for ts l g
      using assms(2) by (induction ts arbitrary: l g) (auto split: option.splits schedulerDecision.splits prod.splits)
    then show ?thesis using o \<open>r = None\<close> by blast
  qed
  with left show ?thesis by simp
qed

lemma general_ref: "kind_of ref = TaskKindGeneral \<longleftrightarrow> ref = QGeneral"
  by (cases ref) simp_all

text \<open>
  A queue that yields nothing has no live task left, or its first live task is one the check skipped: the
  scan does not look past it.
\<close>

lemma next_none:
  "nextFromQueueLocked ref kind check s = (s', None) \<Longrightarrow>
    (case snd (frontMetaLocked ref kind s') of None \<Rightarrow> queue_Len s' ref = 0 | Some m \<Rightarrow> check m = schedulerSkip)"
proof (induction ref kind check s rule: nextFromQueueLocked.induct)
  case (1 ref kind check s)
  show ?case
  proof (cases "queue_Len s ref = 0")
    case True
    then have "s' = s" using "1.prems" by (simp add: nextFromQueueLocked.simps [of ref])
    with True show ?thesis by (simp add: frontMetaLocked.simps [of ref])
  next
    case False
    define i where "i = the (Option.bind (queue_at s ref) Front)"
    show ?thesis
    proof (cases "live_meta s kind i")
      case None
      then show ?thesis using "1.IH"(1) [OF False i_def None] "1.prems" False
        by (subst (asm) (2) nextFromQueueLocked.simps) (simp add: i_def Let_def)
    next
      case (Some m)
      note live = this
      show ?thesis
      proof (cases "check m")
        case schedulerDrop
        then show ?thesis using "1.IH"(2) [OF False i_def live schedulerDrop refl refl refl] "1.prems" False live
          by (subst (asm) (2) nextFromQueueLocked.simps) (simp add: i_def Let_def)
      next
        case schedulerSkip
        then have "s' = s" using "1.prems" False live
          by (subst (asm) nextFromQueueLocked.simps) (simp add: i_def Let_def)
        with schedulerSkip False live show ?thesis by (simp add: frontMetaLocked.simps [of ref] i_def Let_def)
      next
        case schedulerAssign
        then show ?thesis using "1.prems" False live
          by (subst (asm) nextFromQueueLocked.simps) (simp add: i_def Let_def)
      qed
    qed
  qed
qed

lemma first_of_last:
  "first_of (qs @ [(ref, kind, check)]) s = (s', None) \<Longrightarrow> \<exists>s1. nextFromQueueLocked ref kind check s1 = (s', None)"
  by (induction qs arbitrary: s) (auto split: prod.splits option.splits)

lemma Assign_none:
  assumes "queue_inv s'" "Assign snapshot nowMs check s = (s', None)" "ws_WorkerID snapshot \<noteq> ''''"
  shows "case snd (frontMetaLocked QGeneral TaskKindGeneral s') of
      None \<Rightarrow> \<forall>t. map_of (sc_queued s') t \<noteq> Some TaskKindGeneral
    | Some m \<Rightarrow> check m = schedulerSkip"
proof -
  obtain s1 where n: "nextFromQueueLocked QGeneral TaskKindGeneral check s1 = (s', None)"
    using assms(2,3) by (auto simp: Assign_def split: prod.splits option.splits dest!: first_of_last)
  have "map_of (sc_queued s') t \<noteq> Some TaskKindGeneral" if "queue_Len s' QGeneral = 0" for t
  proof
    assume "map_of (sc_queued s') t = Some TaskKindGeneral"
    then obtain ref where "kind_of ref = TaskKindGeneral" "t \<in> set (entries s' ref)"
      using assms(1) unfolding queue_inv_def by blast
    with that show False by (simp add: general_ref queue_Len_entries)
  qed
  with next_none [OF n] show ?thesis by (auto split: option.splits)
qed

subsection \<open>Properties\<close>

text \<open>
  C24. The scheduler never loses a queued task and its bookkeeping agrees: in every state reached by
  any sequence of calls, under any order of map iteration, each task of the queued table has
  metadata under its own identifier and sits in a live queue of the kind it was queued under, and
  \<open>QueueDepth\<close> counts exactly those tasks.\<close>
theorem scheduler_no_lost_task:
  assumes "sched_run tr s" and "map_of (sc_queued s) t = Some k"
  shows "(\<exists>m. sc_taskMeta s t = Some m \<and> sm_TaskID m = t)
    \<and> (\<exists>ref q. kind_of ref = k \<and> queue_at s ref = Some q \<and> t \<in> set (deque_list q))
    \<and> QueueDepth s = card (dom (map_of (sc_queued s)))"
proof -
  have q: "queue_inv s" using sched_run_inv [OF assms(1)] by (simp add: sched_inv_def)
  obtain ref where r: "kind_of ref = k" "t \<in> set (entries s ref)" and m: "sc_taskMeta s t \<noteq> None"
    using q assms(2) unfolding queue_inv_def by blast
  have "\<exists>q. queue_at s ref = Some q \<and> t \<in> set (deque_list q)"
    using r(2) by (cases "queue_at s ref") (simp_all add: entries_def)
  moreover have "length (sc_queued s) = card (fst ` set (sc_queued s))"
    using q by (metis (no_types) distinct_card length_map list.set_map queue_inv_def)
  ultimately show ?thesis using r(1) m q unfolding QueueDepth_def dom_map_of_conv_image_fst queue_inv_def by blast
qed

text \<open>
  C8. A task is handed out at most as often as it is queued: in every run the number of assignments
  that returned the task, plus one while it is still queued, is at most the number of enqueue and
  return-to-front calls for it.\<close>
theorem scheduler_delivers_at_most_once:
  assumes "sched_run tr s"
  shows "delivery_count t tr + (if map_of (sc_queued s) t = None then 0 else 1) \<le> enqueue_count t tr"
  using run_count [OF assms, of t] by (simp add: in_queue_def)

text \<open>
  C25. An assignment pass is correct and misses nothing it may hand out: the task it returns was queued,
  is accepted by the caller's check and leaves the queued table; every other task stays as it was unless
  the check dropped it; and when a worker with an identifier gets nothing, no general task is left
  queued, or the first one in the queue is a task the check skipped. A skipped task holds up
  the general tasks behind it: the pass does not look past it.\<close>
theorem assign_correct:
  assumes "sched_run tr s" and "Assign snapshot nowMs check s = (s', res)"
  shows "assign_effect check s s' res
    \<and> (res = None \<and> ws_WorkerID snapshot \<noteq> '''' \<longrightarrow>
        (case snd (frontMetaLocked QGeneral TaskKindGeneral s') of
           None \<Rightarrow> \<forall>t. map_of (sc_queued s') t \<noteq> Some TaskKindGeneral
         | Some m \<Rightarrow> check m = schedulerSkip))"
proof -
  have q: "queue_inv s" using sched_run_inv [OF assms(1)] by (simp add: sched_inv_def)
  have "pass_ok check s s' res" by (rule Assign_pass [OF q assms(2)])
  then show ?thesis using Assign_none [of s' snapshot nowMs check s] assms(2) unfolding pass_ok_def by blast
qed

text \<open>
  C20. The redelivery scan is exact: it returns the running leases whose deadline has passed, each
  once and in deadline order, and keeps exactly the others, whatever stale entries the deadline heap
  holds.\<close>
theorem expired_leases_exact:
  assumes "sched_run tr s" and "PopExpiredRunning nowMs s = (s', expired)"
  shows "set expired = {l. sc_runningLeases s (rl_taskID l) = Some l \<and> rl_deadlineMs l \<le> nowMs}
    \<and> distinct expired \<and> sorted (map rl_deadlineMs expired)
    \<and> sc_runningLeases s' = (\<lambda>t. case sc_runningLeases s t of None \<Rightarrow> None
         | Some l \<Rightarrow> if rl_deadlineMs l \<le> nowMs then None else Some l)"
proof -
  have t: "leases_tracked (sc_runningLeases s) (sc_deadlines s)" using sched_run_inv [OF assms(1)] by (simp add: sched_inv_def)
  obtain r d e where p: "pop_expired nowMs (sc_runningLeases s) (sc_deadlines s) [] = (r, d, e)" by (metis prod_cases3)
  have s': "sc_runningLeases s' = r" "expired = e" using assms(2) by (auto simp: PopExpiredRunning_def p)
  have "sorted (map rl_deadlineMs xs)" if "sorted xs" for xs
    using that by (induction xs) (auto intro: lease_le_deadline)
  then show ?thesis using pop_expired_spec [OF t p] by (auto simp: s')
qed

text \<open>
  C26. The placement index is maintained incrementally and is never stale: in every reachable state
  the three worker lists of every indexed model are those that building the index from the current
  worker views and statistics gives.\<close>
theorem placement_incremental_equals_rebuild:
  assumes "sched_run tr s" and "map_of (ps_byModel (sc_llmPlacement s)) key = Some hs"
  shows "hs = snd (ensureModelPlacementLocked (sc_workerViews s) key ((sc_llmPlacement s)\<lparr>ps_byModel := []\<rparr>))"
proof -
  have pi: "placement_inv (sc_workerViews s) (sc_llmPlacement s)" using sched_run_inv [OF assms(1)] by (simp add: sched_inv_def)
  let ?empty = "(sc_llmPlacement s)\<lparr>ps_byModel := []\<rparr>"
  obtain ps' hs' where e: "ensureModelPlacementLocked (sc_workerViews s) key ?empty = (ps', hs')" by fastforce
  have "views_ok (sc_workerViews s)" using pi by (simp add: placement_inv_def)
  then have "heaps_current (map_of (sc_workerViews s)) ?empty key hs'" using ensure_spec [OF _ e] by simp
  then have "heaps_current (map_of (sc_workerViews s)) (sc_llmPlacement s) key hs'"
    using heaps_current_stats_cong [of ?empty key "sc_llmPlacement s"] by simp
  then show ?thesis using heaps_current_unique placement_invD [OF pi assms(2)] e by simp
qed

text \<open>
  C27. The indexed choice by predicted latency is the choice of the full scan: in every reachable
  state, for the workers the scheduler has views of and the statistics it holds, the index returns the
  worker that scanning all workers returns. This needs the views to be those of the scanned workers,
  which have distinct, non-empty identifiers, names of the requested and the cached models without a
  colon (the index and the scan disagree about a cached model whose name has one), and predicted latencies
  below \<open>2 ^ 61\<close>, so that the scores do not wrap.\<close>
theorem predicted_choice_equals_scan:
  assumes "sched_run tr s"
    and "map_of (sc_workerViews s) = map_of (map (\<lambda>w. (wk_WorkerID w, worker_view_of w)) workers)"
      "distinct (map wk_WorkerID workers)" "\<forall>w\<in>set workers. proper_worker w" "colon_free name"
    and "\<forall>w\<in>set workers. workerHasCapacity w \<longrightarrow> predictedLatencyMs w (ModelKey name version)
      (placementStatsLocked (sc_llmPlacement s) (modelKeyFromParts name version) (wk_WorkerID w)) < 2 ^ 61"
  shows "snd (PreferPredicted (modelKeyFromParts name version) queueDelayMs waitMs s) =
    predicted_scan (ModelKey name version) (placementStatsLocked (sc_llmPlacement s) (modelKeyFromParts name version))
      queueDelayMs waitMs workers"
proof -
  have pi: "placement_inv (sc_workerViews s) (sc_llmPlacement s)" using sched_run_inv [OF assms(1)] by (simp add: sched_inv_def)
  have "snd (PreferPredicted key d wt s) = snd (PreferredPredictedWorker (sc_workerViews s) key d wt (sc_llmPlacement s))" for key d wt
    by (simp add: PreferPredicted_def split: prod.splits)
  then show ?thesis using predicted_index_scan [OF pi assms(2,3,4,5) refl assms(6)] by simp
qed

text \<open>
  C34. The indexed locality choice returns no worker exactly when no worker has a free slot, and
  otherwise the best one: any warm worker before every cold one, then the higher score, then the
  smaller identifier. How long the task has waited makes no difference.\<close>
theorem locality_choice_best:
  assumes "sched_run tr s" and "r = snd (PreferLocality key createdAtMs nowMs waitMs s)"
  shows "(r = '''' \<longleftrightarrow> (\<forall>w v. map_of (sc_workerViews s) w = Some v \<longrightarrow> \<not> hasCapacity v))
    \<and> (r \<noteq> '''' \<longrightarrow> (\<exists>v. map_of (sc_workerViews s) r = Some v \<and> hasCapacity v
        \<and> (\<forall>w' v'. map_of (sc_workerViews s) w' = Some v' \<and> hasCapacity v' \<longrightarrow> locality_rank key r v \<le> locality_rank key w' v')))
    \<and> r = snd (PreferLocality key createdAtMs' nowMs' waitMs' s)"
proof -
  have pi: "placement_inv (sc_workerViews s) (sc_llmPlacement s)" using sched_run_inv [OF assms(1)] by (simp add: sched_inv_def)
  define d where "d c n = (if c > 0 \<and> n > c then sub64 n c else 0)" for c n
  have eq: "snd (PreferLocality key c n w s) =
      snd (preferredLocalityFromPlacementLocked (sc_workerViews s) key (d c n) w (sc_llmPlacement s))" for c n w
    by (simp add: PreferLocality_def PreferredLocalityWorker_def Let_def d_def split: prod.splits)
  note sp = preferred_locality_spec [OF pi assms(2) [unfolded eq]]
  have "r = snd (PreferLocality key createdAtMs' nowMs' waitMs' s)"
    unfolding assms(2) eq by (rule preferred_locality_delay [OF pi])
  then show ?thesis using sp by (cases "r = ''''") (simp_all, blast)
qed

subsection \<open>A concrete run\<close>

definition demo_task :: "string \<Rightarrow> sched_meta" where
  "demo_task t = \<lparr>sm_TaskID = t, sm_TaskType = TaskKindGeneral, sm_TargetWorker = '''', sm_ActorID = '''', sm_CommandSeq = 0,
     sm_ModelName = '''', sm_ModelVersion = '''', sm_CreatedAtMs = 5, sm_LeaseEpoch = 0, sm_RunningWorker = ''''\<rparr>"

definition demo_worker :: "string \<Rightarrow> u32 \<Rightarrow> worker" where
  "demo_worker w cap = \<lparr>wk_WorkerID = w, wk_CachedModels = [(ModelKey ''m'' ''v1'', True)], wk_Capacity = cap,
     wk_RunningTasks = 0, wk_LastHeartbeat = 1\<rparr>"

definition demo_snapshot :: worker_snapshot where
  "demo_snapshot = \<lparr>ws_WorkerID = ''w1'', ws_ActorIDs = [], ws_ActorNextSeq = Map.empty, ws_CachedModels = [(''m'', ''v1'')]\<rparr>"

fun run_sched :: "sched_op list \<Rightarrow> (sched_op \<times> string option) list \<Rightarrow> scheduler \<Rightarrow> (sched_op \<times> string option) list \<times> scheduler" where
  "run_sched [] tr s = (tr, s)"
| "run_sched (op # ops) tr s = (case sched_step s op of (s', r) \<Rightarrow> run_sched ops (tr @ [(op, r)]) s')"

lemma run_sched_run: "sched_run tr s \<Longrightarrow> run_sched ops tr s = (tr', s') \<Longrightarrow> sched_run tr' s'"
  by (induction ops arbitrary: tr s) (auto split: prod.splits intro: sched_run.intros)

definition demo_ops :: "sched_op list" where
  "demo_ops = [UpsertOp (demo_worker ''w1'' 2), UpsertOp (demo_worker ''w2'' 4), EnqueueOp (demo_task ''t1''), EnqueueOp (demo_task ''t2''),
     PredictedOp (''m'', ''v1'') 0 250, AssignOp demo_snapshot 10 (\<lambda>m. schedulerAssign), TrackOp ''t1'' 20 1, TrackOp ''t1'' 30 2]"

definition demo_sched :: scheduler where
  "demo_sched = snd (run_sched demo_ops [] newScheduler)"

definition demo_trace :: "(sched_op \<times> string option) list" where
  "demo_trace = fst (run_sched demo_ops [] newScheduler)"

lemma demo_sched_run: "sched_run demo_trace demo_sched"
  by (rule run_sched_run [OF run_new, of demo_ops]) (simp add: demo_trace_def demo_sched_def)

lemma demo_queued: "map_of (sc_queued demo_sched) ''t2'' = Some TaskKindGeneral" by code_simp

theorem scheduler_no_lost_task_witness:
  "QueueDepth demo_sched = card (dom (map_of (sc_queued demo_sched)))
   \<and> (\<exists>m. sc_taskMeta demo_sched ''t2'' = Some m \<and> sm_TaskID m = ''t2'')"
  using scheduler_no_lost_task [OF demo_sched_run demo_queued] by blast

theorem scheduler_delivers_at_most_once_witness:
  "delivery_count ''t1'' demo_trace = 1 \<and> delivery_count ''t1'' demo_trace \<le> enqueue_count ''t1'' demo_trace"
proof -
  have "delivery_count ''t1'' demo_trace = 1" by code_simp
  then show ?thesis using scheduler_delivers_at_most_once [OF demo_sched_run, of "''t1''"] by simp
qed

theorem assign_correct_witness:
  "\<exists>m. snd (Assign demo_snapshot 11 (\<lambda>m. schedulerAssign) demo_sched) = Some m"
proof (rule ccontr)
  let ?s = "fst (Assign demo_snapshot 11 (\<lambda>m. schedulerAssign) demo_sched)"
  assume "\<not> ?thesis"
  then have none: "Assign demo_snapshot 11 (\<lambda>m. schedulerAssign) demo_sched = (?s, None)" by (simp add: prod_eq_iff)
  note c = assign_correct [OF demo_sched_run none]
  then have "map_of (sc_queued ?s) ''t2'' \<noteq> Some TaskKindGeneral"
    by (auto simp: demo_snapshot_def split: option.splits)
  moreover have "map_of (sc_queued ?s) = map_of (sc_queued demo_sched)"
    using c assign_effect_none [of "\<lambda>m. schedulerAssign" demo_sched ?s] by simp
  ultimately show False using demo_queued by simp
qed

theorem expired_leases_exact_witness:
  "RunningLease ''t1'' 30 2 \<in> set (snd (PopExpiredRunning 40 demo_sched))
   \<and> RunningLease ''t1'' 20 1 \<notin> set (snd (PopExpiredRunning 40 demo_sched))"
proof -
  have "sc_runningLeases demo_sched ''t1'' = Some (RunningLease ''t1'' 30 2)" by code_simp
  then show ?thesis using expired_leases_exact [OF demo_sched_run surjective_pairing, of 40] by simp
qed

lemma demo_heaps: "map_of (ps_byModel (sc_llmPlacement demo_sched)) (''m'', ''v1'') \<noteq> None"
  by code_simp

theorem placement_incremental_equals_rebuild_witness:
  "map_of (ps_byModel (sc_llmPlacement demo_sched)) (''m'', ''v1'') =
     Some (snd (ensureModelPlacementLocked (sc_workerViews demo_sched) (''m'', ''v1'') ((sc_llmPlacement demo_sched)\<lparr>ps_byModel := []\<rparr>)))"
  using placement_incremental_equals_rebuild [OF demo_sched_run, of "(''m'', ''v1'')"] demo_heaps by auto

lemma demo_views: "sc_workerViews demo_sched = map (\<lambda>w. (wk_WorkerID w, worker_view_of w)) [demo_worker ''w1'' 2, demo_worker ''w2'' 4]"
  by code_simp

lemma demo_proper: "w \<noteq> '''' \<Longrightarrow> proper_worker (demo_worker w cap)"
proof -
  have "\<exists>n v. CHR '':'' \<notin> set n \<and> ModelKey ''m'' ''v1'' = ModelKey n v" by (rule exI [of _ "''m''"], rule exI [of _ "''v1''"]) simp
  then show "w \<noteq> '''' \<Longrightarrow> ?thesis" by (simp add: proper_worker_def demo_worker_def colon_free_def)
qed

theorem predicted_choice_equals_scan_witness:
  "snd (PreferPredicted (modelKeyFromParts ''m'' ''v1'') 0 250 demo_sched) =
     predicted_scan (ModelKey ''m'' ''v1'') (placementStatsLocked (sc_llmPlacement demo_sched) (modelKeyFromParts ''m'' ''v1''))
       0 250 [demo_worker ''w1'' 2, demo_worker ''w2'' 4]"
proof (rule predicted_choice_equals_scan [OF demo_sched_run])
  show "map_of (sc_workerViews demo_sched) = map_of (map (\<lambda>w. (wk_WorkerID w, worker_view_of w)) [demo_worker ''w1'' 2, demo_worker ''w2'' 4])"
    by (simp only: demo_views)
  show "\<forall>w\<in>set [demo_worker ''w1'' 2, demo_worker ''w2'' 4]. workerHasCapacity w \<longrightarrow>
       predictedLatencyMs w (ModelKey ''m'' ''v1'')
        (placementStatsLocked (sc_llmPlacement demo_sched) (modelKeyFromParts ''m'' ''v1'') (wk_WorkerID w)) < 2 ^ 61"
    by code_simp
qed (simp_all add: demo_proper colon_free_def, simp add: demo_worker_def)

theorem locality_choice_best_witness:
  "snd (PreferLocality (''m'', ''v1'') 0 0 250 demo_sched) = ''w2''
   \<and> snd (PreferLocality (''m'', ''v1'') 0 0 250 demo_sched) = snd (PreferLocality (''m'', ''v1'') 1 900 250 demo_sched)"
proof
  show "snd (PreferLocality (''m'', ''v1'') 0 0 250 demo_sched) = ''w2''" by code_simp
  show "snd (PreferLocality (''m'', ''v1'') 0 0 250 demo_sched) = snd (PreferLocality (''m'', ''v1'') 1 900 250 demo_sched)"
    using locality_choice_best [OF demo_sched_run refl, of "(''m'', ''v1'')" 0 0 250 1 900 250] by blast
qed

end
