(* ===== verification/Reader_Cache.thy ===== *)
theory Reader_Cache
  imports Log_Store
begin

text \<open>
  The cache of segment readers of \<open>internal/logstore/store.go\<close>: reference-counted wrappers around
  open segment files, kept in a map and an LRU list, shared by concurrent readers and by the
  compactor.

  A \<open>segmentReader\<close> is a heap object; \<open>sr_open\<close> is its file descriptor and \<open>sr_element\<close> whether it has
  an element in the LRU list. \<open>acquireSegmentReader\<close> holds the store's mutex twice and opens the file
  in between, so a reading goroutine passes through \<open>Opening\<close> (looked up and missed) and \<open>Opened\<close>
  (file open, not yet in the cache) before it is \<open>Using\<close> a reader. Each critical section is one
  atomic step, interleaved with those of any number of other goroutines and of the compactor.
  \<open>releaseSegmentReader\<close> reads \<open>cached\<close> outside the mutex; the flag of a reader in use is not changed by
  any other step, so the whole call is one step. \<open>Store.Close\<close> is a step only while no goroutine
  reads, which its callers have to ensure.
\<close>

subsection \<open>State\<close>

record seg_reader =
  sr_segmentID :: u64
  sr_refs :: int
  sr_element :: bool
  sr_cached :: bool
  sr_open :: bool

datatype reader_pc =
    NotReading
  | Opening u64
  | Opened nat
  | Using nat

record reader_cache =
  rc_limit :: int
  rc_readers :: "(u64 \<times> nat) list"
  rc_lru :: "nat list"
  rc_heap :: "nat \<Rightarrow> seg_reader"
  rc_fresh :: nat
  rc_pc :: "nat \<Rightarrow> reader_pc"

definition new_cache :: "int \<Rightarrow> reader_cache" where
  "new_cache limit = \<lparr>rc_limit = (if limit < 0 then 0 else limit), rc_readers = [], rc_lru = [],
     rc_heap = (\<lambda>_. \<lparr>sr_segmentID = 0, sr_refs = 0, sr_element = False, sr_cached = False, sr_open = False\<rparr>),
     rc_fresh = 0, rc_pc = (\<lambda>_. NotReading)\<rparr>"

definition set_reader :: "nat \<Rightarrow> seg_reader \<Rightarrow> reader_cache \<Rightarrow> reader_cache" where
  "set_reader r x c = c\<lparr>rc_heap := (rc_heap c)(r := x)\<rparr>"

definition set_pc :: "nat \<Rightarrow> reader_pc \<Rightarrow> reader_cache \<Rightarrow> reader_cache" where
  "set_pc tid p c = c\<lparr>rc_pc := (rc_pc c)(tid := p)\<rparr>"

definition move_to_back :: "nat \<Rightarrow> reader_cache \<Rightarrow> reader_cache" where
  "move_to_back r c =
     (if sr_element (rc_heap c r) then c\<lparr>rc_lru := remove1 r (rc_lru c) @ [r]\<rparr> else c)"

subsection \<open>Eviction\<close>

definition evict_one :: "nat \<Rightarrow> reader_cache \<Rightarrow> reader_cache" where
  "evict_one r c =
     set_reader r ((rc_heap c r)\<lparr>sr_cached := False, sr_element := False, sr_open := False\<rparr>)
       (c\<lparr>rc_lru := remove1 r (rc_lru c),
          rc_readers := AList.delete (sr_segmentID (rc_heap c r)) (rc_readers c)\<rparr>)"

function evictSegmentReadersLocked :: "reader_cache \<Rightarrow> reader_cache" where
  "evictSegmentReadersLocked c =
     (if rc_limit c \<le> 0 \<or> int (length (rc_readers c)) \<le> rc_limit c then c
      else (case List.find (\<lambda>r. sr_refs (rc_heap c r) = 0) (rc_lru c) of
              None \<Rightarrow> c
            | Some r \<Rightarrow> evictSegmentReadersLocked (evict_one r c)))"
  by pat_completeness auto

text \<open>Each round removes one element from the LRU list.\<close>

lemma find_in_list: "List.find P xs = Some x \<Longrightarrow> x \<in> set xs \<and> P x"
  by (auto simp: find_Some_iff)

termination evictSegmentReadersLocked
proof (relation "measure (\<lambda>c. length (rc_lru c))")
  fix c :: reader_cache and r
  assume "List.find (\<lambda>r. sr_refs (rc_heap c r) = 0) (rc_lru c) = Some r"
  then have "r \<in> set (rc_lru c)" by (simp add: find_in_list)
  then show "(evict_one r c, c) \<in> measure (\<lambda>c. length (rc_lru c))"
    by (auto simp: evict_one_def set_reader_def length_remove1 dest: length_pos_if_in_set)
qed simp

declare evictSegmentReadersLocked.simps [simp del]

subsection \<open>The operations\<close>

definition acquire_lookup :: "nat \<Rightarrow> u64 \<Rightarrow> reader_cache \<Rightarrow> reader_cache" where
  "acquire_lookup tid segmentID c =
     (case (if 0 < rc_limit c then map_of (rc_readers c) segmentID else None) of
        Some r \<Rightarrow>
          (let c1 = set_reader r ((rc_heap c r)\<lparr>sr_refs := sr_refs (rc_heap c r) + 1\<rparr>) c
           in set_pc tid (Using r) (move_to_back r c1))
      | None \<Rightarrow> set_pc tid (Opening segmentID) c)"

definition acquire_open :: "nat \<Rightarrow> u64 \<Rightarrow> bool \<Rightarrow> reader_cache \<Rightarrow> reader_cache" where
  "acquire_open tid segmentID ok c =
     (if \<not> ok then set_pc tid NotReading c
      else
        (let r = rc_fresh c;
             c1 = set_reader r \<lparr>sr_segmentID = segmentID, sr_refs = 1, sr_element = False, sr_cached = False,
                    sr_open = True\<rparr> (c\<lparr>rc_fresh := Suc r\<rparr>)
         in set_pc tid (if rc_limit c \<le> 0 then Using r else Opened r) c1))"

definition acquire_insert :: "nat \<Rightarrow> nat \<Rightarrow> reader_cache \<Rightarrow> reader_cache" where
  "acquire_insert tid r c =
     (let segmentID = sr_segmentID (rc_heap c r) in
      case map_of (rc_readers c) segmentID of
        Some existing \<Rightarrow>
          (let c1 = set_reader r ((rc_heap c r)\<lparr>sr_open := False\<rparr>) c;
               c2 = set_reader existing ((rc_heap c1 existing)\<lparr>sr_refs := sr_refs (rc_heap c1 existing) + 1\<rparr>) c1
           in set_pc tid (Using existing) (move_to_back existing c2))
      | None \<Rightarrow>
          (let c1 = set_reader r ((rc_heap c r)\<lparr>sr_cached := True, sr_element := True\<rparr>)
                 (c\<lparr>rc_lru := rc_lru c @ [r], rc_readers := AList.update segmentID r (rc_readers c)\<rparr>)
           in set_pc tid (Using r) (evictSegmentReadersLocked c1)))"

definition releaseSegmentReader :: "nat \<Rightarrow> nat \<Rightarrow> reader_cache \<Rightarrow> reader_cache" where
  "releaseSegmentReader tid r c =
     (if \<not> sr_cached (rc_heap c r)
      then set_pc tid NotReading (set_reader r ((rc_heap c r)\<lparr>sr_open := False\<rparr>) c)
      else
        (let refs = (if 0 < sr_refs (rc_heap c r) then sr_refs (rc_heap c r) - 1 else sr_refs (rc_heap c r));
             c1 = set_reader r ((rc_heap c r)\<lparr>sr_refs := refs\<rparr>) c;
             c2 = (if refs = 0 then move_to_back r c1 else c1)
         in set_pc tid NotReading (evictSegmentReadersLocked c2)))"

text \<open>The compactor closes the reader of a segment it replaces; the result says whether it may go on.\<close>

definition closeSegmentReaderLocked :: "u64 \<Rightarrow> reader_cache \<Rightarrow> reader_cache \<times> bool" where
  "closeSegmentReaderLocked segmentID c =
     (case map_of (rc_readers c) segmentID of
        None \<Rightarrow> (c, True)
      | Some r \<Rightarrow>
          (if 0 < sr_refs (rc_heap c r) then (c, False)
           else
             (let lru = (if sr_element (rc_heap c r) then remove1 r (rc_lru c) else rc_lru c)
              in (set_reader r ((rc_heap c r)\<lparr>sr_cached := False, sr_element := False, sr_open := False\<rparr>)
                   (c\<lparr>rc_lru := lru, rc_readers := AList.delete segmentID (rc_readers c)\<rparr>), True))))"

definition segmentReaderBusyLocked :: "u64 \<Rightarrow> reader_cache \<Rightarrow> bool" where
  "segmentReaderBusyLocked segmentID c =
     (case map_of (rc_readers c) segmentID of None \<Rightarrow> False | Some r \<Rightarrow> 0 < sr_refs (rc_heap c r))"

definition closeSegmentReadersLocked :: "reader_cache \<Rightarrow> reader_cache" where
  "closeSegmentReadersLocked c =
     c\<lparr>rc_heap := (\<lambda>r. if r \<in> snd ` set (rc_readers c)
           then (rc_heap c r)\<lparr>sr_cached := False, sr_element := False, sr_open := False\<rparr> else rc_heap c r),
       rc_readers := [], rc_lru := []\<rparr>"

definition cachedSegmentReaderCount :: "reader_cache \<Rightarrow> nat" where
  "cachedSegmentReaderCount c = length (rc_readers c)"

subsection \<open>Interleavings\<close>

inductive cache_step :: "reader_cache \<Rightarrow> reader_cache \<Rightarrow> bool" where
  lookup: "rc_pc c tid = NotReading \<Longrightarrow> cache_step c (acquire_lookup tid segmentID c)"
| open_file: "rc_pc c tid = Opening segmentID \<Longrightarrow> cache_step c (acquire_open tid segmentID ok c)"
| insert: "rc_pc c tid = Opened r \<Longrightarrow> cache_step c (acquire_insert tid r c)"
| release: "rc_pc c tid = Using r \<Longrightarrow> cache_step c (releaseSegmentReader tid r c)"
| compact: "cache_step c (fst (closeSegmentReaderLocked segmentID c))"
| close_all: "\<forall>tid. rc_pc c tid = NotReading \<Longrightarrow> cache_step c (closeSegmentReadersLocked c)"

inductive cache_run :: "int \<Rightarrow> reader_cache \<Rightarrow> bool" for limit where
  start: "cache_run limit (new_cache limit)"
| step: "cache_run limit c \<Longrightarrow> cache_step c c' \<Longrightarrow> cache_run limit c'"

definition reading :: "reader_cache \<Rightarrow> nat set" where
  "reading c = {tid. rc_pc c tid \<noteq> NotReading}"

definition users :: "reader_cache \<Rightarrow> nat \<Rightarrow> nat set" where
  "users c r = {tid. rc_pc c tid = Using r}"

definition cached_ids :: "reader_cache \<Rightarrow> nat set" where
  "cached_ids c = snd ` set (rc_readers c)"


definition holds :: "reader_cache \<Rightarrow> nat \<Rightarrow> nat \<Rightarrow> bool" where
  "holds c tid r \<longleftrightarrow> rc_pc c tid = Opened r \<or> rc_pc c tid = Using r"

subsection \<open>The invariant\<close>

text \<open>
  The LRU list and the map hold the same readers, all open; a cached reader counts its users; an
  uncached open reader belongs to exactly one goroutine.
\<close>

definition cached_ok :: "reader_cache \<Rightarrow> bool" where
  "cached_ok c \<longleftrightarrow> distinct (map fst (rc_readers c)) \<and> distinct (rc_lru c) \<and> set (rc_lru c) = cached_ids c \<and>
     (\<forall>seg r. (seg, r) \<in> set (rc_readers c) \<longrightarrow> sr_segmentID (rc_heap c r) = seg) \<and>
     (\<forall>r \<in> cached_ids c. r < rc_fresh c \<and> sr_cached (rc_heap c r) \<and> sr_element (rc_heap c r) \<and>
        sr_open (rc_heap c r) \<and> sr_refs (rc_heap c r) = int (card (users c r)))"

definition held_ok :: "reader_cache \<Rightarrow> bool" where
  "held_ok c \<longleftrightarrow> finite (reading c) \<and>
     (\<forall>tid r. holds c tid r \<longrightarrow> r < rc_fresh c \<and> sr_open (rc_heap c r)) \<and>
     (\<forall>tid r. rc_pc c tid = Opened r \<longrightarrow> r \<notin> cached_ids c \<and> sr_refs (rc_heap c r) = 1) \<and>
     (\<forall>r. r \<notin> cached_ids c \<longrightarrow> \<not> sr_cached (rc_heap c r) \<and> \<not> sr_element (rc_heap c r)) \<and>
     (\<forall>r. r \<notin> cached_ids c \<longrightarrow> sr_open (rc_heap c r) \<longrightarrow> (\<exists>tid. holds c tid r)) \<and>
     (\<forall>r tid tid'. r \<notin> cached_ids c \<longrightarrow> holds c tid r \<longrightarrow> holds c tid' r \<longrightarrow> tid = tid')"

definition within_limit :: "reader_cache \<Rightarrow> bool" where
  "within_limit c \<longleftrightarrow> 0 \<le> rc_limit c \<and> (rc_limit c = 0 \<longrightarrow> rc_readers c = []) \<and>
     (rc_limit c = 0 \<longrightarrow> (\<forall>tid r. rc_pc c tid \<noteq> Opened r)) \<and>
     (int (length (rc_readers c)) \<le> rc_limit c \<or> (\<forall>r \<in> cached_ids c. 0 < sr_refs (rc_heap c r)))"

lemma set_fields [simp]:
  "rc_limit (set_pc tid p c) = rc_limit c" "rc_readers (set_pc tid p c) = rc_readers c"
  "rc_lru (set_pc tid p c) = rc_lru c" "rc_heap (set_pc tid p c) = rc_heap c" "rc_fresh (set_pc tid p c) = rc_fresh c"
  "rc_pc (set_pc tid p c) = (rc_pc c)(tid := p)"
  "rc_limit (set_reader r x c) = rc_limit c" "rc_readers (set_reader r x c) = rc_readers c"
  "rc_lru (set_reader r x c) = rc_lru c" "rc_heap (set_reader r x c) = (rc_heap c)(r := x)"
  "rc_fresh (set_reader r x c) = rc_fresh c" "rc_pc (set_reader r x c) = rc_pc c"
  "rc_limit (move_to_back r c) = rc_limit c" "rc_readers (move_to_back r c) = rc_readers c"
  "rc_heap (move_to_back r c) = rc_heap c" "rc_fresh (move_to_back r c) = rc_fresh c" "rc_pc (move_to_back r c) = rc_pc c"
  by (simp_all add: set_pc_def set_reader_def move_to_back_def)

lemma cached_ids_fields [simp]:
  "cached_ids (set_pc tid p c) = cached_ids c" "cached_ids (set_reader r x c) = cached_ids c"
  "cached_ids (move_to_back r c) = cached_ids c"
  by (simp_all add: cached_ids_def)

lemma users_fields [simp]:
  "users (set_reader r x c) = users c" "users (move_to_back r c) = users c"
  "users (c\<lparr>rc_lru := l, rc_readers := m\<rparr>) = users c" "users (c\<lparr>rc_lru := l\<rparr>) = users c"
  "users (c\<lparr>rc_fresh := n\<rparr>) = users c"
  by (auto simp: users_def)

lemma cached_values:
  assumes "cached_ok c"
  shows "distinct (map snd (rc_readers c))" "length (rc_readers c) = card (cached_ids c)"
proof -
  have "map fst (rc_readers c) = map (\<lambda>r. sr_segmentID (rc_heap c r)) (map snd (rc_readers c))"
    using assms by (auto simp: cached_ok_def)
  moreover have "distinct (map fst (rc_readers c))" using assms by (simp add: cached_ok_def)
  ultimately show d: "distinct (map snd (rc_readers c))" by (simp only: distinct_map)
  show "length (rc_readers c) = card (cached_ids c)"
    using distinct_card[OF d] by (simp add: cached_ids_def)
qed

lemma mem_cached: "(seg, r) \<in> set (rc_readers c) \<Longrightarrow> r \<in> cached_ids c"
  by (force simp: cached_ids_def)

lemma cached_mem: "cached_ok c \<Longrightarrow> r \<in> cached_ids c \<Longrightarrow> (sr_segmentID (rc_heap c r), r) \<in> set (rc_readers c)"
  by (auto simp: cached_ok_def cached_ids_def)

lemma cached_lookup:
  assumes "cached_ok c"
  shows "map_of (rc_readers c) seg = Some r \<longleftrightarrow> r \<in> cached_ids c \<and> sr_segmentID (rc_heap c r) = seg"
proof
  assume "map_of (rc_readers c) seg = Some r"
  then have "(seg, r) \<in> set (rc_readers c)" by (rule map_of_SomeD)
  then show "r \<in> cached_ids c \<and> sr_segmentID (rc_heap c r) = seg"
    using assms by (simp add: cached_ok_def mem_cached)
next
  assume "r \<in> cached_ids c \<and> sr_segmentID (rc_heap c r) = seg"
  then have "(seg, r) \<in> set (rc_readers c)" using cached_mem[OF assms] by blast
  then show "map_of (rc_readers c) seg = Some r" using assms by (simp add: cached_ok_def)
qed

lemma evict_one_set_pc: "evict_one r (set_pc tid p c) = set_pc tid p (evict_one r c)"
  by (simp add: evict_one_def set_reader_def set_pc_def)

lemma evict_set_pc: "evictSegmentReadersLocked (set_pc tid p c) = set_pc tid p (evictSegmentReadersLocked c)"
proof (induction c rule: evictSegmentReadersLocked.induct)
  case (1 c)
  then show ?case
    by (subst (1 2) evictSegmentReadersLocked.simps) (auto simp: evict_one_set_pc split: option.splits)
qed

lemma delete_values:
  assumes "distinct (map fst m)" "distinct (map snd m)" "(k, v) \<in> set m"
  shows "snd ` set (AList.delete k m) = snd ` set m - {v}"
proof -
  have "set (AList.delete k m) = set m - {(k, v)}"
    using assms(1,3) by (auto simp: AList.delete_eq dest: eq_key_imp_eq_value)
  moreover have "snd ` (set m - {(k, v)}) = snd ` set m - snd ` {(k, v)}"
    by (rule inj_on_image_set_diff[of snd "set m"]) (use assms(2,3) in \<open>auto simp: distinct_map\<close>)
  ultimately show ?thesis by simp
qed

subsection \<open>Every step keeps it\<close>

text \<open>Taking an idle reader out of the cache, by eviction or by the compactor.\<close>

lemma evict_one_ids:
  assumes "cached_ok c" "r \<in> cached_ids c"
  shows "cached_ids (evict_one r c) = cached_ids c - {r}"
  using delete_values[OF _ cached_values(1)[OF assms(1)] cached_mem[OF assms]] assms(1)
  by (simp add: cached_ids_def evict_one_def cached_ok_def)

lemma evict_one_users: "users (evict_one r c) = users c" "holds (evict_one r c) = holds c" "reading (evict_one r c) = reading c"
  "rc_limit (evict_one r c) = rc_limit c" "rc_fresh (evict_one r c) = rc_fresh c" "rc_pc (evict_one r c) = rc_pc c"
  by (auto simp: evict_one_def holds_def[abs_def] reading_def users_def)

lemma evict_one_heap:
  "rc_heap (evict_one r c) = (rc_heap c)(r := (rc_heap c r)\<lparr>sr_cached := False, sr_element := False, sr_open := False\<rparr>)"
  by (simp add: evict_one_def)

lemma evict_one_cached:
  assumes "cached_ok c" "r \<in> cached_ids c"
  shows "cached_ok (evict_one r c)"
proof -
  have r: "r \<in> set (rc_lru c)" "distinct (rc_lru c)" using assms by (auto simp: cached_ok_def)
  have lru: "rc_lru (evict_one r c) = remove1 r (rc_lru c)" by (simp add: evict_one_def)
  have m: "set (rc_readers (evict_one r c)) \<subseteq> set (rc_readers c)" by (auto simp: evict_one_def AList.delete_eq)
  have "sr_segmentID (rc_heap (evict_one r c) r') = sr_segmentID (rc_heap c r')" for r' by (simp add: evict_one_heap)
  then show ?thesis
    using assms m r unfolding cached_ok_def evict_one_ids[OF assms] lru
    by (auto simp: evict_one_users evict_one_heap evict_one_def distinct_delete)
qed

lemma evict_one_held:
  assumes "cached_ok c" "held_ok c" "r \<in> cached_ids c" "sr_refs (rc_heap c r) = 0"
  shows "held_ok (evict_one r c)"
proof -
  have "card (users c r) = 0" using assms by (auto simp: cached_ok_def)
  moreover have "finite (users c r)"
    using assms(2) by (auto simp: held_ok_def users_def reading_def intro: finite_subset[rotated])
  ultimately have idle: "rc_pc c tid \<noteq> Using r" for tid by (auto simp: users_def)
  then have "\<not> holds c tid r" for tid using assms(2,3) by (auto simp: holds_def held_ok_def)
  then show ?thesis
    using assms(2,3) unfolding held_ok_def evict_one_ids[OF assms(1,3)]
    by (auto simp: evict_one_users evict_one_heap)
qed


lemma find_idle:
  assumes "cached_ok c" "List.find (\<lambda>r. sr_refs (rc_heap c r) = 0) (rc_lru c) = Some r"
  shows "r \<in> cached_ids c" "sr_refs (rc_heap c r) = 0"
  using find_in_list[OF assms(2)] assms(1) by (auto simp: cached_ok_def)

lemma evict_preserves:
  assumes "\<And>c r. P c \<Longrightarrow> List.find (\<lambda>r. sr_refs (rc_heap c r) = 0) (rc_lru c) = Some r \<Longrightarrow> P (evict_one r c)"
  shows "P c \<Longrightarrow> P (evictSegmentReadersLocked c)"
proof (induction c rule: evictSegmentReadersLocked.induct)
  case (1 c)
  show ?case by (subst evictSegmentReadersLocked.simps) (auto split: option.split intro: 1 assms)
qed

lemma evict_keeps:
  assumes "cached_ok c" "held_ok c"
  shows "cached_ok (evictSegmentReadersLocked c) \<and> held_ok (evictSegmentReadersLocked c) \<and>
     rc_limit (evictSegmentReadersLocked c) = rc_limit c \<and> rc_pc (evictSegmentReadersLocked c) = rc_pc c"
  by (rule evict_preserves[where P = "\<lambda>d. cached_ok d \<and> held_ok d \<and> rc_limit d = rc_limit c \<and> rc_pc d = rc_pc c"])
    (use assms in \<open>auto simp: evict_one_users intro!: evict_one_cached evict_one_held intro: find_idle\<close>)

lemma evict_limit:
  "cached_ok c \<Longrightarrow> 0 < rc_limit c \<Longrightarrow>
     int (length (rc_readers (evictSegmentReadersLocked c))) \<le> rc_limit c \<or>
     (\<forall>r \<in> cached_ids (evictSegmentReadersLocked c). sr_refs (rc_heap (evictSegmentReadersLocked c) r) \<noteq> 0)"
proof (induction c rule: evictSegmentReadersLocked.induct)
  case (1 c)
  show ?case
  proof (cases "int (length (rc_readers c)) \<le> rc_limit c")
    case True
    then show ?thesis by (simp add: evictSegmentReadersLocked.simps[of c])
  next
    case False
    show ?thesis
    proof (cases "List.find (\<lambda>r. sr_refs (rc_heap c r) = 0) (rc_lru c)")
      case None
      then have "\<forall>r \<in> cached_ids c. sr_refs (rc_heap c r) \<noteq> 0"
        using 1(2) by (auto simp: find_None_iff cached_ok_def)
      then show ?thesis using None by (simp add: evictSegmentReadersLocked.simps[of c])
    next
      case (Some r)
      have e: "evictSegmentReadersLocked c = evictSegmentReadersLocked (evict_one r c)"
        using Some False 1(3) by (simp add: evictSegmentReadersLocked.simps[of c])
      show ?thesis
        using 1(1)[OF _ Some] 1(2,3) False find_idle[OF 1(2) Some] unfolding e
        by (simp add: evict_one_cached evict_one_users)
    qed
  qed
qed

lemma refs_positive: "cached_ok c \<Longrightarrow> r \<in> cached_ids c \<Longrightarrow> sr_refs (rc_heap c r) \<noteq> 0 \<Longrightarrow> 0 < sr_refs (rc_heap c r)"
  by (simp add: cached_ok_def)

lemma evict_inv:
  assumes "cached_ok c" "held_ok c" "0 < rc_limit c"
  shows "cached_ok (evictSegmentReadersLocked c)" "held_ok (evictSegmentReadersLocked c)"
    "within_limit (evictSegmentReadersLocked c)"
  using evict_keeps[OF assms(1,2)] evict_limit[OF assms(1,3)] assms(3)
  by (auto simp: within_limit_def refs_positive)


definition cache_inv :: "reader_cache \<Rightarrow> bool" where
  "cache_inv c \<longleftrightarrow> cached_ok c \<and> held_ok c \<and> within_limit c"

lemma users_set_pc: "users (set_pc tid p c) r = (if p = Using r then insert tid (users c r) else users c r - {tid})"
  by (auto simp: users_def)

lemma reading_set_pc: "reading (set_pc tid p c) = (if p = NotReading then reading c - {tid} else insert tid (reading c))"
  by (auto simp: reading_def)

lemma holds_set_pc: "holds (set_pc tid p c) t r \<longleftrightarrow> (if t = tid then p = Opened r \<or> p = Using r else holds c t r)"
  by (auto simp: holds_def)

lemma finite_reader_users: "held_ok c \<Longrightarrow> finite (users c r)"
  by (auto simp: held_ok_def users_def reading_def intro: finite_subset[rotated])

lemma not_user: "rc_pc c tid \<noteq> Using r \<Longrightarrow> tid \<notin> users c r"
  by (simp add: users_def)

lemma user: "rc_pc c tid = Using r \<Longrightarrow> tid \<in> users c r"
  by (simp add: users_def)

lemma other_users: "rc_pc c tid = Using r \<Longrightarrow> r' \<noteq> r \<Longrightarrow> tid \<notin> users c r'"
  by (simp add: users_def)

lemma set_lru: "cached_ok c \<Longrightarrow> set (rc_lru c) = cached_ids c" "cached_ok c \<Longrightarrow> distinct (rc_lru c)"
  by (simp_all add: cached_ok_def)

lemma move_to_back_lru:
  assumes "distinct (rc_lru c)" "sr_element (rc_heap c r) \<Longrightarrow> r \<in> set (rc_lru c)"
  shows "distinct (rc_lru (move_to_back r c))" "set (rc_lru (move_to_back r c)) = set (rc_lru c)"
  using assms by (auto simp: move_to_back_def)

lemma held_okI:
  assumes "finite (reading c)" "\<And>tid r. holds c tid r \<Longrightarrow> r < rc_fresh c \<and> sr_open (rc_heap c r)"
    "\<And>tid r. rc_pc c tid = Opened r \<Longrightarrow> r \<notin> cached_ids c \<and> sr_refs (rc_heap c r) = 1"
    "\<And>r. r \<notin> cached_ids c \<Longrightarrow> \<not> sr_cached (rc_heap c r) \<and> \<not> sr_element (rc_heap c r)"
    "\<And>r. r \<notin> cached_ids c \<Longrightarrow> sr_open (rc_heap c r) \<Longrightarrow> \<exists>tid. holds c tid r"
    "\<And>r tid tid'. r \<notin> cached_ids c \<Longrightarrow> holds c tid r \<Longrightarrow> holds c tid' r \<Longrightarrow> tid = tid'"
  shows "held_ok c"
  unfolding held_ok_def using assms by blast

lemma held_okD:
  assumes "held_ok c"
  shows held_finite: "finite (reading c)"
    and held_open: "holds c tid r \<Longrightarrow> r < rc_fresh c \<and> sr_open (rc_heap c r)"
    and held_opened: "rc_pc c tid = Opened r \<Longrightarrow> r \<notin> cached_ids c \<and> sr_refs (rc_heap c r) = 1"
    and held_uncached: "r \<notin> cached_ids c \<Longrightarrow> \<not> sr_cached (rc_heap c r) \<and> \<not> sr_element (rc_heap c r)"
    and held_owner: "r \<notin> cached_ids c \<Longrightarrow> sr_open (rc_heap c r) \<Longrightarrow> \<exists>tid. holds c tid r"
    and held_unique: "r \<notin> cached_ids c \<Longrightarrow> holds c tid r \<Longrightarrow> holds c tid' r \<Longrightarrow> tid = tid'"
  using assms unfolding held_ok_def by blast+

lemma use_cached:
  assumes "cache_inv c" "rc_pc c tid = NotReading" "r \<in> cached_ids c"
  shows "cache_inv (set_pc tid (Using r) (move_to_back r (set_reader r ((rc_heap c r)\<lparr>sr_refs := sr_refs (rc_heap c r) + 1\<rparr>) c)))"
    (is "cache_inv ?d")
proof -
  have ok: "cached_ok c" "held_ok c" "within_limit c" using assms(1) by (simp_all add: cache_inv_def)
  note fin = finite_reader_users[OF ok(2)]
  have u: "users ?d r' = (if r' = r then insert tid (users c r) else users c r')" "tid \<notin> users c r'" for r'
    using assms(2) by (auto simp: users_set_pc users_def)
  have lru: "distinct (rc_lru ?d)" "set (rc_lru ?d) = cached_ids c"
    using ok(1) assms(3) by (simp_all add: move_to_back_lru set_lru)
  have h: "holds ?d t r' \<longleftrightarrow> (if t = tid then r' = r else holds c t r')" for t r' by (auto simp: holds_def)
  have "cached_ok ?d"
    using ok(1) lru unfolding cached_ok_def by (auto simp: u fin simp del: users_fields)
  moreover have "held_ok ?d"
  proof (rule held_okI)
    show "finite (reading ?d)" using held_finite[OF ok(2)] by (auto simp: reading_def intro: finite_subset[of _ "insert tid (reading c)"])
    show "r' < rc_fresh ?d \<and> sr_open (rc_heap ?d r')" if "holds ?d t r'" for t r'
      using that held_open[OF ok(2), of t r'] ok(1) assms(3) by (auto simp: h cached_ok_def split: if_splits)
    show "r' \<notin> cached_ids ?d \<and> sr_refs (rc_heap ?d r') = 1" if "rc_pc ?d t = Opened r'" for t r'
      using that held_opened[OF ok(2), of t r'] assms(3) by (auto split: if_splits)
    show "\<not> sr_cached (rc_heap ?d r') \<and> \<not> sr_element (rc_heap ?d r')" if "r' \<notin> cached_ids ?d" for r'
      using that held_uncached[OF ok(2), of r'] assms(3) by auto
    show "\<exists>t. holds ?d t r'" if o: "r' \<notin> cached_ids ?d" "sr_open (rc_heap ?d r')" for r'
    proof -
      have "r' \<noteq> r" using o(1) assms(3) by auto
      then obtain t where "holds c t r'" using o held_owner[OF ok(2), of r'] by auto
      moreover from this have "t \<noteq> tid" using assms(2) by (auto simp: holds_def)
      ultimately show ?thesis unfolding h by auto
    qed
    show "t = t'" if "r' \<notin> cached_ids ?d" "holds ?d t r'" "holds ?d t' r'" for r' t t'
      using that held_unique[OF ok(2), of r' t t'] assms(3) by (auto simp: h split: if_splits)
  qed
  moreover have "within_limit ?d" using ok(1,3) by (auto simp: within_limit_def cached_ok_def)
  ultimately show ?thesis by (simp add: cache_inv_def)
qed

text \<open>Closing a reader that only this goroutine has.\<close>

lemma drop_uncached:
  assumes "cache_inv c" "holds c tid r" "r \<notin> cached_ids c"
  shows "cache_inv (set_pc tid NotReading (set_reader r ((rc_heap c r)\<lparr>sr_open := False\<rparr>) c))" (is "cache_inv ?d")
proof -
  have ok: "cached_ok c" "held_ok c" "within_limit c" using assms(1) by (simp_all add: cache_inv_def)
  have only: "holds c t r \<Longrightarrow> t = tid" for t using ok(2) assms(2,3) by (auto simp: held_ok_def)
  have u: "users ?d r' = users c r'" if "r' \<in> cached_ids c" for r'
    using that assms(2,3) by (auto simp: users_def holds_def)
  have h: "holds ?d t r' \<longleftrightarrow> t \<noteq> tid \<and> holds c t r'" for t r' by (auto simp: holds_def)
  have "cached_ok ?d"
    using ok(1) u assms(3) mem_cached[of _ r c] unfolding cached_ok_def by (auto simp del: users_fields)
  moreover have "held_ok ?d"
  proof (rule held_okI)
    show "finite (reading ?d)" using held_finite[OF ok(2)] by (auto simp: reading_def intro: finite_subset[of _ "reading c"])
    show "r' < rc_fresh ?d \<and> sr_open (rc_heap ?d r')" if "holds ?d t r'" for t r'
      using that held_open[OF ok(2), of t r'] only by (auto simp: h)
    show "r' \<notin> cached_ids ?d \<and> sr_refs (rc_heap ?d r') = 1" if "rc_pc ?d t = Opened r'" for t r'
      using that held_opened[OF ok(2), of t r'] by (auto split: if_splits)
    show "\<not> sr_cached (rc_heap ?d r') \<and> \<not> sr_element (rc_heap ?d r')" if "r' \<notin> cached_ids ?d" for r'
      using that held_uncached[OF ok(2), of r'] by auto
    show "\<exists>t. holds ?d t r'" if o: "r' \<notin> cached_ids ?d" "sr_open (rc_heap ?d r')" for r'
    proof -
      have "r' \<noteq> r" using o(2) by auto
      moreover from this obtain t where "holds c t r'" using o held_owner[OF ok(2), of r'] by auto
      ultimately have "t \<noteq> tid \<and> holds c t r'" using assms(2) by (auto simp: holds_def)
      then show ?thesis unfolding h by auto
    qed
    show "t = t'" if "r' \<notin> cached_ids ?d" "holds ?d t r'" "holds ?d t' r'" for r' t t'
      using that held_unique[OF ok(2), of r' t t'] by (auto simp: h)
  qed
  moreover have "within_limit ?d" using ok(3) assms(3) by (auto simp: within_limit_def)
  ultimately show ?thesis by (simp add: cache_inv_def)
qed


lemma inv_lookup:
  assumes "cache_inv c" "rc_pc c tid = NotReading"
  shows "cache_inv (acquire_lookup tid segmentID c)"
proof (cases "if 0 < rc_limit c then map_of (rc_readers c) segmentID else None")
  case None
  have ok: "cached_ok c" "held_ok c" "within_limit c" using assms(1) by (simp_all add: cache_inv_def)
  let ?d = "set_pc tid (Opening segmentID) c"
  have u: "users ?d r = users c r" "holds ?d t r = holds c t r" for t r using assms(2) by (auto simp: users_def holds_def)
  have "reading ?d = insert tid (reading c)" by (simp add: reading_set_pc)
  then have "cache_inv ?d"
    using ok assms(2) by (auto simp: cache_inv_def cached_ok_def held_ok_def within_limit_def u)
  then show ?thesis using None by (simp add: acquire_lookup_def)
next
  case (Some r)
  then have "r \<in> cached_ids c"
    using assms(1) by (auto simp: cache_inv_def cached_lookup split: if_splits)
  then show ?thesis using use_cached[OF assms] Some by (simp add: acquire_lookup_def Let_def)
qed

lemma inv_open:
  assumes "cache_inv c" "rc_pc c tid = Opening segmentID"
  shows "cache_inv (acquire_open tid segmentID ok c)"
proof -
  have inv: "cached_ok c" "held_ok c" "within_limit c" using assms(1) by (simp_all add: cache_inv_def)
  have fresh: "rc_fresh c \<notin> cached_ids c" "\<not> holds c t (rc_fresh c)" for t
    using inv(1) held_open[OF inv(2), of t "rc_fresh c"] by (auto simp: cached_ok_def)
  define p where "p = (if \<not> ok then NotReading else if rc_limit c \<le> 0 then Using (rc_fresh c) else Opened (rc_fresh c))"
  let ?d = "acquire_open tid segmentID ok c"
  have d: "rc_readers ?d = rc_readers c" "rc_lru ?d = rc_lru c" "rc_limit ?d = rc_limit c" "rc_pc ?d = (rc_pc c)(tid := p)"
    "\<forall>r. r \<noteq> rc_fresh c \<longrightarrow> rc_heap ?d r = rc_heap c r" "rc_fresh c \<le> rc_fresh ?d"
    by (auto simp: acquire_open_def p_def Let_def)
  have ids: "cached_ids ?d = cached_ids c" by (simp add: cached_ids_def d)
  have new: "ok \<Longrightarrow> rc_heap ?d (rc_fresh c) = \<lparr>sr_segmentID = segmentID, sr_refs = 1, sr_element = False,
      sr_cached = False, sr_open = True\<rparr> \<and> rc_fresh ?d = Suc (rc_fresh c)" "\<not> ok \<Longrightarrow> rc_heap ?d = rc_heap c \<and> rc_fresh ?d = rc_fresh c"
    by (auto simp: acquire_open_def Let_def)
  have u: "users ?d r = users c r" if "r \<in> cached_ids c" for r
    using that fresh(1) assms(2) by (auto simp: users_def d p_def split: if_splits)
  have h: "holds ?d t r \<longleftrightarrow> (if t = tid then ok \<and> r = rc_fresh c else holds c t r)" for t r
    by (auto simp: holds_def d p_def)
  have heap: "rc_heap ?d r = rc_heap c r" if "r \<in> cached_ids c" for r using d(5) fresh(1) that by metis
  have "cached_ok ?d"
    using inv(1) u heap fresh(1) mem_cached[of _ _ c] d(6) unfolding cached_ok_def ids d(1,2)
    by (auto intro: less_le_trans)
  moreover have "held_ok ?d"
  proof (rule held_okI)
    show "finite (reading ?d)" using held_finite[OF inv(2)]
      by (auto simp: reading_def d intro: finite_subset[of _ "insert tid (reading c)"])
    show "r < rc_fresh ?d \<and> sr_open (rc_heap ?d r)" if "holds ?d t r" for t r
      using that held_open[OF inv(2), of t r] fresh(2)[of t] new d(5,6) by (cases "r = rc_fresh c") (auto simp: h split: if_splits)
    show "r \<notin> cached_ids ?d \<and> sr_refs (rc_heap ?d r) = 1" if "rc_pc ?d t = Opened r" for t r
      using that held_opened[OF inv(2), of t r] fresh new d(5) unfolding ids
      by (cases "r = rc_fresh c") (auto simp: d p_def holds_def split: if_splits)
    show "\<not> sr_cached (rc_heap ?d r) \<and> \<not> sr_element (rc_heap ?d r)" if "r \<notin> cached_ids ?d" for r
      using that[unfolded ids] held_uncached[OF inv(2), of r] new d(5) by (cases "r = rc_fresh c"; cases ok) auto
    show "\<exists>t. holds ?d t r" if o: "r \<notin> cached_ids ?d" "sr_open (rc_heap ?d r)" for r
    proof (cases "ok \<and> r = rc_fresh c")
      case True then show ?thesis unfolding h by auto
    next
      case False
      then have "sr_open (rc_heap c r)" using o(2) new d(5) by (cases ok) auto
      then obtain t where "holds c t r" using o held_owner[OF inv(2), of r] by (auto simp: ids)
      then have "holds ?d t r" using assms(2) by (cases "t = tid") (simp_all add: h, simp add: holds_def)
      then show ?thesis ..
    qed
    show "t = t'" if "r \<notin> cached_ids ?d" "holds ?d t r" "holds ?d t' r" for r t t'
      using that held_unique[OF inv(2), of r t t'] fresh(2) by (auto simp: h ids split: if_splits)
  qed
  moreover have "within_limit ?d" using inv(3) heap by (auto simp: within_limit_def d ids p_def)
  ultimately show ?thesis by (simp add: cache_inv_def)
qed


lemma set_pc_twice: "set_pc tid p (set_pc tid q c) = set_pc tid p c"
  by (simp add: set_pc_def)

lemma set_pc_commute:
  "set_reader r x (set_pc tid p c) = set_pc tid p (set_reader r x c)"
  "move_to_back r (set_pc tid p c) = set_pc tid p (move_to_back r c)"
  by (simp_all add: set_pc_def set_reader_def move_to_back_def)

lemma update_fresh: "k \<notin> fst ` set m \<Longrightarrow> AList.update k v m = m @ [(k, v)]"
  by (induction m) auto

text \<open>A reader that is put into the cache, before eviction.\<close>

lemma enter_cache:
  assumes "cache_inv c" "rc_pc c tid = Opened r" "map_of (rc_readers c) (sr_segmentID (rc_heap c r)) = None"
  defines "d \<equiv> set_pc tid (Using r) (set_reader r ((rc_heap c r)\<lparr>sr_cached := True, sr_element := True\<rparr>)
     (c\<lparr>rc_lru := rc_lru c @ [r], rc_readers := AList.update (sr_segmentID (rc_heap c r)) r (rc_readers c)\<rparr>))"
  shows "cached_ok d" "held_ok d" "0 < rc_limit d"
proof -
  have inv: "cached_ok c" "held_ok c" "within_limit c" using assms(1) by (simp_all add: cache_inv_def)
  have r: "r \<notin> cached_ids c" "sr_refs (rc_heap c r) = 1" "r < rc_fresh c" "sr_open (rc_heap c r)"
    using held_opened[OF inv(2) assms(2)] held_open[OF inv(2), of tid r] assms(2) by (simp_all add: holds_def)
  have nk: "sr_segmentID (rc_heap c r) \<notin> fst ` set (rc_readers c)" using assms(3) by (simp add: map_of_eq_None_iff)
  then have m: "rc_readers d = rc_readers c @ [(sr_segmentID (rc_heap c r), r)]"
    by (simp add: d_def update_fresh)
  have ids: "cached_ids d = insert r (cached_ids c)" by (simp add: cached_ids_def m)
  have only: "holds c t r \<longleftrightarrow> t = tid" for t
    using held_unique[OF inv(2) r(1), of t tid] assms(2) by (auto simp: holds_def)
  have u: "users d r = {tid}" using only by (auto simp: users_def d_def holds_def)
  have u': "users d r' = users c r'" if "r' \<noteq> r" for r' using that assms(2) by (auto simp: users_def d_def)
  have heap: "rc_heap d = (rc_heap c)(r := (rc_heap c r)\<lparr>sr_cached := True, sr_element := True\<rparr>)"
    "rc_fresh d = rc_fresh c" "rc_lru d = rc_lru c @ [r]" "rc_pc d = (rc_pc c)(tid := Using r)" by (simp_all add: d_def)
  have h: "holds d t r' \<longleftrightarrow> holds c t r'" for t r' using assms(2) by (auto simp: holds_def heap)
  show "cached_ok d"
    using inv(1) r nk u u' unfolding cached_ok_def ids by (auto simp: heap m)
  show "held_ok d"
  proof (rule held_okI)
    show "finite (reading d)" using held_finite[OF inv(2)] assms(2)
      by (auto simp: reading_def heap intro: finite_subset[of _ "reading c"])
    show "r' < rc_fresh d \<and> sr_open (rc_heap d r')" if "holds d t r'" for t r'
      using that held_open[OF inv(2), of t r'] by (auto simp: h heap)
    show "r' \<notin> cached_ids d \<and> sr_refs (rc_heap d r') = 1" if "rc_pc d t = Opened r'" for t r'
      using that held_opened[OF inv(2), of t r'] only[of t] by (auto simp: ids heap holds_def split: if_splits)
    show "\<not> sr_cached (rc_heap d r') \<and> \<not> sr_element (rc_heap d r')" if "r' \<notin> cached_ids d" for r'
      using that held_uncached[OF inv(2), of r'] by (auto simp: ids heap)
    show "\<exists>t. holds d t r'" if o: "r' \<notin> cached_ids d" "sr_open (rc_heap d r')" for r'
      using o held_owner[OF inv(2), of r'] by (auto simp: ids heap h)
    show "t = t'" if "r' \<notin> cached_ids d" "holds d t r'" "holds d t' r'" for r' t t'
      using that held_unique[OF inv(2), of r' t t'] by (auto simp: ids h)
  qed
  show "0 < rc_limit d" using inv(3) assms(2) by (auto simp: within_limit_def d_def less_le)
qed

lemma inv_insert:
  assumes "cache_inv c" "rc_pc c tid = Opened r"
  shows "cache_inv (acquire_insert tid r c)"
proof (cases "map_of (rc_readers c) (sr_segmentID (rc_heap c r))")
  case None
  show ?thesis
    using evict_inv[OF enter_cache[OF assms None]] None
    by (simp add: acquire_insert_def Let_def cache_inv_def evict_set_pc)
next
  case (Some existing)
  have r: "r \<notin> cached_ids c" "holds c tid r"
    using assms by (auto simp: cache_inv_def held_ok_def holds_def)
  have e: "existing \<in> cached_ids c" using Some assms(1) by (simp add: cache_inv_def cached_lookup)
  define d where "d = set_pc tid NotReading (set_reader r ((rc_heap c r)\<lparr>sr_open := False\<rparr>) c)"
  have d: "cache_inv d" "rc_pc d tid = NotReading" "existing \<in> cached_ids d"
    using drop_uncached[OF assms(1) r(2,1)] e by (simp_all add: d_def)
  from use_cached[OF d] show ?thesis
    using Some by (simp add: acquire_insert_def Let_def d_def set_pc_commute set_pc_twice)
qed


lemma leave_cached:
  assumes "cache_inv c" "rc_pc c tid = Using r" "sr_cached (rc_heap c r)"
  defines "refs \<equiv> (if 0 < sr_refs (rc_heap c r) then sr_refs (rc_heap c r) - 1 else sr_refs (rc_heap c r))"
  defines "c1 \<equiv> set_reader r ((rc_heap c r)\<lparr>sr_refs := refs\<rparr>) c"
  defines "d \<equiv> set_pc tid NotReading (if refs = 0 then move_to_back r c1 else c1)"
  shows "cached_ok d" "held_ok d" "0 < rc_limit d"
proof -
  have inv: "cached_ok c" "held_ok c" "within_limit c" using assms(1) by (simp_all add: cache_inv_def)
  have r: "r \<in> cached_ids c" using held_uncached[OF inv(2), of r] assms(3) by auto
  note fin = finite_reader_users[OF inv(2)]
  have "0 < card (users c r)" using fin user[OF assms(2)] by (auto simp: card_gt_0_iff)
  moreover have "sr_refs (rc_heap c r) = int (card (users c r))" using inv(1) r by (simp add: cached_ok_def)
  ultimately have refs: "refs = int (card (users c r - {tid}))"
    using user[OF assms(2)] by (simp add: refs_def)
  have f: "rc_readers d = rc_readers c" "rc_heap d = (rc_heap c)(r := (rc_heap c r)\<lparr>sr_refs := refs\<rparr>)"
    "rc_fresh d = rc_fresh c" "rc_pc d = (rc_pc c)(tid := NotReading)" "rc_limit d = rc_limit c"
    by (simp_all add: d_def c1_def)
  have ids: "cached_ids d = cached_ids c" by (simp add: cached_ids_def f)
  have u: "users d r' = users c r' - {tid}" for r' by (auto simp: users_def f)
  have u': "users c r' - {tid} = users c r'" if "r' \<noteq> r" for r' using that assms(2) by (auto simp: users_def)
  have lru: "distinct (rc_lru d)" "set (rc_lru d) = cached_ids c"
    using r inv(1) by (simp_all add: d_def c1_def move_to_back_lru set_lru)
  have h: "holds d t r' \<longleftrightarrow> t \<noteq> tid \<and> holds c t r'" for t r' by (auto simp: holds_def f)
  show "cached_ok d" using inv(1) lru unfolding cached_ok_def ids f u by (auto simp: refs u')
  show "held_ok d"
  proof (rule held_okI)
    show "finite (reading d)" using held_finite[OF inv(2)]
      by (auto simp: reading_def f intro: finite_subset[of _ "reading c"])
    show "r' < rc_fresh d \<and> sr_open (rc_heap d r')" if "holds d t r'" for t r'
      using that held_open[OF inv(2), of t r'] by (auto simp: h f)
    show "r' \<notin> cached_ids d \<and> sr_refs (rc_heap d r') = 1" if "rc_pc d t = Opened r'" for t r'
      using that held_opened[OF inv(2), of t r'] r by (auto simp: ids f split: if_splits)
    show "\<not> sr_cached (rc_heap d r') \<and> \<not> sr_element (rc_heap d r')" if "r' \<notin> cached_ids d" for r'
      using that held_uncached[OF inv(2), of r'] r by (auto simp: ids f)
    show "\<exists>t. holds d t r'" if o: "r' \<notin> cached_ids d" "sr_open (rc_heap d r')" for r'
    proof -
      have "r' \<noteq> r" using o(1) r by (auto simp: ids)
      moreover from this obtain t where "holds c t r'" using o held_owner[OF inv(2), of r'] by (auto simp: ids f)
      ultimately have "t \<noteq> tid \<and> holds c t r'" using assms(2) by (auto simp: holds_def)
      then show ?thesis unfolding h by auto
    qed
    show "t = t'" if "r' \<notin> cached_ids d" "holds d t r'" "holds d t' r'" for r' t t'
      using that held_unique[OF inv(2), of r' t t'] by (auto simp: ids h)
  qed
  show "0 < rc_limit d" using inv(3) r by (auto simp: within_limit_def f cached_ids_def less_le)
qed

lemma inv_release:
  assumes "cache_inv c" "rc_pc c tid = Using r"
  shows "cache_inv (releaseSegmentReader tid r c)"
proof (cases "sr_cached (rc_heap c r)")
  case True
  show ?thesis
    using evict_inv[OF leave_cached[OF assms True]] True
    by (simp add: releaseSegmentReader_def Let_def cache_inv_def evict_set_pc)
next
  case False
  then have "r \<notin> cached_ids c" using assms(1) by (auto simp: cache_inv_def cached_ok_def)
  then show ?thesis
    using drop_uncached[OF assms(1), of tid r] assms(2) False by (simp add: releaseSegmentReader_def holds_def)
qed

lemma inv_evict_one:
  assumes "cache_inv c" "r \<in> cached_ids c" "sr_refs (rc_heap c r) = 0"
  shows "cache_inv (evict_one r c)"
proof -
  have inv: "cached_ok c" "held_ok c" "within_limit c" using assms(1) by (simp_all add: cache_inv_def)
  have "length (rc_readers (evict_one r c)) \<le> length (rc_readers c)" by (simp add: evict_one_def length_delete_le)
  then have "within_limit (evict_one r c)"
    using inv(3) unfolding within_limit_def evict_one_ids[OF inv(1) assms(2)]
    by (auto simp: evict_one_users evict_one_heap)
  then show ?thesis using evict_one_cached[OF inv(1) assms(2)] evict_one_held[OF inv(1,2) assms(2,3)]
    by (simp add: cache_inv_def)
qed

lemma inv_compact:
  assumes "cache_inv c"
  shows "cache_inv (fst (closeSegmentReaderLocked segmentID c))"
proof (cases "map_of (rc_readers c) segmentID")
  case None
  then show ?thesis using assms by (simp add: closeSegmentReaderLocked_def)
next
  case (Some r)
  then have r: "r \<in> cached_ids c" "sr_segmentID (rc_heap c r) = segmentID"
    using assms by (simp_all add: cache_inv_def cached_lookup)
  then have e: "sr_element (rc_heap c r)" "0 \<le> sr_refs (rc_heap c r)" using assms by (auto simp: cache_inv_def cached_ok_def)
  show ?thesis
  proof (cases "0 < sr_refs (rc_heap c r)")
    case True
    then show ?thesis using assms Some by (simp add: closeSegmentReaderLocked_def)
  next
    case False
    then have "fst (closeSegmentReaderLocked segmentID c) = evict_one r c"
      using Some r e by (simp add: closeSegmentReaderLocked_def evict_one_def)
    then show ?thesis using inv_evict_one[OF assms r(1)] False e(2) by simp
  qed
qed

lemma inv_close_all:
  assumes "cache_inv c" "\<forall>tid. rc_pc c tid = NotReading"
  shows "cache_inv (closeSegmentReadersLocked c)"
proof -
  have "\<not> sr_open (rc_heap c r) \<and> \<not> sr_cached (rc_heap c r) \<and> \<not> sr_element (rc_heap c r)" if "r \<notin> cached_ids c" for r
    using assms that held_uncached[of c r] held_owner[of c r] by (auto simp: cache_inv_def holds_def)
  then show ?thesis
    using assms by (auto simp: cache_inv_def closeSegmentReadersLocked_def cached_ok_def held_ok_def within_limit_def
        cached_ids_def holds_def reading_def)
qed

lemma inv_step: "cache_step c c' \<Longrightarrow> cache_inv c \<Longrightarrow> cache_inv c'"
  by (induction rule: cache_step.induct) (simp_all add: inv_lookup inv_open inv_insert inv_release inv_compact inv_close_all)

lemma inv_run: "cache_run limit c \<Longrightarrow> cache_inv c"
proof (induction rule: cache_run.induct)
  case start
  then show ?case
    by (simp add: new_cache_def cache_inv_def cached_ok_def held_ok_def within_limit_def cached_ids_def holds_def reading_def)
qed (blast intro: inv_step)


lemma limit_run: "cache_run limit c \<Longrightarrow> rc_limit c = max 0 limit"
proof (induction rule: cache_run.induct)
  case start
  then show ?case by (simp add: new_cache_def)
next
  case (step c c')
  have e: "rc_limit (evictSegmentReadersLocked d) = rc_limit d" for d
    by (rule evict_preserves[where P = "\<lambda>x. rc_limit x = rc_limit d"]) (simp_all add: evict_one_users)
  from step(2) have "rc_limit c' = rc_limit c"
    by (induction rule: cache_step.induct)
      (simp_all add: acquire_lookup_def acquire_open_def acquire_insert_def releaseSegmentReader_def
        closeSegmentReaderLocked_def closeSegmentReadersLocked_def e Let_def split: option.splits)
  then show ?case using step by simp
qed

definition held_by :: "reader_cache \<Rightarrow> nat \<Rightarrow> nat" where
  "held_by c tid = (case rc_pc c tid of Using r \<Rightarrow> r | Opened r \<Rightarrow> r | _ \<Rightarrow> 0)"

lemma held_by_image: "holds c tid r \<Longrightarrow> r \<in> held_by c ` reading c"
  by (rule image_eqI[of _ _ tid]) (auto simp: holds_def held_by_def reading_def)

lemma busy_cached_bound:
  assumes "cache_inv c" "\<forall>r \<in> cached_ids c. 0 < sr_refs (rc_heap c r)"
  shows "length (rc_readers c) \<le> card (reading c)"
proof -
  have inv: "cached_ok c" "held_ok c" using assms(1) by (simp_all add: cache_inv_def)
  have "cached_ids c \<subseteq> held_by c ` reading c"
  proof
    fix r assume "r \<in> cached_ids c"
    then have "0 < card (users c r)" using assms(2) inv(1) by (auto simp: cached_ok_def)
    then obtain tid where "tid \<in> users c r" by (auto simp: card_gt_0_iff)
    then show "r \<in> held_by c ` reading c" by (auto simp: users_def holds_def intro!: held_by_image)
  qed
  then have "card (cached_ids c) \<le> card (reading c)" by (rule surj_card_le[OF held_finite[OF inv(2)]])
  then show ?thesis by (simp add: cached_values[OF inv(1)])
qed

lemma open_readers: "cache_inv c \<Longrightarrow> {r. sr_open (rc_heap c r)} \<subseteq> cached_ids c \<union> held_by c ` reading c"
  using held_owner held_by_image by (fastforce simp: cache_inv_def)

text \<open>
  C13. The reader cache is bounded and never closes a file in use. In every interleaving of reading
  goroutines and the compactor: the cache holds at most as many readers as configured, or as there
  are goroutines reading when these are more; a reader in use is open; the number of open segment
  files is at most the cached ones plus one per goroutine, so no descriptor leaks, and once no
  goroutine reads the open files are exactly the cached ones.
\<close>
theorem reader_cache_bounded:
  assumes "cache_run limit c"
  shows "int (cachedSegmentReaderCount c) \<le> max limit (int (card (reading c)))
    \<and> (\<forall>tid r. rc_pc c tid = Using r \<longrightarrow> sr_open (rc_heap c r))
    \<and> card {r. sr_open (rc_heap c r)} \<le> cachedSegmentReaderCount c + card (reading c)
    \<and> (reading c = {} \<longrightarrow> {r. sr_open (rc_heap c r)} = cached_ids c)"
proof (intro conjI allI impI)
  have inv: "cache_inv c" "cached_ok c" "held_ok c" "within_limit c"
    using inv_run[OF assms] by (simp_all add: cache_inv_def)
  have len: "length (rc_readers c) = card (cached_ids c)" "finite (cached_ids c)"
    using cached_values[OF inv(2)] by (simp_all add: cached_ids_def)
  show "int (cachedSegmentReaderCount c) \<le> max limit (int (card (reading c)))"
    using inv(4) busy_cached_bound[OF inv(1)] limit_run[OF assms]
    by (auto simp: within_limit_def cachedSegmentReaderCount_def max_def split: if_splits)
  show "sr_open (rc_heap c r)" if "rc_pc c tid = Using r" for tid r
    using held_open[OF inv(3), of tid r] that by (simp add: holds_def)
  have "card {r. sr_open (rc_heap c r)} \<le> card (cached_ids c \<union> held_by c ` reading c)"
    using open_readers[OF inv(1)] held_finite[OF inv(3)] len(2) by (intro card_mono) auto
  also have "\<dots> \<le> card (cached_ids c) + card (held_by c ` reading c)" by (rule card_Un_le)
  also have "\<dots> \<le> card (cached_ids c) + card (reading c)"
    using card_image_le[OF held_finite[OF inv(3)]] by simp
  finally show "card {r. sr_open (rc_heap c r)} \<le> cachedSegmentReaderCount c + card (reading c)"
    by (simp add: cachedSegmentReaderCount_def len)
  show "{r. sr_open (rc_heap c r)} = cached_ids c" if "reading c = {}"
    using that open_readers[OF inv(1)] inv(2) by (auto simp: cached_ok_def)
qed

text \<open>One reader over a cache of size one: two segments are opened in turn and the first is evicted.\<close>

definition demo_read :: "u64 \<Rightarrow> reader_cache \<Rightarrow> reader_cache" where
  "demo_read segmentID c = acquire_insert 0 (rc_fresh c) (acquire_open 0 segmentID True (acquire_lookup 0 segmentID c))"

definition demo_cache :: reader_cache where
  "demo_cache = demo_read 2 (releaseSegmentReader 0 0 (demo_read 1 (new_cache 1)))"

lemma demo_read_run:
  assumes "cache_run limit c" "rc_pc c 0 = NotReading" "map_of (rc_readers c) seg = None" "0 < rc_limit c"
  shows "cache_run limit (demo_read seg c)"
proof -
  let ?c1 = "acquire_lookup 0 seg c"
  let ?c2 = "acquire_open 0 seg True ?c1"
  have "cache_run limit ?c1" using assms(1) cache_step.lookup[OF assms(2)] by (rule cache_run.step)
  moreover have "rc_pc ?c1 0 = Opening seg" using assms(3) by (simp add: acquire_lookup_def)
  ultimately have "cache_run limit ?c2" by (blast intro: cache_run.step cache_step.open_file)
  moreover have "rc_pc ?c2 0 = Opened (rc_fresh c)"
    using assms(3,4) by (simp add: acquire_open_def acquire_lookup_def Let_def)
  ultimately show ?thesis unfolding demo_read_def by (blast intro: cache_run.step cache_step.insert)
qed

theorem reader_cache_bounded_witness:
  "int (cachedSegmentReaderCount demo_cache) \<le> max 1 (int (card (reading demo_cache))) \<and>
   sr_open (rc_heap demo_cache 1) \<and> rc_readers demo_cache = [(2, 1)] \<and> \<not> sr_open (rc_heap demo_cache 0)"
proof -
  note ev = demo_read_def acquire_lookup_def acquire_open_def acquire_insert_def releaseSegmentReader_def
    evictSegmentReadersLocked.simps evict_one_def new_cache_def set_pc_def set_reader_def move_to_back_def Let_def
  have r1: "cache_run 1 (demo_read 1 (new_cache 1))"
    by (rule demo_read_run[OF cache_run.start]) (simp_all add: new_cache_def)
  have "rc_pc (demo_read 1 (new_cache 1)) 0 = Using 0" by (simp add: ev)
  then have r2: "cache_run 1 (releaseSegmentReader 0 0 (demo_read 1 (new_cache 1)))"
    by (rule cache_run.step[OF r1 cache_step.release])
  have run: "cache_run 1 demo_cache"
    unfolding demo_cache_def by (rule demo_read_run[OF r2]) (simp_all add: ev)
  have pc: "rc_pc demo_cache 0 = Using 1" by (simp add: demo_cache_def ev)
  have "rc_readers demo_cache = [(2, 1)] \<and> \<not> sr_open (rc_heap demo_cache 0)" by (simp add: demo_cache_def ev)
  with reader_cache_bounded[OF run] pc show ?thesis by auto
qed

end
