(* ===== verification/Log_Reading.thy ===== *)
theory Log_Reading
  imports Log_Refinement
begin

text \<open>
  The batched raw reader of the log store (\<open>Store.ReadRawEach\<close>, internal/logstore/store.go) and the
  gRPC adapter (internal/logstore/service.go).

  The raw reader takes the store lock once per batch and reads without it. The store it sees at the
  \<open>k\<close>-th lock is an argument, so that appends and trims between two batches are covered. A reader
  that is kept open across batches of one segment is opened again for each batch in the model; the
  bytes it returns are those of the append-only file either way. The loop runs on fuel, and running
  out is \<^const>\<open>None\<close>.
\<close>

subsection \<open>The raw reader\<close>

datatype 'e read_error = ReadFailed log_error | EmitFailed 'e

definition rawReadBatchEntries :: nat where
  "rawReadBatchEntries = 1024"

definition read_raw_entry :: "hashes \<Rightarrow> store \<Rightarrow> string \<Rightarrow> stream_entry \<Rightarrow> log_error + raw_record" where
  "read_raw_entry hs s streamID entry =
     (case openSegmentReader s (se_SegmentID entry) of
        Inl e \<Rightarrow> Inl e
      | Inr src \<Rightarrow> readIndexedRawRecordFromReader hs src streamID entry)"

definition raw_batch :: "store \<Rightarrow> string \<Rightarrow> u64 \<Rightarrow> u64 \<Rightarrow> int \<Rightarrow> stream_entry list" where
  "raw_batch s streamID nextSeq snapshotNextSeq remaining =
     (let entries = sm_entries (stream s streamID);
          start = first_from entries nextSeq;
          maxEnd = first_from entries snapshotNextSeq;
          batchSize = (if 0 < remaining \<and> remaining < int rawReadBatchEntries then nat remaining else rawReadBatchEntries);
          stop = min (start + batchSize) maxEnd
      in if start < stop then take (stop - start) (drop start entries) else [])"

text \<open>One batch: \<^const>\<open>None\<close> after the result means that the limit was reached.\<close>

fun raw_emit :: "(stream_entry \<Rightarrow> log_error + raw_record) \<Rightarrow> ('a \<Rightarrow> raw_record \<Rightarrow> 'e + 'a) \<Rightarrow> stream_entry list \<Rightarrow>
    u64 \<Rightarrow> int \<Rightarrow> 'a \<Rightarrow> 'e read_error + 'a \<times> (u64 \<times> int) option" where
  "raw_emit rd emit [] nextSeq remaining acc = Inr (acc, Some (nextSeq, remaining))"
| "raw_emit rd emit (entry # es) nextSeq remaining acc =
     (case rd entry of
        Inl e \<Rightarrow> Inl (ReadFailed e)
      | Inr rec \<Rightarrow>
          (case emit acc rec of
             Inl e \<Rightarrow> Inl (EmitFailed e)
           | Inr acc1 \<Rightarrow>
               if 0 < remaining then
                 (if remaining - 1 = 0 then Inr (acc1, None)
                  else raw_emit rd emit es (se_Seq entry + 1) (remaining - 1) acc1)
               else raw_emit rd emit es (se_Seq entry + 1) remaining acc1))"

fun raw_loop :: "hashes \<Rightarrow> (nat \<Rightarrow> store) \<Rightarrow> string \<Rightarrow> ('a \<Rightarrow> raw_record \<Rightarrow> 'e + 'a) \<Rightarrow> nat \<Rightarrow> nat \<Rightarrow> u64 \<Rightarrow> int \<Rightarrow>
    u64 option \<Rightarrow> 'a \<Rightarrow> ('e read_error + 'a) option" where
  "raw_loop hs locked streamID emit 0 k nextSeq0 remaining snapshot acc = None"
| "raw_loop hs locked streamID emit (Suc fuel) k nextSeq0 remaining snapshot acc =
     (let s = locked k; state = stream s streamID in
      if sm_nextSeq state = 0 then Some (Inr acc)
      else
        (let (nextSeq, snapshotNextSeq) =
               (case snapshot of
                  None \<Rightarrow> (if nextSeq0 < sm_trimBefore state then sm_trimBefore state else nextSeq0, sm_nextSeq state)
                | Some q \<Rightarrow> (nextSeq0, q))
         in if snapshotNextSeq \<le> nextSeq then Some (Inr acc)
            else
              (let selected = raw_batch s streamID nextSeq snapshotNextSeq remaining in
               if selected = [] then Some (Inr acc)
               else
                 (case raw_emit (read_raw_entry hs s streamID) emit selected nextSeq remaining acc of
                    Inl e \<Rightarrow> Some (Inl e)
                  | Inr (acc1, None) \<Rightarrow> Some (Inr acc1)
                  | Inr (acc1, Some (nextSeq1, remaining1)) \<Rightarrow>
                      raw_loop hs locked streamID emit fuel (k + 1) nextSeq1 remaining1 (Some snapshotNextSeq) acc1))))"

definition ReadRawEach :: "hashes \<Rightarrow> (nat \<Rightarrow> store) \<Rightarrow> nat \<Rightarrow> string \<Rightarrow> u64 \<Rightarrow> int \<Rightarrow> ('a \<Rightarrow> raw_record \<Rightarrow> 'e + 'a) \<Rightarrow> 'a \<Rightarrow>
    ('e read_error + 'a) option" where
  "ReadRawEach hs locked fuel streamID fromSeq limit emit acc =
     (if streamID = '''' then Some (Inl (ReadFailed StreamIDRequired))
      else raw_loop hs locked streamID emit fuel 0 (if fromSeq = 0 then 1 else fromSeq) limit None acc)"

subsection \<open>The gRPC adapter\<close>

definition logRecordFromStoreRecord :: "Record \<Rightarrow> log_record" where
  "logRecordFromStoreRecord rec =
     \<lparr>pb_StreamId = rec_StreamID rec, pb_Seq = rec_Seq rec, pb_EventType = rec_EventType rec,
      pb_IdempotencyKey = rec_IdempotencyKey rec, pb_Payload = rec_Payload rec,
      pb_TimestampMs = rec_TimestampMs rec, pb_Crc32 = rec_CRC32 rec\<rparr>"

definition rawRecordToProto :: "raw_record \<Rightarrow> log_record" where
  "rawRecordToProto rec =
     \<lparr>pb_StreamId = rr_StreamID rec, pb_Seq = rr_Seq rec, pb_EventType = rr_EventType rec,
      pb_IdempotencyKey = rr_IdempotencyKey rec, pb_Payload = rr_Payload rec,
      pb_TimestampMs = rr_TimestampMs rec, pb_Crc32 = rr_CRC32 rec\<rparr>"

definition ReadLog :: "hashes \<Rightarrow> store \<Rightarrow> string \<Rightarrow> u64 \<Rightarrow> u32 \<Rightarrow> log_error + log_record list" where
  "ReadLog hs s streamID fromSeq limit =
     map_sum id (map logRecordFromStoreRecord) (Read hs s streamID fromSeq (uint limit))"

text \<open>The stream context is checked before each record; \<open>cancelled\<close> says at which the client is gone.\<close>

definition ReadLogStream :: "hashes \<Rightarrow> (nat \<Rightarrow> store) \<Rightarrow> nat \<Rightarrow> (nat \<Rightarrow> 'e option) \<Rightarrow> string \<Rightarrow> u64 \<Rightarrow> u32 \<Rightarrow>
    ('e read_error + log_record list) option" where
  "ReadLogStream hs locked fuel cancelled streamID fromSeq limit =
     ReadRawEach hs locked fuel streamID fromSeq (uint limit)
       (\<lambda>sent rec. case cancelled (length sent) of Some e \<Rightarrow> Inl e | None \<Rightarrow> Inr (sent @ [rawRecordToProto rec])) []"

definition ReadLogRawEach :: "hashes \<Rightarrow> (nat \<Rightarrow> store) \<Rightarrow> nat \<Rightarrow> 'e option \<Rightarrow> string \<Rightarrow> u64 \<Rightarrow> int \<Rightarrow>
    ('a \<Rightarrow> raw_record \<Rightarrow> 'e + 'a) \<Rightarrow> 'a \<Rightarrow> ('e read_error + 'a) option" where
  "ReadLogRawEach hs locked fuel ctxErr streamID fromSeq limit emit acc =
     (case ctxErr of
        Some e \<Rightarrow> Some (Inl (EmitFailed e))
      | None \<Rightarrow> ReadRawEach hs locked fuel streamID fromSeq limit emit acc)"

record append_response =
  ar_Seq :: u64
  ar_TimestampMs :: i64
  ar_Crc32 :: u32
  ar_Duplicate :: bool

definition AppendLog :: "hashes \<Rightarrow> env \<Rightarrow> append_request \<Rightarrow> store \<Rightarrow> store \<times> (log_error + append_response)" where
  "AppendLog hs ev req s =
     (case Append hs ev req s of
        (s1, Inl e) \<Rightarrow> (s1, Inl e)
      | (s1, Inr (rec, duplicate)) \<Rightarrow>
          (s1, Inr \<lparr>ar_Seq = rec_Seq rec, ar_TimestampMs = rec_TimestampMs rec, ar_Crc32 = rec_CRC32 rec, ar_Duplicate = duplicate\<rparr>))"

record trim_response =
  tr_StreamId :: string
  tr_TrimmedBeforeSeq :: u64
  tr_CompactableRecords :: u64
  tr_CompactableBytes :: u64

definition TrimStream :: "env \<Rightarrow> string \<Rightarrow> u64 \<Rightarrow> store \<Rightarrow> store \<times> (log_error + trim_response)" where
  "TrimStream ev streamID beforeSeq s =
     (case Trim ev streamID beforeSeq s of
        (s1, Inl e) \<Rightarrow> (s1, Inl e)
      | (s1, Inr stats) \<Rightarrow>
          (s1, Inr \<lparr>tr_StreamId = ts_StreamID stats, tr_TrimmedBeforeSeq = ts_TrimmedBeforeSeq stats,
             tr_CompactableRecords = ts_CompactableRecords stats, tr_CompactableBytes = ts_CompactableBytes stats\<rparr>))"

record stream_stats =
  sx_StreamId :: string
  sx_FirstSeq :: u64
  sx_NextSeq :: u64
  sx_TrimmedBeforeSeq :: u64
  sx_CompactableRecords :: u64
  sx_CompactableBytes :: u64

definition GetStreamStats :: "store \<Rightarrow> string \<Rightarrow> string \<Rightarrow> stream_stats list" where
  "GetStreamStats s streamID pre =
     map (\<lambda>item. \<lparr>sx_StreamId = ts_StreamID item, sx_FirstSeq = ts_FirstSeq item, sx_NextSeq = ts_NextSeq item,
        sx_TrimmedBeforeSeq = ts_TrimmedBeforeSeq item, sx_CompactableRecords = ts_CompactableRecords item,
        sx_CompactableBytes = ts_CompactableBytes item\<rparr>) (Stats s streamID pre)"

subsection \<open>One batch\<close>

definition raw_of :: "Record \<Rightarrow> raw_record" where
  "raw_of rec = \<lparr>rr_StreamID = rec_StreamID rec, rr_Seq = rec_Seq rec, rr_EventType = rec_EventType rec,
     rr_IdempotencyKey = rec_IdempotencyKey rec, rr_Payload = rec_Payload rec, rr_TimestampMs = rec_TimestampMs rec,
     rr_CRC32 = rec_CRC32 rec\<rparr>"

lemma raw_of_fields [simp]: "rr_Seq (raw_of r) = rec_Seq r" "rr_StreamID (raw_of r) = rec_StreamID r"
  by (simp_all add: raw_of_def)

lemma read_raw_entry_of_read:
  "read_entry hs s sid e = Inr r \<Longrightarrow> read_raw_entry hs s sid e = Inr (raw_of r)"
  by (auto simp: read_entry_def read_raw_entry_def readIndexedRecordFromReader_def readIndexedRawRecordFromReader_def
      readRecordAtIO_def raw_of_def Let_def split: sum.splits if_splits)

lemma filter_between:
  assumes "sorted_wrt (<) (map f xs)" "a \<le> (b :: 'a :: linorder)"
  shows "filter (\<lambda>x. a \<le> f x) xs = filter (\<lambda>x. a \<le> f x \<and> f x < b) xs @ filter (\<lambda>x. b \<le> f x) xs"
  using assms
proof (induction xs)
  case (Cons x xs)
  then have IH: "filter (\<lambda>x. a \<le> f x) xs = filter (\<lambda>x. a \<le> f x \<and> f x < b) xs @ filter (\<lambda>x. b \<le> f x) xs" by simp
  have "filter (\<lambda>x. a \<le> f x \<and> f x < b) xs = []" if "b \<le> f x"
    using that Cons.prems(1) by (auto simp: filter_empty_conv)
  then show ?case using IH assms(2) by auto
qed simp

lemma entries_between:
  assumes "sorted_wrt (<) (map se_Seq es)" "a \<le> b"
  shows "take (first_from es b - first_from es a) (drop (first_from es a) es) = filter (\<lambda>e. a \<le> se_Seq e \<and> se_Seq e < b) es"
    "first_from es a \<le> first_from es b"
proof -
  note A = first_from_sorted [OF assms(1), of a] and B = first_from_sorted [OF assms(1), of b]
  have len: "length (filter (\<lambda>e. b \<le> se_Seq e) es) \<le> length (filter (\<lambda>e. a \<le> se_Seq e) es)"
    using filter_between [OF assms] by simp
  have la: "length (filter (\<lambda>e. a \<le> se_Seq e) es) = length es - first_from es a" by (simp flip: A(1))
  have lb: "length (filter (\<lambda>e. b \<le> se_Seq e) es) = length es - first_from es b" by (simp flip: B(1))
  from len la lb A(2) B(2) show le: "first_from es a \<le> first_from es b" by linarith
  let ?X = "take (first_from es b - first_from es a) (drop (first_from es a) es)"
  have "drop (first_from es a) es = ?X @ drop (first_from es b - first_from es a) (drop (first_from es a) es)"
    by (rule append_take_drop_id [symmetric])
  also have "drop (first_from es b - first_from es a) (drop (first_from es a) es) = drop (first_from es b) es"
    using le by simp
  finally have "filter (\<lambda>e. a \<le> se_Seq e) es = ?X @ filter (\<lambda>e. b \<le> se_Seq e) es" by (simp only: A(1) B(1))
  then show "?X = filter (\<lambda>e. a \<le> se_Seq e \<and> se_Seq e < b) es" using filter_between [OF assms] by simp
qed

definition batch_size :: "int \<Rightarrow> nat" where
  "batch_size remaining = (if 0 < remaining \<and> remaining < int rawReadBatchEntries then nat remaining else rawReadBatchEntries)"

lemma batch_size_pos: "0 < batch_size r"
  by (simp add: batch_size_def rawReadBatchEntries_def)

lemma raw_batch_filter:
  assumes "sorted_wrt (<) (map se_Seq (sm_entries (stream s sid)))" "a \<le> b"
  shows "raw_batch s sid a b remaining = take (batch_size remaining) (filter (\<lambda>e. a \<le> se_Seq e \<and> se_Seq e < b) (sm_entries (stream s sid)))"
proof -
  let ?es = "sm_entries (stream s sid)"
  let ?a = "first_from ?es a" and ?b = "first_from ?es b"
  have "raw_batch s sid a b remaining = take (min (?a + batch_size remaining) ?b - ?a) (drop ?a ?es)"
    by (simp add: raw_batch_def Let_def batch_size_def)
  also have "min (?a + batch_size remaining) ?b - ?a = min (batch_size remaining) (?b - ?a)" by linarith
  finally show ?thesis by (simp flip: entries_between(1) [OF assms])
qed

text \<open>Emitting the records of a batch is a fold, cut at the limit.\<close>

definition cap :: "int \<Rightarrow> 'b list \<Rightarrow> 'b list" where
  "cap limit xs = (if 0 < limit then take (nat limit) xs else xs)"

lemma raw_emit_fold:
  assumes "\<And>r e. (r, e) \<in> set ps \<Longrightarrow> rd e = Inr (raw_of r) \<and> se_Seq e = rec_Seq r" "0 < remaining \<longrightarrow> length ps \<le> nat remaining"
  shows "raw_emit rd emit (map snd ps) n remaining acc =
    (case fold_result emit acc (map (raw_of \<circ> fst) ps) of
       Inl e \<Rightarrow> Inl (EmitFailed e)
     | Inr acc' \<Rightarrow> Inr (acc', if 0 < remaining \<and> length ps = nat remaining then None
         else Some (if ps = [] then n else rec_Seq (fst (last ps)) + 1, if 0 < remaining then remaining - int (length ps) else remaining)))"
  using assms
proof (induction ps arbitrary: n remaining acc)
  case (Cons p ps)
  obtain r e where p: "p = (r, e)" by (cases p)
  have rd: "rd e = Inr (raw_of r)" "se_Seq e = rec_Seq r" using Cons.prems(1) [of r e] p by auto
  show ?case
  proof (cases "emit acc (raw_of r)")
    case (Inr acc1)
    have pre: "\<And>r e. (r, e) \<in> set ps \<Longrightarrow> rd e = Inr (raw_of r) \<and> se_Seq e = rec_Seq r"
      using Cons.prems(1) by simp
    show ?thesis
    proof (cases "0 < remaining")
      case pos: True
      show ?thesis
      proof (cases "remaining = 1")
        case True
        then have "ps = []" using Cons.prems(2) by simp
        then show ?thesis using rd Inr True by (simp add: p)
      next
        case False
        with pos have r1: "0 < remaining - 1" "length ps \<le> nat (remaining - 1)" using Cons.prems(2) by auto
        have "(length ps = nat (remaining - 1)) = (Suc (length ps) = nat remaining)" using pos r1 by linarith
        then show ?thesis using Cons.IH [OF pre, of "remaining - 1" "rec_Seq r + 1" acc1] rd Inr pos False r1
          by (simp add: p split: sum.split)
      qed
    next
      case False
      then show ?thesis using Cons.IH [OF pre, of remaining "rec_Seq r + 1" acc1] rd Inr by (simp add: p split: sum.split)
    qed
  qed (simp add: p rd)
qed simp


subsection \<open>The whole read\<close>

text \<open>
  What the store looks like to a reader of one stream: at every lock it represents a log, and the
  records \<open>S\<close> the stream had at the first lock are still the first ones of the stream.
\<close>

definition sees :: "hashes \<Rightarrow> (nat \<Rightarrow> store) \<Rightarrow> string \<Rightarrow> Record list \<Rightarrow> bool" where
  "sees hs locked sid S \<longleftrightarrow> crc32c_incremental hs \<and> (\<exists>segs. repr hs segs (locked 0) \<and> stream_log segs sid = S) \<and>
     (\<forall>k. \<exists>segs more. repr hs segs (locked k) \<and> stream_log segs sid = S @ more)"

lemma succ_le_iff: "(x :: u64) + 1 \<noteq> 0 \<Longrightarrow> x + 1 \<le> y \<longleftrightarrow> x < y"
  by (simp add: less_succ flip: not_less)

lemma sorted_after:
  assumes "sorted_wrt (<) (map rec_Seq S)" "R = filter (\<lambda>r. n \<le> rec_Seq r) S" "take b R \<noteq> []"
    "rec_Seq (last (take b R)) + 1 \<noteq> 0"
  shows "filter (\<lambda>r. rec_Seq (last (take b R)) + 1 \<le> rec_Seq r) S = drop b R"
proof -
  let ?l = "last (take b R)"
  have sR: "sorted_wrt (<) (map rec_Seq (take b R @ drop b R))"
    using assms(1) by (simp add: assms(2) sorted_wrt_map sorted_wrt_filter)
  then have hi: "rec_Seq ?l < rec_Seq r" if "r \<in> set (drop b R)" for r
    using that assms(3) last_in_set [OF assms(3)] by (simp only: map_append sorted_wrt_append) auto
  have tk: "take b R = butlast (take b R) @ [?l]" using assms(3) by simp
  have "sorted_wrt (<) (map rec_Seq (take b R))" using sR by (simp only: map_append sorted_wrt_append)
  then have "sorted_wrt (<) (map rec_Seq (butlast (take b R) @ [?l]))" by (subst tk [symmetric])
  then have below: "rec_Seq r < rec_Seq ?l" if "r \<in> set (butlast (take b R))" for r
    using that by (simp add: sorted_wrt_append)
  have lo: "\<not> rec_Seq ?l < rec_Seq r" if "r \<in> set (take b R)" for r
  proof -
    have "r \<in> set (butlast (take b R) @ [?l])" using that by (subst tk [symmetric])
    then show ?thesis using below [of r] by auto
  qed
  have n: "n \<le> rec_Seq ?l" using last_in_set [OF assms(3)] in_set_takeD assms(2) by fastforce
  have "filter (\<lambda>r. rec_Seq ?l + 1 \<le> rec_Seq r) S = filter (\<lambda>r. rec_Seq ?l < rec_Seq r) (filter (\<lambda>r. n \<le> rec_Seq r) S)"
    using n by (auto simp: succ_le_iff [OF assms(4)] intro!: filter_cong)
  also have "\<dots> = filter (\<lambda>r. rec_Seq ?l < rec_Seq r) (take b R @ drop b R)" by (simp add: assms(2))
  also have "\<dots> = drop b R" using hi lo by (simp only: filter_append) (simp add: filter_empty_conv filter_id_conv)
  finally show ?thesis .
qed


lemma sees_stream:
  assumes "sees hs locked sid S"
  obtains P more where "sm_entries (stream (locked k) sid) = map snd P" "map fst P = S @ more"
    "\<And>r e. (r, e) \<in> set P \<Longrightarrow> read_raw_entry hs (locked k) sid e = Inr (raw_of r) \<and> se_Seq e = rec_Seq r"
    "sorted_wrt (<) (map rec_Seq (S @ more))" "\<And>r. r \<in> set (S @ more) \<Longrightarrow> rec_Seq r + 1 \<noteq> 0"
    "sm_nextSeq (stream (locked k) sid) = max (next_of (S @ more)) (sm_trimBefore (stream (locked k) sid))"
proof -
  obtain segs more where segs: "repr hs segs (locked k)" "stream_log segs sid = S @ more" and crc: "crc32c_incremental hs"
    using assms unfolding sees_def by blast
  let ?P = "filter (\<lambda>(r, e). rec_StreamID r = sid) (layout hs segs)"
  have "read_raw_entry hs (locked k) sid e = Inr (raw_of r) \<and> se_Seq e = rec_Seq r" if "(r, e) \<in> set ?P" for r e
    using that read_raw_entry_of_read [OF read_entry_layout [OF segs(1) crc, of r e]] layout_entry [of r e] by auto
  moreover have "sorted_wrt (<) (map rec_Seq (S @ more))"
    using segs by (auto simp: repr_def log_ok_def simp flip: segs(2))
  moreover have "rec_Seq r + 1 \<noteq> 0" if "r \<in> set (S @ more)" for r
    using that segs(1) by (auto simp: repr_def log_ok_def list_all_iff stream_log_def simp flip: segs(2))
  ultimately show thesis
    using that [of ?P more] repr_stream [OF segs(1), of sid] segs(2) by (simp add: entries_for_def entries_for_fst)
qed

lemma next_of_above:
  assumes "sorted_wrt (<) (map rec_Seq S)" "\<And>r. r \<in> set S \<Longrightarrow> rec_Seq r + 1 \<noteq> 0" "r \<in> set S"
  shows "rec_Seq r < next_of S"
proof -
  have ne: "S \<noteq> []" using assms(3) by auto
  then have tk: "S = butlast S @ [last S]" by simp
  then have "sorted_wrt (<) (map rec_Seq (butlast S @ [last S]))" using assms(1) by (simp only: append_butlast_last_id [OF ne])
  moreover have "r \<in> set (butlast S @ [last S])" using assms(3) ne by simp
  ultimately have "rec_Seq r \<le> rec_Seq (last S)" by (auto simp: sorted_wrt_append)
  then show ?thesis using ne assms(2) [of "last S"] by (simp add: next_of_def less_succ)
qed

text \<open>The batch at a lock holds the next records of the first lock's stream.\<close>

lemma raw_batch_records:
  assumes "sees hs locked sid S" "S \<noteq> []" "n < next_of S"
  obtains ps where "raw_batch (locked k) sid n (next_of S) remaining = map snd ps"
    "map fst ps = take (batch_size remaining) (filter (\<lambda>r. n \<le> rec_Seq r) S)"
    "\<And>r e. (r, e) \<in> set ps \<Longrightarrow> read_raw_entry hs (locked k) sid e = Inr (raw_of r) \<and> se_Seq e = rec_Seq r"
proof -
  obtain P more where P: "sm_entries (stream (locked k) sid) = map snd P" "map fst P = S @ more"
    and rd: "\<And>r e. (r, e) \<in> set P \<Longrightarrow> read_raw_entry hs (locked k) sid e = Inr (raw_of r) \<and> se_Seq e = rec_Seq r"
    and srt: "sorted_wrt (<) (map rec_Seq (S @ more))" and ovf: "\<And>r. r \<in> set (S @ more) \<Longrightarrow> rec_Seq r + 1 \<noteq> 0"
    using sees_stream [OF assms(1), of k] by metis
  have seqs: "map (se_Seq \<circ> snd) P = map (rec_Seq \<circ> fst) P" using rd by (auto intro!: map_cong)
  have "map se_Seq (map snd P) = map rec_Seq (map fst P)" using seqs by simp
  then have es: "sorted_wrt (<) (map se_Seq (sm_entries (stream (locked k) sid)))" using srt P by simp
  let ?F = "filter (\<lambda>p. n \<le> rec_Seq (fst p) \<and> rec_Seq (fst p) < next_of S) P"
  have fl: "filter (\<lambda>e. n \<le> se_Seq e \<and> se_Seq e < next_of S) (map snd P) = map snd ?F"
    unfolding filter_map by (rule arg_cong [where f = "map snd"], rule filter_cong) (use rd in force)+
  have "map fst ?F = filter (\<lambda>r. n \<le> rec_Seq r \<and> rec_Seq r < next_of S) (S @ more)"
    unfolding P(2) [symmetric] filter_map by (simp add: comp_def)
  also have "\<dots> = filter (\<lambda>r. n \<le> rec_Seq r) S"
  proof -
    have lt: "rec_Seq r < next_of S" if "r \<in> set S" for r
      by (rule next_of_above [OF _ _ that]) (use srt ovf in \<open>auto simp: sorted_wrt_append\<close>)
    have "\<not> rec_Seq r < next_of S" if "r \<in> set more" for r
    proof -
      have "rec_Seq (last S) < rec_Seq r" using srt that assms(2) by (simp add: sorted_wrt_append)
      then show ?thesis using assms(2) ovf [of "last S"] by (simp add: next_of_def less_succ)
    qed
    then have "filter (\<lambda>r. n \<le> rec_Seq r \<and> rec_Seq r < next_of S) more = []" by (auto simp: filter_empty_conv)
    moreover have "filter (\<lambda>r. n \<le> rec_Seq r \<and> rec_Seq r < next_of S) S = filter (\<lambda>r. n \<le> rec_Seq r) S"
      using lt by (auto intro!: filter_cong)
    ultimately show ?thesis by simp
  qed
  finally have F: "map fst ?F = filter (\<lambda>r. n \<le> rec_Seq r) S" .
  have "raw_batch (locked k) sid n (next_of S) remaining = map snd (take (batch_size remaining) ?F)"
    using raw_batch_filter [OF es, of n "next_of S" remaining] assms(3) fl P(1) by (simp add: take_map)
  moreover have "map fst (take (batch_size remaining) ?F) = take (batch_size remaining) (filter (\<lambda>r. n \<le> rec_Seq r) S)"
    using F by (simp flip: take_map)
  moreover have "read_raw_entry hs (locked k) sid e = Inr (raw_of r) \<and> se_Seq e = rec_Seq r"
    if "(r, e) \<in> set (take (batch_size remaining) ?F)" for r e
    using in_set_takeD [OF that] rd [of r e] by simp
  ultimately show thesis by (rule that)
qed


lemma cap_split:
  assumes "b = batch_size remaining" "\<not> (0 < remaining \<and> length (take b R) = nat remaining)"
  shows "cap remaining R = take b R @ cap (if 0 < remaining then remaining - int (length (take b R)) else remaining) (drop b R)"
proof (cases "0 < remaining")
  case True
  show ?thesis
  proof (cases "length R \<le> b")
    case True
    have "length R < nat remaining" if "\<not> remaining < int rawReadBatchEntries"
      using that True assms \<open>0 < remaining\<close> by (auto simp: batch_size_def)
    moreover have "length R \<le> nat remaining" if "remaining < int rawReadBatchEntries"
      using that True assms(1) \<open>0 < remaining\<close> by (simp add: batch_size_def)
    ultimately have "length R \<le> nat remaining" by linarith
    then show ?thesis using True by (simp add: cap_def)
  next
    case False
    then have len: "length (take b R) = b" by simp
    have "b \<le> nat remaining" using assms(1) \<open>0 < remaining\<close> by (auto simp: batch_size_def)
    with assms(2) len \<open>0 < remaining\<close> have lt: "b < nat remaining" by linarith
    then have "nat remaining = b + nat (remaining - int b)" by linarith
    then have "take (nat remaining) R = take b R @ take (nat (remaining - int b)) (drop b R)" by (metis take_add)
    then show ?thesis using \<open>0 < remaining\<close> lt unfolding len by (simp add: cap_def)
  qed
qed (simp add: cap_def)

lemma raw_loop_window:
  assumes "sees hs locked sid S" "S \<noteq> []"
    and "length (filter (\<lambda>r. n \<le> rec_Seq r) S) < fuel"
  shows "raw_loop hs locked sid emit fuel k n remaining (Some (next_of S)) acc =
    Some (map_sum EmitFailed id (fold_result emit acc (map raw_of (cap remaining (filter (\<lambda>r. n \<le> rec_Seq r) S)))))"
  using assms(3)
proof (induction fuel arbitrary: k n remaining acc)
  case (Suc fuel)
  let ?R = "filter (\<lambda>r. n \<le> rec_Seq r) S" let ?b = "batch_size remaining"
  obtain more where srt: "sorted_wrt (<) (map rec_Seq (S @ more))" and ovf: "\<And>r. r \<in> set (S @ more) \<Longrightarrow> rec_Seq r + 1 \<noteq> 0"
    and next_seq: "sm_nextSeq (stream (locked k) sid) = max (next_of (S @ more)) (sm_trimBefore (stream (locked k) sid))"
    using sees_stream [OF assms(1), of k] by metis
  have "rec_Seq (last (S @ more)) + 1 \<noteq> 0" using ovf assms(2) by (metis append_is_Nil_conv last_in_set)
  then have "next_of (S @ more) \<noteq> 0" using assms(2) by (simp add: next_of_def)
  then have nz: "sm_nextSeq (stream (locked k) sid) \<noteq> 0" unfolding next_seq by (auto simp: max_def)
  show ?case
  proof (cases "next_of S \<le> n")
    case True
    have "rec_Seq r < next_of S" if "r \<in> set S" for r
      by (rule next_of_above [OF _ _ that]) (use srt ovf in \<open>auto simp: sorted_wrt_append\<close>)
    then have "?R = []" using True by (fastforce simp: filter_empty_conv)
    then show ?thesis using nz True by (simp add: cap_def)
  next
    case False
    then have lt: "n < next_of S" by simp
    obtain ps where ps: "raw_batch (locked k) sid n (next_of S) remaining = map snd ps" "map fst ps = take ?b ?R"
      and rd: "\<And>r e. (r, e) \<in> set ps \<Longrightarrow> read_raw_entry hs (locked k) sid e = Inr (raw_of r) \<and> se_Seq e = rec_Seq r"
      using raw_batch_records [OF assms(1,2) lt, of k remaining] by metis
    have "last S \<in> set ?R" using lt assms(2) ovf [of "last S"] by (simp add: next_of_def less_succ)
    then have ne: "take ?b ?R \<noteq> []" using batch_size_pos [of remaining] by (cases ?R) auto
    then have pne: "ps \<noteq> []" using ps(2) by auto
    have len: "length ps = length (take ?b ?R)" by (simp flip: ps(2))
    have lim: "0 < remaining \<longrightarrow> length ps \<le> nat remaining" unfolding len by (auto simp: batch_size_def)
    have lst: "rec_Seq (fst (last ps)) = rec_Seq (last (take ?b ?R))" using pne by (simp add: last_map flip: ps(2))
    have maps: "map (raw_of \<circ> fst) ps = map raw_of (take ?b ?R)" by (simp flip: ps(2))
    have "last (take ?b ?R) \<in> set S" using last_in_set [OF ne] by (auto dest: in_set_takeD)
    then have "rec_Seq (last (take ?b ?R)) + 1 \<noteq> 0" using ovf by simp
    then have rest_records: "filter (\<lambda>r. rec_Seq (last (take ?b ?R)) + 1 \<le> rec_Seq r) S = drop ?b ?R"
      by (rule sorted_after [OF _ refl ne, rotated]) (use srt in \<open>simp add: sorted_wrt_append\<close>)
    have emit: "raw_emit (read_raw_entry hs (locked k) sid) emit (map snd ps) n remaining acc =
        (case fold_result emit acc (map raw_of (take ?b ?R)) of Inl e \<Rightarrow> Inl (EmitFailed e)
         | Inr acc' \<Rightarrow> Inr (acc', if 0 < remaining \<and> length (take ?b ?R) = nat remaining then None
             else Some (if ps = [] then n else rec_Seq (last (take ?b ?R)) + 1,
               if 0 < remaining then remaining - int (length (take ?b ?R)) else remaining)))"
      using raw_emit_fold [of ps "read_raw_entry hs (locked k) sid" remaining emit n acc] rd lim unfolding maps lst len by blast
    show ?thesis
    proof (cases "0 < remaining \<and> length (take ?b ?R) = nat remaining")
      case True
      then have "cap remaining ?R = take ?b ?R" by (auto simp: cap_def min_def split: if_splits)
      then show ?thesis using nz False pne True emit
        by (simp add: ps(1) split: sum.split)
    next
      case go: False
      have small: "length (drop ?b ?R) < fuel" using Suc.prems batch_size_pos [of remaining] ne by (cases ?R) auto
      define T where "T = take ?b ?R"
      define D where "D = drop ?b ?R"
      define rest where "rest = (if 0 < remaining then remaining - int (length T) else remaining)"
      have IH: "raw_loop hs locked sid emit fuel k' (rec_Seq (last T) + 1) rem (Some (next_of S)) a =
          Some (map_sum EmitFailed id (fold_result emit a (map raw_of (cap rem D))))" for k' rem a
        using Suc.IH [of "rec_Seq (last T) + 1" k' rem a] small by (simp only: T_def D_def rest_records)
      have e: "raw_emit (read_raw_entry hs (locked k) sid) emit (map snd ps) n remaining acc =
          (case fold_result emit acc (map raw_of T) of Inl e \<Rightarrow> Inl (EmitFailed e)
           | Inr acc' \<Rightarrow> Inr (acc', Some (rec_Seq (last T) + 1, rest)))"
        unfolding emit T_def [symmetric] rest_def if_not_P [OF go [folded T_def]] if_not_P [OF pne] ..
      have c: "cap remaining ?R = T @ cap rest D" using cap_split [OF refl go] by (simp only: T_def D_def rest_def)
      show ?thesis using nz False pne by (simp add: ps(1) e c IH fold_result_append id_def split: sum.split)
    qed
  qed
qed simp

lemma raw_loop_first:
  assumes "sees hs locked sid S" "sm_trimBefore (stream (locked 0) sid) \<le> next_of S"
  shows "raw_loop hs locked sid emit (Suc fuel) 0 n limit None acc =
    (if S = [] then Some (Inr acc)
     else raw_loop hs locked sid emit (Suc fuel) 0 (max n (sm_trimBefore (stream (locked 0) sid))) limit (Some (next_of S)) acc)"
proof -
  have "sm_nextSeq (stream (locked 0) sid) = next_of S"
    using assms repr_stream(2) [of hs _ "locked 0" sid] by (auto simp: sees_def max_def)
  moreover have "(if n < t then t else n) = max n t" for t :: u64 by (auto simp: max_def)
  ultimately show ?thesis by (simp add: next_of_def Let_def)
qed

lemma raw_loop_trimmed:
  assumes "sees hs locked sid S" "next_of S < sm_trimBefore (stream (locked 0) sid)"
  shows "raw_loop hs locked sid emit (Suc fuel) 0 n limit None acc = Some (Inr acc)"
proof -
  have "sm_nextSeq (stream (locked 0) sid) = sm_trimBefore (stream (locked 0) sid)"
    using assms repr_stream(2) [of hs _ "locked 0" sid] by (auto simp: sees_def max_def)
  then show ?thesis by (simp add: Let_def not_less)
qed

lemma ReadRawEach_window:
  assumes "sees hs locked sid S" "sid \<noteq> ''''" "length S < fuel"
  shows "ReadRawEach hs locked fuel sid fromSeq limit emit acc =
    Some (map_sum EmitFailed id (fold_result emit acc
      (map raw_of (cap limit (filter (\<lambda>r. max (max 1 fromSeq) (sm_trimBefore (stream (locked 0) sid)) \<le> rec_Seq r) S)))))"
proof -
  let ?t = "sm_trimBefore (stream (locked 0) sid)"
  obtain f where f: "fuel = Suc f" using assms(3) by (cases fuel) auto
  have 1: "(if fromSeq = 0 then 1 else fromSeq) = max 1 fromSeq"
    using one_le_word [of fromSeq] by (simp add: max_def)
  have fl: "length (filter (\<lambda>r. max (max 1 fromSeq) ?t \<le> rec_Seq r) S) < fuel"
    using assms(3) by (rule order.strict_trans1 [OF length_filter_le])
  show ?thesis
  proof (cases "?t \<le> next_of S")
    case True
    show ?thesis
    proof (cases "S = []")
      case False
      then show ?thesis
        using raw_loop_window [OF assms(1) False fl, of emit 0 limit acc]
        by (simp add: ReadRawEach_def assms(2) 1 f raw_loop_first [OF assms(1) True] del: raw_loop.simps max.bounded_iff)
    qed (simp add: ReadRawEach_def assms(2) f raw_loop_first [OF assms(1) True] cap_def del: raw_loop.simps)
  next
    case False
    obtain segs where segs: "repr hs segs (locked 0)" "stream_log segs sid = S" using assms(1) unfolding sees_def by blast
    have "rec_Seq r < next_of S" if "r \<in> set S" for r
      by (rule next_of_above [OF _ _ that])
         (use segs(1) in \<open>auto simp: repr_def log_ok_def list_all_iff stream_log_def simp flip: segs(2)\<close>)
    then have "filter (\<lambda>r. max (max 1 fromSeq) ?t \<le> rec_Seq r) S = []"
      using False by (fastforce simp: filter_empty_conv)
    then show ?thesis using False
      by (simp add: ReadRawEach_def assms(2) f raw_loop_trimmed [OF assms(1)] cap_def del: raw_loop.simps max.bounded_iff)
  qed
qed

subsection \<open>Properties\<close>

text \<open>
  C12. A raw read returns, whatever is appended or trimmed between its batches: with more rounds than
  records it emits exactly the records the stream had when the first lock was taken, from the
  requested sequence number or the trim watermark on and up to the limit, in order and each once;
  an error of the callback ends it.\<close>
theorem raw_read_snapshot:
  assumes "crc32c_incremental hs" and "\<forall>k. repr hs (segs k) (locked k)"
    and "\<forall>k. \<exists>more. stream_log (segs k) sid = stream_log (segs 0) sid @ more"
    and "sid \<noteq> ''''" and "length (stream_log (segs 0) sid) < fuel"
  shows "ReadRawEach hs locked fuel sid fromSeq limit emit acc =
    Some (map_sum EmitFailed id (fold_result emit acc
      (map raw_of (cap limit (filter (\<lambda>r. max (max 1 fromSeq) (sm_trimBefore (stream (locked 0) sid)) \<le> rec_Seq r)
        (stream_log (segs 0) sid))))))"
proof -
  have "sees hs locked sid (stream_log (segs 0) sid)" unfolding sees_def using assms(1-3) by blast
  then show ?thesis using assms(4,5) by (rule ReadRawEach_window)
qed

theorem raw_read_snapshot_witness:
  "\<exists>s' rec. Append demo_hashes demo_env demo_request demo_store = (s', Inr (rec, False)) \<and>
     ReadRawEach demo_hashes (\<lambda>k. s') 2 ''s'' 0 10 (\<lambda>out r. Inr (out @ [r]) :: string + raw_record list) [] = Some (Inr [raw_of rec])"
proof -
  obtain s' rec segs' where a: "Append demo_hashes demo_env demo_request demo_store = (s', Inr (rec, False))"
      "repr demo_hashes segs' s'" "log_records segs' = [rec]" "rec_Seq rec = 1" "rec_StreamID rec = ''s''"
      "sm_trimBefore (stream s' ''s'') = 0" by (rule demo_appended)
  have "ReadRawEach demo_hashes (\<lambda>k. s') 2 ''s'' 0 10 (\<lambda>out r. Inr (out @ [r]) :: string + raw_record list) [] = Some (Inr [raw_of rec])"
    using raw_read_snapshot [OF demo_hashes_incremental, of "\<lambda>_. segs'" "\<lambda>_. s'" "''s''" 2 0 10
        "\<lambda>out r. Inr (out @ [r]) :: string + raw_record list" "[]"] a(2-6)
    by (simp add: stream_log_def cap_def)
  with a(1) show ?thesis by blast
qed

end
