(* ===== verification/Log_Client.thy ===== *)
theory Log_Client
  imports Log_Reading
begin

text \<open>
  How the control plane reads the log (internal/control/log_read.go and the page loop of
  checkpoint.go): through the raw in-process interface, the streaming RPC or pages of a unary RPC,
  whichever the client offers.

  A client is a record of what it answers. An iteration is the list of records it hands to the
  callback and the status it ends with; the callback threads a state and may fail. The page loops
  run on fuel, and running out is \<^const>\<open>None\<close>.
\<close>

subsection \<open>Clients\<close>

datatype rpc_error = Unimplemented | Status string

datatype 'e client_error = ClientFailed rpc_error | CallbackError 'e

record log_client =
  lc_raw :: "(string \<Rightarrow> u64 \<Rightarrow> raw_record list \<times> rpc_error option) option"
  lc_stream :: "(string \<Rightarrow> u64 \<Rightarrow> rpc_error + log_record list \<times> rpc_error option) option"
  lc_ReadLog :: "string \<Rightarrow> u64 \<Rightarrow> u32 \<Rightarrow> rpc_error + log_record list"

definition bootstrapReadLimit :: nat where
  "bootstrapReadLimit = 1000"

definition emit_all :: "('a \<Rightarrow> 'r \<Rightarrow> 'e + 'a) \<Rightarrow> 'a \<Rightarrow> 'r list \<Rightarrow> 'e client_error + 'a" where
  "emit_all emit acc recs = map_sum CallbackError id (fold_result emit acc recs)"

subsection \<open>Pages\<close>

fun forEachLogRecordFromSeq :: "log_client \<Rightarrow> nat \<Rightarrow> string \<Rightarrow> u64 \<Rightarrow> ('a \<Rightarrow> log_record \<Rightarrow> 'e + 'a) \<Rightarrow> 'a \<Rightarrow>
    ('e client_error + 'a) option" where
  "forEachLogRecordFromSeq c 0 streamID fromSeq emit acc = None"
| "forEachLogRecordFromSeq c (Suc fuel) streamID fromSeq0 emit acc =
     (let fromSeq = (if fromSeq0 = 0 then 1 else fromSeq0) in
      case lc_ReadLog c streamID fromSeq (word_of_nat bootstrapReadLimit) of
        Inl e \<Rightarrow> Some (Inl (ClientFailed e))
      | Inr records \<Rightarrow>
          if records = [] then Some (Inr acc)
          else
            (case emit_all emit acc records of
               Inl e \<Rightarrow> Some (Inl e)
             | Inr acc1 \<Rightarrow>
                 if length records < bootstrapReadLimit then Some (Inr acc1)
                 else forEachLogRecordFromSeq c fuel streamID (pb_Seq (last records) + 1) emit acc1))"

fun page_loop :: "log_client \<Rightarrow> nat \<Rightarrow> string \<Rightarrow> u64 \<Rightarrow> ('a \<Rightarrow> log_record \<Rightarrow> 'e + 'a) \<Rightarrow> 'a \<Rightarrow> ('e client_error + 'a) option" where
  "page_loop c 0 streamID fromSeq emit acc = None"
| "page_loop c (Suc fuel) streamID fromSeq emit acc =
     (case lc_ReadLog c streamID fromSeq (word_of_nat bootstrapReadLimit) of
        Inl e \<Rightarrow> Some (Inl (ClientFailed e))
      | Inr records \<Rightarrow>
          if records = [] then Some (Inr acc)
          else
            (case emit_all emit acc records of
               Inl e \<Rightarrow> Some (Inl e)
             | Inr acc1 \<Rightarrow>
                 if length records < bootstrapReadLimit then Some (Inr acc1)
                 else page_loop c fuel streamID (pb_Seq (last records) + 1) emit acc1))"

definition forEachLogRecordUnary :: "log_client \<Rightarrow> nat \<Rightarrow> string \<Rightarrow> ('a \<Rightarrow> log_record \<Rightarrow> 'e + 'a) \<Rightarrow> 'a \<Rightarrow>
    ('e client_error + 'a) option" where
  "forEachLogRecordUnary c fuel streamID emit acc = page_loop c fuel streamID 1 emit acc"

definition forEachRawLogRecordUnary :: "log_client \<Rightarrow> nat \<Rightarrow> string \<Rightarrow> u64 \<Rightarrow> ('a \<Rightarrow> raw_record \<Rightarrow> 'e + 'a) \<Rightarrow> 'a \<Rightarrow>
    ('e client_error + 'a) option" where
  "forEachRawLogRecordUnary c fuel streamID fromSeq emit acc =
     page_loop c fuel streamID fromSeq (\<lambda>a rec. emit a (FromProto (Some rec))) acc"

subsection \<open>Choosing the interface\<close>

text \<open>A stream that is not implemented, at once or at a later message, falls back to pages.\<close>

definition read_stream :: "rpc_error + log_record list \<times> rpc_error option \<Rightarrow> ('a \<Rightarrow> log_record \<Rightarrow> 'e + 'a) \<Rightarrow>
    ('a \<Rightarrow> ('e client_error + 'a) option) \<Rightarrow> 'a \<Rightarrow> ('e client_error + 'a) option" where
  "read_stream answer emit fallback acc =
     (case answer of
        Inl Unimplemented \<Rightarrow> fallback acc
      | Inl e \<Rightarrow> Some (Inl (ClientFailed e))
      | Inr (records, status) \<Rightarrow>
          (case emit_all emit acc records of
             Inl e \<Rightarrow> Some (Inl e)
           | Inr acc1 \<Rightarrow>
               (case status of
                  None \<Rightarrow> Some (Inr acc1)
                | Some Unimplemented \<Rightarrow> fallback acc1
                | Some e \<Rightarrow> Some (Inl (ClientFailed e)))))"

definition forEachLogRecord :: "log_client \<Rightarrow> nat \<Rightarrow> string \<Rightarrow> ('a \<Rightarrow> log_record \<Rightarrow> 'e + 'a) \<Rightarrow> 'a \<Rightarrow>
    ('e client_error + 'a) option" where
  "forEachLogRecord c fuel streamID emit acc =
     (case lc_stream c of
        Some streamer \<Rightarrow> read_stream (streamer streamID 1) emit (forEachLogRecordUnary c fuel streamID emit) acc
      | None \<Rightarrow> forEachLogRecordUnary c fuel streamID emit acc)"

definition forEachRawLogRecord :: "log_client \<Rightarrow> nat \<Rightarrow> string \<Rightarrow> u64 \<Rightarrow> ('a \<Rightarrow> raw_record \<Rightarrow> 'e + 'a) \<Rightarrow> 'a \<Rightarrow>
    ('e client_error + 'a) option" where
  "forEachRawLogRecord c fuel streamID fromSeq0 emit acc =
     (let fromSeq = (if fromSeq0 = 0 then 1 else fromSeq0) in
      case lc_raw c of
        Some raw \<Rightarrow>
          (case raw streamID fromSeq of (records, status) \<Rightarrow>
             Some (case emit_all emit acc records of
                     Inl e \<Rightarrow> Inl e
                   | Inr acc1 \<Rightarrow> (case status of None \<Rightarrow> Inr acc1 | Some e \<Rightarrow> Inl (ClientFailed e))))
      | None \<Rightarrow>
          (case lc_stream c of
             Some streamer \<Rightarrow>
               read_stream (streamer streamID fromSeq) (\<lambda>a rec. emit a (FromProto (Some rec)))
                 (forEachRawLogRecordUnary c fuel streamID fromSeq emit) acc
           | None \<Rightarrow> forEachRawLogRecordUnary c fuel streamID fromSeq emit acc))"

definition readAllLog :: "log_client \<Rightarrow> nat \<Rightarrow> string \<Rightarrow> (unit client_error + log_record list) option" where
  "readAllLog c fuel streamID = forEachLogRecord c fuel streamID (\<lambda>out rec. Inr (out @ [rec])) []"

definition streamLastSeqByRead :: "log_client \<Rightarrow> nat \<Rightarrow> string \<Rightarrow> (unit client_error + u64) option" where
  "streamLastSeqByRead c fuel streamID =
     forEachRawLogRecord c fuel streamID 1 (\<lambda>lst rec. Inr (if lst < rr_Seq rec then rr_Seq rec else lst)) 0"

subsection \<open>Clients of one history\<close>

text \<open>
  What the loops rely on: every interface the client offers answers from the same history, in
  strictly increasing sequence numbers, and a page is the next part of it.
\<close>

definition from_seq :: "u64 \<Rightarrow> log_record list \<Rightarrow> log_record list" where
  "from_seq q H = filter (\<lambda>r. q \<le> pb_Seq r) H"

locale history_client =
  fixes ok :: "'s \<Rightarrow> bool" and client :: "'s \<Rightarrow> log_client" and sid :: string and history :: "'s \<Rightarrow> log_record list"
  assumes increasing: "ok s \<Longrightarrow> sorted_wrt (<) (map pb_Seq (history s))"
    and positive: "ok s \<Longrightarrow> r \<in> set (history s) \<Longrightarrow> 0 < pb_Seq r \<and> pb_Seq r + 1 \<noteq> 0"
    and pages: "ok s \<Longrightarrow> lc_ReadLog (client s) sid q (word_of_nat bootstrapReadLimit) = Inr (take bootstrapReadLimit (from_seq q (history s)))"
    and streamed: "ok s \<Longrightarrow> lc_stream (client s) = Some streamer \<Longrightarrow>
      streamer sid q = Inl Unimplemented \<or> streamer sid q = Inr ([], Some Unimplemented) \<or> streamer sid q = Inr (from_seq q (history s), None)"
    and raw: "ok s \<Longrightarrow> lc_raw (client s) = Some reader \<Longrightarrow> reader sid q = (map (FromProto \<circ> Some) (from_seq q (history s)), None)"
begin

lemma from_seq_0:
  assumes "ok s"
  shows "from_seq (if q = 0 then 1 else q) (history s) = from_seq q (history s)"
  using positive [OF assms] inc_le [of 0] by (auto simp: from_seq_def filter_id_conv)

lemma page_rest:
  assumes "ok s" "take bootstrapReadLimit (from_seq q (history s)) \<noteq> []"
  shows "from_seq (pb_Seq (last (take bootstrapReadLimit (from_seq q (history s)))) + 1) (history s) = drop bootstrapReadLimit (from_seq q (history s))"
proof -
  let ?R = "from_seq q (history s)" let ?T = "take bootstrapReadLimit ?R" let ?D = "drop bootstrapReadLimit ?R"
  let ?l = "last ?T"
  have l: "?l \<in> set ?T" using assms(2) by (rule last_in_set)
  then have lH: "?l \<in> set (history s)" "q \<le> pb_Seq ?l" by (auto simp: from_seq_def dest: in_set_takeD)
  have "sorted_wrt (<) (map pb_Seq (?T @ ?D))" using increasing [OF assms(1)] by (simp add: from_seq_def sorted_wrt_map sorted_wrt_filter)
  then have T: "sorted_wrt (<) (map pb_Seq ?T)" and hi: "\<And>r. r \<in> set ?D \<Longrightarrow> pb_Seq ?l < pb_Seq r"
    using l by (simp_all only: map_append sorted_wrt_append) auto
  have lo: "\<not> pb_Seq ?l < pb_Seq r" if "r \<in> set ?T" for r
  proof -
    have tk: "?T = butlast ?T @ [?l]" using assms(2) by simp
    then have "sorted_wrt (<) (map pb_Seq (butlast ?T @ [?l]))" using T by (simp only:)
    moreover have "r \<in> set (butlast ?T @ [?l])" using that by (subst tk [symmetric])
    ultimately show ?thesis by (auto simp: sorted_wrt_append)
  qed
  have "from_seq (pb_Seq ?l + 1) (history s) = filter (\<lambda>r. pb_Seq ?l < pb_Seq r) ?R"
    using positive [OF assms(1) lH(1)] lH(2) by (auto simp: from_seq_def succ_le_iff intro!: filter_cong)
  also have "\<dots> = filter (\<lambda>r. pb_Seq ?l < pb_Seq r) (?T @ ?D)" by simp
  also have "\<dots> = ?D" using hi lo by (simp only: filter_append) (simp add: filter_empty_conv filter_id_conv)
  finally show ?thesis .
qed

lemma page_loop_reads:
  assumes "ok s"
  shows "length (from_seq q (history s)) div bootstrapReadLimit < fuel \<Longrightarrow>
   page_loop (client s) fuel sid q emit acc = Some (emit_all emit acc (from_seq q (history s)))"
proof (induction fuel arbitrary: q acc)
  case (Suc fuel)
  let ?R = "from_seq q (history s)" let ?T = "take bootstrapReadLimit ?R"
  show ?case
  proof (cases "bootstrapReadLimit \<le> length ?R")
    case True
    then have ne: "?T \<noteq> []" and len: "length ?T = bootstrapReadLimit" by (auto simp: bootstrapReadLimit_def)
    have "length (drop bootstrapReadLimit ?R) div bootstrapReadLimit < fuel"
      using Suc.prems True by (simp add: bootstrapReadLimit_def)
    then have "page_loop (client s) fuel sid (pb_Seq (last ?T) + 1) emit a = Some (emit_all emit a (drop bootstrapReadLimit ?R))" for a
      using Suc.IH [of "pb_Seq (last ?T) + 1" a] by (simp only: page_rest [OF assms ne])
    then have "page_loop (client s) (Suc fuel) sid q emit acc = (case emit_all emit acc ?T of Inl e \<Rightarrow> Some (Inl e)
        | Inr a \<Rightarrow> Some (emit_all emit a (drop bootstrapReadLimit ?R)))"
      using ne len by (simp add: pages [OF assms] del: take_eq_Nil split: sum.split)
    also have "\<dots> = Some (emit_all emit acc (?T @ drop bootstrapReadLimit ?R))"
      by (simp only: emit_all_def fold_result_append) (simp split: sum.split)
    finally show ?thesis by simp
  next
    case False
    then have "?T = ?R" by simp
    then show ?thesis using False by (simp add: pages [OF assms] emit_all_def split: sum.split)
  qed
qed simp

lemma from_page_loop:
  assumes "ok s"
  shows "0 < q \<Longrightarrow> length (from_seq q (history s)) div bootstrapReadLimit < fuel \<Longrightarrow>
   forEachLogRecordFromSeq (client s) fuel sid q emit acc = page_loop (client s) fuel sid q emit acc"
proof (induction fuel arbitrary: q acc)
  case (Suc fuel)
  let ?R = "from_seq q (history s)" let ?T = "take bootstrapReadLimit ?R"
  show ?case
  proof (cases "bootstrapReadLimit \<le> length ?R")
    case True
    then have ne: "?T \<noteq> []" and len: "length ?T = bootstrapReadLimit" by (auto simp: bootstrapReadLimit_def)
    have "length (drop bootstrapReadLimit ?R) div bootstrapReadLimit < fuel"
      using Suc.prems True by (simp add: bootstrapReadLimit_def)
    moreover have "last ?T \<in> set (history s)" using last_in_set [OF ne] by (auto simp: from_seq_def dest: in_set_takeD)
    then have "0 < pb_Seq (last ?T) + 1" using positive [OF assms] by (simp add: word_gt_0)
    ultimately have "forEachLogRecordFromSeq (client s) fuel sid (pb_Seq (last ?T) + 1) emit a = page_loop (client s) fuel sid (pb_Seq (last ?T) + 1) emit a" for a
      using Suc.IH [of "pb_Seq (last ?T) + 1" a] by (simp only: page_rest [OF assms ne])
    then show ?thesis using Suc.prems(1) len by (simp add: pages [OF assms] Let_def word_gt_0 del: take_eq_Nil split: sum.split)
  next
    case False
    then show ?thesis using Suc.prems(1) by (simp add: pages [OF assms] Let_def word_gt_0 split: sum.split)
  qed
qed simp

lemma emit_all_proto: "emit_all (\<lambda>a rec. emit a (FromProto (Some rec))) acc recs = emit_all emit acc (map (FromProto \<circ> Some) recs)"
proof -
  have "fold_result (\<lambda>a rec. emit a (FromProto (Some rec))) acc recs = fold_result emit acc (map (FromProto \<circ> Some) recs)"
    by (induction recs arbitrary: acc) (simp_all split: sum.split)
  then show ?thesis by (simp add: emit_all_def)
qed

lemma emit_all_Nil: "emit_all emit acc [] = Inr acc"
  by (simp add: emit_all_def)

lemma raw_reads:
  assumes "ok s" "length (from_seq q (history s)) div bootstrapReadLimit < fuel"
  shows "forEachRawLogRecord (client s) fuel sid q emit acc = Some (emit_all emit acc (map (FromProto \<circ> Some) (from_seq q (history s))))"
proof -
  let ?q = "if q = 0 then 1 else q"
  have unary: "forEachRawLogRecordUnary (client s) fuel sid ?q emit a = Some (emit_all emit a (map (FromProto \<circ> Some) (from_seq q (history s))))" for a
    using page_loop_reads [OF assms(1), of ?q fuel "\<lambda>a rec. emit a (FromProto (Some rec))" a] assms(2)
    by (simp only: forEachRawLogRecordUnary_def from_seq_0 [OF assms(1)] emit_all_proto)
  show ?thesis
  proof (cases "lc_raw (client s)")
    case (Some reader)
    then show ?thesis using raw [OF assms(1) Some, of ?q] by (simp add: forEachRawLogRecord_def Let_def from_seq_0 [OF assms(1)] split: sum.split)
  next
    case None
    show ?thesis
    proof (cases "lc_stream (client s)")
      case (Some streamer)
      show ?thesis using streamed [OF assms(1) Some, of ?q] unary
        by (elim disjE) (simp_all add: forEachRawLogRecord_def Let_def None Some read_stream_def emit_all_Nil emit_all_proto from_seq_0 [OF assms(1)] split: sum.split)
    qed (use None unary in \<open>simp add: forEachRawLogRecord_def Let_def\<close>)
  qed
qed

end

subsection \<open>The log store behind the clients\<close>

text \<open>
  The three clients of a store that does not change during the read: pages and stream of the gRPC
  service, and the raw interface of a service in the same process. Every store error is reported
  with the same status here; a store that represents a log gives none.
\<close>

definition as_rpc :: "log_error + 'a \<Rightarrow> rpc_error + 'a" where
  "as_rpc r = map_sum (\<lambda>_. Status ''log'') id r"

definition collected :: "(unit read_error + 'a list) option \<Rightarrow> 'a list \<times> rpc_error option" where
  "collected r = (case r of Some (Inr rs) \<Rightarrow> (rs, None) | _ \<Rightarrow> ([], Some (Status ''log'')))"

definition store_client :: "bool \<Rightarrow> bool \<Rightarrow> hashes \<Rightarrow> store \<Rightarrow> nat \<Rightarrow> log_client" where
  "store_client inProcess streaming hs s fuel =
     \<lparr>lc_raw = (if inProcess then Some (\<lambda>streamID fromSeq.
        collected (ReadLogRawEach hs (\<lambda>_. s) fuel None streamID fromSeq 0 (\<lambda>out r. Inr (out @ [r])) [])) else None),
      lc_stream = (if streaming then Some (\<lambda>streamID fromSeq.
        Inr (collected (ReadLogStream hs (\<lambda>_. s) fuel (\<lambda>_. None) streamID fromSeq 0))) else None),
      lc_ReadLog = (\<lambda>streamID fromSeq limit. as_rpc (ReadLog hs s streamID fromSeq limit))\<rparr>"

definition stored_history :: "hashes \<Rightarrow> string \<Rightarrow> store \<Rightarrow> log_record list" where
  "stored_history hs sid s = map logRecordFromStoreRecord (log_history hs s sid)"

definition readable :: "hashes \<Rightarrow> string \<Rightarrow> nat \<Rightarrow> store \<Rightarrow> bool" where
  "readable hs sid fuel s \<longleftrightarrow> crc32c_incremental hs \<and> sid \<noteq> '''' \<and> (\<exists>segs. repr hs segs s \<and> length (stream_log segs sid) < fuel)"

lemma logRecord_Seq [simp]: "pb_Seq (logRecordFromStoreRecord r) = rec_Seq r"
  by (simp add: logRecordFromStoreRecord_def)

lemma proto_of_raw: "rawRecordToProto (raw_of r) = logRecordFromStoreRecord r" "FromProto (Some (logRecordFromStoreRecord r)) = raw_of r"
  by (simp_all add: rawRecordToProto_def raw_of_def logRecordFromStoreRecord_def FromProto_def)

lemma repr_stream_log:
  assumes "repr hs segs s"
  shows "sorted_wrt (<) (map rec_Seq (stream_log segs sid))"
    "r \<in> set (stream_log segs sid) \<Longrightarrow> 0 < rec_Seq r \<and> rec_Seq r + 1 \<noteq> 0"
  using assms by (auto simp: repr_def log_ok_def list_all_iff stream_log_def)

lemma at_least_one:
  assumes "repr hs segs s"
  shows "filter (\<lambda>r. max (max 1 q) t \<le> rec_Seq r) (stream_log segs sid) = filter (\<lambda>r. max q t \<le> rec_Seq r) (stream_log segs sid)"
  using repr_stream_log(2) [OF assms, of _ sid] inc_le [of 0] by (intro filter_cong) auto

lemma from_seq_history:
  assumes "repr hs segs s" "crc32c_incremental hs" "sid \<noteq> ''''"
  shows "from_seq q (stored_history hs sid s) =
     map logRecordFromStoreRecord (filter (\<lambda>r. max q (sm_trimBefore (stream s sid)) \<le> rec_Seq r) (stream_log segs sid))"
  using at_least_one [OF assms(1), of 0 "sm_trimBefore (stream s sid)" sid]
  by (simp add: from_seq_def stored_history_def log_history_window [OF assms(1,2)] assms(3) window_def filter_map comp_def conj_commute)

lemma store_pages:
  assumes "repr hs segs s" "crc32c_incremental hs" "sid \<noteq> ''''"
  shows "as_rpc (ReadLog hs s sid q (word_of_nat bootstrapReadLimit)) = Inr (take bootstrapReadLimit (from_seq q (stored_history hs sid s)))"
proof -
  have lim: "uint (word_of_nat bootstrapReadLimit :: u32) = 1000" by (simp add: bootstrapReadLimit_def)
  show ?thesis
    by (simp add: as_rpc_def ReadLog_def Read_def lim ReadEach_window [OF assms] window_def Let_def fold_result_collect
        from_seq_history [OF assms] at_least_one [OF assms(1)] bootstrapReadLimit_def take_map del: max.bounded_iff)
qed

lemma store_raw:
  assumes "repr hs segs s" "crc32c_incremental hs" "sid \<noteq> ''''" "length (stream_log segs sid) < fuel"
  shows "ReadRawEach hs (\<lambda>_. s) fuel sid q 0 emit acc =
    Some (map_sum EmitFailed id (fold_result emit acc (map (FromProto \<circ> Some) (from_seq q (stored_history hs sid s)))))"
proof -
  have "sees hs (\<lambda>_. s) sid (stream_log segs sid)" using assms(1,2) by (force simp: sees_def)
  then show ?thesis using ReadRawEach_window [of hs "\<lambda>_. s" sid _ fuel q 0 emit acc] assms(3,4)
    by (simp add: from_seq_history [OF assms(1-3)] at_least_one [OF assms(1)] cap_def comp_def proto_of_raw del: max.bounded_iff)
qed

lemma fold_result_collect_map: "fold_result (\<lambda>out r. Inr (out @ [f r])) acc rs = Inr (acc @ map f rs)"
  by (induction rs arbitrary: acc) simp_all

interpretation store_reads: history_client "readable hs sid fuel" "\<lambda>s. store_client inProcess streaming hs s fuel" sid "stored_history hs sid"
  for hs sid fuel inProcess streaming
proof
  fix s assume "readable hs sid fuel s"
  then obtain segs where r: "repr hs segs s" "crc32c_incremental hs" "sid \<noteq> ''''" "length (stream_log segs sid) < fuel"
    by (auto simp: readable_def)
  have H: "stored_history hs sid s = map logRecordFromStoreRecord (filter (\<lambda>r. sm_trimBefore (stream s sid) \<le> rec_Seq r) (stream_log segs sid))"
    using from_seq_history [OF r(1-3), of 0] by (simp add: from_seq_def)
  show "sorted_wrt (<) (map pb_Seq (stored_history hs sid s))"
    using repr_stream_log(1) [OF r(1), of sid] by (simp add: H comp_def sorted_wrt_map sorted_wrt_filter)
  show "0 < pb_Seq x \<and> pb_Seq x + 1 \<noteq> 0" if "x \<in> set (stored_history hs sid s)" for x
    using that repr_stream_log(2) [OF r(1), of _ sid] by (auto simp: H)
  show "lc_ReadLog (store_client inProcess streaming hs s fuel) sid q (word_of_nat bootstrapReadLimit) =
      Inr (take bootstrapReadLimit (from_seq q (stored_history hs sid s)))" for q
    using store_pages [OF r(1-3)] by (simp add: store_client_def)
  have rt: "rawRecordToProto (FromProto (Some x)) = x" for x
    by (simp add: rawRecordToProto_def FromProto_def)
  show "streamer sid q = Inl Unimplemented \<or> streamer sid q = Inr ([], Some Unimplemented) \<or>
      streamer sid q = Inr (from_seq q (stored_history hs sid s), None)"
    if "lc_stream (store_client inProcess streaming hs s fuel) = Some streamer" for streamer q
    using that store_raw [OF r, of q "\<lambda>sent rec. Inr (sent @ [rawRecordToProto rec]) :: unit + _" "[]"]
    by (auto simp: store_client_def ReadLogStream_def fold_result_collect_map collected_def comp_def rt split: if_splits)
  show "reader sid q = (map (FromProto \<circ> Some) (from_seq q (stored_history hs sid s)), None)"
    if "lc_raw (store_client inProcess streaming hs s fuel) = Some reader" for reader q
    using that store_raw [OF r, of q "\<lambda>out r. Inr (out @ [r]) :: unit + _" "[]"]
    by (auto simp: store_client_def ReadLogRawEach_def fold_result_collect collected_def split: if_splits)
qed

subsection \<open>Properties\<close>

text \<open>
  C14. Reading a stream of the log store through the control plane returns and hands over the whole
  history, whichever interface the client offers: the raw iteration, the streamed RPC and the page
  loop, which needs one page more than there are full pages, all run the callback over the same
  records in the same order.\<close>
theorem control_read_complete:
  assumes "repr hs segs s" and "crc32c_incremental hs" and "sid \<noteq> ''''"
    and "length (stream_log segs sid) < batches" and "length (stream_log segs sid) div bootstrapReadLimit < pages"
  shows "forEachRawLogRecord (store_client inProcess streaming hs s batches) pages sid fromSeq emit acc =
    Some (emit_all emit acc
      (map raw_of (filter (\<lambda>r. max fromSeq (sm_trimBefore (stream s sid)) \<le> rec_Seq r) (stream_log segs sid))))"
proof -
  have ok: "readable hs sid batches s" using assms(1-4) by (auto simp: readable_def)
  have "length (from_seq fromSeq (stored_history hs sid s)) \<le> length (stream_log segs sid)"
    by (simp add: from_seq_history [OF assms(1-3)] del: max.bounded_iff)
  then have "length (from_seq fromSeq (stored_history hs sid s)) div bootstrapReadLimit < pages"
    using assms(5) by (meson div_le_mono order.strict_trans1)
  from store_reads.raw_reads [OF ok this] show ?thesis
    by (simp add: from_seq_history [OF assms(1-3)] comp_def proto_of_raw del: max.bounded_iff)
qed

theorem control_read_complete_witness:
  "\<exists>s' rec. Append demo_hashes demo_env demo_request demo_store = (s', Inr (rec, False)) \<and>
     forEachRawLogRecord (store_client False False demo_hashes s' 2) 1 ''s'' 0 (\<lambda>out r. Inr (out @ [r]) :: string + raw_record list) [] =
       Some (Inr [raw_of rec])"
proof -
  obtain s' rec segs' where a: "Append demo_hashes demo_env demo_request demo_store = (s', Inr (rec, False))"
      "repr demo_hashes segs' s'" "log_records segs' = [rec]" "rec_Seq rec = 1" "rec_StreamID rec = ''s''"
      "sm_trimBefore (stream s' ''s'') = 0" by (rule demo_appended)
  have "forEachRawLogRecord (store_client False False demo_hashes s' 2) 1 ''s'' 0 (\<lambda>out r. Inr (out @ [r]) :: string + raw_record list) [] =
       Some (Inr [raw_of rec])"
    using control_read_complete [OF a(2) demo_hashes_incremental, of "''s''" 2 1 False False 0
        "\<lambda>out r. Inr (out @ [r]) :: string + raw_record list" "[]"] a(3-6)
    by (simp add: stream_log_def emit_all_def bootstrapReadLimit_def)
  with a(1) show ?thesis by blast
qed

end
