(* ===== verification/Metadata_Memory.thy ===== *)
theory Metadata_Memory
  imports Workflow_DAG Actor_Model Placement
begin

text \<open>
  The reference metadata store (internal/metadata/memory.go, \<open>MemoryStore\<close>): tasks with their
  leases, workers, workflows, actors and models in one record of maps, every method one atomic step
  under the single lock.

  A Go map is a \<^typ>\<open>'k \<rightharpoonup> 'v\<close>; a method that iterates over a map takes the order in which the
  runtime yields the keys as an argument. \<open>time.Now().UnixMilli()\<close> is the argument \<open>now\<close>, a
  \<open>time.Duration\<close> is its number of nanoseconds. A pair of a value and a found flag is an option,
  except where the source returns a task together with \<open>false\<close>.
\<close>

subsection \<open>Tasks\<close>

text \<open>\<open>TaskStatus\<close> is an open protobuf enumeration: values without a name can be stored too.\<close>

datatype task_status =
    TASK_STATUS_UNSPECIFIED | TASK_STATUS_QUEUED | TASK_STATUS_RUNNING
  | TASK_STATUS_SUCCEEDED | TASK_STATUS_FAILED | TASK_STATUS_OTHER int

record task =
  tk_TaskID :: string
  tk_TaskName :: string
  tk_Status :: task_status
  tk_ResultJSON :: bytes
  tk_Error :: string
  tk_WorkerID :: string
  tk_WorkflowID :: string
  tk_StepID :: string
  tk_TargetWorkerID :: string
  tk_ActorID :: string
  tk_ActorCallID :: string
  tk_ActorEpoch :: u64
  tk_ActorCommandSeq :: u64
  tk_TaskLeaseEpoch :: u64
  tk_LLMModelName :: string
  tk_LLMModelVersion :: string
  tk_IdempotencyKey :: string
  tk_IdempotencyFingerprint :: string
  tk_CreatedAtMs :: i64
  tk_UpdatedAtMs :: i64

definition zero_task :: task where
  "zero_task = \<lparr>tk_TaskID = '''', tk_TaskName = '''', tk_Status = TASK_STATUS_UNSPECIFIED, tk_ResultJSON = [],
     tk_Error = '''', tk_WorkerID = '''', tk_WorkflowID = '''', tk_StepID = '''', tk_TargetWorkerID = '''',
     tk_ActorID = '''', tk_ActorCallID = '''', tk_ActorEpoch = 0, tk_ActorCommandSeq = 0, tk_TaskLeaseEpoch = 0,
     tk_LLMModelName = '''', tk_LLMModelVersion = '''', tk_IdempotencyKey = '''',
     tk_IdempotencyFingerprint = '''', tk_CreatedAtMs = 0, tk_UpdatedAtMs = 0\<rparr>"

definition isTerminalTaskStatus :: "task_status \<Rightarrow> bool" where
  "isTerminalTaskStatus st \<longleftrightarrow> st = TASK_STATUS_SUCCEEDED \<or> st = TASK_STATUS_FAILED"

definition cloneTask :: "task \<Rightarrow> task" where
  "cloneTask tk = tk\<lparr>tk_ResultJSON := [] @ tk_ResultJSON tk\<rparr>"

lemma cloneTask_id [clone_simps, simp]: "cloneTask tk = tk"
  by (simp add: cloneTask_def)

lemma cloneTask_fun [clone_simps, simp]: "map_option cloneTask x = x" "map cloneTask ts = ts"
  by (cases x) (simp_all add: map_idI)

definition duration_ms :: "i64 \<Rightarrow> i64" where
  "duration_ms d = d div 1000000"

datatype meta_error = TaskNotFound | StaleLease | WorkflowNotFound | ActorNotFound | CallbackFailed string

subsection \<open>Workers and models\<close>

text \<open>The scheduler's view of a worker, with its address and labels.\<close>

record meta_worker = worker +
  wk_Address :: string
  wk_Labels :: "string \<rightharpoonup> string"

record model_info =
  mi_Name :: string
  mi_Version :: string
  mi_SizeBytes :: u64
  mi_Path :: string
  mi_Adapter :: string

definition cloneModel :: "model_info \<Rightarrow> model_info" where
  "cloneModel model = \<lparr>mi_Name = mi_Name model, mi_Version = mi_Version model, mi_SizeBytes = mi_SizeBytes model,
     mi_Path = mi_Path model, mi_Adapter = mi_Adapter model\<rparr>"

definition cloneModelCache :: "(string \<times> bool) list \<Rightarrow> (string \<times> bool) list" where
  "cloneModelCache source = map (\<lambda>(k, v). (k, v)) source"

definition cloneWorker :: "meta_worker \<Rightarrow> meta_worker" where
  "cloneWorker w = w\<lparr>wk_CachedModels := cloneModelCache (wk_CachedModels w),
     wk_Capacity := (if wk_Capacity w = 0 then 1 else wk_Capacity w)\<rparr>"

definition cloneActor :: "actor_state \<Rightarrow> actor_state" where
  "cloneActor state = state\<lparr>as_InitArgsJSON := [] @ as_InitArgsJSON state, as_StateJSON := [] @ as_StateJSON state\<rparr>"

definition cloneWorkflow :: "wf_state \<Rightarrow> wf_state" where
  "cloneWorkflow state = CloneState state"

lemma cloneModel_id [clone_simps, simp]: "cloneModel x = x"
  by (simp add: cloneModel_def)

lemma cloneModelCache_id [clone_simps, simp]: "cloneModelCache x = x"
  by (simp add: cloneModelCache_def)

lemma cloneActor_id [clone_simps, simp]: "cloneActor x = x"
  by (simp add: cloneActor_def)

lemma clone_fun [clone_simps, simp]:
  "map_option cloneModel x = x" "map cloneModel ms = ms" "map_option cloneActor y = y" "map cloneActor as = as"
  by (cases x; cases y; simp add: map_idI)+

definition default_worker :: "string \<Rightarrow> meta_worker" where
  "default_worker workerID = \<lparr>wk_WorkerID = workerID, wk_CachedModels = [], wk_Capacity = 1, wk_RunningTasks = 0,
     wk_LastHeartbeat = 0, wk_Address = '''', wk_Labels = Map.empty\<rparr>"

subsection \<open>The store\<close>

record memory_store =
  ms_tasks :: "string \<rightharpoonup> task"
  ms_taskByIdemKey :: "string \<rightharpoonup> string"
  ms_workers :: "string \<rightharpoonup> meta_worker"
  ms_workflows :: "string \<rightharpoonup> wf_state"
  ms_workflowByIdemKey :: "string \<rightharpoonup> string"
  ms_actors :: "string \<rightharpoonup> actor_state"
  ms_actorByIdemKey :: "string \<rightharpoonup> string"
  ms_models :: "string \<rightharpoonup> model_info"

definition NewLegacyMemoryStore :: memory_store where
  "NewLegacyMemoryStore = \<lparr>ms_tasks = Map.empty, ms_taskByIdemKey = Map.empty, ms_workers = Map.empty,
     ms_workflows = Map.empty, ms_workflowByIdemKey = Map.empty, ms_actors = Map.empty,
     ms_actorByIdemKey = Map.empty, ms_models = Map.empty\<rparr>"

text \<open>The order in which a range loop visits a map.\<close>

definition map_order :: "('k \<rightharpoonup> 'v) \<Rightarrow> 'k list \<Rightarrow> bool" where
  "map_order m ks \<longleftrightarrow> distinct ks \<and> set ks = dom m"

definition range_values :: "('k \<rightharpoonup> 'v) \<Rightarrow> 'k list \<Rightarrow> 'v list" where
  "range_values m ks = List.map_filter m ks"

subsection \<open>Task operations\<close>

definition stamp_new :: "task \<Rightarrow> string \<Rightarrow> i64 \<Rightarrow> task" where
  "stamp_new tk idempotencyKey now = tk\<lparr>tk_CreatedAtMs := now, tk_UpdatedAtMs := now, tk_IdempotencyKey := idempotencyKey\<rparr>"

definition CreateTask :: "task \<Rightarrow> string \<Rightarrow> i64 \<Rightarrow> memory_store \<Rightarrow> memory_store \<times> task \<times> bool" where
  "CreateTask tk0 idempotencyKey now s =
     (case (if idempotencyKey \<noteq> '''' then ms_taskByIdemKey s idempotencyKey else None) of
        Some taskID \<Rightarrow> (s, case ms_tasks s taskID of None \<Rightarrow> zero_task | Some t \<Rightarrow> t, True)
      | None \<Rightarrow>
          let tk = stamp_new tk0 idempotencyKey now;
              s1 = s\<lparr>ms_tasks := (ms_tasks s)(tk_TaskID tk \<mapsto> cloneTask tk)\<rparr>;
              s2 = (if idempotencyKey \<noteq> '''' then s1\<lparr>ms_taskByIdemKey := (ms_taskByIdemKey s1)(idempotencyKey \<mapsto> tk_TaskID tk)\<rparr>
                    else s1)
          in (s2, tk, False))"

definition GetTask :: "string \<Rightarrow> memory_store \<Rightarrow> task option" where
  "GetTask taskID s = map_option cloneTask (ms_tasks s taskID)"

definition GetTaskByIdempotencyKey :: "string \<Rightarrow> memory_store \<Rightarrow> task option" where
  "GetTaskByIdempotencyKey key s =
     (if key = '''' then None
      else case ms_taskByIdemKey s key of None \<Rightarrow> None | Some taskID \<Rightarrow> map_option cloneTask (ms_tasks s taskID))"

definition ListTasks :: "string list \<Rightarrow> memory_store \<Rightarrow> task list" where
  "ListTasks order s = map cloneTask (range_values (ms_tasks s) order)"

definition leased :: "task \<Rightarrow> string \<Rightarrow> i64 \<Rightarrow> task" where
  "leased tk workerID now = tk\<lparr>tk_TaskLeaseEpoch := tk_TaskLeaseEpoch tk + 1, tk_Status := TASK_STATUS_RUNNING,
     tk_WorkerID := workerID, tk_UpdatedAtMs := now\<rparr>"

definition LeaseTask :: "string \<Rightarrow> string \<Rightarrow> i64 \<Rightarrow> memory_store \<Rightarrow> memory_store \<times> (meta_error + task)" where
  "LeaseTask taskID workerID now s =
     (case ms_tasks s taskID of
        None \<Rightarrow> (s, Inl TaskNotFound)
      | Some tk \<Rightarrow>
          if tk_Status tk = TASK_STATUS_SUCCEEDED \<or> tk_Status tk = TASK_STATUS_FAILED then (s, Inr (cloneTask tk))
          else let tk1 = leased tk workerID now
               in (s\<lparr>ms_tasks := (ms_tasks s)(taskID \<mapsto> tk1)\<rparr>, Inr (cloneTask tk1)))"

definition check_lease :: "task \<Rightarrow> string \<Rightarrow> u64 \<Rightarrow> bool" where
  "check_lease tk workerID leaseEpoch \<longleftrightarrow>
     \<not> (tk_Status tk \<noteq> TASK_STATUS_RUNNING)
     \<and> \<not> (tk_WorkerID tk = '''' \<or> workerID = '''' \<or> tk_WorkerID tk \<noteq> workerID)
     \<and> \<not> (tk_TaskLeaseEpoch tk = 0 \<or> leaseEpoch = 0 \<or> tk_TaskLeaseEpoch tk \<noteq> leaseEpoch)"

definition ValidateTaskLease :: "string \<Rightarrow> string \<Rightarrow> u64 \<Rightarrow> memory_store \<Rightarrow> meta_error + task" where
  "ValidateTaskLease taskID workerID leaseEpoch s =
     (case ms_tasks s taskID of
        None \<Rightarrow> Inl TaskNotFound
      | Some tk \<Rightarrow>
          if tk_Status tk = TASK_STATUS_SUCCEEDED \<or> tk_Status tk = TASK_STATUS_FAILED then Inr (cloneTask tk)
          else if \<not> check_lease tk workerID leaseEpoch then Inl StaleLease
          else Inr (cloneTask tk))"

text \<open>The stored task loses its worker; the returned one keeps it for the caller's accounting.\<close>

definition requeued_stored :: "task \<Rightarrow> i64 \<Rightarrow> task" where
  "requeued_stored tk now = tk\<lparr>tk_Status := TASK_STATUS_QUEUED, tk_WorkerID := '''', tk_UpdatedAtMs := now\<rparr>"

definition requeued_returned :: "task \<Rightarrow> i64 \<Rightarrow> task" where
  "requeued_returned tk now = tk\<lparr>tk_Status := TASK_STATUS_QUEUED, tk_UpdatedAtMs := now\<rparr>"

definition requeue_one :: "i64 \<Rightarrow> i64 \<Rightarrow> string \<Rightarrow> (string \<rightharpoonup> task) \<times> task list \<Rightarrow> (string \<rightharpoonup> task) \<times> task list" where
  "requeue_one now cutoffMs taskID = (\<lambda>(tasks, requeued).
     case tasks taskID of
       None \<Rightarrow> (tasks, requeued)
     | Some tk \<Rightarrow>
         if tk_Status tk \<noteq> TASK_STATUS_RUNNING then (tasks, requeued)
         else if sub64 now (tk_UpdatedAtMs tk) < cutoffMs then (tasks, requeued)
         else (tasks(taskID \<mapsto> requeued_stored tk now), requeued @ [cloneTask (requeued_returned tk now)]))"

definition RequeueExpiredRunningTasks :: "string list \<Rightarrow> i64 \<Rightarrow> i64 \<Rightarrow> memory_store \<Rightarrow> memory_store \<times> task list" where
  "RequeueExpiredRunningTasks order maxAge now s =
     (if maxAge \<le> 0 then (s, [])
      else case fold (requeue_one now (duration_ms maxAge)) order (ms_tasks s, []) of
             (tasks, requeued) \<Rightarrow> (s\<lparr>ms_tasks := tasks\<rparr>, requeued))"

definition RequeueTaskIfLeaseExpired ::
  "string \<Rightarrow> u64 \<Rightarrow> i64 \<Rightarrow> i64 \<Rightarrow> memory_store \<Rightarrow> memory_store \<times> task \<times> bool" where
  "RequeueTaskIfLeaseExpired taskID leaseEpoch maxAge now s =
     (if maxAge \<le> 0 \<or> taskID = '''' \<or> leaseEpoch = 0 then (s, zero_task, False)
      else case ms_tasks s taskID of
        None \<Rightarrow> (s, zero_task, False)
      | Some tk \<Rightarrow>
          if tk_Status tk \<noteq> TASK_STATUS_RUNNING \<or> tk_TaskLeaseEpoch tk \<noteq> leaseEpoch then (s, cloneTask tk, False)
          else if sub64 now (tk_UpdatedAtMs tk) < duration_ms maxAge then (s, cloneTask tk, False)
          else (s\<lparr>ms_tasks := (ms_tasks s)(taskID \<mapsto> requeued_stored tk now)\<rparr>, cloneTask (requeued_returned tk now), True))"

definition completed :: "task \<Rightarrow> string \<Rightarrow> task_status \<Rightarrow> bytes \<Rightarrow> string \<Rightarrow> i64 \<Rightarrow> task" where
  "completed tk workerID st resultJSON taskErr now =
     tk\<lparr>tk_Status := st, tk_WorkerID := workerID, tk_ResultJSON := [] @ resultJSON, tk_Error := taskErr, tk_UpdatedAtMs := now\<rparr>"

definition CompleteTask ::
  "string \<Rightarrow> string \<Rightarrow> u64 \<Rightarrow> task_status \<Rightarrow> bytes \<Rightarrow> string \<Rightarrow> i64 \<Rightarrow> memory_store \<Rightarrow> memory_store \<times> (meta_error + task)" where
  "CompleteTask taskID workerID leaseEpoch st resultJSON taskErr now s =
     (case ms_tasks s taskID of
        None \<Rightarrow> (s, Inl TaskNotFound)
      | Some tk \<Rightarrow>
          if tk_Status tk = TASK_STATUS_SUCCEEDED \<or> tk_Status tk = TASK_STATUS_FAILED then (s, Inr (cloneTask tk))
          else if \<not> check_lease tk workerID leaseEpoch then (s, Inl StaleLease)
          else let tk1 = completed tk workerID st resultJSON taskErr now
               in (s\<lparr>ms_tasks := (ms_tasks s)(taskID \<mapsto> tk1)\<rparr>, Inr (cloneTask tk1)))"

subsection \<open>Models\<close>

definition RegisterModel :: "model_info \<Rightarrow> memory_store \<Rightarrow> memory_store \<times> model_info" where
  "RegisterModel model s =
     (let c0 = cloneModel model;
          c1 = (if mi_Version c0 = '''' then c0\<lparr>mi_Version := ''v1''\<rparr> else c0);
          c2 = (if mi_Adapter c1 = '''' then c1\<lparr>mi_Adapter := ''mock''\<rparr> else c1)
      in (s\<lparr>ms_models := (ms_models s)(ModelKey (mi_Name c2) (mi_Version c2) \<mapsto> c2)\<rparr>, cloneModel c2))"

definition GetModel :: "string \<Rightarrow> string \<Rightarrow> memory_store \<Rightarrow> model_info option" where
  "GetModel name version s =
     map_option cloneModel (ms_models s (ModelKey name (if version = '''' then ''v1'' else version)))"

definition ListModels :: "string list \<Rightarrow> memory_store \<Rightarrow> model_info list" where
  "ListModels order s = map cloneModel (range_values (ms_models s) order)"

subsection \<open>Workflows\<close>

definition CreateWorkflow :: "wf_state \<Rightarrow> string \<Rightarrow> memory_store \<Rightarrow> memory_store \<times> wf_state \<times> bool" where
  "CreateWorkflow state0 idempotencyKey s =
     (case (if idempotencyKey \<noteq> '''' then ms_workflowByIdemKey s idempotencyKey else None) of
        Some workflowID \<Rightarrow>
          (s, cloneWorkflow (case ms_workflows s workflowID of None \<Rightarrow> zero_state | Some st \<Rightarrow> st), True)
      | None \<Rightarrow>
          let state = state0\<lparr>ws_IdempotencyKey := idempotencyKey\<rparr>;
              s1 = s\<lparr>ms_workflows := (ms_workflows s)(ws_WorkflowID state \<mapsto> cloneWorkflow state)\<rparr>;
              s2 = (if idempotencyKey \<noteq> ''''
                    then s1\<lparr>ms_workflowByIdemKey := (ms_workflowByIdemKey s1)(idempotencyKey \<mapsto> ws_WorkflowID state)\<rparr> else s1)
          in (s2, cloneWorkflow state, False))"

definition GetWorkflow :: "string \<Rightarrow> memory_store \<Rightarrow> wf_state option" where
  "GetWorkflow workflowID s = map_option cloneWorkflow (ms_workflows s workflowID)"

definition GetWorkflowByIdempotencyKey :: "string \<Rightarrow> memory_store \<Rightarrow> wf_state option" where
  "GetWorkflowByIdempotencyKey key s =
     (if key = '''' then None
      else case ms_workflowByIdemKey s key of None \<Rightarrow> None | Some w \<Rightarrow> map_option cloneWorkflow (ms_workflows s w))"

definition ListWorkflows :: "string list \<Rightarrow> memory_store \<Rightarrow> wf_state list" where
  "ListWorkflows order s = map cloneWorkflow (range_values (ms_workflows s) order)"

text \<open>
  The callback is a function from the state to an error or the changed state. A callback that
  writes through slices it shares with the stored state before it fails is outside the model.
\<close>

definition UpdateWorkflow ::
  "string \<Rightarrow> (wf_state \<Rightarrow> string + wf_state) \<Rightarrow> i64 \<Rightarrow> memory_store \<Rightarrow> memory_store \<times> (meta_error + wf_state)" where
  "UpdateWorkflow workflowID fn now s =
     (case ms_workflows s workflowID of
        None \<Rightarrow> (s, Inl WorkflowNotFound)
      | Some state \<Rightarrow>
          (case fn state of
             Inl e \<Rightarrow> (s, Inl (CallbackFailed e))
           | Inr state1 \<Rightarrow>
               let state2 = state1\<lparr>ws_UpdatedAtMs := now\<rparr>
               in (s\<lparr>ms_workflows := (ms_workflows s)(workflowID \<mapsto> cloneWorkflow state2)\<rparr>, Inr (cloneWorkflow state2))))"

definition UpsertWorkflow :: "wf_state \<Rightarrow> memory_store \<Rightarrow> memory_store" where
  "UpsertWorkflow state s =
     (let s1 = s\<lparr>ms_workflows := (ms_workflows s)(ws_WorkflowID state \<mapsto> cloneWorkflow state)\<rparr>
      in if ws_IdempotencyKey state \<noteq> ''''
         then s1\<lparr>ms_workflowByIdemKey := (ms_workflowByIdemKey s1)(ws_IdempotencyKey state \<mapsto> ws_WorkflowID state)\<rparr> else s1)"

subsection \<open>Workers\<close>

definition meta_UpsertWorker :: "meta_worker \<Rightarrow> i64 \<Rightarrow> memory_store \<Rightarrow> memory_store" where
  "meta_UpsertWorker w0 now s =
     (let w1 = (if wk_Capacity w0 = 0 then w0\<lparr>wk_Capacity := 1\<rparr> else w0);
          w2 = (case ms_workers s (wk_WorkerID w1) of
                  Some existing \<Rightarrow> w1\<lparr>wk_RunningTasks := wk_RunningTasks existing\<rparr> | None \<Rightarrow> w1);
          w3 = (if wk_LastHeartbeat w2 = 0 then w2\<lparr>wk_LastHeartbeat := now\<rparr> else w2)
      in s\<lparr>ms_workers := (ms_workers s)(wk_WorkerID w3 \<mapsto> cloneWorker w3)\<rparr>)"

definition GetWorker :: "string \<Rightarrow> memory_store \<Rightarrow> meta_worker option" where
  "GetWorker workerID s = map_option cloneWorker (ms_workers s workerID)"

definition ActiveWorkers :: "string list \<Rightarrow> i64 \<Rightarrow> i64 \<Rightarrow> memory_store \<Rightarrow> meta_worker list" where
  "ActiveWorkers order maxAge now s =
     map cloneWorker (filter (\<lambda>w. maxAge \<le> 0 \<or> sub64 now (wk_LastHeartbeat w) \<le> duration_ms maxAge)
       (range_values (ms_workers s) order))"

definition ListWorkers :: "string list \<Rightarrow> memory_store \<Rightarrow> meta_worker list" where
  "ListWorkers order s = map cloneWorker (range_values (ms_workers s) order)"

text \<open>\<open>None\<close> is the nil map: the reported cache is left alone.\<close>

definition Heartbeat ::
  "string \<Rightarrow> (string \<times> bool) list option \<Rightarrow> i64 \<Rightarrow> memory_store \<Rightarrow> memory_store \<times> meta_worker \<times> bool" where
  "Heartbeat workerID cachedModels now s =
     (let w0 = (case ms_workers s workerID of None \<Rightarrow> default_worker workerID | Some w \<Rightarrow> w);
          w1 = (case cachedModels of None \<Rightarrow> w0 | Some m \<Rightarrow> w0\<lparr>wk_CachedModels := cloneModelCache m\<rparr>);
          w2 = (if wk_Capacity w1 = 0 then w1\<lparr>wk_Capacity := 1\<rparr> else w1);
          w3 = w2\<lparr>wk_LastHeartbeat := now\<rparr>
      in (s\<lparr>ms_workers := (ms_workers s)(workerID \<mapsto> w3)\<rparr>, cloneWorker w3, ms_workers s workerID \<noteq> None))"

definition IncrementWorkerLoad :: "string \<Rightarrow> i64 \<Rightarrow> memory_store \<Rightarrow> memory_store" where
  "IncrementWorkerLoad workerID now s =
     (let w0 = (case ms_workers s workerID of None \<Rightarrow> default_worker workerID | Some w \<Rightarrow> w);
          w1 = (if wk_Capacity w0 = 0 then w0\<lparr>wk_Capacity := 1\<rparr> else w0)
      in s\<lparr>ms_workers := (ms_workers s)(workerID \<mapsto>
           w1\<lparr>wk_RunningTasks := wk_RunningTasks w1 + 1, wk_LastHeartbeat := now\<rparr>)\<rparr>)"

definition DecrementWorkerLoad :: "string \<Rightarrow> memory_store \<Rightarrow> memory_store" where
  "DecrementWorkerLoad workerID s =
     (case ms_workers s workerID of
        None \<Rightarrow> s
      | Some w \<Rightarrow> s\<lparr>ms_workers := (ms_workers s)(workerID \<mapsto>
          (if wk_RunningTasks w > 0 then w\<lparr>wk_RunningTasks := wk_RunningTasks w - 1\<rparr> else w))\<rparr>)"

subsection \<open>Actors\<close>

definition CreateActor :: "actor_state \<Rightarrow> string \<Rightarrow> memory_store \<Rightarrow> memory_store \<times> actor_state \<times> bool" where
  "CreateActor state0 idempotencyKey s =
     (case (if idempotencyKey \<noteq> '''' then ms_actorByIdemKey s idempotencyKey else None) of
        Some actorID \<Rightarrow> (s, cloneActor (case ms_actors s actorID of None \<Rightarrow> zero_actor_state | Some st \<Rightarrow> st), True)
      | None \<Rightarrow>
          let state = state0\<lparr>as_IdempotencyKey := idempotencyKey\<rparr>;
              s1 = s\<lparr>ms_actors := (ms_actors s)(as_ActorID state \<mapsto> cloneActor state)\<rparr>;
              s2 = (if idempotencyKey \<noteq> ''''
                    then s1\<lparr>ms_actorByIdemKey := (ms_actorByIdemKey s1)(idempotencyKey \<mapsto> as_ActorID state)\<rparr> else s1)
          in (s2, cloneActor state, False))"

definition GetActor :: "string \<Rightarrow> memory_store \<Rightarrow> actor_state option" where
  "GetActor actorID s = map_option cloneActor (ms_actors s actorID)"

definition GetActorByIdempotencyKey :: "string \<Rightarrow> memory_store \<Rightarrow> actor_state option" where
  "GetActorByIdempotencyKey key s =
     (if key = '''' then None
      else case ms_actorByIdemKey s key of None \<Rightarrow> None | Some a \<Rightarrow> map_option cloneActor (ms_actors s a))"

definition ListActors :: "string list \<Rightarrow> memory_store \<Rightarrow> actor_state list" where
  "ListActors order s = map cloneActor (range_values (ms_actors s) order)"

definition UpdateActor ::
  "string \<Rightarrow> (actor_state \<Rightarrow> string + actor_state) \<Rightarrow> i64 \<Rightarrow> memory_store \<Rightarrow> memory_store \<times> (meta_error + actor_state)" where
  "UpdateActor actorID fn now s =
     (case ms_actors s actorID of
        None \<Rightarrow> (s, Inl ActorNotFound)
      | Some state \<Rightarrow>
          (case fn state of
             Inl e \<Rightarrow> (s, Inl (CallbackFailed e))
           | Inr state1 \<Rightarrow>
               let state2 = state1\<lparr>as_UpdatedAtMs := now\<rparr>
               in (s\<lparr>ms_actors := (ms_actors s)(actorID \<mapsto> cloneActor state2)\<rparr>, Inr (cloneActor state2))))"

definition UpsertActor :: "actor_state \<Rightarrow> memory_store \<Rightarrow> memory_store" where
  "UpsertActor state s =
     (let s1 = s\<lparr>ms_actors := (ms_actors s)(as_ActorID state \<mapsto> cloneActor state)\<rparr>
      in if as_IdempotencyKey state \<noteq> ''''
         then s1\<lparr>ms_actorByIdemKey := (ms_actorByIdemKey s1)(as_IdempotencyKey state \<mapsto> as_ActorID state)\<rparr> else s1)"

end
