(* ===== verification/Deadline_Queue.thy ===== *)
theory Deadline_Queue
  imports Lease_Heap
begin

text \<open>
  The lease-expiry queue of the sharded metadata store (internal/metadata/memory_v2.go,
  \<open>taskDeadlineQueueV2\<close>): a binary heap in a slice together with a map from task to heap slot,
  kept in step by the interface methods \<open>Swap\<close>, \<open>Push\<close> and \<open>Pop\<close> while container/heap sifts.

  The sifting of the slice is that of theory \<open>Lease_Heap\<close>; here \<open>heap.Fix\<close> and \<open>heap.Remove\<close> are
  added, the position map is shown exact after every operation, and the queue is shown to be a map
  from tasks to deadlines from which the oldest lease is popped. The locale \<open>keyed_queue\<close> states
  that contract, interpreted on the queue as \<open>dq\<close>.
\<close>

subsection \<open>Deadlines and their order\<close>

datatype task_deadline =
  TaskDeadline (td_taskID: string) (td_updatedAtMs: i64) (td_leaseEpoch: u64)

definition deadline_Less :: "task_deadline \<Rightarrow> task_deadline \<Rightarrow> bool" where
  "deadline_Less a b =
     (if td_updatedAtMs a = td_updatedAtMs b
      then if td_taskID a = td_taskID b then td_leaseEpoch a < td_leaseEpoch b
           else td_taskID a < td_taskID b
      else td_updatedAtMs a < td_updatedAtMs b)"

definition deadline_key :: "task_deadline \<Rightarrow> i64 \<times> string \<times> u64" where
  "deadline_key d = (td_updatedAtMs d, td_taskID d, td_leaseEpoch d)"

lemma deadline_key_inj: "deadline_key a = deadline_key b \<longleftrightarrow> a = b"
  by (cases a; cases b) (auto simp: deadline_key_def)

lemma deadline_Less_key: "deadline_Less a b \<longleftrightarrow> deadline_key a < deadline_key b"
  by (auto simp: deadline_Less_def deadline_key_def)

instantiation task_deadline :: linorder
begin
definition less_task_deadline :: "task_deadline \<Rightarrow> task_deadline \<Rightarrow> bool" where
  "less_task_deadline = deadline_Less"
definition less_eq_task_deadline :: "task_deadline \<Rightarrow> task_deadline \<Rightarrow> bool" where
  "less_eq_task_deadline a b \<longleftrightarrow> deadline_Less a b \<or> a = b"
instance
proof
  fix a b :: task_deadline
  show "a \<le> b \<or> b \<le> a"
    using deadline_key_inj [of a b] by (auto simp: less_eq_task_deadline_def deadline_Less_key)
qed (auto simp: less_task_deadline_def less_eq_task_deadline_def deadline_Less_key)
end

lemma deadline_le_updated: "a \<le> b \<Longrightarrow> td_updatedAtMs a \<le> td_updatedAtMs b"
  by (auto simp: less_eq_task_deadline_def deadline_Less_def split: if_splits)

subsection \<open>heap.Fix and heap.Remove on the slice\<close>

text \<open>
  \<open>heap.down\<close> reports whether the entry moved; \<open>heap.Fix\<close> and \<open>heap.Remove\<close> sift up when it did
  not. The entry moves in the first iteration or never.
\<close>

definition down_moves :: "'a::linorder list \<Rightarrow> nat \<Rightarrow> nat \<Rightarrow> bool" where
  "down_moves h i n \<longleftrightarrow> 2 * i + 1 < n \<and> h ! smaller_child h (2 * i + 1) n < h ! i"

definition heap_fix :: "'a::linorder list \<Rightarrow> nat \<Rightarrow> nat \<Rightarrow> 'a list" where
  "heap_fix h i n = (if down_moves h i n then heap_down h i n else heap_up (heap_down h i n) i)"

text \<open>In heap order but for the entry at \<open>i\<close>, whose neighbours respect each other.\<close>

definition heap_but :: "'a::linorder list \<Rightarrow> nat \<Rightarrow> bool" where
  "heap_but h i \<longleftrightarrow> (\<forall>k<length h. 0 < k \<longrightarrow> k \<noteq> i \<longrightarrow> parent k \<noteq> i \<longrightarrow> h ! parent k \<le> h ! k)
     \<and> (\<forall>k<length h. 0 < i \<longrightarrow> 0 < k \<longrightarrow> parent k = i \<longrightarrow> h ! parent i \<le> h ! k)"

lemma heap_but_update:
  assumes "is_heap h" "i < length h"
  shows "heap_but (h[i := x]) i"
  unfolding heap_but_def
proof (intro conjI allI impI)
  fix k assume "k < length (h[i := x])" "0 < k" "k \<noteq> i" "parent k \<noteq> i"
  then show "h[i := x] ! parent k \<le> h[i := x] ! k" using assms by (simp add: is_heap_def)
next
  fix k assume k: "k < length (h[i := x])" "0 < i" "0 < k" "parent k = i"
  then have "parent i < i" "i < k" by auto
  moreover have "h ! parent i \<le> h ! i" "h ! i \<le> h ! k" using assms k unfolding is_heap_def by auto
  ultimately show "h[i := x] ! parent i \<le> h[i := x] ! k" using order.trans by auto
qed

lemma heap_down_stays: "\<not> down_moves h i n \<Longrightarrow> heap_down h i n = h"
  by (subst heap_down.simps) (auto simp: down_moves_def Let_def)

lemma heap_up_stays: "is_heap h \<Longrightarrow> i < length h \<Longrightarrow> heap_up h i = h"
  by (subst heap_up.simps) (auto simp: is_heap_def Let_def not_less)

lemma heap_fix_heap:
  assumes "heap_but h i" "i < length h"
  shows "is_heap (heap_fix h i (length h))"
proof (cases "0 < i \<and> h ! i < h ! parent i")
  case True
  have "h ! i \<le> h ! k" if "k < length h" "0 < k" "parent k = i" for k
    using assms(1) that True unfolding heap_but_def by fastforce
  then have "\<not> h ! smaller_child h (2 * i + 1) (length h) < h ! i" if "2 * i + 1 < length h"
    using smaller_child_spec [OF that, of h] by (auto simp: not_less)
  then have stay: "\<not> down_moves h i (length h)" by (auto simp: down_moves_def)
  have "is_heap (heap_up h i)"
  proof (rule heap_up_heap [OF assms(2)])
    fix k assume k: "k < length h" "k \<noteq> i"
    show "h ! parent k \<le> h ! k"
    proof (cases "0 < k \<and> parent k = i")
      case True
      then show ?thesis using k \<open>\<And>k. k < length h \<Longrightarrow> 0 < k \<Longrightarrow> parent k = i \<Longrightarrow> h ! i \<le> h ! k\<close> by simp
    qed (use assms(1) k in \<open>auto simp: heap_but_def\<close>)
  qed (use assms(1) in \<open>auto simp: heap_but_def\<close>)
  then show ?thesis using stay by (simp add: heap_fix_def heap_down_stays)
next
  case False
  have "heap_upto (length h) (heap_down h i (length h))"
  proof (rule heap_down_heap [OF order.refl assms(2)])
    fix k assume "k < length h" "0 < k" "parent k \<noteq> i"
    then show "h ! parent k \<le> h ! k" using assms(1) False by (cases "k = i") (auto simp: heap_but_def)
  qed (use assms(1) in \<open>auto simp: heap_but_def\<close>)
  then have "is_heap (heap_down h i (length h))" by (simp add: heap_upto_def is_heap_def)
  then show ?thesis using assms(2) by (simp add: heap_fix_def heap_up_stays)
qed

lemma heap_fix_mset:
  assumes "i < n" "n \<le> length h"
  shows "mset (heap_fix h i n) = mset h"
  using assms heap_down_spec [of n h i] by (simp add: heap_fix_def heap_up_mset)

text \<open>\<open>heap.Remove\<close> works on the first entries only; the last one is the removed entry.\<close>

lemma smaller_child_take: "j < n \<Longrightarrow> n \<le> length h \<Longrightarrow> smaller_child (take n h) j n = smaller_child h j n"
  by (auto simp: smaller_child_def Let_def)

lemma swap_take: "i < n \<Longrightarrow> j < n \<Longrightarrow> n \<le> length h \<Longrightarrow> swap i j (take n h) = take n (swap i j h)"
  by (simp add: swap_def take_update_swap)

lemma heap_down_take:
  assumes "i < n" "n \<le> length h"
  shows "take n (heap_down h i n) = heap_down (take n h) i n"
  using assms
proof (induction h i n rule: heap_down.induct)
  case (1 h i n)
  show ?case
  proof (cases "2 * i + 1 \<ge> n")
    case False
    define j where "j = smaller_child h (2 * i + 1) n"
    have j: "j < n" "smaller_child (take n h) (Suc (2 * i)) n = j" "smaller_child h (Suc (2 * i)) n = j"
      using False smaller_child_spec [of "2 * i + 1" n h] 1(3) by (simp_all add: j_def smaller_child_take)
    show ?thesis
    proof (cases "h ! j < h ! i")
      case True
      have "take n (heap_down (swap i j h) j n) = heap_down (take n (swap i j h)) j n"
        by (rule "1.IH" [OF refl False j_def]) (use True j 1 in simp_all)
      then show ?thesis
        using False True j 1(2,3)
        by (subst (1 2) heap_down.simps) (simp add: Let_def swap_take)
    next
      case F: False
      then show ?thesis using False j 1(2,3)
        by (subst (1 2) heap_down.simps) (simp add: Let_def)
    qed
  next
    case True
    then show ?thesis by (subst (1 2) heap_down.simps) simp
  qed
qed

lemma heap_up_take:
  assumes "j < n" "n \<le> length h"
  shows "take n (heap_up h j) = heap_up (take n h) j \<and> drop n (heap_up h j) = drop n h"
  using assms
proof (induction h j rule: heap_up.induct)
  case (1 h j)
  show ?case
  proof (cases "parent j = j \<or> \<not> h ! j < h ! parent j")
    case True
    then show ?thesis using 1(2,3) by (subst (1 2 3) heap_up.simps) (auto simp: Let_def)
  next
    case False
    have p: "parent j < n" using 1(2) by simp
    have "take n (heap_up (swap (parent j) j h) (parent j)) = heap_up (take n (swap (parent j) j h)) (parent j)
        \<and> drop n (heap_up (swap (parent j) j h) (parent j)) = drop n (swap (parent j) j h)"
      by (rule "1.IH" [OF refl False]) (use 1(3) p in simp_all)
    moreover have "drop n (swap (parent j) j h) = drop n h" using 1(2) p by (simp add: swap_def)
    ultimately show ?thesis using False 1(2,3) p
      by (subst (1 2 3) heap_up.simps) (simp add: Let_def swap_take)
  qed
qed

lemma heap_fix_take:
  assumes "i < n" "n \<le> length h"
  shows "take n (heap_fix h i n) = heap_fix (take n h) i n" "drop n (heap_fix h i n) = drop n h"
proof -
  have "down_moves (take n h) i n = down_moves h i n"
    using assms smaller_child_spec [of "2 * i + 1" n h] by (auto simp: down_moves_def smaller_child_take)
  then show "take n (heap_fix h i n) = heap_fix (take n h) i n" "drop n (heap_fix h i n) = drop n h"
    using assms heap_down_take [OF assms] heap_up_take [of i n "heap_down h i n"] heap_down_spec [OF assms(2,1)]
    by (auto simp: heap_fix_def)
qed

subsection \<open>The indexed queue\<close>

record deadline_queue =
  dq_entries :: "task_deadline list"
  dq_positions :: "string \<rightharpoonup> nat"

definition dq_init :: deadline_queue where
  "dq_init = \<lparr>dq_entries = [], dq_positions = Map.empty\<rparr>"

definition dq_Len :: "deadline_queue \<Rightarrow> nat" where
  "dq_Len q = length (dq_entries q)"

definition dq_Less :: "deadline_queue \<Rightarrow> nat \<Rightarrow> nat \<Rightarrow> bool" where
  "dq_Less q i j = deadline_Less (dq_entries q ! i) (dq_entries q ! j)"

definition dq_Swap :: "nat \<Rightarrow> nat \<Rightarrow> deadline_queue \<Rightarrow> deadline_queue" where
  "dq_Swap i j q =
     (let es = swap i j (dq_entries q)
      in \<lparr>dq_entries = es,
          dq_positions = (dq_positions q)(td_taskID (es ! i) \<mapsto> i, td_taskID (es ! j) \<mapsto> j)\<rparr>)"

definition dq_Push :: "task_deadline \<Rightarrow> deadline_queue \<Rightarrow> deadline_queue" where
  "dq_Push entry q = \<lparr>dq_entries = dq_entries q @ [entry],
     dq_positions = (dq_positions q)(td_taskID entry \<mapsto> length (dq_entries q))\<rparr>"

definition dq_Pop :: "deadline_queue \<Rightarrow> deadline_queue \<times> task_deadline" where
  "dq_Pop q =
     (let old = dq_entries q; l = old ! (length old - 1)
      in (\<lparr>dq_entries = take (length old - 1) old, dq_positions = (dq_positions q)(td_taskID l := None)\<rparr>, l))"

text \<open>container/heap over the interface methods.\<close>

function dq_up :: "nat \<Rightarrow> deadline_queue \<Rightarrow> deadline_queue" where
  "dq_up j q =
     (let i = (j - 1) div 2
      in if i = j \<or> \<not> dq_Less q j i then q else dq_up i (dq_Swap i j q))"
  by pat_completeness auto
termination by (relation "measure fst") auto

function dq_down :: "nat \<Rightarrow> nat \<Rightarrow> deadline_queue \<Rightarrow> deadline_queue \<times> nat" where
  "dq_down i n q =
     (let j1 = 2 * i + 1
      in if j1 \<ge> n then (q, i)
         else let j2 = j1 + 1; j = (if j2 < n \<and> dq_Less q j2 j1 then j2 else j1)
              in if \<not> dq_Less q j i then (q, i) else dq_down j n (dq_Swap i j q))"
  by pat_completeness auto
termination by (relation "measure (\<lambda>(i, n, q). n - i)") (auto simp: Let_def split: if_splits)

declare dq_up.simps [simp del] dq_down.simps [simp del]

definition dq_heap_Push :: "task_deadline \<Rightarrow> deadline_queue \<Rightarrow> deadline_queue" where
  "dq_heap_Push entry q = (let q1 = dq_Push entry q in dq_up (dq_Len q1 - 1) q1)"

definition dq_heap_Pop :: "deadline_queue \<Rightarrow> deadline_queue \<times> task_deadline" where
  "dq_heap_Pop q = (let n = dq_Len q - 1 in dq_Pop (fst (dq_down 0 n (dq_Swap 0 n q))))"

definition dq_fix_at :: "nat \<Rightarrow> nat \<Rightarrow> deadline_queue \<Rightarrow> deadline_queue" where
  "dq_fix_at i n q = (case dq_down i n q of (q1, i1) \<Rightarrow> if i1 > i then q1 else dq_up i q1)"

definition dq_heap_Fix :: "nat \<Rightarrow> deadline_queue \<Rightarrow> deadline_queue" where
  "dq_heap_Fix i q = dq_fix_at i (dq_Len q) q"

definition dq_heap_Remove :: "nat \<Rightarrow> deadline_queue \<Rightarrow> deadline_queue \<times> task_deadline" where
  "dq_heap_Remove i q =
     (let n = dq_Len q - 1;
          q1 = (if n \<noteq> i then dq_fix_at i n (dq_Swap i n q) else q)
      in dq_Pop q1)"

definition dq_upsert :: "task_deadline \<Rightarrow> deadline_queue \<Rightarrow> deadline_queue" where
  "dq_upsert deadline q =
     (case dq_positions q (td_taskID deadline) of
        Some idx \<Rightarrow> dq_heap_Fix idx (q\<lparr>dq_entries := (dq_entries q)[idx := deadline]\<rparr>)
      | None \<Rightarrow> dq_heap_Push deadline q)"

definition dq_remove :: "string \<Rightarrow> deadline_queue \<Rightarrow> deadline_queue" where
  "dq_remove taskID q =
     (case dq_positions q taskID of Some idx \<Rightarrow> fst (dq_heap_Remove idx q) | None \<Rightarrow> q)"

definition dq_popBefore :: "i64 \<Rightarrow> deadline_queue \<Rightarrow> deadline_queue \<times> task_deadline option" where
  "dq_popBefore cutoffMs q =
     (if dq_Len q = 0 \<or> td_updatedAtMs (dq_entries q ! 0) > cutoffMs then (q, None)
      else map_prod id Some (dq_heap_Pop q))"

subsection \<open>The position map\<close>

definition positions_exact :: "deadline_queue \<Rightarrow> bool" where
  "positions_exact q \<longleftrightarrow>
     (\<forall>t k. dq_positions q t = Some k \<longleftrightarrow> k < length (dq_entries q) \<and> td_taskID (dq_entries q ! k) = t)"

lemma positions_exactI:
  "(\<And>t k. dq_positions q t = Some k \<longleftrightarrow> k < length (dq_entries q) \<and> td_taskID (dq_entries q ! k) = t) \<Longrightarrow> positions_exact q"
  by (simp add: positions_exact_def)

lemma positions_exactD:
  "positions_exact q \<Longrightarrow> dq_positions q t = Some k \<longleftrightarrow> k < length (dq_entries q) \<and> td_taskID (dq_entries q ! k) = t"
  by (simp add: positions_exact_def)

lemma positions_inj:
  assumes "positions_exact q" "i < length (dq_entries q)" "j < length (dq_entries q)"
    "td_taskID (dq_entries q ! i) = td_taskID (dq_entries q ! j)"
  shows "i = j"
proof -
  have "dq_positions q (td_taskID (dq_entries q ! i)) = Some i" "dq_positions q (td_taskID (dq_entries q ! i)) = Some j"
    using assms by (simp_all add: positions_exactD)
  then show ?thesis by simp
qed

lemma dq_entries_Swap [simp]: "dq_entries (dq_Swap i j q) = swap i j (dq_entries q)"
  by (simp add: dq_Swap_def Let_def)

lemma positions_Swap:
  assumes "positions_exact q" "i < length (dq_entries q)" "j < length (dq_entries q)"
  shows "positions_exact (dq_Swap i j q)"
proof (rule positions_exactI)
  fix t k
  let ?e = "dq_entries q"
  note inj = positions_inj [OF assms(1)] and ex = positions_exactD [OF assms(1)]
  have sw: "swap i j ?e ! i = ?e ! j" "swap i j ?e ! j = ?e ! i"
    using assms by (auto simp: swap_nth)
  show "dq_positions (dq_Swap i j q) t = Some k \<longleftrightarrow>
      k < length (dq_entries (dq_Swap i j q)) \<and> td_taskID (dq_entries (dq_Swap i j q) ! k) = t"
  proof (cases "t = td_taskID (?e ! i) \<or> t = td_taskID (?e ! j)")
    case True
    then show ?thesis
      using assms inj [of k i] inj [of k j] inj [of i j] sw
      by (auto simp: dq_Swap_def Let_def swap_nth split: if_splits)
  next
    case False
    then have "dq_positions (dq_Swap i j q) t = dq_positions q t" by (auto simp: dq_Swap_def Let_def sw)
    then show ?thesis using False assms by (auto simp: ex swap_nth split: if_splits)
  qed
qed

lemma dq_up_spec:
  assumes "positions_exact q" "j < length (dq_entries q)"
  shows "dq_entries (dq_up j q) = heap_up (dq_entries q) j \<and> positions_exact (dq_up j q)"
  using assms
proof (induction j q rule: dq_up.induct)
  case (1 j q)
  show ?case
  proof (cases "parent j = j \<or> \<not> dq_Less q j (parent j)")
    case False
    have p: "parent j < length (dq_entries q)" using 1(3) by simp
    have "dq_entries (dq_up (parent j) (dq_Swap (parent j) j q)) = heap_up (dq_entries (dq_Swap (parent j) j q)) (parent j)
        \<and> positions_exact (dq_up (parent j) (dq_Swap (parent j) j q))"
      by (rule "1.IH" [OF refl False]) (use 1(2,3) p positions_Swap in simp_all)
    then show ?thesis using False
      by (subst dq_up.simps, subst (2) dq_up.simps, subst heap_up.simps) (simp add: Let_def dq_Less_def less_task_deadline_def)
  qed (subst dq_up.simps, subst (2) dq_up.simps, subst heap_up.simps,
       use 1 in \<open>auto simp: Let_def dq_Less_def less_task_deadline_def\<close>)
qed

lemma dq_down_spec:
  assumes "positions_exact q" "i < n" "n \<le> length (dq_entries q)"
  shows "dq_entries (fst (dq_down i n q)) = heap_down (dq_entries q) i n \<and> positions_exact (fst (dq_down i n q))
    \<and> i \<le> snd (dq_down i n q) \<and> (i < snd (dq_down i n q) \<longleftrightarrow> down_moves (dq_entries q) i n)"
  using assms
proof (induction i n q rule: dq_down.induct)
  case (1 i n q)
  define j where "j = smaller_child (dq_entries q) (2 * i + 1) n"
  have j': "(if 2 * i + 1 + 1 < n \<and> dq_Less q (2 * i + 1 + 1) (2 * i + 1) then 2 * i + 1 + 1 else 2 * i + 1) = j"
    by (simp add: j_def smaller_child_def dq_Less_def less_task_deadline_def)
  have d: "dq_down i n q = (if 2 * i + 1 \<ge> n then (q, i) else if \<not> dq_Less q j i then (q, i) else dq_down j n (dq_Swap i j q))"
    by (subst dq_down.simps) (simp only: Let_def j')
  have h: "heap_down (dq_entries q) i n = (if 2 * i + 1 \<ge> n then dq_entries q
      else if \<not> dq_Less q j i then dq_entries q else heap_down (swap i j (dq_entries q)) j n)"
    by (subst heap_down.simps) (simp add: Let_def j_def dq_Less_def less_task_deadline_def)
  have mv: "down_moves (dq_entries q) i n \<longleftrightarrow> 2 * i + 1 < n \<and> dq_Less q j i"
    by (simp add: down_moves_def j_def dq_Less_def less_task_deadline_def)
  show ?case
  proof (cases "2 * i + 1 \<ge> n \<or> \<not> dq_Less q j i")
    case False
    then have jn: "j < n" "i < j" using smaller_child_spec [of "2 * i + 1" n "dq_entries q"] by (auto simp: j_def)
    have IH: "dq_entries (fst (dq_down j n (dq_Swap i j q))) = heap_down (dq_entries (dq_Swap i j q)) j n
        \<and> positions_exact (fst (dq_down j n (dq_Swap i j q))) \<and> j \<le> snd (dq_down j n (dq_Swap i j q))
        \<and> (j < snd (dq_down j n (dq_Swap i j q)) \<longleftrightarrow> down_moves (dq_entries (dq_Swap i j q)) j n)"
      by (rule "1.IH" [OF refl _ refl j' [symmetric]]) (use False jn 1(2-4) positions_Swap in auto)
    then show ?thesis using False jn by (auto simp: d h mv)
  qed (use 1 in \<open>auto simp: d h mv\<close>)
qed

lemma dq_fix_at_spec:
  assumes "positions_exact q" "i < n" "n \<le> length (dq_entries q)"
  shows "dq_entries (dq_fix_at i n q) = heap_fix (dq_entries q) i n \<and> positions_exact (dq_fix_at i n q)"
  using dq_down_spec [OF assms] dq_up_spec [of "fst (dq_down i n q)" i] assms(2,3)
  by (auto simp: dq_fix_at_def heap_fix_def split: prod.splits)

lemma positions_Pop:
  assumes "positions_exact q" "dq_entries q \<noteq> []"
  shows "positions_exact (fst (dq_Pop q))"
proof (rule positions_exactI)
  fix t k
  obtain es l where e: "dq_entries q = es @ [l]" using assms(2) by (metis rev_exhaust)
  have pop: "fst (dq_Pop q) = \<lparr>dq_entries = es, dq_positions = (dq_positions q)(td_taskID l := None)\<rparr>"
    by (simp add: dq_Pop_def e Let_def nth_append)
  have "td_taskID (es ! k) \<noteq> td_taskID l" if "k < length es" for k
    using positions_inj [OF assms(1), of k "length es"] that by (auto simp: e nth_append)
  then show "dq_positions (fst (dq_Pop q)) t = Some k \<longleftrightarrow>
      k < length (dq_entries (fst (dq_Pop q))) \<and> td_taskID (dq_entries (fst (dq_Pop q)) ! k) = t"
    using positions_exactD [OF assms(1), of t k] by (auto simp: pop e nth_append less_Suc_eq)
qed

lemma positions_Push:
  assumes "positions_exact q" "dq_positions q (td_taskID x) = None"
  shows "positions_exact (dq_Push x q)"
proof (rule positions_exactI)
  fix t k
  have "td_taskID (dq_entries q ! k) \<noteq> td_taskID x" if "k < length (dq_entries q)" for k
    using positions_exactD [OF assms(1), of "td_taskID x" k] assms(2) that by simp
  then show "dq_positions (dq_Push x q) t = Some k \<longleftrightarrow>
      k < length (dq_entries (dq_Push x q)) \<and> td_taskID (dq_entries (dq_Push x q) ! k) = t"
    using positions_exactD [OF assms(1), of t k] by (auto simp: dq_Push_def nth_append less_Suc_eq)
qed

subsection \<open>The queue as a map of deadlines\<close>

definition dq_inv :: "deadline_queue \<Rightarrow> bool" where
  "dq_inv q \<longleftrightarrow> is_heap (dq_entries q) \<and> positions_exact q"

definition dq_lookup :: "deadline_queue \<Rightarrow> string \<rightharpoonup> task_deadline" where
  "dq_lookup q t = map_option (\<lambda>k. dq_entries q ! k) (dq_positions q t)"

lemma dq_lookup_iff:
  "positions_exact q \<Longrightarrow> dq_lookup q t = Some d \<longleftrightarrow> d \<in># mset (dq_entries q) \<and> td_taskID d = t"
  by (auto simp: dq_lookup_def positions_exactD in_set_conv_nth)

lemma map_eqI: "(\<And>t d. m t = Some d \<longleftrightarrow> m' t = Some d) \<Longrightarrow> m = m'"
  by (rule ext) (metis not_None_eq)

lemma positions_distinct: "positions_exact q \<Longrightarrow> distinct (map td_taskID (dq_entries q))"
  by (auto simp: distinct_conv_nth dest: positions_inj)

lemma lookup_add:
  assumes "positions_exact q" "positions_exact q'" "mset (dq_entries q') = add_mset x (mset (dq_entries q))"
  shows "dq_lookup q' = (dq_lookup q)(td_taskID x \<mapsto> x)" "dq_lookup q = (dq_lookup q')(td_taskID x := None)"
proof -
  have "mset (map td_taskID (dq_entries q')) = mset (map td_taskID (x # dq_entries q))" using assms(3) by simp
  then have "distinct (map td_taskID (x # dq_entries q))"
    using positions_distinct [OF assms(2)] mset_eq_imp_distinct_iff by blast
  then have "td_taskID x \<notin> td_taskID ` set (dq_entries q)" by simp
  then have new: "d \<in> set (dq_entries q) \<Longrightarrow> td_taskID d \<noteq> td_taskID x" for d by (metis imageI)
  have mem: "d \<in> set (dq_entries q') \<longleftrightarrow> d = x \<or> d \<in> set (dq_entries q)" for d
    using arg_cong [OF assms(3), of "\<lambda>m. d \<in># m"] by simp
  show "dq_lookup q' = (dq_lookup q)(td_taskID x \<mapsto> x)" "dq_lookup q = (dq_lookup q')(td_taskID x := None)"
    using assms(1,2) new by (auto simp: dq_lookup_iff mem intro!: map_eqI split: if_splits)
qed

lemma dq_heap_Push_spec:
  assumes "dq_inv q" "dq_lookup q (td_taskID x) = None"
  shows "dq_inv (dq_heap_Push x q)" "dq_lookup (dq_heap_Push x q) = (dq_lookup q)(td_taskID x \<mapsto> x)"
proof -
  have q: "is_heap (dq_entries q)" "positions_exact q" "dq_positions q (td_taskID x) = None"
    using assms by (simp_all add: dq_inv_def dq_lookup_def)
  have e: "dq_entries (dq_Push x q) = dq_entries q @ [x]" by (simp add: dq_Push_def)
  have up: "dq_entries (dq_heap_Push x q) = heap_Push x (dq_entries q) \<and> positions_exact (dq_heap_Push x q)"
    using dq_up_spec [OF positions_Push [OF q(2,3)], of "length (dq_entries q)"]
    by (simp add: dq_heap_Push_def heap_Push_def dq_Len_def e)
  then show "dq_inv (dq_heap_Push x q)" using q by (simp add: dq_inv_def heap_Push_heap)
  show "dq_lookup (dq_heap_Push x q) = (dq_lookup q)(td_taskID x \<mapsto> x)"
    using q up by (intro lookup_add) (simp_all add: heap_Push_mset)
qed

lemma dq_heap_Pop_spec:
  assumes "dq_inv q" "dq_entries q \<noteq> []"
  shows "dq_inv (fst (dq_heap_Pop q))" "snd (dq_heap_Pop q) = dq_entries q ! 0"
    "dq_lookup (fst (dq_heap_Pop q)) = (dq_lookup q)(td_taskID (dq_entries q ! 0) := None)"
    "length (dq_entries (fst (dq_heap_Pop q))) < length (dq_entries q)"
proof -
  let ?n = "length (dq_entries q) - 1"
  let ?q1 = "fst (dq_down 0 ?n (dq_Swap 0 ?n q))"
  have q: "is_heap (dq_entries q)" "positions_exact q" "?n < length (dq_entries q)" "0 < length (dq_entries q)"
    using assms by (simp_all add: dq_inv_def)
  have sw: "positions_exact (dq_Swap 0 ?n q)" by (rule positions_Swap [OF q(2,4,3)])
  have d: "dq_entries ?q1 = heap_down (swap 0 ?n (dq_entries q)) 0 ?n \<and> positions_exact ?q1"
  proof (cases "?n = 0")
    case True
    then show ?thesis using sw by (subst (1 2) dq_down.simps, subst heap_down.simps) simp
  next
    case False
    then show ?thesis using dq_down_spec [OF sw, of 0 ?n] by simp
  qed
  then have ne: "dq_entries ?q1 \<noteq> []" "length (dq_entries ?q1) = length (dq_entries q)"
    using assms(2) by (simp_all flip: length_greater_0_conv)
  have pop: "dq_entries (fst (dq_heap_Pop q)) = fst (heap_Pop (dq_entries q))" "snd (dq_heap_Pop q) = snd (heap_Pop (dq_entries q))"
    using d ne by (simp_all add: dq_heap_Pop_def dq_Pop_def heap_Pop_def dq_Len_def Let_def)
  have ex: "positions_exact (fst (dq_heap_Pop q))"
    using positions_Pop d ne by (simp add: dq_heap_Pop_def dq_Len_def Let_def)
  note hp = heap_Pop_spec [OF q(1) assms(2)]
  show "dq_inv (fst (dq_heap_Pop q))" using hp ex by (simp add: dq_inv_def pop)
  show "snd (dq_heap_Pop q) = dq_entries q ! 0" using hp by (simp add: pop)
  show "dq_lookup (fst (dq_heap_Pop q)) = (dq_lookup q)(td_taskID (dq_entries q ! 0) := None)"
    using hp q ex by (intro lookup_add) (simp_all add: pop)
  show "length (dq_entries (fst (dq_heap_Pop q))) < length (dq_entries q)"
    using q by (simp add: pop heap_Pop_def Let_def)
qed

lemma dq_upsert_spec:
  assumes "dq_inv q"
  shows "dq_inv (dq_upsert x q)" "dq_lookup (dq_upsert x q) = (dq_lookup q)(td_taskID x \<mapsto> x)"
proof -
  have "dq_inv (dq_upsert x q) \<and> dq_lookup (dq_upsert x q) = (dq_lookup q)(td_taskID x \<mapsto> x)"
  proof (cases "dq_positions q (td_taskID x)")
    case None
    then show ?thesis using dq_heap_Push_spec [OF assms] by (simp add: dq_upsert_def dq_lookup_def)
  next
    case (Some idx)
    have q: "is_heap (dq_entries q)" "positions_exact q" using assms by (simp_all add: dq_inv_def)
    have i: "idx < length (dq_entries q)" "td_taskID (dq_entries q ! idx) = td_taskID x"
      using Some positions_exactD [OF q(2)] by auto
    let ?q1 = "q\<lparr>dq_entries := (dq_entries q)[idx := x]\<rparr>"
    have ex1: "positions_exact ?q1"
      using q(2) i by (intro positions_exactI) (auto simp: positions_exactD nth_list_update)
    have f: "dq_entries (dq_upsert x q) = heap_fix ((dq_entries q)[idx := x]) idx (length (dq_entries q))
        \<and> positions_exact (dq_upsert x q)"
      using dq_fix_at_spec [OF ex1, of idx "length (dq_entries q)"] i Some
      by (simp add: dq_upsert_def dq_heap_Fix_def dq_Len_def)
    have h: "is_heap (dq_entries (dq_upsert x q))"
      using heap_fix_heap [OF heap_but_update [OF q(1) i(1)]] i f by simp
    have "mset (dq_entries (dq_upsert x q)) = mset ((dq_entries q)[idx := x])"
      using f i by (simp add: heap_fix_mset)
    then have mem: "dq_lookup (dq_upsert x q) = dq_lookup ?q1"
      using f ex1 by (intro map_eqI) (simp add: dq_lookup_iff flip: set_mset_mset)
    have "dq_lookup ?q1 = (dq_lookup q)(td_taskID x \<mapsto> x)"
    proof
      fix t
      show "dq_lookup ?q1 t = ((dq_lookup q)(td_taskID x \<mapsto> x)) t"
      proof (cases "t = td_taskID x")
        case False
        then have "dq_positions q t \<noteq> Some idx" using i positions_exactD [OF q(2)] by auto
        then show ?thesis using False by (cases "dq_positions q t") (auto simp: dq_lookup_def nth_list_update)
      qed (use Some i in \<open>simp add: dq_lookup_def\<close>)
    qed
    then show ?thesis using f h mem by (simp add: dq_inv_def)
  qed
  then show "dq_inv (dq_upsert x q)" "dq_lookup (dq_upsert x q) = (dq_lookup q)(td_taskID x \<mapsto> x)" by auto
qed

lemma dq_heap_Remove_spec:
  assumes "dq_inv q" "i < length (dq_entries q)"
  shows "dq_inv (fst (dq_heap_Remove i q))"
    "dq_lookup (fst (dq_heap_Remove i q)) = (dq_lookup q)(td_taskID (dq_entries q ! i) := None)"
proof -
  define n where "n = length (dq_entries q) - 1"
  define q1 where "q1 = (if n \<noteq> i then dq_fix_at i n (dq_Swap i n q) else q)"
  let ?x = "dq_entries q ! i"
  have q: "is_heap (dq_entries q)" "positions_exact q" "n < length (dq_entries q)" "length (dq_entries q) = Suc n"
    using assms by (auto simp: dq_inv_def n_def)
  have g: "positions_exact q1 \<and> mset (dq_entries q1) = mset (dq_entries q) \<and> length (dq_entries q1) = Suc n
      \<and> dq_entries q1 ! n = ?x \<and> is_heap (take n (dq_entries q1))"
  proof (cases "n = i")
    case True
    then show ?thesis using q by (simp add: q1_def is_heap_def)
  next
    case False
    then have i: "i < n" using assms(2) q(4) by simp
    let ?e = "swap i n (dq_entries q)"
    have s: "dq_entries q1 = heap_fix ?e i n \<and> positions_exact q1"
      using dq_fix_at_spec [OF positions_Swap [OF q(2) assms(2) q(3)] i] False q(4) by (simp add: q1_def)
    have m: "mset (heap_fix ?e i n) = mset (dq_entries q)"
      using heap_fix_mset [OF i, of ?e] assms(2) q by simp
    then have l: "length (heap_fix ?e i n) = Suc n" using q(4) by (metis size_mset)
    have "drop n (heap_fix ?e i n) = drop n ?e" by (rule heap_fix_take) (use i q in simp_all)
    then have "heap_fix ?e i n ! n = ?e ! n" using l q(4) by (metis Cons_nth_drop_Suc length_swap lessI list.inject)
    moreover have "?e ! n = ?x" using q assms(2) by (simp add: swap_def)
    moreover have "take n ?e = (take n (dq_entries q))[i := dq_entries q ! n]"
      using i q(4) by (simp add: swap_def take_update_swap list_update_beyond)
    moreover have "is_heap (take n (dq_entries q))" using q by (simp add: is_heap_def)
    ultimately have "heap_fix ?e i n ! n = ?x" "is_heap (heap_fix (take n ?e) i n)"
      using heap_fix_heap [of "take n ?e" i] heap_but_update [of "take n (dq_entries q)" i] i q by simp_all
    then show ?thesis using s m l i q heap_fix_take(1) [of i n ?e] by simp
  qed
  have r: "dq_heap_Remove i q = dq_Pop q1" by (simp add: dq_heap_Remove_def q1_def n_def dq_Len_def Let_def)
  have e: "dq_entries (fst (dq_Pop q1)) = take n (dq_entries q1)" using g by (simp add: dq_Pop_def Let_def)
  have "dq_entries q1 \<noteq> []" using g by (metis Zero_not_Suc list.size(3))
  then have ex: "positions_exact (fst (dq_Pop q1))" using g positions_Pop by blast
  have "dq_entries q1 = take n (dq_entries q1) @ [?x]" using g take_Suc_conv_app_nth [of n "dq_entries q1"] by simp
  then have "mset (dq_entries q) = add_mset ?x (mset (take n (dq_entries q1)))"
    using g by (metis mset_append mset.simps(1) mset.simps(2) union_mset_add_mset_right add.right_neutral)
  then show "dq_lookup (fst (dq_heap_Remove i q)) = (dq_lookup q)(td_taskID ?x := None)"
    using q ex by (intro lookup_add) (simp_all add: r e)
  show "dq_inv (fst (dq_heap_Remove i q))" using ex g by (simp add: dq_inv_def r e)
qed

lemma dq_remove_spec:
  assumes "dq_inv q"
  shows "dq_inv (dq_remove t q)" "dq_lookup (dq_remove t q) = (dq_lookup q)(t := None)"
  using assms dq_heap_Remove_spec [OF assms]
  by (auto simp: dq_remove_def dq_inv_def positions_exactD dq_lookup_def fun_upd_idem split: option.split)

lemma dq_popBefore_spec:
  assumes "dq_inv q"
  shows "dq_inv (fst (dq_popBefore c q))"
    and "snd (dq_popBefore c q) = None \<Longrightarrow> fst (dq_popBefore c q) = q \<and> (\<forall>t d. dq_lookup q t = Some d \<longrightarrow> td_updatedAtMs d > c)"
    and "snd (dq_popBefore c q) = Some d \<Longrightarrow> td_updatedAtMs d \<le> c \<and> dq_lookup q (td_taskID d) = Some d
      \<and> (\<forall>t e. dq_lookup q t = Some e \<longrightarrow> d \<le> e)
      \<and> dq_lookup (fst (dq_popBefore c q)) = (dq_lookup q)(td_taskID d := None)
      \<and> dq_Len (fst (dq_popBefore c q)) < dq_Len q"
proof -
  have q: "is_heap (dq_entries q)" "positions_exact q" using assms by (simp_all add: dq_inv_def)
  have least: "dq_entries q ! 0 \<le> e" if "dq_lookup q t = Some e" for t e
    using that q dh.least_top [OF q(1), of e] by (simp add: dq_lookup_iff)
  have top: "dq_lookup q (td_taskID (dq_entries q ! 0)) = Some (dq_entries q ! 0)" if "dq_entries q \<noteq> []"
    using that q by (simp add: dq_lookup_iff)
  show "dq_inv (fst (dq_popBefore c q))"
    using assms dq_heap_Pop_spec(1) [OF assms] by (auto simp: dq_popBefore_def dq_Len_def)
  show "fst (dq_popBefore c q) = q \<and> (\<forall>t d. dq_lookup q t = Some d \<longrightarrow> td_updatedAtMs d > c)"
    if h: "snd (dq_popBefore c q) = None"
  proof -
    have *: "dq_Len q = 0 \<or> td_updatedAtMs (dq_entries q ! 0) > c" using h by (auto simp: dq_popBefore_def split: if_splits)
    have "td_updatedAtMs d > c" if d: "dq_lookup q t = Some d" for t d
      using * least [OF d] d q by (auto simp: dq_Len_def dq_lookup_iff dest: deadline_le_updated)
    with * show ?thesis by (simp add: dq_popBefore_def)
  qed
  show "td_updatedAtMs d \<le> c \<and> dq_lookup q (td_taskID d) = Some d \<and> (\<forall>t e. dq_lookup q t = Some e \<longrightarrow> d \<le> e)
      \<and> dq_lookup (fst (dq_popBefore c q)) = (dq_lookup q)(td_taskID d := None)
      \<and> dq_Len (fst (dq_popBefore c q)) < dq_Len q"
    if h: "snd (dq_popBefore c q) = Some d"
  proof -
    have *: "dq_entries q \<noteq> []" "td_updatedAtMs (dq_entries q ! 0) \<le> c" "dq_popBefore c q = map_prod id Some (dq_heap_Pop q)"
      using h by (auto simp: dq_popBefore_def dq_Len_def split: if_splits)
    moreover have "d = dq_entries q ! 0" using h * dq_heap_Pop_spec(2) [OF assms *(1)] by simp
    ultimately show ?thesis using least top dq_heap_Pop_spec [OF assms *(1)] by (auto simp: dq_Len_def)
  qed
qed

lemma dq_init_spec: "dq_inv dq_init" "dq_lookup dq_init = Map.empty"
  by (auto simp: dq_inv_def is_heap_def positions_exact_def dq_init_def dq_lookup_def)

subsection \<open>The contract of the queue\<close>

locale keyed_queue =
  fixes upsert :: "'d::linorder \<Rightarrow> 'q \<Rightarrow> 'q" and remove :: "string \<Rightarrow> 'q \<Rightarrow> 'q"
    and pop_due :: "i64 \<Rightarrow> 'q \<Rightarrow> 'q \<times> 'd option" and start :: 'q
    and key :: "'d \<Rightarrow> string" and due :: "'d \<Rightarrow> i64"
    and lookup :: "'q \<Rightarrow> string \<rightharpoonup> 'd" and count :: "'q \<Rightarrow> nat" and inv :: "'q \<Rightarrow> bool"
  assumes inv_start: "inv start" and lookup_start: "lookup start = Map.empty"
    and inv_upsert: "inv q \<Longrightarrow> inv (upsert d q)"
    and lookup_upsert: "inv q \<Longrightarrow> lookup (upsert d q) = (lookup q)(key d \<mapsto> d)"
    and inv_remove: "inv q \<Longrightarrow> inv (remove t q)"
    and lookup_remove: "inv q \<Longrightarrow> lookup (remove t q) = (lookup q)(t := None)"
    and inv_pop: "inv q \<Longrightarrow> inv (fst (pop_due c q))"
    and pop_none: "inv q \<Longrightarrow> snd (pop_due c q) = None \<Longrightarrow> fst (pop_due c q) = q \<and> (\<forall>t d. lookup q t = Some d \<longrightarrow> due d > c)"
    and pop_some: "inv q \<Longrightarrow> snd (pop_due c q) = Some d \<Longrightarrow> due d \<le> c \<and> lookup q (key d) = Some d
        \<and> (\<forall>t e. lookup q t = Some e \<longrightarrow> d \<le> e) \<and> lookup (fst (pop_due c q)) = (lookup q)(key d := None)
        \<and> count (fst (pop_due c q)) < count q"
begin

lemma remove_popped: "inv q \<Longrightarrow> snd (pop_due c q) = Some d \<Longrightarrow>
    lookup (remove (key d) (fst (pop_due c q))) = (lookup q)(key d := None)"
  by (simp add: lookup_remove inv_pop pop_some)

lemma pop_complete: "inv q \<Longrightarrow> lookup q t = Some d \<Longrightarrow> due d \<le> c \<Longrightarrow> \<exists>e. snd (pop_due c q) = Some e \<and> e \<le> d"
  using pop_none [of q c] pop_some [of q c] by (cases "snd (pop_due c q)") fastforce+

end

interpretation dq: keyed_queue dq_upsert dq_remove dq_popBefore dq_init td_taskID td_updatedAtMs dq_lookup dq_Len dq_inv
  by unfold_locales (use dq_popBefore_spec in \<open>simp_all add: dq_init_spec dq_upsert_spec dq_remove_spec\<close>)

end
