(* ===== verification/Metadata_Sharded.thy ===== *)
theory Metadata_Sharded
  imports Metadata_Memory Deadline_Queue
begin

text \<open>
  The sharded metadata store (internal/metadata/memory_v2.go, \<open>MemoryStoreV2\<close>), the default one:
  task records in 64 shards chosen by an FNV-1a hash of the task, secondary indexes by status and
  by worker, the lease-expiry queue of theory \<open>Deadline_Queue\<close>, and separate stores for workers,
  workflows, actors and models.

  A task operation changes the record under the shard lock and then updates the indexes from the
  snapshots taken before and after; the two parts are separate definitions here, composed in
  program order. Theory \<open>Metadata_Race\<close> interleaves them.
\<close>

subsection \<open>The task store\<close>

definition memoryTaskShardCount :: nat where
  "memoryTaskShardCount = 64"

definition taskShardIndex :: "string \<Rightarrow> nat" where
  "taskShardIndex taskID =
     unat (foldl (\<lambda>h c. (xor h (ucast (byte_of_char c))) * 16777619) (2166136261 :: u32) taskID) mod memoryTaskShardCount"

definition indexedTaskStatus :: "task_status \<Rightarrow> bool" where
  "indexedTaskStatus st \<longleftrightarrow> st = TASK_STATUS_QUEUED \<or> st = TASK_STATUS_RUNNING"

record task_store =
  ts_shards :: "(string \<rightharpoonup> task) list"
  ts_byIdem :: "string \<rightharpoonup> string"
  ts_allTasks :: "string set"
  ts_byStatus :: "task_status \<rightharpoonup> string set"
  ts_byWorker :: "string \<rightharpoonup> string set"
  ts_running :: deadline_queue

definition tasks_init :: task_store where
  "tasks_init = \<lparr>ts_shards = replicate memoryTaskShardCount Map.empty, ts_byIdem = Map.empty, ts_allTasks = {},
     ts_byStatus = Map.empty, ts_byWorker = Map.empty, ts_running = dq_init\<rparr>"

definition shard_get :: "task_store \<Rightarrow> string \<Rightarrow> task option" where
  "shard_get s taskID = (ts_shards s ! taskShardIndex taskID) taskID"

definition shard_put :: "string \<Rightarrow> task \<Rightarrow> task_store \<Rightarrow> task_store" where
  "shard_put taskID tk s =
     (let i = taskShardIndex taskID
      in s\<lparr>ts_shards := (ts_shards s)[i := (ts_shards s ! i)(taskID \<mapsto> tk)]\<rparr>)"

subsection \<open>Secondary indexes\<close>

text \<open>Both index maps are maps of sets; empty sets are dropped.\<close>

definition addIndexLocked :: "'k \<Rightarrow> string \<Rightarrow> ('k \<rightharpoonup> string set) \<Rightarrow> 'k \<rightharpoonup> string set" where
  "addIndexLocked k taskID m = m(k \<mapsto> insert taskID (case m k of None \<Rightarrow> {} | Some ids \<Rightarrow> ids))"

definition removeIndexLocked :: "'k \<Rightarrow> string \<Rightarrow> ('k \<rightharpoonup> string set) \<Rightarrow> 'k \<rightharpoonup> string set" where
  "removeIndexLocked k taskID m =
     (case m k of
        None \<Rightarrow> m
      | Some ids \<Rightarrow> let ids1 = ids - {taskID} in if ids1 = {} then m(k := None) else m(k \<mapsto> ids1))"

definition trackRunning :: "task \<Rightarrow> task_store \<Rightarrow> task_store" where
  "trackRunning tk s =
     (if tk_Status tk \<noteq> TASK_STATUS_RUNNING \<or> tk_TaskLeaseEpoch tk = 0 then s
      else s\<lparr>ts_running := dq_upsert (TaskDeadline (tk_TaskID tk) (tk_UpdatedAtMs tk) (tk_TaskLeaseEpoch tk)) (ts_running s)\<rparr>)"

definition untrackRunning :: "string \<Rightarrow> task_store \<Rightarrow> task_store" where
  "untrackRunning taskID s = s\<lparr>ts_running := dq_remove taskID (ts_running s)\<rparr>"

definition popRunningBefore :: "i64 \<Rightarrow> task_store \<Rightarrow> task_store \<times> task_deadline option" where
  "popRunningBefore cutoffMs s =
     (case dq_popBefore cutoffMs (ts_running s) of (q, d) \<Rightarrow> (s\<lparr>ts_running := q\<rparr>, d))"

text \<open>The section of \<open>replaceTaskIndexes\<close> under the index lock.\<close>

definition remove_previous :: "task option \<Rightarrow> task_store \<Rightarrow> task_store" where
  "remove_previous previous s =
     (case previous of
        None \<Rightarrow> s
      | Some p \<Rightarrow>
          let s1 = (if indexedTaskStatus (tk_Status p)
                    then s\<lparr>ts_byStatus := removeIndexLocked (tk_Status p) (tk_TaskID p) (ts_byStatus s)\<rparr> else s)
          in if tk_Status p = TASK_STATUS_RUNNING \<and> tk_WorkerID p \<noteq> ''''
             then s1\<lparr>ts_byWorker := removeIndexLocked (tk_WorkerID p) (tk_TaskID p) (ts_byWorker s1)\<rparr> else s1)"

definition add_current :: "task \<Rightarrow> task_store \<Rightarrow> task_store" where
  "add_current c s =
     (let s1 = s\<lparr>ts_allTasks := insert (tk_TaskID c) (ts_allTasks s)\<rparr>;
          s2 = (if indexedTaskStatus (tk_Status c)
                then s1\<lparr>ts_byStatus := addIndexLocked (tk_Status c) (tk_TaskID c) (ts_byStatus s1)\<rparr> else s1)
      in if tk_Status c = TASK_STATUS_RUNNING \<and> tk_WorkerID c \<noteq> ''''
         then s2\<lparr>ts_byWorker := addIndexLocked (tk_WorkerID c) (tk_TaskID c) (ts_byWorker s2)\<rparr> else s2)"

definition replace_index_sets :: "task option \<Rightarrow> task \<Rightarrow> task_store \<Rightarrow> task_store" where
  "replace_index_sets previous current s = add_current current (remove_previous previous s)"

text \<open>The two sections under the deadline lock.\<close>

definition untrack_previous :: "task option \<Rightarrow> task \<Rightarrow> task_store \<Rightarrow> task_store" where
  "untrack_previous previous current s =
     (case previous of
        None \<Rightarrow> s
      | Some p \<Rightarrow>
          if tk_Status p = TASK_STATUS_RUNNING
             \<and> (tk_Status current \<noteq> TASK_STATUS_RUNNING \<or> tk_TaskLeaseEpoch current \<noteq> tk_TaskLeaseEpoch p)
          then untrackRunning (tk_TaskID p) s else s)"

definition track_current :: "task \<Rightarrow> task_store \<Rightarrow> task_store" where
  "track_current current s = (if tk_Status current = TASK_STATUS_RUNNING then trackRunning current s else s)"

definition replaceTaskIndexes :: "task option \<Rightarrow> task \<Rightarrow> task_store \<Rightarrow> task_store" where
  "replaceTaskIndexes previous current s =
     track_current current (untrack_previous previous current (replace_index_sets previous current s))"

subsection \<open>Task operations\<close>

text \<open>
  Each writing operation is its part under the shard lock, which yields the result and the
  snapshots to index by, followed by the index update.
\<close>

type_synonym index_job = "(task option \<times> task) option"

definition run_job :: "index_job \<Rightarrow> task_store \<Rightarrow> task_store" where
  "run_job job s = (case job of None \<Rightarrow> s | Some (previous, current) \<Rightarrow> replaceTaskIndexes previous current s)"

definition create_shard :: "task \<Rightarrow> string \<Rightarrow> i64 \<Rightarrow> task_store \<Rightarrow> task_store \<times> task \<times> index_job" where
  "create_shard tk idempotencyKey now s =
     (let stored = cloneTask (stamp_new tk idempotencyKey now);
          previous = map_option cloneTask (shard_get s (tk_TaskID stored))
      in (shard_put (tk_TaskID stored) stored s, cloneTask stored, Some (previous, stored)))"

definition createWithoutIdemLock :: "task \<Rightarrow> string \<Rightarrow> i64 \<Rightarrow> task_store \<Rightarrow> task_store \<times> task" where
  "createWithoutIdemLock tk idempotencyKey now s =
     (case create_shard tk idempotencyKey now s of (s1, created, job) \<Rightarrow> (run_job job s1, created))"

definition tasks_get :: "string \<Rightarrow> task_store \<Rightarrow> task option" where
  "tasks_get taskID s = map_option cloneTask (shard_get s taskID)"

definition tasks_create :: "task \<Rightarrow> string \<Rightarrow> i64 \<Rightarrow> task_store \<Rightarrow> task_store \<times> task \<times> bool" where
  "tasks_create tk idempotencyKey now s =
     (if idempotencyKey \<noteq> ''''
      then case (case ts_byIdem s idempotencyKey of None \<Rightarrow> None | Some taskID \<Rightarrow> tasks_get taskID s) of
             Some existing \<Rightarrow> (s, existing, True)
           | None \<Rightarrow>
               let s1 = (case ts_byIdem s idempotencyKey of
                           None \<Rightarrow> s | Some _ \<Rightarrow> s\<lparr>ts_byIdem := (ts_byIdem s)(idempotencyKey := None)\<rparr>)
               in case createWithoutIdemLock tk idempotencyKey now s1 of
                    (s2, created) \<Rightarrow>
                      (s2\<lparr>ts_byIdem := (ts_byIdem s2)(idempotencyKey \<mapsto> tk_TaskID created)\<rparr>, created, False)
      else case createWithoutIdemLock tk '''' now s of (s1, created) \<Rightarrow> (s1, created, False))"

definition tasks_getByIdempotencyKey :: "string \<Rightarrow> task_store \<Rightarrow> task option" where
  "tasks_getByIdempotencyKey key s =
     (if key = '''' then None
      else case ts_byIdem s key of None \<Rightarrow> None | Some taskID \<Rightarrow> tasks_get taskID s)"

definition allIndexedTaskIDs :: "task_store \<Rightarrow> string list" where
  "allIndexedTaskIDs s = sorted_list_of_set (ts_allTasks s)"

definition indexedTaskIDsByStatus :: "task_status \<Rightarrow> task_store \<Rightarrow> string list" where
  "indexedTaskIDsByStatus st s =
     sorted_list_of_set (if indexedTaskStatus st then (case ts_byStatus s st of None \<Rightarrow> {} | Some ids \<Rightarrow> ids) else ts_allTasks s)"

text \<open>
  The two listings, run without interruption. They take one lock for the index and one per task;
  \<open>Metadata_Race\<close> runs them as these separate critical sections.
\<close>

definition tasks_list :: "task_store \<Rightarrow> task list" where
  "tasks_list s = List.map_filter (\<lambda>taskID. tasks_get taskID s) (allIndexedTaskIDs s)"

definition tasks_listByStatus :: "task_status \<Rightarrow> task_store \<Rightarrow> task list" where
  "tasks_listByStatus st s =
     filter (\<lambda>tk. tk_Status tk = st) (List.map_filter (\<lambda>taskID. tasks_get taskID s) (indexedTaskIDsByStatus st s))"

definition lease_shard :: "string \<Rightarrow> string \<Rightarrow> i64 \<Rightarrow> task_store \<Rightarrow> task_store \<times> (meta_error + task) \<times> index_job" where
  "lease_shard taskID workerID now s =
     (case shard_get s taskID of
        None \<Rightarrow> (s, Inl TaskNotFound, None)
      | Some tk \<Rightarrow>
          if isTerminalTaskStatus (tk_Status tk) then (s, Inr (cloneTask tk), None)
          else let current = leased tk workerID now
               in (shard_put taskID current s, Inr (cloneTask current), Some (Some (cloneTask tk), cloneTask current)))"

definition tasks_lease :: "string \<Rightarrow> string \<Rightarrow> i64 \<Rightarrow> task_store \<Rightarrow> task_store \<times> (meta_error + task)" where
  "tasks_lease taskID workerID now s =
     (case lease_shard taskID workerID now s of (s1, r, job) \<Rightarrow> (run_job job s1, r))"

definition tasks_validateLease :: "string \<Rightarrow> string \<Rightarrow> u64 \<Rightarrow> task_store \<Rightarrow> meta_error + task" where
  "tasks_validateLease taskID workerID leaseEpoch s =
     (case shard_get s taskID of
        None \<Rightarrow> Inl TaskNotFound
      | Some tk \<Rightarrow>
          if isTerminalTaskStatus (tk_Status tk) then Inr (cloneTask tk)
          else if \<not> check_lease tk workerID leaseEpoch then Inl StaleLease
          else Inr (cloneTask tk))"

definition requeue_shard ::
  "string \<Rightarrow> u64 \<Rightarrow> i64 \<Rightarrow> i64 \<Rightarrow> task_store \<Rightarrow> task_store \<times> (task \<times> bool) \<times> index_job" where
  "requeue_shard taskID leaseEpoch maxAge nowMs s =
     (if maxAge \<le> 0 \<or> taskID = '''' \<or> leaseEpoch = 0 then (s, (zero_task, False), None)
      else case shard_get s taskID of
        None \<Rightarrow> (s, (zero_task, False), None)
      | Some tk \<Rightarrow>
          if tk_Status tk \<noteq> TASK_STATUS_RUNNING \<or> tk_TaskLeaseEpoch tk \<noteq> leaseEpoch then (s, (cloneTask tk, False), None)
          else if sub64 nowMs (tk_UpdatedAtMs tk) < duration_ms maxAge then (s, (cloneTask tk, False), None)
          else let stored = requeued_stored tk nowMs
               in (shard_put taskID stored s, (cloneTask (requeued_returned tk nowMs), True),
                   Some (Some (cloneTask tk), cloneTask stored)))"

definition requeueTaskAt :: "string \<Rightarrow> u64 \<Rightarrow> i64 \<Rightarrow> i64 \<Rightarrow> task_store \<Rightarrow> task_store \<times> task \<times> bool" where
  "requeueTaskAt taskID leaseEpoch maxAge nowMs s =
     (case requeue_shard taskID leaseEpoch maxAge nowMs s of (s1, r, job) \<Rightarrow> (run_job job s1, r))"

definition complete_shard ::
  "string \<Rightarrow> string \<Rightarrow> u64 \<Rightarrow> task_status \<Rightarrow> bytes \<Rightarrow> string \<Rightarrow> i64 \<Rightarrow> task_store \<Rightarrow> task_store \<times> (meta_error + task) \<times> index_job" where
  "complete_shard taskID workerID leaseEpoch st resultJSON taskErr now s =
     (case shard_get s taskID of
        None \<Rightarrow> (s, Inl TaskNotFound, None)
      | Some tk \<Rightarrow>
          if isTerminalTaskStatus (tk_Status tk) then (s, Inr (cloneTask tk), None)
          else if \<not> check_lease tk workerID leaseEpoch then (s, Inl StaleLease, None)
          else let current = completed tk workerID st resultJSON taskErr now
               in (shard_put taskID current s, Inr (cloneTask current), Some (Some (cloneTask tk), cloneTask current)))"

definition tasks_complete ::
  "string \<Rightarrow> string \<Rightarrow> u64 \<Rightarrow> task_status \<Rightarrow> bytes \<Rightarrow> string \<Rightarrow> i64 \<Rightarrow> task_store \<Rightarrow> task_store \<times> (meta_error + task)" where
  "tasks_complete taskID workerID leaseEpoch st resultJSON taskErr now s =
     (case complete_shard taskID workerID leaseEpoch st resultJSON taskErr now s of (s1, r, job) \<Rightarrow> (run_job job s1, r))"

subsection \<open>The expiry scan\<close>

text \<open>
  The loop terminates because each round pops one queue entry and a requeue adds none. The clock
  is read once per popped entry: \<open>clock k\<close> is the reading after \<open>k\<close> pops.
\<close>

lemma dq_up_Len: "dq_Len (dq_up j q) = dq_Len q"
  by (induction j q rule: dq_up.induct) (subst dq_up.simps, simp add: Let_def dq_Len_def)

lemma dq_down_Len: "dq_Len (fst (dq_down i n q)) = dq_Len q"
  by (induction i n q rule: dq_down.induct) (subst dq_down.simps, simp add: Let_def dq_Len_def)

lemma dq_Pop_Len: "dq_Len (fst (dq_Pop q)) = dq_Len q - 1"
  by (simp add: dq_Pop_def dq_Len_def Let_def)

lemma dq_Swap_Len: "dq_Len (dq_Swap i j q) = dq_Len q"
  by (simp add: dq_Len_def)

lemma dq_remove_Len: "dq_Len (dq_remove t q) \<le> dq_Len q"
proof -
  have "dq_Len (dq_fix_at i n q) = dq_Len q" for i n q
    using dq_down_Len [of i n q] by (auto simp: dq_fix_at_def dq_up_Len split: prod.split)
  then show ?thesis
    by (auto simp: dq_remove_def dq_heap_Remove_def Let_def dq_Pop_Len dq_Swap_Len split: option.split)
qed

lemma dq_popBefore_Len: "snd (dq_popBefore c q) \<noteq> None \<Longrightarrow> dq_Len (fst (dq_popBefore c q)) < dq_Len q"
  by (auto simp: dq_popBefore_def dq_heap_Pop_def Let_def dq_Pop_Len dq_down_Len dq_Swap_Len split: if_splits)

lemma popRunningBefore_Len:
  "popRunningBefore c s = (s1, Some d) \<Longrightarrow> dq_Len (ts_running s1) < dq_Len (ts_running s)"
  using dq_popBefore_Len [of c "ts_running s"] by (auto simp: popRunningBefore_def split: prod.splits)

lemma index_sets_running [simp]: "ts_running (replace_index_sets p c s) = ts_running s"
  by (auto simp: replace_index_sets_def add_current_def remove_previous_def Let_def split: option.splits)

lemma shard_put_running [simp]: "ts_running (shard_put t tk s) = ts_running s"
  by (simp add: shard_put_def Let_def)

lemma requeueTaskAt_Len: "dq_Len (ts_running (fst (requeueTaskAt t e m n s))) \<le> dq_Len (ts_running s)"
  by (auto simp: requeueTaskAt_def requeue_shard_def run_job_def replaceTaskIndexes_def track_current_def
      untrack_previous_def untrackRunning_def requeued_stored_def dq_remove_Len Let_def split: option.splits)

function requeue_loop ::
  "i64 \<Rightarrow> i64 \<Rightarrow> (nat \<Rightarrow> i64) \<Rightarrow> nat \<Rightarrow> task_store \<Rightarrow> task list \<Rightarrow> task_store \<times> task list" where
  "requeue_loop cutoff maxAge clock k s requeued =
     (case popRunningBefore cutoff s of
        (s1, None) \<Rightarrow> (s1, requeued)
      | (s1, Some d) \<Rightarrow>
          let r = requeueTaskAt (td_taskID d) (td_leaseEpoch d) maxAge (clock k) s1
          in requeue_loop cutoff maxAge clock (k + 1) (fst r)
               (if snd (snd r) then requeued @ [fst (snd r)] else requeued))"
  by pat_completeness auto
termination
proof (relation "measure (\<lambda>(c, m, cl, k, s, r). dq_Len (ts_running s))", goal_cases)
  case (2 cutoff maxAge clock k s requeued s1 o1 d r)
  then have "popRunningBefore cutoff s = (s1, Some d)" by simp
  then have "dq_Len (ts_running s1) < dq_Len (ts_running s)" by (rule popRunningBefore_Len)
  then show ?case using 2 order.strict_trans1 [OF requeueTaskAt_Len] by simp
qed simp

declare requeue_loop.simps [simp del]

definition requeueExpiredRunning :: "i64 \<Rightarrow> i64 \<Rightarrow> (nat \<Rightarrow> i64) \<Rightarrow> task_store \<Rightarrow> task_store \<times> task list" where
  "requeueExpiredRunning maxAge now clock s =
     (if maxAge \<le> 0 then (s, []) else requeue_loop (sub64 now (duration_ms maxAge)) maxAge clock 0 s [])"

subsection \<open>Workers\<close>

record worker_record =
  wr_workerID :: string
  wr_address :: string
  wr_labels :: "string \<rightharpoonup> string"
  wr_capacity :: u32
  wr_runningTasks :: u32
  wr_lastHeartbeat :: i64
  wr_cachedModels :: "(string \<times> bool) list"

type_synonym worker_store = "string \<rightharpoonup> worker_record"

definition worker_snapshot_v2 :: "worker_record \<Rightarrow> meta_worker" where
  "worker_snapshot_v2 r = \<lparr>wk_WorkerID = wr_workerID r, wk_CachedModels = cloneModelCache (wr_cachedModels r),
     wk_Capacity = (if wr_capacity r = 0 then 1 else wr_capacity r), wk_RunningTasks = wr_runningTasks r,
     wk_LastHeartbeat = wr_lastHeartbeat r, wk_Address = wr_address r, wk_Labels = wr_labels r\<rparr>"

definition getOrCreate :: "string \<Rightarrow> worker_store \<Rightarrow> worker_record \<times> bool" where
  "getOrCreate workerID ws =
     (case ws workerID of
        Some r \<Rightarrow> (r, True)
      | None \<Rightarrow> (\<lparr>wr_workerID = workerID, wr_address = '''', wr_labels = Map.empty, wr_capacity = 1,
                   wr_runningTasks = 0, wr_lastHeartbeat = 0, wr_cachedModels = []\<rparr>, False))"

definition workers_upsert :: "meta_worker \<Rightarrow> i64 \<Rightarrow> worker_store \<Rightarrow> worker_store" where
  "workers_upsert w0 now ws =
     (let w1 = (if wk_Capacity w0 = 0 then w0\<lparr>wk_Capacity := 1\<rparr> else w0);
          w2 = (if wk_LastHeartbeat w1 = 0 then w1\<lparr>wk_LastHeartbeat := now\<rparr> else w1)
      in case getOrCreate (wk_WorkerID w2) ws of
           (r, existed) \<Rightarrow>
             ws(wk_WorkerID w2 \<mapsto>
               r\<lparr>wr_workerID := wk_WorkerID w2, wr_address := wk_Address w2, wr_labels := wk_Labels w2,
                 wr_capacity := wk_Capacity w2,
                 wr_runningTasks := (if \<not> existed then wk_RunningTasks w2 else wr_runningTasks r),
                 wr_lastHeartbeat := wk_LastHeartbeat w2, wr_cachedModels := cloneModelCache (wk_CachedModels w2)\<rparr>))"

definition workers_get :: "string \<Rightarrow> worker_store \<Rightarrow> meta_worker option" where
  "workers_get workerID ws = map_option worker_snapshot_v2 (ws workerID)"

definition workers_active :: "string list \<Rightarrow> i64 \<Rightarrow> i64 \<Rightarrow> worker_store \<Rightarrow> meta_worker list" where
  "workers_active order maxAge now ws =
     filter (\<lambda>w. maxAge \<le> 0 \<or> sub64 now (wk_LastHeartbeat w) \<le> duration_ms maxAge)
       (map worker_snapshot_v2 (range_values ws order))"

definition workers_list :: "string list \<Rightarrow> worker_store \<Rightarrow> meta_worker list" where
  "workers_list order ws = map worker_snapshot_v2 (range_values ws order)"

definition workers_heartbeat ::
  "string \<Rightarrow> (string \<times> bool) list option \<Rightarrow> i64 \<Rightarrow> worker_store \<Rightarrow> worker_store \<times> meta_worker \<times> bool" where
  "workers_heartbeat workerID cachedModels now ws =
     (case getOrCreate workerID ws of
        (r0, existed) \<Rightarrow>
          let r1 = (case cachedModels of None \<Rightarrow> r0 | Some m \<Rightarrow> r0\<lparr>wr_cachedModels := cloneModelCache m\<rparr>);
              r2 = (if wr_capacity r1 = 0 then r1\<lparr>wr_capacity := 1\<rparr> else r1);
              r3 = r2\<lparr>wr_lastHeartbeat := now\<rparr>
          in (ws(workerID \<mapsto> r3), worker_snapshot_v2 r3, existed))"

definition workers_incrementLoad :: "string \<Rightarrow> i64 \<Rightarrow> worker_store \<Rightarrow> worker_store" where
  "workers_incrementLoad workerID now ws =
     (let r0 = fst (getOrCreate workerID ws);
          r1 = (if wr_capacity r0 = 0 then r0\<lparr>wr_capacity := 1\<rparr> else r0)
      in ws(workerID \<mapsto> r1\<lparr>wr_runningTasks := wr_runningTasks r1 + 1, wr_lastHeartbeat := now\<rparr>))"

text \<open>The compare-and-swap loop succeeds in its first round when no other goroutine intervenes.\<close>

definition workers_decrementLoad :: "string \<Rightarrow> worker_store \<Rightarrow> worker_store" where
  "workers_decrementLoad workerID ws =
     (case ws workerID of
        None \<Rightarrow> ws
      | Some r \<Rightarrow> if wr_runningTasks r = 0 then ws else ws(workerID \<mapsto> r\<lparr>wr_runningTasks := wr_runningTasks r - 1\<rparr>))"

subsection \<open>Workflows, actors and models\<close>

record workflow_record =
  wfr_state :: wf_state
  wfr_steps :: "step_state list"
  wfr_stepIndex :: "string \<rightharpoonup> nat"

record workflow_store =
  wfs_states :: "string \<rightharpoonup> workflow_record"
  wfs_byIdemKey :: "string \<rightharpoonup> string"

definition cloneWorkflowStepState :: "step_state \<Rightarrow> step_state" where
  "cloneWorkflowStepState step = step\<lparr>ss_ResultJSON := [] @ ss_ResultJSON step\<rparr>"

definition newWorkflowRecordV2 :: "wf_state \<Rightarrow> workflow_record" where
  "newWorkflowRecordV2 state =
     (let steps = StepStatesInOrder state
      in \<lparr>wfr_state = CloneState state, wfr_steps = map cloneWorkflowStepState steps,
          wfr_stepIndex = foldl (\<lambda>m (i, step). m(ss_StepID step \<mapsto> i)) Map.empty (enumerate 0 steps)\<rparr>)"

definition wf_snapshot :: "workflow_record \<Rightarrow> wf_state" where
  "wf_snapshot r = CloneState (wfr_state r)"

text \<open>
  A key without a record would be a nil dereference; the invariant of theory \<open>Metadata_Refine\<close>
  excludes it, and the branch is given the value of the reference store.
\<close>

definition workflows_create :: "wf_state \<Rightarrow> string \<Rightarrow> workflow_store \<Rightarrow> workflow_store \<times> wf_state \<times> bool" where
  "workflows_create state0 idempotencyKey s =
     (case (if idempotencyKey \<noteq> '''' then wfs_byIdemKey s idempotencyKey else None) of
        Some workflowID \<Rightarrow>
          (s, case wfs_states s workflowID of Some record \<Rightarrow> wf_snapshot record | None \<Rightarrow> CloneState zero_state, True)
      | None \<Rightarrow>
          let state = state0\<lparr>ws_IdempotencyKey := idempotencyKey\<rparr>;
              record = newWorkflowRecordV2 state;
              s1 = s\<lparr>wfs_states := (wfs_states s)(ws_WorkflowID state \<mapsto> record)\<rparr>;
              s2 = (if idempotencyKey \<noteq> ''''
                    then s1\<lparr>wfs_byIdemKey := (wfs_byIdemKey s1)(idempotencyKey \<mapsto> ws_WorkflowID state)\<rparr> else s1)
          in (s2, wf_snapshot record, False))"

definition workflows_get :: "string \<Rightarrow> workflow_store \<Rightarrow> wf_state option" where
  "workflows_get workflowID s = map_option wf_snapshot (wfs_states s workflowID)"

definition workflows_getByIdempotencyKey :: "string \<Rightarrow> workflow_store \<Rightarrow> wf_state option" where
  "workflows_getByIdempotencyKey key s =
     (if key = '''' then None
      else case wfs_byIdemKey s key of None \<Rightarrow> None | Some w \<Rightarrow> map_option wf_snapshot (wfs_states s w))"

definition workflows_list :: "string list \<Rightarrow> workflow_store \<Rightarrow> wf_state list" where
  "workflows_list order s = map wf_snapshot (range_values (wfs_states s) order)"

definition workflows_update ::
  "string \<Rightarrow> (wf_state \<Rightarrow> string + wf_state) \<Rightarrow> i64 \<Rightarrow> workflow_store \<Rightarrow> workflow_store \<times> (meta_error + wf_state)" where
  "workflows_update workflowID fn now s =
     (case wfs_states s workflowID of
        None \<Rightarrow> (s, Inl WorkflowNotFound)
      | Some record \<Rightarrow>
          (case fn (wf_snapshot record) of
             Inl e \<Rightarrow> (s, Inl (CallbackFailed e))
           | Inr state1 \<Rightarrow>
               let state2 = state1\<lparr>ws_UpdatedAtMs := now\<rparr>
               in (s\<lparr>wfs_states := (wfs_states s)(workflowID \<mapsto> newWorkflowRecordV2 state2)\<rparr>, Inr state2)))"

definition workflows_upsert :: "wf_state \<Rightarrow> workflow_store \<Rightarrow> workflow_store" where
  "workflows_upsert state s =
     (let s1 = s\<lparr>wfs_states := (wfs_states s)(ws_WorkflowID state \<mapsto> newWorkflowRecordV2 state)\<rparr>
      in if ws_IdempotencyKey state \<noteq> ''''
         then s1\<lparr>wfs_byIdemKey := (wfs_byIdemKey s1)(ws_IdempotencyKey state \<mapsto> ws_WorkflowID state)\<rparr> else s1)"

record actor_store =
  acs_states :: "string \<rightharpoonup> actor_state"
  acs_byIdemKey :: "string \<rightharpoonup> string"

definition actors_create :: "actor_state \<Rightarrow> string \<Rightarrow> actor_store \<Rightarrow> actor_store \<times> actor_state \<times> bool" where
  "actors_create state0 idempotencyKey s =
     (case (if idempotencyKey \<noteq> '''' then acs_byIdemKey s idempotencyKey else None) of
        Some actorID \<Rightarrow> (s, cloneActor (case acs_states s actorID of None \<Rightarrow> zero_actor_state | Some st \<Rightarrow> st), True)
      | None \<Rightarrow>
          let state = state0\<lparr>as_IdempotencyKey := idempotencyKey\<rparr>;
              s1 = s\<lparr>acs_states := (acs_states s)(as_ActorID state \<mapsto> cloneActor state)\<rparr>;
              s2 = (if idempotencyKey \<noteq> ''''
                    then s1\<lparr>acs_byIdemKey := (acs_byIdemKey s1)(idempotencyKey \<mapsto> as_ActorID state)\<rparr> else s1)
          in (s2, cloneActor state, False))"

definition actors_get :: "string \<Rightarrow> actor_store \<Rightarrow> actor_state option" where
  "actors_get actorID s = map_option cloneActor (acs_states s actorID)"

definition actors_getByIdempotencyKey :: "string \<Rightarrow> actor_store \<Rightarrow> actor_state option" where
  "actors_getByIdempotencyKey key s =
     (if key = '''' then None
      else case acs_byIdemKey s key of None \<Rightarrow> None | Some a \<Rightarrow> map_option cloneActor (acs_states s a))"

definition actors_list :: "string list \<Rightarrow> actor_store \<Rightarrow> actor_state list" where
  "actors_list order s = map cloneActor (range_values (acs_states s) order)"

definition actors_update ::
  "string \<Rightarrow> (actor_state \<Rightarrow> string + actor_state) \<Rightarrow> i64 \<Rightarrow> actor_store \<Rightarrow> actor_store \<times> (meta_error + actor_state)" where
  "actors_update actorID fn now s =
     (case acs_states s actorID of
        None \<Rightarrow> (s, Inl ActorNotFound)
      | Some state \<Rightarrow>
          (case fn (cloneActor state) of
             Inl e \<Rightarrow> (s, Inl (CallbackFailed e))
           | Inr state1 \<Rightarrow>
               let state2 = state1\<lparr>as_UpdatedAtMs := now\<rparr>
               in (s\<lparr>acs_states := (acs_states s)(actorID \<mapsto> cloneActor state2)\<rparr>, Inr (cloneActor state2))))"

definition actors_upsert :: "actor_state \<Rightarrow> actor_store \<Rightarrow> actor_store" where
  "actors_upsert state s =
     (let s1 = s\<lparr>acs_states := (acs_states s)(as_ActorID state \<mapsto> cloneActor state)\<rparr>
      in if as_IdempotencyKey state \<noteq> ''''
         then s1\<lparr>acs_byIdemKey := (acs_byIdemKey s1)(as_IdempotencyKey state \<mapsto> as_ActorID state)\<rparr> else s1)"

type_synonym model_store = "string \<rightharpoonup> model_info"

definition models_register :: "model_info \<Rightarrow> model_store \<Rightarrow> model_store \<times> model_info" where
  "models_register model s =
     (let c0 = cloneModel model;
          c1 = (if mi_Version c0 = '''' then c0\<lparr>mi_Version := ''v1''\<rparr> else c0);
          c2 = (if mi_Adapter c1 = '''' then c1\<lparr>mi_Adapter := ''mock''\<rparr> else c1)
      in (s(ModelKey (mi_Name c2) (mi_Version c2) \<mapsto> c2), cloneModel c2))"

definition models_get :: "string \<Rightarrow> string \<Rightarrow> model_store \<Rightarrow> model_info option" where
  "models_get name version s = map_option cloneModel (s (ModelKey name (if version = '''' then ''v1'' else version)))"

definition models_list :: "string list \<Rightarrow> model_store \<Rightarrow> model_info list" where
  "models_list order s = map cloneModel (range_values s order)"

subsection \<open>The store\<close>

record memory_store_v2 =
  v2_tasks :: task_store
  v2_workers :: worker_store
  v2_workflows :: workflow_store
  v2_actors :: actor_store
  v2_models :: model_store

definition NewMemoryStore :: memory_store_v2 where
  "NewMemoryStore = \<lparr>v2_tasks = tasks_init, v2_workers = Map.empty,
     v2_workflows = \<lparr>wfs_states = Map.empty, wfs_byIdemKey = Map.empty\<rparr>,
     v2_actors = \<lparr>acs_states = Map.empty, acs_byIdemKey = Map.empty\<rparr>, v2_models = Map.empty\<rparr>"

end
