(* ===== verification/Metadata_Refine.thy ===== *)
theory Metadata_Refine
  imports Metadata_Sharded
begin

text \<open>
  The sharded metadata store implements the reference store. The first part shows that the
  secondary indexes and the expiry queue of the sharded store are functions of its task records
  after every operation; the second that each of the operations returns what the reference store
  returns and changes the records in the same way, for every sequence of operations.
\<close>

subsection \<open>Exact indexes\<close>

definition index_at :: "('k \<rightharpoonup> string set) \<Rightarrow> 'k \<Rightarrow> string set" where
  "index_at m k = (case m k of None \<Rightarrow> {} | Some ids \<Rightarrow> ids)"

lemma index_at_add: "index_at (addIndexLocked k t m) k' = (if k' = k then insert t (index_at m k) else index_at m k')"
  by (simp add: index_at_def addIndexLocked_def)

lemma index_at_remove: "index_at (removeIndexLocked k t m) k' = (if k' = k then index_at m k - {t} else index_at m k')"
  by (auto simp: index_at_def removeIndexLocked_def Let_def split: option.split)

definition ids_with_status :: "(string \<rightharpoonup> task) \<Rightarrow> task_status \<Rightarrow> string set" where
  "ids_with_status m st = {i. indexedTaskStatus st \<and> (\<exists>t. m i = Some t \<and> tk_Status t = st)}"

definition ids_on_worker :: "(string \<rightharpoonup> task) \<Rightarrow> string \<Rightarrow> string set" where
  "ids_on_worker m w = {i. w \<noteq> '''' \<and> (\<exists>t. m i = Some t \<and> tk_Status t = TASK_STATUS_RUNNING \<and> tk_WorkerID t = w)}"

definition sets_indexed :: "(string \<rightharpoonup> task) \<Rightarrow> task_store \<Rightarrow> bool" where
  "sets_indexed m s \<longleftrightarrow> ts_allTasks s = dom m \<and> (\<forall>st. index_at (ts_byStatus s) st = ids_with_status m st)
     \<and> (\<forall>w. index_at (ts_byWorker s) w = ids_on_worker m w)"

definition lease_of :: "task \<Rightarrow> task_deadline option" where
  "lease_of t = (if tk_Status t = TASK_STATUS_RUNNING \<and> tk_TaskLeaseEpoch t \<noteq> 0
     then Some (TaskDeadline (tk_TaskID t) (tk_UpdatedAtMs t) (tk_TaskLeaseEpoch t)) else None)"

definition leases_of :: "(string \<rightharpoonup> task) \<Rightarrow> string \<rightharpoonup> task_deadline" where
  "leases_of m i = (case m i of None \<Rightarrow> None | Some t \<Rightarrow> lease_of t)"

definition queue_indexed :: "(string \<rightharpoonup> task) \<Rightarrow> task_store \<Rightarrow> bool" where
  "queue_indexed m s \<longleftrightarrow> dq_inv (ts_running s) \<and> dq_lookup (ts_running s) = leases_of m"

definition keyed :: "(string \<rightharpoonup> task) \<Rightarrow> bool" where
  "keyed m \<longleftrightarrow> (\<forall>i t. m i = Some t \<longrightarrow> tk_TaskID t = i)"

lemma sets_indexedI:
  assumes "ts_allTasks s = dom m" "\<And>st. index_at (ts_byStatus s) st = ids_with_status m st"
    "\<And>w. index_at (ts_byWorker s) w = ids_on_worker m w"
  shows "sets_indexed m s"
  using assms by (simp add: sets_indexed_def)

lemma replace_index_sets_spec:
  assumes "sets_indexed m s" "keyed m" "tk_TaskID c = i"
  shows "sets_indexed (m(i \<mapsto> c)) (replace_index_sets (m i) c s)"
proof (cases "m i")
  case None
  with assms show ?thesis
    by (auto simp: sets_indexed_def replace_index_sets_def add_current_def remove_previous_def index_at_add
        ids_with_status_def ids_on_worker_def Let_def)
next
  case (Some p)
  then have p: "tk_TaskID p = i" using assms(2) by (simp add: keyed_def)
  from assms(1) Some show ?thesis
    by (auto simp: sets_indexed_def replace_index_sets_def add_current_def remove_previous_def index_at_add index_at_remove
        ids_with_status_def ids_on_worker_def Let_def p assms(3) indexedTaskStatus_def)
qed

text \<open>
  The queue may lack the lease of the previous record when that lease has just been popped and the
  new record is not running.
\<close>

lemma track_queue_spec:
  assumes "dq_inv (ts_running s)" "keyed m" "tk_TaskID c = i"
    and "dq_lookup (ts_running s) = leases_of m
      \<or> (tk_Status c \<noteq> TASK_STATUS_RUNNING \<and> m i \<noteq> None \<and> tk_Status (the (m i)) = TASK_STATUS_RUNNING
         \<and> dq_lookup (ts_running s) = (leases_of m)(i := None))"
  shows "queue_indexed (m(i \<mapsto> c)) (track_current c (untrack_previous (m i) c s))"
proof -
  let ?u = "untrack_previous (m i) c s"
  have i: "dq_inv (ts_running ?u)"
    using assms(1) by (auto simp: untrack_previous_def untrackRunning_def dq.inv_remove split: option.split)
  have u: "(dq_lookup (ts_running ?u))(i := lease_of c) = (leases_of m)(i := lease_of c)
      \<and> (lease_of c = None \<longrightarrow> dq_lookup (ts_running ?u) i = None)"
  proof (cases "m i")
    case None
    then show ?thesis using assms(4) by (auto simp: untrack_previous_def leases_of_def)
  next
    case (Some p)
    then have "tk_TaskID p = i" using assms(2) by (simp add: keyed_def)
    then show ?thesis using assms(1,4) Some
      by (auto simp: untrack_previous_def untrackRunning_def dq.lookup_remove leases_of_def lease_of_def)
  qed
  have "leases_of (m(i \<mapsto> c)) = (leases_of m)(i := lease_of c)" by (auto simp: leases_of_def)
  moreover have "dq_lookup (ts_running (track_current c ?u)) = (dq_lookup (ts_running ?u))(i := lease_of c)"
    using i u assms(3)
    by (auto simp: track_current_def trackRunning_def lease_of_def dq.lookup_upsert fun_upd_idem)
  moreover have "dq_inv (ts_running (track_current c ?u))"
    using i by (auto simp: track_current_def trackRunning_def dq.inv_upsert)
  ultimately show ?thesis using u by (simp add: queue_indexed_def)
qed

lemma track_sets [simp]: "sets_indexed m (track_current c (untrack_previous p c s)) = sets_indexed m s"
  by (auto simp: track_current_def trackRunning_def untrack_previous_def untrackRunning_def sets_indexed_def split: option.split)

lemma replaceTaskIndexes_spec:
  assumes "sets_indexed m s" "queue_indexed m s" "keyed m" "tk_TaskID c = i"
  shows "sets_indexed (m(i \<mapsto> c)) (replaceTaskIndexes (m i) c s)"
    "queue_indexed (m(i \<mapsto> c)) (replaceTaskIndexes (m i) c s)"
  using assms replace_index_sets_spec [OF assms(1,3,4)] track_queue_spec [of "replace_index_sets (m i) c s" m c i]
  by (simp_all add: replaceTaskIndexes_def queue_indexed_def)

subsection \<open>The task invariant\<close>

definition clock_ok :: "i64 \<Rightarrow> bool" where
  "clock_ok now \<longleftrightarrow> 0 \<le> now \<and> is_i64 now"

definition task_inv :: "task_store \<Rightarrow> bool" where
  "task_inv s \<longleftrightarrow> length (ts_shards s) = memoryTaskShardCount \<and> finite (dom (shard_get s)) \<and> keyed (shard_get s)
     \<and> sets_indexed (shard_get s) s \<and> queue_indexed (shard_get s) s
     \<and> (\<forall>k i. ts_byIdem s k = Some i \<longrightarrow> shard_get s i \<noteq> None)
     \<and> (\<forall>i t. shard_get s i = Some t \<longrightarrow> clock_ok (tk_UpdatedAtMs t))"

lemma taskShardIndex_less: "taskShardIndex i < memoryTaskShardCount"
  by (simp add: taskShardIndex_def memoryTaskShardCount_def)

lemma shard_get_put:
  assumes "length (ts_shards s) = memoryTaskShardCount"
  shows "shard_get (shard_put i t s) = (shard_get s)(i \<mapsto> t)"
proof
  fix j
  have "taskShardIndex j < length (ts_shards s)" "taskShardIndex i < length (ts_shards s)"
    using assms taskShardIndex_less by simp_all
  then show "shard_get (shard_put i t s) j = ((shard_get s)(i \<mapsto> t)) j"
    by (auto simp: shard_get_def shard_put_def Let_def nth_list_update)
qed

text \<open>Index updates touch neither the shards nor the idempotency keys.\<close>

lemma index_update_frame [simp]:
  "ts_shards (replaceTaskIndexes p c s) = ts_shards s" "ts_byIdem (replaceTaskIndexes p c s) = ts_byIdem s"
  by (auto simp: replaceTaskIndexes_def track_current_def trackRunning_def untrack_previous_def untrackRunning_def
      replace_index_sets_def add_current_def remove_previous_def Let_def split: option.split)

lemma shard_put_frame [simp]:
  "ts_byIdem (shard_put i t s) = ts_byIdem s" "length (ts_shards (shard_put i t s)) = length (ts_shards s)"
  "sets_indexed m (shard_put i t s) = sets_indexed m s" "queue_indexed m (shard_put i t s) = queue_indexed m s"
  by (auto simp: shard_put_def Let_def sets_indexed_def queue_indexed_def)

lemma shard_get_replace [simp]: "shard_get (replaceTaskIndexes p c s) = shard_get s"
  by (auto simp: shard_get_def)

text \<open>A record replaced under the shard lock and then in the indexes.\<close>

lemma task_inv_replace:
  assumes "task_inv s" "tk_TaskID c = i" "clock_ok (tk_UpdatedAtMs c)"
  shows "task_inv (replaceTaskIndexes (shard_get s i) c (shard_put i c s))"
    "shard_get (replaceTaskIndexes (shard_get s i) c (shard_put i c s)) = (shard_get s)(i \<mapsto> c)"
    "ts_byIdem (replaceTaskIndexes (shard_get s i) c (shard_put i c s)) = ts_byIdem s"
proof -
  have s: "length (ts_shards s) = memoryTaskShardCount" "keyed (shard_get s)"
    "sets_indexed (shard_get s) (shard_put i c s)" "queue_indexed (shard_get s) (shard_put i c s)"
    using assms(1) by (simp_all add: task_inv_def)
  show get: "shard_get (replaceTaskIndexes (shard_get s i) c (shard_put i c s)) = (shard_get s)(i \<mapsto> c)"
    using s by (simp add: shard_get_put)
  show "ts_byIdem (replaceTaskIndexes (shard_get s i) c (shard_put i c s)) = ts_byIdem s" by simp
  show "task_inv (replaceTaskIndexes (shard_get s i) c (shard_put i c s))"
    using assms s replaceTaskIndexes_spec [OF s(3,4,2) assms(2)]
    unfolding task_inv_def get by (auto simp: keyed_def)
qed

lemma task_inv_init: "task_inv tasks_init"
proof -
  have "shard_get tasks_init = Map.empty"
    using taskShardIndex_less by (intro ext) (simp add: shard_get_def tasks_init_def)
  then show ?thesis
    by (simp add: task_inv_def tasks_init_def sets_indexed_def queue_indexed_def keyed_def dq.inv_start dq.lookup_start
        leases_of_def [abs_def] index_at_def ids_with_status_def ids_on_worker_def)
qed

subsection \<open>Each task operation\<close>

lemma createWithoutIdemLock_spec:
  assumes "task_inv s" "clock_ok now"
  shows "task_inv (fst (createWithoutIdemLock tk key now s))"
    "shard_get (fst (createWithoutIdemLock tk key now s)) = (shard_get s)(tk_TaskID tk \<mapsto> stamp_new tk key now)"
    "ts_byIdem (fst (createWithoutIdemLock tk key now s)) = ts_byIdem s"
    "snd (createWithoutIdemLock tk key now s) = stamp_new tk key now"
proof -
  let ?t = "stamp_new tk key now"
  have t: "tk_TaskID ?t = tk_TaskID tk" "clock_ok (tk_UpdatedAtMs ?t)" using assms(2) by (simp_all add: stamp_new_def)
  have c: "createWithoutIdemLock tk key now s
      = (replaceTaskIndexes (shard_get s (tk_TaskID tk)) ?t (shard_put (tk_TaskID tk) ?t s), ?t)"
    by (simp add: createWithoutIdemLock_def create_shard_def run_job_def Let_def t(1))
  show "task_inv (fst (createWithoutIdemLock tk key now s))"
    "shard_get (fst (createWithoutIdemLock tk key now s)) = (shard_get s)(tk_TaskID tk \<mapsto> ?t)"
    "ts_byIdem (fst (createWithoutIdemLock tk key now s)) = ts_byIdem s"
    "snd (createWithoutIdemLock tk key now s) = ?t"
    unfolding c using task_inv_replace [OF assms(1) t] by simp_all
qed

text \<open>What the reference operations do to the task map.\<close>

definition run_shard :: "task_store \<times> 'r \<times> index_job \<Rightarrow> task_store \<times> 'r" where
  "run_shard x = (case x of (s1, r, job) \<Rightarrow> (run_job job s1, r))"

lemma run_shard_None [simp]: "run_shard (s, r, None) = (s, r)"
  by (simp add: run_shard_def run_job_def)

lemma run_shard_Some [simp]: "run_shard (s, r, Some (p, c)) = (replaceTaskIndexes p c s, r)"
  by (simp add: run_shard_def run_job_def)

lemma tasks_as_run_shard:
  "tasks_lease i w now s = run_shard (lease_shard i w now s)"
  "requeueTaskAt i e ma n s = run_shard (requeue_shard i e ma n s)"
  "tasks_complete i w e st res err now s = run_shard (complete_shard i w e st res err now s)"
  by (simp_all add: tasks_lease_def requeueTaskAt_def tasks_complete_def run_shard_def)

definition step_refines :: "task_store \<Rightarrow> task_store \<times> 'r \<Rightarrow> (string \<rightharpoonup> task) \<Rightarrow> 'r \<Rightarrow> bool" where
  "step_refines s x m r \<longleftrightarrow> task_inv (fst x) \<and> shard_get (fst x) = m \<and> ts_byIdem (fst x) = ts_byIdem s \<and> snd x = r"

lemma step_refinesD:
  "step_refines s x m r \<Longrightarrow> task_inv (fst x)" "step_refines s x m r \<Longrightarrow> shard_get (fst x) = m"
  "step_refines s x m r \<Longrightarrow> ts_byIdem (fst x) = ts_byIdem s" "step_refines s x m r \<Longrightarrow> snd x = r"
  by (simp_all add: step_refines_def)

lemma step_refines_same: "task_inv s \<Longrightarrow> m = shard_get s \<Longrightarrow> r' = r \<Longrightarrow> step_refines s (s, r') m r"
  by (simp add: step_refines_def)

lemma step_refines_replace:
  assumes "task_inv s" "shard_get s i = Some p" "tk_TaskID c = tk_TaskID p" "clock_ok (tk_UpdatedAtMs c)"
    "m = (shard_get s)(i \<mapsto> c)"
  shows "step_refines s (replaceTaskIndexes (Some p) c (shard_put i c s), r) m r"
proof -
  have "tk_TaskID c = i" using assms(1-3) by (simp add: task_inv_def keyed_def)
  from task_inv_replace [OF assms(1) this assms(4)] assms(2,5) show ?thesis by (simp add: step_refines_def)
qed

abbreviation ref_tasks :: "(string \<rightharpoonup> task) \<Rightarrow> memory_store" where
  "ref_tasks m \<equiv> NewLegacyMemoryStore\<lparr>ms_tasks := m\<rparr>"

lemma tasks_lease_refines:
  assumes "task_inv s" "clock_ok now"
  shows "step_refines s (tasks_lease i w now s)
    (ms_tasks (fst (LeaseTask i w now (ref_tasks (shard_get s))))) (snd (LeaseTask i w now (ref_tasks (shard_get s))))"
  using assms
  by (auto simp: tasks_as_run_shard lease_shard_def LeaseTask_def isTerminalTaskStatus_def Let_def leased_def
      intro: step_refines_same intro!: step_refines_replace split: option.split)

lemma requeueTaskAt_refines:
  assumes "task_inv s" "clock_ok now"
  shows "step_refines s (requeueTaskAt i e ma now s)
    (ms_tasks (fst (RequeueTaskIfLeaseExpired i e ma now (ref_tasks (shard_get s)))))
    (snd (RequeueTaskIfLeaseExpired i e ma now (ref_tasks (shard_get s))))"
  using assms
  by (auto simp: tasks_as_run_shard requeue_shard_def RequeueTaskIfLeaseExpired_def Let_def requeued_stored_def
      intro: step_refines_same intro!: step_refines_replace split: option.split)

lemma tasks_complete_refines:
  assumes "task_inv s" "clock_ok now"
  shows "step_refines s (tasks_complete i w e st res err now s)
    (ms_tasks (fst (CompleteTask i w e st res err now (ref_tasks (shard_get s)))))
    (snd (CompleteTask i w e st res err now (ref_tasks (shard_get s))))"
  using assms
  by (auto simp: tasks_as_run_shard complete_shard_def CompleteTask_def isTerminalTaskStatus_def Let_def completed_def
      intro: step_refines_same intro!: step_refines_replace split: option.split)

lemma tasks_validate_refines: "tasks_validateLease i w e s = ValidateTaskLease i w e (ref_tasks (shard_get s))"
  by (auto simp: tasks_validateLease_def ValidateTaskLease_def isTerminalTaskStatus_def split: option.split)

subsection \<open>The expiry scan\<close>

text \<open>The leases that are due at \<open>now\<close>, and the task map after all of them were requeued.\<close>

definition due_ids :: "i64 \<Rightarrow> i64 \<Rightarrow> (string \<rightharpoonup> task) \<Rightarrow> string set" where
  "due_ids now ms m = {i. \<exists>t. m i = Some t \<and> tk_Status t = TASK_STATUS_RUNNING \<and> \<not> sub64 now (tk_UpdatedAtMs t) < ms}"

definition requeue_all :: "i64 \<Rightarrow> i64 \<Rightarrow> (string \<rightharpoonup> task) \<Rightarrow> string \<rightharpoonup> task" where
  "requeue_all now ms m = (\<lambda>i. if i \<in> due_ids now ms m then map_option (\<lambda>t. requeued_stored t now) (m i) else m i)"

definition requeued_tasks :: "i64 \<Rightarrow> i64 \<Rightarrow> (string \<rightharpoonup> task) \<Rightarrow> task multiset" where
  "requeued_tasks now ms m = image_mset (\<lambda>i. requeued_returned (the (m i)) now) (mset_set (due_ids now ms m))"

lemma due_ids_dom: "due_ids now ms m \<subseteq> dom m"
  by (auto simp: due_ids_def)

lemma due_ids_requeue_one:
  "due_ids now ms (m(i \<mapsto> requeued_stored t n)) = due_ids now ms m - {i}"
  by (auto simp: due_ids_def requeued_stored_def)

lemma requeue_all_one:
  assumes "m i = Some t" "i \<in> due_ids now ms m"
  shows "requeue_all now ms (m(i \<mapsto> requeued_stored t now)) = requeue_all now ms m"
  using assms by (auto simp: requeue_all_def due_ids_requeue_one)

lemma requeued_tasks_one:
  assumes "m i = Some t" "i \<in> due_ids now ms m" "finite (dom m)"
  shows "requeued_tasks now ms m = add_mset (requeued_returned t now) (requeued_tasks now ms (m(i \<mapsto> requeued_stored t now)))"
proof -
  let ?D = "due_ids now ms m"
  have fin: "finite ?D" by (rule finite_subset [OF due_ids_dom assms(3)])
  have "image_mset (\<lambda>j. requeued_returned (the ((m(i \<mapsto> requeued_stored t now)) j)) now) (mset_set (?D - {i}))
      = image_mset (\<lambda>j. requeued_returned (the (m j)) now) (mset_set (?D - {i}))"
    using fin by (intro image_mset_cong) auto
  moreover have "mset_set ?D = add_mset i (mset_set (?D - {i}))" by (rule mset_set.remove [OF fin assms(2)])
  ultimately show ?thesis unfolding requeued_tasks_def due_ids_requeue_one using assms(1) by (simp only: image_mset_add_mset option.sel)
qed

lemma fold_requeue_one:
  assumes "distinct ks" "finite (dom m)"
  shows "\<exists>xs. fold (requeue_one now ms) ks (m, r) = (\<lambda>i. if i \<in> set ks then requeue_all now ms m i else m i, r @ xs)
    \<and> mset xs = image_mset (\<lambda>i. requeued_returned (the (m i)) now) (mset_set (due_ids now ms m \<inter> set ks))"
  using assms
proof (induction ks arbitrary: m r)
  case (Cons k ks)
  show ?case
  proof (cases "k \<in> due_ids now ms m")
    case False
    then have "requeue_one now ms k (m, r) = (m, r)" "requeue_all now ms m k = m k"
      by (auto simp: requeue_one_def due_ids_def requeue_all_def split: option.split)
    moreover have "due_ids now ms m \<inter> set (k # ks) = due_ids now ms m \<inter> set ks" using False by auto
    moreover obtain xs where "fold (requeue_one now ms) ks (m, r) = (\<lambda>i. if i \<in> set ks then requeue_all now ms m i else m i, r @ xs)"
      "mset xs = image_mset (\<lambda>i. requeued_returned (the (m i)) now) (mset_set (due_ids now ms m \<inter> set ks))"
      using Cons.IH [of m r] Cons.prems by auto
    ultimately show ?thesis by (intro exI [of _ xs]) (auto simp: fun_eq_iff)
  next
    case True
    then obtain t where t: "m k = Some t" by (auto simp: due_ids_def)
    let ?m = "m(k \<mapsto> requeued_stored t now)"
    let ?rs = "requeued_returned t now"
    have dk: "distinct ks" and fin: "finite (dom ?m)" using Cons.prems by simp_all
    have one: "requeue_one now ms k (m, r) = (?m, r @ [?rs])"
      using True t by (auto simp: requeue_one_def due_ids_def)
    obtain xs where xs: "fold (requeue_one now ms) ks (?m, r @ [?rs])
        = (\<lambda>i. if i \<in> set ks then requeue_all now ms ?m i else ?m i, (r @ [?rs]) @ xs)"
      "mset xs = image_mset (\<lambda>i. requeued_returned (the (?m i)) now) (mset_set (due_ids now ms ?m \<inter> set ks))"
      using Cons.IH [OF dk fin, of "r @ [?rs]"] by blast
    have "(\<lambda>i. if i \<in> set ks then requeue_all now ms ?m i else ?m i) = (\<lambda>i. if i \<in> set (k # ks) then requeue_all now ms m i else m i)"
      using Cons.prems(1) True t by (auto simp: requeue_all_one fun_eq_iff requeue_all_def due_ids_requeue_one)
    moreover have "due_ids now ms ?m \<inter> set ks = due_ids now ms m \<inter> set ks" using Cons.prems(1) by (auto simp: due_ids_requeue_one)
    moreover have "due_ids now ms m \<inter> set (k # ks) = insert k (due_ids now ms m \<inter> set ks)" using True by auto
    moreover have "image_mset (\<lambda>i. requeued_returned (the (?m i)) now) (mset_set (due_ids now ms m \<inter> set ks))
        = image_mset (\<lambda>i. requeued_returned (the (m i)) now) (mset_set (due_ids now ms m \<inter> set ks))"
      using Cons.prems(1) by (intro image_mset_cong) auto
    ultimately show ?thesis using xs one Cons.prems(1) t
      by (intro exI [of _ "?rs # xs"]) simp
  qed
qed simp

lemma RequeueExpired_tasks:
  assumes "map_order (ms_tasks s) ks" "maxAge > 0"
  shows "ms_tasks (fst (RequeueExpiredRunningTasks ks maxAge now s)) = requeue_all now (duration_ms maxAge) (ms_tasks s)"
    "mset (snd (RequeueExpiredRunningTasks ks maxAge now s)) = requeued_tasks now (duration_ms maxAge) (ms_tasks s)"
proof -
  let ?ms = "duration_ms maxAge"
  have o: "distinct ks" "set ks = dom (ms_tasks s)" "finite (dom (ms_tasks s))"
    using assms(1) List.finite_set [of ks] by (auto simp: map_order_def)
  obtain xs where xs: "fold (requeue_one now ?ms) ks (ms_tasks s, [])
      = (\<lambda>i. if i \<in> set ks then requeue_all now ?ms (ms_tasks s) i else ms_tasks s i, [] @ xs)"
    "mset xs = image_mset (\<lambda>i. requeued_returned (the (ms_tasks s i)) now) (mset_set (due_ids now ?ms (ms_tasks s) \<inter> set ks))"
    using fold_requeue_one [OF o(1,3), of now ?ms "[]"] by blast
  have "due_ids now ?ms (ms_tasks s) \<inter> set ks = due_ids now ?ms (ms_tasks s)" using due_ids_dom o(2) by blast
  moreover have "(\<lambda>i. if i \<in> set ks then requeue_all now ?ms (ms_tasks s) i else ms_tasks s i) = requeue_all now ?ms (ms_tasks s)"
    using o(2) due_ids_dom [of now ?ms "ms_tasks s"] by (intro ext) (auto simp: requeue_all_def)
  ultimately show "ms_tasks (fst (RequeueExpiredRunningTasks ks maxAge now s)) = requeue_all now ?ms (ms_tasks s)"
    "mset (snd (RequeueExpiredRunningTasks ks maxAge now s)) = requeued_tasks now ?ms (ms_tasks s)"
    using xs assms(2) by (simp_all add: RequeueExpiredRunningTasks_def requeued_tasks_def)
qed

text \<open>In a store whose running tasks all carry a lease, the queue finds exactly the due tasks.\<close>

definition leases_valid :: "(string \<rightharpoonup> task) \<Rightarrow> bool" where
  "leases_valid m \<longleftrightarrow> (\<forall>i t. m i = Some t \<longrightarrow> tk_Status t = TASK_STATUS_RUNNING \<longrightarrow> tk_TaskLeaseEpoch t \<noteq> 0 \<and> i \<noteq> '''')"

lemma due_iff_cutoff:
  assumes "clock_ok now" "clock_ok u" "0 < maxAge" "is_i64 maxAge"
  shows "\<not> sub64 now u < duration_ms maxAge \<longleftrightarrow> u \<le> sub64 now (duration_ms maxAge)"
proof -
  have ms: "0 \<le> duration_ms maxAge" "duration_ms maxAge \<le> maxAge" using assms(3) by (simp_all add: duration_ms_def)
  then have "clock_ok (duration_ms maxAge)" using assms(4) by (simp add: clock_ok_def is_i64_def)
  then show ?thesis using assms(1,2) by (auto simp: sub64_nonneg clock_ok_def)
qed

lemma requeue_popped:
  assumes "task_inv s" "clock_ok now" "shard_get s i = Some t" "tk_Status t = TASK_STATUS_RUNNING"
    and "dq_inv q" "dq_lookup q = (leases_of (shard_get s))(i := None)"
  defines "c \<equiv> requeued_stored t now"
  shows "step_refines s (replaceTaskIndexes (Some t) c (shard_put i c (s\<lparr>ts_running := q\<rparr>)), r) ((shard_get s)(i \<mapsto> c)) r"
proof -
  let ?s1 = "shard_put i c (s\<lparr>ts_running := q\<rparr>)"
  have s: "length (ts_shards s) = memoryTaskShardCount" "keyed (shard_get s)" "sets_indexed (shard_get s) ?s1"
    using assms(1) by (simp_all add: task_inv_def sets_indexed_def shard_put_def Let_def)
  have id: "tk_TaskID c = i" using s(2) assms(3) by (simp add: c_def requeued_stored_def keyed_def)
  have sets: "sets_indexed ((shard_get s)(i \<mapsto> c)) (replaceTaskIndexes (Some t) c ?s1)"
    using replace_index_sets_spec [OF s(3,2) id] assms(3) by (simp add: replaceTaskIndexes_def)
  have queue: "queue_indexed ((shard_get s)(i \<mapsto> c)) (replaceTaskIndexes (Some t) c ?s1)"
    using track_queue_spec [OF _ s(2) id, of "replace_index_sets (Some t) c ?s1"] assms(3-6)
    by (simp add: replaceTaskIndexes_def c_def requeued_stored_def)
  have get: "shard_get (replaceTaskIndexes (Some t) c ?s1) = (shard_get s)(i \<mapsto> c)"
    using s(1) shard_get_put [of "s\<lparr>ts_running := q\<rparr>" i c] by (simp add: shard_get_def [abs_def])
  have "clock_ok (tk_UpdatedAtMs c)" using assms(2) by (simp add: c_def requeued_stored_def)
  then have "task_inv (replaceTaskIndexes (Some t) c ?s1)"
    using assms(1) sets queue id unfolding task_inv_def get by (auto simp: keyed_def)
  with get show ?thesis by (simp add: step_refines_def)
qed

lemma requeue_loop_spec:
  assumes "task_inv s" "leases_valid (shard_get s)" "clock_ok now" "0 < maxAge" "is_i64 maxAge"
    "clock = (\<lambda>_. now)" "cutoff = sub64 now (duration_ms maxAge)"
  shows "\<exists>s' xs. requeue_loop cutoff maxAge clock k s r = (s', r @ xs) \<and> task_inv s' \<and> ts_byIdem s' = ts_byIdem s
    \<and> shard_get s' = requeue_all now (duration_ms maxAge) (shard_get s)
    \<and> mset xs = requeued_tasks now (duration_ms maxAge) (shard_get s)"
  using assms
proof (induction cutoff maxAge clock k s r rule: requeue_loop.induct)
  case (1 cutoff maxAge clock k s r)
  let ?ms = "duration_ms maxAge" and ?m = "shard_get s"
  note prems = "1.prems"
  have inv: "dq_inv (ts_running s)" "dq_lookup (ts_running s) = leases_of ?m" "keyed ?m" "finite (dom ?m)"
    using prems(1) by (simp_all add: task_inv_def queue_indexed_def)
  have due: "i \<in> due_ids now ?ms ?m \<longleftrightarrow> tk_Status t = TASK_STATUS_RUNNING \<and> tk_UpdatedAtMs t \<le> cutoff"
    if "?m i = Some t" for i t
    using that due_iff_cutoff [OF prems(3) _ prems(4,5), of "tk_UpdatedAtMs t"] prems(1,7)
    by (auto simp: due_ids_def task_inv_def)
  obtain q o1 where pop: "dq_popBefore cutoff (ts_running s) = (q, o1)" by fastforce
  show ?case
  proof (cases o1)
    case None
    have none: "q = ts_running s" "\<And>t d. leases_of ?m t = Some d \<Longrightarrow> td_updatedAtMs d > cutoff"
      using dq.pop_none [OF inv(1), of cutoff] None inv(2) by (simp_all add: pop)
    have "i \<notin> due_ids now ?ms ?m" for i
    proof
      assume i: "i \<in> due_ids now ?ms ?m"
      then obtain t where t: "?m i = Some t" by (auto simp: due_ids_def)
      then have "tk_Status t = TASK_STATUS_RUNNING" "tk_UpdatedAtMs t \<le> cutoff" using due [OF t] i by simp_all
      moreover from this t have "leases_of ?m i = Some (TaskDeadline (tk_TaskID t) (tk_UpdatedAtMs t) (tk_TaskLeaseEpoch t))"
        using prems(2) by (simp add: leases_of_def lease_of_def leases_valid_def)
      ultimately show False using none(2) by fastforce
    qed
    then have "due_ids now ?ms ?m = {}" by blast
    then have "requeue_all now ?ms ?m = ?m" "requeued_tasks now ?ms ?m = {#}"
      by (simp_all add: requeue_all_def requeued_tasks_def)
    moreover have "requeue_loop cutoff maxAge clock k s r = (s, r)"
      using None none(1) by (subst requeue_loop.simps) (simp add: popRunningBefore_def pop)
    ultimately show ?thesis using prems(1) by simp
  next
    case (Some d)
    define i where "i = td_taskID d"
    have some: "td_updatedAtMs d \<le> cutoff" "leases_of ?m i = Some d" "dq_lookup q = (leases_of ?m)(i := None)" "dq_inv q"
      using dq.pop_some [OF inv(1), of cutoff d] dq.inv_pop [OF inv(1), of cutoff] Some inv(2) by (simp_all add: pop i_def)
    then obtain t where t: "?m i = Some t" "lease_of t = Some d" by (auto simp: leases_of_def split: option.splits)
    then have run: "tk_Status t = TASK_STATUS_RUNNING" "td_leaseEpoch d = tk_TaskLeaseEpoch t" "tk_UpdatedAtMs t = td_updatedAtMs d"
      "tk_TaskLeaseEpoch t \<noteq> 0" "i \<noteq> ''''"
      using prems(2) by (auto simp: lease_of_def leases_valid_def split: if_splits)
    have di: "i \<in> due_ids now ?ms ?m" using due [OF t(1)] run some(1) by simp
    let ?c = "requeued_stored t now" and ?s1 = "s\<lparr>ts_running := q\<rparr>"
    define x where "x = requeueTaskAt i (td_leaseEpoch d) maxAge (clock k) ?s1"
    have get1: "shard_get ?s1 i = Some t" using t(1) by (simp add: shard_get_def)
    have "x = (replaceTaskIndexes (Some t) ?c (shard_put i ?c ?s1), requeued_returned t now, True)"
      using get1 run di t(1) prems(4,6)
      by (simp add: x_def tasks_as_run_shard requeue_shard_def Let_def due_ids_def)
    moreover have "step_refines s \<dots> (?m(i \<mapsto> ?c)) (requeued_returned t now, True)"
      by (rule requeue_popped [OF prems(1,3) t(1) run(1) some(4,3)])
    ultimately have x: "task_inv (fst x)" "shard_get (fst x) = ?m(i \<mapsto> ?c)" "ts_byIdem (fst x) = ts_byIdem s"
      "snd x = (requeued_returned t now, True)"
      by (simp_all add: step_refines_def)
    have "leases_valid (?m(i \<mapsto> ?c))" using prems(2) by (auto simp: leases_valid_def requeued_stored_def)
    then have lv: "leases_valid (shard_get (fst x))" by (simp add: x(2))
    have pr: "popRunningBefore cutoff s = (?s1, Some d)" using Some by (simp add: popRunningBefore_def pop)
    obtain s' xs where IH: "requeue_loop cutoff maxAge clock (k + 1) (fst x) (r @ [requeued_returned t now]) = (s', (r @ [requeued_returned t now]) @ xs)"
      "task_inv s'" "ts_byIdem s' = ts_byIdem (fst x)" "shard_get s' = requeue_all now ?ms (shard_get (fst x))"
      "mset xs = requeued_tasks now ?ms (shard_get (fst x))"
      using "1.IH" [OF pr [symmetric] refl x_def [unfolded i_def] x(1) lv prems(3-7)] x(4) by auto
    have "requeue_loop cutoff maxAge clock k s r = (s', r @ requeued_returned t now # xs)"
      using IH(1) x(4) by (subst requeue_loop.simps) (simp add: pr Let_def i_def [symmetric] x_def [symmetric])
    then show ?thesis
      using IH x(2,3) requeue_all_one [OF t(1) di] requeued_tasks_one [OF t(1) di inv(4)]
      by (intro exI [of _ s'] exI [of _ "requeued_returned t now # xs"]) simp
  qed
qed

end
