(* ===== verification/Metadata_Store.thy ===== *)
theory Metadata_Store
  imports Metadata_Refine Workflow_Replay
begin

text \<open>
  The interface \<open>Store\<close> of internal/metadata/store.go: its operations as data, their meaning in the
  reference store and in the sharded store, and the proof that both answer every sequence of
  operations alike. Lists come back in the order of a map iteration, which Go leaves open; answers
  are compared as multisets and both stores may iterate in any order of their own.
\<close>

subsection \<open>Operations of the interface\<close>

datatype meta_op =
    OpCreateTask task string i64
  | OpGetTask string
  | OpGetTaskByIdempotencyKey string
  | OpListTasks
  | OpLeaseTask string string i64
  | OpValidateTaskLease string string u64
  | OpRequeueExpiredRunningTasks i64 i64
  | OpRequeueTaskIfLeaseExpired string u64 i64 i64
  | OpCompleteTask string string u64 task_status bytes string i64
  | OpRegisterModel model_info
  | OpGetModel string string
  | OpListModels
  | OpCreateWorkflow wf_state string
  | OpGetWorkflow string
  | OpGetWorkflowByIdempotencyKey string
  | OpListWorkflows
  | OpUpdateWorkflow string "wf_state \<Rightarrow> string + wf_state" i64
  | OpUpsertWorkflow wf_state
  | OpUpsertWorker meta_worker i64
  | OpGetWorker string
  | OpActiveWorkers i64 i64
  | OpListWorkers
  | OpHeartbeat string "(string \<times> bool) list option" i64
  | OpIncrementWorkerLoad string i64
  | OpDecrementWorkerLoad string
  | OpCreateActor actor_state string
  | OpGetActor string
  | OpGetActorByIdempotencyKey string
  | OpListActors
  | OpUpdateActor string "actor_state \<Rightarrow> string + actor_state" i64
  | OpUpsertActor actor_state

datatype meta_answer =
    ADone
  | ATask "task option" | ATaskFlag task bool | ATaskResult "meta_error + task" | ATasks "task multiset"
  | AModel "model_info option" | AModels "model_info multiset"
  | AWorkflow "wf_state option" | AWorkflowFlag wf_state bool | AWorkflowResult "meta_error + wf_state"
  | AWorkflows "wf_state multiset"
  | AWorker "meta_worker option" | AWorkerFlag meta_worker bool | AWorkers "meta_worker multiset"
  | AActor "actor_state option" | AActorFlag actor_state bool | AActorResult "meta_error + actor_state"
  | AActors "actor_state multiset"

type_synonym key_order = "string set \<Rightarrow> string list"

definition enumerates :: "key_order \<Rightarrow> bool" where
  "enumerates ord \<longleftrightarrow> (\<forall>A. finite A \<longrightarrow> distinct (ord A) \<and> set (ord A) = A)"

fun store_exec :: "key_order \<Rightarrow> meta_op \<Rightarrow> memory_store \<Rightarrow> memory_store \<times> meta_answer" where
  "store_exec ord (OpCreateTask t k now) s = (case CreateTask t k now s of (s', t', d) \<Rightarrow> (s', ATaskFlag t' d))"
| "store_exec ord (OpGetTask i) s = (s, ATask (GetTask i s))"
| "store_exec ord (OpGetTaskByIdempotencyKey k) s = (s, ATask (GetTaskByIdempotencyKey k s))"
| "store_exec ord OpListTasks s = (s, ATasks (mset (ListTasks (ord (dom (ms_tasks s))) s)))"
| "store_exec ord (OpLeaseTask i w now) s = (case LeaseTask i w now s of (s', r) \<Rightarrow> (s', ATaskResult r))"
| "store_exec ord (OpValidateTaskLease i w e) s = (s, ATaskResult (ValidateTaskLease i w e s))"
| "store_exec ord (OpRequeueExpiredRunningTasks a now) s =
     (case RequeueExpiredRunningTasks (ord (dom (ms_tasks s))) a now s of (s', ts) \<Rightarrow> (s', ATasks (mset ts)))"
| "store_exec ord (OpRequeueTaskIfLeaseExpired i e a now) s =
     (case RequeueTaskIfLeaseExpired i e a now s of (s', t, ok) \<Rightarrow> (s', ATaskFlag t ok))"
| "store_exec ord (OpCompleteTask i w e st res err now) s =
     (case CompleteTask i w e st res err now s of (s', r) \<Rightarrow> (s', ATaskResult r))"
| "store_exec ord (OpRegisterModel m) s = (case RegisterModel m s of (s', m') \<Rightarrow> (s', AModel (Some m')))"
| "store_exec ord (OpGetModel n v) s = (s, AModel (GetModel n v s))"
| "store_exec ord OpListModels s = (s, AModels (mset (ListModels (ord (dom (ms_models s))) s)))"
| "store_exec ord (OpCreateWorkflow w k) s = (case CreateWorkflow w k s of (s', w', d) \<Rightarrow> (s', AWorkflowFlag w' d))"
| "store_exec ord (OpGetWorkflow i) s = (s, AWorkflow (GetWorkflow i s))"
| "store_exec ord (OpGetWorkflowByIdempotencyKey k) s = (s, AWorkflow (GetWorkflowByIdempotencyKey k s))"
| "store_exec ord OpListWorkflows s = (s, AWorkflows (mset (ListWorkflows (ord (dom (ms_workflows s))) s)))"
| "store_exec ord (OpUpdateWorkflow i f now) s = (case UpdateWorkflow i f now s of (s', r) \<Rightarrow> (s', AWorkflowResult r))"
| "store_exec ord (OpUpsertWorkflow w) s = (UpsertWorkflow w s, ADone)"
| "store_exec ord (OpUpsertWorker w now) s = (meta_UpsertWorker w now s, ADone)"
| "store_exec ord (OpGetWorker i) s = (s, AWorker (GetWorker i s))"
| "store_exec ord (OpActiveWorkers a now) s = (s, AWorkers (mset (ActiveWorkers (ord (dom (ms_workers s))) a now s)))"
| "store_exec ord OpListWorkers s = (s, AWorkers (mset (ListWorkers (ord (dom (ms_workers s))) s)))"
| "store_exec ord (OpHeartbeat i c now) s = (case Heartbeat i c now s of (s', w, ok) \<Rightarrow> (s', AWorkerFlag w ok))"
| "store_exec ord (OpIncrementWorkerLoad i now) s = (IncrementWorkerLoad i now s, ADone)"
| "store_exec ord (OpDecrementWorkerLoad i) s = (DecrementWorkerLoad i s, ADone)"
| "store_exec ord (OpCreateActor a k) s = (case CreateActor a k s of (s', a', d) \<Rightarrow> (s', AActorFlag a' d))"
| "store_exec ord (OpGetActor i) s = (s, AActor (GetActor i s))"
| "store_exec ord (OpGetActorByIdempotencyKey k) s = (s, AActor (GetActorByIdempotencyKey k s))"
| "store_exec ord OpListActors s = (s, AActors (mset (ListActors (ord (dom (ms_actors s))) s)))"
| "store_exec ord (OpUpdateActor i f now) s = (case UpdateActor i f now s of (s', r) \<Rightarrow> (s', AActorResult r))"
| "store_exec ord (OpUpsertActor a) s = (UpsertActor a s, ADone)"

text \<open>
  \<open>MemoryStoreV2\<close> delegates each method to one of its five stores. An operation carries one reading
  of the clock; the redelivery scan, which reads it again for every task it requeues, gets the same
  value each time.
\<close>

fun store_exec_v2 :: "key_order \<Rightarrow> meta_op \<Rightarrow> memory_store_v2 \<Rightarrow> memory_store_v2 \<times> meta_answer" where
  "store_exec_v2 ord (OpCreateTask t k now) s =
     (case tasks_create t k now (v2_tasks s) of (x, t', d) \<Rightarrow> (s\<lparr>v2_tasks := x\<rparr>, ATaskFlag t' d))"
| "store_exec_v2 ord (OpGetTask i) s = (s, ATask (tasks_get i (v2_tasks s)))"
| "store_exec_v2 ord (OpGetTaskByIdempotencyKey k) s = (s, ATask (tasks_getByIdempotencyKey k (v2_tasks s)))"
| "store_exec_v2 ord OpListTasks s = (s, ATasks (mset (tasks_list (v2_tasks s))))"
| "store_exec_v2 ord (OpLeaseTask i w now) s =
     (case tasks_lease i w now (v2_tasks s) of (x, r) \<Rightarrow> (s\<lparr>v2_tasks := x\<rparr>, ATaskResult r))"
| "store_exec_v2 ord (OpValidateTaskLease i w e) s = (s, ATaskResult (tasks_validateLease i w e (v2_tasks s)))"
| "store_exec_v2 ord (OpRequeueExpiredRunningTasks a now) s =
     (case requeueExpiredRunning a now (\<lambda>_. now) (v2_tasks s) of (x, ts) \<Rightarrow> (s\<lparr>v2_tasks := x\<rparr>, ATasks (mset ts)))"
| "store_exec_v2 ord (OpRequeueTaskIfLeaseExpired i e a now) s =
     (case requeueTaskAt i e a now (v2_tasks s) of (x, t, ok) \<Rightarrow> (s\<lparr>v2_tasks := x\<rparr>, ATaskFlag t ok))"
| "store_exec_v2 ord (OpCompleteTask i w e st res err now) s =
     (case tasks_complete i w e st res err now (v2_tasks s) of (x, r) \<Rightarrow> (s\<lparr>v2_tasks := x\<rparr>, ATaskResult r))"
| "store_exec_v2 ord (OpRegisterModel m) s =
     (case models_register m (v2_models s) of (x, m') \<Rightarrow> (s\<lparr>v2_models := x\<rparr>, AModel (Some m')))"
| "store_exec_v2 ord (OpGetModel n v) s = (s, AModel (models_get n v (v2_models s)))"
| "store_exec_v2 ord OpListModels s = (s, AModels (mset (models_list (ord (dom (v2_models s))) (v2_models s))))"
| "store_exec_v2 ord (OpCreateWorkflow w k) s =
     (case workflows_create w k (v2_workflows s) of (x, w', d) \<Rightarrow> (s\<lparr>v2_workflows := x\<rparr>, AWorkflowFlag w' d))"
| "store_exec_v2 ord (OpGetWorkflow i) s = (s, AWorkflow (workflows_get i (v2_workflows s)))"
| "store_exec_v2 ord (OpGetWorkflowByIdempotencyKey k) s = (s, AWorkflow (workflows_getByIdempotencyKey k (v2_workflows s)))"
| "store_exec_v2 ord OpListWorkflows s =
     (s, AWorkflows (mset (workflows_list (ord (dom (wfs_states (v2_workflows s)))) (v2_workflows s))))"
| "store_exec_v2 ord (OpUpdateWorkflow i f now) s =
     (case workflows_update i f now (v2_workflows s) of (x, r) \<Rightarrow> (s\<lparr>v2_workflows := x\<rparr>, AWorkflowResult r))"
| "store_exec_v2 ord (OpUpsertWorkflow w) s = (s\<lparr>v2_workflows := workflows_upsert w (v2_workflows s)\<rparr>, ADone)"
| "store_exec_v2 ord (OpUpsertWorker w now) s = (s\<lparr>v2_workers := workers_upsert w now (v2_workers s)\<rparr>, ADone)"
| "store_exec_v2 ord (OpGetWorker i) s = (s, AWorker (workers_get i (v2_workers s)))"
| "store_exec_v2 ord (OpActiveWorkers a now) s =
     (s, AWorkers (mset (workers_active (ord (dom (v2_workers s))) a now (v2_workers s))))"
| "store_exec_v2 ord OpListWorkers s = (s, AWorkers (mset (workers_list (ord (dom (v2_workers s))) (v2_workers s))))"
| "store_exec_v2 ord (OpHeartbeat i c now) s =
     (case workers_heartbeat i c now (v2_workers s) of (x, w, ok) \<Rightarrow> (s\<lparr>v2_workers := x\<rparr>, AWorkerFlag w ok))"
| "store_exec_v2 ord (OpIncrementWorkerLoad i now) s = (s\<lparr>v2_workers := workers_incrementLoad i now (v2_workers s)\<rparr>, ADone)"
| "store_exec_v2 ord (OpDecrementWorkerLoad i) s = (s\<lparr>v2_workers := workers_decrementLoad i (v2_workers s)\<rparr>, ADone)"
| "store_exec_v2 ord (OpCreateActor a k) s =
     (case actors_create a k (v2_actors s) of (x, a', d) \<Rightarrow> (s\<lparr>v2_actors := x\<rparr>, AActorFlag a' d))"
| "store_exec_v2 ord (OpGetActor i) s = (s, AActor (actors_get i (v2_actors s)))"
| "store_exec_v2 ord (OpGetActorByIdempotencyKey k) s = (s, AActor (actors_getByIdempotencyKey k (v2_actors s)))"
| "store_exec_v2 ord OpListActors s = (s, AActors (mset (actors_list (ord (dom (acs_states (v2_actors s)))) (v2_actors s))))"
| "store_exec_v2 ord (OpUpdateActor i f now) s =
     (case actors_update i f now (v2_actors s) of (x, r) \<Rightarrow> (s\<lparr>v2_actors := x\<rparr>, AActorResult r))"
| "store_exec_v2 ord (OpUpsertActor a) s = (s\<lparr>v2_actors := actors_upsert a (v2_actors s)\<rparr>, ADone)"

subsection \<open>Abstraction and invariant\<close>

definition store_abs :: "memory_store_v2 \<Rightarrow> memory_store" where
  "store_abs s = \<lparr>ms_tasks = shard_get (v2_tasks s), ms_taskByIdemKey = ts_byIdem (v2_tasks s),
     ms_workers = map_option worker_snapshot_v2 \<circ> v2_workers s,
     ms_workflows = map_option wfr_state \<circ> wfs_states (v2_workflows s),
     ms_workflowByIdemKey = wfs_byIdemKey (v2_workflows s),
     ms_actors = acs_states (v2_actors s), ms_actorByIdemKey = acs_byIdemKey (v2_actors s), ms_models = v2_models s\<rparr>"

definition has_runtime :: "wf_state \<Rightarrow> bool" where
  "has_runtime st \<longleftrightarrow> dag_byID (ws_dag st) \<noteq> None"

definition worker_inv :: "worker_store \<Rightarrow> bool" where
  "worker_inv ws \<longleftrightarrow> finite (dom ws) \<and> (\<forall>i r. ws i = Some r \<longrightarrow> wr_capacity r \<noteq> 0 \<and> wr_workerID r = i)"

definition workflow_inv :: "workflow_store \<Rightarrow> bool" where
  "workflow_inv s \<longleftrightarrow> finite (dom (wfs_states s)) \<and> (\<forall>i r. wfs_states s i = Some r \<longrightarrow> has_runtime (wfr_state r))
     \<and> (\<forall>k i. wfs_byIdemKey s k = Some i \<longrightarrow> wfs_states s i \<noteq> None)"

definition store_inv :: "memory_store_v2 \<Rightarrow> bool" where
  "store_inv s \<longleftrightarrow> task_inv (v2_tasks s) \<and> worker_inv (v2_workers s) \<and> workflow_inv (v2_workflows s)
     \<and> finite (dom (acs_states (v2_actors s))) \<and> finite (dom (v2_models s))"

lemma store_invD:
  assumes "store_inv s"
  shows "task_inv (v2_tasks s)" "worker_inv (v2_workers s)" "workflow_inv (v2_workflows s)"
    "finite (dom (acs_states (v2_actors s)))" "finite (dom (v2_models s))"
  using assms by (simp_all add: store_inv_def)

text \<open>
  Clock readings are non-negative; the callback of a workflow update leaves a state with a runtime
  structure; running tasks carry a lease when the store is scanned for expired ones.
\<close>

fun op_ok :: "meta_op \<Rightarrow> memory_store \<Rightarrow> bool" where
  "op_ok (OpCreateTask t k now) s = clock_ok now"
| "op_ok (OpLeaseTask i w now) s = clock_ok now"
| "op_ok (OpRequeueExpiredRunningTasks a now) s = (clock_ok now \<and> is_i64 a \<and> leases_valid (ms_tasks s))"
| "op_ok (OpRequeueTaskIfLeaseExpired i e a now) s = clock_ok now"
| "op_ok (OpCompleteTask i w e st res err now) s = clock_ok now"
| "op_ok (OpUpdateWorkflow i f now) s = (\<forall>x y. f x = Inr y \<longrightarrow> has_runtime y)"
| "op_ok _ s = True"

definition exec_refines :: "memory_store_v2 \<times> 'a \<Rightarrow> memory_store \<times> 'a \<Rightarrow> bool" where
  "exec_refines x y \<longleftrightarrow> store_inv (fst x) \<and> store_abs (fst x) = fst y \<and> snd x = snd y"

lemma mset_range_values:
  assumes "map_order m ks" "map_order m ks'"
  shows "mset (range_values m ks) = mset (range_values m ks')"
proof -
  have "mset ks = mset ks'" using assms set_eq_iff_mset_eq_distinct [of ks ks'] by (auto simp: map_order_def)
  then show ?thesis by (simp add: range_values_def List.map_filter_def)
qed

lemma order_dom: "enumerates ord \<Longrightarrow> finite (dom m) \<Longrightarrow> map_order m (ord (dom m))"
  by (simp add: enumerates_def map_order_def)

lemma range_values_map: "range_values (map_option f \<circ> m) ks = map f (range_values m ks)"
  by (induction ks) (auto simp: range_values_def List.map_filter_def)

lemma range_values_cong: "map_order m ks \<Longrightarrow> x \<in> set (range_values m ks) \<Longrightarrow> \<exists>i. m i = Some x"
  by (auto simp: range_values_def List.map_filter_def)

text \<open>The task operations of the reference store depend on the task map only.\<close>

lemma task_ops_frame:
  "LeaseTask i w now s = (s\<lparr>ms_tasks := ms_tasks (fst (LeaseTask i w now (ref_tasks (ms_tasks s))))\<rparr>,
     snd (LeaseTask i w now (ref_tasks (ms_tasks s))))"
  "CompleteTask i w e st res err now s = (s\<lparr>ms_tasks := ms_tasks (fst (CompleteTask i w e st res err now (ref_tasks (ms_tasks s))))\<rparr>,
     snd (CompleteTask i w e st res err now (ref_tasks (ms_tasks s))))"
  "RequeueTaskIfLeaseExpired i e a now s =
     (s\<lparr>ms_tasks := ms_tasks (fst (RequeueTaskIfLeaseExpired i e a now (ref_tasks (ms_tasks s))))\<rparr>,
     snd (RequeueTaskIfLeaseExpired i e a now (ref_tasks (ms_tasks s))))"
  "ValidateTaskLease i w e s = ValidateTaskLease i w e (ref_tasks (ms_tasks s))"
  by (auto simp: LeaseTask_def CompleteTask_def RequeueTaskIfLeaseExpired_def ValidateTaskLease_def Let_def split: option.split)

lemma RequeueExpired_frame:
  "fst (RequeueExpiredRunningTasks ks a now s) = s\<lparr>ms_tasks := ms_tasks (fst (RequeueExpiredRunningTasks ks a now s))\<rparr>"
  by (simp add: RequeueExpiredRunningTasks_def split: prod.split)

lemma store_abs_tasks:
  "ms_tasks (store_abs s) = shard_get (v2_tasks s)" "ms_taskByIdemKey (store_abs s) = ts_byIdem (v2_tasks s)"
  by (simp_all add: store_abs_def)

lemma store_put_tasks:
  assumes "store_inv s" "task_inv x"
  shows "store_inv (s\<lparr>v2_tasks := x\<rparr>)"
    "store_abs (s\<lparr>v2_tasks := x\<rparr>) = (store_abs s)\<lparr>ms_tasks := shard_get x, ms_taskByIdemKey := ts_byIdem x\<rparr>"
  using assms by (simp_all add: store_inv_def store_abs_def)

lemma step_refines_store:
  assumes "store_inv s" "step_refines (v2_tasks s) x m r"
  shows "exec_refines (s\<lparr>v2_tasks := fst x\<rparr>, snd x) ((store_abs s)\<lparr>ms_tasks := m\<rparr>, r)"
  using assms store_put_tasks [OF assms(1), of "fst x"]
  by (simp add: exec_refines_def step_refines_def store_abs_tasks(2) [symmetric])

lemma exec_refines_map:
  "exec_refines x y \<Longrightarrow> exec_refines (case x of (s, a) \<Rightarrow> (s, f a)) (case y of (s, a) \<Rightarrow> (s, f a))"
  by (auto simp: exec_refines_def split: prod.split)

lemma exec_task_ops:
  assumes "store_inv s" "clock_ok now"
  shows "exec_refines (store_exec_v2 o2 (OpLeaseTask i w now) s) (store_exec o1 (OpLeaseTask i w now) (store_abs s))"
    "exec_refines (store_exec_v2 o2 (OpCompleteTask i w e st res err now) s) (store_exec o1 (OpCompleteTask i w e st res err now) (store_abs s))"
    "exec_refines (store_exec_v2 o2 (OpRequeueTaskIfLeaseExpired i e a now) s)
       (store_exec o1 (OpRequeueTaskIfLeaseExpired i e a now) (store_abs s))"
proof -
  note t = store_invD(1) [OF assms(1)]
  show "exec_refines (store_exec_v2 o2 (OpLeaseTask i w now) s) (store_exec o1 (OpLeaseTask i w now) (store_abs s))"
    using exec_refines_map [OF step_refines_store [OF assms(1) tasks_lease_refines [OF t assms(2)]], of ATaskResult]
    by (subst store_exec.simps, subst task_ops_frame) (simp add: store_abs_tasks case_prod_beta)
  show "exec_refines (store_exec_v2 o2 (OpCompleteTask i w e st res err now) s)
      (store_exec o1 (OpCompleteTask i w e st res err now) (store_abs s))"
    using exec_refines_map [OF step_refines_store [OF assms(1) tasks_complete_refines [OF t assms(2)]], of ATaskResult]
    by (subst store_exec.simps, subst task_ops_frame) (simp add: store_abs_tasks case_prod_beta)
  show "exec_refines (store_exec_v2 o2 (OpRequeueTaskIfLeaseExpired i e a now) s)
       (store_exec o1 (OpRequeueTaskIfLeaseExpired i e a now) (store_abs s))"
    using exec_refines_map [OF step_refines_store [OF assms(1) requeueTaskAt_refines [OF t assms(2)]], of "\<lambda>(t, ok). ATaskFlag t ok"]
    by (subst store_exec.simps, subst task_ops_frame) (simp add: store_abs_tasks case_prod_beta)
qed

lemma exec_requeue_expired:
  assumes "store_inv s" "clock_ok now" "is_i64 a" "leases_valid (shard_get (v2_tasks s))" "enumerates o1"
  shows "exec_refines (store_exec_v2 o2 (OpRequeueExpiredRunningTasks a now) s)
    (store_exec o1 (OpRequeueExpiredRunningTasks a now) (store_abs s))"
proof (cases "0 < a")
  case False
  then show ?thesis using assms(1)
    by (simp add: RequeueExpiredRunningTasks_def requeueExpiredRunning_def exec_refines_def)
next
  case True
  let ?m = "shard_get (v2_tasks s)" and ?ks = "o1 (dom (shard_get (v2_tasks s)))"
  have t: "task_inv (v2_tasks s)" "finite (dom ?m)" using assms(1) by (simp_all add: store_inv_def task_inv_def)
  obtain x xs where x: "requeueExpiredRunning a now (\<lambda>_. now) (v2_tasks s) = (x, xs)" "task_inv x" "ts_byIdem x = ts_byIdem (v2_tasks s)"
    "shard_get x = requeue_all now (duration_ms a) ?m" "mset xs = requeued_tasks now (duration_ms a) ?m"
    using requeue_loop_spec [OF t(1) assms(4,2) True assms(3) refl refl, of 0 "[]"] True
    by (auto simp: requeueExpiredRunning_def)
  have o: "map_order (ms_tasks (store_abs s)) ?ks" using order_dom [OF assms(5) t(2)] by (simp add: store_abs_tasks)
  note ref = RequeueExpired_tasks [OF o True, of now] and frame = RequeueExpired_frame [of ?ks a now "store_abs s"]
  show ?thesis
    using ref frame x store_put_tasks [OF assms(1) x(2)]
    by (simp add: exec_refines_def store_abs_tasks case_prod_beta)
qed

lemma shard_get_put_idem [simp]: "shard_get (y\<lparr>ts_byIdem := f\<rparr>) = shard_get y"
  by (simp add: shard_get_def [abs_def])

lemma task_inv_put_idem:
  "task_inv y \<Longrightarrow> shard_get y j \<noteq> None \<Longrightarrow> task_inv (y\<lparr>ts_byIdem := (ts_byIdem y)(k \<mapsto> j)\<rparr>)"
  by (auto simp: task_inv_def sets_indexed_def queue_indexed_def)

lemma exec_create_task:
  assumes "store_inv s" "clock_ok now"
  shows "exec_refines (store_exec_v2 o2 (OpCreateTask t k now) s) (store_exec o1 (OpCreateTask t k now) (store_abs s))"
proof -
  let ?x = "v2_tasks s"
  have i: "task_inv ?x" using assms(1) by (simp add: store_inv_def)
  have idem: "\<exists>t. shard_get ?x j = Some t" if "ts_byIdem ?x k = Some j" for j using i that by (fastforce simp: task_inv_def)
  note c = createWithoutIdemLock_spec [OF i assms(2), of t]
  show ?thesis
  proof (cases "k \<noteq> '''' \<and> ts_byIdem ?x k \<noteq> None")
    case True
    then show ?thesis using assms(1) idem
      by (auto simp: tasks_create_def CreateTask_def tasks_get_def store_abs_tasks exec_refines_def)
  next
    case False
    let ?y = "fst (createWithoutIdemLock t k now ?x)" and ?t = "stamp_new t k now"
    define y where "y = (if k \<noteq> '''' then ?y\<lparr>ts_byIdem := (ts_byIdem ?y)(k \<mapsto> tk_TaskID t)\<rparr> else ?y)"
    have id: "tk_TaskID ?t = tk_TaskID t" by (simp add: stamp_new_def)
    have "task_inv (?y\<lparr>ts_byIdem := (ts_byIdem ?y)(k \<mapsto> tk_TaskID t)\<rparr>)"
      by (rule task_inv_put_idem [OF c(1)]) (simp add: c(2))
    then have y: "task_inv y" "shard_get y = (shard_get ?x)(tk_TaskID t \<mapsto> ?t)"
      "ts_byIdem y = (if k \<noteq> '''' then (ts_byIdem ?x)(k \<mapsto> tk_TaskID t) else ts_byIdem ?x)"
      using c by (auto simp: y_def)
    have "tasks_create t k now ?x = (y, ?t, False)"
      using False c(4) id by (auto simp: tasks_create_def y_def case_prod_beta Let_def)
    moreover have "CreateTask t k now (store_abs s)
        = ((store_abs s)\<lparr>ms_tasks := shard_get y, ms_taskByIdemKey := ts_byIdem y\<rparr>, ?t, False)"
      using False id by (auto simp: CreateTask_def store_abs_tasks y Let_def)
    ultimately show ?thesis using store_put_tasks [OF assms(1) y(1)] by (simp add: exec_refines_def)
  qed
qed

lemma exec_task_reads:
  assumes "store_inv s" "enumerates o1"
  shows "exec_refines (store_exec_v2 o2 (OpGetTask i) s) (store_exec o1 (OpGetTask i) (store_abs s))"
    "exec_refines (store_exec_v2 o2 (OpGetTaskByIdempotencyKey k) s) (store_exec o1 (OpGetTaskByIdempotencyKey k) (store_abs s))"
    "exec_refines (store_exec_v2 o2 (OpValidateTaskLease i w e) s) (store_exec o1 (OpValidateTaskLease i w e) (store_abs s))"
    "exec_refines (store_exec_v2 o2 OpListTasks s) (store_exec o1 OpListTasks (store_abs s))"
proof -
  let ?m = "shard_get (v2_tasks s)"
  show "exec_refines (store_exec_v2 o2 (OpGetTask i) s) (store_exec o1 (OpGetTask i) (store_abs s))"
    "exec_refines (store_exec_v2 o2 (OpGetTaskByIdempotencyKey k) s) (store_exec o1 (OpGetTaskByIdempotencyKey k) (store_abs s))"
    using assms(1) by (auto simp: exec_refines_def tasks_get_def GetTask_def tasks_getByIdempotencyKey_def
        GetTaskByIdempotencyKey_def store_abs_tasks split: option.split)
  show "exec_refines (store_exec_v2 o2 (OpValidateTaskLease i w e) s) (store_exec o1 (OpValidateTaskLease i w e) (store_abs s))"
    using assms(1) task_ops_frame(4) [of i w e "store_abs s"]
    by (simp add: exec_refines_def tasks_validate_refines store_abs_tasks)
  have "finite (dom ?m)" "ts_allTasks (v2_tasks s) = dom ?m" using assms(1) by (auto simp: store_inv_def task_inv_def sets_indexed_def)
  then have "map_order ?m (allIndexedTaskIDs (v2_tasks s))" "map_order ?m (o1 (dom ?m))"
    using order_dom [OF assms(2)] by (simp_all add: map_order_def allIndexedTaskIDs_def)
  from mset_range_values [OF this] have "mset (tasks_list (v2_tasks s)) = mset (range_values ?m (o1 (dom ?m)))"
    by (simp add: tasks_list_def tasks_get_def range_values_def)
  then show "exec_refines (store_exec_v2 o2 OpListTasks s) (store_exec o1 OpListTasks (store_abs s))"
    using assms(1) by (simp add: exec_refines_def ListTasks_def store_abs_tasks)
qed

subsubsection \<open>Workers\<close>

lemma store_put_workers:
  assumes "store_inv s" "worker_inv x" "(store_abs s)\<lparr>ms_workers := map_option worker_snapshot_v2 \<circ> x\<rparr> = y"
  shows "exec_refines (s\<lparr>v2_workers := x\<rparr>, a) (y, a)"
  using assms by (auto simp: exec_refines_def store_inv_def store_abs_def)

lemma cloneWorker_snapshot: "wr_capacity r \<noteq> 0 \<Longrightarrow> cloneWorker (worker_snapshot_v2 r) = worker_snapshot_v2 r"
  by (simp add: cloneWorker_def worker_snapshot_v2_def)

lemma store_abs_workers: "ms_workers (store_abs s) = map_option worker_snapshot_v2 \<circ> v2_workers s"
  by (simp add: store_abs_def)

lemma snapshot_fresh: "worker_snapshot_v2 (fst (getOrCreate i ws)) =
    (case (map_option worker_snapshot_v2 \<circ> ws) i of None \<Rightarrow> default_worker i | Some w \<Rightarrow> w)"
  by (simp add: getOrCreate_def default_worker_def worker_snapshot_v2_def split: option.split)

lemma getOrCreate_inv:
  "worker_inv ws \<Longrightarrow> wr_capacity (fst (getOrCreate i ws)) \<noteq> 0 \<and> wr_workerID (fst (getOrCreate i ws)) = i"
  by (auto simp: getOrCreate_def worker_inv_def split: option.split)

lemma worker_inv_put: "worker_inv ws \<Longrightarrow> wr_capacity r \<noteq> 0 \<Longrightarrow> wr_workerID r = i \<Longrightarrow> worker_inv (ws(i \<mapsto> r))"
  by (auto simp: worker_inv_def)

lemma exec_worker_ops:
  assumes "store_inv s"
  shows "exec_refines (store_exec_v2 o2 (OpUpsertWorker w now) s) (store_exec o1 (OpUpsertWorker w now) (store_abs s))"
    "exec_refines (store_exec_v2 o2 (OpHeartbeat i c now) s) (store_exec o1 (OpHeartbeat i c now) (store_abs s))"
    "exec_refines (store_exec_v2 o2 (OpIncrementWorkerLoad i now) s) (store_exec o1 (OpIncrementWorkerLoad i now) (store_abs s))"
    "exec_refines (store_exec_v2 o2 (OpDecrementWorkerLoad i) s) (store_exec o1 (OpDecrementWorkerLoad i) (store_abs s))"
proof -
  note inv = store_invD(2) [OF assms]
  note g = getOrCreate_inv [OF inv, of i] and put = worker_inv_put [OF inv]
  let ?ws = "v2_workers s"
  have "(store_abs s)\<lparr>ms_workers := map_option worker_snapshot_v2 \<circ> workers_upsert w now ?ws\<rparr> = meta_UpsertWorker w now (store_abs s)"
    by (cases "?ws (wk_WorkerID w)")
      (auto simp: workers_upsert_def meta_UpsertWorker_def store_abs_workers getOrCreate_def worker_snapshot_v2_def cloneWorker_def
        Let_def fun_eq_iff)
  moreover have "worker_inv (workers_upsert w now ?ws)"
    by (auto simp: workers_upsert_def Let_def intro!: put split: prod.split)
  ultimately show "exec_refines (store_exec_v2 o2 (OpUpsertWorker w now) s) (store_exec o1 (OpUpsertWorker w now) (store_abs s))"
    by (simp add: store_put_workers [OF assms])
  have "worker_inv (fst (workers_heartbeat i c now ?ws))"
    using g by (auto simp: workers_heartbeat_def Let_def case_prod_beta intro!: put split: option.split)
  moreover have "Heartbeat i c now (store_abs s)
      = ((store_abs s)\<lparr>ms_workers := map_option worker_snapshot_v2 \<circ> fst (workers_heartbeat i c now ?ws)\<rparr>, snd (workers_heartbeat i c now ?ws))"
    using g by (cases "?ws i"; cases c)
      (auto simp: workers_heartbeat_def Heartbeat_def store_abs_workers getOrCreate_def worker_snapshot_v2_def default_worker_def
        cloneWorker_def Let_def fun_eq_iff)
  ultimately show "exec_refines (store_exec_v2 o2 (OpHeartbeat i c now) s) (store_exec o1 (OpHeartbeat i c now) (store_abs s))"
    by (simp add: case_prod_beta store_put_workers [OF assms])
  have "worker_inv (workers_incrementLoad i now ?ws)"
    using g by (auto simp: workers_incrementLoad_def Let_def intro!: put)
  moreover have "(store_abs s)\<lparr>ms_workers := map_option worker_snapshot_v2 \<circ> workers_incrementLoad i now ?ws\<rparr> = IncrementWorkerLoad i now (store_abs s)"
    using g by (cases "?ws i")
      (auto simp: workers_incrementLoad_def IncrementWorkerLoad_def store_abs_workers getOrCreate_def worker_snapshot_v2_def default_worker_def
        Let_def fun_eq_iff)
  ultimately show "exec_refines (store_exec_v2 o2 (OpIncrementWorkerLoad i now) s) (store_exec o1 (OpIncrementWorkerLoad i now) (store_abs s))"
    by (simp add: store_put_workers [OF assms])
  have "worker_inv (workers_decrementLoad i ?ws)"
    using inv by (auto simp: workers_decrementLoad_def worker_inv_def intro!: put split: option.split)
  moreover have "(store_abs s)\<lparr>ms_workers := map_option worker_snapshot_v2 \<circ> workers_decrementLoad i ?ws\<rparr> = DecrementWorkerLoad i (store_abs s)"
    by (cases "?ws i")
      (auto simp: workers_decrementLoad_def DecrementWorkerLoad_def store_abs_workers worker_snapshot_v2_def word_gt_0 fun_eq_iff
        intro!: memory_store.equality)
  ultimately show "exec_refines (store_exec_v2 o2 (OpDecrementWorkerLoad i) s) (store_exec o1 (OpDecrementWorkerLoad i) (store_abs s))"
    by (simp add: store_put_workers [OF assms])
qed

lemma range_workers:
  assumes "worker_inv ws" "enumerates o1" "enumerates o2"
  shows "mset (map worker_snapshot_v2 (range_values ws (o2 (dom ws))))
    = mset (map cloneWorker (range_values (map_option worker_snapshot_v2 \<circ> ws) (o1 (dom ws))))"
proof -
  have o: "map_order ws (o1 (dom ws))" "map_order ws (o2 (dom ws))" using assms order_dom by (auto simp: worker_inv_def)
  have e: "map cloneWorker (map worker_snapshot_v2 (range_values ws (o1 (dom ws)))) = map worker_snapshot_v2 (range_values ws (o1 (dom ws)))"
    using assms(1) range_values_cong [OF o(1)] by (auto simp: worker_inv_def intro!: cloneWorker_snapshot)
  show ?thesis unfolding range_values_map e using mset_range_values [OF o] by (simp only: mset_map)
qed

lemma exec_worker_reads:
  assumes "store_inv s" "enumerates o1" "enumerates o2"
  shows "exec_refines (store_exec_v2 o2 (OpGetWorker i) s) (store_exec o1 (OpGetWorker i) (store_abs s))"
    "exec_refines (store_exec_v2 o2 (OpActiveWorkers a now) s) (store_exec o1 (OpActiveWorkers a now) (store_abs s))"
    "exec_refines (store_exec_v2 o2 OpListWorkers s) (store_exec o1 OpListWorkers (store_abs s))"
proof -
  note inv = store_invD(2) [OF assms(1)]
  have d: "dom (map_option worker_snapshot_v2 \<circ> v2_workers s) = dom (v2_workers s)" by auto
  show "exec_refines (store_exec_v2 o2 (OpGetWorker i) s) (store_exec o1 (OpGetWorker i) (store_abs s))"
    using assms(1) inv by (cases "v2_workers s i")
      (auto simp: exec_refines_def workers_get_def GetWorker_def store_abs_workers cloneWorker_snapshot worker_inv_def)
  note r = range_workers [OF inv assms(2,3)]
  show "exec_refines (store_exec_v2 o2 OpListWorkers s) (store_exec o1 OpListWorkers (store_abs s))"
    using assms(1) r by (simp add: exec_refines_def workers_list_def ListWorkers_def store_abs_workers d)
  let ?P = "\<lambda>w. a \<le> 0 \<or> sub64 now (wk_LastHeartbeat w) \<le> duration_ms a"
  have "wk_LastHeartbeat (cloneWorker w) = wk_LastHeartbeat w" for w by (simp add: cloneWorker_def)
  then have "map cloneWorker (filter ?P xs) = filter ?P (map cloneWorker xs)" for xs
    by (induction xs) auto
  then have "mset (workers_active (o2 (dom (v2_workers s))) a now (v2_workers s))
      = mset (ActiveWorkers (o1 (dom (v2_workers s))) a now (store_abs s))"
    using arg_cong [OF r, of "filter_mset ?P"] by (simp only: workers_active_def ActiveWorkers_def store_abs_workers mset_filter)
  then show "exec_refines (store_exec_v2 o2 (OpActiveWorkers a now) s) (store_exec o1 (OpActiveWorkers a now) (store_abs s))"
    using assms(1) by (simp add: exec_refines_def store_abs_workers d)
qed

subsubsection \<open>Workflows, actors and models\<close>

lemma CloneState_runtime [simp]: "has_runtime (CloneState st)"
  by (simp add: has_runtime_def CloneState_def dag_clone_def Let_def)

lemma CloneState_stored: "has_runtime st \<Longrightarrow> CloneState st = st"
  by (simp add: has_runtime_def CloneState_id)

lemma newWorkflowRecord_state [simp]: "wfr_state (newWorkflowRecordV2 st) = CloneState st"
  by (simp add: newWorkflowRecordV2_def Let_def)

lemma wf_snapshot_new [simp]: "wf_snapshot (newWorkflowRecordV2 st) = CloneState st"
  by (simp add: wf_snapshot_def CloneState_stored)

lemma wf_snapshot_stored: "workflow_inv s \<Longrightarrow> wfs_states s i = Some r \<Longrightarrow> wf_snapshot r = wfr_state r"
  by (simp add: wf_snapshot_def workflow_inv_def CloneState_stored)

lemma store_put_workflows:
  assumes "store_inv s" "workflow_inv x"
    "(store_abs s)\<lparr>ms_workflows := map_option wfr_state \<circ> wfs_states x, ms_workflowByIdemKey := wfs_byIdemKey x\<rparr> = y"
  shows "exec_refines (s\<lparr>v2_workflows := x\<rparr>, a) (y, a)"
  using assms by (auto simp: exec_refines_def store_inv_def store_abs_def)

lemma store_abs_workflows:
  "ms_workflows (store_abs s) = map_option wfr_state \<circ> wfs_states (v2_workflows s)"
  "ms_workflowByIdemKey (store_abs s) = wfs_byIdemKey (v2_workflows s)"
  by (simp_all add: store_abs_def)

lemma has_runtime_update [simp]: "has_runtime (st\<lparr>ws_UpdatedAtMs := now\<rparr>) = has_runtime st"
  by (simp add: has_runtime_def)

lemma exec_workflow_ops:
  assumes "store_inv s"
  shows "exec_refines (store_exec_v2 o2 (OpCreateWorkflow w k) s) (store_exec o1 (OpCreateWorkflow w k) (store_abs s))"
    "exec_refines (store_exec_v2 o2 (OpUpsertWorkflow w) s) (store_exec o1 (OpUpsertWorkflow w) (store_abs s))"
    "op_ok (OpUpdateWorkflow i f now) (store_abs s) \<Longrightarrow>
       exec_refines (store_exec_v2 o2 (OpUpdateWorkflow i f now) s) (store_exec o1 (OpUpdateWorkflow i f now) (store_abs s))"
proof -
  let ?x = "v2_workflows s"
  note inv = store_invD(3) [OF assms] and snap = wf_snapshot_stored [OF store_invD(3) [OF assms]]
  have rt: "CloneState (wfr_state r) = wfr_state r" if "wfs_states ?x j = Some r" for j r
    using inv that by (simp add: workflow_inv_def CloneState_stored)
  have put: "workflow_inv (?x\<lparr>wfs_states := (wfs_states ?x)(j \<mapsto> newWorkflowRecordV2 st)\<rparr>)"
    "workflow_inv (?x\<lparr>wfs_states := (wfs_states ?x)(j \<mapsto> newWorkflowRecordV2 st), wfs_byIdemKey := (wfs_byIdemKey ?x)(l \<mapsto> j)\<rparr>)" for j st l
    using inv by (auto simp: workflow_inv_def)
  show "exec_refines (store_exec_v2 o2 (OpCreateWorkflow w k) s) (store_exec o1 (OpCreateWorkflow w k) (store_abs s))"
  proof (cases "if k \<noteq> '''' then wfs_byIdemKey ?x k else None")
    case None
    then show ?thesis
      by (auto simp: workflows_create_def CreateWorkflow_def store_abs_workflows cloneWorkflow_def Let_def fun_eq_iff
          split: if_splits intro!: store_put_workflows [OF assms] put memory_store.equality)
  next
    case (Some j)
    then obtain r where "wfs_states ?x j = Some r" using inv by (fastforce simp: workflow_inv_def split: if_splits)
    with Some show ?thesis using assms rt snap
      by (auto simp: workflows_create_def CreateWorkflow_def store_abs_workflows cloneWorkflow_def exec_refines_def split: if_splits)
  qed
  show "exec_refines (store_exec_v2 o2 (OpUpsertWorkflow w) s) (store_exec o1 (OpUpsertWorkflow w) (store_abs s))"
    by (auto simp: workflows_upsert_def UpsertWorkflow_def store_abs_workflows cloneWorkflow_def Let_def fun_eq_iff
        intro!: store_put_workflows [OF assms] put memory_store.equality)
  show "exec_refines (store_exec_v2 o2 (OpUpdateWorkflow i f now) s) (store_exec o1 (OpUpdateWorkflow i f now) (store_abs s))"
    if ok: "op_ok (OpUpdateWorkflow i f now) (store_abs s)"
  proof (cases "wfs_states ?x i")
    case None
    then show ?thesis using assms by (simp add: workflows_update_def UpdateWorkflow_def store_abs_workflows exec_refines_def)
  next
    case (Some r)
    show ?thesis
    proof (cases "f (wfr_state r)")
      case (Inl e)
      then show ?thesis using Some assms snap [OF Some]
        by (simp add: workflows_update_def UpdateWorkflow_def store_abs_workflows exec_refines_def)
    next
      case (Inr st)
      then have "CloneState (st\<lparr>ws_UpdatedAtMs := now\<rparr>) = st\<lparr>ws_UpdatedAtMs := now\<rparr>"
        using ok by (auto intro: CloneState_stored)
      then show ?thesis using Some Inr snap [OF Some]
        by (auto simp: workflows_update_def UpdateWorkflow_def store_abs_workflows cloneWorkflow_def Let_def fun_eq_iff
            intro!: store_put_workflows [OF assms] put memory_store.equality)
    qed
  qed
qed

lemma exec_workflow_reads:
  assumes "store_inv s" "enumerates o1" "enumerates o2"
  shows "exec_refines (store_exec_v2 o2 (OpGetWorkflow i) s) (store_exec o1 (OpGetWorkflow i) (store_abs s))"
    "exec_refines (store_exec_v2 o2 (OpGetWorkflowByIdempotencyKey k) s) (store_exec o1 (OpGetWorkflowByIdempotencyKey k) (store_abs s))"
    "exec_refines (store_exec_v2 o2 OpListWorkflows s) (store_exec o1 OpListWorkflows (store_abs s))"
proof -
  let ?m = "wfs_states (v2_workflows s)"
  have get: "map_option wf_snapshot (?m j) = map_option cloneWorkflow (map_option wfr_state (?m j))" for j
    by (cases "?m j") (simp_all add: wf_snapshot_def cloneWorkflow_def)
  show "exec_refines (store_exec_v2 o2 (OpGetWorkflow i) s) (store_exec o1 (OpGetWorkflow i) (store_abs s))"
    "exec_refines (store_exec_v2 o2 (OpGetWorkflowByIdempotencyKey k) s) (store_exec o1 (OpGetWorkflowByIdempotencyKey k) (store_abs s))"
    using assms(1) get by (auto simp: exec_refines_def workflows_get_def GetWorkflow_def workflows_getByIdempotencyKey_def
        GetWorkflowByIdempotencyKey_def store_abs_workflows split: option.split)
  have "finite (dom ?m)" using store_invD(3) [OF assms(1)] by (simp add: workflow_inv_def)
  then have "map_order ?m (o1 (dom ?m))" "map_order ?m (o2 (dom ?m))" using assms(2,3) order_dom by blast+
  from mset_range_values [OF this] have e: "mset (range_values ?m (o1 (dom ?m))) = mset (range_values ?m (o2 (dom ?m)))" .
  have "cloneWorkflow \<circ> wfr_state = wf_snapshot" by (auto simp: wf_snapshot_def cloneWorkflow_def)
  moreover have "dom (map_option wfr_state \<circ> ?m) = dom ?m" by auto
  ultimately show "exec_refines (store_exec_v2 o2 OpListWorkflows s) (store_exec o1 OpListWorkflows (store_abs s))"
    using assms(1) arg_cong [OF e, of "image_mset wf_snapshot"]
    by (simp add: exec_refines_def workflows_list_def ListWorkflows_def store_abs_workflows range_values_map)
qed

lemma store_put_actors:
  assumes "store_inv s" "finite (dom (acs_states x))"
    "(store_abs s)\<lparr>ms_actors := acs_states x, ms_actorByIdemKey := acs_byIdemKey x\<rparr> = y"
  shows "exec_refines (s\<lparr>v2_actors := x\<rparr>, a) (y, a)"
  using assms by (auto simp: exec_refines_def store_inv_def store_abs_def)

lemma store_abs_actors:
  "ms_actors (store_abs s) = acs_states (v2_actors s)" "ms_actorByIdemKey (store_abs s) = acs_byIdemKey (v2_actors s)"
  "ms_models (store_abs s) = v2_models s"
  by (simp_all add: store_abs_def)

lemma exec_actor_ops:
  assumes "store_inv s"
  shows "exec_refines (store_exec_v2 o2 (OpCreateActor a k) s) (store_exec o1 (OpCreateActor a k) (store_abs s))"
    "exec_refines (store_exec_v2 o2 (OpUpsertActor a) s) (store_exec o1 (OpUpsertActor a) (store_abs s))"
    "exec_refines (store_exec_v2 o2 (OpUpdateActor i f now) s) (store_exec o1 (OpUpdateActor i f now) (store_abs s))"
    "exec_refines (store_exec_v2 o2 (OpGetActor i) s) (store_exec o1 (OpGetActor i) (store_abs s))"
    "exec_refines (store_exec_v2 o2 (OpGetActorByIdempotencyKey k) s) (store_exec o1 (OpGetActorByIdempotencyKey k) (store_abs s))"
proof -
  note fin = store_invD(4) [OF assms]
  show "exec_refines (store_exec_v2 o2 (OpCreateActor a k) s) (store_exec o1 (OpCreateActor a k) (store_abs s))"
    using assms fin by (cases "if k \<noteq> '''' then acs_byIdemKey (v2_actors s) k else None")
      (auto simp: actors_create_def CreateActor_def store_abs_actors Let_def exec_refines_def store_inv_def store_abs_def
        split: if_splits intro!: memory_store.equality)
  show "exec_refines (store_exec_v2 o2 (OpUpsertActor a) s) (store_exec o1 (OpUpsertActor a) (store_abs s))"
    using fin by (auto simp: actors_upsert_def UpsertActor_def store_abs_actors Let_def intro!: store_put_actors [OF assms] memory_store.equality)
  show "exec_refines (store_exec_v2 o2 (OpUpdateActor i f now) s) (store_exec o1 (OpUpdateActor i f now) (store_abs s))"
    using assms fin by (auto simp: actors_update_def UpdateActor_def store_abs_actors Let_def exec_refines_def store_inv_def store_abs_def
        split: option.split sum.split intro!: memory_store.equality)
  show "exec_refines (store_exec_v2 o2 (OpGetActor i) s) (store_exec o1 (OpGetActor i) (store_abs s))"
    "exec_refines (store_exec_v2 o2 (OpGetActorByIdempotencyKey k) s) (store_exec o1 (OpGetActorByIdempotencyKey k) (store_abs s))"
    using assms by (auto simp: exec_refines_def actors_get_def GetActor_def actors_getByIdempotencyKey_def GetActorByIdempotencyKey_def
        store_abs_actors split: option.split)
qed

lemma exec_list_ops:
  assumes "store_inv s" "enumerates o1" "enumerates o2"
  shows "exec_refines (store_exec_v2 o2 OpListActors s) (store_exec o1 OpListActors (store_abs s))"
    "exec_refines (store_exec_v2 o2 OpListModels s) (store_exec o1 OpListModels (store_abs s))"
  using assms mset_range_values [OF order_dom [OF assms(2) store_invD(4) [OF assms(1)]] order_dom [OF assms(3) store_invD(4) [OF assms(1)]]]
    mset_range_values [OF order_dom [OF assms(2) store_invD(5) [OF assms(1)]] order_dom [OF assms(3) store_invD(5) [OF assms(1)]]]
  by (simp_all add: exec_refines_def actors_list_def ListActors_def models_list_def ListModels_def store_abs_actors)

lemma exec_model_ops:
  assumes "store_inv s"
  shows "exec_refines (store_exec_v2 o2 (OpRegisterModel m) s) (store_exec o1 (OpRegisterModel m) (store_abs s))"
    "exec_refines (store_exec_v2 o2 (OpGetModel n v) s) (store_exec o1 (OpGetModel n v) (store_abs s))"
  using assms by (auto simp: exec_refines_def models_register_def RegisterModel_def models_get_def GetModel_def store_abs_actors Let_def
      store_inv_def store_abs_def)

lemmas exec_refines_all = exec_task_ops exec_requeue_expired exec_create_task exec_task_reads exec_worker_ops exec_worker_reads
  exec_workflow_ops exec_workflow_reads exec_actor_ops exec_list_ops exec_model_ops

lemma store_exec_refines:
  assumes "store_inv s" "enumerates o1" "enumerates o2" "op_ok opn (store_abs s)"
  shows "exec_refines (store_exec_v2 o2 opn s) (store_exec o1 opn (store_abs s))"
  by (cases opn) (use assms in \<open>simp_all only: op_ok.simps exec_refines_all store_abs_tasks\<close>)

subsection \<open>Sequences of operations\<close>

fun run_store :: "('o \<Rightarrow> 's \<Rightarrow> 's \<times> 'a) \<Rightarrow> 'o list \<Rightarrow> 's \<Rightarrow> 's \<times> 'a list" where
  "run_store exec [] s = (s, [])"
| "run_store exec (opn # ops) s =
     (case exec opn s of (s1, a) \<Rightarrow> case run_store exec ops s1 of (s2, as) \<Rightarrow> (s2, a # as))"

text \<open>Every operation of the sequence satisfies its precondition in the state it meets.\<close>

fun run_ok :: "('o \<Rightarrow> 's \<Rightarrow> bool) \<Rightarrow> ('o \<Rightarrow> 's \<Rightarrow> 's \<times> 'a) \<Rightarrow> 'o list \<Rightarrow> 's \<Rightarrow> bool" where
  "run_ok ok exec [] s = True"
| "run_ok ok exec (opn # ops) s = (ok opn s \<and> run_ok ok exec ops (fst (exec opn s)))"

lemma run_store_refines:
  assumes "enumerates o1" "enumerates o2"
  shows "store_inv s \<Longrightarrow> run_ok op_ok (store_exec o1) ops (store_abs s) \<Longrightarrow>
    exec_refines (run_store (store_exec_v2 o2) ops s) (run_store (store_exec o1) ops (store_abs s))"
proof (induction ops arbitrary: s)
  case Nil
  then show ?case by (simp add: exec_refines_def)
next
  case (Cons opn ops)
  have x: "exec_refines (store_exec_v2 o2 opn s) (store_exec o1 opn (store_abs s))"
    using store_exec_refines [OF Cons.prems(1) assms] Cons.prems(2) by simp
  then have "exec_refines (run_store (store_exec_v2 o2) ops (fst (store_exec_v2 o2 opn s)))
      (run_store (store_exec o1) ops (fst (store_exec o1 opn (store_abs s))))"
    using Cons.IH [of "fst (store_exec_v2 o2 opn s)"] Cons.prems(2) by (simp add: exec_refines_def)
  with x show ?case by (simp add: exec_refines_def case_prod_beta)
qed

lemma NewMemoryStore_inv: "store_inv NewMemoryStore" "store_abs NewMemoryStore = NewLegacyMemoryStore"
proof -
  have "shard_get tasks_init = Map.empty"
    using taskShardIndex_less by (intro ext) (simp add: shard_get_def tasks_init_def)
  moreover have "ts_byIdem tasks_init = Map.empty" by (simp add: tasks_init_def)
  ultimately show "store_inv NewMemoryStore" "store_abs NewMemoryStore = NewLegacyMemoryStore"
    by (auto simp: store_inv_def NewMemoryStore_def task_inv_init worker_inv_def workflow_inv_def store_abs_def
        NewLegacyMemoryStore_def)
qed

text \<open>
  C5. The sharded metadata store implements the reference store: started empty, it gives the same
  answer to every operation of every sequence of operations on tasks, models, workflows, workers
  and actors, in whatever orders the two iterate over their maps, and ends with the same records. The
  sequence must meet \<open>op_ok\<close>: clock readings and durations fit their types, a redelivery scan finds
  running tasks only with a lease epoch and an identifier, updates of a workflow keep its runtime, and
  a scan sees one reading of the clock.\<close>
theorem sharded_store_refines_reference:
  assumes "enumerates o1" and "enumerates o2" and "run_ok op_ok (store_exec o1) ops NewLegacyMemoryStore"
  shows "snd (run_store (store_exec_v2 o2) ops NewMemoryStore) = snd (run_store (store_exec o1) ops NewLegacyMemoryStore)
    \<and> store_abs (fst (run_store (store_exec_v2 o2) ops NewMemoryStore)) = fst (run_store (store_exec o1) ops NewLegacyMemoryStore)"
  using run_store_refines [OF assms(1,2) NewMemoryStore_inv(1)] assms(3) by (simp add: NewMemoryStore_inv(2) exec_refines_def)

definition demo_task :: task where
  "demo_task = zero_task\<lparr>tk_TaskID := ''t'', tk_Status := TASK_STATUS_QUEUED\<rparr>"

definition demo_ops :: "meta_op list" where
  "demo_ops = [OpCreateTask demo_task ''k'' 5, OpLeaseTask ''t'' ''w1'' 6, OpRequeueExpiredRunningTasks 1000000 9,
     OpLeaseTask ''t'' ''w2'' 10, OpCompleteTask ''t'' ''w1'' 1 TASK_STATUS_SUCCEEDED [] '''' 11,
     OpCompleteTask ''t'' ''w2'' 2 TASK_STATUS_SUCCEEDED [1] '''' 12, OpListTasks]"

lemma enumerates_sorted: "enumerates sorted_list_of_set"
  by (simp add: enumerates_def)

lemma demo_ops_ok: "run_ok op_ok (store_exec sorted_list_of_set) demo_ops NewLegacyMemoryStore"
  by (simp add: demo_ops_def demo_task_def zero_task_def clock_ok_def is_i64_def CreateTask_def LeaseTask_def stamp_new_def
      leased_def leases_valid_def NewLegacyMemoryStore_def Let_def)

theorem sharded_store_refines_reference_witness:
  "snd (run_store (store_exec_v2 sorted_list_of_set) demo_ops NewMemoryStore)
     = snd (run_store (store_exec sorted_list_of_set) demo_ops NewLegacyMemoryStore)
   \<and> store_abs (fst (run_store (store_exec_v2 sorted_list_of_set) demo_ops NewMemoryStore))
     = fst (run_store (store_exec sorted_list_of_set) demo_ops NewLegacyMemoryStore)"
  by (rule sharded_store_refines_reference [OF enumerates_sorted enumerates_sorted demo_ops_ok])

subsection \<open>Lease fencing\<close>

text \<open>What one operation may do to the record of a task it does not create.\<close>

inductive lease_step :: "string \<Rightarrow> meta_op \<Rightarrow> task \<Rightarrow> task \<Rightarrow> bool" for i where
  keeps: "lease_step i opn t t"
| leases: "\<not> isTerminalTaskStatus (tk_Status t) \<Longrightarrow> lease_step i (OpLeaseTask i w now) t (leased t w now)"
| requeues: "tk_Status t = TASK_STATUS_RUNNING \<Longrightarrow> lease_step i opn t (requeued_stored t now)"
| completes: "check_lease t w e \<Longrightarrow> lease_step i (OpCompleteTask i w e st res err now) t (completed t w st res err now)"

inductive_cases lease_stepE: "lease_step i opn t t'"

fun creates :: "string \<Rightarrow> meta_op \<Rightarrow> bool" where
  "creates i (OpCreateTask t k now) \<longleftrightarrow> tk_TaskID t = i"
| "creates i _ \<longleftrightarrow> False"

text \<open>What a worker without a valid lease is told.\<close>

definition lease_refused :: "task \<Rightarrow> meta_error + task" where
  "lease_refused t = (if isTerminalTaskStatus (tk_Status t) then Inr t else Inl StaleLease)"

locale lease_store =
  fixes exec :: "meta_op \<Rightarrow> 's \<Rightarrow> 's \<times> meta_answer" and rec :: "'s \<Rightarrow> string \<rightharpoonup> task"
    and inv :: "'s \<Rightarrow> bool" and ok :: "meta_op \<Rightarrow> 's \<Rightarrow> bool"
  assumes inv_exec: "inv s \<Longrightarrow> ok opn s \<Longrightarrow> inv (fst (exec opn s))"
    and rec_exec: "inv s \<Longrightarrow> ok opn s \<Longrightarrow> \<not> creates i opn \<Longrightarrow> rec s i = Some t \<Longrightarrow>
      \<exists>t'. rec (fst (exec opn s)) i = Some t' \<and> lease_step i opn t t'"
    and lease_answer: "inv s \<Longrightarrow> ok (OpLeaseTask i w now) s \<Longrightarrow> rec s i = Some t \<Longrightarrow> \<not> isTerminalTaskStatus (tk_Status t) \<Longrightarrow>
      rec (fst (exec (OpLeaseTask i w now) s)) i = Some (leased t w now) \<and> snd (exec (OpLeaseTask i w now) s) = ATaskResult (Inr (leased t w now))"
    and complete_stale: "inv s \<Longrightarrow> rec s i = Some t \<Longrightarrow> \<not> isTerminalTaskStatus (tk_Status t) \<Longrightarrow> \<not> check_lease t w e \<Longrightarrow>
      exec (OpCompleteTask i w e st res err now) s = (s, ATaskResult (Inl StaleLease))"
    and complete_terminal: "inv s \<Longrightarrow> rec s i = Some t \<Longrightarrow> isTerminalTaskStatus (tk_Status t) \<Longrightarrow>
      exec (OpCompleteTask i w e st res err now) s = (s, ATaskResult (Inr t))"
    and validate_answer: "inv s \<Longrightarrow> rec s i = Some t \<Longrightarrow> exec (OpValidateTaskLease i w e) s =
      (s, ATaskResult (if isTerminalTaskStatus (tk_Status t) \<or> check_lease t w e then Inr t else Inl StaleLease))"
begin

lemma run_Cons [simp]: "fst (run_store exec (opn # ops) s) = fst (run_store exec ops (fst (exec opn s)))"
  by (simp add: case_prod_beta)

lemma run_inv: "inv s \<Longrightarrow> run_ok ok exec ops s \<Longrightarrow> inv (fst (run_store exec ops s))"
  by (induction ops arbitrary: s) (auto simp: inv_exec simp del: run_store.simps(2))

lemma terminal_frozen:
  assumes "inv s" "run_ok ok exec ops s" "\<forall>opn \<in> set ops. \<not> creates i opn" "rec s i = Some t" "isTerminalTaskStatus (tk_Status t)"
  shows "rec (fst (run_store exec ops s)) i = Some t"
  using assms
proof (induction ops arbitrary: s)
  case (Cons opn ops)
  have "\<exists>t'. rec (fst (exec opn s)) i = Some t' \<and> lease_step i opn t t'"
    by (rule rec_exec) (use Cons.prems in simp_all)
  then obtain t' where t': "rec (fst (exec opn s)) i = Some t'" "lease_step i opn t t'" by blast
  from t'(2) Cons.prems(5) have "t' = t"
    by (cases rule: lease_stepE) (auto simp: isTerminalTaskStatus_def check_lease_def)
  then show ?case using Cons.IH [of "fst (exec opn s)"] Cons.prems t' inv_exec by (simp del: run_store.simps(2))
qed simp

lemma epoch_grows:
  assumes "inv s" "run_ok ok exec ops s" "\<forall>opn \<in> set ops. \<not> creates i opn" "rec s i = Some t"
    "unat (tk_TaskLeaseEpoch t) + length ops < 2 ^ 64"
  shows "\<exists>t'. rec (fst (run_store exec ops s)) i = Some t' \<and> tk_TaskLeaseEpoch t \<le> tk_TaskLeaseEpoch t'
    \<and> unat (tk_TaskLeaseEpoch t') \<le> unat (tk_TaskLeaseEpoch t) + length ops"
  using assms
proof (induction ops arbitrary: s t)
  case (Cons opn ops)
  have "\<exists>t'. rec (fst (exec opn s)) i = Some t' \<and> lease_step i opn t t'"
    by (rule rec_exec) (use Cons.prems in simp_all)
  then obtain t' where t': "rec (fst (exec opn s)) i = Some t'" "lease_step i opn t t'" by blast
  have b: "unat (tk_TaskLeaseEpoch t) + 1 < 2 ^ 64" using Cons.prems(5) by simp
  then have inc: "unat (tk_TaskLeaseEpoch t + 1) = unat (tk_TaskLeaseEpoch t) + 1" by (simp add: unat_word_ariths)
  have e: "tk_TaskLeaseEpoch t \<le> tk_TaskLeaseEpoch t'" "unat (tk_TaskLeaseEpoch t') \<le> unat (tk_TaskLeaseEpoch t) + 1"
    using t'(2) inc by (auto elim!: lease_stepE simp: leased_def requeued_stored_def completed_def word_le_nat_alt)
  have "\<exists>t''. rec (fst (run_store exec ops (fst (exec opn s)))) i = Some t'' \<and> tk_TaskLeaseEpoch t' \<le> tk_TaskLeaseEpoch t''
    \<and> unat (tk_TaskLeaseEpoch t'') \<le> unat (tk_TaskLeaseEpoch t') + length ops"
    by (rule Cons.IH) (use Cons.prems t' e inv_exec in auto)
  then show ?case using e by (auto intro: order.trans simp del: run_store.simps(2))
qed simp

lemma stale_lease:
  assumes "inv s" "rec s i = Some t" "e < tk_TaskLeaseEpoch t"
  shows "exec (OpCompleteTask i w e st res err now) s = (s, ATaskResult (lease_refused t))"
    "exec (OpValidateTaskLease i w e) s = (s, ATaskResult (lease_refused t))"
proof -
  have "\<not> check_lease t w e" using assms(3) by (auto simp: check_lease_def)
  then show "exec (OpCompleteTask i w e st res err now) s = (s, ATaskResult (lease_refused t))"
    "exec (OpValidateTaskLease i w e) s = (s, ATaskResult (lease_refused t))"
    using complete_stale [OF assms(1,2)] complete_terminal [OF assms(1,2)] validate_answer [OF assms(1,2)]
    by (simp_all add: lease_refused_def)
qed

text \<open>A worker that lost its lease cannot complete the task any more and fails every check of it.\<close>

lemma fenced:
  assumes "inv s" "rec s i = Some t" "\<not> isTerminalTaskStatus (tk_Status t)" and "ok (OpLeaseTask i w2 n2) s"
    and "run_ok ok exec ops (fst (exec (OpLeaseTask i w2 n2) s))" "\<forall>opn \<in> set ops. \<not> creates i opn"
    and "e \<le> tk_TaskLeaseEpoch t" "unat (tk_TaskLeaseEpoch t) + length ops + 1 < 2 ^ 64"
  defines "s' \<equiv> fst (run_store exec ops (fst (exec (OpLeaseTask i w2 n2) s)))"
  shows "\<exists>t'. rec s' i = Some t' \<and> exec (OpCompleteTask i w e st res err now) s' = (s', ATaskResult (lease_refused t'))
    \<and> exec (OpValidateTaskLease i w e) s' = (s', ATaskResult (lease_refused t'))"
proof -
  let ?s1 = "fst (exec (OpLeaseTask i w2 n2) s)" and ?t1 = "leased t w2 n2"
  have s1: "inv ?s1" "rec ?s1 i = Some ?t1" using inv_exec [OF assms(1,4)] lease_answer [OF assms(1,4,2,3)] by auto
  have u: "unat (tk_TaskLeaseEpoch ?t1) = unat (tk_TaskLeaseEpoch t) + 1"
    using assms(8) by (simp add: leased_def unat_word_ariths)
  obtain t' where t': "rec s' i = Some t'" "tk_TaskLeaseEpoch ?t1 \<le> tk_TaskLeaseEpoch t'"
    using epoch_grows [OF s1(1) assms(5,6) s1(2)] assms(8) u by (auto simp: s'_def)
  have "e < tk_TaskLeaseEpoch t'" using assms(7) u t'(2) by (simp add: word_less_nat_alt word_le_nat_alt)
  moreover have "inv s'" unfolding s'_def by (rule run_inv [OF s1(1) assms(5)])
  ultimately show ?thesis using stale_lease [OF _ t'(1)] t'(1) by blast
qed

end

subsection \<open>Both stores fence leases\<close>

fun writes_tasks :: "meta_op \<Rightarrow> bool" where
  "writes_tasks (OpCreateTask t k now) = True"
| "writes_tasks (OpLeaseTask i w now) = True"
| "writes_tasks (OpRequeueExpiredRunningTasks a now) = True"
| "writes_tasks (OpRequeueTaskIfLeaseExpired i e a now) = True"
| "writes_tasks (OpCompleteTask i w e st res err now) = True"
| "writes_tasks _ = False"

lemma exec_other_tasks: "\<not> writes_tasks opn \<Longrightarrow> ms_tasks (fst (store_exec ord opn s)) = ms_tasks s"
  by (cases opn)
    (auto simp: RegisterModel_def CreateWorkflow_def UpdateWorkflow_def UpsertWorkflow_def meta_UpsertWorker_def Heartbeat_def
      IncrementWorkerLoad_def DecrementWorkerLoad_def CreateActor_def UpdateActor_def UpsertActor_def Let_def
      split: option.split sum.split)

lemma finite_requeue_all: "finite (dom m) \<Longrightarrow> finite (dom (requeue_all now ms m))"
  by (rule finite_subset [of _ "dom m"]) (auto simp: requeue_all_def split: if_splits)

lemma requeue_all_step: "m i = Some t \<Longrightarrow> \<exists>t'. requeue_all now ms m i = Some t' \<and> lease_step i opn t t'"
  by (auto simp: requeue_all_def due_ids_def intro: keeps requeues)

lemma store_exec_step:
  assumes "enumerates ord" "finite (dom (ms_tasks s))" "\<not> creates i opn" "ms_tasks s i = Some t"
  shows "\<exists>t'. ms_tasks (fst (store_exec ord opn s)) i = Some t' \<and> lease_step i opn t t'"
proof (cases opn)
  case (OpCreateTask u k now)
  then show ?thesis using assms(3,4) keeps
    by (auto simp: CreateTask_def Let_def stamp_new_def case_prod_beta split: option.split)
next
  case (OpLeaseTask j w now)
  then show ?thesis using assms(4) leases [of t i w now] keeps
    by (cases "j = i") (auto simp: LeaseTask_def Let_def isTerminalTaskStatus_def case_prod_beta split: option.split)
next
  case (OpRequeueExpiredRunningTasks a now)
  show ?thesis
  proof (cases "a > 0")
    case True
    have "map_order (ms_tasks s) (ord (dom (ms_tasks s)))" by (rule order_dom [OF assms(1,2)])
    from RequeueExpired_tasks(1) [OF this True, of now] requeue_all_step [of "ms_tasks s" i t, OF assms(4)] show ?thesis
      by (simp add: OpRequeueExpiredRunningTasks case_prod_beta)
  qed (use assms(4) keeps in \<open>auto simp: OpRequeueExpiredRunningTasks RequeueExpiredRunningTasks_def\<close>)
next
  case (OpRequeueTaskIfLeaseExpired j e a now)
  then show ?thesis using assms(4) requeues [of t i opn now] keeps [of i opn t]
    by (cases "j = i") (auto simp: RequeueTaskIfLeaseExpired_def case_prod_beta split: option.split)
next
  case (OpCompleteTask j w e st res err now)
  then show ?thesis using assms(4) completes [of t w e i st res err now] keeps [of i opn t]
    by (cases "j = i") (auto simp: CompleteTask_def Let_def case_prod_beta split: option.split)
qed (use assms(4) keeps exec_other_tasks in \<open>auto simp del: store_exec.simps\<close>)

lemma store_exec_finite:
  assumes "enumerates ord" "finite (dom (ms_tasks s))"
  shows "finite (dom (ms_tasks (fst (store_exec ord opn s))))"
proof (cases "writes_tasks opn")
  case True
  note o = order_dom [OF assms]
  have "finite (dom (ms_tasks (fst (RequeueExpiredRunningTasks (ord (dom (ms_tasks s))) a now s))))" for a now
    using RequeueExpired_tasks(1) [OF o, of a now] assms(2) finite_requeue_all
    by (cases "a > 0") (simp_all add: RequeueExpiredRunningTasks_def [of _ a])
  with True assms(2) show ?thesis
    by (cases opn) (auto simp: CreateTask_def LeaseTask_def RequeueTaskIfLeaseExpired_def CompleteTask_def
        Let_def case_prod_beta split: option.split)
qed (use assms(2) exec_other_tasks in simp)

definition ref_inv :: "key_order \<Rightarrow> memory_store \<Rightarrow> bool" where
  "ref_inv ord s \<longleftrightarrow> enumerates ord \<and> finite (dom (ms_tasks s))"

definition v2_inv :: "key_order \<Rightarrow> memory_store_v2 \<Rightarrow> bool" where
  "v2_inv ord s \<longleftrightarrow> enumerates ord \<and> store_inv s"

definition v2_record :: "memory_store_v2 \<Rightarrow> string \<rightharpoonup> task" where
  "v2_record s = shard_get (v2_tasks s)"

definition v2_ok :: "meta_op \<Rightarrow> memory_store_v2 \<Rightarrow> bool" where
  "v2_ok opn s = op_ok opn (store_abs s)"

interpretation ref: lease_store "store_exec ord" ms_tasks "ref_inv ord" "\<lambda>_ _. True" for ord
  by unfold_locales
    (auto simp: ref_inv_def store_exec_finite LeaseTask_def CompleteTask_def ValidateTaskLease_def isTerminalTaskStatus_def Let_def
      intro: store_exec_step simp del: store_exec.simps(1-4,7,8,10-))

lemma v2_record_abs: "v2_record s = ms_tasks (store_abs s)"
  by (simp add: v2_record_def store_abs_tasks)

lemma v2_record_exec:
  assumes "v2_inv ord s" "v2_ok opn s"
  shows "v2_record (fst (store_exec_v2 ord opn s)) = ms_tasks (fst (store_exec ord opn (store_abs s)))"
    "v2_inv ord (fst (store_exec_v2 ord opn s))" "snd (store_exec_v2 ord opn s) = snd (store_exec ord opn (store_abs s))"
  using store_exec_refines [of s ord ord opn] assms
  by (simp_all add: v2_inv_def v2_ok_def exec_refines_def v2_record_def store_abs_tasks(1) [symmetric])

lemma v2_inv_ref: "v2_inv ord s \<Longrightarrow> ref_inv ord (store_abs s)"
  by (simp add: v2_inv_def ref_inv_def store_inv_def task_inv_def store_abs_tasks)

interpretation v2: lease_store "store_exec_v2 ord" v2_record "v2_inv ord" v2_ok for ord
proof (unfold_locales, goal_cases)
  case (2 s opn i t)
  moreover from this have "ms_tasks (store_abs s) i = Some t" by (simp add: v2_record_abs)
  ultimately show ?case using ref.rec_exec [OF v2_inv_ref, of ord s i opn t] by (simp add: v2_record_exec)
next
  case (3 s i w now t)
  moreover from this have "ms_tasks (store_abs s) i = Some t" by (simp add: v2_record_abs)
  ultimately show ?case using ref.lease_answer [OF v2_inv_ref, of ord s i t w now]
    by (simp add: v2_record_exec del: store_exec.simps store_exec_v2.simps)
qed (auto simp: v2_record_exec v2_record_def tasks_complete_def complete_shard_def run_job_def tasks_validateLease_def)

text \<open>
  C7. Leases are fencing tokens: once a task has been leased again, the worker of an earlier lease
  (epoch at most the one before) can neither complete it nor pass a lease check, whatever operations
  other than creating the task anew come in between: both calls leave the store as it is and answer
  with a stale-lease error, or, when the task has finished meanwhile, with the result that was stored.\<close>
theorem stale_lease_fenced:
  assumes "enumerates ord" and "store_inv s" and "shard_get (v2_tasks s) i = Some t" "\<not> isTerminalTaskStatus (tk_Status t)"
    and "clock_ok n2" and "s1 = fst (store_exec_v2 ord (OpLeaseTask i w2 n2) s)"
    and "run_ok v2_ok (store_exec_v2 ord) ops s1" and "\<forall>opn \<in> set ops. \<not> creates i opn"
    and "e \<le> tk_TaskLeaseEpoch t" and "unat (tk_TaskLeaseEpoch t) + length ops + 1 < 2 ^ 64"
    and "s2 = fst (run_store (store_exec_v2 ord) ops s1)"
  shows "\<exists>t2. shard_get (v2_tasks s2) i = Some t2
    \<and> store_exec_v2 ord (OpCompleteTask i w e st res err now) s2 =
        (s2, ATaskResult (if isTerminalTaskStatus (tk_Status t2) then Inr t2 else Inl StaleLease))
    \<and> store_exec_v2 ord (OpValidateTaskLease i w e) s2 =
        (s2, ATaskResult (if isTerminalTaskStatus (tk_Status t2) then Inr t2 else Inl StaleLease))"
proof -
  have inv: "v2_inv ord s" using assms(1,2) by (simp add: v2_inv_def)
  have rec: "v2_record s i = Some t" using assms(3) by (simp add: v2_record_def)
  have ok: "v2_ok (OpLeaseTask i w2 n2) s" using assms(5) by (simp add: v2_ok_def)
  show ?thesis
    using v2.fenced [OF inv rec assms(4) ok assms(7,8) [unfolded assms(6)] assms(9,10), of w st res err now]
    unfolding assms(11) assms(6) lease_refused_def by (simp only: v2_record_def)
qed

text \<open>
  C15. A task that has reached SUCCEEDED or FAILED keeps its result: no later sequence of operations
  other than creating a task of the same ID changes its record, and completing it again returns
  the stored result.\<close>
theorem terminal_task_final:
  assumes "enumerates ord" and "store_inv s" and "shard_get (v2_tasks s) i = Some t" "isTerminalTaskStatus (tk_Status t)"
    and "run_ok v2_ok (store_exec_v2 ord) ops s" and "\<forall>opn \<in> set ops. \<not> creates i opn"
    and "s' = fst (run_store (store_exec_v2 ord) ops s)"
  shows "shard_get (v2_tasks s') i = Some t
    \<and> store_exec_v2 ord (OpCompleteTask i w e st res err now) s' = (s', ATaskResult (Inr t))"
proof -
  have inv: "v2_inv ord s" using assms(1,2) by (simp add: v2_inv_def)
  have "v2_record s' i = Some t"
    using v2.terminal_frozen [OF inv assms(5,6) _ assms(4)] assms(3,7) by (simp add: v2_record_def)
  moreover have "v2_inv ord s'" using v2.run_inv [OF inv assms(5)] assms(7) by simp
  ultimately show ?thesis using v2.complete_terminal [of ord s' i t] assms(4) by (simp add: v2_record_def)
qed

subsection \<open>A concrete run\<close>

definition demo_prefix :: "meta_op list" where
  "demo_prefix = [OpCreateTask demo_task ''k'' 5, OpLeaseTask ''t'' ''w1'' 6]"

definition demo_meta :: "meta_op list \<Rightarrow> memory_store_v2" where
  "demo_meta ops = fst (run_store (store_exec_v2 sorted_list_of_set) ops NewMemoryStore)"

lemmas demo_eval = demo_prefix_def demo_task_def zero_task_def clock_ok_def is_i64_def CreateTask_def LeaseTask_def CompleteTask_def
  check_lease_def stamp_new_def leased_def completed_def NewLegacyMemoryStore_def Let_def

lemma demo_store_refines:
  assumes "run_ok op_ok (store_exec sorted_list_of_set) ops NewLegacyMemoryStore"
  shows "store_inv (demo_meta ops)"
    "shard_get (v2_tasks (demo_meta ops)) = ms_tasks (fst (run_store (store_exec sorted_list_of_set) ops NewLegacyMemoryStore))"
  using run_store_refines [OF enumerates_sorted enumerates_sorted NewMemoryStore_inv(1)] assms
  by (simp_all add: NewMemoryStore_inv(2) exec_refines_def demo_meta_def store_abs_tasks(1) [symmetric])

theorem stale_lease_fenced_witness:
  "\<exists>s2 t2. shard_get (v2_tasks s2) ''t'' = Some t2
    \<and> store_exec_v2 sorted_list_of_set (OpCompleteTask ''t'' ''w1'' 1 TASK_STATUS_SUCCEEDED [] '''' 9) s2 =
        (s2, ATaskResult (if isTerminalTaskStatus (tk_Status t2) then Inr t2 else Inl StaleLease))
    \<and> store_exec_v2 sorted_list_of_set (OpValidateTaskLease ''t'' ''w1'' 1) s2 =
        (s2, ATaskResult (if isTerminalTaskStatus (tk_Status t2) then Inr t2 else Inl StaleLease))"
proof -
  let ?t = "leased (stamp_new demo_task ''k'' 5) ''w1'' 6"
  have ok: "run_ok op_ok (store_exec sorted_list_of_set) demo_prefix NewLegacyMemoryStore" by (simp add: demo_eval)
  have rec: "shard_get (v2_tasks (demo_meta demo_prefix)) ''t'' = Some ?t"
    unfolding demo_store_refines(2) [OF ok] by (simp add: demo_eval)
  show ?thesis
    by (rule exI, rule stale_lease_fenced [OF enumerates_sorted demo_store_refines(1) [OF ok] rec, of 7 _ "''w2''" "[OpGetTask ''t'']"])
       (simp_all add: demo_eval isTerminalTaskStatus_def v2_ok_def)
qed

theorem terminal_task_final_witness:
  "\<exists>s t. isTerminalTaskStatus (tk_Status t) \<and> shard_get (v2_tasks s) ''t'' = Some t
    \<and> store_exec_v2 sorted_list_of_set (OpCompleteTask ''t'' ''w2'' 9 TASK_STATUS_FAILED [] '''' 9) s = (s, ATaskResult (Inr t))"
proof -
  let ?ops = "demo_prefix @ [OpCompleteTask ''t'' ''w1'' 1 TASK_STATUS_SUCCEEDED [1] '''' 8]"
  let ?t = "completed (leased (stamp_new demo_task ''k'' 5) ''w1'' 6) ''w1'' TASK_STATUS_SUCCEEDED [1] '''' 8"
  have ok: "run_ok op_ok (store_exec sorted_list_of_set) ?ops NewLegacyMemoryStore" by (simp add: demo_eval)
  have rec: "shard_get (v2_tasks (demo_meta ?ops)) ''t'' = Some ?t"
    unfolding demo_store_refines(2) [OF ok] by (simp add: demo_eval)
  have t: "isTerminalTaskStatus (tk_Status ?t)" by (simp add: demo_eval isTerminalTaskStatus_def)
  have "shard_get (v2_tasks (fst (run_store (store_exec_v2 sorted_list_of_set) [OpListTasks] (demo_meta ?ops)))) ''t'' = Some ?t
    \<and> store_exec_v2 sorted_list_of_set (OpCompleteTask ''t'' ''w2'' 9 TASK_STATUS_FAILED [] '''' 9)
        (fst (run_store (store_exec_v2 sorted_list_of_set) [OpListTasks] (demo_meta ?ops)))
      = (fst (run_store (store_exec_v2 sorted_list_of_set) [OpListTasks] (demo_meta ?ops)), ATaskResult (Inr ?t))"
    by (rule terminal_task_final [OF enumerates_sorted demo_store_refines(1) [OF ok] rec t, of "[OpListTasks]"]) (simp_all add: v2_ok_def)
  with t show ?thesis by blast
qed

end
