(* ===== verification/Metadata_Race.thy ===== *)
theory Metadata_Race
  imports Metadata_Store
begin

text \<open>
  Interleavings of the sharded store (internal/metadata/memory_v2.go). An operation changes the
  record under the shard lock, releases it, and then runs \<open>replaceTaskIndexes\<close> in three further
  critical sections: the index sets, the removal from the expiry queue, the insertion into it. A
  step of the relation below is one critical section of one goroutine.
\<close>

subsection \<open>Critical sections\<close>

datatype index_action = IndexSets "task option" task | Untrack "task option" task | Track task

fun run_action :: "index_action \<Rightarrow> task_store \<Rightarrow> task_store" where
  "run_action (IndexSets p c) s = replace_index_sets p c s"
| "run_action (Untrack p c) s = untrack_previous p c s"
| "run_action (Track c) s = track_current c s"

definition job_actions :: "task option \<Rightarrow> task \<Rightarrow> index_action list" where
  "job_actions p c = [IndexSets p c, Untrack p c, Track c]"

text \<open>Run without interruption, the sections are \<open>replaceTaskIndexes\<close>.\<close>

lemma job_actions_sequential: "fold run_action (job_actions p c) s = replaceTaskIndexes p c s"
  by (simp add: job_actions_def replaceTaskIndexes_def)

record race_state =
  rs_store :: task_store
  rs_pending :: "index_action list list"

inductive shard_section :: "task_store \<Rightarrow> task_store \<Rightarrow> task option \<Rightarrow> task \<Rightarrow> bool" where
  create: "create_shard tk key now s = (s', r, Some (p, c)) \<Longrightarrow> shard_section s s' p c"
| lease: "lease_shard i w now s = (s', r, Some (p, c)) \<Longrightarrow> shard_section s s' p c"
| requeue: "requeue_shard i e a now s = (s', r', Some (p, c)) \<Longrightarrow> shard_section s s' p c"
| complete: "complete_shard i w e st res err now s = (s', r, Some (p, c)) \<Longrightarrow> shard_section s s' p c"

inductive race_step :: "race_state \<Rightarrow> race_state \<Rightarrow> bool" where
  shard: "shard_section (rs_store x) s' p c \<Longrightarrow>
    race_step x \<lparr>rs_store = s', rs_pending = rs_pending x @ [job_actions p c]\<rparr>"
| index: "k < length (rs_pending x) \<Longrightarrow> rs_pending x ! k = a # rest \<Longrightarrow>
    race_step x \<lparr>rs_store = run_action a (rs_store x), rs_pending = (rs_pending x)[k := rest]\<rparr>"
| popped: "popRunningBefore cutoff (rs_store x) = (s', Some d) \<Longrightarrow>
    race_step x \<lparr>rs_store = s', rs_pending = rs_pending x\<rparr>"

abbreviation race_start :: "task_store \<Rightarrow> race_state" where
  "race_start s \<equiv> \<lparr>rs_store = s, rs_pending = []\<rparr>"

abbreviation race_reaches :: "race_state \<Rightarrow> race_state \<Rightarrow> bool" where
  "race_reaches \<equiv> race_step\<^sup>*\<^sup>*"

definition quiescent :: "race_state \<Rightarrow> bool" where
  "quiescent x \<longleftrightarrow> (\<forall>as \<in> set (rs_pending x). as = [])"

subsection \<open>What survives every interleaving\<close>

lemma run_action_shards [simp]: "ts_shards (run_action a s) = ts_shards s"
  by (cases a) (auto simp: replace_index_sets_def add_current_def remove_previous_def untrack_previous_def untrackRunning_def
      track_current_def trackRunning_def Let_def split: option.split)

lemma shard_get_action [simp]: "shard_get (run_action a s) = shard_get s"
  by (simp add: shard_get_def [abs_def])

fun listed_by :: "index_action \<Rightarrow> string set" where
  "listed_by (IndexSets p c) = {tk_TaskID c}"
| "listed_by _ = {}"

lemma run_action_all: "ts_allTasks (run_action a s) = ts_allTasks s \<union> listed_by a"
  by (cases a) (auto simp: replace_index_sets_def add_current_def remove_previous_def untrack_previous_def untrackRunning_def
      track_current_def trackRunning_def Let_def split: option.split)

definition shards_ok :: "task_store \<Rightarrow> bool" where
  "shards_ok s \<longleftrightarrow> length (ts_shards s) = memoryTaskShardCount \<and> keyed (shard_get s) \<and> finite (dom (shard_get s))"

lemma shard_section_put:
  assumes "shard_section s s' p c" "shards_ok s"
  shows "s' = shard_put (tk_TaskID c) c s"
  using assms(1)
proof cases
  case (create tk key now r)
  then show ?thesis by (auto simp: create_shard_def Let_def)
next
  case (lease i w now r)
  then show ?thesis using assms(2)
    by (auto simp: lease_shard_def shards_ok_def keyed_def leased_def Let_def split: option.splits if_splits)
next
  case (requeue i e a now r)
  then show ?thesis using assms(2)
    by (auto simp: requeue_shard_def shards_ok_def keyed_def requeued_stored_def Let_def split: option.splits if_splits)
next
  case (complete i w e st res err now r)
  then show ?thesis using assms(2)
    by (auto simp: complete_shard_def shards_ok_def keyed_def completed_def Let_def split: option.splits if_splits)
qed

lemma shards_ok_put: "shards_ok s \<Longrightarrow> tk_TaskID c = i \<Longrightarrow> shards_ok (shard_put i c s)"
  using shard_get_put [of s i c] by (auto simp: shards_ok_def keyed_def)

text \<open>A task is listed, or a goroutine is about to list it.\<close>

definition to_list :: "index_action list list \<Rightarrow> string set" where
  "to_list P = (\<Union>as \<in> set P. \<Union>a \<in> set as. listed_by a)"

definition race_inv :: "race_state \<Rightarrow> bool" where
  "race_inv x \<longleftrightarrow> shards_ok (rs_store x) \<and> dom (shard_get (rs_store x)) = ts_allTasks (rs_store x) \<union> to_list (rs_pending x)"

lemma to_list_add: "to_list (P @ [job_actions p c]) = insert (tk_TaskID c) (to_list P)"
  by (auto simp: to_list_def job_actions_def)

lemma to_list_drop:
  assumes "k < length P" "P ! k = a # rest"
  shows "to_list P = to_list (P[k := rest]) \<union> listed_by a"
proof -
  have P: "P = take k P @ (a # rest) # drop (Suc k) P" using assms by (metis id_take_nth_drop)
  have "P[k := rest] = take k P @ rest # drop (Suc k) P" using assms(1) by (rule upd_conv_take_nth_drop)
  then show ?thesis by (subst P) (auto simp: to_list_def)
qed

lemma race_inv_step: "race_step x y \<Longrightarrow> race_inv x \<Longrightarrow> race_inv y"
proof (induction rule: race_step.induct)
  case (shard x s' p c)
  have ok: "shards_ok (rs_store x)" using shard.prems by (simp add: race_inv_def)
  have put: "s' = shard_put (tk_TaskID c) c (rs_store x)" by (rule shard_section_put [OF shard.hyps ok])
  have "shard_get s' = (shard_get (rs_store x))(tk_TaskID c \<mapsto> c)"
    unfolding put by (rule shard_get_put) (use ok in \<open>simp add: shards_ok_def\<close>)
  moreover have "ts_allTasks s' = ts_allTasks (rs_store x)" by (simp add: put shard_put_def Let_def)
  ultimately show ?case using shard.prems shards_ok_put [OF ok refl, of c] by (auto simp: race_inv_def to_list_add put)
next
  case (index k x a rest)
  have "shards_ok (run_action a (rs_store x)) = shards_ok (rs_store x)" by (simp add: shards_ok_def)
  then show ?case using index.prems to_list_drop [OF index.hyps] by (auto simp: race_inv_def run_action_all)
next
  case (popped cutoff x s' d)
  then have "ts_shards s' = ts_shards (rs_store x)" "ts_allTasks s' = ts_allTasks (rs_store x)"
    by (auto simp: popRunningBefore_def split: prod.splits)
  moreover from this have "shard_get s' = shard_get (rs_store x)" by (simp add: shard_get_def [abs_def])
  ultimately have "race_inv \<lparr>rs_store = s', rs_pending = rs_pending x\<rparr> = race_inv x" by (simp only: race_inv_def shards_ok_def race_state.simps)
  then show ?case using popped.prems by simp
qed

lemma race_inv_reaches: "race_reaches x y \<Longrightarrow> race_inv x \<Longrightarrow> race_inv y"
  by (induction rule: rtranclp_induct) (auto intro: race_inv_step)

lemma task_inv_race: "task_inv s \<Longrightarrow> race_inv (race_start s)"
  by (auto simp: task_inv_def race_inv_def shards_ok_def sets_indexed_def to_list_def)

lemma tasks_get_id: "tasks_get i s = shard_get s i"
  by (simp add: tasks_get_def)

subsection \<open>Listings\<close>

text \<open>
  \<open>list\<close> and \<open>listByStatus\<close> take a snapshot of an index under \<open>indexMu\<close> and then fetch the tasks one
  by one, each under its shard's lock. Other critical sections run between any two of these. The
  optional status is that of \<open>listByStatus\<close>; \<open>list\<close> has none.
\<close>

record listing =
  ls_status :: "task_status option"
  ls_ids :: "string list"
  ls_out :: "task list"

definition start_listing :: "task_status option \<Rightarrow> task_store \<Rightarrow> listing" where
  "start_listing st s = \<lparr>ls_status = st,
     ls_ids = (case st of None \<Rightarrow> allIndexedTaskIDs s | Some status \<Rightarrow> indexedTaskIDsByStatus status s), ls_out = []\<rparr>"

definition wanted :: "task_status option \<Rightarrow> task \<Rightarrow> bool" where
  "wanted st t \<longleftrightarrow> (case st of None \<Rightarrow> True | Some status \<Rightarrow> tk_Status t = status)"

lemma wanted_iff: "wanted st t \<longleftrightarrow> (\<forall>status. st = Some status \<longrightarrow> tk_Status t = status)"
  by (cases st) (simp_all add: wanted_def)

definition fetch_next :: "task_store \<Rightarrow> listing \<Rightarrow> listing" where
  "fetch_next s l =
     (case ls_ids l of
        [] \<Rightarrow> l
      | i # rest \<Rightarrow> l\<lparr>ls_ids := rest, ls_out := ls_out l @
          (case tasks_get i s of None \<Rightarrow> [] | Some t \<Rightarrow> if wanted (ls_status l) t then [t] else [])\<rparr>)"

inductive listing_step :: "race_state \<times> listing \<Rightarrow> race_state \<times> listing \<Rightarrow> bool" where
  other: "race_step x y \<Longrightarrow> listing_step (x, l) (y, l)"
| fetch: "ls_ids l \<noteq> [] \<Longrightarrow> listing_step (x, l) (x, fetch_next (rs_store x) l)"

abbreviation listing_reaches :: "race_state \<times> listing \<Rightarrow> race_state \<times> listing \<Rightarrow> bool" where
  "listing_reaches \<equiv> listing_step\<^sup>*\<^sup>*"

text \<open>Run without interruption, the sections are the listings of the store.\<close>

lemma fetch_all:
  "(fetch_next s ^^ length ids) \<lparr>ls_status = st, ls_ids = ids, ls_out = out\<rparr> =
     \<lparr>ls_status = st, ls_ids = [], ls_out = out @ filter (wanted st) (List.map_filter (\<lambda>i. tasks_get i s) ids)\<rparr>"
proof (induction ids arbitrary: out)
  case (Cons i ids)
  have step: "fetch_next s \<lparr>ls_status = st, ls_ids = i # ids, ls_out = out\<rparr> =
      \<lparr>ls_status = st, ls_ids = ids, ls_out = out @ filter (wanted st) (List.map_filter (\<lambda>i. tasks_get i s) [i])\<rparr>"
    by (simp add: fetch_next_def List.map_filter_simps split: option.split)
  show ?case
    by (simp add: funpow_Suc_right step Cons.IH List.map_filter_simps split: option.split del: funpow.simps)
qed (simp add: List.map_filter_simps)

lemma listing_sequential:
  "ls_out ((fetch_next s ^^ length (allIndexedTaskIDs s)) (start_listing None s)) = tasks_list s"
  "ls_out ((fetch_next s ^^ length (indexedTaskIDsByStatus status s)) (start_listing (Some status) s)) =
     tasks_listByStatus status s"
  by (simp_all add: start_listing_def fetch_all tasks_list_def tasks_listByStatus_def wanted_def [abs_def])

lemma fetches_reach: "listing_reaches (x, l) (x, (fetch_next (rs_store x) ^^ length (ls_ids l)) l)"
proof (induction "length (ls_ids l)" arbitrary: l)
  case (Suc n)
  then obtain i rest where ids: "ls_ids l = i # rest" by (cases "ls_ids l") auto
  let ?l = "fetch_next (rs_store x) l"
  have n: "n = length (ls_ids ?l)" using Suc.hyps(2) by (simp add: fetch_next_def ids)
  have "listing_step (x, l) (x, ?l)" by (rule listing_step.fetch) (simp add: ids)
  moreover have "listing_reaches (x, ?l) (x, (fetch_next (rs_store x) ^^ length (ls_ids l)) l)"
    using Suc.hyps(1) [OF n] n by (simp add: funpow_swap1 flip: Suc.hyps(2))
  ultimately show ?case by (rule converse_rtranclp_into_rtranclp)
qed simp

text \<open>Records never disappear.\<close>

lemma race_step_dom: "race_step x y \<Longrightarrow> race_inv x \<Longrightarrow> dom (shard_get (rs_store x)) \<subseteq> dom (shard_get (rs_store y))"
proof (induction rule: race_step.induct)
  case (shard x s' p c)
  have ok: "shards_ok (rs_store x)" using shard.prems by (simp add: race_inv_def)
  have "shard_get s' = (shard_get (rs_store x))(tk_TaskID c \<mapsto> c)"
    unfolding shard_section_put [OF shard.hyps ok] by (rule shard_get_put) (use ok in \<open>simp add: shards_ok_def\<close>)
  then show ?case by auto
next
  case (popped cutoff x s' d)
  then have "ts_shards s' = ts_shards (rs_store x)" by (auto simp: popRunningBefore_def split: prod.splits)
  then show ?case by (simp add: shard_get_def [abs_def])
qed simp

lemma race_reaches_dom:
  "race_reaches x y \<Longrightarrow> race_inv x \<Longrightarrow> dom (shard_get (rs_store x)) \<subseteq> dom (shard_get (rs_store y))"
proof (induction rule: rtranclp_induct)
  case (step y z)
  then show ?case using race_step_dom [OF step.hyps(2) race_inv_reaches [OF step.hyps(1) step.prems]] by auto
qed simp

text \<open>What holds while a listing that began in state \<open>x0\<close> is under way.\<close>

definition seen :: "race_state \<Rightarrow> task_status option \<Rightarrow> race_state \<Rightarrow> task \<Rightarrow> bool" where
  "seen x0 st x t \<longleftrightarrow> (\<exists>y. race_reaches x0 y \<and> race_reaches y x \<and>
     shard_get (rs_store y) (tk_TaskID t) = Some t \<and> wanted st t)"

definition listing_inv :: "race_state \<Rightarrow> task_status option \<Rightarrow> race_state \<times> listing \<Rightarrow> bool" where
  "listing_inv x0 st = (\<lambda>(x, l). race_reaches x0 x \<and> ls_status l = st \<and>
     sorted_wrt (<) (map tk_TaskID (ls_out l) @ ls_ids l) \<and> (\<forall>t \<in> set (ls_out l). seen x0 st x t) \<and>
     (st = None \<longrightarrow> set (allIndexedTaskIDs (rs_store x0)) \<inter> dom (shard_get (rs_store x0)) \<subseteq> tk_TaskID ` set (ls_out l) \<union> set (ls_ids l)))"

lemma seen_later: "seen x0 st x t \<Longrightarrow> race_step x y \<Longrightarrow> seen x0 st y t"
  unfolding seen_def by (meson rtranclp.rtrancl_into_rtrancl)

lemma listing_inv_start: "listing_inv x0 st (x0, start_listing st (rs_store x0))"
  by (auto simp: listing_inv_def start_listing_def allIndexedTaskIDs_def indexedTaskIDsByStatus_def split: option.split)

lemma listing_inv_step:
  assumes "listing_step p q" "listing_inv x0 st p" "race_inv x0"
  shows "listing_inv x0 st q"
  using assms(1)
proof cases
  case (other x y l)
  then show ?thesis using assms(2) by (auto simp: listing_inv_def intro: seen_later)
next
  case (fetch l x)
  obtain i rest where ids: "ls_ids l = i # rest" using fetch(3) by (cases "ls_ids l") auto
  have r: "race_reaches x0 x" and st: "ls_status l = st" and srt: "sorted_wrt (<) (map tk_TaskID (ls_out l) @ i # rest)"
    and sn: "\<forall>t \<in> set (ls_out l). seen x0 st x t"
    and all: "st = None \<Longrightarrow> set (allIndexedTaskIDs (rs_store x0)) \<inter> dom (shard_get (rs_store x0)) \<subseteq>
      insert i (tk_TaskID ` set (ls_out l) \<union> set rest)"
    using assms(2) by (auto simp: listing_inv_def fetch(1) ids)
  have inv: "race_inv x" by (rule race_inv_reaches [OF r assms(3)])
  show ?thesis
  proof (cases "shard_get (rs_store x) i")
    case None
    then have "i \<notin> dom (shard_get (rs_store x0))" using race_reaches_dom [OF r assms(3)] by auto
    then have "st = None \<Longrightarrow> set (allIndexedTaskIDs (rs_store x0)) \<inter> dom (shard_get (rs_store x0)) \<subseteq>
        tk_TaskID ` set (ls_out l) \<union> set rest" using all by blast
    then show ?thesis using r st srt sn None
      by (simp add: listing_inv_def fetch(2) fetch_next_def ids tasks_get_id sorted_wrt_append)
  next
    case (Some t)
    have id: "tk_TaskID t = i" using inv Some by (auto simp: race_inv_def shards_ok_def keyed_def)
    have "wanted st t \<Longrightarrow> seen x0 st x t" using r Some id unfolding seen_def by blast
    moreover have "st = None \<Longrightarrow> wanted st t" by (simp add: wanted_def)
    ultimately show ?thesis using r st srt sn all id Some
      by (auto simp: listing_inv_def fetch(2) fetch_next_def ids tasks_get_id sorted_wrt_append)
  qed
qed

lemma listing_inv_reaches:
  assumes "listing_reaches (x0, start_listing st (rs_store x0)) q" "race_inv x0"
  shows "listing_inv x0 st q"
  using assms(1)
  by (induction rule: rtranclp_induct) (auto intro: listing_inv_start listing_inv_step assms(2))

text \<open>
  C16. A listing that runs concurrently with other operations, all interleaved critical section by
  critical section, returns each task at most once, in the order of the identifiers; each record it
  returns was stored, with the status asked for, at some moment while the listing ran; and a
  listing of all tasks returns every task that was in the index when it began, which is every
  stored task except those an operation has stored but not yet added to the index.\<close>
theorem listings_survive_races:
  assumes "task_inv s" and "race_reaches (race_start s) x0"
    and "listing_reaches (x0, start_listing st (rs_store x0)) (x, l)" and "ls_ids l = []"
  shows "sorted_wrt (<) (map tk_TaskID (ls_out l)) \<and>
    (\<forall>t \<in> set (ls_out l). \<exists>y. race_reaches x0 y \<and> race_reaches y x \<and>
       shard_get (rs_store y) (tk_TaskID t) = Some t \<and> (\<forall>status. st = Some status \<longrightarrow> tk_Status t = status)) \<and>
    (st = None \<longrightarrow> ts_allTasks (rs_store x0) \<subseteq> tk_TaskID ` set (ls_out l) \<and>
       dom (shard_get (rs_store x0)) \<subseteq> ts_allTasks (rs_store x0) \<union> to_list (rs_pending x0))"
proof -
  have inv: "race_inv x0" by (rule race_inv_reaches [OF assms(2) task_inv_race [OF assms(1)]])
  then have dom: "dom (shard_get (rs_store x0)) = ts_allTasks (rs_store x0) \<union> to_list (rs_pending x0)"
    and "finite (ts_allTasks (rs_store x0))"
    by (auto simp: race_inv_def shards_ok_def)
  then have ids: "set (allIndexedTaskIDs (rs_store x0)) = ts_allTasks (rs_store x0)" by (simp add: allIndexedTaskIDs_def)
  from listing_inv_reaches [OF assms(3) inv] have
    "sorted_wrt (<) (map tk_TaskID (ls_out l))" "\<forall>t \<in> set (ls_out l). seen x0 st x t"
    "st = None \<Longrightarrow> ts_allTasks (rs_store x0) \<inter> dom (shard_get (rs_store x0)) \<subseteq> tk_TaskID ` set (ls_out l)"
    by (auto simp: listing_inv_def assms(4) ids)
  then show ?thesis using dom unfolding seen_def wanted_iff by blast
qed

subsection \<open>What does not\<close>

text \<open>
  A requeue and a lease of the same task, with the index update of the requeue delayed until after
  that of the lease.
\<close>

lemma untrack_track_queue:
  assumes "dq_inv (ts_running s)" "tk_Status p = TASK_STATUS_RUNNING" "tk_Status c \<noteq> TASK_STATUS_RUNNING"
  shows "dq_lookup (ts_running (track_current c (untrack_previous (Some p) c s))) (tk_TaskID p) = None"
  using assms by (simp add: track_current_def untrack_previous_def untrackRunning_def dq.lookup_remove)

lemma index_sets_lose_running:
  assumes "tk_Status p = TASK_STATUS_RUNNING" "tk_Status c = TASK_STATUS_QUEUED" "tk_TaskID c = tk_TaskID p"
  shows "tk_TaskID p \<notin> index_at (ts_byStatus (replace_index_sets (Some p) c s)) TASK_STATUS_RUNNING"
  using assms
  by (simp add: replace_index_sets_def add_current_def remove_previous_def indexedTaskStatus_def Let_def index_at_add index_at_remove)

lemma track_byStatus [simp]:
  "ts_byStatus (track_current c s) = ts_byStatus s" "ts_byStatus (untrack_previous p c s) = ts_byStatus s"
  by (auto simp: track_current_def trackRunning_def untrack_previous_def untrackRunning_def split: option.split)

lemma track_inv [simp]:
  "dq_inv (ts_running s) \<Longrightarrow> dq_inv (ts_running (track_current c s))"
  "dq_inv (ts_running s) \<Longrightarrow> dq_inv (ts_running (untrack_previous p c s))"
  by (auto simp: track_current_def trackRunning_def untrack_previous_def untrackRunning_def dq.inv_upsert dq.inv_remove split: option.split)

lemma shard_get_actions [simp]: "shard_get (fold run_action as s) = shard_get s"
  by (induction as arbitrary: s) simp_all

text \<open>The remaining sections of one goroutine, run to the end.\<close>

lemma run_pending:
  assumes "k < length P"
  shows "race_reaches \<lparr>rs_store = s, rs_pending = P[k := as]\<rparr> \<lparr>rs_store = fold run_action as s, rs_pending = P[k := []]\<rparr>"
proof (induction as arbitrary: s)
  case (Cons a as)
  have "race_step \<lparr>rs_store = s, rs_pending = P[k := a # as]\<rparr> \<lparr>rs_store = run_action a s, rs_pending = P[k := as]\<rparr>"
    using race_step.index [of k "\<lparr>rs_store = s, rs_pending = P[k := a # as]\<rparr>" a as] assms by simp
  with Cons.IH [of "run_action a s"] show ?case by (simp add: converse_rtranclp_into_rtranclp)
qed simp

text \<open>
  C36. The index updates of concurrent operations on one task are not ordered: an expired lease can
  be requeued and the task leased again so that, when all updates are done, the task is running
  with a valid lease but is in neither the index of running tasks nor the expiry queue, so that no
  later scan finds it.\<close>
theorem requeue_lease_race_loses_lease:
  assumes "task_inv s" and "shard_get s i = Some t" and "tk_Status t = TASK_STATUS_RUNNING"
    and "0 < maxAge" "i \<noteq> ''''" "tk_TaskLeaseEpoch t \<noteq> 0" "tk_TaskLeaseEpoch t + 1 \<noteq> 0"
    and "\<not> sub64 now (tk_UpdatedAtMs t) < duration_ms maxAge" and "w2 \<noteq> ''''"
  shows "\<exists>x t'. race_reaches (race_start s) x \<and> quiescent x \<and> shard_get (rs_store x) i = Some t'
    \<and> check_lease t' w2 (tk_TaskLeaseEpoch t') \<and> i \<notin> index_at (ts_byStatus (rs_store x)) TASK_STATUS_RUNNING
    \<and> dq_lookup (ts_running (rs_store x)) i = None"
proof -
  define q where "q = requeued_stored t now"
  define l where "l = leased q w2 n2"
  have id: "tk_TaskID t = i" "length (ts_shards s) = memoryTaskShardCount" "dq_inv (ts_running s)"
    using assms(1,2) by (simp_all add: task_inv_def keyed_def queue_indexed_def)
  have idq: "tk_TaskID q = i" "tk_Status q = TASK_STATUS_QUEUED" by (simp_all add: q_def requeued_stored_def id)
  define s1 where "s1 = shard_put i q s"
  define s2 where "s2 = shard_put i l s1"
  have get1: "shard_get s1 i = Some q" using id by (simp add: s1_def shard_get_put)
  have get2: "shard_get s2 i = Some l" using id by (simp add: s2_def s1_def shard_get_put)
  let ?A = "job_actions (Some t) q" and ?B = "job_actions (Some q) l"
  have "requeue_shard i (tk_TaskLeaseEpoch t) maxAge now s = (s1, (requeued_returned t now, True), Some (Some t, q))"
    using assms by (simp add: requeue_shard_def Let_def q_def s1_def)
  then have r1: "race_step (race_start s) \<lparr>rs_store = s1, rs_pending = [?A]\<rparr>"
    using race_step.shard [of "race_start s" s1 "Some t" q] shard_section.requeue by simp
  have "lease_shard i w2 n2 s1 = (s2, Inr l, Some (Some q, l))"
    using get1 idq by (simp add: lease_shard_def Let_def l_def s2_def isTerminalTaskStatus_def)
  then have r2: "race_step \<lparr>rs_store = s1, rs_pending = [?A]\<rparr> \<lparr>rs_store = s2, rs_pending = [?A, ?B]\<rparr>"
    using race_step.shard [of "\<lparr>rs_store = s1, rs_pending = [?A]\<rparr>" s2 "Some q" l] shard_section.lease by simp
  define s3 where "s3 = fold run_action ?B s2"
  define s4 where "s4 = fold run_action ?A s3"
  have r3: "race_reaches \<lparr>rs_store = s2, rs_pending = [?A, ?B]\<rparr> \<lparr>rs_store = s3, rs_pending = [?A, []]\<rparr>"
    using run_pending [of 1 "[?A, ?B]" s2 ?B] by (simp add: s3_def)
  have r4: "race_reaches \<lparr>rs_store = s3, rs_pending = [?A, []]\<rparr> \<lparr>rs_store = s4, rs_pending = [[], []]\<rparr>"
    using run_pending [of 0 "[?A, []]" s3 ?A] by (simp add: s4_def)
  have s4: "s4 = track_current q (untrack_previous (Some t) q (replace_index_sets (Some t) q s3))"
    by (simp add: s4_def job_actions_def)
  have inv3: "dq_inv (ts_running s3)" using id by (simp add: s3_def job_actions_def s2_def s1_def)
  have "dq_lookup (ts_running s4) (tk_TaskID t) = None"
    unfolding s4 by (rule untrack_track_queue) (use inv3 assms(3) idq in simp_all)
  moreover have "tk_TaskID t \<notin> index_at (ts_byStatus s4) TASK_STATUS_RUNNING"
    unfolding s4 using index_sets_lose_running [OF assms(3) idq(2), of s3] idq id by simp
  moreover have "shard_get s4 i = Some l"
    using get2 by (simp add: s4_def s3_def)
  moreover have "check_lease l w2 (tk_TaskLeaseEpoch l)"
    using assms(7,9) by (simp add: check_lease_def l_def q_def leased_def requeued_stored_def)
  moreover have "race_reaches (race_start s) \<lparr>rs_store = s4, rs_pending = [[], []]\<rparr>"
    using r1 r2 r3 r4 by (meson converse_rtranclp_into_rtranclp rtranclp_trans)
  ultimately show ?thesis
    using id(1) by (intro exI [of _ "\<lparr>rs_store = s4, rs_pending = [[], []]\<rparr>"] exI [of _ l]) (simp add: quiescent_def)
qed

lemma demo_running:
  "task_inv (v2_tasks (demo_meta demo_prefix))"
  "shard_get (v2_tasks (demo_meta demo_prefix)) ''t'' = Some (leased (stamp_new demo_task ''k'' 5) ''w1'' 6)"
proof -
  have ok: "run_ok op_ok (store_exec sorted_list_of_set) demo_prefix NewLegacyMemoryStore" by (simp add: demo_eval)
  show "task_inv (v2_tasks (demo_meta demo_prefix))" by (rule store_invD(1) [OF demo_store_refines(1) [OF ok]])
  show "shard_get (v2_tasks (demo_meta demo_prefix)) ''t'' = Some (leased (stamp_new demo_task ''k'' 5) ''w1'' 6)"
    unfolding demo_store_refines(2) [OF ok] by (simp add: demo_eval)
qed

text \<open>A listing of the queued tasks, with a creation between its snapshot and its first fetch.\<close>

theorem listings_survive_races_witness:
  "\<exists>x l. listing_reaches (race_start (v2_tasks (demo_meta demo_prefix)),
       start_listing None (v2_tasks (demo_meta demo_prefix))) (x, l) \<and> ls_ids l = [] \<and> rs_pending x \<noteq> [] \<and>
     ''t'' \<in> tk_TaskID ` set (ls_out l)"
proof -
  let ?s = "v2_tasks (demo_meta demo_prefix)" and ?c = "stamp_new (demo_task\<lparr>tk_TaskID := ''u''\<rparr>) '''' 7"
  let ?l = "start_listing None ?s"
  let ?x = "\<lparr>rs_store = shard_put ''u'' ?c ?s, rs_pending = [job_actions (shard_get ?s ''u'') ?c]\<rparr>"
  let ?m = "(fetch_next (rs_store ?x) ^^ length (ls_ids ?l)) ?l"
  have "create_shard (demo_task\<lparr>tk_TaskID := ''u''\<rparr>) '''' 7 ?s = (shard_put ''u'' ?c ?s, ?c, Some (shard_get ?s ''u'', ?c))"
    by (simp add: create_shard_def Let_def stamp_new_def)
  then have "race_step (race_start ?s) ?x"
    using race_step.shard [of "race_start ?s" "shard_put ''u'' ?c ?s" "shard_get ?s ''u''" ?c] shard_section.create by simp
  then have "listing_reaches (race_start ?s, ?l) (?x, ?l)" by (intro r_into_rtranclp listing_step.other)
  then have r: "listing_reaches (race_start ?s, ?l) (?x, ?m)" by (rule rtranclp_trans [OF _ fetches_reach])
  have e: "ls_ids ?m = []" by (simp add: start_listing_def fetch_all)
  have "dom (shard_get ?s) \<subseteq> tk_TaskID ` set (ls_out ?m)"
    using listings_survive_races [OF demo_running(1) rtranclp.rtrancl_refl, of None ?x ?m] r e by (auto simp: to_list_def)
  with demo_running(2) r e show ?thesis by (intro exI [of _ ?x] exI [of _ ?m]) (auto simp: job_actions_def)
qed

theorem requeue_lease_race_loses_lease_witness:
  "\<exists>x t'. race_reaches (race_start (v2_tasks (demo_meta demo_prefix))) x \<and> quiescent x \<and> shard_get (rs_store x) ''t'' = Some t'
    \<and> check_lease t' ''w2'' (tk_TaskLeaseEpoch t') \<and> ''t'' \<notin> index_at (ts_byStatus (rs_store x)) TASK_STATUS_RUNNING
    \<and> dq_lookup (ts_running (rs_store x)) ''t'' = None"
  by (rule requeue_lease_race_loses_lease [OF demo_running, of 1000000 9])
     (simp_all add: demo_eval duration_ms_def sub64_nonneg)

end
