(* ===== verification/Task_Replay.thy ===== *)
theory Task_Replay
  imports Metadata_Memory Workflow_Replay
begin

text \<open>
  The task lifecycle events and their replay: internal/control/task_replay.go, lifecycle_codec.go,
  the submission payload of service.go, the idempotency fingerprint of idempotency.go and the older
  replay in bootstrap.go.

  Decoders of formats that are not part of the repository (msgpack, protobuf) or that map JSON text
  to structs, and the SHA-256 hash, are arguments, bundled in \<open>task_codecs\<close>. A record iterator is
  the list of records it emits and the error it may end with, as for workflows.
\<close>

subsection \<open>Task specs\<close>

record task_spec =
  sp_TaskId :: string
  sp_TaskName :: string
  sp_FunctionName :: string
  sp_FunctionSource :: string
  sp_ArgsJson :: bytes
  sp_IdempotencyKey :: string
  sp_WorkflowId :: string
  sp_StepId :: string
  sp_TargetWorkerId :: string
  sp_ActorId :: string
  sp_ActorCallId :: string
  sp_ActorClassName :: string
  sp_ActorClassSource :: string
  sp_ActorMethod :: string
  sp_ActorStateJson :: bytes
  sp_ActorInitArgsJson :: bytes
  sp_ActorEpoch :: u64
  sp_LlmModelName :: string
  sp_LlmModelVersion :: string
  sp_LlmAdapter :: string
  sp_LlmMaxTokens :: u32
  sp_TimeoutMs :: i64
  sp_TaskLeaseEpoch :: u64
  sp_FunctionRef :: string
  sp_FunctionHash :: string

definition zero_spec :: task_spec where
  "zero_spec = \<lparr>sp_TaskId = '''', sp_TaskName = '''', sp_FunctionName = '''', sp_FunctionSource = '''', sp_ArgsJson = [],
     sp_IdempotencyKey = '''', sp_WorkflowId = '''', sp_StepId = '''', sp_TargetWorkerId = '''', sp_ActorId = '''',
     sp_ActorCallId = '''', sp_ActorClassName = '''', sp_ActorClassSource = '''', sp_ActorMethod = '''', sp_ActorStateJson = [],
     sp_ActorInitArgsJson = [], sp_ActorEpoch = 0, sp_LlmModelName = '''', sp_LlmModelVersion = '''', sp_LlmAdapter = '''',
     sp_LlmMaxTokens = 0, sp_TimeoutMs = 0, sp_TaskLeaseEpoch = 0, sp_FunctionRef = '''', sp_FunctionHash = ''''\<rparr>"

definition cloneSpec :: "task_spec \<Rightarrow> task_spec" where
  "cloneSpec spec = \<lparr>sp_TaskId = sp_TaskId spec, sp_TaskName = sp_TaskName spec, sp_FunctionName = sp_FunctionName spec,
     sp_FunctionSource = sp_FunctionSource spec, sp_ArgsJson = [] @ sp_ArgsJson spec, sp_IdempotencyKey = sp_IdempotencyKey spec,
     sp_WorkflowId = sp_WorkflowId spec, sp_StepId = sp_StepId spec, sp_TargetWorkerId = sp_TargetWorkerId spec,
     sp_ActorId = sp_ActorId spec, sp_ActorCallId = sp_ActorCallId spec, sp_ActorClassName = sp_ActorClassName spec,
     sp_ActorClassSource = sp_ActorClassSource spec, sp_ActorMethod = sp_ActorMethod spec,
     sp_ActorStateJson = [] @ sp_ActorStateJson spec, sp_ActorInitArgsJson = [] @ sp_ActorInitArgsJson spec,
     sp_ActorEpoch = sp_ActorEpoch spec, sp_LlmModelName = sp_LlmModelName spec, sp_LlmModelVersion = sp_LlmModelVersion spec,
     sp_LlmAdapter = sp_LlmAdapter spec, sp_LlmMaxTokens = sp_LlmMaxTokens spec, sp_TimeoutMs = sp_TimeoutMs spec,
     sp_TaskLeaseEpoch = sp_TaskLeaseEpoch spec, sp_FunctionRef = sp_FunctionRef spec, sp_FunctionHash = sp_FunctionHash spec\<rparr>"

lemma cloneSpec_id [clone_simps, simp]: "cloneSpec spec = spec"
  by (simp add: cloneSpec_def)

subsection \<open>Lifecycle payloads\<close>

record lifecycle_payload =
  lp_TaskLeaseEpoch :: u64
  lp_WorkerID :: string
  lp_ResultJSON :: bytes
  lp_Error :: string
  lp_TimestampMs :: i64

definition zero_lifecycle :: lifecycle_payload where
  "zero_lifecycle = \<lparr>lp_TaskLeaseEpoch = 0, lp_WorkerID = '''', lp_ResultJSON = [], lp_Error = '''', lp_TimestampMs = 0\<rparr>"

text \<open>The value tree a fingerprint hashes: the request's fields by name, the arguments as decoded JSON.\<close>

datatype 'j fingerprint_value = FString string | FUint32 u32 | FInt64 i64 | FJson "'j option"

record 'j task_codecs =
  tc_encode :: "fields \<Rightarrow> string + bytes"
  tc_msgpack :: "bytes \<Rightarrow> string + fields"
  tc_legacyPayload :: "bytes \<Rightarrow> lifecycle_payload"
  tc_emptyPayload :: "lifecycle_payload \<Rightarrow> string + bytes"
  tc_protoMarshal :: "task_spec \<Rightarrow> string + bytes"
  tc_proto :: "bytes \<Rightarrow> string + task_spec"
  tc_legacySubmitted :: "bytes \<Rightarrow> string + bytes"
  tc_protojson :: "bytes \<Rightarrow> string + task_spec"
  tc_jsonValue :: "bytes \<Rightarrow> string + 'j"
  tc_hash :: "(string \<times> 'j fingerprint_value) list \<Rightarrow> string + string"
  tc_sourceHash :: "string \<Rightarrow> string"

definition taskLifecycleEventKind :: kind where
  "taskLifecycleEventKind = 4"

definition lifecycleMap :: "lifecycle_payload \<Rightarrow> fields" where
  "lifecycleMap p =
     put (lp_TimestampMs p \<noteq> 0) ''timestamp_ms'' (AInt64 (lp_TimestampMs p))
     (put (lp_Error p \<noteq> '''') ''error'' (AString (lp_Error p))
     (put (lp_ResultJSON p \<noteq> []) ''result_json'' (ABytes (lp_ResultJSON p))
     (put (lp_WorkerID p \<noteq> '''') ''worker_id'' (AString (lp_WorkerID p))
     (put (0 < lp_TaskLeaseEpoch p) ''task_lease_epoch'' (AUint64 (lp_TaskLeaseEpoch p)) Map.empty))))"

definition no_fields :: "lifecycle_payload \<Rightarrow> bool" where
  "no_fields p \<longleftrightarrow> \<not> 0 < lp_TaskLeaseEpoch p \<and> lp_WorkerID p = '''' \<and> lp_ResultJSON p = [] \<and> lp_Error p = '''' \<and> lp_TimestampMs p = 0"

definition marshalTaskLifecyclePayload :: "('j, 'x) task_codecs_scheme \<Rightarrow> lifecycle_payload \<Rightarrow> codec_error + bytes" where
  "marshalTaskLifecyclePayload cd payload =
     (if no_fields payload then map_sum JSONError id (tc_emptyPayload cd payload)
      else Marshal (tc_encode cd) taskLifecycleEventKind (lifecycleMap payload))"

definition decodeTaskLifecyclePayload :: "('j, 'x) task_codecs_scheme \<Rightarrow> bytes \<Rightarrow> lifecycle_payload" where
  "decodeTaskLifecyclePayload cd data =
     (if data = [] then zero_lifecycle
      else case Unmarshal (tc_msgpack cd) taskLifecycleEventKind data of
        Inl _ \<Rightarrow> zero_lifecycle
      | Inr (Some m) \<Rightarrow>
          \<lparr>lp_TaskLeaseEpoch = Uint64Value (field m ''task_lease_epoch''),
           lp_WorkerID = StringValue (field m ''worker_id''),
           lp_ResultJSON = bytes_of_nilable (BytesValue (field m ''result_json'')),
           lp_Error = StringValue (field m ''error''),
           lp_TimestampMs = Int64Value (field m ''timestamp_ms'')\<rparr>
      | Inr None \<Rightarrow> tc_legacyPayload cd data)"

subsection \<open>Submissions\<close>

definition marshalTaskSubmittedPayload :: "('j, 'x) task_codecs_scheme \<Rightarrow> task_spec \<Rightarrow> codec_error + bytes" where
  "marshalTaskSubmittedPayload cd spec =
     (case tc_protoMarshal cd (cloneSpec spec) of
        Inl e \<Rightarrow> Inl (JSONError e)
      | Inr specData \<Rightarrow> Marshal (tc_encode cd) KindTaskSubmitted [''task_spec'' \<mapsto> ABytes specData])"

definition unmarshalTaskSubmittedSpec :: "('j, 'x) task_codecs_scheme \<Rightarrow> bytes \<Rightarrow> codec_error + task_spec" where
  "unmarshalTaskSubmittedSpec cd data =
     (case Unmarshal (tc_msgpack cd) KindTaskSubmitted data of
        Inl e \<Rightarrow> Inl e
      | Inr (Some m) \<Rightarrow>
          (let specData = bytes_of_nilable (BytesValue (field m ''task_spec'')) in
           if specData = [] then Inr zero_spec else map_sum JSONError id (tc_proto cd specData))
      | Inr None \<Rightarrow>
          (case tc_legacySubmitted cd data of
             Inl e \<Rightarrow> Inl (JSONError e)
           | Inr specData \<Rightarrow> if specData = [] then Inr zero_spec else map_sum JSONError id (tc_protojson cd specData)))"

definition jsonValueForFingerprint :: "('j, 'x) task_codecs_scheme \<Rightarrow> bytes \<Rightarrow> codec_error + 'j option" where
  "jsonValueForFingerprint cd data =
     (if data = [] then Inr None else map_sum JSONError Some (tc_jsonValue cd data))"

definition hashFunctionSource :: "('j, 'x) task_codecs_scheme \<Rightarrow> string \<Rightarrow> string" where
  "hashFunctionSource cd source = ''sha256:'' @ tc_sourceHash cd source"

definition taskFunctionIdentity :: "('j, 'x) task_codecs_scheme \<Rightarrow> task_spec \<Rightarrow> string" where
  "taskFunctionIdentity cd spec =
     (if sp_FunctionHash spec \<noteq> '''' then sp_FunctionHash spec
      else if sp_FunctionSource spec \<noteq> '''' then hashFunctionSource cd (sp_FunctionSource spec)
      else '''')"

definition stableFingerprint :: "('j, 'x) task_codecs_scheme \<Rightarrow> (string \<times> 'j fingerprint_value) list \<Rightarrow> codec_error + string" where
  "stableFingerprint cd value = map_sum JSONError id (tc_hash cd value)"

definition taskSpecFingerprint :: "('j, 'x) task_codecs_scheme \<Rightarrow> task_spec \<Rightarrow> codec_error + string" where
  "taskSpecFingerprint cd spec =
     (case jsonValueForFingerprint cd (sp_ArgsJson spec) of
        Inl e \<Rightarrow> Inl e
      | Inr args \<Rightarrow>
          stableFingerprint cd
            [(''task_name'', FString (sp_TaskName spec)),
             (''function_name'', FString (sp_FunctionName spec)),
             (''function_hash'', FString (taskFunctionIdentity cd spec)),
             (''args_json'', FJson args),
             (''workflow_id'', FString (sp_WorkflowId spec)),
             (''step_id'', FString (sp_StepId spec)),
             (''actor_id'', FString (sp_ActorId spec)),
             (''actor_class_name'', FString (sp_ActorClassName spec)),
             (''actor_class_source'', FString (sp_ActorClassSource spec)),
             (''actor_method'', FString (sp_ActorMethod spec)),
             (''llm_model_name'', FString (sp_LlmModelName spec)),
             (''llm_model_version'', FString (sp_LlmModelVersion spec)),
             (''llm_adapter'', FString (sp_LlmAdapter spec)),
             (''llm_max_tokens'', FUint32 (sp_LlmMaxTokens spec)),
             (''timeout_ms'', FInt64 (sp_TimeoutMs spec))])"

text \<open>An empty key or an unknown earlier fingerprint is never a conflict.\<close>

definition ensureIdempotencyFingerprint :: "string \<Rightarrow> string \<Rightarrow> string \<Rightarrow> bool" where
  "ensureIdempotencyFingerprint key existing requested \<longleftrightarrow> key = '''' \<or> existing = '''' \<or> existing = requested"

subsection \<open>The replay state machine\<close>

record task_replay_state =
  tr_spec :: "task_spec option"
  tr_task :: task
  tr_status :: task_status
  tr_leaseEpoch :: u64
  tr_redeliveredLeaseEpoch :: u64
  tr_ok :: bool

definition initial_replay :: task_replay_state where
  "initial_replay = \<lparr>tr_spec = None, tr_task = zero_task, tr_status = TASK_STATUS_QUEUED, tr_leaseEpoch = 0,
     tr_redeliveredLeaseEpoch = 0, tr_ok = False\<rparr>"

definition taskEventLeaseEpoch :: "('j, 'x) task_codecs_scheme \<Rightarrow> bytes \<Rightarrow> u64" where
  "taskEventLeaseEpoch cd payload = lp_TaskLeaseEpoch (decodeTaskLifecyclePayload cd payload)"

definition taskTerminalEventApplies :: "('j, 'x) task_codecs_scheme \<Rightarrow> task_status \<Rightarrow> u64 \<Rightarrow> u64 \<Rightarrow> bytes \<Rightarrow> bool" where
  "taskTerminalEventApplies cd st currentLeaseEpoch redeliveredLeaseEpoch payload =
     (if isTerminalTaskStatus st then False
      else
        (let eventLeaseEpoch = taskEventLeaseEpoch cd payload in
         if eventLeaseEpoch = 0 then currentLeaseEpoch = 0 \<and> redeliveredLeaseEpoch = 0
         else if st \<noteq> TASK_STATUS_RUNNING then False
         else eventLeaseEpoch = currentLeaseEpoch \<and> redeliveredLeaseEpoch < eventLeaseEpoch))"

definition submitted_task :: "task_spec \<Rightarrow> string \<Rightarrow> task" where
  "submitted_task decoded fingerprint = zero_task\<lparr>tk_TaskID := sp_TaskId decoded, tk_TaskName := sp_TaskName decoded,
     tk_Status := TASK_STATUS_QUEUED, tk_WorkflowID := sp_WorkflowId decoded, tk_StepID := sp_StepId decoded,
     tk_TargetWorkerID := sp_TargetWorkerId decoded, tk_ActorID := sp_ActorId decoded, tk_ActorCallID := sp_ActorCallId decoded,
     tk_ActorEpoch := sp_ActorEpoch decoded, tk_TaskLeaseEpoch := sp_TaskLeaseEpoch decoded,
     tk_LLMModelName := sp_LlmModelName decoded, tk_LLMModelVersion := sp_LlmModelVersion decoded,
     tk_IdempotencyKey := sp_IdempotencyKey decoded, tk_IdempotencyFingerprint := fingerprint\<rparr>"

definition apply_submitted :: "('j, 'x) task_codecs_scheme \<Rightarrow> bytes \<Rightarrow> task_replay_state \<Rightarrow> codec_error + task_replay_state" where
  "apply_submitted cd payload s =
     (case unmarshalTaskSubmittedSpec cd payload of
        Inl e \<Rightarrow> Inl e
      | Inr decoded \<Rightarrow>
          if sp_TaskId decoded = '''' then Inr s
          else
            (case taskSpecFingerprint cd decoded of
               Inl e \<Rightarrow> Inl e
             | Inr fingerprint \<Rightarrow>
                 Inr (s\<lparr>tr_spec := Some decoded, tr_status := TASK_STATUS_QUEUED, tr_leaseEpoch := sp_TaskLeaseEpoch decoded,
                        tr_redeliveredLeaseEpoch := 0, tr_task := submitted_task decoded fingerprint, tr_ok := True\<rparr>)))"

definition apply_started :: "('j, 'x) task_codecs_scheme \<Rightarrow> bytes \<Rightarrow> task_replay_state \<Rightarrow> task_replay_state" where
  "apply_started cd payload s =
     (if isTerminalTaskStatus (tr_status s) then s
      else
        (let p = decodeTaskLifecyclePayload cd payload; e = lp_TaskLeaseEpoch p in
         if e = 0 then
           (if tr_leaseEpoch s = 0 \<and> tr_redeliveredLeaseEpoch s = 0
            then s\<lparr>tr_status := TASK_STATUS_RUNNING,
                   tr_task := (tr_task s)\<lparr>tk_Status := TASK_STATUS_RUNNING, tk_WorkerID := lp_WorkerID p\<rparr>\<rparr>
            else s)
         else if e \<le> tr_redeliveredLeaseEpoch s then s
         else if tr_leaseEpoch s \<le> e then
           s\<lparr>tr_leaseEpoch := e, tr_status := TASK_STATUS_RUNNING,
             tr_task := (tr_task s)\<lparr>tk_Status := TASK_STATUS_RUNNING, tk_WorkerID := lp_WorkerID p, tk_TaskLeaseEpoch := e\<rparr>\<rparr>
         else s))"

definition apply_redelivered :: "('j, 'x) task_codecs_scheme \<Rightarrow> bytes \<Rightarrow> task_replay_state \<Rightarrow> task_replay_state" where
  "apply_redelivered cd payload s =
     (if isTerminalTaskStatus (tr_status s) then s
      else
        (let e = lp_TaskLeaseEpoch (decodeTaskLifecyclePayload cd payload);
             s1 = (if tr_redeliveredLeaseEpoch s < e then s\<lparr>tr_redeliveredLeaseEpoch := e\<rparr> else s)
         in if e = 0 \<or> tr_leaseEpoch s1 \<le> e
            then s1\<lparr>tr_status := TASK_STATUS_QUEUED, tr_task := (tr_task s1)\<lparr>tk_Status := TASK_STATUS_QUEUED, tk_WorkerID := ''''\<rparr>\<rparr>
            else s1))"

definition apply_terminal :: "('j, 'x) task_codecs_scheme \<Rightarrow> task_status \<Rightarrow> bytes \<Rightarrow> task_replay_state \<Rightarrow> task_replay_state" where
  "apply_terminal cd st payload s =
     (if taskTerminalEventApplies cd (tr_status s) (tr_leaseEpoch s) (tr_redeliveredLeaseEpoch s) payload
      then
        (let p = decodeTaskLifecyclePayload cd payload in
         s\<lparr>tr_status := st,
           tr_task := (tr_task s)\<lparr>tk_Status := st, tk_WorkerID := lp_WorkerID p, tk_ResultJSON := [] @ lp_ResultJSON p,
             tk_Error := (if st = TASK_STATUS_FAILED then lp_Error p else '''')\<rparr>\<rparr>)
      else s)"

definition applyRaw :: "('j, 'x) task_codecs_scheme \<Rightarrow> task_replay_state \<Rightarrow> raw_record \<Rightarrow> codec_error + task_replay_state" where
  "applyRaw cd s rec =
     (let ev = rr_EventType rec; payload = rr_Payload rec in
      if ev = ''TaskSubmitted'' then apply_submitted cd payload s
      else if ev = ''TaskStarted'' then Inr (apply_started cd payload s)
      else if ev = ''TaskRedelivered'' then Inr (apply_redelivered cd payload s)
      else if ev = ''TaskCompleted'' then Inr (apply_terminal cd TASK_STATUS_SUCCEEDED payload s)
      else if ev = ''TaskFailed'' then Inr (apply_terminal cd TASK_STATUS_FAILED payload s)
      else Inr s)"

text \<open>An iterator error is reported as the codec errors are, through the callback's result.\<close>

type_synonym task_iterator = "(raw_record list \<times> codec_error option) option"

definition replayTaskMetadataRawEach :: "('j, 'x) task_codecs_scheme \<Rightarrow> task_iterator \<Rightarrow> task_replay_state option \<Rightarrow>
    codec_error + task_replay_state" where
  "replayTaskMetadataRawEach cd iter init =
     (let state = (case init of None \<Rightarrow> initial_replay
        | Some i \<Rightarrow> i\<lparr>tr_spec := map_option cloneSpec (tr_spec i), tr_task := (tr_task i)\<lparr>tk_ResultJSON := [] @ tk_ResultJSON (tr_task i)\<rparr>\<rparr>)
      in case iter of
           None \<Rightarrow> Inr state
         | Some (recs, err) \<Rightarrow>
             (case fold_result (applyRaw cd) state recs of
                Inl e \<Rightarrow> Inl e
              | Inr s \<Rightarrow> (case err of None \<Rightarrow> Inr s | Some e \<Rightarrow> Inl e)))"

definition replayTaskMetadataEach :: "('j, 'x) task_codecs_scheme \<Rightarrow> (log_record option list \<times> codec_error option) option \<Rightarrow>
    task_replay_state option \<Rightarrow> codec_error + task_replay_state" where
  "replayTaskMetadataEach cd iter init =
     (case iter of
        None \<Rightarrow> replayTaskMetadataRawEach cd None init
      | Some (recs, err) \<Rightarrow> replayTaskMetadataRawEach cd (Some (map FromProto recs, err)) init)"

definition taskReplayStateFromCheckpoint :: "task \<Rightarrow> task_spec \<Rightarrow> task_replay_state" where
  "taskReplayStateFromCheckpoint tk0 spec =
     (let tk = (if tk_Status tk0 = TASK_STATUS_UNSPECIFIED then tk0\<lparr>tk_Status := TASK_STATUS_QUEUED\<rparr> else tk0)
      in \<lparr>tr_spec = Some (cloneSpec spec), tr_task = tk, tr_status = tk_Status tk, tr_leaseEpoch = tk_TaskLeaseEpoch tk,
          tr_redeliveredLeaseEpoch = 0, tr_ok = (tk_TaskID tk \<noteq> '''')\<rparr>)"

text \<open>Besides the task, \<open>finalTask\<close> writes the epoch into the spec it holds.\<close>

definition finalTask :: "task_replay_state \<Rightarrow> task_replay_state \<times> task" where
  "finalTask s =
     (let tk = (tr_task s)\<lparr>tk_TaskLeaseEpoch := tr_leaseEpoch s\<rparr>
      in (s\<lparr>tr_spec := map_option (\<lambda>sp. sp\<lparr>sp_TaskLeaseEpoch := tr_leaseEpoch s\<rparr>) (tr_spec s)\<rparr>,
          if tr_status s = TASK_STATUS_RUNNING then tk\<lparr>tk_Status := TASK_STATUS_QUEUED, tk_WorkerID := ''''\<rparr>
          else tk\<lparr>tk_Status := tr_status s\<rparr>))"

subsection \<open>The compatibility replay\<close>

text \<open>The spec, status and epochs that \<open>replayTaskSpecEach\<close> threads through its callback.\<close>

record spec_replay =
  sr_spec :: "task_spec option"
  sr_status :: task_status
  sr_leaseEpoch :: u64
  sr_redeliveredLeaseEpoch :: u64

definition apply_spec_record :: "('j, 'x) task_codecs_scheme \<Rightarrow> spec_replay \<Rightarrow> log_record \<Rightarrow> codec_error + spec_replay" where
  "apply_spec_record cd s rec =
     (let ev = pb_EventType rec; payload = pb_Payload rec in
      if ev = ''TaskSubmitted'' then
        (case unmarshalTaskSubmittedSpec cd payload of
           Inl e \<Rightarrow> Inl e
         | Inr decoded \<Rightarrow>
             Inr (if sp_TaskId decoded = '''' then s else s\<lparr>sr_spec := Some decoded, sr_status := TASK_STATUS_QUEUED\<rparr>))
      else if ev = ''TaskStarted'' then
        Inr (if isTerminalTaskStatus (sr_status s) then s
             else
               (let e = taskEventLeaseEpoch cd payload in
                if e = 0 then
                  (if sr_leaseEpoch s = 0 \<and> sr_redeliveredLeaseEpoch s = 0 then s\<lparr>sr_status := TASK_STATUS_RUNNING\<rparr> else s)
                else if e \<le> sr_redeliveredLeaseEpoch s then s
                else if sr_leaseEpoch s \<le> e then s\<lparr>sr_leaseEpoch := e, sr_status := TASK_STATUS_RUNNING\<rparr>
                else s))
      else if ev = ''TaskRedelivered'' then
        Inr (if isTerminalTaskStatus (sr_status s) then s
             else
               (let e = taskEventLeaseEpoch cd payload;
                    s1 = (if sr_redeliveredLeaseEpoch s < e then s\<lparr>sr_redeliveredLeaseEpoch := e\<rparr> else s)
                in if e = 0 \<or> sr_leaseEpoch s1 \<le> e then s1\<lparr>sr_status := TASK_STATUS_QUEUED\<rparr> else s1))
      else if ev = ''TaskCompleted'' then
        Inr (if taskTerminalEventApplies cd (sr_status s) (sr_leaseEpoch s) (sr_redeliveredLeaseEpoch s) payload
             then s\<lparr>sr_status := TASK_STATUS_SUCCEEDED\<rparr> else s)
      else if ev = ''TaskFailed'' then
        Inr (if taskTerminalEventApplies cd (sr_status s) (sr_leaseEpoch s) (sr_redeliveredLeaseEpoch s) payload
             then s\<lparr>sr_status := TASK_STATUS_FAILED\<rparr> else s)
      else Inr s)"

definition initial_spec_replay :: spec_replay where
  "initial_spec_replay = \<lparr>sr_spec = None, sr_status = TASK_STATUS_QUEUED, sr_leaseEpoch = 0, sr_redeliveredLeaseEpoch = 0\<rparr>"

definition finish_spec_replay :: "spec_replay \<Rightarrow> task_spec option \<times> task_status \<times> u64 \<times> bool" where
  "finish_spec_replay s =
     (case sr_spec s of
        None \<Rightarrow> (None, sr_status s, sr_leaseEpoch s, False)
      | Some spec \<Rightarrow>
          (Some (spec\<lparr>sp_TaskLeaseEpoch := sr_leaseEpoch s\<rparr>),
           if sr_status s = TASK_STATUS_RUNNING then TASK_STATUS_QUEUED else sr_status s, sr_leaseEpoch s, True))"

definition replayTaskSpecEach :: "('j, 'x) task_codecs_scheme \<Rightarrow> (log_record list \<times> codec_error option) option \<Rightarrow>
    codec_error + task_spec option \<times> task_status \<times> u64 \<times> bool" where
  "replayTaskSpecEach cd iter =
     (case iter of
        None \<Rightarrow> Inr (None, TASK_STATUS_QUEUED, 0, False)
      | Some (recs, err) \<Rightarrow>
          (case fold_result (apply_spec_record cd) initial_spec_replay recs of
             Inl e \<Rightarrow> Inl e
           | Inr s \<Rightarrow> (case err of Some e \<Rightarrow> Inl e | None \<Rightarrow> Inr (finish_spec_replay s))))"

definition replayTaskSpec :: "('j, 'x) task_codecs_scheme \<Rightarrow> log_record list \<Rightarrow> codec_error + task_spec option \<times> task_status \<times> u64 \<times> bool" where
  "replayTaskSpec cd records = replayTaskSpecEach cd (Some (records, None))"

subsection \<open>Codecs\<close>

lemma lifecycleMap_keys:
  "lifecycleMap p ''task_lease_epoch'' = (if lp_TaskLeaseEpoch p = 0 then None else Some (AUint64 (lp_TaskLeaseEpoch p)))"
  "lifecycleMap p ''worker_id'' = (if lp_WorkerID p = '''' then None else Some (AString (lp_WorkerID p)))"
  "lifecycleMap p ''result_json'' = (if lp_ResultJSON p = [] then None else Some (ABytes (lp_ResultJSON p)))"
  "lifecycleMap p ''error'' = (if lp_Error p = '''' then None else Some (AString (lp_Error p)))"
  "lifecycleMap p ''timestamp_ms'' = (if lp_TimestampMs p = 0 then None else Some (AInt64 (lp_TimestampMs p)))"
  by (simp_all add: lifecycleMap_def word_gt_0)

definition lifecycle_faithful :: "('j, 'x) task_codecs_scheme \<Rightarrow> lifecycle_payload \<Rightarrow> bool" where
  "lifecycle_faithful cd p \<longleftrightarrow> \<not> no_fields p \<and> is_i64 (lp_TimestampMs p) \<and> msgpack_faithful (tc_encode cd) (tc_msgpack cd) (lifecycleMap p)"

lemma lifecycle_roundtrip:
  assumes "lifecycle_faithful cd p"
  shows "\<exists>data. marshalTaskLifecyclePayload cd p = Inr data \<and> decodeTaskLifecyclePayload cd data = p"
proof -
  from assms obtain body m where m: "tc_encode cd (lifecycleMap p) = Inr body" "tc_msgpack cd body = Inr m" "same_fields (lifecycleMap p) m"
    by (auto simp: lifecycle_faithful_def msgpack_faithful_def)
  have ts: "is_i64 (lp_TimestampMs p)" and nf: "\<not> no_fields p" using assms by (simp_all add: lifecycle_faithful_def)
  have "marshalTaskLifecyclePayload cd p = Inr (magic @ [taskLifecycleEventKind] @ body)"
    using nf by (simp add: marshalTaskLifecyclePayload_def Marshal_def m(1) taskLifecycleEventKind_def)
  moreover have "decodeTaskLifecyclePayload cd (magic @ [taskLifecycleEventKind] @ body) = p"
  proof -
    have ne: "magic @ [taskLifecycleEventKind] @ body \<noteq> []" by simp
    show ?thesis
      unfolding decodeTaskLifecyclePayload_def if_not_P [OF ne] Unmarshal_def Body_enveloped
      using read_uint64 [OF m(3) lifecycleMap_keys(1)] read_string [OF m(3) lifecycleMap_keys(2)] read_bytes [OF m(3) lifecycleMap_keys(3)]
        read_string [OF m(3) lifecycleMap_keys(4)] read_int64 [OF m(3) lifecycleMap_keys(5) ts]
      by (simp add: m(2) bytes_of_nilable_def)
  qed
  ultimately show ?thesis by blast
qed

definition spec_faithful :: "('j, 'x) task_codecs_scheme \<Rightarrow> task_spec \<Rightarrow> bool" where
  "spec_faithful cd spec \<longleftrightarrow> (\<exists>data. data \<noteq> [] \<and> tc_protoMarshal cd spec = Inr data \<and> tc_proto cd data = Inr spec
     \<and> msgpack_faithful (tc_encode cd) (tc_msgpack cd) [''task_spec'' \<mapsto> ABytes data])"

lemma submitted_roundtrip:
  assumes "spec_faithful cd spec"
  shows "\<exists>data. marshalTaskSubmittedPayload cd spec = Inr data \<and> unmarshalTaskSubmittedSpec cd data = Inr spec"
proof -
  from assms obtain d body m where d: "d \<noteq> []" "tc_protoMarshal cd spec = Inr d" "tc_proto cd d = Inr spec"
    and m: "tc_encode cd [''task_spec'' \<mapsto> ABytes d] = Inr body" "tc_msgpack cd body = Inr m" "same_fields [''task_spec'' \<mapsto> ABytes d] m"
    by (auto simp: spec_faithful_def msgpack_faithful_def)
  have rb: "BytesValue (field m ''task_spec'') = Some d" using read_bytes [OF m(3), of "''task_spec''" d] d(1) by simp
  have "marshalTaskSubmittedPayload cd spec = Inr (magic @ [KindTaskSubmitted] @ body)"
    by (simp add: marshalTaskSubmittedPayload_def Marshal_def d(2) m(1) KindTaskSubmitted_def)
  moreover have "unmarshalTaskSubmittedSpec cd (magic @ [KindTaskSubmitted] @ body) = Inr spec"
    unfolding unmarshalTaskSubmittedSpec_def Unmarshal_def Body_enveloped
    by (simp add: m(2) rb bytes_of_nilable_def d(1,3))
  ultimately show ?thesis by blast
qed

subsection \<open>What replay keeps\<close>

lemmas apply_events = apply_started_def apply_redelivered_def apply_terminal_def taskTerminalEventApplies_def

text \<open>The task a submitted state holds agrees with the status and epoch beside it.\<close>

definition replay_coherent :: "task_replay_state \<Rightarrow> bool" where
  "replay_coherent s \<longleftrightarrow> (tr_ok s \<longrightarrow> tk_Status (tr_task s) = tr_status s \<and> tk_TaskLeaseEpoch (tr_task s) = tr_leaseEpoch s
     \<and> tk_TaskID (tr_task s) \<noteq> '''' \<and> tr_spec s \<noteq> None) \<and> (tr_status s = TASK_STATUS_UNSPECIFIED \<longrightarrow> \<not> tr_ok s)
     \<and> (\<not> tr_ok s \<longrightarrow> tr_spec s = None)"

lemma initial_coherent: "replay_coherent initial_replay"
  by (simp add: replay_coherent_def initial_replay_def)

lemma apply_coherent:
  "replay_coherent s \<Longrightarrow> apply_submitted cd payload s = Inr s' \<Longrightarrow> replay_coherent s'"
  "replay_coherent s \<Longrightarrow> replay_coherent (apply_started cd payload s)"
  "replay_coherent s \<Longrightarrow> replay_coherent (apply_redelivered cd payload s)"
  "replay_coherent s \<Longrightarrow> st \<noteq> TASK_STATUS_UNSPECIFIED \<Longrightarrow> replay_coherent (apply_terminal cd st payload s)"
  by (auto simp: replay_coherent_def apply_submitted_def submitted_task_def apply_events Let_def split: sum.splits if_splits)

lemma applyRaw_coherent: "replay_coherent s \<Longrightarrow> applyRaw cd s rec = Inr s' \<Longrightarrow> replay_coherent s'"
  by (auto simp: applyRaw_def Let_def apply_coherent split: if_splits)

lemma replay_coherent_fold: "fold_result (applyRaw cd) initial_replay recs = Inr s \<Longrightarrow> replay_coherent s"
  using fold_result_invariant [of "applyRaw cd" initial_replay recs s replay_coherent] applyRaw_coherent initial_coherent by blast

text \<open>A state with a terminal status changes on another submission only.\<close>

lemma applyRaw_terminal:
  assumes "isTerminalTaskStatus (tr_status s)" "rr_EventType rec \<noteq> ''TaskSubmitted''"
  shows "applyRaw cd s rec = Inr s"
  using assms by (simp add: applyRaw_def Let_def apply_events)

lemma replay_terminal:
  assumes "isTerminalTaskStatus (tr_status s)" "\<forall>rec \<in> set recs. rr_EventType rec \<noteq> ''TaskSubmitted''"
  shows "fold_result (applyRaw cd) s recs = Inr s"
  using assms(2) by (induction recs) (simp_all add: applyRaw_terminal [OF assms(1)])

subsection \<open>Forgetting the redelivered epoch\<close>

text \<open>
  Two replay states that differ in the redelivered epoch only, and either agree on it or have it
  below the lease epoch on both sides.
\<close>

definition same_but_fence :: "task_replay_state \<Rightarrow> task_replay_state \<Rightarrow> bool" where
  "same_but_fence a b \<longleftrightarrow> b = a\<lparr>tr_redeliveredLeaseEpoch := tr_redeliveredLeaseEpoch b\<rparr>
     \<and> (tr_redeliveredLeaseEpoch a = tr_redeliveredLeaseEpoch b
        \<or> tr_redeliveredLeaseEpoch a < tr_leaseEpoch a \<and> tr_redeliveredLeaseEpoch b < tr_leaseEpoch a)"

lemma same_but_fence_fields:
  "same_but_fence a b \<Longrightarrow> tr_task b = tr_task a \<and> tr_status b = tr_status a \<and> tr_leaseEpoch b = tr_leaseEpoch a \<and> tr_spec b = tr_spec a \<and> tr_ok b = tr_ok a"
  unfolding same_but_fence_def by (metis task_replay_state.ext_inject task_replay_state.surjective task_replay_state.update_convs(5))

lemma apply_same_but_fence:
  assumes "same_but_fence a b"
  shows "rel_sum (=) same_but_fence (applyRaw cd a rec) (applyRaw cd b rec)"
proof -
  obtain sp tk st e r k where a: "a = \<lparr>tr_spec = sp, tr_task = tk, tr_status = st, tr_leaseEpoch = e, tr_redeliveredLeaseEpoch = r, tr_ok = k\<rparr>"
    by (cases a)
  obtain r' where b: "b = a\<lparr>tr_redeliveredLeaseEpoch := r'\<rparr>" using assms unfolding same_but_fence_def by metis
  have c: "r = r' \<or> r < e \<and> r' < e" using assms by (simp add: same_but_fence_def a b)
  have sub: "rel_sum (=) same_but_fence (apply_submitted cd p a) (apply_submitted cd p b)" for p
    using c by (auto simp: apply_submitted_def same_but_fence_def a b split: sum.split)
  have started: "same_but_fence (apply_started cd p a) (apply_started cd p b)" for p
    using c by (auto simp: apply_started_def same_but_fence_def a b Let_def)
  have red: "same_but_fence (apply_redelivered cd p a) (apply_redelivered cd p b)" for p
    using c by (auto simp: apply_redelivered_def same_but_fence_def a b Let_def)
  have fin: "same_but_fence (apply_terminal cd st' p a) (apply_terminal cd st' p b)" for st' p
    using c by (auto simp: apply_terminal_def taskTerminalEventApplies_def same_but_fence_def a b Let_def)
  show ?thesis using sub started red fin assms by (simp add: applyRaw_def Let_def)
qed

lemma fold_same_but_fence:
  "same_but_fence a b \<Longrightarrow> rel_sum (=) same_but_fence (fold_result (applyRaw cd) a recs) (fold_result (applyRaw cd) b recs)"
proof (induction recs arbitrary: a b)
  case (Cons rec recs)
  from apply_same_but_fence [OF Cons.prems, of cd rec] show ?case
    by (cases "applyRaw cd a rec"; cases "applyRaw cd b rec") (simp_all add: Cons.IH)
qed simp

subsection \<open>Properties\<close>

text \<open>
  C37. Task lifecycle payloads and submitted task specs survive the binary event codec: decoding what
  the control plane wrote gives the payload and the spec back, whatever integer widths the msgpack
  decoder chooses.\<close>
theorem task_payload_roundtrip:
  assumes "lifecycle_faithful cd p" and "spec_faithful cd spec"
  shows "(\<exists>data. marshalTaskLifecyclePayload cd p = Inr data \<and> decodeTaskLifecyclePayload cd data = p)
    \<and> (\<exists>data. marshalTaskSubmittedPayload cd spec = Inr data \<and> unmarshalTaskSubmittedSpec cd data = Inr spec)"
  using lifecycle_roundtrip [OF assms(1)] submitted_roundtrip [OF assms(2)] by blast

text \<open>
  C10. A checkpoint of a task followed by a replay of the log tail gives the same task, spec and
  errors as replaying the whole log, provided that no redelivered lease is as new as the current
  one: the checkpoint does not store the redelivered epoch.\<close>
theorem checkpoint_task_tail:
  assumes "fold_result (applyRaw cd) initial_replay recs = Inr s" and "tr_ok s"
    and "tr_redeliveredLeaseEpoch s = 0 \<or> tr_redeliveredLeaseEpoch s < tr_leaseEpoch s"
  shows "map_sum id (\<lambda>x. snd (finalTask x)) (fold_result (applyRaw cd) (taskReplayStateFromCheckpoint (tr_task s) (the (tr_spec s))) tail)
    = map_sum id (\<lambda>x. snd (finalTask x)) (fold_result (applyRaw cd) initial_replay (recs @ tail))"
proof -
  have c: "replay_coherent s" using assms(1) by (rule replay_coherent_fold)
  then have "taskReplayStateFromCheckpoint (tr_task s) (the (tr_spec s)) = s\<lparr>tr_redeliveredLeaseEpoch := 0\<rparr>"
    using assms(2) by (auto simp: replay_coherent_def taskReplayStateFromCheckpoint_def Let_def)
  moreover have "same_but_fence s (s\<lparr>tr_redeliveredLeaseEpoch := 0\<rparr>)"
    using assms(3) by (auto simp: same_but_fence_def word_gt_0)
  ultimately have rel: "rel_sum (=) same_but_fence (fold_result (applyRaw cd) s tail)
      (fold_result (applyRaw cd) (taskReplayStateFromCheckpoint (tr_task s) (the (tr_spec s))) tail)"
    using fold_same_but_fence by simp
  have same: "snd (finalTask a) = snd (finalTask b)" if "same_but_fence a b" for a b
    using same_but_fence_fields [OF that] by (simp add: finalTask_def Let_def)
  show ?thesis using rel assms(1)
    by (cases "fold_result (applyRaw cd) s tail";
        cases "fold_result (applyRaw cd) (taskReplayStateFromCheckpoint (tr_task s) (the (tr_spec s))) tail")
       (simp_all add: fold_result_append same)
qed

subsection \<open>A concrete log\<close>

text \<open>
  Payloads that stand for themselves: two bytes, the lease epoch and a result, and one spec. The
  codecs read any payload that is not in an envelope as such.
\<close>

definition demo_spec :: task_spec where
  "demo_spec = zero_spec\<lparr>sp_TaskId := ''t'', sp_TaskName := ''n''\<rparr>"

definition demo_task_codecs :: "unit task_codecs" where
  "demo_task_codecs = \<lparr>tc_encode = (\<lambda>m. Inr (if m ''task_spec'' = None then [1] else [2])),
     tc_msgpack = (\<lambda>b. Inr (if b = [2] then [''task_spec'' \<mapsto> ABytes [1]] else [''task_lease_epoch'' \<mapsto> AUint64 7, ''worker_id'' \<mapsto> AString ''w''])),
     tc_legacyPayload = (\<lambda>b. zero_lifecycle\<lparr>lp_TaskLeaseEpoch := ucast (hd b), lp_ResultJSON := tl b\<rparr>),
     tc_emptyPayload = (\<lambda>_. Inr []), tc_protoMarshal = (\<lambda>_. Inr [1]), tc_proto = (\<lambda>_. Inr demo_spec),
     tc_legacySubmitted = (\<lambda>b. Inr b), tc_protojson = (\<lambda>_. Inr demo_spec),
     tc_jsonValue = (\<lambda>_. Inr ()), tc_hash = (\<lambda>_. Inr ''h''), tc_sourceHash = (\<lambda>_. ''h'')\<rparr>"

definition demo_event :: "string \<Rightarrow> bytes \<Rightarrow> raw_record" where
  "demo_event ev payload = zero_raw_record\<lparr>rr_EventType := ev, rr_Payload := payload\<rparr>"

lemmas demo_replay_eval = demo_event_def zero_raw_record_def initial_replay_def applyRaw_def Let_def apply_submitted_def
  unmarshalTaskSubmittedSpec_def Unmarshal_def Body_def magic_def demo_task_codecs_def demo_spec_def zero_spec_def
  taskSpecFingerprint_def jsonValueForFingerprint_def stableFingerprint_def submitted_task_def zero_task_def
  apply_events isTerminalTaskStatus_def decodeTaskLifecyclePayload_def taskEventLeaseEpoch_def zero_lifecycle_def
  finalTask_def taskReplayStateFromCheckpoint_def bytes_of_string_def

theorem task_payload_roundtrip_witness:
  "(\<exists>data. marshalTaskLifecyclePayload demo_task_codecs (zero_lifecycle\<lparr>lp_TaskLeaseEpoch := 7, lp_WorkerID := ''w''\<rparr>) = Inr data
      \<and> decodeTaskLifecyclePayload demo_task_codecs data = zero_lifecycle\<lparr>lp_TaskLeaseEpoch := 7, lp_WorkerID := ''w''\<rparr>)
    \<and> (\<exists>data. marshalTaskSubmittedPayload demo_task_codecs demo_spec = Inr data \<and> unmarshalTaskSubmittedSpec demo_task_codecs data = Inr demo_spec)"
proof (rule task_payload_roundtrip)
  have sv: "same_value v v" for v by (cases v) (simp_all add: same_value_def)
  then have sf: "same_fields m m" for m by (simp add: same_fields_def option.rel_refl)
  have "lifecycleMap (zero_lifecycle\<lparr>lp_TaskLeaseEpoch := 7, lp_WorkerID := ''w''\<rparr>) = [''task_lease_epoch'' \<mapsto> AUint64 7, ''worker_id'' \<mapsto> AString ''w'']"
    by (simp add: lifecycleMap_def zero_lifecycle_def put_def)
  then show "lifecycle_faithful demo_task_codecs (zero_lifecycle\<lparr>lp_TaskLeaseEpoch := 7, lp_WorkerID := ''w''\<rparr>)"
    using sf by (simp add: lifecycle_faithful_def no_fields_def msgpack_faithful_def is_i64_def) (simp add: demo_task_codecs_def zero_lifecycle_def)
  show "spec_faithful demo_task_codecs demo_spec"
    using sf by (simp add: spec_faithful_def msgpack_faithful_def demo_task_codecs_def)
qed

lemma demo_prefix_replay:
  "\<exists>s. fold_result (applyRaw demo_task_codecs) initial_replay [demo_event ''TaskSubmitted'' [0], demo_event ''TaskStarted'' [1]] = Inr s
    \<and> tr_ok s \<and> tr_redeliveredLeaseEpoch s = 0"
  by (simp add: demo_replay_eval)

theorem checkpoint_task_tail_witness:
  "\<exists>s. fold_result (applyRaw demo_task_codecs) initial_replay [demo_event ''TaskSubmitted'' [0], demo_event ''TaskStarted'' [1]] = Inr s \<and>
    map_sum id (\<lambda>x. snd (finalTask x)) (fold_result (applyRaw demo_task_codecs)
      (taskReplayStateFromCheckpoint (tr_task s) (the (tr_spec s))) [demo_event ''TaskCompleted'' [1, 9]])
    = map_sum id (\<lambda>x. snd (finalTask x)) (fold_result (applyRaw demo_task_codecs) initial_replay
        ([demo_event ''TaskSubmitted'' [0], demo_event ''TaskStarted'' [1]] @ [demo_event ''TaskCompleted'' [1, 9]]))"
proof -
  obtain s where s: "fold_result (applyRaw demo_task_codecs) initial_replay [demo_event ''TaskSubmitted'' [0], demo_event ''TaskStarted'' [1]] = Inr s"
      "tr_ok s" "tr_redeliveredLeaseEpoch s = 0" using demo_prefix_replay by blast
  from checkpoint_task_tail [OF s(1,2) disjI1 [OF s(3)], of "[demo_event ''TaskCompleted'' [1, 9]]"] s(1) show ?thesis by blast
qed

subsection \<open>A lease epoch that is used twice\<close>

definition lifecycle_event :: "string \<Rightarrow> bytes \<Rightarrow> raw_record" where
  "lifecycle_event ev payload = zero_raw_record\<lparr>rr_EventType := ev, rr_Payload := payload\<rparr>"

lemma fenced_events_ignored:
  assumes "tr_status s = TASK_STATUS_QUEUED" and "e \<noteq> 0" and "e \<le> tr_redeliveredLeaseEpoch s"
    and "taskEventLeaseEpoch cd started = e" and "taskEventLeaseEpoch cd completed_payload = e"
  shows "fold_result (applyRaw cd) s [lifecycle_event ''TaskStarted'' started, lifecycle_event ''TaskCompleted'' completed_payload] = Inr s"
proof -
  have "apply_started cd started s = s"
    using assms by (simp add: apply_started_def taskEventLeaseEpoch_def isTerminalTaskStatus_def Let_def)
  moreover have "apply_terminal cd TASK_STATUS_SUCCEEDED completed_payload s = s"
    using assms by (simp add: apply_terminal_def taskTerminalEventApplies_def Let_def isTerminalTaskStatus_def)
  ultimately show ?thesis by (simp add: applyRaw_def lifecycle_event_def Let_def)
qed

text \<open>
  C38. A restart can hand out a lease epoch that the log has already fenced off. When a task was leased
  and redelivered without having been started, the replay remembers the redelivered epoch but
  \<open>finalTask\<close> restores only the started one. The next lease after the restart gets the redelivered
  epoch again, and its completion is accepted by the metadata store; a second replay ignores the start and
  the completion, and the finished task is queued once more.\<close>
theorem restart_reuses_redelivered_epoch:
  assumes "tr_status s = TASK_STATUS_QUEUED" and "e = tr_leaseEpoch s + 1" and "e \<noteq> 0"
    and "e \<le> tr_redeliveredLeaseEpoch s" and "w \<noteq> ''''"
    and "taskEventLeaseEpoch cd started = e" and "taskEventLeaseEpoch cd finished = e"
  defines "taskID \<equiv> tk_TaskID (tr_task s)"
  shows "\<exists>store1 leased_task store2 done.
      LeaseTask taskID w now1 (fst (CreateTask (snd (finalTask s)) '''' now0 NewLegacyMemoryStore)) = (store1, Inr leased_task) \<and>
      tk_TaskLeaseEpoch leased_task = e \<and>
      CompleteTask taskID w e TASK_STATUS_SUCCEEDED res '''' now2 store1 = (store2, Inr done) \<and>
      tk_Status done = TASK_STATUS_SUCCEEDED \<and>
      map_sum id (\<lambda>x. tk_Status (snd (finalTask x)))
        (fold_result (applyRaw cd) s [lifecycle_event ''TaskStarted'' started, lifecycle_event ''TaskCompleted'' finished])
        = Inr TASK_STATUS_QUEUED"
proof -
  have f: "fold_result (applyRaw cd) s [lifecycle_event ''TaskStarted'' started, lifecycle_event ''TaskCompleted'' finished] = Inr s"
    using assms(1,3,4,6,7) by (rule fenced_events_ignored)
  have q: "tk_Status (snd (finalTask s)) = TASK_STATUS_QUEUED" using assms(1) by (simp add: finalTask_def Let_def)
  have st: "ms_tasks (fst (CreateTask (snd (finalTask s)) '''' now0 NewLegacyMemoryStore)) taskID =
      Some (stamp_new (snd (finalTask s)) '''' now0)"
    by (simp add: CreateTask_def Let_def taskID_def finalTask_def stamp_new_def cloneTask_def)
  have ep: "tk_TaskLeaseEpoch (snd (finalTask s)) = tr_leaseEpoch s" by (simp add: finalTask_def Let_def)
  show ?thesis
    unfolding f using assms(3,5) q ep by (simp add: LeaseTask_def st CompleteTask_def Let_def leased_def stamp_new_def cloneTask_def
        check_lease_def completed_def assms(2))
qed

theorem restart_reuses_redelivered_epoch_witness:
  "\<exists>store1 leased_task store2 done s.
      fold_result (applyRaw demo_task_codecs) initial_replay [demo_event ''TaskSubmitted'' [0], demo_event ''TaskRedelivered'' [1]] = Inr s \<and>
      LeaseTask (tk_TaskID (tr_task s)) ''w'' 2 (fst (CreateTask (snd (finalTask s)) '''' 1 NewLegacyMemoryStore)) = (store1, Inr leased_task) \<and>
      tk_TaskLeaseEpoch leased_task = 1 \<and>
      CompleteTask (tk_TaskID (tr_task s)) ''w'' 1 TASK_STATUS_SUCCEEDED [9] '''' 3 store1 = (store2, Inr done) \<and>
      tk_Status done = TASK_STATUS_SUCCEEDED \<and>
      map_sum id (\<lambda>x. tk_Status (snd (finalTask x))) (fold_result (applyRaw demo_task_codecs) s
        [lifecycle_event ''TaskStarted'' [1], lifecycle_event ''TaskCompleted'' [1, 9]]) = Inr TASK_STATUS_QUEUED"
proof -
  obtain s where s: "fold_result (applyRaw demo_task_codecs) initial_replay [demo_event ''TaskSubmitted'' [0], demo_event ''TaskRedelivered'' [1]] = Inr s"
      "tr_status s = TASK_STATUS_QUEUED" "tr_leaseEpoch s = 0" "tr_redeliveredLeaseEpoch s = 1"
    by (simp add: demo_replay_eval)
  have e: "taskEventLeaseEpoch demo_task_codecs [1] = 1" "taskEventLeaseEpoch demo_task_codecs [1, 9] = 1"
    by (simp_all add: demo_replay_eval)
  from restart_reuses_redelivered_epoch[OF s(2) _ _ _ _ e, of "''w''" 2 1 "[9]" 3] s show ?thesis by auto
qed

end
