(* ===== verification/Control_State.thy ===== *)
theory Control_State
  imports Task_Replay Scheduler Log_Client
begin

text \<open>
  The state of the control service (\<open>Service\<close>, internal/control/service.go), what it uses of the world,
  and the actions its handlers are built from.

  A handler is an action: a function from the service state to the next state and a result or an
  error. Locks are not part of the state: a handler runs as one step. The metadata store is the
  reference store of \<open>Metadata_Memory\<close>.

  What is not in this repository, or is another process, is the record \<open>control_env\<close> over a world of
  any type: the log client, the object store, the clock and the random source change the world;
  encoders are functions. Each reading of the clock is a separate action.
\<close>

named_theorems act_defs "the primitive actions"

subsection \<open>Errors\<close>

datatype control_error =
    Invalid string
  | LogFailed log_error
  | LogReadFailed string
  | MetaFailed meta_error
  | CodecFailed codec_error
  | WorkflowFailed wf_error
  | ActorFailed string
  | ObjectFailed string
  | PersistFailed string
  | Backpressure
  | IdempotencyConflict string
  | NoActiveActorWorker
  | StaleActorCompletion
  | OutOfOrderCommand
  | ContextDone
  | Blocked
  | OutOfFuel

subsection \<open>Data\<close>

datatype scheduling_policy =
    SCHEDULING_POLICY_UNSPECIFIED
  | SCHEDULING_POLICY_RESOURCE_ONLY
  | SCHEDULING_POLICY_LOCALITY_AWARE
  | SCHEDULING_POLICY_PREDICTED_LATENCY

record function_payload =
  fp_FunctionHash :: string
  fp_SourceRef :: string
  fp_Language :: string
  fp_Entrypoint :: string
  fp_TimestampMs :: i64

record llm_payload =
  lm_TaskID :: string
  lm_ModelName :: string
  lm_ModelVersion :: string
  lm_WorkerID :: string
  lm_CacheHit :: bool
  lm_CheckpointFetchMs :: i64
  lm_CacheUsedBytes :: i64
  lm_CacheCapacityBytes :: i64
  lm_EvictionCount :: i64
  lm_ModelLoadMs :: i64
  lm_FirstTokenMs :: i64
  lm_TotalLatencyMs :: i64
  lm_TimestampMs :: i64

type_synonym llm_key = "string \<times> string \<times> string"

text \<open>JSON values as \<open>encoding/json\<close> decodes them into \<open>any\<close>; an object is its list of members.\<close>

datatype json = JNull | JBool bool | JNumber string | JString string | JArray "json list" | JObject "(string \<times> json) list"

text \<open>The maps that handlers write with \<open>json.Marshal\<close> as event payloads.\<close>

datatype sys_payload =
    BackpressurePayload u32 i64 i64 i64
  | RedeliveredPayload string string u64 i64
  | WorkerPayload string string "string \<rightharpoonup> string" "(string \<times> string) list" u32
  | ModelPayload model_info
  | PolicyPayload scheduling_policy i64
  | FunctionPayload function_payload

text \<open>The keys of a map, for the order in which the runtime yields them.\<close>

definition keys_of :: "('k \<rightharpoonup> 'v) \<Rightarrow> 'k \<Rightarrow> bool" where
  "keys_of m k \<longleftrightarrow> \<not> Option.is_none (m k)"

record 'w control_env =
  ce_append :: "append_request \<Rightarrow> 'w \<Rightarrow> 'w \<times> (log_error + append_response)"
  ce_trim :: "string \<Rightarrow> u64 \<Rightarrow> 'w \<Rightarrow> 'w \<times> (log_error + trim_response)"
  ce_read :: "string \<Rightarrow> u64 \<Rightarrow> 'w \<Rightarrow> raw_record list \<times> string option"
  ce_put :: "string list \<Rightarrow> bytes \<Rightarrow> 'w \<Rightarrow> 'w \<times> (string + string)"
  ce_get :: "string \<Rightarrow> 'w \<Rightarrow> string + bytes"
  ce_now :: "'w \<Rightarrow> 'w \<times> i64"
  ce_elapsed :: "'w \<Rightarrow> 'w \<times> i64"
  ce_stamp :: "'w \<Rightarrow> 'w \<times> string"
  ce_random :: "'w \<Rightarrow> 'w \<times> string"
  ce_order :: "(string \<Rightarrow> bool) \<Rightarrow> string list"
  ce_persisted :: "'w \<Rightarrow> string option"
  ce_task :: "json task_codecs"
  ce_workflow :: wf_codecs
  ce_actor :: actor_codecs
  ce_compact :: "bytes \<Rightarrow> bytes option"
  ce_sys :: "sys_payload \<Rightarrow> bytes"
  ce_llm :: "bytes \<Rightarrow> string + llm_payload"
  ce_definitionJSON :: "wf_definition \<Rightarrow> string + bytes"
  ce_marshal :: "json \<Rightarrow> string + bytes"
  ce_unmarshal :: "bytes \<Rightarrow> string + json"
  ce_sha256 :: "bytes \<Rightarrow> string"

record 'w service =
  sv_world :: 'w
  sv_meta :: memory_store
  sv_queue :: "string list"
  sv_scheduler :: scheduler
  sv_schedulerV2 :: bool
  sv_specs :: "string \<rightharpoonup> task_spec"
  sv_llmStats :: "(llm_key \<times> llm_worker_stats) list"
  sv_resultStore :: bool
  sv_functionStore :: bool
  sv_resultInlineThreshold :: int
  sv_functions :: "string \<rightharpoonup> function_payload"
  sv_schedulingPolicy :: scheduling_policy
  sv_queueHighWatermark :: u32
  sv_redeliveryTimeout :: i64
  sv_logAppendSlowLimit :: i64
  sv_lastLogAppendMs :: i64
  sv_notified :: nat

definition defaultResultInlineThreshold :: int where "defaultResultInlineThreshold = 4096"
definition defaultQueueHighWatermark :: u32 where "defaultQueueHighWatermark = 1024"
definition defaultPollBatchLimit :: nat where "defaultPollBatchLimit = 64"

text \<open>Durations are nanoseconds, as \<open>time.Duration\<close> has them.\<close>

definition millis :: "i64 \<Rightarrow> i64" where "millis n = wrap64 (n * 1000000)"
definition actorOwnerLease :: i64 where "actorOwnerLease = 750 * 1000000"
definition schedulerWorkerLease :: i64 where "schedulerWorkerLease = 5 * 1000000000"
definition defaultRedeliveryTimeout :: i64 where "defaultRedeliveryTimeout = 30 * 1000000000"
definition maxPollWaitTimeout :: i64 where "maxPollWaitTimeout = 5 * 1000000000"

text \<open>\<open>hasStore\<close> says whether a result store is configured; the function store falls back to a local one.\<close>

definition NewServiceWithResultStore :: "bool \<Rightarrow> bool \<Rightarrow> int \<Rightarrow> bool \<Rightarrow> 'w \<Rightarrow> memory_store \<Rightarrow> 'w service" where
  "NewServiceWithResultStore hasStore localStore threshold v2 world meta =
     \<lparr>sv_world = world, sv_meta = meta, sv_queue = [], sv_scheduler = newScheduler, sv_schedulerV2 = v2,
      sv_specs = Map.empty, sv_llmStats = [], sv_resultStore = hasStore, sv_functionStore = (hasStore \<or> localStore),
      sv_resultInlineThreshold = (if threshold \<le> 0 then defaultResultInlineThreshold else threshold),
      sv_functions = Map.empty, sv_schedulingPolicy = SCHEDULING_POLICY_LOCALITY_AWARE,
      sv_queueHighWatermark = defaultQueueHighWatermark, sv_redeliveryTimeout = defaultRedeliveryTimeout,
      sv_logAppendSlowLimit = 0, sv_lastLogAppendMs = 0, sv_notified = 0\<rparr>"

subsection \<open>Actions\<close>

type_synonym ('w, 'a) act = "'w service \<Rightarrow> 'w service \<times> (control_error + 'a)"

definition ret :: "'a \<Rightarrow> ('w, 'a) act" where "ret x s = (s, Inr x)"
definition fail :: "control_error \<Rightarrow> ('w, 'a) act" where "fail e s = (s, Inl e)"
definition liftR :: "control_error + 'a \<Rightarrow> ('w, 'a) act" where "liftR r s = (s, r)"
definition asks :: "('w service \<Rightarrow> 'a) \<Rightarrow> ('w, 'a) act" where "asks f s = (s, Inr (f s))"
definition modify :: "('w service \<Rightarrow> 'w service) \<Rightarrow> ('w, unit) act" where "modify f s = (f s, Inr ())"

definition andThen :: "('w, 'a) act \<Rightarrow> ('a \<Rightarrow> ('w, 'b) act) \<Rightarrow> ('w, 'b) act" where
  "andThen m f s = (case m s of (s1, Inl e) \<Rightarrow> (s1, Inl e) | (s1, Inr x) \<Rightarrow> f x s1)"

text \<open>An error that the caller inspects or ignores.\<close>

definition attempt :: "('w, 'a) act \<Rightarrow> ('w, control_error + 'a) act" where
  "attempt m s = (case m s of (s1, r) \<Rightarrow> (s1, Inr r))"

definition require :: "bool \<Rightarrow> control_error \<Rightarrow> ('w, unit) act" where
  "require c e = (if c then ret () else fail e)"

definition inWorld :: "('w \<Rightarrow> 'w \<times> 'a) \<Rightarrow> ('w, 'a) act" where
  "inWorld f s = (case f (sv_world s) of (w, x) \<Rightarrow> (s\<lparr>sv_world := w\<rparr>, Inr x))"

definition inMeta :: "(memory_store \<Rightarrow> memory_store \<times> 'a) \<Rightarrow> ('w, 'a) act" where
  "inMeta f s = (case f (sv_meta s) of (m, x) \<Rightarrow> (s\<lparr>sv_meta := m\<rparr>, Inr x))"

definition asksMeta :: "(memory_store \<Rightarrow> 'a) \<Rightarrow> ('w, 'a) act" where
  "asksMeta f s = (s, Inr (f (sv_meta s)))"

definition onScheduler :: "(scheduler \<Rightarrow> scheduler) \<Rightarrow> ('w, unit) act" where
  "onScheduler f s = (s\<lparr>sv_scheduler := f (sv_scheduler s)\<rparr>, Inr ())"

fun forAll :: "('a \<Rightarrow> ('w, unit) act) \<Rightarrow> 'a list \<Rightarrow> ('w, unit) act" where
  "forAll f [] = ret ()"
| "forAll f (x # xs) = andThen (f x) (\<lambda>_. forAll f xs)"

lemmas [act_defs] = ret_def fail_def liftR_def asks_def modify_def andThen_def attempt_def require_def inWorld_def
  inMeta_def asksMeta_def onScheduler_def

text \<open>The clock has nanoseconds; \<open>UnixMilli\<close> rounds down and \<open>Time.Sub\<close> saturates.\<close>

definition now :: "'w control_env \<Rightarrow> ('w, i64) act" where "now env = inWorld (ce_now env)"

definition nowMs :: "'w control_env \<Rightarrow> ('w, i64) act" where
  "nowMs env = andThen (now env) (\<lambda>ns. ret (ns div 1000000))"

definition since :: "i64 \<Rightarrow> i64 \<Rightarrow> i64" where
  "since ns ms = max (- (2 ^ 63)) (min (2 ^ 63 - 1) (ns - ms * 1000000))"

text \<open>\<open>Duration.Milliseconds\<close> rounds towards zero.\<close>

definition Milliseconds :: "i64 \<Rightarrow> i64" where
  "Milliseconds d = (if d < 0 then - (- d div 1000000) else d div 1000000)"

text \<open>A metadata operation that reads the clock itself.\<close>

definition metaAt :: "'w control_env \<Rightarrow> (i64 \<Rightarrow> memory_store \<Rightarrow> memory_store \<times> 'a) \<Rightarrow> ('w, 'a) act" where
  "metaAt env f = andThen (nowMs env) (\<lambda>t. inMeta (f t))"

definition metaResult :: "'w control_env \<Rightarrow> (i64 \<Rightarrow> memory_store \<Rightarrow> memory_store \<times> (meta_error + 'a)) \<Rightarrow> ('w, 'a) act" where
  "metaResult env f = andThen (metaAt env f) (\<lambda>r. liftR (map_sum MetaFailed id r))"

subsection \<open>The log\<close>

definition taskStream :: "string \<Rightarrow> string" where "taskStream taskID = ''task:'' @ taskID"
definition workflowStream :: "string \<Rightarrow> string" where "workflowStream workflowID = ''wf:'' @ workflowID"
definition actorStream :: "string \<Rightarrow> string" where "actorStream actorID = ''actor:'' @ actorID"
definition llmStream :: "string \<Rightarrow> string" where "llmStream taskID = ''llm:'' @ taskID"

definition appendLog :: "'w control_env \<Rightarrow> append_request \<Rightarrow> ('w, append_response) act" where
  "appendLog env req =
     andThen (inWorld (ce_append env req)) (\<lambda>resp.
     andThen (inWorld (ce_elapsed env)) (\<lambda>elapsed.
     andThen (modify (\<lambda>s. s\<lparr>sv_lastLogAppendMs := (if elapsed = 0 then 1 else elapsed)\<rparr>)) (\<lambda>_.
     liftR (map_sum LogFailed id resp))))"

definition event :: "string \<Rightarrow> string \<Rightarrow> string \<Rightarrow> bytes \<Rightarrow> append_request" where
  "event streamID ev key payload = \<lparr>rq_StreamID = streamID, rq_EventType = ev, rq_IdempotencyKey = key, rq_Payload = payload\<rparr>"

text \<open>\<open>payload, _ := Marshal(...)\<close>: an encoding error leaves the payload nil.\<close>

definition ignored :: "'e + bytes \<Rightarrow> bytes" where
  "ignored r = (case r of Inl _ \<Rightarrow> [] | Inr data \<Rightarrow> data)"

definition metadataPersisted :: "'w control_env \<Rightarrow> ('w, unit) act" where
  "metadataPersisted env =
     andThen (asks (\<lambda>s. ce_persisted env (sv_world s))) (\<lambda>err.
       case err of None \<Rightarrow> ret () | Some e \<Rightarrow> fail (PersistFailed e))"

subsection \<open>Formatting\<close>

fun decimal :: "nat \<Rightarrow> string" where
  "decimal n = (if n < 10 then [char_of (48 + n)] else decimal (n div 10) @ [char_of (48 + n mod 10)])"

declare decimal.simps [simp del]

definition decimal_int :: "int \<Rightarrow> string" where
  "decimal_int i = (if i < 0 then ''-'' @ decimal (nat (- i)) else decimal (nat i))"

definition newTaskID :: "'w control_env \<Rightarrow> ('w, string) act" where
  "newTaskID env = andThen (inWorld (ce_random env)) (\<lambda>r. ret (''task-'' @ r))"

definition newWorkflowID :: "'w control_env \<Rightarrow> ('w, string) act" where
  "newWorkflowID env = andThen (inWorld (ce_random env)) (\<lambda>r. ret (''wf-'' @ r))"

definition newActorID :: "'w control_env \<Rightarrow> ('w, string) act" where
  "newActorID env = andThen (inWorld (ce_random env)) (\<lambda>r. ret (''actor-'' @ r))"

definition newActorCallID :: "'w control_env \<Rightarrow> ('w, string) act" where
  "newActorCallID env = andThen (inWorld (ce_random env)) (\<lambda>r. ret (''actor-call-'' @ r))"

text \<open>The UTF-8 encodings of the characters that \<open>unicode.IsSpace\<close> accepts.\<close>

definition space_encodings :: "string list" where
  "space_encodings =
     map (\<lambda>n. [char_of n]) [9, 10, 11, 12, 13, 32 :: nat] @
     [[CHR 0xC2, CHR 0x85], [CHR 0xC2, CHR 0xA0], [CHR 0xE1, CHR 0x9A, CHR 0x80], [CHR 0xE2, CHR 0x80, CHR 0xA8],
      [CHR 0xE2, CHR 0x80, CHR 0xA9], [CHR 0xE2, CHR 0x80, CHR 0xAF], [CHR 0xE2, CHR 0x81, CHR 0x9F], [CHR 0xE3, CHR 0x80, CHR 0x80]] @
     map (\<lambda>n. [CHR 0xE2, CHR 0x80, char_of n]) [0x80 ..< 0x8B :: nat]"

definition starts_with :: "string \<Rightarrow> string \<Rightarrow> bool" where
  "starts_with p s = (take (length p) s = p)"

fun trim_left :: "nat \<Rightarrow> string \<Rightarrow> string" where
  "trim_left 0 s = s"
| "trim_left (Suc n) s =
     (case List.find (\<lambda>p. starts_with p s) space_encodings of None \<Rightarrow> s | Some p \<Rightarrow> trim_left n (drop (length p) s))"

fun trim_right :: "nat \<Rightarrow> string \<Rightarrow> string" where
  "trim_right 0 s = s"
| "trim_right (Suc n) s =
     (case List.find (\<lambda>p. starts_with (rev p) (rev s)) space_encodings of None \<Rightarrow> s
      | Some p \<Rightarrow> trim_right n (take (length s - length p) s))"

text \<open>Each round removes a byte at least, so the length bounds the rounds.\<close>

definition TrimSpace :: "string \<Rightarrow> string" where
  "TrimSpace s = (let l = trim_left (length s) s in trim_right (length l) l)"

subsection \<open>Configuration and workers\<close>

definition useSchedulerV2 :: "'w service \<Rightarrow> bool" where
  "useSchedulerV2 s = sv_schedulerV2 s"

definition notifyTaskAvailable :: "('w, unit) act" where
  "notifyTaskAvailable = modify (\<lambda>s. s\<lparr>sv_notified := sv_notified s + 1\<rparr>)"

definition pollBatchLimit :: "u32 \<Rightarrow> nat" where
  "pollBatchLimit requested =
     (if requested = 0 then 1 else if defaultPollBatchLimit < unat requested then defaultPollBatchLimit else unat requested)"

definition pollWaitTimeout :: "i64 \<Rightarrow> i64" where
  "pollWaitTimeout waitMs =
     (if waitMs \<le> 0 then 0
      else let wait = millis waitMs in if maxPollWaitTimeout < wait then maxPollWaitTimeout else wait)"

definition syncSchedulerLLMStats :: "('w, unit) act" where
  "syncSchedulerLLMStats = modify (\<lambda>s. s\<lparr>sv_scheduler := SyncLLMStats (sv_llmStats s) (sv_scheduler s)\<rparr>)"

definition activeWorkers :: "'w control_env \<Rightarrow> i64 \<Rightarrow> ('w, meta_worker list) act" where
  "activeWorkers env maxAge =
     andThen (nowMs env) (\<lambda>t. asksMeta (\<lambda>m. ActiveWorkers (ce_order env (keys_of (ms_workers m))) maxAge t m))"

definition upsertWorkers :: "meta_worker list \<Rightarrow> scheduler \<Rightarrow> scheduler" where
  "upsertWorkers ws sch = foldl (\<lambda>sch w. UpsertWorker (worker.truncate w) sch) sch ws"

definition syncActiveSchedulerWorkers :: "'w control_env \<Rightarrow> ('w, unit) act" where
  "syncActiveSchedulerWorkers env =
     andThen (activeWorkers env schedulerWorkerLease) (\<lambda>ws. onScheduler (upsertWorkers ws))"

definition syncSchedulerWorkers :: "'w control_env \<Rightarrow> ('w, unit) act" where
  "syncSchedulerWorkers env =
     andThen (asksMeta (\<lambda>m. ListWorkers (ce_order env (keys_of (ms_workers m))) m)) (\<lambda>ws.
     andThen (onScheduler (upsertWorkers ws)) (\<lambda>_. syncSchedulerLLMStats))"

definition hydrateSchedulerWorkersIfNeeded :: "'w control_env \<Rightarrow> ('w, unit) act" where
  "hydrateSchedulerWorkersIfNeeded env =
     andThen (asks (\<lambda>s. WorkerCount (sv_scheduler s))) (\<lambda>n.
       if 0 < n then ret () else syncActiveSchedulerWorkers env)"

definition updateSchedulerWorker :: "string \<Rightarrow> ('w, unit) act" where
  "updateSchedulerWorker workerID =
     (if workerID = '''' then ret ()
      else andThen (asksMeta (GetWorker workerID)) (\<lambda>w.
        case w of None \<Rightarrow> ret () | Some worker \<Rightarrow> onScheduler (UpsertWorker (worker.truncate worker))))"

definition completeSchedulerRunning :: "string \<Rightarrow> ('w, unit) act" where
  "completeSchedulerRunning taskID = onScheduler (CompleteRunning taskID)"

definition schedulerSnapshot :: "'w control_env \<Rightarrow> string \<Rightarrow> 'w service \<Rightarrow> worker_snapshot" where
  "schedulerSnapshot env workerID s =
     (let m = sv_meta s;
          owned = filter (\<lambda>a. as_OwnerWorkerID a = workerID) (ListActors (ce_order env (keys_of (ms_actors m))) m)
      in \<lparr>ws_WorkerID = workerID, ws_ActorIDs = sort (map as_ActorID owned),
          ws_ActorNextSeq = map_of (rev (map (\<lambda>a. (as_ActorID a, as_CommandCount a + 1)) owned)),
          ws_CachedModels = (case GetWorker workerID m of None \<Rightarrow> [] | Some w \<Rightarrow> modelKeySet (wk_CachedModels w))\<rparr>)"

definition schedulerMetaFromTask :: "task \<Rightarrow> sched_meta" where
  "schedulerMetaFromTask tk =
     \<lparr>sm_TaskID = tk_TaskID tk, sm_TaskType = TaskKindGeneral, sm_TargetWorker = tk_TargetWorkerID tk, sm_ActorID = tk_ActorID tk,
      sm_CommandSeq = tk_ActorCommandSeq tk, sm_ModelName = tk_LLMModelName tk, sm_ModelVersion = tk_LLMModelVersion tk,
      sm_CreatedAtMs = tk_CreatedAtMs tk, sm_LeaseEpoch = tk_TaskLeaseEpoch tk, sm_RunningWorker = tk_WorkerID tk\<rparr>"

definition schedulerLeaseDeadlineMs :: "task \<Rightarrow> i64 \<Rightarrow> i64" where
  "schedulerLeaseDeadlineMs tk timeout =
     (if timeout \<le> 0 \<or> tk_UpdatedAtMs tk = 0 then 0 else add64 (tk_UpdatedAtMs tk) (duration_ms timeout))"

definition specForTask :: "string \<Rightarrow> 'w service \<Rightarrow> task_spec option" where
  "specForTask taskID s = map_option cloneSpec (sv_specs s taskID)"

end
