(* ===== verification/Control_Tasks.thy ===== *)
theory Control_Tasks
  imports Control_State
begin

text \<open>
  Tasks in the control service: the function registry (internal/control/functions.go), the choice of a
  worker for model tasks (llm.go), submission and polling (service.go) and redelivery (hardening.go).
\<close>

subsection \<open>The function registry\<close>

definition functionRegistryStream :: string where
  "functionRegistryStream = ''system:functions''"

definition functionEntrypoint :: "string \<Rightarrow> string" where
  "functionEntrypoint name0 =
     (let name = TrimSpace name0 in if name = '''' \<or> CHR '':'' \<in> set name then name else ''module:'' @ name)"

definition requiresPythonFunction :: "task_spec \<Rightarrow> bool" where
  "requiresPythonFunction spec \<longleftrightarrow> sp_LlmModelName spec = '''' \<and> sp_ActorId spec = ''''"

definition putBytes :: "'w control_env \<Rightarrow> string list \<Rightarrow> bytes \<Rightarrow> ('w, string) act" where
  "putBytes env ns data = andThen (inWorld (ce_put env ns data)) (\<lambda>r. liftR (map_sum ObjectFailed id r))"

text \<open>The hash of a request: given, computed from the source, or in conflict.\<close>

definition function_hash :: "'w control_env \<Rightarrow> string \<Rightarrow> string \<Rightarrow> string \<Rightarrow> control_error + string" where
  "function_hash env source requestedRef requestedHash =
     (if source = '''' \<and> requestedRef = '''' \<and> requestedHash = '''' then Inl (Invalid ''function_source or function_hash is required'')
      else if source \<noteq> '''' \<and> requestedHash \<noteq> '''' \<and> requestedHash \<noteq> hashFunctionSource (ce_task env) source
      then Inl (Invalid ''function_hash does not match source hash'')
      else let hash = (if source \<noteq> '''' then hashFunctionSource (ce_task env) source else requestedHash)
           in if hash = '''' then Inl (Invalid ''function_hash is required when function_source is omitted'') else Inr hash)"

definition function_ref :: "'w control_env \<Rightarrow> string \<Rightarrow> string \<Rightarrow> ('w, string) act" where
  "function_ref env source requestedRef =
     (if requestedRef \<noteq> '''' then ret requestedRef
      else if source = '''' then fail (Invalid ''function is not registered and source was omitted'')
      else andThen (asks sv_functionStore) (\<lambda>st.
        if \<not> st then fail (Invalid ''function registry object store is not configured'')
        else putBytes env [''functions''] (bytes_of_string source)))"

definition ensureFunctionRegistered :: "'w control_env \<Rightarrow> string \<Rightarrow> string \<Rightarrow> string \<Rightarrow> string \<Rightarrow> ('w, string \<times> string) act" where
  "ensureFunctionRegistered env entrypoint source requestedRef0 requestedHash0 =
     (let requestedRef = TrimSpace requestedRef0; requestedHash = TrimSpace requestedHash0 in
      andThen (liftR (function_hash env source requestedRef requestedHash)) (\<lambda>hash.
      andThen (asks (\<lambda>s. sv_functions s hash)) (\<lambda>registered.
        case registered of
          Some f \<Rightarrow> ret (fp_SourceRef f, hash)
        | None \<Rightarrow>
            andThen (function_ref env source requestedRef) (\<lambda>ref.
            andThen (nowMs env) (\<lambda>ts.
            let payload = \<lparr>fp_FunctionHash = hash, fp_SourceRef = ref, fp_Language = ''python'',
                  fp_Entrypoint = functionEntrypoint entrypoint, fp_TimestampMs = ts\<rparr> in
            andThen (appendLog env (event functionRegistryStream ''FunctionRegistered'' (hash @ '':registered'')
                (ce_sys env (FunctionPayload payload)))) (\<lambda>_.
            andThen (modify (\<lambda>s. s\<lparr>sv_functions := (sv_functions s)(hash \<mapsto> payload)\<rparr>)) (\<lambda>_.
            ret (ref, hash))))))))"

definition normalizeTaskFunction :: "'w control_env \<Rightarrow> task_spec \<Rightarrow> ('w, task_spec) act" where
  "normalizeTaskFunction env spec =
     (if \<not> requiresPythonFunction spec then ret spec
      else andThen (ensureFunctionRegistered env (sp_FunctionName spec) (sp_FunctionSource spec) (sp_FunctionRef spec) (sp_FunctionHash spec))
        (\<lambda>(ref, hash). ret (spec\<lparr>sp_FunctionRef := ref, sp_FunctionHash := hash, sp_FunctionSource := ''''\<rparr>)))"

subsection \<open>Submission\<close>

definition backlog :: "'w service \<Rightarrow> nat" where
  "backlog s = (if useSchedulerV2 s then QueueDepth (sv_scheduler s) else length (sv_queue s))"

definition checkBackpressure :: "('w, unit) act" where
  "checkBackpressure =
     andThen (asks (\<lambda>s. 0 < sv_logAppendSlowLimit s \<and> sv_logAppendSlowLimit s \<le> millis (sv_lastLogAppendMs s))) (\<lambda>slow.
     andThen (require (\<not> slow) Backpressure) (\<lambda>_.
     andThen (asks (\<lambda>s. 0 < sv_queueHighWatermark s \<and> unat (sv_queueHighWatermark s) \<le> backlog s)) (\<lambda>full.
     require (\<not> full) Backpressure)))"

definition new_task_record :: "task_spec \<Rightarrow> string \<Rightarrow> task" where
  "new_task_record spec fingerprint = zero_task\<lparr>tk_TaskID := sp_TaskId spec, tk_TaskName := sp_TaskName spec,
     tk_Status := TASK_STATUS_QUEUED, tk_WorkflowID := sp_WorkflowId spec, tk_StepID := sp_StepId spec,
     tk_TargetWorkerID := sp_TargetWorkerId spec, tk_ActorID := sp_ActorId spec, tk_ActorCallID := sp_ActorCallId spec,
     tk_ActorEpoch := sp_ActorEpoch spec, tk_TaskLeaseEpoch := sp_TaskLeaseEpoch spec, tk_LLMModelName := sp_LlmModelName spec,
     tk_LLMModelVersion := sp_LlmModelVersion spec, tk_IdempotencyFingerprint := fingerprint\<rparr>"

definition checkFingerprint :: "string \<Rightarrow> string \<Rightarrow> string \<Rightarrow> string \<Rightarrow> ('w, unit) act" where
  "checkFingerprint kind key existing requested =
     require (ensureIdempotencyFingerprint key existing requested) (IdempotencyConflict kind)"

definition enqueue :: "task \<Rightarrow> 'w service \<Rightarrow> 'w service" where
  "enqueue tk s =
     (if useSchedulerV2 s then s\<lparr>sv_scheduler := Enqueue (schedulerMetaFromTask tk) (sv_scheduler s)\<rparr>
      else s\<lparr>sv_queue := sv_queue s @ [tk_TaskID tk]\<rparr>)"

text \<open>From the log record to the queue.\<close>

definition admit :: "'w control_env \<Rightarrow> task_spec \<Rightarrow> string \<Rightarrow> (task \<Rightarrow> task) \<Rightarrow> ('w, task \<times> bool) act" where
  "admit env spec fingerprint mutate =
     andThen (liftR (map_sum CodecFailed id (marshalTaskSubmittedPayload (ce_task env) spec))) (\<lambda>payload.
     andThen (appendLog env (event (taskStream (sp_TaskId spec)) ''TaskSubmitted'' (sp_TaskId spec @ '':submitted'') payload)) (\<lambda>_.
     andThen (metaAt env (\<lambda>t. CreateTask (mutate (new_task_record spec fingerprint)) (sp_IdempotencyKey spec) t)) (\<lambda>(tk, duplicate).
     if duplicate then
       andThen (checkFingerprint ''task'' (sp_IdempotencyKey spec) (tk_IdempotencyFingerprint tk) fingerprint) (\<lambda>_. ret (tk, True))
     else
       andThen (metadataPersisted env) (\<lambda>_.
       andThen (modify (\<lambda>s. s\<lparr>sv_specs := (sv_specs s)(tk_TaskID tk \<mapsto> cloneSpec spec)\<rparr>)) (\<lambda>_.
       andThen (modify (enqueue tk)) (\<lambda>_.
       andThen notifyTaskAvailable (\<lambda>_. ret (tk, False))))))))"

definition enqueueTaskWithMetadata :: "'w control_env \<Rightarrow> task_spec \<Rightarrow> (task \<Rightarrow> task) \<Rightarrow> ('w, task \<times> bool) act" where
  "enqueueTaskWithMetadata env spec0 mutate =
     andThen (if sp_TaskId spec0 = '''' then andThen (newTaskID env) (\<lambda>i. ret (spec0\<lparr>sp_TaskId := i\<rparr>)) else ret spec0) (\<lambda>spec1.
     andThen (normalizeTaskFunction env spec1) (\<lambda>spec.
     andThen (liftR (map_sum CodecFailed id (taskSpecFingerprint (ce_task env) spec))) (\<lambda>fingerprint.
     andThen (asksMeta (GetTaskByIdempotencyKey (sp_IdempotencyKey spec))) (\<lambda>existing.
       case existing of
         Some tk \<Rightarrow>
           andThen (checkFingerprint ''task'' (sp_IdempotencyKey spec) (tk_IdempotencyFingerprint tk) fingerprint) (\<lambda>_. ret (tk, True))
       | None \<Rightarrow> andThen checkBackpressure (\<lambda>_. admit env spec fingerprint mutate)))))"

definition enqueueTask :: "'w control_env \<Rightarrow> task_spec \<Rightarrow> ('w, task \<times> bool) act" where
  "enqueueTask env spec = enqueueTaskWithMetadata env spec id"

subsection \<open>Workers for model tasks\<close>

definition spec_targets_other :: "task_spec \<Rightarrow> string \<Rightarrow> bool" where
  "spec_targets_other spec workerID \<longleftrightarrow>
     sp_ActorId spec = '''' \<and> sp_TargetWorkerId spec \<noteq> '''' \<and> sp_TargetWorkerId spec \<noteq> workerID"

definition created_at :: "string \<Rightarrow> memory_store \<Rightarrow> i64" where
  "created_at taskID m = (case GetTask taskID m of None \<Rightarrow> 0 | Some tk \<Rightarrow> tk_CreatedAtMs tk)"

definition preferredLLMWorker :: "'w control_env \<Rightarrow> string \<Rightarrow> task_spec \<Rightarrow> ('w, string) act" where
  "preferredLLMWorker env taskID spec =
     andThen (asksMeta (created_at taskID)) (\<lambda>createdAtMs.
     andThen (nowMs env) (\<lambda>t.
     andThen (asks (\<lambda>s. PreferLocality (modelKeyFromParts (sp_LlmModelName spec) (sp_LlmModelVersion spec)) createdAtMs t
         localityQueueWait (sv_scheduler s))) (\<lambda>(sch, w).
     andThen (onScheduler (\<lambda>_. sch)) (\<lambda>_. ret w))))"

definition predictedLLMWorker :: "'w control_env \<Rightarrow> string \<Rightarrow> task_spec \<Rightarrow> ('w, string) act" where
  "predictedLLMWorker env taskID spec =
     andThen (asksMeta (created_at taskID)) (\<lambda>createdAtMs.
     andThen (if 0 < createdAtMs then andThen (now env) (\<lambda>ns. ret (Milliseconds (since ns createdAtMs))) else ret 0) (\<lambda>queueDelayMs.
     andThen (hydrateSchedulerWorkersIfNeeded env) (\<lambda>_.
     andThen (asks (\<lambda>s. PreferPredicted (modelKeyFromParts (sp_LlmModelName spec) (sp_LlmModelVersion spec)) queueDelayMs
         localityQueueWait (sv_scheduler s))) (\<lambda>(sch, w).
     andThen (onScheduler (\<lambda>_. sch)) (\<lambda>_. ret w)))))"

definition canAssignTaskToWorker :: "'w control_env \<Rightarrow> string \<Rightarrow> task_spec \<Rightarrow> string \<Rightarrow> ('w, bool) act" where
  "canAssignTaskToWorker env taskID spec workerID =
     (if spec_targets_other spec workerID then ret False
      else if sp_LlmModelName spec = '''' then ret True
      else andThen (asksMeta (GetWorker workerID)) (\<lambda>w.
        case w of
          None \<Rightarrow> ret False
        | Some worker \<Rightarrow>
            if \<not> workerHasCapacity (worker.truncate worker) then ret False
            else andThen (asks sv_schedulingPolicy) (\<lambda>policy.
              if policy = SCHEDULING_POLICY_RESOURCE_ONLY then ret True
              else andThen (if policy = SCHEDULING_POLICY_PREDICTED_LATENCY then predictedLLMWorker env taskID spec
                            else preferredLLMWorker env taskID spec) (\<lambda>preferred.
                ret (preferred = '''' \<or> preferred = workerID)))))"

subsection \<open>Polling the queue\<close>

definition actorMailboxReady :: "task \<Rightarrow> string \<Rightarrow> memory_store \<Rightarrow> bool" where
  "actorMailboxReady tk workerID m =
     (if tk_ActorID tk = '''' then True
      else case GetActor (tk_ActorID tk) m of
             None \<Rightarrow> False
           | Some state \<Rightarrow>
               if as_OwnerWorkerID state = '''' \<or> as_OwnerWorkerID state \<noteq> workerID then False
               else (let commandSeq = (if tk_ActorCommandSeq tk = 0 then as_CommandCount state + 1 else tk_ActorCommandSeq tk)
                     in commandSeq = as_CommandCount state + 1))"

definition leasedTaskSpec :: "task_spec \<Rightarrow> task \<Rightarrow> memory_store \<Rightarrow> task_spec" where
  "leasedTaskSpec spec leased_task m =
     (let leasedSpec = (cloneSpec spec)\<lparr>sp_TaskLeaseEpoch := tk_TaskLeaseEpoch leased_task\<rparr> in
      if tk_ActorID leased_task = '''' then leasedSpec
      else case GetActor (tk_ActorID leased_task) m of
             None \<Rightarrow> leasedSpec
           | Some state \<Rightarrow> leasedSpec\<lparr>sp_TargetWorkerId := as_OwnerWorkerID state, sp_ActorEpoch := as_Epoch state,
               sp_ActorStateJson := [] @ as_StateJSON state\<rparr>)"

definition set_queue_ids :: "string list \<Rightarrow> ('w, unit) act" where
  "set_queue_ids q = modify (\<lambda>s. s\<lparr>sv_queue := q\<rparr>)"

definition lease_one :: "'w control_env \<Rightarrow> string \<Rightarrow> task_spec \<Rightarrow> task \<Rightarrow> string \<Rightarrow> string list \<Rightarrow> ('w, task_spec) act" where
  "lease_one env taskID spec before workerID queue =
     andThen (metaResult env (\<lambda>t. LeaseTask taskID workerID t)) (\<lambda>leased_task.
     andThen (if tk_Status before = TASK_STATUS_QUEUED then metaAt env (\<lambda>t m. (IncrementWorkerLoad workerID t m, ())) else ret ()) (\<lambda>_.
     andThen (set_queue_ids queue) (\<lambda>_.
     asksMeta (leasedTaskSpec spec leased_task))))"

text \<open>The scan: \<open>kept\<close> is the part of the queue before the index, \<open>rest\<close> the part from it on.\<close>

fun poll_scan :: "'w control_env \<Rightarrow> string \<Rightarrow> nat \<Rightarrow> string list \<Rightarrow> string list \<Rightarrow> task_spec list \<Rightarrow> ('w, task_spec list) act" where
  "poll_scan env workerID maxTasks kept [] tasks = ret tasks"
| "poll_scan env workerID maxTasks kept (taskID # rest) tasks =
     (if maxTasks \<le> length tasks then ret tasks
      else andThen (asks (\<lambda>s. (sv_specs s taskID, GetTask taskID (sv_meta s)))) (\<lambda>found.
        case found of
          (Some spec, Some before) \<Rightarrow>
            andThen (asksMeta (actorMailboxReady before workerID)) (\<lambda>ready.
            andThen (if ready then canAssignTaskToWorker env taskID spec workerID else ret False) (\<lambda>ok.
            if \<not> ok then poll_scan env workerID maxTasks (kept @ [taskID]) rest tasks
            else andThen (lease_one env taskID spec before workerID (kept @ rest)) (\<lambda>leasedSpec.
              poll_scan env workerID maxTasks kept rest (tasks @ [leasedSpec]))))
        | _ \<Rightarrow> andThen (set_queue_ids (kept @ rest)) (\<lambda>_. poll_scan env workerID maxTasks kept rest tasks)))"

definition pollTaskLegacy :: "'w control_env \<Rightarrow> string \<Rightarrow> nat \<Rightarrow> ('w, task_spec list) act" where
  "pollTaskLegacy env workerID maxTasks =
     andThen (asks sv_queue) (\<lambda>queue. poll_scan env workerID maxTasks [] queue [])"

subsection \<open>Polling the scheduler\<close>

text \<open>
  The check callback, evaluated while \<open>Assign\<close> holds the scheduler's mutex. With the
  predicted-latency policy the check of a model task asks the scheduler for a worker and waits for
  that mutex for ever; \<open>check_blocks\<close> says when. \<open>Assign\<close> runs with a check that stops at such a
  task, and the poll then never returns.
\<close>

definition check_task :: "'w service \<Rightarrow> string \<Rightarrow> sched_meta \<Rightarrow> (task_spec \<times> task) option" where
  "check_task s workerID meta =
     (case (specForTask (sm_TaskID meta) s, GetTask (sm_TaskID meta) (sv_meta s)) of
        (Some spec, Some tk) \<Rightarrow> if tk_Status tk = TASK_STATUS_QUEUED then Some (spec, tk) else None
      | _ \<Rightarrow> None)"

definition model_worker_free :: "'w service \<Rightarrow> string \<Rightarrow> bool" where
  "model_worker_free s workerID =
     (case GetWorker workerID (sv_meta s) of None \<Rightarrow> False | Some w \<Rightarrow> workerHasCapacity (worker.truncate w))"

definition check_blocks :: "'w service \<Rightarrow> string \<Rightarrow> sched_meta \<Rightarrow> bool" where
  "check_blocks s workerID meta =
     (case check_task s workerID meta of
        None \<Rightarrow> False
      | Some (spec, tk) \<Rightarrow>
          actorMailboxReady tk workerID (sv_meta s) \<and> \<not> spec_targets_other spec workerID \<and> sp_LlmModelName spec \<noteq> '''' \<and>
          model_worker_free s workerID \<and> sv_schedulingPolicy s = SCHEDULING_POLICY_PREDICTED_LATENCY)"

definition canAssignTaskToWorkerIndexed :: "'w service \<Rightarrow> task_spec \<Rightarrow> string \<Rightarrow> bool" where
  "canAssignTaskToWorkerIndexed s spec workerID =
     (if spec_targets_other spec workerID then False
      else if sp_LlmModelName spec = '''' then True
      else model_worker_free s workerID)"

definition assign_check :: "'w service \<Rightarrow> string \<Rightarrow> sched_meta \<Rightarrow> schedulerDecision" where
  "assign_check s workerID meta =
     (if check_blocks s workerID meta then schedulerAssign
      else case check_task s workerID meta of
             None \<Rightarrow> schedulerDrop
           | Some (spec, tk) \<Rightarrow>
               if \<not> actorMailboxReady tk workerID (sv_meta s) then schedulerSkip
               else if \<not> canAssignTaskToWorkerIndexed s spec workerID then schedulerSkip
               else schedulerAssign)"

definition assignNext :: "'w control_env \<Rightarrow> string \<Rightarrow> ('w, sched_meta option) act" where
  "assignNext env workerID =
     andThen (asks id) (\<lambda>s0.
     andThen (nowMs env) (\<lambda>t.
     andThen (asks (\<lambda>s. Assign (schedulerSnapshot env workerID s) t (assign_check s0 workerID) (sv_scheduler s))) (\<lambda>(sch, found).
     andThen (require (\<not> (case found of None \<Rightarrow> False | Some meta \<Rightarrow> check_blocks s0 workerID meta)) Blocked) (\<lambda>_.
     andThen (onScheduler (\<lambda>_. sch)) (\<lambda>_. ret found)))))"

definition lease_indexed :: "'w control_env \<Rightarrow> string \<Rightarrow> task_spec \<Rightarrow> string \<Rightarrow> ('w, task_spec) act" where
  "lease_indexed env taskID spec workerID =
     andThen (metaResult env (\<lambda>t. LeaseTask taskID workerID t)) (\<lambda>leased_task.
     andThen (metaAt env (\<lambda>t m. (IncrementWorkerLoad workerID t m, ()))) (\<lambda>_.
     andThen (updateSchedulerWorker workerID) (\<lambda>_.
     andThen (modify (\<lambda>s. s\<lparr>sv_scheduler := TrackRunning (tk_TaskID leased_task)
         (schedulerLeaseDeadlineMs leased_task (sv_redeliveryTimeout s)) (tk_TaskLeaseEpoch leased_task) (sv_scheduler s)\<rparr>)) (\<lambda>_.
     asksMeta (leasedTaskSpec spec leased_task)))))"

fun indexed_loop :: "'w control_env \<Rightarrow> string \<Rightarrow> nat \<Rightarrow> nat \<Rightarrow> task_spec list \<Rightarrow> ('w, task_spec list) act" where
  "indexed_loop env workerID maxTasks 0 tasks = fail OutOfFuel"
| "indexed_loop env workerID maxTasks (Suc fuel) tasks =
     (if maxTasks \<le> length tasks then ret tasks
      else andThen (assignNext env workerID) (\<lambda>found.
        case found of
          None \<Rightarrow> ret tasks
        | Some meta \<Rightarrow>
            andThen (asks (\<lambda>s. check_task s workerID meta)) (\<lambda>ok.
            case ok of
              None \<Rightarrow> andThen (onScheduler (Forget (sm_TaskID meta))) (\<lambda>_. indexed_loop env workerID maxTasks fuel tasks)
            | Some (spec, before) \<Rightarrow>
                andThen (lease_indexed env (sm_TaskID meta) spec workerID) (\<lambda>leasedSpec.
                indexed_loop env workerID maxTasks fuel (tasks @ [leasedSpec])))))"

definition pollTaskIndexed :: "'w control_env \<Rightarrow> nat \<Rightarrow> string \<Rightarrow> nat \<Rightarrow> ('w, task_spec list) act" where
  "pollTaskIndexed env fuel workerID maxTasks =
     andThen (hydrateSchedulerWorkersIfNeeded env) (\<lambda>_. indexed_loop env workerID maxTasks fuel [])"

subsection \<open>Redelivery\<close>

definition appendTaskRedelivered :: "'w control_env \<Rightarrow> task \<Rightarrow> ('w, unit) act" where
  "appendTaskRedelivered env tk =
     andThen (nowMs env) (\<lambda>t.
     andThen (inWorld (ce_stamp env)) (\<lambda>stamp.
     andThen (appendLog env (event (taskStream (tk_TaskID tk)) ''TaskRedelivered'' (tk_TaskID tk @ '':redelivered:'' @ stamp)
         (ce_sys env (RedeliveredPayload (tk_TaskID tk) (tk_TaskName tk) (tk_TaskLeaseEpoch tk) t)))) (\<lambda>_. ret ())))"

definition lease_expired :: "i64 \<Rightarrow> i64 \<Rightarrow> task \<Rightarrow> bool" where
  "lease_expired ns timeout tk \<longleftrightarrow>
     tk_Status tk = TASK_STATUS_RUNNING \<and> tk_UpdatedAtMs tk \<noteq> 0 \<and> timeout \<le> since ns (tk_UpdatedAtMs tk)"

definition decrementLoad :: "string \<Rightarrow> ('w, unit) act" where
  "decrementLoad workerID = (if workerID = '''' then ret () else inMeta (\<lambda>m. (DecrementWorkerLoad workerID m, ())))"

definition requeueLegacy :: "task \<Rightarrow> ('w, unit) act" where
  "requeueLegacy tk =
     andThen (modify (\<lambda>s. s\<lparr>sv_queue := sv_queue s @ [tk_TaskID tk]\<rparr>)) (\<lambda>_. decrementLoad (tk_WorkerID tk))"

definition redeliverExpiredTasksLegacy :: "'w control_env \<Rightarrow> ('w, unit) act" where
  "redeliverExpiredTasksLegacy env =
     andThen (asks sv_redeliveryTimeout) (\<lambda>timeout.
     if timeout \<le> 0 then ret ()
     else
       andThen (now env) (\<lambda>ns.
       andThen (asksMeta (\<lambda>m. filter (lease_expired ns timeout) (ListTasks (ce_order env (keys_of (ms_tasks m))) m))) (\<lambda>expired.
       if expired = [] then ret ()
       else
         andThen (forAll (appendTaskRedelivered env) expired) (\<lambda>_.
         andThen (metaAt env (\<lambda>t m. RequeueExpiredRunningTasks (ce_order env (keys_of (ms_tasks m))) timeout t m)) (\<lambda>requeued.
         andThen (forAll requeueLegacy requeued) (\<lambda>_.
         if requeued \<noteq> [] then notifyTaskAvailable else ret ()))))))"

definition resyncSchedulerTask :: "task \<Rightarrow> i64 \<Rightarrow> ('w, unit) act" where
  "resyncSchedulerTask tk timeout =
     onScheduler
       (if tk_Status tk = TASK_STATUS_QUEUED then Enqueue (schedulerMetaFromTask tk)
        else if tk_Status tk = TASK_STATUS_RUNNING
        then TrackRunning (tk_TaskID tk) (schedulerLeaseDeadlineMs tk timeout) (tk_TaskLeaseEpoch tk)
        else Forget (tk_TaskID tk))"

text \<open>The first pass: which popped leases are really expired; the others are put right.\<close>

fun valid_leases :: "'w control_env \<Rightarrow> i64 \<Rightarrow> running_lease list \<Rightarrow> ('w, running_lease list) act" where
  "valid_leases env timeout [] = ret []"
| "valid_leases env timeout (lease # rest) =
     andThen (asksMeta (GetTask (rl_taskID lease))) (\<lambda>found.
     case found of
       None \<Rightarrow> andThen (onScheduler (Forget (rl_taskID lease))) (\<lambda>_. valid_leases env timeout rest)
     | Some tk \<Rightarrow>
         if tk_Status tk \<noteq> TASK_STATUS_RUNNING \<or> tk_TaskLeaseEpoch tk \<noteq> rl_leaseEpoch lease
         then andThen (resyncSchedulerTask tk timeout) (\<lambda>_. valid_leases env timeout rest)
         else
           andThen (if tk_UpdatedAtMs tk = 0 then ret True
                    else andThen (now env) (\<lambda>ns. ret (since ns (tk_UpdatedAtMs tk) < timeout))) (\<lambda>fresh.
           if fresh
           then andThen (onScheduler (TrackRunning (tk_TaskID tk) (schedulerLeaseDeadlineMs tk timeout) (tk_TaskLeaseEpoch tk)))
                  (\<lambda>_. valid_leases env timeout rest)
           else andThen (valid_leases env timeout rest) (\<lambda>valid. ret (lease # valid))))"

definition track_again :: "i64 \<Rightarrow> running_lease \<Rightarrow> ('w, unit) act" where
  "track_again timeout lease =
     andThen (asksMeta (GetTask (rl_taskID lease))) (\<lambda>found.
     case found of
       None \<Rightarrow> ret ()
     | Some tk \<Rightarrow>
         if tk_Status tk = TASK_STATUS_RUNNING
         then onScheduler (TrackRunning (tk_TaskID tk) (schedulerLeaseDeadlineMs tk timeout) (tk_TaskLeaseEpoch tk)) else ret ())"

fun append_redeliveries :: "'w control_env \<Rightarrow> i64 \<Rightarrow> running_lease list \<Rightarrow> running_lease list \<Rightarrow> ('w, unit) act" where
  "append_redeliveries env timeout valid [] = ret ()"
| "append_redeliveries env timeout valid (lease # rest) =
     andThen (asksMeta (GetTask (rl_taskID lease))) (\<lambda>found.
     case found of
       None \<Rightarrow> andThen (onScheduler (Forget (rl_taskID lease))) (\<lambda>_. append_redeliveries env timeout valid rest)
     | Some tk \<Rightarrow>
         andThen (attempt (appendTaskRedelivered env tk)) (\<lambda>r.
         case r of
           Inl e \<Rightarrow> andThen (forAll (track_again timeout) valid) (\<lambda>_. fail e)
         | Inr _ \<Rightarrow> append_redeliveries env timeout valid rest))"

fun requeue_valid :: "'w control_env \<Rightarrow> i64 \<Rightarrow> running_lease list \<Rightarrow> nat \<Rightarrow> ('w, nat) act" where
  "requeue_valid env timeout [] n = ret n"
| "requeue_valid env timeout (lease # rest) n =
     andThen (metaAt env (\<lambda>t. RequeueTaskIfLeaseExpired (rl_taskID lease) (rl_leaseEpoch lease) timeout t)) (\<lambda>(tk, requeued).
     if \<not> requeued then
       andThen (asksMeta (GetTask (rl_taskID lease))) (\<lambda>found.
       andThen (case found of Some current \<Rightarrow> resyncSchedulerTask current timeout
                | None \<Rightarrow> onScheduler (Forget (rl_taskID lease))) (\<lambda>_. requeue_valid env timeout rest n))
     else
       andThen (onScheduler (Enqueue (schedulerMetaFromTask tk))) (\<lambda>_.
       andThen (if tk_WorkerID tk = '''' then ret ()
                else andThen (decrementLoad (tk_WorkerID tk)) (\<lambda>_. updateSchedulerWorker (tk_WorkerID tk))) (\<lambda>_.
       requeue_valid env timeout rest (n + 1))))"

definition redeliverExpiredTasksIndexed :: "'w control_env \<Rightarrow> ('w, unit) act" where
  "redeliverExpiredTasksIndexed env =
     andThen (asks sv_redeliveryTimeout) (\<lambda>timeout.
     if timeout \<le> 0 then ret ()
     else
       andThen (nowMs env) (\<lambda>t.
       andThen (asks (\<lambda>s. PopExpiredRunning t (sv_scheduler s))) (\<lambda>(sch, expired).
       andThen (onScheduler (\<lambda>_. sch)) (\<lambda>_.
       if expired = [] then ret ()
       else
         andThen (valid_leases env timeout expired) (\<lambda>valid.
         if valid = [] then ret ()
         else
           andThen (append_redeliveries env timeout valid valid) (\<lambda>_.
           andThen (requeue_valid env timeout valid 0) (\<lambda>n.
           if 0 < n then notifyTaskAvailable else ret ())))))))"

definition redeliverExpiredTasks :: "'w control_env \<Rightarrow> ('w, unit) act" where
  "redeliverExpiredTasks env =
     andThen (asks useSchedulerV2) (\<lambda>v2. if v2 then redeliverExpiredTasksIndexed env else redeliverExpiredTasksLegacy env)"

definition pollTaskNow :: "'w control_env \<Rightarrow> nat \<Rightarrow> string \<Rightarrow> nat \<Rightarrow> ('w, task_spec list) act" where
  "pollTaskNow env fuel workerID maxTasks =
     andThen (redeliverExpiredTasks env) (\<lambda>_.
     andThen (asks useSchedulerV2) (\<lambda>v2.
       if v2 then pollTaskIndexed env fuel workerID maxTasks else pollTaskLegacy env workerID maxTasks))"

text \<open>What the long poll waits for when there is no task at once.\<close>

datatype poll_wakeup = Cancelled | Signalled | TimedOut

definition PollTask :: "'w control_env \<Rightarrow> nat \<Rightarrow> poll_wakeup \<Rightarrow> string \<Rightarrow> u32 \<Rightarrow> i64 \<Rightarrow> ('w, task_spec list) act" where
  "PollTask env fuel wakeup workerID maxTasks waitTimeoutMs =
     (if workerID = '''' then fail (Invalid ''worker_id is required'')
      else
        andThen (pollTaskNow env fuel workerID (pollBatchLimit maxTasks)) (\<lambda>tasks.
        if tasks \<noteq> [] \<or> pollWaitTimeout waitTimeoutMs \<le> 0 then ret tasks
        else (case wakeup of
                Cancelled \<Rightarrow> fail ContextDone
              | Signalled \<Rightarrow> pollTaskNow env fuel workerID (pollBatchLimit maxTasks)
              | TimedOut \<Rightarrow> ret [])))"

end
