(* ===== verification/Control_Workflow.thy ===== *)
theory Control_Workflow
  imports Control_Tasks
begin

text \<open>
  Workflows in the control service: resolution of step arguments (internal/workflow/args.go), scheduling
  of ready steps and the handling of their outcome (internal/control/service.go), normalisation and
  fingerprints of definitions (functions.go, idempotency.go).

  Path components of an object namespace are a list; joining them is left to the object store.
\<close>

subsection \<open>Step arguments\<close>

definition refKey :: string where "refKey = ''__step_ref__''"

definition decodeJSON :: "'w control_env \<Rightarrow> bytes \<Rightarrow> wf_error + json" where
  "decodeJSON env data = (if data = [] then Inr JNull else map_sum DecodeError id (ce_unmarshal env data))"

text \<open>The result of a referenced step, inline or loaded.\<close>

definition step_result :: "'w control_env \<Rightarrow> wf_state \<Rightarrow> (string \<Rightarrow> string + bytes) option \<Rightarrow> string \<Rightarrow> wf_error + json" where
  "step_result env state loader stepID =
     (case Step state stepID of
        None \<Rightarrow> Inl ReferencedStepNotFound
      | Some step \<Rightarrow>
          if ss_ResultJSON step = [] \<and> ss_ResultRef step \<noteq> '''' then
            (case loader of
               None \<Rightarrow> Inl ResultLoaderRequired
             | Some load \<Rightarrow>
                 (case load (ss_ResultRef step) of Inl e \<Rightarrow> Inl (LoaderError e) | Inr data \<Rightarrow> decodeJSON env data))
          else decodeJSON env (ss_ResultJSON step))"

fun resolveValue :: "(string \<Rightarrow> wf_error + json) \<Rightarrow> json \<Rightarrow> wf_error + json"
  and resolveItems :: "(string \<Rightarrow> wf_error + json) \<Rightarrow> json list \<Rightarrow> wf_error + json list"
  and resolveMembers :: "(string \<Rightarrow> wf_error + json) \<Rightarrow> (string \<times> json) list \<Rightarrow> wf_error + (string \<times> json) list" where
  "resolveValue look (JArray items) = map_sum id JArray (resolveItems look items)"
| "resolveValue look (JObject members) =
     (case members of
        [(key, v)] \<Rightarrow>
          if key = refKey then (case v of JString stepID \<Rightarrow> look stepID | _ \<Rightarrow> Inl StepRefNotString)
          else map_sum id JObject (resolveMembers look members)
      | _ \<Rightarrow> map_sum id JObject (resolveMembers look members))"
| "resolveValue look v = Inr v"
| "resolveItems look [] = Inr []"
| "resolveItems look (item # items) =
     bind_result (resolveValue look item) (\<lambda>v. map_sum id (\<lambda>vs. v # vs) (resolveItems look items))"
| "resolveMembers look [] = Inr []"
| "resolveMembers look ((k, item) # members) =
     bind_result (resolveValue look item) (\<lambda>v. map_sum id (\<lambda>vs. (k, v) # vs) (resolveMembers look members))"

definition ResolveArgs :: "'w control_env \<Rightarrow> step_definition \<Rightarrow> wf_state \<Rightarrow> (string \<Rightarrow> string + bytes) option \<Rightarrow>
    wf_error + bytes \<times> string" where
  "ResolveArgs env step state loader =
     bind_result
       (if sd_ArgsJSON step = [] then Inr (JObject [(''args'', JArray []), (''kwargs'', JObject [])])
        else map_sum DecodeError id (ce_unmarshal env (sd_ArgsJSON step))) (\<lambda>value.
     bind_result (resolveValue (step_result env state loader) value) (\<lambda>resolved.
     map_sum DecodeError (\<lambda>data. (data, ce_sha256 env data)) (ce_marshal env resolved)))"

definition ResolveCachedArgs :: "'w control_env \<Rightarrow> step_definition \<Rightarrow> step_state \<Rightarrow> wf_state \<Rightarrow>
    (string \<Rightarrow> string + bytes) option \<Rightarrow> wf_error + bytes \<times> string" where
  "ResolveCachedArgs env step stepState state loader =
     (if ss_LastInputHash stepState \<noteq> '''' \<and> ss_ResolvedArgsJSON stepState \<noteq> []
      then Inr ([] @ ss_ResolvedArgsJSON stepState, ss_LastInputHash stepState)
      else ResolveArgs env step state loader)"

subsection \<open>Results\<close>

definition materializeResult :: "'w control_env \<Rightarrow> string list \<Rightarrow> bytes \<Rightarrow> ('w, bytes \<times> string) act" where
  "materializeResult env namespace resultJSON =
     andThen (asks (\<lambda>s. sv_resultInlineThreshold s < int (length resultJSON) \<and> sv_resultStore s)) (\<lambda>spill.
     if spill then andThen (putBytes env namespace resultJSON) (\<lambda>ref. ret ([], ref))
     else ret ([] @ resultJSON, ''''))"

definition LoadResult :: "'w control_env \<Rightarrow> 'w service \<Rightarrow> string \<Rightarrow> string + bytes" where
  "LoadResult env s ref =
     (if \<not> sv_resultStore s then Inl ''result store is not configured'' else ce_get env ref (sv_world s))"

definition workflowDone :: "wf_state \<Rightarrow> bool" where
  "workflowDone state = AllStepsSucceeded state"

definition workflowEvent :: "'w control_env \<Rightarrow> string \<Rightarrow> string \<Rightarrow> string \<Rightarrow> event_payload \<Rightarrow> ('w, append_response) act" where
  "workflowEvent env workflowID ev key payload =
     appendLog env (event (workflowStream workflowID) ev key (ignored (MarshalEventPayload (tc_encode (ce_task env)) payload)))"

definition updateWorkflow :: "'w control_env \<Rightarrow> string \<Rightarrow> (wf_state \<Rightarrow> wf_state) \<Rightarrow> ('w, wf_state) act" where
  "updateWorkflow env workflowID f = metaResult env (\<lambda>t. UpdateWorkflow workflowID (\<lambda>st. Inr (f st)) t)"

definition completeWorkflow :: "'w control_env \<Rightarrow> wf_state \<Rightarrow> ('w, unit) act" where
  "completeWorkflow env state =
     (case Step state (def_ResultStepID (ws_Definition state)) of
        None \<Rightarrow> fail (Invalid ''workflow result step not found'')
      | Some resultStep \<Rightarrow>
          andThen (if ss_ResultJSON resultStep = [] \<and> ss_ResultRef resultStep \<noteq> ''''
                   then andThen (asks (\<lambda>s. LoadResult env s (ss_ResultRef resultStep))) (\<lambda>r. liftR (map_sum ObjectFailed id r))
                   else ret (ss_ResultJSON resultStep)) (\<lambda>resultJSON.
          andThen (materializeResult env [''workflows'', ws_WorkflowID state, ''result''] resultJSON) (\<lambda>(inline, ref).
          andThen (nowMs env) (\<lambda>t.
          andThen (workflowEvent env (ws_WorkflowID state) ''WorkflowCompleted'' (ws_WorkflowID state @ '':completed'')
            (zero_payload\<lparr>ep_WorkflowID := ws_WorkflowID state, ep_ResultJSON := inline, ep_ResultRef := ref,
               ep_TimestampMs := t, ep_LatencyMs := sub64 t (ws_CreatedAtMs state)\<rparr>)) (\<lambda>_.
          andThen (updateWorkflow env (ws_WorkflowID state) (\<lambda>st. st\<lparr>ws_Status := WORKFLOW_STATUS_COMPLETED,
             ws_ResultJSON := [] @ inline, ws_ResultRef := ref, ws_CompletedAtMs := t, ws_Error := ''''\<rparr>)) (\<lambda>_. ret ()))))))"

definition failWorkflow :: "'w control_env \<Rightarrow> wf_state \<Rightarrow> string \<Rightarrow> ('w, unit) act" where
  "failWorkflow env state taskErr =
     andThen (nowMs env) (\<lambda>t.
     andThen (workflowEvent env (ws_WorkflowID state) ''WorkflowFailed'' (ws_WorkflowID state @ '':failed'')
       (zero_payload\<lparr>ep_WorkflowID := ws_WorkflowID state, ep_Error := taskErr, ep_TimestampMs := t\<rparr>)) (\<lambda>_.
     andThen (updateWorkflow env (ws_WorkflowID state) (\<lambda>st. st\<lparr>ws_Status := WORKFLOW_STATUS_FAILED,
        ws_Error := taskErr, ws_CompletedAtMs := t\<rparr>)) (\<lambda>_. ret ())))"

subsection \<open>Scheduling\<close>

definition step_task_spec :: "string \<Rightarrow> string \<Rightarrow> step_definition \<Rightarrow> bytes \<Rightarrow> string \<Rightarrow> task_spec" where
  "step_task_spec taskID workflowID stepDef argsJSON taskIdem =
     zero_spec\<lparr>sp_TaskId := taskID, sp_TaskName := sd_TaskName stepDef, sp_FunctionName := sd_FunctionName stepDef,
       sp_FunctionSource := sd_FunctionSource stepDef, sp_FunctionRef := sd_FunctionRef stepDef,
       sp_FunctionHash := sd_FunctionHash stepDef, sp_ArgsJson := argsJSON, sp_IdempotencyKey := taskIdem,
       sp_WorkflowId := workflowID, sp_StepId := sd_StepID stepDef, sp_LlmModelName := sd_LLMModelName stepDef,
       sp_LlmModelVersion := sd_LLMModelVersion stepDef, sp_LlmAdapter := sd_LLMAdapter stepDef,
       sp_LlmMaxTokens := sd_LLMMaxTokens stepDef, sp_TimeoutMs := sd_TimeoutMs stepDef\<rparr>"

definition attempt_key :: "string \<Rightarrow> string \<Rightarrow> string \<Rightarrow> u32 \<Rightarrow> string" where
  "attempt_key workflowID stepID inputHash n =
     workflowID @ '':'' @ stepID @ '':'' @ inputHash @ '':attempt:'' @ decimal (unat n)"

definition scheduled_key :: "string \<Rightarrow> string \<Rightarrow> string \<Rightarrow> u32 \<Rightarrow> string" where
  "scheduled_key workflowID stepID inputHash n =
     workflowID @ '':'' @ stepID @ '':'' @ inputHash @ '':scheduled:'' @ decimal (unat n)"

text \<open>One round of the loop, for the step that was taken from the ready queue.\<close>

definition schedule_step :: "'w control_env \<Rightarrow> string \<Rightarrow> wf_state \<Rightarrow> step_definition \<Rightarrow> step_state \<Rightarrow> ('w, unit) act" where
  "schedule_step env workflowID state stepDef step =
     andThen (asks (\<lambda>s. ResolveCachedArgs env stepDef step state (Some (LoadResult env s)))) (\<lambda>r.
     andThen (liftR (map_sum WorkflowFailed id r)) (\<lambda>(argsJSON, inputHash).
     let n = ss_Attempts step + 1 in
     andThen (newTaskID env) (\<lambda>taskID.
     andThen (nowMs env) (\<lambda>t.
     andThen (enqueueTask env (step_task_spec taskID workflowID stepDef argsJSON
         (attempt_key workflowID (sd_StepID stepDef) inputHash n))) (\<lambda>(tk, _).
     andThen (workflowEvent env workflowID ''StepScheduled'' (scheduled_key workflowID (sd_StepID stepDef) inputHash n)
       (zero_payload\<lparr>ep_WorkflowID := workflowID, ep_StepID := sd_StepID stepDef, ep_TaskID := tk_TaskID tk, ep_Attempt := n,
          ep_InputHash := inputHash, ep_ResolvedArgsJSON := Some argsJSON, ep_TimestampMs := t\<rparr>)) (\<lambda>_.
     andThen (updateWorkflow env workflowID (\<lambda>current.
       fst (SetStepScheduled current (sd_StepID stepDef) (tk_TaskID tk) n inputHash (Some argsJSON) t))) (\<lambda>_. ret ())))))))"

fun schedule_loop :: "'w control_env \<Rightarrow> nat \<Rightarrow> string \<Rightarrow> wf_state \<Rightarrow> ('w, unit) act" where
  "schedule_loop env 0 workflowID state = fail OutOfFuel"
| "schedule_loop env (Suc fuel) workflowID state =
     (case PopReadyStep state of
        (state1, None) \<Rightarrow> ret ()
      | (state1, Some (stepDef, step)) \<Rightarrow>
          andThen (schedule_step env workflowID state1 stepDef step) (\<lambda>_.
          andThen (asksMeta (GetWorkflow workflowID)) (\<lambda>next.
          schedule_loop env fuel workflowID (case next of None \<Rightarrow> zero_state | Some st \<Rightarrow> st))))"

text \<open>The fuel: every round takes one more step of the workflow out of the ready ones.\<close>

definition scheduleReadySteps :: "'w control_env \<Rightarrow> string \<Rightarrow> ('w, unit) act" where
  "scheduleReadySteps env workflowID =
     andThen (asksMeta (GetWorkflow workflowID)) (\<lambda>found.
     case found of
       None \<Rightarrow> fail (Invalid ''workflow not found'')
     | Some state \<Rightarrow>
         if ws_Status state \<noteq> WORKFLOW_STATUS_RUNNING then ret ()
         else schedule_loop env (Suc (length (def_Steps (ws_Definition state)))) workflowID state)"

definition withStep :: "string \<Rightarrow> string \<Rightarrow> (wf_state \<Rightarrow> step_state \<Rightarrow> ('w, 'a) act) \<Rightarrow> ('w, 'a) act" where
  "withStep workflowID stepID f =
     andThen (asksMeta (GetWorkflow workflowID)) (\<lambda>found.
     case found of
       None \<Rightarrow> fail (Invalid ''workflow not found'')
     | Some state \<Rightarrow>
         (case Step state stepID of
            None \<Rightarrow> fail (Invalid ''workflow step not found'')
          | Some step \<Rightarrow> f state step))"

definition markWorkflowStepStarted :: "'w control_env \<Rightarrow> task \<Rightarrow> string \<Rightarrow> ('w, unit) act" where
  "markWorkflowStepStarted env tk workerID =
     withStep (tk_WorkflowID tk) (tk_StepID tk) (\<lambda>state step.
     if ss_Status step = WORKFLOW_STEP_STATUS_SUCCEEDED \<or> ss_Status step = WORKFLOW_STEP_STATUS_FAILED then ret ()
     else
       andThen (nowMs env) (\<lambda>t.
       andThen (workflowEvent env (tk_WorkflowID tk) ''StepStarted''
           (tk_WorkflowID tk @ '':'' @ tk_StepID tk @ '':'' @ tk_TaskID tk @ '':started:'' @ workerID)
         (zero_payload\<lparr>ep_WorkflowID := tk_WorkflowID tk, ep_StepID := tk_StepID tk, ep_TaskID := tk_TaskID tk, ep_TimestampMs := t\<rparr>)) (\<lambda>_.
       andThen (updateWorkflow env (tk_WorkflowID tk) (\<lambda>current. fst (SetStepStarted current (tk_StepID tk) (tk_TaskID tk) t)))
         (\<lambda>_. ret ()))))"

definition step_succeeded_event :: "'w control_env \<Rightarrow> task \<Rightarrow> step_state \<Rightarrow> bytes \<Rightarrow> i64 \<Rightarrow> i64 \<Rightarrow> ('w, bool) act" where
  "step_succeeded_event env tk step resultJSON t latencyMs =
     andThen (materializeResult env [''workflows'', tk_WorkflowID tk, ''steps'', tk_StepID tk] resultJSON) (\<lambda>(inline, ref).
     andThen (workflowEvent env (tk_WorkflowID tk) ''StepSucceeded''
         (tk_WorkflowID tk @ '':'' @ tk_StepID tk @ '':'' @ ss_LastInputHash step @ '':succeeded'')
       (zero_payload\<lparr>ep_WorkflowID := tk_WorkflowID tk, ep_StepID := tk_StepID tk, ep_TaskID := tk_TaskID tk,
          ep_ResultJSON := inline, ep_ResultRef := ref, ep_TimestampMs := t, ep_LatencyMs := latencyMs\<rparr>)) (\<lambda>_.
     andThen (updateWorkflow env (tk_WorkflowID tk) (\<lambda>current.
       fst (SetStepSucceeded current (tk_StepID tk) (tk_TaskID tk) inline ref t latencyMs))) (\<lambda>updated.
     if workflowDone updated then andThen (completeWorkflow env updated) (\<lambda>_. ret False) else ret True)))"

definition step_failed_event :: "'w control_env \<Rightarrow> task \<Rightarrow> wf_state \<Rightarrow> step_state \<Rightarrow> string \<Rightarrow> i64 \<Rightarrow> i64 \<Rightarrow> ('w, bool) act" where
  "step_failed_event env tk state step taskErr t latencyMs =
     andThen (workflowEvent env (tk_WorkflowID tk) ''StepFailed''
         (tk_WorkflowID tk @ '':'' @ tk_StepID tk @ '':'' @ tk_TaskID tk @ '':failed'')
       (zero_payload\<lparr>ep_WorkflowID := tk_WorkflowID tk, ep_StepID := tk_StepID tk, ep_TaskID := tk_TaskID tk,
          ep_Error := taskErr, ep_TimestampMs := t, ep_LatencyMs := latencyMs\<rparr>)) (\<lambda>_.
     let retry = (uint (ss_Attempts step) < StepMaxAttempts (ws_Definition state) (tk_StepID tk)) in
     andThen (updateWorkflow env (tk_WorkflowID tk) (\<lambda>current.
       fst (SetStepFailed current (tk_StepID tk) (tk_TaskID tk) taskErr retry t latencyMs))) (\<lambda>updated.
     if retry then ret True else andThen (failWorkflow env updated taskErr) (\<lambda>_. ret False)))"

definition completeWorkflowStep :: "'w control_env \<Rightarrow> task \<Rightarrow> task_status \<Rightarrow> bytes \<Rightarrow> string \<Rightarrow> ('w, bool) act" where
  "completeWorkflowStep env tk st resultJSON taskErr =
     withStep (tk_WorkflowID tk) (tk_StepID tk) (\<lambda>state step.
     if ss_Status step = WORKFLOW_STEP_STATUS_SUCCEEDED then ret False
     else
       andThen (nowMs env) (\<lambda>t.
       let latencyMs = (if 0 < ss_StartedAtMs step then sub64 t (ss_StartedAtMs step) else 0) in
       if st = TASK_STATUS_SUCCEEDED then step_succeeded_event env tk step resultJSON t latencyMs
       else step_failed_event env tk state step taskErr t latencyMs))"

subsection \<open>Definitions\<close>

definition isWorkflowLLMStep :: "step_definition \<Rightarrow> bool" where
  "isWorkflowLLMStep step \<longleftrightarrow> TrimSpace (sd_LLMModelName step) \<noteq> '''' \<or> TrimSpace (sd_FunctionName step) = ''__logserve_llm__''"

definition normalizeWorkflowLLMStep :: "step_definition \<Rightarrow> memory_store \<Rightarrow> control_error + step_definition" where
  "normalizeWorkflowLLMStep step m =
     (let name = TrimSpace (sd_LLMModelName step) in
      if name = '''' then Inl (Invalid ''llm_model_name is required'')
      else
        (let v = TrimSpace (sd_LLMModelVersion step); version = (if v = '''' then ''v1'' else v) in
         case GetModel name version m of
           None \<Rightarrow> Inl (Invalid ''model is not registered'')
         | Some model \<Rightarrow>
             (let a0 = TrimSpace (sd_LLMAdapter step);
                  a1 = (if a0 = '''' then mi_Adapter model else a0);
                  adapter = (if a1 = '''' then ''mock'' else a1)
              in Inr (step\<lparr>sd_LLMModelName := name, sd_FunctionName := ''__logserve_llm__'', sd_FunctionSource := '''',
                    sd_FunctionRef := '''', sd_FunctionHash := '''', sd_LLMModelVersion := version, sd_LLMAdapter := adapter,
                    sd_LLMMaxTokens := (if sd_LLMMaxTokens step = 0 then 64 else sd_LLMMaxTokens step)\<rparr>))))"

definition normalizeStep :: "'w control_env \<Rightarrow> step_definition \<Rightarrow> ('w, step_definition) act" where
  "normalizeStep env step =
     (if isWorkflowLLMStep step
      then andThen (asksMeta (normalizeWorkflowLLMStep step)) liftR
      else andThen (ensureFunctionRegistered env (sd_FunctionName step) (sd_FunctionSource step) (sd_FunctionRef step) (sd_FunctionHash step))
        (\<lambda>(ref, hash). ret (step\<lparr>sd_FunctionRef := ref, sd_FunctionHash := hash, sd_FunctionSource := ''''\<rparr>)))"

fun normalizeSteps :: "'w control_env \<Rightarrow> step_definition list \<Rightarrow> ('w, step_definition list) act" where
  "normalizeSteps env [] = ret []"
| "normalizeSteps env (step # steps) =
     andThen (normalizeStep env step) (\<lambda>step'. andThen (normalizeSteps env steps) (\<lambda>steps'. ret (step' # steps')))"

definition normalizeWorkflowDefinition :: "'w control_env \<Rightarrow> wf_definition \<Rightarrow> ('w, wf_definition) act" where
  "normalizeWorkflowDefinition env def =
     andThen (if TrimSpace (def_FunctionSource def) \<noteq> '''' \<or> TrimSpace (def_FunctionHash def) \<noteq> '''' \<or> TrimSpace (def_FunctionRef def) \<noteq> ''''
              then andThen (ensureFunctionRegistered env (def_WorkflowName def) (def_FunctionSource def) (def_FunctionRef def) (def_FunctionHash def))
                (\<lambda>(ref, hash). ret (def\<lparr>def_FunctionRef := ref, def_FunctionHash := hash, def_FunctionSource := ''''\<rparr>))
              else ret def) (\<lambda>def1.
     andThen (normalizeSteps env (def_Steps def1)) (\<lambda>steps. ret (def1\<lparr>def_Steps := steps\<rparr>)))"

definition workflowFingerprint :: "'w control_env \<Rightarrow> string \<Rightarrow> wf_definition \<Rightarrow> control_error + string" where
  "workflowFingerprint env workflowName def =
     (case ce_definitionJSON env def of
        Inl e \<Rightarrow> Inl (CodecFailed (JSONError e))
      | Inr definition_json \<Rightarrow>
          map_sum CodecFailed id (bind_result (jsonValueForFingerprint (ce_task env) definition_json) (\<lambda>v.
            stableFingerprint (ce_task env) [(''workflow_name'', FString workflowName), (''definition_json'', FJson v)])))"

definition submission_defaults :: "string \<Rightarrow> wf_definition \<Rightarrow> wf_definition" where
  "submission_defaults workflowName def =
     (let def1 = (if def_WorkflowName def = '''' then def\<lparr>def_WorkflowName := workflowName\<rparr> else def)
      in if def_ResultStepID def1 = '''' then def1\<lparr>def_ResultStepID := sd_StepID (last (def_Steps def1))\<rparr> else def1)"

text \<open>The identifier and status of the workflow, as the response has them.\<close>

definition SubmitWorkflow :: "'w control_env \<Rightarrow> string \<Rightarrow> bytes \<Rightarrow> string \<Rightarrow> ('w, string \<times> workflow_status) act" where
  "SubmitWorkflow env workflowName definitionJson idemKey =
     andThen (require (workflowName \<noteq> '''') (Invalid ''workflow_name is required'')) (\<lambda>_.
     andThen (require (definitionJson \<noteq> []) (Invalid ''definition_json is required'')) (\<lambda>_.
     andThen (liftR (map_sum WorkflowFailed id (ParseDefinition (cd_definition (ce_workflow env)) definitionJson))) (\<lambda>def0.
     andThen (require (def_Steps def0 \<noteq> []) (Invalid ''workflow must contain at least one step'')) (\<lambda>_.
     andThen (normalizeWorkflowDefinition env (submission_defaults workflowName def0)) (\<lambda>def.
     andThen (liftR (workflowFingerprint env workflowName def)) (\<lambda>fingerprint.
     andThen (asksMeta (GetWorkflowByIdempotencyKey idemKey)) (\<lambda>existing.
       case existing of
         Some st \<Rightarrow>
           andThen (checkFingerprint ''workflow'' idemKey (ws_IdempotencyFingerprint st) fingerprint)
             (\<lambda>_. ret (ws_WorkflowID st, ws_Status st))
       | None \<Rightarrow>
           andThen (newWorkflowID env) (\<lambda>workflowID.
           andThen (nowMs env) (\<lambda>t.
           let state = (NewState workflowID def t)\<lparr>ws_IdempotencyKey := idemKey, ws_IdempotencyFingerprint := fingerprint\<rparr> in
           andThen (liftR (map_sum (\<lambda>e. CodecFailed (JSONError e)) id (ce_definitionJSON env def))) (\<lambda>data.
           andThen (workflowEvent env workflowID ''WorkflowStarted'' (workflowID @ '':started'')
             (zero_payload\<lparr>ep_WorkflowID := workflowID, ep_WorkflowName := def_WorkflowName def, ep_DefinitionJSON := data,
                ep_IdempotencyKey := idemKey, ep_IdempotencyFingerprint := fingerprint, ep_TimestampMs := t\<rparr>)) (\<lambda>_.
           andThen (inMeta (CreateWorkflow state idemKey)) (\<lambda>(created, duplicate).
           if duplicate then
             andThen (checkFingerprint ''workflow'' idemKey (ws_IdempotencyFingerprint created) fingerprint)
               (\<lambda>_. ret (ws_WorkflowID created, ws_Status created))
           else
             andThen (metadataPersisted env) (\<lambda>_.
             andThen (scheduleReadySteps env workflowID) (\<lambda>_.
             ret (workflowID, WORKFLOW_STATUS_RUNNING)))))))))))))))"

definition ReplayWorkflow :: "'w control_env \<Rightarrow> string \<Rightarrow> ('w, wf_state \<times> bool) act" where
  "ReplayWorkflow env workflowID =
     andThen (asks (\<lambda>s. ce_read env (workflowStream workflowID) 1 (sv_world s))) (\<lambda>it.
     case ReplayRawEach (ce_workflow env) workflowID (Some it) of
       Inl e \<Rightarrow> fail (LogReadFailed ''replay failed'')
     | Inr replayed \<Rightarrow>
         andThen (asksMeta (GetWorkflow workflowID)) (\<lambda>current.
         ret (replayed, case current of None \<Rightarrow> False | Some st \<Rightarrow> Consistent replayed st)))"

end
