(* ===== verification/Control_LLM.thy ===== *)
theory Control_LLM
  imports Control_Tasks
begin

text \<open>
  Models and their statistics in the control service (internal/control/llm.go): registration of models,
  the scheduling policy, submission of prompts, replay of a task's model events, and the weighted
  averages that predicted-latency placement reads.

  Reading a stream yields the records before the first error, if any, and the error.
\<close>

subsection \<open>Models and policy\<close>

definition firstNonEmpty :: "string list \<Rightarrow> string" where
  "firstNonEmpty values = (case List.find (\<lambda>v. v \<noteq> '''') values of None \<Rightarrow> '''' | Some v \<Rightarrow> v)"

definition normalizeModelInfo :: "model_info \<Rightarrow> model_info" where
  "normalizeModelInfo model =
     \<lparr>mi_Name = mi_Name model, mi_Version = (if mi_Version model = '''' then ''v1'' else mi_Version model),
      mi_SizeBytes = mi_SizeBytes model, mi_Path = mi_Path model,
      mi_Adapter = (if mi_Adapter model = '''' then ''mock'' else mi_Adapter model)\<rparr>"

definition modelCacheFromProto :: "(string \<times> string) list \<Rightarrow> (string \<times> bool) list" where
  "modelCacheFromProto entries =
     foldl (\<lambda>out (name, version). if name = '''' then out else AList.update (ModelKey name version) True out) [] entries"

definition service_RegisterModel :: "'w control_env \<Rightarrow> model_info \<Rightarrow> ('w, model_info) act" where
  "service_RegisterModel env model =
     andThen (require (mi_Name model \<noteq> '''') (Invalid ''model.name is required'')) (\<lambda>_.
     let registered = normalizeModelInfo model in
     andThen (now env) (\<lambda>ns.
     andThen (appendLog env (event ''system:models'' ''ModelRegistered''
         (ModelKey (mi_Name registered) (mi_Version registered) @ '':registered:'' @ decimal_int ns)
         (ce_sys env (ModelPayload registered)))) (\<lambda>_.
     andThen (inMeta (RegisterModel registered)) (\<lambda>registeredModel.
     andThen (metadataPersisted env) (\<lambda>_. ret registeredModel)))))"

fun policy_number :: "scheduling_policy \<Rightarrow> nat" where
  "policy_number SCHEDULING_POLICY_UNSPECIFIED = 0"
| "policy_number SCHEDULING_POLICY_RESOURCE_ONLY = 1"
| "policy_number SCHEDULING_POLICY_LOCALITY_AWARE = 2"
| "policy_number SCHEDULING_POLICY_PREDICTED_LATENCY = 3"

definition SetSchedulingPolicy :: "'w control_env \<Rightarrow> scheduling_policy \<Rightarrow> ('w, scheduling_policy) act" where
  "SetSchedulingPolicy env requested =
     (let policy = (if requested = SCHEDULING_POLICY_UNSPECIFIED then SCHEDULING_POLICY_LOCALITY_AWARE else requested) in
      andThen (nowMs env) (\<lambda>t.
      andThen (now env) (\<lambda>ns.
      andThen (appendLog env (event ''system:scheduler'' ''SchedulingPolicyChanged''
          (''policy:'' @ decimal (policy_number policy) @ '':'' @ decimal_int ns) (ce_sys env (PolicyPayload policy t)))) (\<lambda>_.
      andThen (modify (\<lambda>s. s\<lparr>sv_schedulingPolicy := policy\<rparr>)) (\<lambda>_. ret policy)))))"

subsection \<open>Prompts\<close>

record llm_request =
  lq_ModelName :: string
  lq_ModelVersion :: string
  lq_Prompt :: string
  lq_Adapter :: string
  lq_MaxTokens :: u32
  lq_IdempotencyKey :: string

definition llm_task_spec :: "llm_request \<Rightarrow> string \<Rightarrow> string \<Rightarrow> bytes \<Rightarrow> model_info \<Rightarrow> task_spec" where
  "llm_task_spec req version taskID argsJSON model =
     zero_spec\<lparr>sp_TaskId := taskID, sp_TaskName := ''llm:'' @ lq_ModelName req, sp_FunctionName := ''__logserve_llm__'',
       sp_ArgsJson := argsJSON, sp_IdempotencyKey := lq_IdempotencyKey req, sp_LlmModelName := lq_ModelName req,
       sp_LlmModelVersion := version, sp_LlmAdapter := firstNonEmpty [lq_Adapter req, mi_Adapter model, ''mock''],
       sp_LlmMaxTokens := (if lq_MaxTokens req = 0 then 64 else lq_MaxTokens req)\<rparr>"

definition SubmitLLM :: "'w control_env \<Rightarrow> llm_request \<Rightarrow> ('w, string \<times> task_status) act" where
  "SubmitLLM env req =
     andThen (require (lq_ModelName req \<noteq> '''') (Invalid ''model_name is required'')) (\<lambda>_.
     andThen (require (lq_Prompt req \<noteq> '''') (Invalid ''prompt is required'')) (\<lambda>_.
     let version = (if lq_ModelVersion req = '''' then ''v1'' else lq_ModelVersion req) in
     andThen (asksMeta (GetModel (lq_ModelName req) version)) (\<lambda>found.
     case found of
       None \<Rightarrow> fail (Invalid ''model is not registered'')
     | Some model \<Rightarrow>
         andThen (liftR (map_sum (\<lambda>e. CodecFailed (JSONError e)) id
           (ce_marshal env (JObject [(''args'', JArray [JString (lq_Prompt req)]), (''kwargs'', JObject [])])))) (\<lambda>argsJSON.
         andThen (newTaskID env) (\<lambda>taskID.
         andThen (enqueueTask env (llm_task_spec req version taskID argsJSON model)) (\<lambda>(tk, _).
         ret (tk_TaskID tk, tk_Status tk)))))))"

subsection \<open>Replay of model events\<close>

record llm_replay =
  lr_TaskId :: string
  lr_Events :: "(string \<times> llm_payload) list"
  lr_ModelName :: string
  lr_ModelVersion :: string
  lr_WorkerId :: string
  lr_CacheHit :: bool
  lr_CheckpointFetchMs :: i64
  lr_CacheUsedBytes :: i64
  lr_CacheCapacityBytes :: i64
  lr_EvictionCount :: i64
  lr_ModelLoadMs :: i64
  lr_FirstTokenMs :: i64
  lr_TotalLatencyMs :: i64

definition zero_llm_payload :: llm_payload where
  "zero_llm_payload = \<lparr>lm_TaskID = '''', lm_ModelName = '''', lm_ModelVersion = '''', lm_WorkerID = '''', lm_CacheHit = False,
     lm_CheckpointFetchMs = 0, lm_CacheUsedBytes = 0, lm_CacheCapacityBytes = 0, lm_EvictionCount = 0, lm_ModelLoadMs = 0,
     lm_FirstTokenMs = 0, lm_TotalLatencyMs = 0, lm_TimestampMs = 0\<rparr>"

definition initial_llm_replay :: "string \<Rightarrow> llm_replay" where
  "initial_llm_replay taskID = \<lparr>lr_TaskId = taskID, lr_Events = [], lr_ModelName = '''', lr_ModelVersion = '''', lr_WorkerId = '''',
     lr_CacheHit = False, lr_CheckpointFetchMs = 0, lr_CacheUsedBytes = 0, lr_CacheCapacityBytes = 0, lr_EvictionCount = 0,
     lr_ModelLoadMs = 0, lr_FirstTokenMs = 0, lr_TotalLatencyMs = 0\<rparr>"

definition stamped :: "raw_record \<Rightarrow> llm_payload \<Rightarrow> llm_payload" where
  "stamped rec p = (if lm_TimestampMs p = 0 then p\<lparr>lm_TimestampMs := rr_TimestampMs rec\<rparr> else p)"

text \<open>What a \<open>ModelLoaded\<close> and a \<open>LLMCompleted\<close> event both report.\<close>

definition cache_fields :: "llm_payload \<Rightarrow> llm_replay \<Rightarrow> llm_replay" where
  "cache_fields p r = r\<lparr>lr_CacheHit := lm_CacheHit p, lr_CheckpointFetchMs := lm_CheckpointFetchMs p,
     lr_CacheUsedBytes := lm_CacheUsedBytes p, lr_CacheCapacityBytes := lm_CacheCapacityBytes p, lr_EvictionCount := lm_EvictionCount p\<rparr>"

definition replay_llm_event :: "string \<Rightarrow> llm_payload \<Rightarrow> llm_replay \<Rightarrow> llm_replay" where
  "replay_llm_event ev p r0 =
     (let r1 = r0\<lparr>lr_Events := lr_Events r0 @ [(ev, p)]\<rparr>;
          r2 = (if lm_ModelName p \<noteq> '''' then r1\<lparr>lr_ModelName := lm_ModelName p\<rparr> else r1);
          r3 = (if lm_ModelVersion p \<noteq> '''' then r2\<lparr>lr_ModelVersion := lm_ModelVersion p\<rparr> else r2);
          r4 = (if lm_WorkerID p \<noteq> '''' then r3\<lparr>lr_WorkerId := lm_WorkerID p\<rparr> else r3);
          r5 = (if ev = ''ModelLoaded'' then (cache_fields p r4)\<lparr>lr_ModelLoadMs := lm_ModelLoadMs p\<rparr> else r4)
      in if ev = ''LLMCompleted''
         then (cache_fields p r5)\<lparr>lr_FirstTokenMs := lm_FirstTokenMs p, lr_TotalLatencyMs := lm_TotalLatencyMs p\<rparr> else r5)"

fun replay_llm_records :: "(bytes \<Rightarrow> string + llm_payload) \<Rightarrow> raw_record list \<Rightarrow> llm_replay \<Rightarrow> string + llm_replay" where
  "replay_llm_records dec [] r = Inr r"
| "replay_llm_records dec (rec # recs) r =
     (case (if rr_Payload rec = [] then Inr zero_llm_payload else dec (rr_Payload rec)) of
        Inl e \<Rightarrow> Inl e
      | Inr p \<Rightarrow> replay_llm_records dec recs (replay_llm_event (rr_EventType rec) (stamped rec p) r))"

definition ReplayLLM :: "'w control_env \<Rightarrow> string \<Rightarrow> ('w, llm_replay) act" where
  "ReplayLLM env taskID =
     andThen (require (taskID \<noteq> '''') (Invalid ''task_id is required'')) (\<lambda>_.
     andThen (asks (\<lambda>s. ce_read env (llmStream taskID) 1 (sv_world s))) (\<lambda>(recs, err).
     case replay_llm_records (ce_llm env) recs (initial_llm_replay taskID) of
       Inl e \<Rightarrow> fail (LogReadFailed e)
     | Inr out \<Rightarrow> (case err of None \<Rightarrow> ret out | Some e \<Rightarrow> fail (LogReadFailed e))))"

subsection \<open>Statistics\<close>

definition updateEWMA :: "i64 \<Rightarrow> i64 \<Rightarrow> u64 \<Rightarrow> i64" where
  "updateEWMA previous sample n =
     (if n \<le> 1 then sample
      else let x = wrap64 (previous * 7 + sample * 3) in if x < 0 then - (- x div 10) else x div 10)"

definition updated_stats :: "llm_payload \<Rightarrow> i64 \<Rightarrow> llm_worker_stats \<Rightarrow> llm_worker_stats" where
  "updated_stats p updatedAt stats =
     (let n = RequestCount stats + 1
      in \<lparr>RequestCount = n, CacheHitCount = (if lm_CacheHit p then CacheHitCount stats + 1 else CacheHitCount stats),
          EWMATotalLatencyMs = updateEWMA (EWMATotalLatencyMs stats) (lm_TotalLatencyMs p) n,
          EWMAModelLoadMs = updateEWMA (EWMAModelLoadMs stats) (lm_ModelLoadMs p) n,
          EWMACheckpointFetchMs = updateEWMA (EWMACheckpointFetchMs stats) (lm_CheckpointFetchMs p) n,
          LastEvictionCount = lm_EvictionCount p, LastUpdatedMs = updatedAt\<rparr>)"

definition llmStatsForWorker :: "string \<Rightarrow> string \<Rightarrow> string \<Rightarrow> 'w service \<Rightarrow> llm_worker_stats option" where
  "llmStatsForWorker modelName modelVersion workerID s =
     map_of (sv_llmStats s) (modelName, (if modelVersion = '''' then ''v1'' else modelVersion), workerID)"

definition fold_stats :: "llm_payload \<Rightarrow> i64 \<Rightarrow> 'w service \<Rightarrow> 'w service" where
  "fold_stats p updatedAt s =
     (let modelVersion = firstNonEmpty [lm_ModelVersion p, ''v1''];
          key = (lm_ModelName p, modelVersion, lm_WorkerID p);
          stats = updated_stats p updatedAt (case map_of (sv_llmStats s) key of None \<Rightarrow> no_stats | Some st \<Rightarrow> st)
      in s\<lparr>sv_llmStats := AList.update key stats (sv_llmStats s),
           sv_scheduler := UpdateLLMStats (lm_ModelName p) modelVersion (lm_WorkerID p) stats (sv_scheduler s)\<rparr>)"

definition materializeLLMCompleted :: "'w control_env \<Rightarrow> llm_payload \<Rightarrow> ('w, unit) act" where
  "materializeLLMCompleted env p =
     (if lm_ModelName p = '''' \<or> lm_WorkerID p = '''' \<or> lm_TotalLatencyMs p \<le> 0 then ret ()
      else andThen (if lm_TimestampMs p = 0 then nowMs env else ret (lm_TimestampMs p)) (\<lambda>updatedAt. modify (fold_stats p updatedAt)))"

text \<open>Only the first completion of a task counts; the records after it are not decoded.\<close>

definition materializeLLMTaskCompletion :: "'w control_env \<Rightarrow> string \<Rightarrow> ('w, unit) act" where
  "materializeLLMTaskCompletion env taskID =
     andThen (asks (\<lambda>s. ce_read env (llmStream taskID) 1 (sv_world s))) (\<lambda>(recs, err).
     andThen (case List.find (\<lambda>rec. rr_EventType rec = ''LLMCompleted'') recs of
                None \<Rightarrow> ret ()
              | Some rec \<Rightarrow>
                  (case ce_llm env (rr_Payload rec) of
                     Inl e \<Rightarrow> fail (LogReadFailed e)
                   | Inr p \<Rightarrow> materializeLLMCompleted env (stamped rec p))) (\<lambda>_.
     case err of None \<Rightarrow> ret () | Some e \<Rightarrow> fail (LogReadFailed e)))"

end
