(* ===== verification/Control_Actor.thy ===== *)
theory Control_Actor
  imports Control_Tasks
begin

text \<open>
  Actors in the control service (internal/control/actor.go): creation, ownership with its epoch fence,
  the mailbox of commands, application of their results, snapshots and replay.

  A wait is a list of what happens at each wakeup: \<open>None\<close> is the cancelled context, \<open>Some g\<close> the timer,
  with the change \<open>g\<close> other handlers made to the service meanwhile. The per-actor lock is the subject
  of \<open>Actor_Lock\<close>; here a command holds it while it is submitted.
\<close>

subsection \<open>Creation and ownership\<close>

record actor_request =
  aq_ClassName :: string
  aq_ClassSource :: string
  aq_InitArgsJson :: bytes
  aq_IdempotencyKey :: string
  aq_SnapshotEvery :: u32

definition defaultJSON :: "bytes \<Rightarrow> bytes \<Rightarrow> bytes" where
  "defaultJSON v fallback = (if v = [] then [] @ fallback else [] @ v)"

definition no_args :: bytes where
  "no_args = bytes_of_string ''{\"args\":[],\"kwargs\":{}}''"

definition actorCreateFingerprint :: "'w control_env \<Rightarrow> actor_request \<Rightarrow> bytes \<Rightarrow> u32 \<Rightarrow> control_error + string" where
  "actorCreateFingerprint env req initArgs snapshotEvery =
     map_sum CodecFailed id (bind_result (jsonValueForFingerprint (ce_task env) initArgs) (\<lambda>v.
       stableFingerprint (ce_task env) [(''class_name'', FString (aq_ClassName req)), (''class_source'', FString (aq_ClassSource req)),
         (''init_args_json'', FJson v), (''snapshot_every'', FUint32 snapshotEvery)]))"

definition actorEvent :: "'w control_env \<Rightarrow> string \<Rightarrow> string \<Rightarrow> string \<Rightarrow> actor_payload \<Rightarrow> ('w, append_response) act" where
  "actorEvent env actorID ev key payload =
     appendLog env (event (actorStream actorID) ev key (ignored (MarshalActorPayload (tc_encode (ce_task env)) payload)))"

definition updateActor :: "'w control_env \<Rightarrow> string \<Rightarrow> (actor_state \<Rightarrow> actor_state) \<Rightarrow> ('w, actor_state) act" where
  "updateActor env actorID f = metaResult env (\<lambda>t. UpdateActor actorID (\<lambda>st. Inr (f st)) t)"

definition sortedWorkers :: "meta_worker list \<Rightarrow> meta_worker list" where
  "sortedWorkers workers = sort_key wk_WorkerID workers"

definition ensureActorOwner :: "'w control_env \<Rightarrow> string \<Rightarrow> ('w, actor_state) act" where
  "ensureActorOwner env actorID =
     andThen (asksMeta (GetActor actorID)) (\<lambda>found.
     case found of
       None \<Rightarrow> fail (Invalid ''actor not found'')
     | Some state \<Rightarrow>
         andThen (if as_OwnerWorkerID state = '''' then ret False
                  else andThen (asksMeta (GetWorker (as_OwnerWorkerID state))) (\<lambda>w.
                    case w of
                      None \<Rightarrow> ret False
                    | Some worker \<Rightarrow> andThen (now env) (\<lambda>ns. ret (since ns (wk_LastHeartbeat worker) \<le> actorOwnerLease)))) (\<lambda>alive.
         if alive then ret state
         else
           andThen (activeWorkers env actorOwnerLease) (\<lambda>active.
           case sortedWorkers active of
             [] \<Rightarrow> fail NoActiveActorWorker
           | w # _ \<Rightarrow>
               let owner = wk_WorkerID w; epoch = as_Epoch state + 1 in
               andThen (nowMs env) (\<lambda>t.
               andThen (actorEvent env actorID ''ActorOwnershipGranted'' (actorID @ '':ownership:'' @ decimal (unat epoch))
                 (zero_actor_payload\<lparr>ap_ActorID := actorID, ap_WorkerID := owner, ap_Epoch := epoch, ap_TimestampMs := t\<rparr>)) (\<lambda>_.
               updateActor env actorID (\<lambda>current. current\<lparr>as_OwnerWorkerID := owner, as_Epoch := epoch,
                 as_Status := ACTOR_STATUS_ACTIVE\<rparr>))))))"

type_synonym create_response = "string \<times> actor_status \<times> string \<times> u64"

definition actorCreateResponse :: "actor_state \<Rightarrow> create_response" where
  "actorCreateResponse state = (as_ActorID state, as_Status state, as_OwnerWorkerID state, as_Epoch state)"

definition service_CreateActor :: "'w control_env \<Rightarrow> actor_request \<Rightarrow> ('w, create_response) act" where
  "service_CreateActor env req =
     andThen (require (aq_ClassName req \<noteq> '''') (Invalid ''class_name is required'')) (\<lambda>_.
     andThen (require (aq_ClassSource req \<noteq> '''') (Invalid ''class_source is required'')) (\<lambda>_.
     let initArgs = defaultJSON (aq_InitArgsJson req) no_args;
         snapshotEvery = (if aq_SnapshotEvery req = 0 then 25 else aq_SnapshotEvery req);
         key = aq_IdempotencyKey req in
     andThen (liftR (actorCreateFingerprint env req initArgs snapshotEvery)) (\<lambda>fingerprint.
     andThen (asksMeta (GetActorByIdempotencyKey key)) (\<lambda>existing.
     case existing of
       Some st \<Rightarrow>
         andThen (checkFingerprint ''actor'' key (as_IdempotencyFingerprint st) fingerprint) (\<lambda>_. ret (actorCreateResponse st))
     | None \<Rightarrow>
         andThen (newActorID env) (\<lambda>actorID.
         andThen (nowMs env) (\<lambda>t.
         let state = (NewActorState actorID (aq_ClassName req) (aq_ClassSource req) initArgs snapshotEvery t)
               \<lparr>as_IdempotencyKey := key, as_IdempotencyFingerprint := fingerprint\<rparr> in
         andThen (actorEvent env actorID ''ActorCreated'' (actorID @ '':created'')
           (zero_actor_payload\<lparr>ap_ActorID := actorID, ap_ClassName := aq_ClassName req, ap_ClassSource := aq_ClassSource req,
              ap_InitArgsJSON := initArgs, ap_SnapshotEvery := as_SnapshotEvery state, ap_IdempotencyKey := key,
              ap_IdempotencyFingerprint := fingerprint, ap_TimestampMs := t\<rparr>)) (\<lambda>_.
         andThen (inMeta (CreateActor state key)) (\<lambda>(created, duplicate).
         if duplicate then
           andThen (checkFingerprint ''actor'' key (as_IdempotencyFingerprint created) fingerprint) (\<lambda>_. ret (actorCreateResponse created))
         else
           andThen (metadataPersisted env) (\<lambda>_.
           andThen (attempt (ensureActorOwner env actorID)) (\<lambda>r.
           case r of Inl _ \<Rightarrow> ret (actorCreateResponse created) | Inr owned \<Rightarrow> ret (actorCreateResponse owned)))))))))))"

subsection \<open>Replay\<close>

definition loadState :: "'w control_env \<Rightarrow> 'w service \<Rightarrow> loader" where
  "loadState env s = Some (\<lambda>ref. if \<not> sv_resultStore s then Inl ''result store is not configured'' else ce_get env ref (sv_world s))"

definition replayActor :: "'w control_env \<Rightarrow> string \<Rightarrow> ('w, replay_result) act" where
  "replayActor env actorID =
     andThen (asks (\<lambda>s. ActorReplayRawEach (ce_compact env) (ce_actor env) actorID
       (Some (ce_read env (actorStream actorID) 1 (sv_world s))) (loadState env s))) (\<lambda>r.
     case r of Inl e \<Rightarrow> fail (ActorFailed ''actor replay failed'') | Inr result \<Rightarrow> ret result)"

definition ReplayActor :: "'w control_env \<Rightarrow> string \<Rightarrow> ('w, replay_result \<times> bool) act" where
  "ReplayActor env actorID =
     andThen (replayActor env actorID) (\<lambda>replayed.
     andThen (asksMeta (GetActor actorID)) (\<lambda>current.
     ret (replayed, case current of None \<Rightarrow> False | Some st \<Rightarrow> ActorConsistent (ce_compact env) (re_State replayed) st)))"

definition GetActorStatus :: "string \<Rightarrow> ('w, actor_state) act" where
  "GetActorStatus actorID =
     andThen (asksMeta (GetActor actorID)) (\<lambda>found.
     case found of None \<Rightarrow> fail (Invalid ''actor not found'') | Some state \<Rightarrow> ret state)"

subsection \<open>Commands\<close>

record call_request =
  cq_ActorId :: string
  cq_MethodName :: string
  cq_ArgsJson :: bytes
  cq_IdempotencyKey :: string
  cq_TimeoutMs :: i64

type_synonym 'w wakeups = "('w service \<Rightarrow> 'w service) option list"

fun waitActorOwner :: "'w control_env \<Rightarrow> 'w wakeups \<Rightarrow> string \<Rightarrow> i64 \<Rightarrow> ('w, actor_state) act" where
  "waitActorOwner env waits actorID deadlineAt =
     andThen (attempt (ensureActorOwner env actorID)) (\<lambda>r.
     case r of
       Inr state \<Rightarrow> ret state
     | Inl e \<Rightarrow>
         if e \<noteq> NoActiveActorWorker then fail e
         else andThen (now env) (\<lambda>ns.
           if deadlineAt < ns then fail e
           else (case waits of
                   [] \<Rightarrow> fail OutOfFuel
                 | None # _ \<Rightarrow> fail ContextDone
                 | Some g # rest \<Rightarrow> andThen (modify g) (\<lambda>_. waitActorOwner env rest actorID deadlineAt))))"

declare waitActorOwner.simps [simp del]

definition command_spec :: "call_request \<Rightarrow> actor_state \<Rightarrow> string \<Rightarrow> bytes \<Rightarrow> string \<Rightarrow> task_spec" where
  "command_spec req state callID argsJSON idem =
     zero_spec\<lparr>sp_TaskId := callID, sp_TaskName := ''actor:'' @ cq_MethodName req, sp_FunctionName := cq_MethodName req,
       sp_ArgsJson := argsJSON, sp_IdempotencyKey := idem, sp_TargetWorkerId := as_OwnerWorkerID state, sp_ActorId := as_ActorID state,
       sp_ActorCallId := callID, sp_ActorClassName := as_ClassName state, sp_ActorClassSource := as_ClassSource state,
       sp_ActorMethod := cq_MethodName req, sp_ActorStateJson := [] @ as_StateJSON state,
       sp_ActorInitArgsJson := [] @ as_InitArgsJSON state, sp_ActorEpoch := as_Epoch state\<rparr>"

definition next_command :: "actor_state \<Rightarrow> u64" where
  "next_command state = (if as_SubmittedCommandCount state < as_CommandCount state then as_CommandCount state
     else as_SubmittedCommandCount state) + 1"

definition raise_submitted :: "u64 \<Rightarrow> actor_state \<Rightarrow> actor_state" where
  "raise_submitted commandSeq current =
     (if as_SubmittedCommandCount current < commandSeq then current\<lparr>as_SubmittedCommandCount := commandSeq\<rparr> else current)"

definition new_command :: "'w control_env \<Rightarrow> call_request \<Rightarrow> actor_state \<Rightarrow> task_spec \<Rightarrow> u64 \<Rightarrow> ('w, task) act" where
  "new_command env req state spec commandSeq =
     andThen (nowMs env) (\<lambda>t.
     andThen (actorEvent env (as_ActorID state) ''ActorCommandSubmitted'' (as_ActorID state @ '':'' @ sp_TaskId spec @ '':submitted'')
       (zero_actor_payload\<lparr>ap_ActorID := as_ActorID state, ap_CallID := sp_TaskId spec, ap_CommandSeq := commandSeq,
          ap_MethodName := cq_MethodName req, ap_ArgsJSON := sp_ArgsJson spec, ap_WorkerID := as_OwnerWorkerID state,
          ap_Epoch := as_Epoch state, ap_TimestampMs := t\<rparr>)) (\<lambda>_.
     andThen (enqueueTaskWithMetadata env spec (\<lambda>tk. tk\<lparr>tk_ActorCommandSeq := commandSeq\<rparr>)) (\<lambda>(created, _).
     andThen (updateActor env (as_ActorID state) (raise_submitted commandSeq)) (\<lambda>_. ret created))))"

definition submitActorCommand :: "'w control_env \<Rightarrow> 'w wakeups \<Rightarrow> call_request \<Rightarrow> i64 \<Rightarrow> ('w, task) act" where
  "submitActorCommand env waits req deadlineAt =
     andThen (waitActorOwner env waits (cq_ActorId req) deadlineAt) (\<lambda>owned.
     andThen (if 0 < as_CommandCount owned \<and> as_StateJSON owned = []
              then andThen (replayActor env (cq_ActorId req)) (\<lambda>replayed. ret (owned\<lparr>as_StateJSON := as_StateJSON (re_State replayed)\<rparr>))
              else ret owned) (\<lambda>state.
     andThen (newActorCallID env) (\<lambda>callID.
     let argsJSON = defaultJSON (cq_ArgsJson req) no_args;
         idem = (if cq_IdempotencyKey req = '''' then callID else cq_IdempotencyKey req);
         spec = command_spec req state callID argsJSON idem in
     andThen (liftR (map_sum CodecFailed id (taskSpecFingerprint (ce_task env) spec))) (\<lambda>fingerprint.
     andThen (asksMeta (GetTaskByIdempotencyKey idem)) (\<lambda>existing.
     case existing of
       Some tk \<Rightarrow> andThen (checkFingerprint ''task'' idem (tk_IdempotencyFingerprint tk) fingerprint) (\<lambda>_. ret tk)
     | None \<Rightarrow> new_command env req state spec (next_command state))))))"

text \<open>The answer to a call: the task, its status, result, error, and the actor's epoch.\<close>

datatype 'w call_wakeup = CallCancelled | CallTimedOut | CallTick "'w service \<Rightarrow> 'w service"

type_synonym call_response = "string \<times> task_status \<times> bytes \<times> string \<times> u64"

fun await_call :: "'w call_wakeup list \<Rightarrow> string \<Rightarrow> string \<Rightarrow> ('w, call_response) act" where
  "await_call [] actorID taskID = fail OutOfFuel"
| "await_call (CallCancelled # _) actorID taskID = fail ContextDone"
| "await_call (CallTimedOut # _) actorID taskID = fail (Invalid ''actor call timed out'')"
| "await_call (CallTick g # rest) actorID taskID =
     andThen (modify g) (\<lambda>_.
     andThen (asksMeta (\<lambda>m. (GetTask taskID m, case GetActor actorID m of None \<Rightarrow> 0 | Some st \<Rightarrow> as_Epoch st))) (\<lambda>(found, epoch).
     case found of
       None \<Rightarrow> fail (Invalid ''actor call task not found'')
     | Some current \<Rightarrow>
         if tk_Status current = TASK_STATUS_SUCCEEDED then ret (taskID, tk_Status current, tk_ResultJSON current, '''', epoch)
         else if tk_Status current = TASK_STATUS_FAILED then ret (taskID, tk_Status current, [], tk_Error current, epoch)
         else await_call rest actorID taskID))"

definition CallActor :: "'w control_env \<Rightarrow> 'w wakeups \<Rightarrow> 'w call_wakeup list \<Rightarrow> call_request \<Rightarrow> ('w, call_response) act" where
  "CallActor env waits ticks req =
     andThen (require (cq_ActorId req \<noteq> '''') (Invalid ''actor_id is required'')) (\<lambda>_.
     andThen (require (cq_MethodName req \<noteq> '''') (Invalid ''method_name is required'')) (\<lambda>_.
     let timeout = (if millis (cq_TimeoutMs req) \<le> 0 then 30 * 1000000000 else millis (cq_TimeoutMs req)) in
     andThen (now env) (\<lambda>start.
     andThen (submitActorCommand env waits req (start + timeout)) (\<lambda>tk.
     andThen (now env) (\<lambda>later.
     if start + timeout - later \<le> 0 then fail (Invalid ''actor call timed out'')
     else await_call ticks (cq_ActorId req) (tk_TaskID tk))))))"

subsection \<open>Completion\<close>

record complete_request =
  cr_TaskId :: string
  cr_WorkerId :: string
  cr_Status :: task_status
  cr_ResultJson :: bytes
  cr_Error :: string
  cr_ActorStateJson :: bytes
  cr_ActorEpoch :: u64
  cr_TaskLeaseEpoch :: u64

text \<open>A snapshot: the state in the object store, the event, and the stream trimmed before it.\<close>

definition createActorSnapshot :: "'w control_env \<Rightarrow> actor_state \<Rightarrow> ('w, unit) act" where
  "createActorSnapshot env state =
     andThen (asks sv_resultStore) (\<lambda>configured.
     if \<not> configured then ret ()
     else
       andThen (putBytes env [''actors'', as_ActorID state, ''snapshots''] (as_StateJSON state)) (\<lambda>ref.
       andThen (nowMs env) (\<lambda>t.
       andThen (actorEvent env (as_ActorID state) ''ActorSnapshotCreated''
           (as_ActorID state @ '':snapshot:'' @ decimal (unat (as_CommandCount state)))
         (zero_actor_payload\<lparr>ap_ActorID := as_ActorID state, ap_ClassName := as_ClassName state, ap_ClassSource := as_ClassSource state,
            ap_InitArgsJSON := as_InitArgsJSON state, ap_WorkerID := as_OwnerWorkerID state, ap_Epoch := as_Epoch state,
            ap_SnapshotRef := ref, ap_SnapshotEvery := as_SnapshotEvery state, ap_SnapshotCommandCount := as_CommandCount state,
            ap_TimestampMs := t\<rparr>)) (\<lambda>resp.
       andThen (if 1 < ar_Seq resp then andThen (inWorld (ce_trim env (actorStream (as_ActorID state)) (ar_Seq resp))) (\<lambda>_. ret ())
                else ret ()) (\<lambda>_.
       andThen (updateActor env (as_ActorID state) (\<lambda>current. current\<lparr>as_SnapshotRef := ref,
         as_SnapshotCommandCount := as_CommandCount state\<rparr>)) (\<lambda>_. ret ()))))))"

definition failActorCommand :: "'w control_env \<Rightarrow> task \<Rightarrow> complete_request \<Rightarrow> task_spec \<Rightarrow> u64 \<Rightarrow> ('w, unit) act" where
  "failActorCommand env tk req spec commandSeq =
     andThen (nowMs env) (\<lambda>t.
     andThen (actorEvent env (tk_ActorID tk) ''ActorCommandFailed'' (tk_ActorID tk @ '':'' @ tk_ActorCallID tk @ '':failed'')
       (zero_actor_payload\<lparr>ap_ActorID := tk_ActorID tk, ap_CallID := tk_ActorCallID tk, ap_CommandSeq := commandSeq,
          ap_MethodName := sp_ActorMethod spec, ap_ArgsJSON := sp_ArgsJson spec, ap_Error := cr_Error req,
          ap_WorkerID := cr_WorkerId req, ap_Epoch := cr_ActorEpoch req, ap_CommandCount := commandSeq, ap_TimestampMs := t\<rparr>)) (\<lambda>_.
     andThen (updateActor env (tk_ActorID tk) (\<lambda>current. (raise_submitted commandSeq (current\<lparr>as_CommandCount := commandSeq\<rparr>))
       \<lparr>as_OwnerWorkerID := cr_WorkerId req, as_Epoch := cr_ActorEpoch req\<rparr>)) (\<lambda>_. ret ())))"

definition applyActorCommand :: "'w control_env \<Rightarrow> task \<Rightarrow> complete_request \<Rightarrow> task_spec \<Rightarrow> u64 \<Rightarrow> ('w, unit) act" where
  "applyActorCommand env tk req spec commandSeq =
     (let stateJSON = NormalizeJSON (ce_compact env) (cr_ActorStateJson req) in
      andThen (nowMs env) (\<lambda>t.
      andThen (actorEvent env (tk_ActorID tk) ''ActorCommandApplied'' (tk_ActorID tk @ '':'' @ tk_ActorCallID tk @ '':applied'')
        (zero_actor_payload\<lparr>ap_ActorID := tk_ActorID tk, ap_CallID := tk_ActorCallID tk, ap_CommandSeq := commandSeq,
           ap_MethodName := sp_ActorMethod spec, ap_ArgsJSON := sp_ArgsJson spec, ap_ResultJSON := cr_ResultJson req,
           ap_StateJSON := stateJSON, ap_WorkerID := cr_WorkerId req, ap_Epoch := cr_ActorEpoch req,
           ap_CommandCount := commandSeq, ap_TimestampMs := t\<rparr>)) (\<lambda>_.
      andThen (updateActor env (tk_ActorID tk) (\<lambda>current. current\<lparr>as_CommandCount := commandSeq, as_StateJSON := stateJSON,
        as_OwnerWorkerID := cr_WorkerId req, as_Epoch := cr_ActorEpoch req\<rparr>)) (\<lambda>updated.
      if 0 < as_SnapshotEvery updated \<and> as_CommandCount updated mod ucast (as_SnapshotEvery updated) = 0
      then createActorSnapshot env updated else ret ()))))"

definition completeActorCall :: "'w control_env \<Rightarrow> task \<Rightarrow> complete_request \<Rightarrow> ('w, unit) act" where
  "completeActorCall env tk req =
     andThen (asksMeta (GetActor (tk_ActorID tk))) (\<lambda>found.
     case found of
       None \<Rightarrow> fail (Invalid ''actor not found'')
     | Some state \<Rightarrow>
         if cr_WorkerId req \<noteq> as_OwnerWorkerID state \<or> cr_ActorEpoch req \<noteq> as_Epoch state then fail StaleActorCompletion
         else
           let commandSeq = (if tk_ActorCommandSeq tk = 0 then as_CommandCount state + 1 else tk_ActorCommandSeq tk) in
           if commandSeq \<noteq> as_CommandCount state + 1 then fail OutOfOrderCommand
           else andThen (asks (specForTask (tk_TaskID tk))) (\<lambda>spec.
             case spec of
               None \<Rightarrow> fail (Invalid ''actor task spec not found'')
             | Some sp \<Rightarrow>
                 if cr_Status req = TASK_STATUS_FAILED then failActorCommand env tk req sp commandSeq
                 else applyActorCommand env tk req sp commandSeq))"

end
