(* ===== verification/Control_Service.thy ===== *)
theory Control_Service
  imports Control_Workflow Control_LLM Control_Actor
begin

text \<open>
  The handlers of the control service (internal/control/service.go, hardening.go): submission, the life
  of a task from its lease to its completion, workers and configuration; the requests as a datatype,
  and the states the service reaches by answering requests one after the other.
\<close>

subsection \<open>Submission and status\<close>

record submit_request =
  sq_TaskName :: string
  sq_FunctionName :: string
  sq_FunctionSource :: string
  sq_FunctionRef :: string
  sq_FunctionHash :: string
  sq_ArgsJson :: bytes
  sq_IdempotencyKey :: string

definition user_task_spec :: "submit_request \<Rightarrow> string \<Rightarrow> task_spec" where
  "user_task_spec req taskID =
     zero_spec\<lparr>sp_TaskId := taskID, sp_TaskName := sq_TaskName req, sp_FunctionName := sq_FunctionName req,
       sp_FunctionSource := sq_FunctionSource req, sp_FunctionRef := sq_FunctionRef req, sp_FunctionHash := sq_FunctionHash req,
       sp_ArgsJson := [] @ sq_ArgsJson req, sp_IdempotencyKey := sq_IdempotencyKey req\<rparr>"

definition SubmitTask :: "'w control_env \<Rightarrow> submit_request \<Rightarrow> ('w, string \<times> task_status) act" where
  "SubmitTask env req =
     andThen (require (sq_TaskName req \<noteq> '''') (Invalid ''task_name is required'')) (\<lambda>_.
     andThen (require (sq_FunctionName req \<noteq> '''') (Invalid ''function_name is required'')) (\<lambda>_.
     andThen (require (\<not> (sq_FunctionSource req = '''' \<and> sq_FunctionRef req = '''' \<and> sq_FunctionHash req = ''''))
       (Invalid ''function_source or function_hash is required'')) (\<lambda>_.
     andThen (newTaskID env) (\<lambda>taskID.
     andThen (enqueueTask env (user_task_spec req taskID)) (\<lambda>(tk, _). ret (tk_TaskID tk, tk_Status tk))))))"

definition GetTaskStatus :: "string \<Rightarrow> ('w, task) act" where
  "GetTaskStatus taskID =
     andThen (asksMeta (GetTask taskID)) (\<lambda>found. case found of None \<Rightarrow> fail (Invalid ''task not found'') | Some tk \<Rightarrow> ret tk)"

definition GetWorkflowStatus :: "string \<Rightarrow> ('w, wf_state) act" where
  "GetWorkflowStatus workflowID =
     andThen (asksMeta (GetWorkflow workflowID)) (\<lambda>found. case found of None \<Rightarrow> fail (Invalid ''workflow not found'') | Some st \<Rightarrow> ret st)"

subsection \<open>Workers and configuration\<close>

record worker_request =
  wq_WorkerId :: string
  wq_Address :: string
  wq_Labels :: "string \<rightharpoonup> string"
  wq_CachedModels :: "(string \<times> string) list"
  wq_Capacity :: u32

definition RegisterWorker :: "'w control_env \<Rightarrow> worker_request \<Rightarrow> ('w, unit) act" where
  "RegisterWorker env req =
     andThen (require (wq_WorkerId req \<noteq> '''') (Invalid ''worker_id is required'')) (\<lambda>_.
     andThen (now env) (\<lambda>ns.
     andThen (appendLog env (event ''system:workers'' ''WorkerRegistered'' (wq_WorkerId req @ '':registered:'' @ decimal_int ns)
       (ce_sys env (WorkerPayload (wq_WorkerId req) (wq_Address req) (wq_Labels req) (wq_CachedModels req) (wq_Capacity req))))) (\<lambda>_.
     andThen (metaAt env (\<lambda>t m. (meta_UpsertWorker \<lparr>wk_WorkerID = wq_WorkerId req, wk_CachedModels = modelCacheFromProto (wq_CachedModels req),
       wk_Capacity = wq_Capacity req, wk_RunningTasks = 0, wk_LastHeartbeat = 0, wk_Address = wq_Address req, wk_Labels = wq_Labels req\<rparr> t m, ()))) (\<lambda>_.
     andThen (updateSchedulerWorker (wq_WorkerId req)) (\<lambda>_.
     andThen (metadataPersisted env) (\<lambda>_. notifyTaskAvailable))))))"

definition service_Heartbeat :: "'w control_env \<Rightarrow> string \<Rightarrow> (string \<times> string) list \<Rightarrow> ('w, i64) act" where
  "service_Heartbeat env workerID cachedModels =
     andThen (require (workerID \<noteq> '''') (Invalid ''worker_id is required'')) (\<lambda>_.
     andThen (metaAt env (\<lambda>t. Heartbeat workerID (Some (modelCacheFromProto cachedModels)) t)) (\<lambda>_.
     andThen (updateSchedulerWorker workerID) (\<lambda>_.
     andThen (metadataPersisted env) (\<lambda>_.
     andThen notifyTaskAvailable (\<lambda>_. nowMs env)))))"

definition SetBackpressure :: "'w control_env \<Rightarrow> u32 \<Rightarrow> i64 \<Rightarrow> i64 \<Rightarrow> ('w, u32 \<times> i64 \<times> i64) act" where
  "SetBackpressure env watermark redeliveryMs slowMs =
     andThen (asks (\<lambda>s. (if 0 < watermark then watermark else sv_queueHighWatermark s,
                         if 0 < redeliveryMs then millis redeliveryMs else sv_redeliveryTimeout s,
                         if 0 < slowMs then millis slowMs else sv_logAppendSlowLimit s))) (\<lambda>(w, r, l).
     andThen (nowMs env) (\<lambda>t.
     andThen (inWorld (ce_stamp env)) (\<lambda>stamp.
     andThen (appendLog env (event ''system:backpressure'' ''BackpressureConfigured'' (''backpressure:'' @ stamp)
       (ce_sys env (BackpressurePayload w (Milliseconds r) (Milliseconds l) t)))) (\<lambda>_.
     andThen (modify (\<lambda>s. s\<lparr>sv_queueHighWatermark := w, sv_redeliveryTimeout := r, sv_logAppendSlowLimit := l\<rparr>)) (\<lambda>_.
     ret (w, Milliseconds r, Milliseconds l))))))"

subsection \<open>The life of a task\<close>

definition started_key :: "string \<Rightarrow> string \<Rightarrow> u64 \<Rightarrow> string" where
  "started_key taskID workerID leaseEpoch = taskID @ '':started:'' @ workerID @ '':'' @ decimal (unat leaseEpoch)"

definition appendTaskStarted :: "'w control_env \<Rightarrow> task \<Rightarrow> string \<Rightarrow> ('w, unit) act" where
  "appendTaskStarted env tk workerID =
     andThen (nowMs env) (\<lambda>t.
     andThen (liftR (map_sum CodecFailed id (marshalTaskLifecyclePayload (ce_task env)
       (zero_lifecycle\<lparr>lp_TaskLeaseEpoch := tk_TaskLeaseEpoch tk, lp_WorkerID := workerID, lp_TimestampMs := t\<rparr>)))) (\<lambda>payload.
     andThen (appendLog env (event (taskStream (tk_TaskID tk)) ''TaskStarted''
       (started_key (tk_TaskID tk) workerID (tk_TaskLeaseEpoch tk)) payload)) (\<lambda>_. ret ())))"

definition StartTask :: "'w control_env \<Rightarrow> string \<Rightarrow> string \<Rightarrow> u64 \<Rightarrow> ('w, unit) act" where
  "StartTask env taskID workerID leaseEpoch =
     andThen (asksMeta (ValidateTaskLease taskID workerID leaseEpoch)) (\<lambda>r.
     andThen (liftR (map_sum MetaFailed id r)) (\<lambda>tk.
     if isTerminalTaskStatus (tk_Status tk) then ret ()
     else
       andThen (appendTaskStarted env tk workerID) (\<lambda>_.
       if tk_ActorID tk \<noteq> '''' then ret ()
       else if tk_WorkflowID tk \<noteq> '''' then markWorkflowStepStarted env tk workerID else ret ())))"

definition taskTerminalIdempotencyKey :: "string \<Rightarrow> string \<Rightarrow> string \<Rightarrow> u64 \<Rightarrow> string" where
  "taskTerminalIdempotencyKey taskID eventType workerID leaseEpoch =
     taskID @ '':'' @ eventType @ '':'' @ workerID @ '':'' @ decimal (unat leaseEpoch)"

definition taskTerminalLogPayload :: "'w control_env \<Rightarrow> task \<Rightarrow> bytes \<Rightarrow> string \<Rightarrow> i64 \<Rightarrow> bytes" where
  "taskTerminalLogPayload env tk resultJSON taskErr t =
     ignored (marshalTaskLifecyclePayload (ce_task env) \<lparr>lp_TaskLeaseEpoch = tk_TaskLeaseEpoch tk, lp_WorkerID = tk_WorkerID tk,
       lp_ResultJSON = resultJSON, lp_Error = taskErr, lp_TimestampMs = t\<rparr>)"

definition terminal_event :: "task_status \<Rightarrow> string" where
  "terminal_event st = (if st = TASK_STATUS_FAILED then ''TaskFailed'' else ''TaskCompleted'')"

definition appendTaskTerminal :: "'w control_env \<Rightarrow> task \<Rightarrow> task_status \<Rightarrow> bytes \<Rightarrow> string \<Rightarrow> ('w, unit) act" where
  "appendTaskTerminal env tk st resultJSON taskErr =
     andThen (nowMs env) (\<lambda>t.
     andThen (appendLog env (event (taskStream (tk_TaskID tk)) (terminal_event st)
       (taskTerminalIdempotencyKey (tk_TaskID tk) (terminal_event st) (tk_WorkerID tk) (tk_TaskLeaseEpoch tk))
       (taskTerminalLogPayload env tk resultJSON taskErr t))) (\<lambda>_. ret ()))"

text \<open>The log record, the metadata, the worker's load and the scheduler, in this order.\<close>

definition finish_task :: "'w control_env \<Rightarrow> task \<Rightarrow> complete_request \<Rightarrow> ('w, task) act" where
  "finish_task env validated req =
     andThen (appendTaskTerminal env validated (cr_Status req) (cr_ResultJson req) (cr_Error req)) (\<lambda>_.
     andThen (metaResult env (\<lambda>t. CompleteTask (cr_TaskId req) (cr_WorkerId req) (cr_TaskLeaseEpoch req) (cr_Status req)
         (cr_ResultJson req) (cr_Error req) t)) (\<lambda>tk.
     andThen (if tk_Status validated = TASK_STATUS_RUNNING then inMeta (\<lambda>m. (DecrementWorkerLoad (cr_WorkerId req) m, ())) else ret ()) (\<lambda>_.
     andThen (completeSchedulerRunning (cr_TaskId req)) (\<lambda>_.
     andThen (updateSchedulerWorker (cr_WorkerId req)) (\<lambda>_. ret tk)))))"

definition after_completion :: "'w control_env \<Rightarrow> task \<Rightarrow> complete_request \<Rightarrow> ('w, unit) act" where
  "after_completion env tk req =
     andThen (if tk_LLMModelName tk \<noteq> '''' \<and> cr_Status req = TASK_STATUS_SUCCEEDED
              then andThen (attempt (materializeLLMTaskCompletion env (tk_TaskID tk))) (\<lambda>_. ret ()) else ret ()) (\<lambda>_.
     andThen (if tk_WorkflowID tk \<noteq> ''''
              then andThen (completeWorkflowStep env tk (cr_Status req) (cr_ResultJson req) (cr_Error req)) (\<lambda>shouldSchedule.
                if shouldSchedule then scheduleReadySteps env (tk_WorkflowID tk) else ret ())
              else ret ()) (\<lambda>_. notifyTaskAvailable))"

definition service_CompleteTask :: "'w control_env \<Rightarrow> complete_request \<Rightarrow> ('w, unit) act" where
  "service_CompleteTask env req =
     andThen (require (cr_Status req = TASK_STATUS_SUCCEEDED \<or> cr_Status req = TASK_STATUS_FAILED)
       (Invalid ''complete status must be SUCCEEDED or FAILED'')) (\<lambda>_.
     andThen (asksMeta (\<lambda>m. case GetTask (cr_TaskId req) m of None \<Rightarrow> False | Some tk \<Rightarrow> isTerminalTaskStatus (tk_Status tk))) (\<lambda>terminal.
     if terminal then completeSchedulerRunning (cr_TaskId req)
     else
       andThen (asksMeta (ValidateTaskLease (cr_TaskId req) (cr_WorkerId req) (cr_TaskLeaseEpoch req))) (\<lambda>r.
       andThen (liftR (map_sum MetaFailed id r)) (\<lambda>validated.
       if tk_ActorID validated \<noteq> '''' then
         andThen (completeActorCall env validated req) (\<lambda>_.
         andThen (finish_task env validated req) (\<lambda>_. notifyTaskAvailable))
       else
         andThen (finish_task env validated req) (\<lambda>tk. after_completion env tk req)))))"

text \<open>
  A batch: each item with whether the context was cancelled before it; a nil item is \<open>None\<close>.
  The answer holds per item the task and its error, if any.
\<close>

fun complete_items :: "'w control_env \<Rightarrow> (bool \<times> complete_request option) list \<Rightarrow> ('w, (string \<times> control_error option) list) act" where
  "complete_items env [] = ret []"
| "complete_items env ((cancelled, item) # items) =
     (if cancelled then fail ContextDone
      else andThen (case item of
                      None \<Rightarrow> ret ('''', Some (Invalid ''completion request is nil''))
                    | Some req \<Rightarrow> andThen (attempt (service_CompleteTask env req)) (\<lambda>r.
                        ret (cr_TaskId req, case r of Inl e \<Rightarrow> Some e | Inr _ \<Rightarrow> None))) (\<lambda>result.
        andThen (complete_items env items) (\<lambda>results. ret (result # results))))"

definition CompleteTasks :: "'w control_env \<Rightarrow> (bool \<times> complete_request option) list \<Rightarrow>
    ('w, bool \<times> (string \<times> control_error option) list) act" where
  "CompleteTasks env items =
     andThen (complete_items env items) (\<lambda>results. ret (list_all (\<lambda>(_, err). err = None) results, results))"

subsection \<open>Requests\<close>

datatype 'w request =
    SubmitTaskRequest submit_request
  | SubmitWorkflowRequest string bytes string
  | RegisterWorkerRequest worker_request
  | HeartbeatRequest string "(string \<times> string) list"
  | PollTaskRequest nat poll_wakeup string u32 i64
  | StartTaskRequest string string u64
  | CompleteTaskRequest complete_request
  | CompleteTaskBatchRequest "(bool \<times> complete_request option) list"
  | SetBackpressureRequest u32 i64 i64
  | SetSchedulingPolicyRequest scheduling_policy
  | RegisterModelRequest model_info
  | SubmitLLMRequest llm_request
  | CreateActorRequest actor_request
  | CallActorRequest "'w wakeups" "'w call_wakeup list" call_request

definition answered :: "('w, 'a) act \<Rightarrow> ('w, unit) act" where
  "answered m = andThen m (\<lambda>_. ret ())"

fun handle :: "'w control_env \<Rightarrow> 'w request \<Rightarrow> ('w, unit) act" where
  "handle env (SubmitTaskRequest req) = answered (SubmitTask env req)"
| "handle env (SubmitWorkflowRequest name definition_json key) = answered (SubmitWorkflow env name definition_json key)"
| "handle env (RegisterWorkerRequest req) = RegisterWorker env req"
| "handle env (HeartbeatRequest workerID models) = answered (service_Heartbeat env workerID models)"
| "handle env (PollTaskRequest fuel wakeup workerID maxTasks waitMs) = answered (PollTask env fuel wakeup workerID maxTasks waitMs)"
| "handle env (StartTaskRequest taskID workerID leaseEpoch) = StartTask env taskID workerID leaseEpoch"
| "handle env (CompleteTaskRequest req) = service_CompleteTask env req"
| "handle env (CompleteTaskBatchRequest items) = answered (CompleteTasks env items)"
| "handle env (SetBackpressureRequest w r l) = answered (SetBackpressure env w r l)"
| "handle env (SetSchedulingPolicyRequest policy) = answered (SetSchedulingPolicy env policy)"
| "handle env (RegisterModelRequest model) = answered (service_RegisterModel env model)"
| "handle env (SubmitLLMRequest req) = answered (SubmitLLM env req)"
| "handle env (CreateActorRequest req) = answered (service_CreateActor env req)"
| "handle env (CallActorRequest waits ticks req) = answered (CallActor env waits ticks req)"

text \<open>What the other handlers did to the service while this one waited.\<close>

fun interferences :: "'w request \<Rightarrow> ('w service \<Rightarrow> 'w service) set" where
  "interferences (CallActorRequest waits ticks req) = {g. Some g \<in> set waits \<or> CallTick g \<in> set ticks}"
| "interferences _ = {}"

text \<open>Requests answered one after the other; a request that fails keeps the changes it made before it failed.\<close>

inductive control_run :: "'w control_env \<Rightarrow> 'w service \<Rightarrow> 'w service \<Rightarrow> bool" for env where
  run_refl: "control_run env s s"
| run_step: "\<lbrakk>control_run env s s1; \<forall>g\<in>interferences req. \<forall>u. control_run env u (g u)\<rbrakk> \<Longrightarrow>
    control_run env s (fst (handle env req s1))"

end
