(* ===== verification/Control_Rules.thy ===== *)
theory Control_Rules
  imports Control_Service
begin

text \<open>
  Reasoning about actions: every action moves the service along a preorder. The rules are proved once,
  in a locale, and used for the preorders of the development: what an action leaves alone
  (\<open>frame\<close>), and the preservation of an invariant.
\<close>

named_theorems moves "which actions stay within a preorder"

definition within :: "('w service \<Rightarrow> 'w service \<Rightarrow> bool) \<Rightarrow> ('w, 'a) act \<Rightarrow> bool" where
  "within R m \<longleftrightarrow> (\<forall>s. R s (fst (m s)))"

locale step_order =
  fixes R :: "'w service \<Rightarrow> 'w service \<Rightarrow> bool"
  assumes refl: "R s s"
    and trans: "R s t \<Longrightarrow> R t u \<Longrightarrow> R s u"
begin

lemma pure_actions:
  "within R (ret x)" "within R (fail e)" "within R (liftR r)" "within R (asks f)" "within R (asksMeta g)" "within R (require c e)"
  by (simp_all add: within_def act_defs refl)

lemma andThen_within: "within R m \<Longrightarrow> (\<And>x. within R (f x)) \<Longrightarrow> within R (andThen m f)"
  by (auto simp: within_def andThen_def split: prod.split sum.split) (metis fst_conv trans)+

lemma attempt_within: "within R m \<Longrightarrow> within R (attempt m)"
  by (auto simp: within_def attempt_def split: prod.split) (metis fst_conv)

lemma forAll_within: "(\<And>x. within R (f x)) \<Longrightarrow> within R (forAll f xs)"
  by (induction xs) (auto intro: pure_actions andThen_within)

lemma branches:
  "within R a \<Longrightarrow> within R b \<Longrightarrow> within R (if c then a else b)"
  "within R n \<Longrightarrow> (\<And>x. within R (g x)) \<Longrightarrow> within R (case ov of None \<Rightarrow> n | Some x \<Rightarrow> g x)"
  "(\<And>e. within R (l e)) \<Longrightarrow> (\<And>x. within R (r x)) \<Longrightarrow> within R (case v of Inl e \<Rightarrow> l e | Inr x \<Rightarrow> r x)"
  "(\<And>x y. within R (h x y)) \<Longrightarrow> within R (case p of (x, y) \<Rightarrow> h x y)"
  "within R n \<Longrightarrow> (\<And>x xs. within R (k x xs)) \<Longrightarrow> within R (case xs of [] \<Rightarrow> n | x # xs \<Rightarrow> k x xs)"
  "(\<And>x. within R (lt x)) \<Longrightarrow> within R (let x = u in lt x)"
  by (auto split: option.split sum.split prod.split list.split)

lemmas within_rules = pure_actions andThen_within attempt_within forAll_within branches

end

subsection \<open>What the control service relies on\<close>

text \<open>
  The world: \<open>used\<close> are the random parts of identifiers handed out so far, \<open>logged\<close> the keys of the
  events the log has acknowledged, by stream. Random parts do not repeat; an acknowledged append is
  in the log; nothing is forgotten.
\<close>

definition world_laws :: "'w control_env \<Rightarrow> ('w \<Rightarrow> string set) \<Rightarrow> ('w \<Rightarrow> (string \<times> string) set) \<Rightarrow> bool" where
  "world_laws env used logged \<longleftrightarrow>
     (\<forall>rq w w' r. ce_append env rq w = (w', r) \<longrightarrow> used w' = used w \<and> logged w \<subseteq> logged w' \<and>
        (\<forall>resp. r = Inr resp \<longrightarrow> (rq_StreamID rq, rq_IdempotencyKey rq) \<in> logged w')) \<and>
     (\<forall>st b w. used (fst (ce_trim env st b w)) = used w \<and> logged w \<subseteq> logged (fst (ce_trim env st b w))) \<and>
     (\<forall>ns d w. used (fst (ce_put env ns d w)) = used w \<and> logged w \<subseteq> logged (fst (ce_put env ns d w))) \<and>
     (\<forall>w. used (fst (ce_now env w)) = used w \<and> logged w \<subseteq> logged (fst (ce_now env w))) \<and>
     (\<forall>w. used (fst (ce_elapsed env w)) = used w \<and> logged w \<subseteq> logged (fst (ce_elapsed env w))) \<and>
     (\<forall>w. used (fst (ce_stamp env w)) = used w \<and> logged w \<subseteq> logged (fst (ce_stamp env w))) \<and>
     (\<forall>w w' r. ce_random env w = (w', r) \<longrightarrow> r \<notin> used w \<and> used w' = insert r (used w) \<and> logged w \<subseteq> logged w')"

definition frame :: "('w \<Rightarrow> string set) \<Rightarrow> ('w \<Rightarrow> (string \<times> string) set) \<Rightarrow> 'w service \<Rightarrow> 'w service \<Rightarrow> bool" where
  "frame used logged s t \<longleftrightarrow>
     sv_queue t = sv_queue s \<and> sv_specs t = sv_specs s \<and> sv_schedulerV2 t = sv_schedulerV2 s \<and>
     ms_tasks (sv_meta t) = ms_tasks (sv_meta s) \<and> ms_taskByIdemKey (sv_meta t) = ms_taskByIdemKey (sv_meta s) \<and>
     used (sv_world s) \<subseteq> used (sv_world t) \<and> logged (sv_world s) \<subseteq> logged (sv_world t)"

interpretation frame: step_order "frame used logged" for used logged
  by unfold_locales (auto simp: frame_def)


subsection \<open>Actions that leave tasks alone\<close>

lemma frame_modify: "(\<And>s. frame used logged s (f s)) \<Longrightarrow> within (frame used logged) (modify f)"
  by (simp add: within_def modify_def)

lemma frame_onScheduler [moves]: "within (frame used logged) (onScheduler f)"
  by (simp add: within_def onScheduler_def frame_def)

lemma frame_inMeta: "(\<And>m. ms_tasks (fst (f m)) = ms_tasks m \<and> ms_taskByIdemKey (fst (f m)) = ms_taskByIdemKey m) \<Longrightarrow> within (frame used logged) (inMeta f)"
  by (auto simp: within_def inMeta_def frame_def split: prod.split) (metis fst_conv)+

lemma frame_inWorld:
  "(\<And>w. used w \<subseteq> used (fst (f w)) \<and> logged w \<subseteq> logged (fst (f w))) \<Longrightarrow> within (frame used logged) (inWorld f)"
  by (auto simp: within_def inWorld_def frame_def split: prod.split) (metis fst_conv subsetD)+

lemma frame_world [moves]:
  assumes "world_laws env used logged"
  shows "within (frame used logged) (inWorld (ce_append env rq))" "within (frame used logged) (inWorld (ce_trim env st b))"
    "within (frame used logged) (inWorld (ce_put env ns d))" "within (frame used logged) (inWorld (ce_now env))"
    "within (frame used logged) (inWorld (ce_elapsed env))" "within (frame used logged) (inWorld (ce_stamp env))"
    "within (frame used logged) (inWorld (ce_random env))"
  using assms by (auto intro!: frame_inWorld simp: world_laws_def) (metis prod.collapse subsetD insertCI)+

lemma tasks_untouched [simp]:
  "ms_tasks (fst (UpdateWorkflow i f t m)) = ms_tasks m" "ms_tasks (fst (UpdateActor i g t m)) = ms_tasks m"
  "ms_tasks (fst (CreateWorkflow ws k m)) = ms_tasks m" "ms_tasks (fst (CreateActor a k m)) = ms_tasks m"
  "ms_tasks (fst (RegisterModel md m)) = ms_tasks m" "ms_tasks (fst (Heartbeat w c t m)) = ms_tasks m"
  "ms_tasks (IncrementWorkerLoad w t m) = ms_tasks m" "ms_tasks (DecrementWorkerLoad w m) = ms_tasks m"
  "ms_tasks (meta_UpsertWorker wk t m) = ms_tasks m"
  "ms_taskByIdemKey (fst (UpdateWorkflow i f t m)) = ms_taskByIdemKey m" "ms_taskByIdemKey (fst (UpdateActor i g t m)) = ms_taskByIdemKey m"
  "ms_taskByIdemKey (fst (CreateWorkflow ws k m)) = ms_taskByIdemKey m" "ms_taskByIdemKey (fst (CreateActor a k m)) = ms_taskByIdemKey m"
  "ms_taskByIdemKey (fst (RegisterModel md m)) = ms_taskByIdemKey m" "ms_taskByIdemKey (fst (Heartbeat w c t m)) = ms_taskByIdemKey m"
  "ms_taskByIdemKey (IncrementWorkerLoad w t m) = ms_taskByIdemKey m" "ms_taskByIdemKey (DecrementWorkerLoad w m) = ms_taskByIdemKey m"
  "ms_taskByIdemKey (meta_UpsertWorker wk t m) = ms_taskByIdemKey m"
  by (simp_all add: UpdateWorkflow_def UpdateActor_def CreateWorkflow_def CreateActor_def RegisterModel_def Heartbeat_def
    IncrementWorkerLoad_def DecrementWorkerLoad_def meta_UpsertWorker_def Let_def split: option.split sum.split)

lemma frame_clock [moves]:
  assumes "world_laws env used logged"
  shows "within (frame used logged) (now env)"
    "within (frame used logged) (nowMs env)"
  using assms unfolding now_def nowMs_def
  by (intro frame.within_rules moves frame_modify frame_inMeta; simp add: frame_def)+

lemma frame_metaAt [moves]:
  assumes "world_laws env used logged" "\<And>t m. ms_tasks (fst (f t m)) = ms_tasks m \<and> ms_taskByIdemKey (fst (f t m)) = ms_taskByIdemKey m"
  shows "within (frame used logged) (metaAt env f)"
  using assms unfolding metaAt_def
  by (intro frame.within_rules moves frame_modify frame_inMeta; simp add: frame_def)+

lemma frame_metaResult [moves]:
  assumes "world_laws env used logged" "\<And>t m. ms_tasks (fst (f t m)) = ms_tasks m \<and> ms_taskByIdemKey (fst (f t m)) = ms_taskByIdemKey m"
  shows "within (frame used logged) (metaResult env f)"
  using assms unfolding metaResult_def
  by (intro frame.within_rules moves frame_modify frame_inMeta; simp add: frame_def)+

lemma frame_log [moves]:
  assumes "world_laws env used logged"
  shows "within (frame used logged) (appendLog env rq)"
    "within (frame used logged) (metadataPersisted env)"
    "within (frame used logged) (newTaskID env)"
    "within (frame used logged) (newWorkflowID env)"
    "within (frame used logged) (newActorID env)"
    "within (frame used logged) (newActorCallID env)"
    "within (frame used logged) (putBytes env ns data)"
    "within (frame used logged) (activeWorkers env age)"
  using assms unfolding appendLog_def metadataPersisted_def newTaskID_def newWorkflowID_def newActorID_def newActorCallID_def putBytes_def activeWorkers_def
  by (intro frame.within_rules moves frame_modify frame_inMeta; simp add: frame_def)+

lemma frame_local [moves]:
  "within (frame used logged) (notifyTaskAvailable)"
    "within (frame used logged) (syncSchedulerLLMStats)"
    "within (frame used logged) (updateSchedulerWorker wid)"
    "within (frame used logged) (completeSchedulerRunning tid)"
    "within (frame used logged) (checkBackpressure)"
    "within (frame used logged) (checkFingerprint kind key a b)"
    "within (frame used logged) (decrementLoad wid)"
    "within (frame used logged) (resyncSchedulerTask tk timeout)"
    "within (frame used logged) (track_again timeout lease)"
  unfolding notifyTaskAvailable_def syncSchedulerLLMStats_def updateSchedulerWorker_def completeSchedulerRunning_def checkBackpressure_def checkFingerprint_def decrementLoad_def resyncSchedulerTask_def track_again_def
  by (intro frame.within_rules moves frame_modify frame_inMeta; simp add: frame_def)+

lemma frame_workers [moves]:
  assumes "world_laws env used logged"
  shows "within (frame used logged) (syncActiveSchedulerWorkers env)"
    "within (frame used logged) (syncSchedulerWorkers env)"
    "within (frame used logged) (function_ref env src ref)"
    "within (frame used logged) (appendTaskRedelivered env tk)"
    "within (frame used logged) (preferredLLMWorker env tid spec)"
    "within (frame used logged) (materializeResult env ns data)"
    "within (frame used logged) (workflowEvent env wid ev key payload)"
    "within (frame used logged) (updateWorkflow env wid f)"
    "within (frame used logged) (actorEvent env aid ev key ap)"
    "within (frame used logged) (updateActor env aid g)"
  using assms unfolding syncActiveSchedulerWorkers_def syncSchedulerWorkers_def function_ref_def appendTaskRedelivered_def preferredLLMWorker_def materializeResult_def workflowEvent_def updateWorkflow_def actorEvent_def updateActor_def
  by (intro frame.within_rules moves frame_modify frame_inMeta; simp add: frame_def)+

lemma frame_registry [moves]:
  assumes "world_laws env used logged"
  shows "within (frame used logged) (hydrateSchedulerWorkersIfNeeded env)"
    "within (frame used logged) (ensureFunctionRegistered env e src ref hash)"
  using assms unfolding hydrateSchedulerWorkersIfNeeded_def ensureFunctionRegistered_def
  by (intro frame.within_rules moves frame_modify frame_inMeta; simp add: frame_def)+

lemma frame_functions [moves]:
  assumes "world_laws env used logged"
  shows "within (frame used logged) (normalizeTaskFunction env spec)"
    "within (frame used logged) (predictedLLMWorker env tid spec)"
    "within (frame used logged) (normalizeStep env step)"
  using assms unfolding normalizeTaskFunction_def predictedLLMWorker_def normalizeStep_def
  by (intro frame.within_rules moves frame_modify frame_inMeta; simp add: frame_def)+

lemma frame_assignment [moves]:
  assumes "world_laws env used logged"
  shows "within (frame used logged) (canAssignTaskToWorker env tid spec wid)"
  using assms unfolding canAssignTaskToWorker_def
  by (intro frame.within_rules moves frame_modify frame_inMeta; simp add: frame_def)+

lemma frame_normalizeSteps [moves]: "world_laws env used logged \<Longrightarrow> within (frame used logged) (normalizeSteps env steps)"
  by (induction steps) (auto intro!: frame.within_rules moves)

lemma frame_workflow [moves]:
  assumes "world_laws env used logged"
  shows "within (frame used logged) (completeWorkflow env state)"
    "within (frame used logged) (failWorkflow env state err)"
    "within (frame used logged) (normalizeWorkflowDefinition env def)"
    "within (frame used logged) (markWorkflowStepStarted env tk wid)"
  using assms unfolding completeWorkflow_def failWorkflow_def normalizeWorkflowDefinition_def markWorkflowStepStarted_def withStep_def
  by (intro frame.within_rules moves frame_modify frame_inMeta; simp add: frame_def)+

lemma frame_step_events [moves]:
  assumes "world_laws env used logged"
  shows "within (frame used logged) (step_succeeded_event env tk step res t lat)"
    "within (frame used logged) (step_failed_event env tk state step err t lat)"
  using assms unfolding step_succeeded_event_def step_failed_event_def Let_def
  by (intro frame.within_rules moves frame_modify frame_inMeta; simp add: frame_def)+

lemma frame_steps [moves]:
  assumes "world_laws env used logged"
  shows "within (frame used logged) (completeWorkflowStep env tk st res err)"
  using assms unfolding completeWorkflowStep_def withStep_def Let_def
  by (intro frame.within_rules moves frame_modify frame_inMeta; simp add: frame_def)+

lemma frame_actor [moves]:
  assumes "world_laws env used logged"
  shows "within (frame used logged) (ensureActorOwner env aid)"
    "within (frame used logged) (replayActor env aid)"
    "within (frame used logged) (createActorSnapshot env state)"
    "within (frame used logged) (failActorCommand env tk req spec n)"
    "within (frame used logged) (applyActorCommand env tk req spec n)"
  using assms unfolding ensureActorOwner_def replayActor_def createActorSnapshot_def failActorCommand_def applyActorCommand_def
  by (intro frame.within_rules moves frame_modify frame_inMeta; simp add: frame_def)+

lemma frame_actor_calls [moves]:
  assumes "world_laws env used logged"
  shows "within (frame used logged) (completeActorCall env tk req)"
    "within (frame used logged) (service_CreateActor env creq)"
  using assms unfolding completeActorCall_def service_CreateActor_def
  by (intro frame.within_rules moves frame_modify frame_inMeta; simp add: frame_def)+

lemma frame_models [moves]:
  assumes "world_laws env used logged"
  shows "within (frame used logged) (service_RegisterModel env model)"
    "within (frame used logged) (SetSchedulingPolicy env policy)"
    "within (frame used logged) (materializeLLMCompleted env p)"
  using assms unfolding service_RegisterModel_def SetSchedulingPolicy_def materializeLLMCompleted_def fold_stats_def Let_def
  by (intro frame.within_rules moves frame_modify frame_inMeta; simp add: frame_def)+

lemma frame_handlers [moves]:
  assumes "world_laws env used logged"
  shows "within (frame used logged) (materializeLLMTaskCompletion env tid)"
    "within (frame used logged) (appendTaskStarted env tk wid)"
    "within (frame used logged) (appendTaskTerminal env tk st res err)"
    "within (frame used logged) (RegisterWorker env wreq)"
    "within (frame used logged) (service_Heartbeat env wid models)"
    "within (frame used logged) (SetBackpressure env w r l)"
  using assms unfolding materializeLLMTaskCompletion_def appendTaskStarted_def appendTaskTerminal_def RegisterWorker_def service_Heartbeat_def SetBackpressure_def
  by (intro frame.within_rules moves frame_modify frame_inMeta; simp add: frame_def)+

lemma frame_StartTask [moves]:
  assumes "world_laws env used logged"
  shows "within (frame used logged) (StartTask env tid wid ep)"
  using assms unfolding StartTask_def
  by (intro frame.within_rules moves frame_modify frame_inMeta; simp add: frame_def)+

end
