(* ===== verification/Control_Invariant.thy ===== *)
theory Control_Invariant
  imports Control_Rules
begin

text \<open>
  Invariants of the tasks of the control service. A locale collects what an invariant has to show of the
  operations that change tasks; the preservation by every handler, and so by every run, follows once.
\<close>

subsection \<open>Triples\<close>

definition hoare :: "('w service \<Rightarrow> bool) \<Rightarrow> ('w, 'a) act \<Rightarrow> (control_error + 'a \<Rightarrow> 'w service \<Rightarrow> bool) \<Rightarrow> bool" where
  "hoare P m Q \<longleftrightarrow> (\<forall>s. P s \<longrightarrow> Q (snd (m s)) (fst (m s)))"

abbreviation keeps :: "('w service \<Rightarrow> bool) \<Rightarrow> ('w, 'a) act \<Rightarrow> bool" where
  "keeps P m \<equiv> within (\<lambda>s t. P s \<longrightarrow> P t) m"

interpretation inv: step_order "\<lambda>s t. P s \<longrightarrow> P t" for P
  by unfold_locales auto

lemma hoare_andThen:
  assumes "hoare P m R" "\<And>x. hoare (R (Inr x)) (f x) Q" "\<And>e s. R (Inl e) s \<Longrightarrow> Q (Inl e) s"
  shows "hoare P (andThen m f) Q"
proof -
  have "Q (snd (andThen m f s)) (fst (andThen m f s))" if "P s" for s
  proof (cases "m s")
    case (Pair t r)
    with assms(1) that have "R r t" by (auto simp: hoare_def)
    with Pair assms(2,3) show ?thesis by (cases r) (auto simp: andThen_def hoare_def)
  qed
  then show ?thesis by (simp add: hoare_def)
qed

lemma andThen_ret [simp]: "andThen (ret x) f = f x"
  by (rule ext) (simp add: andThen_def ret_def)

lemma hoare_conseq: "hoare P' m Q' \<Longrightarrow> (\<And>s. P s \<Longrightarrow> P' s) \<Longrightarrow> (\<And>r s. Q' r s \<Longrightarrow> Q r s) \<Longrightarrow> hoare P m Q"
  by (auto simp: hoare_def)

lemma hoare_keeps: "hoare P m (\<lambda>_. P) \<longleftrightarrow> keeps P m"
  by (simp add: hoare_def within_def)

lemma within_result: "within R m \<Longrightarrow> m s = (t, r) \<Longrightarrow> R s t"
  unfolding within_def by (drule spec [of _ s]) simp

lemma keeps_frame:
  assumes "within (frame used logged) m" "\<And>s t. P s \<Longrightarrow> frame used logged s t \<Longrightarrow> P t"
  shows "keeps P m"
  using assms by (auto simp: within_def)

lemma hoare_pure:
  "(\<And>s. P s \<Longrightarrow> Q (Inr x) s) \<Longrightarrow> hoare P (ret x) Q"
  "(\<And>s. P s \<Longrightarrow> Q (Inl e) s) \<Longrightarrow> hoare P (fail e) Q"
  "(\<And>s. P s \<Longrightarrow> Q r s) \<Longrightarrow> hoare P (liftR r) Q"
  "(\<And>s. P s \<Longrightarrow> Q (Inr (f s)) s) \<Longrightarrow> hoare P (asks f) Q"
  "(\<And>s. P s \<Longrightarrow> Q (Inr (g (sv_meta s))) s) \<Longrightarrow> hoare P (asksMeta g) Q"
  "(\<And>s. P s \<Longrightarrow> Q (Inr ()) (h s)) \<Longrightarrow> hoare P (modify h) Q"
  by (simp_all add: hoare_def act_defs)

subsection \<open>Identifiers\<close>

definition known_id :: "('w \<Rightarrow> string set) \<Rightarrow> string \<Rightarrow> 'w service \<Rightarrow> bool" where
  "known_id used taskID s \<longleftrightarrow> (\<exists>r\<in>used (sv_world s). taskID = ''task-'' @ r \<or> taskID = ''actor-call-'' @ r)"

definition fresh :: "('w \<Rightarrow> string set) \<Rightarrow> string \<Rightarrow> 'w service \<Rightarrow> bool" where
  "fresh used taskID s \<longleftrightarrow> ms_tasks (sv_meta s) taskID = None \<and> known_id used taskID s"

lemma known_frame: "known_id used i s \<Longrightarrow> frame used logged s t \<Longrightarrow> known_id used i t"
  by (auto simp: known_id_def frame_def)

lemma fresh_frame: "fresh used i s \<Longrightarrow> frame used logged s t \<Longrightarrow> fresh used i t"
  using known_frame [of used i s logged t] by (simp add: fresh_def frame_def)

lemma fresh_nonempty: "fresh used i s \<Longrightarrow> i \<noteq> ''''"
  by (auto simp: fresh_def known_id_def)

lemma fresh_prefix:
  assumes laws: "world_laws env used logged"
    and known: "\<And>s i tk. P s \<Longrightarrow> ms_tasks (sv_meta s) i = Some tk \<Longrightarrow> known_id used i s"
    and closed: "\<And>s t. P s \<Longrightarrow> frame used logged s t \<Longrightarrow> P t"
    and p: "p = ''task-'' \<or> p = ''actor-call-''"
  shows "hoare P (andThen (inWorld (ce_random env)) (\<lambda>r. ret (p @ r))) (\<lambda>r s. P s \<and> (\<forall>i. r = Inr i \<longrightarrow> fresh used i s))"
  unfolding hoare_def
proof (intro allI impI)
  fix s assume "P s"
  obtain w r where rnd: "ce_random env (sv_world s) = (w, r)" by fastforce
  then have r: "r \<notin> used (sv_world s)" "used w = insert r (used (sv_world s))" and fr: "frame used logged s (s\<lparr>sv_world := w\<rparr>)"
    using laws by (auto simp: world_laws_def frame_def)
  have "\<not> known_id used (p @ r) s"
    using r p by (auto simp: known_id_def)
  with known [OF \<open>P s\<close>] have "ms_tasks (sv_meta s) (p @ r) = None"
    by (cases "ms_tasks (sv_meta s) (p @ r)") auto
  then have "fresh used (p @ r) (s\<lparr>sv_world := w\<rparr>)"
    using r p by (auto simp: fresh_def known_id_def)
  with rnd closed [OF \<open>P s\<close> fr]
  show "P (fst (andThen (inWorld (ce_random env)) (\<lambda>r. ret (p @ r)) s)) \<and>
    (\<forall>i. snd (andThen (inWorld (ce_random env)) (\<lambda>r. ret (p @ r)) s) = Inr i \<longrightarrow>
       fresh used i (fst (andThen (inWorld (ce_random env)) (\<lambda>r. ret (p @ r)) s)))"
    by (simp add: andThen_def inWorld_def ret_def)
qed

subsection \<open>What an invariant has to show\<close>

definition validated :: "complete_request \<Rightarrow> task \<Rightarrow> 'w service \<Rightarrow> bool" where
  "validated req tk s \<longleftrightarrow> ms_tasks (sv_meta s) (cr_TaskId req) = Some tk \<and> \<not> isTerminalTaskStatus (tk_Status tk) \<and>
     check_lease tk (cr_WorkerId req) (cr_TaskLeaseEpoch req) \<and> isTerminalTaskStatus (cr_Status req)"

text \<open>A change of the new task record that keeps its identifier and status.\<close>

definition plain :: "(task \<Rightarrow> task) \<Rightarrow> bool" where
  "plain mutate \<longleftrightarrow> (\<forall>tk. tk_TaskID (mutate tk) = tk_TaskID tk \<and> tk_Status (mutate tk) = tk_Status tk)"

locale task_invariant =
  fixes I :: "'w control_env \<Rightarrow> ('w \<Rightarrow> string set) \<Rightarrow> ('w \<Rightarrow> (string \<times> string) set) \<Rightarrow> 'w service \<Rightarrow> bool"
  assumes closed: "I env used logged s \<Longrightarrow> frame used logged s t \<Longrightarrow> I env used logged t"
    and known: "I env used logged s \<Longrightarrow> ms_tasks (sv_meta s) i = Some tk \<Longrightarrow> known_id used i s"
    and admits: "world_laws env used logged \<Longrightarrow> plain mutate \<Longrightarrow>
      hoare (\<lambda>s. I env used logged s \<and> fresh used (sp_TaskId spec) s) (admit env spec fingerprint mutate) (\<lambda>_. I env used logged)"
    and polls: "world_laws env used logged \<Longrightarrow> keeps (I env used logged) (pollTaskNow env fuel workerID maxTasks)"
    and finishes: "world_laws env used logged \<Longrightarrow>
      hoare (\<lambda>s. I env used logged s \<and> validated req tk s) (finish_task env tk req) (\<lambda>_. I env used logged)"
begin

lemma keeps_I: "within (frame used logged) m \<Longrightarrow> keeps (I env used logged) m"
  using keeps_frame closed by blast

lemma keeps_fresh: "within (frame used logged) m \<Longrightarrow> keeps (\<lambda>s. I env used logged s \<and> fresh used i s) m"
  by (rule keeps_frame) (auto intro: closed fresh_frame)

lemma hoare_quiet: "within (frame used logged) m \<Longrightarrow> hoare (\<lambda>s. I env used logged s \<and> fresh used i s) m (\<lambda>_. I env used logged)"
  using keeps_fresh [of used logged m env i] by (auto simp: hoare_def within_def)

lemma hoare_keep_value:
  assumes "within (frame used logged) m" "\<And>s x. snd (m s) = Inr x \<Longrightarrow> V x"
    and "\<And>x. V x \<Longrightarrow> hoare (\<lambda>s. I env used logged s \<and> fresh used i s) (f x) (\<lambda>_. I env used logged)"
  shows "hoare (\<lambda>s. I env used logged s \<and> fresh used i s) (andThen m f) (\<lambda>_. I env used logged)"
proof (rule hoare_andThen)
  show "hoare (\<lambda>s. I env used logged s \<and> fresh used i s) m (\<lambda>r s. I env used logged s \<and> fresh used i s \<and> (\<forall>x. r = Inr x \<longrightarrow> V x))"
    using keeps_fresh [OF assms(1)] assms(2) by (auto simp: hoare_def within_def)
  show "hoare (\<lambda>s. I env used logged s \<and> fresh used i s \<and> (\<forall>y. Inr x = Inr y \<longrightarrow> V y)) (f x) (\<lambda>_. I env used logged)" for x
    using assms(3) [of x] by (auto simp: hoare_def)
qed auto

lemmas hoare_keep = hoare_keep_value [where V = "\<lambda>_. True", simplified]

lemma new_id:
  assumes "world_laws env used logged" "p = ''task-'' \<or> p = ''actor-call-''"
    and "\<And>i. hoare (\<lambda>s. I env used logged s \<and> fresh used i s) (f i) (\<lambda>_. I env used logged)"
  shows "keeps (I env used logged) (andThen (andThen (inWorld (ce_random env)) (\<lambda>r. ret (p @ r))) f)"
  unfolding hoare_keeps [symmetric]
proof (rule hoare_andThen [OF fresh_prefix [OF assms(1) _ _ assms(2)]])
  show "hoare (\<lambda>s. I env used logged s \<and> (\<forall>i. Inr x = Inr i \<longrightarrow> fresh used i s)) (f x) (\<lambda>_. I env used logged)" for x
    using assms(3) [of x] by simp
qed (auto intro: known closed)

lemma enqueue_keeps:
  assumes laws: "world_laws env used logged" and plain: "plain mutate"
  shows "hoare (\<lambda>s. I env used logged s \<and> fresh used (sp_TaskId spec) s) (enqueueTaskWithMetadata env spec mutate) (\<lambda>_. I env used logged)"
proof (cases "sp_TaskId spec = ''''")
  case True
  then show ?thesis using fresh_nonempty by (fastforce simp: hoare_def)
next
  case False
  have same: "sp_TaskId spec' = sp_TaskId spec" if "snd (normalizeTaskFunction env spec s) = Inr spec'" for s spec'
    using that by (auto simp: normalizeTaskFunction_def andThen_def ret_def split: if_splits prod.splits sum.splits)
  have admit: "hoare (\<lambda>s. I env used logged s \<and> fresh used (sp_TaskId spec) s)
      (case existing of
         Some tk \<Rightarrow> andThen (checkFingerprint k key (tk_IdempotencyFingerprint tk) fp) (\<lambda>_. ret (tk, True))
       | None \<Rightarrow> andThen checkBackpressure (\<lambda>_. admit env spec' fp mutate)) (\<lambda>_. I env used logged)"
    if "sp_TaskId spec' = sp_TaskId spec" for existing spec' fp k key
    using admits [OF laws plain, of spec' fp] that
    by (cases existing) (simp_all add: hoare_keep [OF frame_local(5)], intro hoare_quiet frame.within_rules moves)
  from False show ?thesis
    unfolding enqueueTaskWithMetadata_def
    by (auto intro!: hoare_keep_value [where V = "\<lambda>spec'. sp_TaskId spec' = sp_TaskId spec" and m = "normalizeTaskFunction env spec"]
        hoare_keep [where m = "liftR _"] hoare_keep [where m = "asksMeta _"] moves laws frame.within_rules admit dest: same)
qed

lemma quiet_then: "within (frame used logged) m \<Longrightarrow> (\<And>x. keeps (I env used logged) (f x)) \<Longrightarrow> keeps (I env used logged) (andThen m f)"
  by (rule inv.andThen_within [OF keeps_I])

lemma then_quiet:
  "hoare P m (\<lambda>_. I env used logged) \<Longrightarrow> (\<And>x. within (frame used logged) (f x)) \<Longrightarrow> hoare P (andThen m f) (\<lambda>_. I env used logged)"
  by (rule hoare_andThen) (auto simp: hoare_keeps intro: keeps_I)

lemma submit_then:
  assumes "world_laws env used logged" "plain mutate" "sp_TaskId spec = i" "\<And>x. within (frame used logged) (f x)"
  shows "hoare (\<lambda>s. I env used logged s \<and> fresh used i s) (andThen (enqueueTaskWithMetadata env spec mutate) f) (\<lambda>_. I env used logged)"
  using then_quiet [OF enqueue_keeps [OF assms(1,2)] assms(4), of spec] assms(3) by simp

lemma plain_changes [simp]: "plain id" "plain (\<lambda>tk. tk\<lparr>tk_ActorCommandSeq := n\<rparr>)"
  by (simp_all add: plain_def)

lemmas submissions = new_id submit_then hoare_keep [where m = "nowMs _"] hoare_keep [where m = "liftR _"] hoare_keep [where m = "asksMeta _"]
  hoare_keep [where m = "actorEvent _ _ _ _ _"]

lemma submission_specs [simp]:
  "sp_TaskId (step_task_spec i wid sd args k) = i" "sp_TaskId (user_task_spec req i) = i"
  "sp_TaskId (llm_task_spec lreq v i args model) = i" "sp_TaskId (command_spec creq st i args k) = i"
  by (simp_all add: step_task_spec_def user_task_spec_def llm_task_spec_def command_spec_def)

lemma step_keeps: "world_laws env used logged \<Longrightarrow> keeps (I env used logged) (schedule_step env workflowID state stepDef step)"
  unfolding schedule_step_def Let_def enqueueTask_def newTaskID_def
  by (intro quiet_then [where m = "asks _"] quiet_then [where m = "liftR _"] frame.within_rules inv.branches submissions moves) simp_all


lemma schedule_keeps: "world_laws env used logged \<Longrightarrow> keeps (I env used logged) (schedule_loop env fuel workflowID state)"
  by (induction fuel arbitrary: state) (auto intro!: inv.within_rules step_keeps)

lemma scheduleReadySteps_keeps: "world_laws env used logged \<Longrightarrow> keeps (I env used logged) (scheduleReadySteps env workflowID)"
  unfolding scheduleReadySteps_def by (intro inv.within_rules schedule_keeps)

lemma submission_keeps:
  assumes "world_laws env used logged"
  shows "keeps (I env used logged) (SubmitTask env req)" "keeps (I env used logged) (SubmitLLM env lreq)"
  using assms unfolding SubmitTask_def SubmitLLM_def Let_def enqueueTask_def newTaskID_def
  by (intro quiet_then [where m = "require _ _"] quiet_then [where m = "liftR _"] quiet_then [where m = "asksMeta _"]
    inv.branches inv.pure_actions frame.within_rules submissions moves; simp)+

lemmas quiet_moves = moves [THEN keeps_I] frame_inMeta [THEN keeps_I] frame_modify [THEN keeps_I]

lemma workflow_keeps: "world_laws env used logged \<Longrightarrow> keeps (I env used logged) (SubmitWorkflow env name def key)"
  unfolding SubmitWorkflow_def Let_def
  by (intro inv.within_rules quiet_moves scheduleReadySteps_keeps) simp_all

lemma poll_keeps: "world_laws env used logged \<Longrightarrow> keeps (I env used logged) (PollTask env fuel wakeup workerID maxTasks waitMs)"
  unfolding PollTask_def by (cases wakeup) (auto intro!: inv.within_rules polls)

text \<open>A completion: the lease was validated on the state in which the task is finished.\<close>

lemma validated_lease:
  assumes "ValidateTaskLease (cr_TaskId req) (cr_WorkerId req) (cr_TaskLeaseEpoch req) m = Inr tk" "isTerminalTaskStatus (cr_Status req)"
    and "\<not> (case GetTask (cr_TaskId req) m of None \<Rightarrow> False | Some tk \<Rightarrow> isTerminalTaskStatus (tk_Status tk))" "sv_meta s = m"
  shows "validated req tk s"
  using assms
  by (auto simp: validated_def ValidateTaskLease_def GetTask_def isTerminalTaskStatus_def split: option.splits if_splits)

lemma validated_frame: "validated req tk s \<Longrightarrow> frame used logged s t \<Longrightarrow> validated req tk t"
  by (simp add: validated_def frame_def)

lemma finish_then:
  assumes "world_laws env used logged" "\<And>x. keeps (I env used logged) (f x)"
  shows "hoare (\<lambda>s. I env used logged s \<and> validated req tk s) (andThen (finish_task env tk req) f) (\<lambda>_. I env used logged)"
  by (rule hoare_andThen [OF finishes [OF assms(1)]]) (use assms(2) in \<open>auto simp: hoare_keeps\<close>)

lemma after_keeps: "world_laws env used logged \<Longrightarrow> keeps (I env used logged) (after_completion env tk req)"
  unfolding after_completion_def by (intro inv.within_rules quiet_moves scheduleReadySteps_keeps)

lemma actor_then_finish:
  assumes "world_laws env used logged"
  shows "hoare (\<lambda>s. I env used logged s \<and> validated req tk s)
    (andThen (completeActorCall env tk req) (\<lambda>_. andThen (finish_task env tk req) (\<lambda>_. notifyTaskAvailable))) (\<lambda>_. I env used logged)"
proof (rule hoare_andThen)
  show "hoare (\<lambda>s. I env used logged s \<and> validated req tk s) (completeActorCall env tk req) (\<lambda>_ s. I env used logged s \<and> validated req tk s)"
    unfolding hoare_keeps by (rule keeps_frame [OF frame_actor_calls(1) [OF assms]]) (auto intro: closed validated_frame)
qed (auto intro!: finish_then assms quiet_moves)

lemma complete_keeps:
  assumes laws: "world_laws env used logged"
  shows "keeps (I env used logged) (service_CompleteTask env req)"
proof -
  let ?D = "\<lambda>tk. if tk_ActorID tk \<noteq> '''' then
         andThen (completeActorCall env tk req) (\<lambda>_. andThen (finish_task env tk req) (\<lambda>_. notifyTaskAvailable))
       else andThen (finish_task env tk req) (\<lambda>tk. after_completion env tk req)"
  have D: "hoare (\<lambda>s. I env used logged s \<and> validated req tk s) (?D tk) (\<lambda>_. I env used logged)" for tk
    using actor_then_finish [OF laws] finish_then [OF laws after_keeps [OF laws]] by simp
  have "I env used logged (fst (service_CompleteTask env req s))" if I: "I env used logged s" for s
  proof (cases "isTerminalTaskStatus (cr_Status req) \<and>
      \<not> (case GetTask (cr_TaskId req) (sv_meta s) of None \<Rightarrow> False | Some tk \<Rightarrow> isTerminalTaskStatus (tk_Status tk))")
    case True
    then have st: "cr_Status req = TASK_STATUS_SUCCEEDED \<or> cr_Status req = TASK_STATUS_FAILED"
      by (simp add: isTerminalTaskStatus_def)
    show ?thesis
    proof (cases "ValidateTaskLease (cr_TaskId req) (cr_WorkerId req) (cr_TaskLeaseEpoch req) (sv_meta s)")
      case (Inr tk)
      then have "validated req tk s" using True by (intro validated_lease) auto
      moreover have "service_CompleteTask env req s = ?D tk s"
        using True Inr st by (auto simp: service_CompleteTask_def andThen_def require_def ret_def asksMeta_def liftR_def)
      ultimately show ?thesis using D [of tk] I by (simp add: hoare_def)
    qed (use True st I in \<open>auto simp: service_CompleteTask_def andThen_def require_def ret_def asksMeta_def liftR_def\<close>)
  next
    case False
    have "keeps (I env used logged) (completeSchedulerRunning (cr_TaskId req))" by (intro quiet_moves)
    with False I show ?thesis
      by (auto simp: service_CompleteTask_def andThen_def require_def ret_def fail_def asksMeta_def within_def isTerminalTaskStatus_def)
  qed
  then show ?thesis by (simp add: within_def)
qed

lemma items_keep: "world_laws env used logged \<Longrightarrow> keeps (I env used logged) (complete_items env items)"
  by (induction env items rule: complete_items.induct) (auto intro!: inv.within_rules complete_keeps split: option.split)

lemma keeps_modify: "(\<And>u. P u \<Longrightarrow> P (g u)) \<Longrightarrow> keeps P (modify g)"
  by (simp add: within_def modify_def)

lemma wait_keeps:
  assumes laws: "world_laws env used logged" and "\<forall>g u. Some g \<in> set waits \<longrightarrow> I env used logged u \<longrightarrow> I env used logged (g u)"
  shows "keeps (I env used logged) (waitActorOwner env waits actorID deadlineAt)"
  using assms(2)
proof (induction waits)
  case Nil
  show ?case by (subst waitActorOwner.simps) (unfold list.case, intro inv.within_rules moves [THEN keeps_I] laws)
next
  case (Cons w waits)
  then have rest: "keeps (I env used logged) (waitActorOwner env waits actorID deadlineAt)"
    and woken: "\<And>g u. w = Some g \<Longrightarrow> I env used logged u \<Longrightarrow> I env used logged (g u)"
    by auto
  show ?case
  proof (cases w)
    case None
    show ?thesis unfolding None waitActorOwner.simps [of env "None # waits"] list.case option.case
      by (intro inv.within_rules moves [THEN keeps_I] laws)
  next
    case (Some g)
    show ?thesis unfolding Some waitActorOwner.simps [of env "Some g # waits"] list.case option.case
      by (intro inv.within_rules moves [THEN keeps_I] laws keeps_modify rest woken [OF Some])
  qed
qed

lemma new_command_keeps:
  assumes "world_laws env used logged" "sp_TaskId spec = i"
  shows "hoare (\<lambda>s. I env used logged s \<and> fresh used i s) (new_command env req state spec n) (\<lambda>_. I env used logged)"
  using assms unfolding new_command_def by (intro submissions frame.within_rules moves) simp_all

lemma hoare_existing:
  assumes "world_laws env used logged" "hoare (\<lambda>s. I env used logged s \<and> fresh used i s) new (\<lambda>_. I env used logged)"
  shows "hoare (\<lambda>s. I env used logged s \<and> fresh used i s)
    (case existing of Some tk \<Rightarrow> andThen (checkFingerprint k key (tk_IdempotencyFingerprint tk) fp) (\<lambda>_. ret tk) | None \<Rightarrow> new) (\<lambda>_. I env used logged)"
  using assms by (cases existing) (simp_all, intro hoare_quiet frame.within_rules moves)

lemma command_keeps:
  assumes "world_laws env used logged" "\<forall>g u. Some g \<in> set waits \<longrightarrow> I env used logged u \<longrightarrow> I env used logged (g u)"
  shows "keeps (I env used logged) (submitActorCommand env waits req deadlineAt)"
  using assms unfolding submitActorCommand_def newActorCallID_def Let_def
  by (intro inv.andThen_within [OF wait_keeps] quiet_then [where m = "if _ then _ else _"] submissions hoare_existing new_command_keeps
    frame.within_rules moves) simp_all

lemma await_keeps:
  "\<forall>g u. CallTick g \<in> set ticks \<longrightarrow> I env used logged u \<longrightarrow> I env used logged (g u) \<Longrightarrow>
   keeps (I env used logged) (await_call ticks actorID taskID)"
proof (induction ticks)
  case (Cons tick ticks)
  then show ?case by (cases tick) (auto intro!: inv.within_rules keeps_modify)
qed (simp add: inv.pure_actions)

lemma call_keeps:
  assumes "world_laws env used logged" "\<forall>g\<in>interferences (CallActorRequest waits ticks req). \<forall>u. I env used logged u \<longrightarrow> I env used logged (g u)"
  shows "keeps (I env used logged) (CallActor env waits ticks req)"
  using assms unfolding CallActor_def Let_def
  by (intro inv.within_rules quiet_moves command_keeps await_keeps) auto

lemma handle_keeps:
  assumes "world_laws env used logged" "\<forall>g\<in>interferences req. \<forall>u. I env used logged u \<longrightarrow> I env used logged (g u)"
  shows "keeps (I env used logged) (handle env req)"
  using assms
  by (cases req) (auto simp: answered_def CompleteTasks_def intro!: inv.within_rules submission_keeps workflow_keeps poll_keeps
      complete_keeps items_keep call_keeps quiet_moves)

theorem run_keeps:
  assumes "world_laws env used logged" "control_run env s t" "I env used logged s"
  shows "I env used logged t"
  using assms(2,3)
proof (induction rule: control_run.induct)
  case (run_step s s1 req)
  then have "keeps (I env used logged) (handle env req)"
    by (intro handle_keeps assms(1)) blast
  with run_step show ?case by (simp add: within_def)
qed

end

end
