(* ===== verification/Control_Queue.thy ===== *)
theory Control_Queue
  imports Control_Invariant
begin

text \<open>
  The two invariants of the tasks: every task the metadata knows was logged before, up to its final
  status; and the legacy queue holds exactly the queued tasks.
\<close>

subsection \<open>The invariants\<close>

definition submitted_event :: "string \<Rightarrow> string \<times> string" where
  "submitted_event taskID = (taskStream taskID, taskID @ '':submitted'')"

definition final_event :: "task \<Rightarrow> string \<times> string" where
  "final_event tk = (taskStream (tk_TaskID tk),
     taskTerminalIdempotencyKey (tk_TaskID tk) (terminal_event (tk_Status tk)) (tk_WorkerID tk) (tk_TaskLeaseEpoch tk))"

definition tasks_logged :: "('w \<Rightarrow> string set) \<Rightarrow> ('w \<Rightarrow> (string \<times> string) set) \<Rightarrow> 'w service \<Rightarrow> bool" where
  "tasks_logged used logged s \<longleftrightarrow>
     (\<forall>i tk. ms_tasks (sv_meta s) i = Some tk \<longrightarrow>
        tk_TaskID tk = i \<and> known_id used i s \<and> submitted_event i \<in> logged (sv_world s) \<and>
        (isTerminalTaskStatus (tk_Status tk) \<longrightarrow> final_event tk \<in> logged (sv_world s))) \<and>
     (\<forall>key i. ms_taskByIdemKey (sv_meta s) key = Some i \<longrightarrow> ms_tasks (sv_meta s) i \<noteq> None)"

definition queued_ids :: "(string \<rightharpoonup> task) \<Rightarrow> string set" where
  "queued_ids tasks = {i. \<exists>tk. tasks i = Some tk \<and> tk_Status tk = TASK_STATUS_QUEUED}"

definition queue_exact :: "(string \<rightharpoonup> task) \<Rightarrow> string list \<Rightarrow> (string \<rightharpoonup> task_spec) \<Rightarrow> bool" where
  "queue_exact tasks queue specs \<longleftrightarrow>
     distinct queue \<and> set queue = queued_ids tasks \<and>
     (\<forall>i tk. tasks i = Some tk \<longrightarrow> (\<exists>sp. specs i = Some sp \<and> sp_TaskId sp = i))"

definition persists :: "'w control_env \<Rightarrow> bool" where
  "persists env \<longleftrightarrow> (\<forall>w. ce_persisted env w = None)"

definition queue_kept :: "'w control_env \<Rightarrow> 'w service \<Rightarrow> bool" where
  "queue_kept env s \<longleftrightarrow> (persists env \<and> \<not> sv_schedulerV2 s \<longrightarrow> queue_exact (ms_tasks (sv_meta s)) (sv_queue s) (sv_specs s))"

definition tasks_inv :: "'w control_env \<Rightarrow> ('w \<Rightarrow> string set) \<Rightarrow> ('w \<Rightarrow> (string \<times> string) set) \<Rightarrow> 'w service \<Rightarrow> bool" where
  "tasks_inv env used logged s \<longleftrightarrow> tasks_logged used logged s \<and> queue_kept env s"

lemma tasks_logged_frame: "tasks_logged used logged s \<Longrightarrow> frame used logged s t \<Longrightarrow> tasks_logged used logged t"
  using known_frame [of used _ s logged t] by (fastforce simp: tasks_logged_def frame_def)

lemma tasks_logged_queue [simp]: "tasks_logged used logged (s\<lparr>sv_queue := q\<rparr>) = tasks_logged used logged s"
  by (simp add: tasks_logged_def known_id_def)

lemma queue_kept_frame: "queue_kept env s \<Longrightarrow> frame used logged s t \<Longrightarrow> queue_kept env t"
  by (simp add: queue_kept_def frame_def)

lemma tasks_inv_frame: "tasks_inv env used logged s \<Longrightarrow> frame used logged s t \<Longrightarrow> tasks_inv env used logged t"
  by (auto simp: tasks_inv_def intro: tasks_logged_frame queue_kept_frame)

lemma tasks_inv_known: "tasks_inv env used logged s \<Longrightarrow> ms_tasks (sv_meta s) i = Some tk \<Longrightarrow> known_id used i s"
  by (simp add: tasks_inv_def tasks_logged_def)

subsection \<open>Changes of one task\<close>

lemma index_untouched [simp]:
  "ms_taskByIdemKey (fst (LeaseTask i w t m)) = ms_taskByIdemKey m"
  "ms_taskByIdemKey (fst (CompleteTask i w ep st res err t m)) = ms_taskByIdemKey m"
  "ms_taskByIdemKey (fst (RequeueTaskIfLeaseExpired i ep age t m)) = ms_taskByIdemKey m"
  "ms_taskByIdemKey (fst (RequeueExpiredRunningTasks order age t m)) = ms_taskByIdemKey m"
  by (simp_all add: LeaseTask_def CompleteTask_def RequeueTaskIfLeaseExpired_def RequeueExpiredRunningTasks_def Let_def split: option.split prod.split)

lemma logged_update:
  assumes "tasks_logged used logged s" "ms_tasks (sv_meta t) = (ms_tasks (sv_meta s))(i \<mapsto> tk)" "sv_world t = sv_world s"
    and "\<And>key j. ms_taskByIdemKey (sv_meta t) key = Some j \<Longrightarrow> j = i \<or> ms_taskByIdemKey (sv_meta s) key = Some j"
    and "tk_TaskID tk = i" "known_id used i s" "submitted_event i \<in> logged (sv_world s)"
    and "isTerminalTaskStatus (tk_Status tk) \<Longrightarrow> final_event tk \<in> logged (sv_world s)"
  shows "tasks_logged used logged t"
proof -
  have "ms_tasks (sv_meta t) j \<noteq> None" if "ms_taskByIdemKey (sv_meta t) key = Some j" for key j
    using assms(1,2) assms(4) [OF that] by (auto simp: tasks_logged_def)
  moreover have "tk_TaskID tk' = j \<and> known_id used j t \<and> submitted_event j \<in> logged (sv_world t) \<and>
      (isTerminalTaskStatus (tk_Status tk') \<longrightarrow> final_event tk' \<in> logged (sv_world t))" if "ms_tasks (sv_meta t) j = Some tk'" for j tk'
    using that assms by (cases "j = i") (simp_all add: tasks_logged_def known_id_def)
  ultimately show ?thesis by (simp add: tasks_logged_def)
qed

lemma queued_update [simp]:
  "queued_ids (T(i \<mapsto> tk)) = (if tk_Status tk = TASK_STATUS_QUEUED then insert i (queued_ids T) else queued_ids T - {i})"
  by (auto simp: queued_ids_def)

lemma queued_task: "T i = Some tk \<Longrightarrow> i \<in> queued_ids T \<longleftrightarrow> tk_Status tk = TASK_STATUS_QUEUED"
  "T i = None \<Longrightarrow> i \<notin> queued_ids T"
  by (simp_all add: queued_ids_def)

lemma queue_has: "queue_exact T q S \<Longrightarrow> i \<in> set q \<Longrightarrow> \<exists>tk sp. T i = Some tk \<and> tk_Status tk = TASK_STATUS_QUEUED \<and> S i = Some sp"
  by (fastforce simp: queue_exact_def queued_ids_def)

lemma queue_create:
  assumes "queue_exact T q S" "T i = None" "tk_Status tk = TASK_STATUS_QUEUED" "sp_TaskId sp = i"
  shows "queue_exact (T(i \<mapsto> tk)) (q @ [i]) (S(i \<mapsto> sp))"
  using assms queued_task(2) [of T i] by (simp add: queue_exact_def)

lemma queue_lease:
  assumes "queue_exact T (kept @ i # rest) S" "tk_Status tk' \<noteq> TASK_STATUS_QUEUED"
  shows "queue_exact (T(i \<mapsto> tk')) (kept @ rest) S"
proof -
  from assms(1) have "i \<in> queued_ids T" by (auto simp: queue_exact_def)
  then obtain tk where "T i = Some tk" by (auto simp: queued_ids_def)
  with assms show ?thesis unfolding queue_exact_def by auto
qed

lemma queue_running:
  assumes "queue_exact T q S" "T i = Some tk" "tk_Status tk \<noteq> TASK_STATUS_QUEUED" "tk_Status tk' \<noteq> TASK_STATUS_QUEUED"
  shows "queue_exact (T(i \<mapsto> tk')) q S"
  using assms queued_task(1) [of T i tk] by (auto simp: queue_exact_def)

lemma queue_requeue:
  assumes "queue_exact T q S" "T i = Some tk" "tk_Status tk \<noteq> TASK_STATUS_QUEUED" "tk_Status tk' = TASK_STATUS_QUEUED"
  shows "queue_exact (T(i \<mapsto> tk')) (q @ [i]) S"
  using assms queued_task(1) [of T i tk] by (auto simp: queue_exact_def)

subsection \<open>Effects\<close>

lemma nowMs_result:
  assumes "world_laws env used logged"
  obtains w t where "nowMs env s = (s\<lparr>sv_world := w\<rparr>, Inr t)" "frame used logged s (s\<lparr>sv_world := w\<rparr>)"
proof -
  obtain w t where "nowMs env s = (s\<lparr>sv_world := w\<rparr>, Inr t)"
    by (cases "ce_now env (sv_world s)") (simp add: nowMs_def now_def andThen_def inWorld_def ret_def)
  with frame_clock(2) [OF assms] that show ?thesis by (metis fst_conv within_def)
qed

lemma metaAt_result:
  assumes "world_laws env used logged"
  obtains w t where "metaAt env f s = (s\<lparr>sv_world := w, sv_meta := fst (f t (sv_meta s))\<rparr>, Inr (snd (f t (sv_meta s))))"
    "frame used logged s (s\<lparr>sv_world := w\<rparr>)"
proof -
  obtain w t where w: "nowMs env s = (s\<lparr>sv_world := w\<rparr>, Inr t)" "frame used logged s (s\<lparr>sv_world := w\<rparr>)"
    using nowMs_result [OF assms] by blast
  then have "metaAt env f s = (s\<lparr>sv_world := w, sv_meta := fst (f t (sv_meta s))\<rparr>, Inr (snd (f t (sv_meta s))))"
    by (simp add: metaAt_def andThen_def inMeta_def split: prod.split)
  with w that show ?thesis by blast
qed

lemma appendLog_logs:
  assumes "world_laws env used logged" "snd (appendLog env rq s) = Inr resp"
  shows "(rq_StreamID rq, rq_IdempotencyKey rq) \<in> logged (sv_world (fst (appendLog env rq s)))"
proof -
  obtain w r where a: "ce_append env rq (sv_world s) = (w, r)" by fastforce
  with assms(2) obtain resp' where r: "r = Inr resp'"
    by (cases r) (auto simp: appendLog_def andThen_def inWorld_def modify_def liftR_def split: prod.splits)
  with a assms(1) have "(rq_StreamID rq, rq_IdempotencyKey rq) \<in> logged w" by (auto simp: world_laws_def)
  moreover have "logged w \<subseteq> logged (fst (ce_elapsed env w))" using assms(1) by (simp add: world_laws_def)
  ultimately show ?thesis using a
    by (auto simp: appendLog_def andThen_def inWorld_def modify_def liftR_def split: prod.splits)
qed

subsection \<open>Submission\<close>

lemma CreateTask_disj:
  assumes "CreateTask tk0 key t m = (m', tk, dup)"
  shows "dup \<and> m' = m \<or>
    \<not> dup \<and> ms_tasks m' = (ms_tasks m)(tk_TaskID tk0 \<mapsto> tk) \<and> tk_TaskID tk = tk_TaskID tk0 \<and> tk_Status tk = tk_Status tk0 \<and>
    ms_taskByIdemKey m' = (if key = '''' then ms_taskByIdemKey m else (ms_taskByIdemKey m)(key \<mapsto> tk_TaskID tk0)) \<and>
    (key = '''' \<or> ms_taskByIdemKey m key = None)"
proof (cases "key \<noteq> '''' \<and> ms_taskByIdemKey m key \<noteq> None")
  case True
  with assms show ?thesis by (auto simp: CreateTask_def)
next
  case False
  then have "(if key \<noteq> '''' then ms_taskByIdemKey m key else None) = None" by auto
  with assms have "\<not> dup" "tk = stamp_new tk0 key t"
    "m' = (let s1 = m\<lparr>ms_tasks := (ms_tasks m)(tk_TaskID tk \<mapsto> tk)\<rparr>
       in if key \<noteq> '''' then s1\<lparr>ms_taskByIdemKey := (ms_taskByIdemKey s1)(key \<mapsto> tk_TaskID tk)\<rparr> else s1)"
    by (auto simp: CreateTask_def Let_def)
  with False show ?thesis by (simp add: stamp_new_def Let_def split: if_split)
qed

lemma CreateTask_cases:
  assumes "CreateTask tk0 key t m = (m', tk, dup)"
  obtains "dup" "m' = m"
  | "\<not> dup" "ms_tasks m' = (ms_tasks m)(tk_TaskID tk0 \<mapsto> tk)" "tk_TaskID tk = tk_TaskID tk0" "tk_Status tk = tk_Status tk0"
    "ms_taskByIdemKey m' = (if key = '''' then ms_taskByIdemKey m else (ms_taskByIdemKey m)(key \<mapsto> tk_TaskID tk0))"
    "key = '''' \<or> ms_taskByIdemKey m key = None"
  by (rule disjE [OF CreateTask_disj [OF assms]]; elim conjE; rule that; assumption)

lemma enqueue_notified [simp]: "sv_notified (enqueue tk s) = sv_notified s"
  by (simp add: enqueue_def)

definition admitted :: "task_spec \<Rightarrow> task \<Rightarrow> 'w service \<Rightarrow> 'w service" where
  "admitted spec tk s = (enqueue tk (s\<lparr>sv_specs := (sv_specs s)(tk_TaskID tk \<mapsto> cloneSpec spec)\<rparr>))\<lparr>sv_notified := sv_notified s + 1\<rparr>"

lemma admitted_fields [simp]:
  "sv_meta (admitted spec tk s) = sv_meta s" "sv_world (admitted spec tk s) = sv_world s"
  "sv_schedulerV2 (admitted spec tk s) = sv_schedulerV2 s" "sv_specs (admitted spec tk s) = (sv_specs s)(tk_TaskID tk \<mapsto> cloneSpec spec)"
  "\<not> sv_schedulerV2 s \<Longrightarrow> sv_queue (admitted spec tk s) = sv_queue s @ [tk_TaskID tk]"
  by (simp_all add: admitted_def enqueue_def useSchedulerV2_def)

lemma admitted_inv:
  assumes inv: "tasks_inv env used logged s" and "fresh used i s" "submitted_event i \<in> logged (sv_world s)"
    and m: "ms_tasks m = (ms_tasks (sv_meta s))(i \<mapsto> tk)"
    and "\<And>k j. ms_taskByIdemKey m k = Some j \<Longrightarrow> j = i \<or> ms_taskByIdemKey (sv_meta s) k = Some j" and "tk_TaskID tk = i" "tk_Status tk = TASK_STATUS_QUEUED"
    and "sp_TaskId spec = i"
  shows "tasks_inv env used logged (admitted spec tk (s\<lparr>sv_meta := m\<rparr>))"
    and "\<not> persists env \<Longrightarrow> tasks_inv env used logged (s\<lparr>sv_meta := m\<rparr>)"
proof -
  have "tasks_logged used logged (s\<lparr>sv_meta := m\<rparr>)" "tasks_logged used logged (admitted spec tk (s\<lparr>sv_meta := m\<rparr>))"
    by (rule logged_update [of used logged s _ i tk]; use assms in \<open>simp add: tasks_inv_def fresh_def isTerminalTaskStatus_def\<close>)+
  moreover have "queue_kept env (admitted spec tk (s\<lparr>sv_meta := m\<rparr>))"
    using assms queue_create [of "ms_tasks (sv_meta s)" "sv_queue s" "sv_specs s" i tk "cloneSpec spec"]
    by (simp add: tasks_inv_def queue_kept_def fresh_def cloneSpec_def)
  ultimately show "tasks_inv env used logged (admitted spec tk (s\<lparr>sv_meta := m\<rparr>))"
    and "\<not> persists env \<Longrightarrow> tasks_inv env used logged (s\<lparr>sv_meta := m\<rparr>)"
    by (simp_all add: tasks_inv_def queue_kept_def)
qed

text \<open>After the append: the task is created, is a duplicate, or could not be persisted.\<close>

lemma create_and_enqueue:
  assumes laws: "world_laws env used logged" and "plain mutate"
    and inv: "tasks_inv env used logged s" "fresh used (sp_TaskId spec) s" "submitted_event (sp_TaskId spec) \<in> logged (sv_world s)"
  shows "tasks_inv env used logged (fst (andThen (metaAt env (\<lambda>t. CreateTask (mutate (new_task_record spec fp)) (sp_IdempotencyKey spec) t))
     (\<lambda>(tk, duplicate). if duplicate then
       andThen (checkFingerprint ''task'' (sp_IdempotencyKey spec) (tk_IdempotencyFingerprint tk) fp) (\<lambda>_. ret (tk, True))
     else
       andThen (metadataPersisted env) (\<lambda>_.
       andThen (modify (\<lambda>s. s\<lparr>sv_specs := (sv_specs s)(tk_TaskID tk \<mapsto> cloneSpec spec)\<rparr>)) (\<lambda>_.
       andThen (modify (enqueue tk)) (\<lambda>_.
       andThen notifyTaskAvailable (\<lambda>_. ret (tk, False)))))) s))"
proof -
  let ?rec = "mutate (new_task_record spec fp)"
  obtain w t where m: "metaAt env (\<lambda>t. CreateTask ?rec (sp_IdempotencyKey spec) t) s =
      (s\<lparr>sv_world := w, sv_meta := fst (CreateTask ?rec (sp_IdempotencyKey spec) t (sv_meta s))\<rparr>,
       Inr (snd (CreateTask ?rec (sp_IdempotencyKey spec) t (sv_meta s))))" and fr: "frame used logged s (s\<lparr>sv_world := w\<rparr>)"
    using metaAt_result [OF laws] by blast
  obtain m' tk dup where c: "CreateTask ?rec (sp_IdempotencyKey spec) t (sv_meta s) = (m', tk, dup)"
    using prod_cases3 by blast
  let ?s = "s\<lparr>sv_world := w\<rparr>"
  have rec: "tk_TaskID ?rec = sp_TaskId spec" "tk_Status ?rec = TASK_STATUS_QUEUED"
    using assms(2) by (simp_all add: plain_def new_task_record_def)
  have s: "tasks_inv env used logged ?s" "fresh used (sp_TaskId spec) ?s" "submitted_event (sp_TaskId spec) \<in> logged (sv_world ?s)"
    using tasks_inv_frame [OF inv(1) fr] fresh_frame [OF inv(2) fr] fr inv(3) by (auto simp: frame_def)
  from c show ?thesis
  proof (cases rule: CreateTask_cases)
    case 1
    with m c s(1) show ?thesis by (simp add: andThen_def checkFingerprint_def require_def ret_def fail_def split: if_split)
  next
    case 2
    have idx: "j = sp_TaskId spec \<or> ms_taskByIdemKey (sv_meta ?s) k = Some j" if "ms_taskByIdemKey m' k = Some j" for k j
      using that 2(5) rec(1) by (auto split: if_splits)
    have created: "tasks_inv env used logged (admitted spec tk (?s\<lparr>sv_meta := m'\<rparr>))"
        "\<not> persists env \<Longrightarrow> tasks_inv env used logged (?s\<lparr>sv_meta := m'\<rparr>)"
      using admitted_inv [OF s _ idx, where m = m' and tk = tk and spec = spec] 2(2-4) rec by simp_all
    show ?thesis
    proof (cases "ce_persisted env w")
      case None
      with 2 m c created(1) show ?thesis
        by (simp add: andThen_def metadataPersisted_def asks_def modify_def notifyTaskAvailable_def ret_def admitted_def)
    next
      case (Some e)
      then have "\<not> persists env" by (auto simp: persists_def)
      with Some 2 m c created(2) show ?thesis
        by (simp add: andThen_def metadataPersisted_def asks_def fail_def)
    qed
  qed
qed


lemma admit_keeps:
  assumes laws: "world_laws env used logged" and "plain mutate"
  shows "hoare (\<lambda>s. tasks_inv env used logged s \<and> fresh used (sp_TaskId spec) s) (admit env spec fp mutate) (\<lambda>_. tasks_inv env used logged)"
  unfolding hoare_def
proof (intro allI impI)
  fix s assume inv: "tasks_inv env used logged s \<and> fresh used (sp_TaskId spec) s"
  let ?rq = "event (taskStream (sp_TaskId spec)) ''TaskSubmitted'' (sp_TaskId spec @ '':submitted'')"
  show "tasks_inv env used logged (fst (admit env spec fp mutate s))"
  proof (cases "marshalTaskSubmittedPayload (ce_task env) spec")
    case (Inr payload)
    obtain s1 r where a: "appendLog env (?rq payload) s = (s1, r)" by fastforce
    have fr: "frame used logged s s1" by (rule within_result [OF frame_log(1) [OF laws] a])
    show ?thesis
    proof (cases r)
      case (Inr resp)
      with appendLog_logs [OF laws, of "?rq payload" s] a have "submitted_event (sp_TaskId spec) \<in> logged (sv_world s1)"
        by (simp add: submitted_event_def event_def)
      from create_and_enqueue [OF laws assms(2) tasks_inv_frame [OF _ fr] fresh_frame [OF _ fr] this] inv Inr a \<open>_ = Inr payload\<close>
      show ?thesis by (simp add: admit_def andThen_def [of "liftR _"] andThen_def [of "appendLog _ _"] liftR_def)
    qed (use a tasks_inv_frame [OF _ fr] inv Inr in \<open>simp add: admit_def andThen_def liftR_def\<close>)
  qed (use inv in \<open>simp add: admit_def andThen_def liftR_def\<close>)
qed

subsection \<open>Completion\<close>

definition final_logged :: "('w \<Rightarrow> (string \<times> string) set) \<Rightarrow> task \<Rightarrow> complete_request \<Rightarrow> 'w service \<Rightarrow> bool" where
  "final_logged logged tk req s \<longleftrightarrow>
     (taskStream (tk_TaskID tk), taskTerminalIdempotencyKey (tk_TaskID tk) (terminal_event (cr_Status req)) (tk_WorkerID tk) (tk_TaskLeaseEpoch tk))
       \<in> logged (sv_world s)"

lemma terminal_append_logs:
  assumes laws: "world_laws env used logged" and "snd (appendTaskTerminal env tk (cr_Status req) res err s) = Inr x"
  shows "final_logged logged tk req (fst (appendTaskTerminal env tk (cr_Status req) res err s))"
proof -
  obtain w t where t: "nowMs env s = (s\<lparr>sv_world := w\<rparr>, Inr t)" using nowMs_result [OF laws] by blast
  let ?rq = "event (taskStream (tk_TaskID tk)) (terminal_event (cr_Status req))
    (taskTerminalIdempotencyKey (tk_TaskID tk) (terminal_event (cr_Status req)) (tk_WorkerID tk) (tk_TaskLeaseEpoch tk))
    (taskTerminalLogPayload env tk res err t)"
  obtain s1 r where a: "appendLog env ?rq (s\<lparr>sv_world := w\<rparr>) = (s1, r)" by fastforce
  with assms(2) t obtain resp where "r = Inr resp"
    by (cases r) (simp_all add: appendTaskTerminal_def andThen_def ret_def)
  with appendLog_logs [OF laws, of ?rq "s\<lparr>sv_world := w\<rparr>" resp] a t show ?thesis
    by (simp add: appendTaskTerminal_def andThen_def ret_def final_logged_def event_def)
qed

lemma complete_inv:
  assumes inv: "tasks_inv env used logged s" and v: "validated req tk s" and fin: "final_logged logged tk req s"
    and m: "CompleteTask (cr_TaskId req) (cr_WorkerId req) (cr_TaskLeaseEpoch req) (cr_Status req) res err t (sv_meta s) = (m', r)"
  shows "tasks_inv env used logged (s\<lparr>sv_meta := m'\<rparr>)"
proof -
  let ?tk = "completed tk (cr_WorkerId req) (cr_Status req) res err t"
  have tk: "ms_tasks (sv_meta s) (cr_TaskId req) = Some tk" "tk_Status tk = TASK_STATUS_RUNNING" "tk_WorkerID tk = cr_WorkerId req"
    and st: "isTerminalTaskStatus (cr_Status req)"
    using v by (auto simp: validated_def check_lease_def)
  have m': "ms_tasks m' = (ms_tasks (sv_meta s))(cr_TaskId req \<mapsto> ?tk)"
    using m v tk by (auto simp: CompleteTask_def validated_def isTerminalTaskStatus_def Let_def split: if_splits)
  have id: "tk_TaskID tk = cr_TaskId req" "known_id used (cr_TaskId req) s" "submitted_event (cr_TaskId req) \<in> logged (sv_world s)"
    using inv tk by (auto simp: tasks_inv_def tasks_logged_def)
  have idx: "ms_taskByIdemKey m' = ms_taskByIdemKey (sv_meta s)"
    using m index_untouched(2) [of "cr_TaskId req"] by (metis fst_conv)
  have "tasks_logged used logged (s\<lparr>sv_meta := m'\<rparr>)"
    by (rule logged_update [of used logged s _ "cr_TaskId req" ?tk])
      (use inv m' idx id fin tk in \<open>simp_all add: tasks_inv_def completed_def final_event_def final_logged_def\<close>)
  moreover have "queue_kept env (s\<lparr>sv_meta := m'\<rparr>)"
    using inv m' tk st queue_running [of "ms_tasks (sv_meta s)" "sv_queue s" "sv_specs s" "cr_TaskId req" tk ?tk]
    by (auto simp: tasks_inv_def queue_kept_def completed_def isTerminalTaskStatus_def)
  ultimately show ?thesis by (simp add: tasks_inv_def)
qed

lemma validated_final_frame:
  "validated req tk s \<and> final_logged logged tk req s \<Longrightarrow> frame used logged s t \<Longrightarrow> validated req tk t \<and> final_logged logged tk req t"
  by (auto simp: validated_def final_logged_def frame_def)

lemma finish_keeps:
  assumes laws: "world_laws env used logged"
  shows "hoare (\<lambda>s. tasks_inv env used logged s \<and> validated req tk s) (finish_task env tk req) (\<lambda>_. tasks_inv env used logged)"
  unfolding finish_task_def
proof (rule hoare_andThen)
  let ?Q = "\<lambda>r s. tasks_inv env used logged s \<and> (\<forall>x. r = Inr x \<longrightarrow> validated req tk s \<and> final_logged logged tk req s)"
  show "hoare (\<lambda>s. tasks_inv env used logged s \<and> validated req tk s)
      (appendTaskTerminal env tk (cr_Status req) (cr_ResultJson req) (cr_Error req)) ?Q"
    using frame_handlers(3) [OF laws, of tk "cr_Status req" "cr_ResultJson req" "cr_Error req"] terminal_append_logs [OF laws]
    by (fastforce simp: hoare_def within_def validated_def frame_def intro: tasks_inv_frame)
  show "hoare (?Q (Inr x)) (andThen (metaResult env (\<lambda>t. CompleteTask (cr_TaskId req) (cr_WorkerId req) (cr_TaskLeaseEpoch req)
       (cr_Status req) (cr_ResultJson req) (cr_Error req) t)) (\<lambda>tk'.
     andThen (if tk_Status tk = TASK_STATUS_RUNNING then inMeta (\<lambda>m. (DecrementWorkerLoad (cr_WorkerId req) m, ())) else ret ()) (\<lambda>_.
     andThen (completeSchedulerRunning (cr_TaskId req)) (\<lambda>_.
     andThen (updateSchedulerWorker (cr_WorkerId req)) (\<lambda>_. ret tk'))))) (\<lambda>_. tasks_inv env used logged)" for x
  proof (rule hoare_andThen [where R = "\<lambda>_. tasks_inv env used logged"])
    show "hoare (?Q (Inr x)) (metaResult env (\<lambda>t. CompleteTask (cr_TaskId req) (cr_WorkerId req) (cr_TaskLeaseEpoch req)
       (cr_Status req) (cr_ResultJson req) (cr_Error req) t)) (\<lambda>_. tasks_inv env used logged)"
      unfolding hoare_def
    proof (intro allI impI)
      fix s assume Q: "?Q (Inr x) s"
      let ?f = "\<lambda>t. CompleteTask (cr_TaskId req) (cr_WorkerId req) (cr_TaskLeaseEpoch req) (cr_Status req) (cr_ResultJson req) (cr_Error req) t"
      obtain w t where m: "metaAt env ?f s = (s\<lparr>sv_world := w, sv_meta := fst (?f t (sv_meta s))\<rparr>, Inr (snd (?f t (sv_meta s))))"
        and fr: "frame used logged s (s\<lparr>sv_world := w\<rparr>)" using metaAt_result [OF laws] by blast
      have "tasks_inv env used logged (s\<lparr>sv_world := w, sv_meta := fst (?f t (sv_meta s))\<rparr>)"
        using complete_inv [of env used logged "s\<lparr>sv_world := w\<rparr>" req tk] tasks_inv_frame [OF _ fr] validated_final_frame [OF _ fr] Q
        by simp (metis prod.collapse)
      with m show "tasks_inv env used logged (fst (metaResult env ?f s))"
        by (simp add: metaResult_def andThen_def liftR_def)
    qed
  qed (auto simp: hoare_keeps intro!: keeps_frame [OF _ tasks_inv_frame] frame.within_rules frame_inMeta moves)
qed auto

subsection \<open>Leases\<close>

lemma tasks_loggedD:
  assumes "tasks_logged used logged s" "ms_tasks (sv_meta s) i = Some tk"
  shows "tk_TaskID tk = i" "known_id used i s" "submitted_event i \<in> logged (sv_world s)"
  using assms by (simp_all add: tasks_logged_def)

lemma logged_lease:
  assumes "tasks_logged used logged s" "LeaseTask i w t (sv_meta s) = (m', r)"
  shows "tasks_logged used logged (s\<lparr>sv_meta := m'\<rparr>)"
proof (cases "m' = sv_meta s")
  case True
  with assms(1) show ?thesis by simp
next
  case False
  with assms(2) obtain tk where tk: "ms_tasks (sv_meta s) i = Some tk" "ms_tasks m' = (ms_tasks (sv_meta s))(i \<mapsto> leased tk w t)"
    by (auto simp: LeaseTask_def Let_def split: option.splits if_splits)
  have idx: "ms_taskByIdemKey m' = ms_taskByIdemKey (sv_meta s)"
    using assms(2) index_untouched(1) [of i w t "sv_meta s"] by simp
  show ?thesis
    by (rule logged_update [of used logged s _ i "leased tk w t"])
      (use assms(1) tk idx tasks_loggedD [OF assms(1) tk(1)] in \<open>simp_all add: leased_def isTerminalTaskStatus_def\<close>)
qed

lemma logged_requeue:
  assumes "tasks_logged used logged s" "ms_tasks (sv_meta s) i = Some tk" "ms_tasks m' = (ms_tasks (sv_meta s))(i \<mapsto> requeued_stored tk t)"
    and "ms_taskByIdemKey m' = ms_taskByIdemKey (sv_meta s)"
  shows "tasks_logged used logged (s\<lparr>sv_meta := m'\<rparr>)"
  by (rule logged_update [of used logged s _ i "requeued_stored tk t"])
    (use assms tasks_loggedD [OF assms(1,2)] in \<open>simp_all add: requeued_stored_def isTerminalTaskStatus_def\<close>)

text \<open>The two modes of the service; no action changes the mode.\<close>

definition in_mode :: "bool \<Rightarrow> 'w control_env \<Rightarrow> ('w \<Rightarrow> string set) \<Rightarrow> ('w \<Rightarrow> (string \<times> string) set) \<Rightarrow> 'w service \<Rightarrow> bool" where
  "in_mode v2 env used logged s \<longleftrightarrow> tasks_inv env used logged s \<and> sv_schedulerV2 s = v2"

lemma in_mode_frame: "in_mode v2 env used logged s \<Longrightarrow> frame used logged s t \<Longrightarrow> in_mode v2 env used logged t"
  using tasks_inv_frame [of env used logged s t] by (simp add: in_mode_def frame_def)

lemma in_mode_known: "in_mode v2 env used logged s \<Longrightarrow> ms_tasks (sv_meta s) i = Some tk \<Longrightarrow> known_id used i s"
  using tasks_inv_known by (auto simp: in_mode_def)

lemma mode_quiet: "within (frame used logged) m \<Longrightarrow> keeps (in_mode v2 env used logged) m"
  by (rule keeps_frame) (auto intro: in_mode_frame)

lemmas mode_moves = moves [THEN mode_quiet]

text \<open>Redelivery from the queue: the requeued tasks are appended to it.\<close>

definition with_tasks :: "(string \<rightharpoonup> task) \<Rightarrow> 'w service \<Rightarrow> 'w service" where
  "with_tasks T s = s\<lparr>sv_meta := (sv_meta s)\<lparr>ms_tasks := T\<rparr>\<rparr>"

lemma with_tasks_fields [simp]:
  "ms_tasks (sv_meta (with_tasks T s)) = T" "sv_queue (with_tasks T s) = sv_queue s" "sv_specs (with_tasks T s) = sv_specs s"
  "ms_taskByIdemKey (sv_meta (with_tasks T s)) = ms_taskByIdemKey (sv_meta s)" "sv_schedulerV2 (with_tasks T s) = sv_schedulerV2 s" "sv_world (with_tasks T s) = sv_world s"
  by (simp_all add: with_tasks_def)

definition requeue_inv :: "('w \<Rightarrow> string set) \<Rightarrow> ('w \<Rightarrow> (string \<times> string) set) \<Rightarrow> bool \<Rightarrow> 'w service \<Rightarrow> (string \<rightharpoonup> task) \<times> task list \<Rightarrow> bool" where
  "requeue_inv used logged exact s p \<longleftrightarrow>
     tasks_logged used logged (with_tasks (fst p) s) \<and>
     (exact \<longrightarrow> queue_exact (fst p) (sv_queue s @ map tk_TaskID (snd p)) (sv_specs s))"

lemma requeue_one_inv:
  assumes "requeue_inv used logged exact s p"
  shows "requeue_inv used logged exact s (requeue_one tm cutoff i p)"
proof -
  obtain T rq where p: "p = (T, rq)" by fastforce
  show ?thesis
  proof (cases "requeue_one tm cutoff i p = p")
    case True
    with assms show ?thesis by simp
  next
    case False
    with p obtain tk where tk: "T i = Some tk" "tk_Status tk = TASK_STATUS_RUNNING"
      and eq: "requeue_one tm cutoff i p = (T(i \<mapsto> requeued_stored tk tm), rq @ [requeued_returned tk tm])"
      by (auto simp: requeue_one_def split: option.splits if_splits)
    from assms p tk(1) have "tk_TaskID tk = i" by (simp add: requeue_inv_def tasks_logged_def)
    moreover have "tasks_logged used logged (with_tasks (T(i \<mapsto> requeued_stored tk tm)) s)"
      using logged_requeue [of used logged "with_tasks T s" i tk "(sv_meta s)\<lparr>ms_tasks := T(i \<mapsto> requeued_stored tk tm)\<rparr>" tm] assms p tk
      by (simp add: requeue_inv_def with_tasks_def)
    ultimately show ?thesis
      using assms p tk eq queue_requeue [of T "sv_queue s @ map tk_TaskID rq" "sv_specs s" i tk "requeued_stored tk tm"]
      by (auto simp: requeue_inv_def requeued_returned_def requeued_stored_def)
  qed
qed

lemma requeue_fold_inv: "requeue_inv used logged exact s p \<Longrightarrow> requeue_inv used logged exact s (fold (requeue_one tm cutoff) order p)"
  by (induction order arbitrary: p) (simp_all add: requeue_one_inv)

lemma requeueLegacy_effect:
  "\<exists>t. requeueLegacy r s = (t, Inr ()) \<and> sv_queue t = sv_queue s @ [tk_TaskID r] \<and> ms_tasks (sv_meta t) = ms_tasks (sv_meta s) \<and>
     ms_taskByIdemKey (sv_meta t) = ms_taskByIdemKey (sv_meta s) \<and> sv_specs t = sv_specs s \<and> sv_schedulerV2 t = sv_schedulerV2 s \<and> sv_world t = sv_world s"
  by (simp add: requeueLegacy_def decrementLoad_def andThen_def modify_def ret_def inMeta_def)

lemma requeue_all:
  "\<exists>t. forAll requeueLegacy rs s = (t, Inr ()) \<and> sv_queue t = sv_queue s @ map tk_TaskID rs \<and> ms_tasks (sv_meta t) = ms_tasks (sv_meta s) \<and>
     ms_taskByIdemKey (sv_meta t) = ms_taskByIdemKey (sv_meta s) \<and> sv_specs t = sv_specs s \<and> sv_schedulerV2 t = sv_schedulerV2 s \<and> sv_world t = sv_world s"
proof (induction rs arbitrary: s)
  case (Cons r rs)
  obtain t where "requeueLegacy r s = (t, Inr ())" "sv_queue t = sv_queue s @ [tk_TaskID r]" "ms_tasks (sv_meta t) = ms_tasks (sv_meta s)"
    "ms_taskByIdemKey (sv_meta t) = ms_taskByIdemKey (sv_meta s)" "sv_specs t = sv_specs s" "sv_schedulerV2 t = sv_schedulerV2 s" "sv_world t = sv_world s"
    using requeueLegacy_effect [of r s] by blast
  with Cons.IH [of t] show ?case by (auto simp: andThen_def)
qed (simp add: ret_def)

lemma legacy_requeue:
  assumes laws: "world_laws env used logged" and "in_mode v2 env used logged s" "\<not> v2"
  shows "in_mode v2 env used logged (fst (andThen (metaAt env (\<lambda>t m. RequeueExpiredRunningTasks (order m) timeout t m)) (\<lambda>requeued.
    andThen (forAll requeueLegacy requeued) (\<lambda>_. if requeued \<noteq> [] then notifyTaskAvailable else ret ())) s))"
proof -
  have inv: "tasks_inv env used logged s" and legacy: "\<not> sv_schedulerV2 s" using assms(2,3) by (simp_all add: in_mode_def)
  obtain w t where m: "metaAt env (\<lambda>t m. RequeueExpiredRunningTasks (order m) timeout t m) s =
      (s\<lparr>sv_world := w, sv_meta := fst (RequeueExpiredRunningTasks (order (sv_meta s)) timeout t (sv_meta s))\<rparr>,
       Inr (snd (RequeueExpiredRunningTasks (order (sv_meta s)) timeout t (sv_meta s))))" and fr: "frame used logged s (s\<lparr>sv_world := w\<rparr>)"
    using metaAt_result [OF laws, where f = "\<lambda>t m. RequeueExpiredRunningTasks (order m) timeout t m"] by blast
  let ?s = "s\<lparr>sv_world := w\<rparr>"
  obtain T rq where R: "RequeueExpiredRunningTasks (order (sv_meta s)) timeout t (sv_meta s) = ((sv_meta s)\<lparr>ms_tasks := T\<rparr>, rq)"
    and T: "requeue_inv used logged (persists env) ?s (T, rq)"
  proof -
    have start: "requeue_inv used logged (persists env) ?s (ms_tasks (sv_meta s), [])"
      using tasks_inv_frame [OF inv fr] legacy by (simp add: requeue_inv_def tasks_inv_def queue_kept_def with_tasks_def)
    show thesis
    proof (cases "timeout \<le> 0")
      case True
      with start that [of "ms_tasks (sv_meta s)" "[]"] show ?thesis by (simp add: RequeueExpiredRunningTasks_def)
    next
      case False
      with requeue_fold_inv [OF start, of t "duration_ms timeout" "order (sv_meta s)"]
        that [of "fst (fold (requeue_one t (duration_ms timeout)) (order (sv_meta s)) (ms_tasks (sv_meta s), []))"
          "snd (fold (requeue_one t (duration_ms timeout)) (order (sv_meta s)) (ms_tasks (sv_meta s), []))"]
      show ?thesis by (simp add: RequeueExpiredRunningTasks_def split: prod.split)
    qed
  qed
  obtain t1 where t1: "forAll requeueLegacy rq (?s\<lparr>sv_meta := (sv_meta s)\<lparr>ms_tasks := T\<rparr>\<rparr>) = (t1, Inr ())"
    "sv_queue t1 = sv_queue s @ map tk_TaskID rq" "ms_tasks (sv_meta t1) = T" "sv_specs t1 = sv_specs s"
    "sv_schedulerV2 t1 = sv_schedulerV2 s" "sv_world t1 = w" "ms_taskByIdemKey (sv_meta t1) = ms_taskByIdemKey (sv_meta s)"
    using requeue_all [of rq "?s\<lparr>sv_meta := (sv_meta s)\<lparr>ms_tasks := T\<rparr>\<rparr>"] by auto
  have "tasks_logged used logged t1"
    using T t1 unfolding requeue_inv_def tasks_logged_def known_id_def by simp
  with T t1 legacy have inv1: "tasks_inv env used logged t1"
    by (simp add: tasks_inv_def requeue_inv_def queue_kept_def)
  moreover have "tasks_inv env used logged (t1\<lparr>sv_notified := n\<rparr>)" for n
    by (rule tasks_inv_frame [OF inv1]) (simp add: frame_def)
  ultimately show ?thesis using m R t1(1) t1(5) legacy assms(3)
    by (simp add: in_mode_def andThen_def notifyTaskAvailable_def modify_def ret_def)
qed

lemma redeliver_legacy:
  assumes laws: "world_laws env used logged" and "\<not> v2"
  shows "keeps (in_mode v2 env used logged) (redeliverExpiredTasksLegacy env)"
proof -
  have "keeps (in_mode v2 env used logged) (andThen (metaAt env (\<lambda>t m. RequeueExpiredRunningTasks (order m) timeout t m)) (\<lambda>requeued.
    andThen (forAll requeueLegacy requeued) (\<lambda>_. if requeued \<noteq> [] then notifyTaskAvailable else ret ())))" for order timeout
    using legacy_requeue [OF laws _ assms(2)] by (simp add: within_def)
  then show ?thesis unfolding redeliverExpiredTasksLegacy_def
    by (intro inv.pure_actions inv.branches inv.andThen_within [where m = "asks _"] inv.andThen_within [where m = "asksMeta _"]
      inv.andThen_within [where m = "forAll (appendTaskRedelivered _) _"] inv.andThen_within [where m = "now _"] inv.forAll_within mode_moves laws)
qed

subsection \<open>Polling the queue\<close>

lemma lease_one_effect:
  assumes laws: "world_laws env used logged" and "in_mode v2 env used logged s" "\<not> v2"
    and q: "sv_queue s = kept @ i # rest" and tk: "ms_tasks (sv_meta s) i = Some tk"
  obtains t sp where "lease_one env i spec tk workerID (kept @ rest) s = (t, Inr sp)" "in_mode v2 env used logged t"
    "sv_queue t = kept @ rest"
proof -
  have inv: "tasks_inv env used logged s" and legacy: "\<not> sv_schedulerV2 s" using assms(2,3) by (simp_all add: in_mode_def)
  obtain w1 tm where m: "metaAt env (\<lambda>t. LeaseTask i workerID t) s =
      (s\<lparr>sv_world := w1, sv_meta := fst (LeaseTask i workerID tm (sv_meta s))\<rparr>, Inr (snd (LeaseTask i workerID tm (sv_meta s))))"
    and fr: "frame used logged s (s\<lparr>sv_world := w1\<rparr>)" using metaAt_result [OF laws] by blast
  obtain m1 tk1 where L: "LeaseTask i workerID tm (sv_meta s) = (m1, Inr tk1)"
    using tk that by (cases "tk_Status tk = TASK_STATUS_SUCCEEDED \<or> tk_Status tk = TASK_STATUS_FAILED") (auto simp: LeaseTask_def Let_def)
  let ?s = "s\<lparr>sv_world := w1, sv_meta := m1\<rparr>"
  let ?inc = "if tk_Status tk = TASK_STATUS_QUEUED then metaAt env (\<lambda>t m. (IncrementWorkerLoad workerID t m, ())) else ret ()"
  obtain s2 where inc: "?inc ?s = (s2, Inr ())" "frame used logged ?s s2"
  proof -
    have "within (frame used logged) ?inc" by (intro frame.within_rules frame_metaAt laws) simp
    moreover have "\<exists>s2. ?inc ?s = (s2, Inr ())"
      by (auto simp: metaAt_def nowMs_def now_def andThen_def inWorld_def inMeta_def ret_def split: prod.split)
    ultimately show thesis using that within_result by blast
  qed
  let ?t = "s2\<lparr>sv_queue := kept @ rest\<rparr>"
  have "tasks_logged used logged (s\<lparr>sv_world := w1, sv_meta := m1\<rparr>)"
    using logged_lease [of used logged "s\<lparr>sv_world := w1\<rparr>" i workerID tm m1] L tasks_inv_frame [OF inv fr] by (simp add: tasks_inv_def)
  then have l2: "tasks_logged used logged s2" by (rule tasks_logged_frame [OF _ inc(2)])
  have "queue_exact (ms_tasks m1) (kept @ rest) (sv_specs s)" if "persists env"
  proof -
    from that inv legacy q have ex: "queue_exact (ms_tasks (sv_meta s)) (kept @ i # rest) (sv_specs s)"
      by (simp add: tasks_inv_def queue_kept_def)
    then have "tk_Status tk = TASK_STATUS_QUEUED" using tk queue_has [OF ex, of i] by simp
    then have "ms_tasks m1 = (ms_tasks (sv_meta s))(i \<mapsto> leased tk workerID tm)" using L tk by (auto simp: LeaseTask_def Let_def)
    with queue_lease [OF ex, of "leased tk workerID tm"] show ?thesis by (simp add: leased_def)
  qed
  with l2 inc(2) have "tasks_inv env used logged ?t"
    by (auto simp: tasks_inv_def queue_kept_def frame_def tasks_logged_def known_id_def)
  moreover have "\<not> sv_schedulerV2 ?t" using legacy inc(2) by (simp add: frame_def)
  moreover have "\<exists>sp. lease_one env i spec tk workerID (kept @ rest) s = (?t, Inr sp)"
    using m L inc(1)
    by (simp add: lease_one_def metaResult_def andThen_def liftR_def set_queue_ids_def modify_def asksMeta_def)
  ultimately show thesis using that [of ?t] assms(3) by (auto simp: in_mode_def)
qed

text \<open>A task without specification or metadata is dropped from the queue: an exact queue has none.\<close>

lemma missing_dropped:
  assumes "tasks_inv env used logged s" "sv_queue s = kept @ i # rest" "sv_specs s i = None \<or> ms_tasks (sv_meta s) i = None"
  shows "tasks_inv env used logged (s\<lparr>sv_queue := kept @ rest\<rparr>)"
proof -
  have "\<not> queue_exact (ms_tasks (sv_meta s)) (sv_queue s) (sv_specs s)"
    using assms(2,3) queue_has [of _ "sv_queue s" _ i] by fastforce
  with assms(1) show ?thesis by (auto simp: tasks_inv_def queue_kept_def)
qed

lemma scan_keeps:
  assumes laws: "world_laws env used logged" and "\<not> v2"
  shows "in_mode v2 env used logged s \<Longrightarrow> sv_queue s = kept @ rest \<Longrightarrow>
    in_mode v2 env used logged (fst (poll_scan env workerID maxTasks kept rest tasks s))"
proof (induction rest arbitrary: kept tasks s)
  case (Cons i rest)
  show ?case
  proof (cases "maxTasks \<le> length tasks")
    case False
    show ?thesis
    proof (cases "sv_specs s i = None \<or> ms_tasks (sv_meta s) i = None")
      case True
      then have "in_mode v2 env used logged (s\<lparr>sv_queue := kept @ rest\<rparr>)"
        using Cons.prems missing_dropped [of env used logged s kept i rest] by (simp add: in_mode_def)
      with Cons.IH [of _ kept tasks] True False show ?thesis
        by (auto simp: andThen_def asks_def GetTask_def set_queue_ids_def modify_def split: option.split)
    next
      case found: False
      then obtain spec tk where sp: "sv_specs s i = Some spec" and tk: "ms_tasks (sv_meta s) i = Some tk" by auto
      let ?check = "if actorMailboxReady tk workerID (sv_meta s) then canAssignTaskToWorker env i spec workerID else ret False"
      obtain s1 r where ck: "?check s = (s1, r)" by fastforce
      have "within (frame used logged) ?check" by (intro frame.within_rules moves laws)
      from within_result [OF this ck] have fr: "frame used logged s s1" .
      note s1 = in_mode_frame [OF Cons.prems(1) fr]
      have q1: "sv_queue s1 = kept @ i # rest" and tk1: "ms_tasks (sv_meta s1) i = Some tk"
        using fr Cons.prems(2) tk by (simp_all add: frame_def)
      have eval: "poll_scan env workerID maxTasks kept (i # rest) tasks s =
          (case r of Inl e \<Rightarrow> (s1, Inl e)
           | Inr ok \<Rightarrow> if \<not> ok then poll_scan env workerID maxTasks (kept @ [i]) rest tasks s1
             else andThen (lease_one env i spec tk workerID (kept @ rest)) (\<lambda>leasedSpec.
               poll_scan env workerID maxTasks kept rest (tasks @ [leasedSpec])) s1)"
        using False sp tk ck by (auto simp: andThen_def asks_def asksMeta_def GetTask_def split: sum.split)
      obtain t lsp where l: "lease_one env i spec tk workerID (kept @ rest) s1 = (t, Inr lsp)" "in_mode v2 env used logged t"
          "sv_queue t = kept @ rest"
        using lease_one_effect [OF laws s1 assms(2) q1 tk1] by blast
      show ?thesis
      proof (cases r)
        case (Inr ok)
        with eval l Cons.IH [of s1 "kept @ [i]" tasks] Cons.IH [of t kept "tasks @ [lsp]"] s1 q1 show ?thesis
          by (simp add: andThen_def del: poll_scan.simps)
      qed (use eval s1 in \<open>simp del: poll_scan.simps\<close>)
    qed
  qed (use Cons.prems in \<open>simp add: ret_def\<close>)
qed (simp add: ret_def)

lemma poll_legacy:
  assumes "world_laws env used logged" "\<not> v2"
  shows "keeps (in_mode v2 env used logged) (pollTaskLegacy env workerID maxTasks)"
  using scan_keeps [OF assms, of _ "[]"] by (simp add: within_def pollTaskLegacy_def andThen_def asks_def)

subsection \<open>Polling the scheduler\<close>

lemma indexed_meta:
  assumes laws: "world_laws env used logged" and v2
    and f: "\<And>s t. tasks_logged used logged s \<Longrightarrow> tasks_logged used logged (s\<lparr>sv_meta := fst (f t (sv_meta s))\<rparr>)"
  shows "keeps (in_mode v2 env used logged) (metaAt env f)"
  unfolding within_def
proof (intro allI impI)
  fix s assume s: "in_mode v2 env used logged s"
  obtain w t where m: "metaAt env f s = (s\<lparr>sv_world := w, sv_meta := fst (f t (sv_meta s))\<rparr>, Inr (snd (f t (sv_meta s))))"
    and fr: "frame used logged s (s\<lparr>sv_world := w\<rparr>)" using metaAt_result [OF laws] by blast
  from in_mode_frame [OF s fr] f [of "s\<lparr>sv_world := w\<rparr>" t] m \<open>v2\<close>
  show "in_mode v2 env used logged (fst (metaAt env f s))"
    by (simp add: in_mode_def tasks_inv_def queue_kept_def)
qed

lemma indexed_lease:
  assumes "world_laws env used logged" v2
  shows "keeps (in_mode v2 env used logged) (metaResult env (\<lambda>t. LeaseTask i workerID t))"
  unfolding metaResult_def
  by (intro inv.within_rules indexed_meta assms) (metis logged_lease prod.collapse)

lemma indexed_requeue:
  assumes "world_laws env used logged" v2
  shows "keeps (in_mode v2 env used logged) (metaAt env (\<lambda>t. RequeueTaskIfLeaseExpired i ep age t))"
proof (rule indexed_meta [OF assms])
  fix s :: "'a service" and t
  assume l: "tasks_logged used logged s"
  show "tasks_logged used logged (s\<lparr>sv_meta := fst (RequeueTaskIfLeaseExpired i ep age t (sv_meta s))\<rparr>)"
  proof (cases "fst (RequeueTaskIfLeaseExpired i ep age t (sv_meta s)) = sv_meta s")
    case False
    then obtain tk where "ms_tasks (sv_meta s) i = Some tk"
      "ms_tasks (fst (RequeueTaskIfLeaseExpired i ep age t (sv_meta s))) = (ms_tasks (sv_meta s))(i \<mapsto> requeued_stored tk t)"
      by (auto simp: RequeueTaskIfLeaseExpired_def split: option.splits if_splits)
    with l show ?thesis by (rule logged_requeue) simp
  qed (use l in simp)
qed

lemma frame_leases [moves]:
  assumes "world_laws env used logged"
  shows "within (frame used logged) (valid_leases env timeout leases)" "within (frame used logged) (append_redeliveries env timeout valid leases)"
    "within (frame used logged) (assignNext env workerID)"
proof -
  show "within (frame used logged) (valid_leases env timeout leases)"
    by (induction leases) (auto intro!: frame.within_rules moves assms)
  show "within (frame used logged) (append_redeliveries env timeout valid leases)"
    by (induction leases) (auto intro!: frame.within_rules moves assms)
  show "within (frame used logged) (assignNext env workerID)"
    unfolding assignNext_def by (intro frame.within_rules moves assms)
qed

lemma requeue_valid_keeps:
  assumes "world_laws env used logged" v2
  shows "keeps (in_mode v2 env used logged) (requeue_valid env timeout leases n)"
  by (induction leases arbitrary: n) (auto intro!: inv.within_rules mode_moves indexed_requeue assms)

lemma redeliver_indexed:
  assumes "world_laws env used logged" v2
  shows "keeps (in_mode v2 env used logged) (redeliverExpiredTasksIndexed env)"
  unfolding redeliverExpiredTasksIndexed_def
  by (intro inv.within_rules mode_moves frame_leases [THEN mode_quiet] requeue_valid_keeps assms)

lemma lease_indexed_keeps:
  assumes "world_laws env used logged" v2
  shows "keeps (in_mode v2 env used logged) (lease_indexed env i spec workerID)"
proof -
  have track: "within (frame used logged) (modify (\<lambda>s. s\<lparr>sv_scheduler := TrackRunning (tk_TaskID tk)
      (schedulerLeaseDeadlineMs tk (sv_redeliveryTimeout s)) (tk_TaskLeaseEpoch tk) (sv_scheduler s)\<rparr>))" for tk
    by (rule frame_modify) (simp add: frame_def)
  have load: "within (frame used logged) (metaAt env (\<lambda>t m. (IncrementWorkerLoad workerID t m, ())))"
    by (rule frame_metaAt [OF assms(1)]) simp
  show ?thesis unfolding lease_indexed_def
    by (intro inv.within_rules indexed_lease mode_quiet [OF track] mode_quiet [OF load] frame_local(3) [THEN mode_quiet] assms)
qed

lemma indexed_loop_keeps:
  assumes "world_laws env used logged" v2
  shows "keeps (in_mode v2 env used logged) (indexed_loop env workerID maxTasks fuel tasks)"
  by (induction fuel arbitrary: tasks) (auto intro!: inv.within_rules mode_moves frame_leases [THEN mode_quiet] lease_indexed_keeps assms)

lemma pollTaskNow_keeps:
  assumes laws: "world_laws env used logged"
  shows "keeps (in_mode v2 env used logged) (pollTaskNow env fuel workerID maxTasks)"
proof -
  have sel: "keeps (in_mode v2 env used logged) (andThen (asks useSchedulerV2) f)"
    if "\<And>b. b = v2 \<Longrightarrow> keeps (in_mode v2 env used logged) (f b)" for f :: "bool \<Rightarrow> ('a, 'b) act"
    using that by (simp add: within_def andThen_def asks_def useSchedulerV2_def in_mode_def)
  show ?thesis
    unfolding pollTaskNow_def redeliverExpiredTasks_def pollTaskIndexed_def
    by (intro inv.andThen_within sel; cases v2)
      (auto intro!: inv.within_rules redeliver_legacy redeliver_indexed poll_legacy indexed_loop_keeps mode_moves laws)
qed

text \<open>The mode is fixed.\<close>

definition same_mode :: "'w service \<Rightarrow> 'w service \<Rightarrow> bool" where
  "same_mode s t \<longleftrightarrow> sv_schedulerV2 t = sv_schedulerV2 s"

interpretation mode: step_order same_mode
  by unfold_locales (simp_all add: same_mode_def)

lemma same_mode_frame: "within (frame used logged) m \<Longrightarrow> within same_mode m"
  by (simp add: within_def frame_def same_mode_def)

lemma same_mode_basic:
  "within same_mode (inMeta f)" "(\<And>s. sv_schedulerV2 (g s) = sv_schedulerV2 s) \<Longrightarrow> within same_mode (modify g)"
  by (simp_all add: within_def same_mode_def inMeta_def modify_def split: prod.split)

lemma same_mode_metaAt: "world_laws env used logged \<Longrightarrow> within same_mode (metaAt env f)"
  unfolding metaAt_def by (intro mode.within_rules same_mode_basic moves [THEN same_mode_frame])

lemma same_mode_actions:
  assumes "world_laws env used logged"
  shows "within same_mode (admit env spec fp mutate)" "within same_mode (finish_task env tk req)"
  using assms unfolding admit_def finish_task_def metaResult_def
  by (intro mode.within_rules same_mode_basic same_mode_metaAt moves [THEN same_mode_frame]; simp add: enqueue_def)+

lemma hoare_mode:
  assumes "hoare (\<lambda>s. tasks_inv env used logged s \<and> P s) m (\<lambda>_. tasks_inv env used logged)" "within same_mode m"
  shows "hoare (\<lambda>s. in_mode v2 env used logged s \<and> P s) m (\<lambda>_. in_mode v2 env used logged)"
  using assms by (simp add: hoare_def in_mode_def within_def same_mode_def)

interpretation tasks: task_invariant "in_mode v2" for v2
  by unfold_locales (auto intro: in_mode_frame in_mode_known pollTaskNow_keeps hoare_mode [OF admit_keeps] hoare_mode [OF finish_keeps]
    same_mode_actions)

lemma tasks_run: "world_laws env used logged \<Longrightarrow> control_run env s t \<Longrightarrow> in_mode v2 env used logged s \<Longrightarrow> in_mode v2 env used logged t"
  by (rule tasks.run_keeps)

end
