(* ===== verification/Control_Correct.thy ===== *)
theory Control_Correct
  imports Control_Queue Log_Recovery
begin

text \<open>The log store as the log of the control service.\<close>

definition indexed_events :: "store \<Rightarrow> (string \<times> string) set" where
  "indexed_events st = {(streamID, key). key = '''' \<or> st_idempotency st (idempotencyKey streamID key) \<noteq> None}"

lemma segment_index [simp]:
  "st_idempotency (put_stream sid x s) = st_idempotency s" "st_idempotency (fst (streamStateLocked s sid)) = st_idempotency s"
  "st_idempotency (fst (ensureWritableSegmentLocked ev n s)) = st_idempotency s" "st_idempotency (fst (write_log ev b s)) = st_idempotency s"
  "st_idempotency (fst (syncForPolicyLocked ev s)) = st_idempotency s" "st_idempotency (fst (Trim ev sid bs s)) = st_idempotency s"
  by (auto simp: put_stream_def streamStateLocked_def ensureWritableSegmentLocked_def rollSegmentLocked_def closeActiveFilesLocked_def
    openActiveFilesLocked_def write_log_def syncForPolicyLocked_def syncFilesLocked_def Trim_def persistRetentionLocked_def Let_def
    split: option.split)

lemma segment_index_pair:
  "streamStateLocked s sid = (s1, x) \<Longrightarrow> st_idempotency s1 = st_idempotency s"
  "ensureWritableSegmentLocked ev n s = (s1, r) \<Longrightarrow> st_idempotency s1 = st_idempotency s"
  "write_log ev b s = (s1, r) \<Longrightarrow> st_idempotency s1 = st_idempotency s"
  "syncForPolicyLocked ev s = (s1, r) \<Longrightarrow> st_idempotency s1 = st_idempotency s"
  using segment_index(2) [of s sid] segment_index(3) [of ev n s] segment_index(4) [of ev b s] segment_index(5) [of ev s] by auto

lemma Append_index:
  assumes "Append hs ev req s = (s', r)"
  shows "indexed_events s \<subseteq> indexed_events s'"
    and "r = Inr x \<Longrightarrow> (rq_StreamID req, rq_IdempotencyKey req) \<in> indexed_events s'"
proof -
  have "indexed_events s \<subseteq> indexed_events s' \<and> (r = Inr x \<longrightarrow> (rq_StreamID req, rq_IdempotencyKey req) \<in> indexed_events s')"
    using assms unfolding Append_def Let_def
    by (auto simp: indexed_events_def new_record_def dest!: segment_index_pair split: if_splits option.splits prod.splits sum.splits)
  then show "indexed_events s \<subseteq> indexed_events s'"
    and "r = Inr x \<Longrightarrow> (rq_StreamID req, rq_IdempotencyKey req) \<in> indexed_events s'" by simp_all
qed

text \<open>
  A service on the store: the answers of the operating system \<open>ev\<close> are fixed; a random part of an
  identifier is a word of marks, one longer each time.
\<close>

definition on_store :: "hashes \<Rightarrow> env \<Rightarrow> (store \<times> nat) control_env \<Rightarrow> (store \<times> nat) control_env" where
  "on_store hs ev env = env\<lparr>
     ce_append := \<lambda>rq (st, n). (case AppendLog hs ev rq st of (st1, r) \<Rightarrow> ((st1, n), r)),
     ce_trim := \<lambda>sid b (st, n). (case TrimStream ev sid b st of (st1, r) \<Rightarrow> ((st1, n), r)),
     ce_put := \<lambda>ns data w. (w, Inr (concat ns)), ce_now := \<lambda>w. (w, 7000000), ce_elapsed := \<lambda>w. (w, 3), ce_stamp := \<lambda>w. (w, ''120000''),
     ce_random := \<lambda>(st, n). ((st, n + 1), replicate n CHR ''x'')\<rparr>"

definition marks_used :: "store \<times> nat \<Rightarrow> string set" where
  "marks_used w = (\<lambda>k. replicate k CHR ''x'') ` {..<snd w}"

lemma store_world_laws: "world_laws (on_store hs ev env) marks_used (\<lambda>w. indexed_events (fst w))"
proof -
  have trim: "indexed_events st1 = indexed_events st" if "TrimStream ev sid b st = (st1, r)" for sid b st st1 r
    using that segment_index(6) [of ev sid b st]
    by (cases "Trim ev sid b st") (auto simp: TrimStream_def indexed_events_def split: sum.splits)
  have append: "indexed_events st \<subseteq> indexed_events st1 \<and> (\<forall>x. r = Inr x \<longrightarrow> (rq_StreamID rq, rq_IdempotencyKey rq) \<in> indexed_events st1)"
    if "AppendLog hs ev rq st = (st1, r)" for rq st st1 r
    using that Append_index [of hs ev rq st] by (auto simp: AppendLog_def split: prod.splits sum.splits)
  have new: "replicate n CHR ''x'' \<notin> marks_used (st, n)" "marks_used (st, Suc n) = insert (replicate n CHR ''x'') (marks_used (st, n))" for st n
    by (auto simp: marks_used_def lessThan_Suc)
  show ?thesis
    unfolding world_laws_def on_store_def
    using trim append new
    by (fastforce simp: marks_used_def split: prod.splits)
qed

subsection \<open>A concrete service\<close>

text \<open>A log that keeps the keys of its events.\<close>

type_synonym list_world = "(string \<times> string) list \<times> nat"

definition list_env :: "list_world control_env" where
  "list_env = \<lparr>ce_append = \<lambda>rq (l, n). (((rq_StreamID rq, rq_IdempotencyKey rq) # l, n),
       Inr \<lparr>ar_Seq = word_of_nat (length l + 1), ar_TimestampMs = 7, ar_Crc32 = 0, ar_Duplicate = False\<rparr>),
     ce_trim = \<lambda>sid b w. (w, Inl StreamIDRequired),
     ce_read = \<lambda>sid from w. ([], None), ce_put = \<lambda>ns data w. (w, Inr ''ref''), ce_get = \<lambda>ref w. Inr [],
     ce_now = \<lambda>w. (w, 7000000), ce_elapsed = \<lambda>w. (w, 3), ce_stamp = \<lambda>w. (w, ''120000''),
     ce_random = \<lambda>(l, n). ((l, n + 1), replicate n CHR ''x''),
     ce_order = \<lambda>p. filter p [''task-'', ''task-x'', ''w'', ''actor-''], ce_persisted = \<lambda>_. None,
     ce_task = \<lparr>tc_encode = \<lambda>m. Inr [1], tc_msgpack = \<lambda>b. Inr Map.empty, tc_legacyPayload = \<lambda>_. zero_lifecycle,
       tc_emptyPayload = \<lambda>_. Inr [], tc_protoMarshal = \<lambda>_. Inr [1], tc_proto = \<lambda>_. Inr zero_spec,
       tc_legacySubmitted = \<lambda>b. Inr b, tc_protojson = \<lambda>_. Inr zero_spec, tc_jsonValue = \<lambda>_. Inr JNull,
       tc_hash = \<lambda>_. Inr ''hash'', tc_sourceHash = \<lambda>_. ''hash''\<rparr>,
     ce_workflow = \<lparr>cd_definition = \<lambda>_. Inl ''none'', cd_msgpack = \<lambda>_. Inl ''none'', cd_legacy = \<lambda>_. Inl ''none''\<rparr>,
     ce_actor = \<lparr>ac_msgpack = \<lambda>_. Inl ''none'', ac_legacy = \<lambda>_. Inl ''none''\<rparr>,
     ce_compact = \<lambda>b. Some b, ce_sys = \<lambda>_. [2], ce_llm = \<lambda>_. Inl ''none'', ce_definitionJSON = \<lambda>_. Inr [3],
     ce_marshal = \<lambda>_. Inr [4], ce_unmarshal = \<lambda>_. Inr JNull, ce_sha256 = \<lambda>_. ''digest''\<rparr>"

lemma list_world_laws: "world_laws list_env (\<lambda>w. (\<lambda>k. replicate k CHR ''x'') ` {..<snd w}) (\<lambda>w. set (fst w))"
  by (auto simp: world_laws_def list_env_def lessThan_Suc split: prod.split)

definition list_service :: "list_world service" where
  "list_service = NewServiceWithResultStore False True 0 False ([], 0) NewLegacyMemoryStore"

definition demo_submit :: "'w request" where
  "demo_submit = SubmitTaskRequest \<lparr>sq_TaskName = ''n'', sq_FunctionName = ''f'', sq_FunctionSource = '''', sq_FunctionRef = ''r'',
     sq_FunctionHash = ''h'', sq_ArgsJson = [], sq_IdempotencyKey = ''k''\<rparr>"

definition demo_poll :: "'w request" where
  "demo_poll = PollTaskRequest 0 TimedOut ''w'' 1 0"

definition demo_complete :: "'w request" where
  "demo_complete = CompleteTaskRequest \<lparr>cr_TaskId = ''task-'', cr_WorkerId = ''w'', cr_Status = TASK_STATUS_SUCCEEDED, cr_ResultJson = [],
     cr_Error = '''', cr_ActorStateJson = [], cr_ActorEpoch = 0, cr_TaskLeaseEpoch = 1\<rparr>"

named_theorems demo_eval

lemma trim_demo [demo_eval]: "TrimSpace ''h'' = ''h''" "TrimSpace ''r'' = ''r''" "TrimSpace ''f'' = ''f''"
  by code_simp+

lemmas [demo_eval] = list_env_def demo_submit_def demo_poll_def demo_complete_def answered_def
  SubmitTask_def user_task_spec_def zero_spec_def enqueueTask_def enqueueTaskWithMetadata_def normalizeTaskFunction_def
  requiresPythonFunction_def ensureFunctionRegistered_def function_hash_def function_ref_def functionEntrypoint_def Let_def
  now_def nowMs_def newTaskID_def appendLog_def event_def taskSpecFingerprint_def jsonValueForFingerprint_def stableFingerprint_def
  GetTaskByIdempotencyKey_def checkBackpressure_def backlog_def useSchedulerV2_def admit_def marshalTaskSubmittedPayload_def Marshal_def
  metaAt_def CreateTask_def new_task_record_def zero_task_def stamp_new_def metadataPersisted_def enqueue_def notifyTaskAvailable_def
  taskStream_def taskFunctionIdentity_def

subsection \<open>Initial states\<close>

lemma initial_mode: "in_mode v2 env used logged (NewServiceWithResultStore hasStore localStore threshold v2 w NewLegacyMemoryStore)"
  by (simp add: in_mode_def tasks_inv_def tasks_logged_def queue_kept_def queue_exact_def queued_ids_def NewServiceWithResultStore_def
    NewLegacyMemoryStore_def)

subsection \<open>Properties\<close>

text \<open>
  C2. Log first: in every state the control service reaches by answering requests one after the other,
  with requests failing at any point, every task in the metadata has its \<open>TaskSubmitted\<close> event in
  the log, and every task that succeeded or failed has the terminal event of its lease there. So a
  restart that replays the log never loses a task or a result the service has acknowledged.
\<close>

theorem control_log_first:
  assumes "world_laws env used logged"
    and "control_run env (NewServiceWithResultStore hasStore localStore threshold v2 w NewLegacyMemoryStore) s"
    and "GetTask i (sv_meta s) = Some tk"
  shows "submitted_event i \<in> logged (sv_world s) \<and> (isTerminalTaskStatus (tk_Status tk) \<longrightarrow> final_event tk \<in> logged (sv_world s))"
proof -
  have "in_mode v2 env used logged s" by (rule tasks.run_keeps [OF assms(1,2) initial_mode])
  with assms(3) show ?thesis by (simp add: in_mode_def tasks_inv_def tasks_logged_def GetTask_def)
qed

text \<open>
  C3. No task is lost or queued twice: when metadata writes are durable, the legacy queue of every
  reachable state lists exactly the tasks whose status is queued, each once, and each with its
  specification. Submission, leasing, redelivery of expired leases, completion, workflow
  scheduling and actor calls all keep it, also when they fail half way.
\<close>

theorem control_queue_exact:
  assumes "world_laws env used logged" and "persists env"
    and "control_run env (NewServiceWithResultStore hasStore localStore threshold False w NewLegacyMemoryStore) s"
  shows "distinct (sv_queue s) \<and> set (sv_queue s) = queued_ids (ms_tasks (sv_meta s)) \<and>
    (\<forall>i tk. GetTask i (sv_meta s) = Some tk \<longrightarrow> (\<exists>spec. specForTask i s = Some spec \<and> sp_TaskId spec = i))"
proof -
  have "in_mode False env used logged s" by (rule tasks.run_keeps [OF assms(1,3) initial_mode])
  with assms(2) show ?thesis
    by (auto simp: in_mode_def tasks_inv_def queue_kept_def queue_exact_def specForTask_def GetTask_def cloneSpec_def)
qed

text \<open>The run of the witnesses: a task is submitted, leased and completed.\<close>

definition demo_run :: "list_world request list \<Rightarrow> list_world service" where
  "demo_run reqs = foldl (\<lambda>s req. fst (handle list_env req s)) list_service reqs"

lemma demo_run_reaches: "(\<forall>req\<in>set reqs. interferences req = {}) \<Longrightarrow> control_run list_env list_service (demo_run reqs)"
  by (induction reqs rule: rev_induct) (auto simp: demo_run_def intro: control_run.intros)

lemma demo_quiet [simp]: "interferences demo_submit = {}" "interferences demo_poll = {}" "interferences demo_complete = {}"
  by (simp_all add: demo_submit_def demo_poll_def demo_complete_def)

lemmas [demo_eval] = demo_run_def list_service_def NewServiceWithResultStore_def NewLegacyMemoryStore_def millis_def defaultQueueHighWatermark_def
  KindTaskSubmitted_def PollTask_def pollTaskNow_def pollBatchLimit_def pollWaitTimeout_def defaultPollBatchLimit_def
  redeliverExpiredTasks_def redeliverExpiredTasksLegacy_def defaultRedeliveryTimeout_def ListTasks_def range_values_def keys_of_def
  lease_expired_def since_def pollTaskLegacy_def actorMailboxReady_def canAssignTaskToWorker_def spec_targets_other_def lease_one_def
  metaResult_def LeaseTask_def leased_def IncrementWorkerLoad_def set_queue_ids_def leasedTaskSpec_def GetTask_def cloneSpec_def
  service_CompleteTask_def ValidateTaskLease_def check_lease_def isTerminalTaskStatus_def finish_task_def appendTaskTerminal_def
  terminal_event_def taskTerminalLogPayload_def marshalTaskLifecyclePayload_def no_fields_def CompleteTask_def completed_def
  DecrementWorkerLoad_def completeSchedulerRunning_def updateSchedulerWorker_def after_completion_def default_worker_def
  GetWorker_def cloneWorker_def

lemma demo_submitted: "sv_queue (demo_run [demo_submit]) = [''task-'']"
  by (simp add: demo_eval act_defs)

lemma demo_done:
  "\<exists>tk. GetTask ''task-'' (sv_meta (demo_run [demo_submit, demo_poll, demo_complete])) = Some tk \<and> tk_Status tk = TASK_STATUS_SUCCEEDED"
  by (simp add: demo_eval act_defs)

theorem control_log_first_witness:
  "\<exists>tk. GetTask ''task-'' (sv_meta (demo_run [demo_submit, demo_poll, demo_complete])) = Some tk \<and>
     submitted_event ''task-'' \<in> set (fst (sv_world (demo_run [demo_submit, demo_poll, demo_complete]))) \<and>
     final_event tk \<in> set (fst (sv_world (demo_run [demo_submit, demo_poll, demo_complete])))"
proof -
  obtain tk where tk: "GetTask ''task-'' (sv_meta (demo_run [demo_submit, demo_poll, demo_complete])) = Some tk"
      "tk_Status tk = TASK_STATUS_SUCCEEDED" using demo_done by blast
  from control_log_first [OF list_world_laws demo_run_reaches [unfolded list_service_def] tk(1)] tk show ?thesis
    by (simp add: isTerminalTaskStatus_def)
qed

theorem control_queue_exact_witness:
  "sv_queue (demo_run [demo_submit]) = [''task-''] \<and> queued_ids (ms_tasks (sv_meta (demo_run [demo_submit]))) = {''task-''}"
proof -
  have "persists list_env" by (simp add: persists_def list_env_def)
  from control_queue_exact [OF list_world_laws this demo_run_reaches [unfolded list_service_def, of "[demo_submit]"]] demo_submitted
  show ?thesis by auto
qed

end
