(* ===== verification/Control_Faults.thy ===== *)
theory Control_Faults
  imports Control_Correct
begin

text \<open>
  Completion under failures: which completions an actor accepts, and what a completion that failed half
  way leaves behind.
\<close>

lemma updateActor_ok:
  assumes "updateActor env i f s = (u, Inr st')"
  obtains st t where "ms_actors (sv_meta s) i = Some st" "st' = (f st)\<lparr>as_UpdatedAtMs := t\<rparr>"
    "ms_actors (sv_meta u) = (ms_actors (sv_meta s))(i \<mapsto> st')"
  using assms
  by (auto simp: updateActor_def metaResult_def metaAt_def nowMs_def now_def andThen_def inWorld_def inMeta_def liftR_def ret_def
    UpdateActor_def Let_def split: prod.splits option.splits sum.splits)

text \<open>The actors an action leaves alone.\<close>

definition same_actors :: "'w service \<Rightarrow> 'w service \<Rightarrow> bool" where
  "same_actors s t \<longleftrightarrow> ms_actors (sv_meta t) = ms_actors (sv_meta s)"

interpretation actors: step_order same_actors
  by unfold_locales (simp_all add: same_actors_def)

lemma same_actors_basic [moves]:
  "within same_actors (inWorld f)" "within same_actors (onScheduler g)"
  by (simp_all add: within_def same_actors_def inWorld_def onScheduler_def split: prod.split)

lemma same_actors_modify: "(\<And>s. sv_meta (h s) = sv_meta s) \<Longrightarrow> within same_actors (modify h)"
  by (simp add: within_def same_actors_def modify_def)

lemma same_actors_events [moves]:
  "within same_actors (nowMs env)" "within same_actors (actorEvent env i ev key p)" "within same_actors (putBytes env ns data)"
  unfolding nowMs_def now_def actorEvent_def appendLog_def putBytes_def
  by (intro actors.within_rules same_actors_basic same_actors_modify; simp)+

text \<open>An action on an actor: events first, then one update of its state.\<close>

lemma after_same_actors:
  assumes "within same_actors m" "andThen m f s = (t, Inr y)"
  obtains u x where "ms_actors (sv_meta u) = ms_actors (sv_meta s)" "f x u = (t, Inr y)"
proof (cases "m s")
  case (Pair u r)
  with assms show ?thesis using within_result [OF assms(1) Pair] that
    by (cases r) (auto simp: andThen_def same_actors_def)
qed

lemma updateActor_then:
  assumes "andThen (updateActor env i f) k s = (t, Inr y)" "ms_actors (sv_meta s) i = Some st"
  obtains u tm where "ms_actors (sv_meta u) = (ms_actors (sv_meta s))(i \<mapsto> (f st)\<lparr>as_UpdatedAtMs := tm\<rparr>)"
    "k ((f st)\<lparr>as_UpdatedAtMs := tm\<rparr>) u = (t, Inr y)"
proof -
  obtain u r where up: "updateActor env i f s = (u, r)" by fastforce
  with assms(1) obtain st' where r: "r = Inr st'" and k: "k st' u = (t, Inr y)"
    by (cases r) (auto simp: andThen_def)
  from up [unfolded r] obtain st0 tm where "ms_actors (sv_meta s) i = Some st0" "st' = (f st0)\<lparr>as_UpdatedAtMs := tm\<rparr>"
    "ms_actors (sv_meta u) = (ms_actors (sv_meta s))(i \<mapsto> st')"
    by (rule updateActor_ok)
  with assms(2) k that show ?thesis by simp
qed

definition advanced :: "task \<Rightarrow> complete_request \<Rightarrow> bytes \<Rightarrow> actor_state \<Rightarrow> actor_state \<Rightarrow> bool" where
  "advanced tk req stateJSON st st' \<longleftrightarrow> as_CommandCount st' = as_CommandCount st + 1 \<and> as_OwnerWorkerID st' = cr_WorkerId req \<and>
     as_Epoch st' = cr_ActorEpoch req \<and> as_StateJSON st' = stateJSON"

lemma fail_effect:
  assumes "failActorCommand env tk req spec (as_CommandCount st + 1) s = (t, Inr ())" "ms_actors (sv_meta s) (tk_ActorID tk) = Some st"
  shows "\<exists>st'. ms_actors (sv_meta t) (tk_ActorID tk) = Some st' \<and> advanced tk req (as_StateJSON st) st st'"
  using assms(1) unfolding failActorCommand_def
  apply (elim after_same_actors [OF same_actors_events(1)] after_same_actors [OF same_actors_events(2)])
  apply (erule updateActor_then)
  using assms(2) by (auto simp: ret_def advanced_def raise_submitted_def)

lemma snapshot_effect:
  assumes "createActorSnapshot env state s = (t, Inr ())" "ms_actors (sv_meta s) (as_ActorID state) = Some st"
  obtains st' where "ms_actors (sv_meta t) (as_ActorID state) = Some st'" "as_CommandCount st' = as_CommandCount st"
    "as_OwnerWorkerID st' = as_OwnerWorkerID st" "as_Epoch st' = as_Epoch st" "as_StateJSON st' = as_StateJSON st"
proof (cases "sv_resultStore s")
  case False
  with assms that show ?thesis by (simp add: createActorSnapshot_def andThen_def asks_def ret_def)
next
  case True
  have trim: "within same_actors (if b then andThen (inWorld g) (\<lambda>_. ret ()) else ret ())" for b g
    by (intro actors.within_rules same_actors_basic)
  from True assms(1) show ?thesis
    unfolding createActorSnapshot_def andThen_def [of "asks _"] asks_def
    apply simp
    apply (elim after_same_actors [OF same_actors_events(1)] after_same_actors [OF same_actors_events(2)]
        after_same_actors [OF same_actors_events(3)] after_same_actors [OF trim])
    apply (erule updateActor_then)
    using assms(2) that by (auto simp: ret_def)
qed

lemma apply_effect:
  assumes "applyActorCommand env tk req spec (as_CommandCount st + 1) s = (t, Inr ())"
    and st: "ms_actors (sv_meta s) (tk_ActorID tk) = Some st" "as_ActorID st = tk_ActorID tk"
  shows "\<exists>st'. ms_actors (sv_meta t) (tk_ActorID tk) = Some st' \<and>
    advanced tk req (NormalizeJSON (ce_compact env) (cr_ActorStateJson req)) st st'"
proof -
  let ?f = "\<lambda>current. current\<lparr>as_CommandCount := as_CommandCount st + 1,
    as_StateJSON := NormalizeJSON (ce_compact env) (cr_ActorStateJson req), as_OwnerWorkerID := cr_WorkerId req, as_Epoch := cr_ActorEpoch req\<rparr>"
  let ?k = "\<lambda>updated. if 0 < as_SnapshotEvery updated \<and> as_CommandCount updated mod ucast (as_SnapshotEvery updated) = 0
      then createActorSnapshot env updated else ret ()"
  from assms(1) obtain u where u: "ms_actors (sv_meta u) = ms_actors (sv_meta s)"
      "andThen (updateActor env (tk_ActorID tk) ?f) ?k u = (t, Inr ())"
    unfolding applyActorCommand_def Let_def
    by (elim after_same_actors [OF same_actors_events(1)] after_same_actors [OF same_actors_events(2)]) simp
  from u(1) st(1) have "ms_actors (sv_meta u) (tk_ActorID tk) = Some st" by simp
  from updateActor_then [OF u(2) this] obtain v tm where v: "ms_actors (sv_meta v) = (ms_actors (sv_meta u))(tk_ActorID tk \<mapsto> (?f st)\<lparr>as_UpdatedAtMs := tm\<rparr>)"
      "?k ((?f st)\<lparr>as_UpdatedAtMs := tm\<rparr>) v = (t, Inr ())" by blast
  let ?st = "(?f st)\<lparr>as_UpdatedAtMs := tm\<rparr>"
  show ?thesis
  proof (cases "0 < as_SnapshotEvery ?st \<and> as_CommandCount ?st mod ucast (as_SnapshotEvery ?st) = 0")
    case True
    with v(2) have "createActorSnapshot env ?st v = (t, Inr ())" by simp
    then show ?thesis
      by (rule snapshot_effect [where st = ?st]) (use v(1) st(2) in \<open>auto simp: advanced_def\<close>)
  next
    case False
    with v(2) have "t = v" by (auto simp: ret_def split: if_splits)
    with v(1) show ?thesis by (simp add: advanced_def)
  qed
qed

definition command_number :: "task \<Rightarrow> actor_state \<Rightarrow> u64" where
  "command_number tk st = (if tk_ActorCommandSeq tk = 0 then as_CommandCount st + 1 else tk_ActorCommandSeq tk)"

lemma completeActorCall_eval:
  assumes "GetActor (tk_ActorID tk) (sv_meta s) = Some st"
  shows "completeActorCall env tk req s =
    (if cr_WorkerId req \<noteq> as_OwnerWorkerID st \<or> cr_ActorEpoch req \<noteq> as_Epoch st then (s, Inl StaleActorCompletion)
     else if command_number tk st \<noteq> as_CommandCount st + 1 then (s, Inl OutOfOrderCommand)
     else case specForTask (tk_TaskID tk) s of
       None \<Rightarrow> (s, Inl (Invalid ''actor task spec not found''))
     | Some sp \<Rightarrow> if cr_Status req = TASK_STATUS_FAILED then failActorCommand env tk req sp (as_CommandCount st + 1) s
         else applyActorCommand env tk req sp (as_CommandCount st + 1) s)"
  using assms by (auto simp: completeActorCall_def andThen_def asksMeta_def asks_def fail_def Let_def command_number_def split: option.split)

subsection \<open>Properties\<close>

text \<open>
  C19. An actor applies its commands in mailbox order under its current owner: a completion is accepted
  only from the worker that owns the actor, with the actor's epoch and, when the task has a command
  number (zero counts as the next one), the number after the last applied one; then the count grows by one, owner and epoch
  stay, and the state is the reported one (unchanged when the command failed). A completion from an
  earlier owner or epoch, or out of order, is rejected and changes nothing.
\<close>

theorem actor_commands_in_order:
  assumes "GetActor (tk_ActorID tk) (sv_meta s) = Some st" and "as_ActorID st = tk_ActorID tk"
    and "completeActorCall env tk req s = (t, r)"
  shows "(r = Inr () \<longrightarrow> cr_WorkerId req = as_OwnerWorkerID st \<and> cr_ActorEpoch req = as_Epoch st \<and>
      (tk_ActorCommandSeq tk \<noteq> 0 \<longrightarrow> tk_ActorCommandSeq tk = as_CommandCount st + 1) \<and>
      (\<exists>st'. GetActor (tk_ActorID tk) (sv_meta t) = Some st' \<and> as_CommandCount st' = as_CommandCount st + 1 \<and>
         as_OwnerWorkerID st' = as_OwnerWorkerID st \<and> as_Epoch st' = as_Epoch st \<and>
         as_StateJSON st' = (if cr_Status req = TASK_STATUS_FAILED then as_StateJSON st
           else NormalizeJSON (ce_compact env) (cr_ActorStateJson req)))) \<and>
    (cr_WorkerId req \<noteq> as_OwnerWorkerID st \<or> cr_ActorEpoch req \<noteq> as_Epoch st \<longrightarrow> t = s \<and> r = Inl StaleActorCompletion) \<and>
    (cr_WorkerId req = as_OwnerWorkerID st \<and> cr_ActorEpoch req = as_Epoch st \<and> tk_ActorCommandSeq tk \<noteq> 0 \<and>
       tk_ActorCommandSeq tk \<noteq> as_CommandCount st + 1 \<longrightarrow> t = s \<and> r = Inl OutOfOrderCommand)"
proof -
  have st: "ms_actors (sv_meta s) (tk_ActorID tk) = Some st" using assms(1) by (simp add: GetActor_def)
  note eval = assms(3) [unfolded completeActorCall_eval [where env = env and req = req, OF assms(1)]]
  have "cr_WorkerId req = as_OwnerWorkerID st \<and> cr_ActorEpoch req = as_Epoch st \<and> command_number tk st = as_CommandCount st + 1 \<and>
      (\<exists>st'. ms_actors (sv_meta t) (tk_ActorID tk) = Some st' \<and> advanced tk req (if cr_Status req = TASK_STATUS_FAILED then as_StateJSON st
        else NormalizeJSON (ce_compact env) (cr_ActorStateJson req)) st st')" if "r = Inr ()"
    using eval that fail_effect [OF _ st] apply_effect [OF _ st assms(2)] by (auto split: if_splits option.splits)
  then show ?thesis
    using eval by (auto simp: advanced_def GetActor_def command_number_def split: if_splits)
qed


text \<open>
  The state of the witnesses: an actor with the given number of applied commands and its first command,
  leased to the owner.
\<close>

definition actor_demo :: "u64 \<Rightarrow> list_world service" where
  "actor_demo applied = list_service\<lparr>
     sv_meta := NewLegacyMemoryStore\<lparr>
       ms_tasks := [''t'' \<mapsto> zero_task\<lparr>tk_TaskID := ''t'', tk_Status := TASK_STATUS_RUNNING, tk_WorkerID := ''w'', tk_ActorID := ''a'',
         tk_ActorCallID := ''t'', tk_ActorCommandSeq := 1, tk_TaskLeaseEpoch := 1\<rparr>],
       ms_actors := [''a'' \<mapsto> zero_actor_state\<lparr>as_ActorID := ''a'', as_OwnerWorkerID := ''w'', as_Epoch := 3, as_CommandCount := applied\<rparr>]\<rparr>,
     sv_specs := [''t'' \<mapsto> zero_spec\<lparr>sp_TaskId := ''t''\<rparr>]\<rparr>"

definition actor_demo_request :: complete_request where
  "actor_demo_request = \<lparr>cr_TaskId = ''t'', cr_WorkerId = ''w'', cr_Status = TASK_STATUS_SUCCEEDED, cr_ResultJson = [], cr_Error = '''',
     cr_ActorStateJson = [], cr_ActorEpoch = 3, cr_TaskLeaseEpoch = 1\<rparr>"

definition actor_demo_task :: task where
  "actor_demo_task = the (ms_tasks (sv_meta (actor_demo 0)) ''t'')"

text \<open>An environment whose log refuses the terminal event of a task.\<close>

definition refusing_env :: "list_world control_env" where
  "refusing_env = list_env\<lparr>ce_append := (\<lambda>req w. if rq_EventType req = ''TaskCompleted'' then (w, Inl StreamIDRequired) else ce_append list_env req w)\<rparr>"

lemmas [demo_eval] = actor_demo_def actor_demo_request_def actor_demo_task_def refusing_env_def zero_actor_state_def zero_actor_payload_def
  completeActorCall_eval specForTask_def applyActorCommand_def actorEvent_def updateActor_def UpdateActor_def GetActor_def
  NormalizeJSON_def


lemma actor_demo_applies: "snd (completeActorCall list_env actor_demo_task actor_demo_request (actor_demo 0)) = Inr ()"
  by (simp add: demo_eval act_defs command_number_def)

theorem actor_commands_in_order_witness:
  "\<exists>st. GetActor ''a'' (sv_meta (fst (completeActorCall list_env actor_demo_task actor_demo_request (actor_demo 0)))) = Some st \<and>
     as_CommandCount st = 1 \<and> as_OwnerWorkerID st = ''w'' \<and> as_Epoch st = 3"
proof -
  let ?st = "the (GetActor ''a'' (sv_meta (actor_demo 0)))"
  have tk: "tk_ActorID actor_demo_task = ''a''" and st: "GetActor (tk_ActorID actor_demo_task) (sv_meta (actor_demo 0)) = Some ?st"
      "as_ActorID ?st = tk_ActorID actor_demo_task" "as_CommandCount ?st = 0" "as_OwnerWorkerID ?st = ''w''" "as_Epoch ?st = 3"
    by (simp_all add: actor_demo_task_def actor_demo_def zero_actor_state_def zero_task_def GetActor_def)
  have run: "completeActorCall list_env actor_demo_task actor_demo_request (actor_demo 0) =
      (fst (completeActorCall list_env actor_demo_task actor_demo_request (actor_demo 0)), Inr ())"
    using actor_demo_applies by (metis prod.collapse)
  from actor_commands_in_order [OF st(1,2) run] show ?thesis unfolding st(3-5) tk by auto
qed

text \<open>
  C39. In a state in which a command has been applied to its actor but its task is not finished, which a
  refused terminal append leaves behind, the task is stuck: no completion of it is accepted any more,
  whoever sends it, the service stays as it was, and no worker may lease the task again.
\<close>

theorem actor_applied_task_stuck:
  assumes "GetTask (cr_TaskId req) (sv_meta s) = Some tk" and "\<not> isTerminalTaskStatus (tk_Status tk)"
    and "tk_ActorID tk \<noteq> ''''" and "GetActor (tk_ActorID tk) (sv_meta s) = Some st"
    and "tk_ActorCommandSeq tk \<noteq> 0" and "tk_ActorCommandSeq tk \<le> as_CommandCount st" and "as_CommandCount st + 1 \<noteq> 0"
  shows "(\<exists>e. service_CompleteTask env req s = (s, Inl e)) \<and> \<not> actorMailboxReady tk workerID (sv_meta s)"
proof -
  have late: "tk_ActorCommandSeq tk \<noteq> as_CommandCount st + 1"
    using assms(6,7) unatSuc [of "as_CommandCount st"] by (auto simp: word_le_nat_alt add.commute)
  have call: "\<exists>e. completeActorCall env tk req s = (s, Inl e)"
    using completeActorCall_eval [OF assms(4)] assms(5) late by (auto simp: command_number_def)
  have "ValidateTaskLease (cr_TaskId req) (cr_WorkerId req) (cr_TaskLeaseEpoch req) (sv_meta s) = Inr tk \<or>
      (\<exists>e. ValidateTaskLease (cr_TaskId req) (cr_WorkerId req) (cr_TaskLeaseEpoch req) (sv_meta s) = Inl e)"
    using assms(1) by (auto simp: ValidateTaskLease_def GetTask_def)
  then have "\<exists>e. service_CompleteTask env req s = (s, Inl e)"
    using assms(1-3) call by (auto simp: service_CompleteTask_def andThen_def require_def asksMeta_def liftR_def ret_def fail_def)
  with assms(3-5) late show ?thesis by (simp add: actorMailboxReady_def Let_def)
qed

text \<open>The completion of the witness state fails half way when the log refuses the terminal event.\<close>

definition half_done :: "list_world service" where
  "half_done = fst (service_CompleteTask refusing_env actor_demo_request (actor_demo 0))"

lemma half_done_state:
  "\<exists>tk st. GetTask ''t'' (sv_meta half_done) = Some tk \<and> tk_Status tk = TASK_STATUS_RUNNING \<and> tk_ActorID tk = ''a'' \<and>
     tk_ActorCommandSeq tk = 1 \<and> GetActor ''a'' (sv_meta half_done) = Some st \<and> as_CommandCount st = 1"
  by (simp add: half_done_def demo_eval act_defs command_number_def)

theorem actor_applied_task_stuck_witness:
  "\<exists>tk. GetTask ''t'' (sv_meta half_done) = Some tk \<and> (\<exists>e. service_CompleteTask list_env actor_demo_request half_done = (half_done, Inl e)) \<and>
     \<not> actorMailboxReady tk ''w'' (sv_meta half_done)"
proof -
  obtain tk st where h: "GetTask ''t'' (sv_meta half_done) = Some tk" "tk_Status tk = TASK_STATUS_RUNNING" "tk_ActorID tk = ''a''"
      "tk_ActorCommandSeq tk = 1" "GetActor ''a'' (sv_meta half_done) = Some st" "as_CommandCount st = 1"
    using half_done_state by blast
  have id: "cr_TaskId actor_demo_request = ''t''" by (simp add: actor_demo_request_def)
  have "(\<exists>e. service_CompleteTask list_env actor_demo_request half_done = (half_done, Inl e)) \<and> \<not> actorMailboxReady tk ''w'' (sv_meta half_done)"
    by (rule actor_applied_task_stuck [where st = st]) (simp_all add: id h isTerminalTaskStatus_def)
  with h(1) show ?thesis by blast
qed

subsection \<open>Errors after the terminal write\<close>

lemma andThen_error:
  assumes "andThen m f s = (t, Inl e)"
  obtains "m s = (t, Inl e)" | u x where "m s = (u, Inr x)" "f x u = (t, Inl e)"
  using assms by (auto simp: andThen_def split: prod.splits sum.splits)

lemma finish_error:
  assumes laws: "world_laws env used logged" and run: "finish_task env v req s = (t, Inl e)"
  shows "ms_tasks (sv_meta t) = ms_tasks (sv_meta s)"
proof -
  have log: "ms_tasks (sv_meta u) = ms_tasks (sv_meta s)"
    if "appendTaskTerminal env v (cr_Status req) (cr_ResultJson req) (cr_Error req) s = (u, r)" for u r
    using within_result [OF frame_handlers(3) [OF laws] that] by (simp add: frame_def)
  show ?thesis
    using run unfolding finish_task_def
    apply (elim andThen_error)
    apply (auto dest!: log simp: act_defs completeSchedulerRunning_def updateSchedulerWorker_def split: if_splits option.splits)
    by (auto simp: metaResult_def metaAt_def nowMs_def now_def act_defs CompleteTask_def Let_def split: prod.splits option.splits if_splits)
qed

lemma finish_value:
  assumes laws: "world_laws env used logged" and run: "finish_task env v req s = (t, Inr tk)"
    and old: "ms_tasks (sv_meta s) (cr_TaskId req) = Some tk0"
  shows "tk_WorkflowID tk = tk_WorkflowID tk0"
proof -
  have log: "ms_tasks (sv_meta u) = ms_tasks (sv_meta s)"
    if "appendTaskTerminal env v (cr_Status req) (cr_ResultJson req) (cr_Error req) s = (u, r)" for u r
    using within_result [OF frame_handlers(3) [OF laws] that] by (simp add: frame_def)
  show ?thesis
    using run old unfolding finish_task_def
    by (auto dest!: log simp: metaResult_def metaAt_def nowMs_def now_def act_defs CompleteTask_def completed_def Let_def
      completeSchedulerRunning_def updateSchedulerWorker_def
      split: prod.splits sum.splits option.splits if_splits)
qed


lemma after_completion_error: "after_completion env tk req s = (t, Inl e) \<Longrightarrow> tk_WorkflowID tk \<noteq> ''''"
  by (auto simp: after_completion_def notifyTaskAvailable_def act_defs split: prod.splits sum.splits if_splits)

lemma complete_error_cases:
  assumes laws: "world_laws env used logged" and run: "service_CompleteTask env req s = (t, Inl e)"
    and old: "ms_tasks (sv_meta s) (cr_TaskId req) = Some tk0" "\<not> isTerminalTaskStatus (tk_Status tk0)"
  shows "ms_tasks (sv_meta t) = ms_tasks (sv_meta s) \<or> tk_WorkflowID tk0 \<noteq> '''' \<and> tk_ActorID tk0 = ''''"
proof (cases "t = s")
  case False
  then have run': "(if tk_ActorID tk0 \<noteq> '''' then
         andThen (completeActorCall env tk0 req) (\<lambda>_. andThen (finish_task env tk0 req) (\<lambda>_. notifyTaskAvailable))
       else andThen (finish_task env tk0 req) (\<lambda>tk. after_completion env tk req)) s = (t, Inl e)"
    using run old by (auto simp: service_CompleteTask_def andThen_def [of "require _ _"] andThen_def [of "asksMeta _"]
      andThen_def [of "liftR _"] andThen_def [of "fail _"] require_def asksMeta_def liftR_def ret_def fail_def GetTask_def ValidateTaskLease_def
      isTerminalTaskStatus_def split: if_splits)
  have call: "ms_tasks (sv_meta u) = ms_tasks (sv_meta s)" if "completeActorCall env tk0 req s = (u, r)" for u r
    using within_result [OF frame_actor_calls(1) [OF laws] that] by (simp add: frame_def)
  show ?thesis
  proof (cases "tk_ActorID tk0 = ''''")
    case True
    with run' have "andThen (finish_task env tk0 req) (\<lambda>tk. after_completion env tk req) s = (t, Inl e)" by simp
    then show ?thesis
      by (rule andThen_error) (use finish_error [OF laws] finish_value [OF laws _ old(1)] after_completion_error True in metis)+
  next
    case actor: False
    with run' have "andThen (completeActorCall env tk0 req) (\<lambda>_. andThen (finish_task env tk0 req) (\<lambda>_. notifyTaskAvailable)) s = (t, Inl e)"
      by simp
    then show ?thesis
      by (elim andThen_error) (auto dest!: call finish_error [OF laws] simp: notifyTaskAvailable_def modify_def)
  qed
qed simp

text \<open>
  C40. When a completion answers with an error although it made the task terminal, the task is a step of a
  workflow: what failed is the progress of the workflow. Every later completion of the task is then
  accepted and does nothing but free the worker's slot in the scheduler, so the retry that the error asks
  for never advances the workflow.
\<close>

theorem completion_error_not_retried:
  assumes "world_laws env used logged" and "service_CompleteTask env req s = (t, Inl e)"
    and "GetTask (cr_TaskId req) (sv_meta s) = Some tk0" and "\<not> isTerminalTaskStatus (tk_Status tk0)"
    and "GetTask (cr_TaskId req) (sv_meta t) = Some tk" and "isTerminalTaskStatus (tk_Status tk)"
    and "cr_TaskId again = cr_TaskId req" and "cr_Status again = TASK_STATUS_SUCCEEDED \<or> cr_Status again = TASK_STATUS_FAILED"
  shows "tk_WorkflowID tk0 \<noteq> '''' \<and> tk_ActorID tk0 = '''' \<and>
    service_CompleteTask env again t = (t\<lparr>sv_scheduler := CompleteRunning (cr_TaskId req) (sv_scheduler t)\<rparr>, Inr ())"
proof -
  from assms(3-6) have "ms_tasks (sv_meta t) \<noteq> ms_tasks (sv_meta s)" by (auto simp: GetTask_def)
  with complete_error_cases [OF assms(1,2)] assms(3,4) have "tk_WorkflowID tk0 \<noteq> '''' \<and> tk_ActorID tk0 = ''''"
    by (auto simp: GetTask_def)
  moreover have "service_CompleteTask env again t = (t\<lparr>sv_scheduler := CompleteRunning (cr_TaskId req) (sv_scheduler t)\<rparr>, Inr ())"
    using assms(5-8) by (auto simp: service_CompleteTask_def completeSchedulerRunning_def act_defs)
  ultimately show ?thesis by simp
qed

text \<open>The witness: a step whose workflow the metadata does not have.\<close>

definition orphan_demo :: "list_world service" where
  "orphan_demo = list_service\<lparr>sv_meta := NewLegacyMemoryStore\<lparr>ms_tasks := [''t'' \<mapsto> zero_task\<lparr>tk_TaskID := ''t'',
     tk_Status := TASK_STATUS_RUNNING, tk_WorkerID := ''w'', tk_WorkflowID := ''wf'', tk_StepID := ''a'', tk_TaskLeaseEpoch := 1\<rparr>]\<rparr>\<rparr>"

lemma orphan_demo_fails:
  "\<exists>tk0 e. GetTask ''t'' (sv_meta orphan_demo) = Some tk0 \<and> tk_Status tk0 = TASK_STATUS_RUNNING \<and>
     snd (service_CompleteTask list_env actor_demo_request orphan_demo) = Inl e"
  "\<exists>tk. GetTask ''t'' (sv_meta (fst (service_CompleteTask list_env actor_demo_request orphan_demo))) = Some tk \<and>
     tk_Status tk = TASK_STATUS_SUCCEEDED"
  by (simp_all add: orphan_demo_def demo_eval act_defs completeWorkflowStep_def withStep_def GetWorkflow_def)

theorem completion_error_not_retried_witness:
  "\<exists>t e. service_CompleteTask list_env actor_demo_request orphan_demo = (t, Inl e) \<and>
     service_CompleteTask list_env actor_demo_request t = (t\<lparr>sv_scheduler := CompleteRunning ''t'' (sv_scheduler t)\<rparr>, Inr ())"
proof -
  let ?t = "fst (service_CompleteTask list_env actor_demo_request orphan_demo)"
  obtain tk0 e tk where h: "GetTask ''t'' (sv_meta orphan_demo) = Some tk0" "tk_Status tk0 = TASK_STATUS_RUNNING"
      "service_CompleteTask list_env actor_demo_request orphan_demo = (?t, Inl e)"
      "GetTask ''t'' (sv_meta ?t) = Some tk" "tk_Status tk = TASK_STATUS_SUCCEEDED"
    using orphan_demo_fails by (metis prod.collapse)
  have id: "cr_TaskId actor_demo_request = ''t''" "cr_Status actor_demo_request = TASK_STATUS_SUCCEEDED"
    by (simp_all add: actor_demo_request_def)
  have "tk_WorkflowID tk0 \<noteq> '''' \<and> tk_ActorID tk0 = '''' \<and> service_CompleteTask list_env actor_demo_request ?t =
      (?t\<lparr>sv_scheduler := CompleteRunning (cr_TaskId actor_demo_request) (sv_scheduler ?t)\<rparr>, Inr ())"
    by (rule completion_error_not_retried [OF list_world_laws h(3), where tk = tk]) (use h(1,2,4,5) id in \<open>simp_all add: isTerminalTaskStatus_def\<close>)
  with h(3) id show ?thesis by metis
qed

end
