(* ===== verification/Spec2Isabelle.thy ===== *)
theory Spec2Isabelle
  imports Workflow_Replay Actor_Model Actor_Lock Log_Recovery Log_Faults Scheduler_Correct
    Reader_Cache Log_Client Metadata_Race Control_Faults
begin

text \<open>
  \<^bold>\<open>LogServe: verification of the log, the metadata, the scheduler and the control service\<close>

  LogServe is a task, workflow, actor and model-serving platform written in Go. Its control plane
  (\<open>internal/control\<close>) keeps every durable fact as an event in a single-process append-only log
  (\<open>internal/logstore\<close>), holds the current state in a metadata store (\<open>internal/metadata\<close>), runs
  workflows as DAGs of tasks (\<open>internal/workflow\<close>), actors as event-sourced objects
  (\<open>internal/actor\<close>, \<open>internal/actorlock\<close>) and hands tasks to polling workers through a scheduler.
  After a crash the metadata is rebuilt from the log. This development models these parts and proves
  what the others rely on. Definitions keep the names of the Go functions; record fields carry a
  prefix per type; errors are left values of a sum; machine integers are words where arithmetic can
  wrap.

  \<^bold>\<open>The theories\<close>

  \<^item> \<open>LS_Prelude\<close>: byte lists, integer widths, the failing left fold \<open>fold_result\<close>, list and map lemmas.
  \<^item> \<open>Workflow_Types\<close>, \<open>Topo_Sort\<close>, \<open>Workflow_Validate\<close>: \<open>workflow/model.go\<close>, definitions. Parsing,
    validation by depth-first search and Kahn's sort are shown to accept exactly the acyclic
    definitions with known dependencies, and the sort to be a stable topological permutation.
  \<^item> \<open>Workflow_DAG\<close>: \<open>workflow/model.go\<close>, the runtime. Dependency counters and the ready queue are
    maintained incrementally; in every reachable state they agree with a rebuild from scratch, the
    queue misses no runnable step, and a workflow can only stall behind a step that runs or has failed.
  \<^item> \<open>Event_Codec\<close>: \<open>eventcodec/eventcodec.go\<close> and \<open>logrecord/record.go\<close>, the binary envelope.
  \<^item> \<open>Workflow_Replay\<close>: \<open>workflow/replay.go\<close>. Payload round trips, replay from a checkpoint equals the
    full replay, replay results are well formed.
  \<^item> \<open>Actor_Model\<close>: \<open>actor/model.go\<close>. Snapshot-assisted replay equals full replay.
  \<^item> \<open>Actor_Lock\<close>: \<open>actorlock/table.go\<close> as interleaved atomic steps. Mutual exclusion, exact reference
    counts, no leaked entries.
  \<^item> \<open>Record_Codec\<close>: \<open>logstore/checksum.go\<close>, the record format of \<open>logstore/store.go\<close> and the mapped
    and unmapped readers of \<open>segment_reader.go\<close>. Round trip, torn records, agreement of the readers.
  \<^item> \<open>Log_Store\<close>, \<open>Log_Refinement\<close>: append, read, trim, statistics and segment rolls of
    \<open>logstore/store.go\<close>, refined to a list of records per segment as long as writes and syncs succeed.
  \<^item> \<open>Log_Recovery\<close>, \<open>Log_Faults\<close>: reopening by a scan after a crash, also in the middle of a write,
    restores the state of the index; what a failed sync does to the next append.
  \<^item> \<open>Reader_Cache\<close>: the reference-counted LRU cache of segment readers as interleaved critical
    sections; bounds and absence of leaks.
  \<^item> \<open>Log_Reading\<close>: the raw reader that gives up the store lock between batches, and
    \<open>logstore/service.go\<close>. It ends and returns the snapshot taken at its first lock.
  \<^item> \<open>Log_Client\<close>: \<open>control/log_read.go\<close> and the page loop of \<open>control/checkpoint.go\<close>. The locale
    \<open>history_client\<close> states what the loops need of a log client; it is interpreted on the log service.
  \<^item> \<open>Task_Deque\<close>, \<open>Lease_Heap\<close>, \<open>Placement\<close>, \<open>Placement_Index\<close>, \<open>Scheduler\<close>, \<open>Scheduler_Correct\<close>:
    \<open>control/scheduler.go\<close>, \<open>control/scheduler_placement.go\<close> and the scan of \<open>control/llm.go\<close> that the
    index replaces. No task is lost or handed out twice, the expiry scan is exact, the incremental
    placement lists equal a rebuild and the indexed choice equals the scan.
  \<^item> \<open>Deadline_Queue\<close>, \<open>Metadata_Memory\<close>, \<open>Metadata_Sharded\<close>, \<open>Metadata_Refine\<close>, \<open>Metadata_Store\<close>,
    \<open>Metadata_Race\<close>: \<open>metadata/memory.go\<close> (one lock, the reference), \<open>metadata/memory_v2.go\<close> (task shards
    with secondary indexes and an indexed expiry heap) and the interface of \<open>metadata/store.go\<close>. The
    sharded store refines the reference on every run of the interface that meets \<open>op_ok\<close>; lease epochs
    fence stale workers; terminal tasks are final; \<open>Metadata_Race\<close> interleaves the critical sections that
    the sharded store leaves between the shard and its indexes, and listings that take one lock after
    another.
  \<^item> \<open>Task_Replay\<close>: \<open>control/task_replay.go\<close>, \<open>lifecycle_codec.go\<close>, fingerprints of \<open>idempotency.go\<close> and
    the compatibility replay of \<open>bootstrap.go\<close>. Round trips, checkpoints, and an epoch that a restart
    hands out twice.

  \<^item> \<open>Control_State\<close>, \<open>Control_Tasks\<close>, \<open>Control_Workflow\<close>, \<open>Control_LLM\<close>, \<open>Control_Actor\<close>, \<open>Control_Service\<close>:
    the RPC handlers of \<open>control/service.go\<close>, \<open>hardening.go\<close>, \<open>functions.go\<close>, \<open>llm.go\<close>, \<open>actor.go\<close> and
    \<open>workflow/args.go\<close>. A handler is an action on the record \<open>service\<close> that can fail anywhere and then
    keeps what it did before; \<open>control_run\<close> answers requests one after the other.
  \<^item> \<open>Control_Rules\<close>, \<open>Control_Invariant\<close>, \<open>Control_Queue\<close>, \<open>Control_Correct\<close>, \<open>Control_Faults\<close>: rules for
    actions (the locale \<open>step_order\<close>: what an action leaves alone; the locale \<open>task_invariant\<close>: what every
    handler keeps), their interpretations on the handlers, and the properties: events are logged before
    the metadata follows, the queue is exact, actors apply commands in order, and what a completion that
    failed half way leaves behind. The log store meets the laws the handlers need (\<open>store_world_laws\<close>).

  \<^bold>\<open>Parameters and hypotheses\<close>

  Code outside the repository is an argument: CRC32C and XXH3 (\<open>hashes\<close>, with \<open>crc32c_incremental\<close>), the
  msgpack, JSON and protobuf codecs (\<open>msgpack_faithful\<close>, \<open>lifecycle_faithful\<close>, \<open>spec_faithful\<close>: decoding
  gives back what was encoded, up to integer widths), SHA-256, the answers of the operating system
  (\<open>env\<close>), the clock (\<open>clock_ok\<close>: not before the epoch, within 64 bits) and the order in which a Go
  map is enumerated (\<open>enumerates\<close>: some permutation). \<open>options_ok\<close> bounds the options of a log store. \<open>op_ok\<close>
  bounds clock readings and durations to what their Go types hold and asks for two things more: a
  redelivery scan starts where every running task has a lease epoch and an identifier
  (\<open>leases_valid\<close>), and the callback of a workflow update keeps the runtime (\<open>has_runtime\<close>). An operation
  of the store interface reads the clock once; the code reads it again for each task a scan requeues. The control service is a function of a record \<open>control_env\<close> over a world of any
  type: log, object store, clock and random source change the world; \<open>world_laws\<close> says that an
  acknowledged append is in the log, that nothing is forgotten and that random identifiers do not
  repeat, \<open>persists\<close> that metadata writes are durable. Handlers run one at a time, except that a
  call that waits lets others run: its wake-ups carry what they did. Each property that uses one has a witness with concrete functions.

  \<^bold>\<open>Termination\<close>

  Loops are structural or have a decreasing measure, except the raw reader and the two page
  loops, whose number of rounds depends on answers of the store and the client. They run on fuel and
  return \<open>None\<close> without enough; \<open>raw_read_snapshot\<close> and \<open>control_read_complete\<close> show that a fuel above the
  number of records gives a result.

  \<^bold>\<open>Not modelled\<close>

  Generated protocol buffers, process wiring, the command line, HTTP and HTML handlers, TLS, the
  worker agent (process control and network polling), object stores and the PostgreSQL store only move
  data in and out. Log compaction with its reconciliation before recovery, the index files of the fast
  recovery path and the loops that bootstrap the whole service are not modelled; the replay functions
  they call are.
\<close>

end
